(* ===== verification/Prelude.thy ===== *)
theory Prelude
  imports Main "HOL-Library.Word" "HOL-Library.Monad_Syntax"
    "HOL-Library.List_Lexorder" "HOL-Library.Char_ord" "HOL-Library.Multiset"
begin

text \<open>
  The vocabulary every component of the model shares.

  Rust values are modelled as follows.  A 32-bit database key (a \<open>Ukey\<close>) is a 32-bit word, an
  interned string (\<open>Ustr\<close>, \<open>Identifier\<close>, \<open>String\<close>) is a byte list and is compared bytewise, as Rust
  does.  A panic (\<open>expect\<close>, \<open>unwrap\<close>, \<open>unreachable!\<close>) is the value \<^term>\<open>None\<close> of the option
  monad.  A \<open>HashSet\<close> is a set, a \<open>HashMap\<close> a partial map, an \<open>IndexSet\<close> a list without duplicates,
  a \<open>Vec\<close> a list.  Where the source iterates over a hash container, the order of that iteration is
  an argument of the model that satisfies \<open>hash_order\<close>, so what is proved holds for every order.

  The theory holds the three-way comparison and the stable sort of the standard library with the
  contract \<open>comparator\<close>, loops over the option monad, and the depth-first walk that
  the chunk and graph queries share.
\<close>

type_synonym u32 = "32 word"
type_synonym ustr = string
type_synonym module_identifier = string

named_theorems op_defs "definitions of the operations of a component"
named_theorems inv_intros "introduction rules for the invariants of a component"

section \<open>Options and loops\<close>

lemma bind_eq_Some: "Option.bind m f = Some y \<longleftrightarrow> (\<exists>x. m = Some x \<and> f x = Some y)"
  by (cases m) auto

lemma bind_eq_None: "Option.bind m f = None \<longleftrightarrow> (m = None \<or> (\<exists>x. m = Some x \<and> f x = None))"
  by (cases m) auto

primrec for_each :: "('a \<Rightarrow> 's \<Rightarrow> 's option) \<Rightarrow> 'a list \<Rightarrow> 's \<Rightarrow> 's option" where
  "for_each f [] s = Some s"
| "for_each f (x # xs) s = Option.bind (f x s) (for_each f xs)"

lemma for_each_append:
  "for_each f (xs @ ys) s = Option.bind (for_each f xs s) (for_each f ys)"
  by (induction xs arbitrary: s) (simp_all add: bind_eq_Some split: bind_split)

lemma for_each_invariant:
  assumes "for_each f xs s = Some s'" "I s"
    and "\<And>x s s'. x \<in> set xs \<Longrightarrow> I s \<Longrightarrow> f x s = Some s' \<Longrightarrow> I s'"
  shows "I s'"
  using assms
proof (induction xs arbitrary: s)
  case (Cons x xs)
  then obtain t where "f x s = Some t" "for_each f xs t = Some s'"
    by (auto simp: bind_eq_Some)
  then show ?case using Cons.IH [of t] Cons.prems(2,3) by auto
qed simp

lemma for_each_total:
  assumes "I s"
    and "\<And>x s. x \<in> set xs \<Longrightarrow> I s \<Longrightarrow> \<exists>s'. f x s = Some s' \<and> I s'"
  shows "\<exists>s'. for_each f xs s = Some s' \<and> I s'"
  using assms
proof (induction xs arbitrary: s)
  case (Cons x xs)
  then obtain t where "f x s = Some t" "I t" by (meson list.set_intros(1))
  moreover have "\<exists>s'. for_each f xs t = Some s' \<and> I s'"
    using Cons.IH [of t] Cons.prems(2) \<open>I t\<close> by simp
  ultimately show ?case by auto
qed simp

lemma for_each_cong [fundef_cong]:
  assumes "xs = ys" "s = t" "\<And>x s. x \<in> set ys \<Longrightarrow> f x s = g x s"
  shows "for_each f xs s = for_each g ys t"
proof -
  have "for_each f ys t = for_each g ys t"
    using assms(3) by (induction ys arbitrary: t) (auto split: bind_split)
  then show ?thesis using assms by simp
qed

section \<open>Hash containers\<close>

definition hash_order :: "('a set \<Rightarrow> 'a list) \<Rightarrow> bool" where
  "hash_order ord \<longleftrightarrow> (\<forall>S. finite S \<longrightarrow> distinct (ord S) \<and> set (ord S) = S)"

lemma hash_orderD:
  assumes "hash_order ord" "finite S"
  shows "distinct (ord S)" "set (ord S) = S" "length (ord S) = card S"
  using assms unfolding hash_order_def by (simp, simp, metis distinct_card)

lemma hash_order_sorted [simp]: "hash_order (sorted_list_of_set :: 'a::linorder set \<Rightarrow> 'a list)"
  unfolding hash_order_def by simp

definition index_insert :: "'a \<Rightarrow> 'a list \<Rightarrow> 'a list" where
  "index_insert x xs = (if x \<in> set xs then xs else xs @ [x])"

lemma set_index_insert [simp]: "set (index_insert x xs) = insert x (set xs)"
  by (auto simp: index_insert_def)

lemma distinct_index_insert [simp]: "distinct (index_insert x xs) = distinct xs"
  by (auto simp: index_insert_def)

definition index_extend :: "'a list \<Rightarrow> 'a list \<Rightarrow> 'a list" where
  "index_extend xs ys = fold index_insert ys xs"

lemma set_index_extend [simp]: "set (index_extend xs ys) = set xs \<union> set ys"
  unfolding index_extend_def by (induction ys arbitrary: xs) auto

lemma distinct_index_extend [simp]: "distinct (index_extend xs ys) = distinct xs"
  unfolding index_extend_def by (induction ys arbitrary: xs) auto

lemma index_extend_prefix: "\<exists>ys. index_extend q xs = q @ ys"
  unfolding index_extend_def
proof (induction xs arbitrary: q)
  case (Cons x xs)
  obtain ys where "fold index_insert xs (index_insert x q) = index_insert x q @ ys" using Cons by blast
  then show ?case by (cases "x \<in> set q") (auto simp: index_insert_def [of x q])
qed simp

lemma index_insert_disjoint: "x \<notin> set xs \<Longrightarrow> index_insert x xs = xs @ [x]"
  by (simp add: index_insert_def)

lemma fold_insert_set: "fold insert xs S = set xs \<union> S"
  by (induction xs arbitrary: S) auto

section \<open>Vectors and keyed databases\<close>

text \<open>\<open>Vec::remove\<close>, \<open>Vec::insert\<close> and \<open>iter().position\<close>; the source calls the first two only with indices in range.\<close>

definition vec_remove :: "nat \<Rightarrow> 'a list \<Rightarrow> 'a list" where
  "vec_remove i xs = take i xs @ drop (Suc i) xs"

definition vec_insert :: "nat \<Rightarrow> 'a \<Rightarrow> 'a list \<Rightarrow> 'a list" where
  "vec_insert i x xs = take i xs @ x # drop i xs"

fun position :: "'a \<Rightarrow> 'a list \<Rightarrow> nat option" where
  "position x [] = None"
| "position x (y # ys) = (if y = x then Some 0 else map_option Suc (position x ys))"

lemma position_None_iff: "position x xs = None \<longleftrightarrow> x \<notin> set xs"
  by (induction xs) auto

lemma position_absent [simp]: "x \<notin> set xs \<Longrightarrow> position x xs = None"
  by (simp add: position_None_iff)

lemma position_present: "x \<in> set xs \<Longrightarrow> \<exists>i. position x xs = Some i"
  using position_None_iff [of x xs] by auto

lemma position_SomeE:
  assumes "position x xs = Some i"
  obtains ys zs where "xs = ys @ x # zs" "x \<notin> set ys" "length ys = i"
proof -
  have "\<exists>ys zs. xs = ys @ x # zs \<and> x \<notin> set ys \<and> length ys = i"
    using assms
  proof (induction xs arbitrary: i)
    case (Cons y ys)
    show ?case
    proof (cases "y = x")
      case False
      then obtain j where "i = Suc j" "position x ys = Some j" using Cons.prems by auto
      then obtain us vs where "ys = us @ x # vs" "x \<notin> set us" "length us = j" using Cons.IH by blast
      then show ?thesis using False \<open>i = Suc j\<close> by (intro exI [of _ "y # us"] exI [of _ vs]) auto
    qed (use Cons.prems in auto)
  qed simp
  then show thesis using that by blast
qed

lemma position_append: "x \<notin> set ys \<Longrightarrow> position x (ys @ x # zs) = Some (length ys)"
  by (induction ys) auto

lemma vec_remove_append [simp]: "length ys = i \<Longrightarrow> vec_remove i (ys @ x # zs) = ys @ zs"
  by (auto simp: vec_remove_def)

lemma vec_insert_append [simp]: "length ys = i \<Longrightarrow> vec_insert i x (ys @ zs) = ys @ x # zs"
  by (auto simp: vec_insert_def)

text \<open>\<open>expect_get_mut(key)\<close> followed by a change of the value.\<close>

definition expect_modify :: "'k \<Rightarrow> ('v \<Rightarrow> 'v) \<Rightarrow> ('k \<rightharpoonup> 'v) \<Rightarrow> ('k \<rightharpoonup> 'v) option" where
  "expect_modify k f m = (case m k of None \<Rightarrow> None | Some v \<Rightarrow> Some (m(k \<mapsto> f v)))"

lemma expect_modify_Some: "expect_modify k f m = Some m' \<longleftrightarrow> (\<exists>v. m k = Some v \<and> m' = m(k \<mapsto> f v))"
  by (auto simp: expect_modify_def split: option.splits)

lemma expect_modify_None [simp]: "expect_modify k f m = None \<longleftrightarrow> m k = None"
  by (auto simp: expect_modify_def split: option.splits)

text \<open>\<open>entry(key).or_insert(value)\<close>.\<close>

definition or_insert :: "'k \<Rightarrow> 'v \<Rightarrow> ('k \<rightharpoonup> 'v) \<Rightarrow> ('k \<rightharpoonup> 'v)" where
  "or_insert k v m = (if m k = None then m(k \<mapsto> v) else m)"

section \<open>Three-way comparison and the stable sort\<close>

datatype ordering = Less | Equal | Greater

fun reverse_ordering :: "ordering \<Rightarrow> ordering" where
  "reverse_ordering Less = Greater"
| "reverse_ordering Equal = Equal"
| "reverse_ordering Greater = Less"

fun then_ordering :: "ordering \<Rightarrow> ordering \<Rightarrow> ordering" where
  "then_ordering Equal o2 = o2"
| "then_ordering o1 _ = o1"

definition cmp_ord :: "'a::linorder \<Rightarrow> 'a \<Rightarrow> ordering" where
  "cmp_ord a b = (if a < b then Less else if a = b then Equal else Greater)"

lemma cmp_ord_simps [simp]:
  "cmp_ord a b = Less \<longleftrightarrow> a < b" "cmp_ord a b = Equal \<longleftrightarrow> a = b" "cmp_ord a b = Greater \<longleftrightarrow> b < a"
  by (auto simp: cmp_ord_def)

lemma reverse_cmp_ord [simp]: "reverse_ordering (cmp_ord a b) = cmp_ord b a"
  by (auto simp: cmp_ord_def)

lemma reverse_ordering_simps [simp]:
  "reverse_ordering x = Less \<longleftrightarrow> x = Greater" "reverse_ordering x = Equal \<longleftrightarrow> x = Equal"
  "reverse_ordering x = Greater \<longleftrightarrow> x = Less" "reverse_ordering (reverse_ordering x) = x"
  by (cases x; simp)+

lemma then_ordering_simps [simp]:
  "then_ordering x y = Less \<longleftrightarrow> x = Less \<or> x = Equal \<and> y = Less"
  "then_ordering x y = Equal \<longleftrightarrow> x = Equal \<and> y = Equal"
  "then_ordering x y = Greater \<longleftrightarrow> x = Greater \<or> x = Equal \<and> y = Greater"
  "reverse_ordering (then_ordering x y) = then_ordering (reverse_ordering x) (reverse_ordering y)"
  by (cases x; simp)+

instantiation ordering :: linorder
begin
definition less_ordering :: "ordering \<Rightarrow> ordering \<Rightarrow> bool" where
  "less_ordering a b \<longleftrightarrow> (a = Less \<and> b = Equal) \<or> (a = Less \<and> b = Greater) \<or> (a = Equal \<and> b = Greater)"
definition less_eq_ordering :: "ordering \<Rightarrow> ordering \<Rightarrow> bool" where
  "less_eq_ordering a b \<longleftrightarrow> a = b \<or> a < b"
instance
proof
  fix x y z :: ordering
  show "(x < y) = (x \<le> y \<and> \<not> y \<le> x)" "x \<le> x" "x \<le> y \<or> y \<le> x"
    by (cases x; cases y; simp add: less_ordering_def less_eq_ordering_def)+
  show "x \<le> y \<Longrightarrow> y \<le> z \<Longrightarrow> x \<le> z" "x \<le> y \<Longrightarrow> y \<le> x \<Longrightarrow> x = y"
    by (cases x; cases y; cases z; simp add: less_ordering_def less_eq_ordering_def)+
qed
end

fun insert_by :: "('a \<Rightarrow> 'a \<Rightarrow> ordering) \<Rightarrow> 'a \<Rightarrow> 'a list \<Rightarrow> 'a list" where
  "insert_by cmp x [] = [x]"
| "insert_by cmp x (y # ys) = (if cmp x y = Greater then y # insert_by cmp x ys else x # y # ys)"

definition sort_by :: "('a \<Rightarrow> 'a \<Rightarrow> ordering) \<Rightarrow> 'a list \<Rightarrow> 'a list" where
  "sort_by cmp xs = foldr (insert_by cmp) xs []"

lemma mset_insert_by [simp]: "mset (insert_by cmp x xs) = add_mset x (mset xs)"
  by (induction xs) auto

lemma mset_sort_by [simp]: "mset (sort_by cmp xs) = mset xs"
  unfolding sort_by_def by (induction xs) auto

lemma set_sort_by [simp]: "set (sort_by cmp xs) = set xs"
  by (metis mset_sort_by set_mset_mset)

lemma length_sort_by [simp]: "length (sort_by cmp xs) = length xs"
  by (metis mset_sort_by size_mset)

lemma distinct_sort_by [simp]: "distinct (sort_by cmp xs) = distinct xs"
  by (metis mset_sort_by mset_eq_imp_distinct_iff)

text \<open>What \<open>sort_by\<close> and the ordered containers of the standard library ask of a comparison
  closure: a total preorder.\<close>

locale comparator =
  fixes cmp :: "'a \<Rightarrow> 'a \<Rightarrow> ordering"
  assumes cmp_flip: "cmp y x = reverse_ordering (cmp x y)"
    and cmp_trans: "cmp x y \<noteq> Greater \<Longrightarrow> cmp y z \<noteq> Greater \<Longrightarrow> cmp x z \<noteq> Greater"
begin

abbreviation (input) le :: "'a \<Rightarrow> 'a \<Rightarrow> bool" where
  "le x y \<equiv> cmp x y \<noteq> Greater"

lemma cmp_refl: "cmp x x = Equal"
  using cmp_flip [of x x] by (cases "cmp x x") auto

lemma flip_simps:
  "cmp y x = Less \<longleftrightarrow> cmp x y = Greater" "cmp y x = Equal \<longleftrightarrow> cmp x y = Equal"
  by (simp_all add: cmp_flip [of x y])

lemma le_total: "cmp x y \<noteq> Greater \<or> cmp y x \<noteq> Greater"
  using flip_simps(1) [of x y] by auto

lemma le_transp: "transp (\<lambda>x y. cmp x y \<noteq> Greater)"
  using cmp_trans unfolding transp_def by blast

lemma equal_trans: "cmp x y = Equal \<Longrightarrow> cmp y z = Equal \<Longrightarrow> cmp x z = Equal"
  using cmp_trans [of x y z] cmp_trans [of z y x] flip_simps [of x y] flip_simps [of y z]
    flip_simps [of x z]
  by (cases "cmp x z"; simp)

lemma less_trans: "cmp x y = Less \<Longrightarrow> cmp y z \<noteq> Greater \<Longrightarrow> cmp x z = Less"
  using cmp_trans [of x y z] cmp_trans [of y z x] flip_simps [of x y] flip_simps [of x z]
  by (cases "cmp x z"; cases "cmp z x"; auto simp: flip_simps [of x z])

lemma sorted_insert_by:
  assumes "sorted_wrt (\<lambda>x y. cmp x y \<noteq> Greater) xs"
  shows "sorted_wrt (\<lambda>x y. cmp x y \<noteq> Greater) (insert_by cmp x xs)"
  using assms
proof (induction xs)
  case (Cons y ys)
  have elems: "set (insert_by cmp x ys) = insert x (set ys)"
    by (metis mset_insert_by set_mset_add_mset_insert set_mset_mset)
  show ?case
  proof (cases "cmp x y = Greater")
    case True
    then have "cmp y x \<noteq> Greater" using le_total [of x y] by simp
    then show ?thesis using True Cons elems by auto
  next
    case False
    then show ?thesis using Cons.prems cmp_trans [of x y] by auto
  qed
qed simp

lemma sorted_sort_by: "sorted_wrt (\<lambda>x y. cmp x y \<noteq> Greater) (sort_by cmp xs)"
  unfolding sort_by_def by (induction xs) (simp_all add: sorted_insert_by)

lemma insert_by_stable: "filter (\<lambda>y. cmp k y = Equal) (insert_by cmp x xs) =
    filter (\<lambda>y. cmp k y = Equal) (x # xs)"
proof (induction xs)
  case (Cons y ys)
  have "cmp x y = Equal" if "cmp k x = Equal" "cmp k y = Equal"
    using that equal_trans [of x k y] cmp_flip [of x k] by simp
  then show ?case using Cons by auto
qed simp

lemma sort_by_stable: "filter (\<lambda>y. cmp k y = Equal) (sort_by cmp xs) = filter (\<lambda>y. cmp k y = Equal) xs"
  unfolding sort_by_def by (induction xs) (simp_all add: insert_by_stable)

lemma sort_by_head_least: "sort_by cmp xs = y # ys \<Longrightarrow> x \<in> set xs \<Longrightarrow> cmp y x \<noteq> Greater"
  using sorted_sort_by [of xs] set_sort_by [of cmp xs] cmp_refl [of y]
  by (cases "x = y") (auto simp del: set_sort_by)

end

interpretation ord_cmp: comparator "cmp_ord :: 'a::linorder \<Rightarrow> 'a \<Rightarrow> ordering"
  by unfold_locales auto

lemma comparator_key: "comparator cmp \<Longrightarrow> comparator (\<lambda>x y. cmp (f x) (f y))"
  unfolding comparator_def by blast

lemma comparator_then:
  assumes "comparator c" "comparator d"
  shows "comparator (\<lambda>x y. then_ordering (c x y) (d x y))"
proof
  fix x y z
  show "then_ordering (c y x) (d y x) = reverse_ordering (then_ordering (c x y) (d x y))"
    using assms comparator.cmp_flip by (metis then_ordering_simps(4))
  show "then_ordering (c x z) (d x z) \<noteq> Greater"
    if "then_ordering (c x y) (d x y) \<noteq> Greater" "then_ordering (c y z) (d y z) \<noteq> Greater"
  proof (cases "c x y")
    case Less
    then have "c x z = Less"
      using that(2) comparator.less_trans [OF assms(1), of x y z] by (cases "c y z") auto
    then show ?thesis by simp
  next
    case Equal
    then have dxy: "d x y \<noteq> Greater" using that(1) by simp
    show ?thesis
    proof (cases "c y z")
      case Equal
      then have "c x z = Equal" using \<open>c x y = Equal\<close> comparator.equal_trans [OF assms(1)] by blast
      moreover have "d x z \<noteq> Greater"
        using Equal dxy that(2) comparator.cmp_trans [OF assms(2), of x y z] by simp
      ultimately show ?thesis by simp
    next
      case Less
      then have "c x z \<noteq> Greater" using \<open>c x y = Equal\<close> comparator.cmp_trans [OF assms(1), of x y z] by simp
      moreover have "c x z \<noteq> Equal"
        using comparator.equal_trans [OF assms(1), of y x z] comparator.flip_simps [OF assms(1), of x y]
          Less \<open>c x y = Equal\<close> by auto
      ultimately show ?thesis by simp
    qed (use that(2) in simp)
  qed (use that(1) in simp)
qed

text \<open>
  \<open>sorted_by\<close> with a comparison that panics when it cannot look a key up: with two or more elements
  every element is compared, with fewer none is.
\<close>

definition sort_by_checked :: "('a \<Rightarrow> bool) \<Rightarrow> ('a \<Rightarrow> 'a \<Rightarrow> ordering) \<Rightarrow> 'a list \<Rightarrow> 'a list option" where
  "sort_by_checked present cmp xs =
    (if length xs \<le> 1 then Some xs else if list_all present xs then Some (sort_by cmp xs) else None)"

lemma sort_by_checked_set: "sort_by_checked present cmp xs = Some ys \<Longrightarrow> set ys = set xs \<and> distinct ys = distinct xs \<and> mset ys = mset xs"
  by (auto simp: sort_by_checked_def split: if_splits)

lemma sort_by_checked_total: "list_all present xs \<Longrightarrow> \<exists>ys. sort_by_checked present cmp xs = Some ys"
  by (auto simp: sort_by_checked_def)

lemma sort_by_checked_sorted:
  assumes "comparator cmp" "sort_by_checked present cmp xs = Some ys"
  shows "sorted_wrt (\<lambda>x y. cmp x y \<noteq> Greater) ys"
  using comparator.sorted_sort_by [OF assms(1), of xs] assms(2)
  by (cases xs; cases "tl xs") (auto simp: sort_by_checked_def split: if_splits)

text \<open>\<open>iter().any(f)\<close> where \<open>f\<close> may panic: stops at the first hit.\<close>

fun any_opt :: "('a \<Rightarrow> bool option) \<Rightarrow> 'a list \<Rightarrow> bool option" where
  "any_opt f [] = Some False"
| "any_opt f (x # xs) = (case f x of None \<Rightarrow> None | Some True \<Rightarrow> Some True | Some False \<Rightarrow> any_opt f xs)"

end
