(* ===== verification/Walk.thy ===== *)
theory Walk
  imports Prelude
begin

text \<open>
  The depth-first walk that the queries of \<open>chunk.rs\<close> share: a nested \<open>fn add_chunks\<close> that looks a
  node up, collects what it holds and recurses into each successor that \<open>visit_chunk_groups\<close> does
  not hold yet.

  \<open>walk ok nd skip cs (out, vis)\<close> is the loop \<open>for child in cs\<close>: a child that passes \<open>ok\<close> and is not
  visited is marked and visited (its lookup \<open>nd\<close> gives the collected items and the successors, and
  panics with \<^term>\<open>None\<close>), any other child only contributes \<open>skip child\<close>.  \<open>out\<close> is an insertion-ordered set.
  The lemmas give the visited set as the least set closed under successors and the collected items
  as the union over it; termination rests on the finiteness of the key type.
\<close>

type_synonym ('n, 'o) node_fn = "'n \<Rightarrow> ('o list \<times> 'n list) option"

function walk :: "('n::finite \<Rightarrow> bool) \<Rightarrow> ('n, 'o) node_fn \<Rightarrow> ('n \<Rightarrow> 'o list) \<Rightarrow> 'n list \<Rightarrow>
    'o list \<times> 'n set \<Rightarrow> ('o list \<times> 'n set) option" where
  "walk ok nd skip [] (out, vis) = Some (out, vis)"
| "walk ok nd skip (c # cs) (out, vis) =
    (if ok c \<and> c \<notin> vis
     then (case nd c of
        None \<Rightarrow> None
      | Some (items, succs) \<Rightarrow>
         (case walk ok nd skip succs (index_extend out items, insert c vis) of
            None \<Rightarrow> None
          | Some st \<Rightarrow> walk ok nd skip cs st))
     else walk ok nd skip cs (index_extend out (skip c), vis))"
  by pat_completeness auto

lemma walk_dom_grows:
  assumes "walk_dom (ok, nd, skip, cs, st)" "walk ok nd skip cs st = Some st'"
  shows "snd st \<subseteq> snd st'"
  using assms
proof (induction ok nd skip cs st arbitrary: st' rule: walk.pinduct)
  case (2 ok nd skip c cs out vis)
  show ?case
  proof (cases "ok c \<and> c \<notin> vis")
    case True
    then obtain items succs mid where
      nd: "nd c = Some (items, succs)" and
      mid: "walk ok nd skip succs (index_extend out items, insert c vis) = Some mid" and
      fin: "walk ok nd skip cs mid = Some st'"
      using 2 by (auto simp: walk.psimps split: option.splits)
    have "insert c vis \<subseteq> snd mid" using "2.IH"(1) [OF True nd _ mid] by simp
    moreover have "snd mid \<subseteq> snd st'" using "2.IH"(2) [OF True nd _ mid fin] by simp
    ultimately show ?thesis by auto
  next
    case False
    then have "walk ok nd skip cs (index_extend out (skip c), vis) = Some st'"
      using "2.prems" unfolding walk.psimps(2) [OF "2.hyps"] by (simp only: if_not_P [OF False] if_False)
    then show ?thesis using "2.IH"(3) [OF False] by simp
  qed
qed (simp add: walk.psimps)

termination walk
proof (relation "(\<lambda>(_, _, _, _, st). card (UNIV - snd st)) <*mlex*> measure (\<lambda>(_, _, _, cs, _). length cs)",
    goal_cases)
  case 1
  then show ?case by (simp add: wf_mlex)
next
  case (2 ok nd skip c cs out vis x items succs)
  have "card (UNIV - insert c vis) < card (UNIV - vis)"
    using 2 by (intro psubset_card_mono) auto
  then show ?case by (simp add: mlex_less)
next
  case (3 ok nd skip c cs out vis x items succs mid)
  have "insert c vis \<subseteq> snd mid" using walk_dom_grows 3 by fastforce
  then have "card (UNIV - snd mid) < card (UNIV - vis)"
    using 3 by (intro psubset_card_mono) auto
  then show ?case by (cases mid) (simp add: mlex_less)
next
  case (4 ok nd skip c cs out vis)
  then show ?case by (intro mlex_leq) auto
qed

lemma walk_Some_induct [consumes 1, case_names Done Visit Skip]:
  assumes "walk ok nd skip cs st = Some st'"
    and "\<And>out vis. P [] (out, vis) (out, vis)"
    and "\<And>c cs out vis items succs mid st'. ok c \<Longrightarrow> c \<notin> vis \<Longrightarrow> nd c = Some (items, succs) \<Longrightarrow>
      walk ok nd skip succs (index_extend out items, insert c vis) = Some mid \<Longrightarrow>
      P succs (index_extend out items, insert c vis) mid \<Longrightarrow>
      walk ok nd skip cs mid = Some st' \<Longrightarrow> P cs mid st' \<Longrightarrow> P (c # cs) (out, vis) st'"
    and "\<And>c cs out vis st'. \<not> (ok c \<and> c \<notin> vis) \<Longrightarrow>
      walk ok nd skip cs (index_extend out (skip c), vis) = Some st' \<Longrightarrow>
      P cs (index_extend out (skip c), vis) st' \<Longrightarrow> P (c # cs) (out, vis) st'"
  shows "P cs st st'"
  using assms(1)
proof (induction ok\<equiv>ok nd\<equiv>nd skip\<equiv>skip cs st arbitrary: st' rule: walk.induct)
  case (1 out vis)
  then show ?case using assms(2) [of out vis] by simp
next
  case (2 c cs out vis)
  show ?case
  proof (cases "ok c \<and> c \<notin> vis")
    case True
    then obtain items succs mid where
      nd: "nd c = Some (items, succs)" and
      mid: "walk ok nd skip succs (index_extend out items, insert c vis) = Some mid" and
      fin: "walk ok nd skip cs mid = Some st'"
      using "2.prems" by (auto split: option.splits)
    show ?thesis
      using assms(3) True nd mid fin "2.hyps"(1) [OF True nd refl mid] "2.hyps"(2) [OF True nd refl mid fin]
      by blast
  next
    case False
    then have "walk ok nd skip cs (index_extend out (skip c), vis) = Some st'"
      using "2.prems" unfolding walk.simps(2) if_not_P [OF False] by simp
    then show ?thesis using assms(4) False "2.hyps"(3) [OF False] by blast
  qed
qed

lemma walk_grows: "walk ok nd skip cs st = Some st' \<Longrightarrow> snd st \<subseteq> snd st'"
  by (induction rule: walk_Some_induct) auto

lemma walk_out_grows: "walk ok nd skip cs st = Some st' \<Longrightarrow> set (fst st) \<subseteq> set (fst st')"
  by (induction rule: walk_Some_induct) auto

lemma walk_distinct: "walk ok nd skip cs st = Some st' \<Longrightarrow> distinct (fst st) \<Longrightarrow> distinct (fst st')"
  by (induction rule: walk_Some_induct) auto

section \<open>What a walk visits and collects\<close>

definition items_of :: "('n, 'o) node_fn \<Rightarrow> 'n \<Rightarrow> 'o set" where
  "items_of nd n = (case nd n of None \<Rightarrow> {} | Some (items, _) \<Rightarrow> set items)"

definition succs_of :: "('n, 'o) node_fn \<Rightarrow> 'n \<Rightarrow> 'n set" where
  "succs_of nd n = (case nd n of None \<Rightarrow> {} | Some (_, succs) \<Rightarrow> set succs)"

definition walk_edges :: "('n \<Rightarrow> bool) \<Rightarrow> ('n, 'o) node_fn \<Rightarrow> ('n \<times> 'n) set" where
  "walk_edges ok nd = {(a, b). b \<in> succs_of nd a \<and> ok b}"

definition walk_closed :: "('n \<Rightarrow> bool) \<Rightarrow> ('n, 'o) node_fn \<Rightarrow> ('n \<Rightarrow> 'o list) \<Rightarrow> 'n set \<Rightarrow> 'o list \<times> 'n set \<Rightarrow> bool" where
  "walk_closed ok nd skip N st \<longleftrightarrow> (\<forall>n \<in> N. nd n \<noteq> None \<and> items_of nd n \<subseteq> set (fst st) \<and>
     (\<forall>b \<in> succs_of nd n. if ok b then b \<in> snd st else set (skip b) \<subseteq> set (fst st)))"

lemma walk_closed_Un: "walk_closed ok nd skip (A \<union> B) st \<longleftrightarrow>
    walk_closed ok nd skip A st \<and> walk_closed ok nd skip B st"
  unfolding walk_closed_def by blast

lemma walk_closed_mono:
  assumes "walk_closed ok nd skip N st" "set (fst st) \<subseteq> set (fst st')" "snd st \<subseteq> snd st'"
  shows "walk_closed ok nd skip N st'"
  using assms unfolding walk_closed_def by (fastforce split: if_splits)

lemma walk_complete:
  assumes "walk ok nd skip cs st = Some st'"
  shows "(\<forall>c \<in> set cs. if ok c then c \<in> snd st' else set (skip c) \<subseteq> set (fst st')) \<and>
    walk_closed ok nd skip (snd st' - snd st) st'"
  using assms
proof (induction rule: walk_Some_induct)
  case (Done out vis)
  then show ?case by (simp add: walk_closed_def)
next
  case (Visit c cs out vis items succs mid st')
  have g: "insert c vis \<subseteq> snd mid" "snd mid \<subseteq> snd st'" "set (fst mid) \<subseteq> set (fst st')"
    "set out \<union> set items \<subseteq> set (fst mid)"
    using walk_grows [OF Visit.hyps(4)] walk_grows [OF Visit.hyps(5)]
      walk_out_grows [OF Visit.hyps(5)] walk_out_grows [OF Visit.hyps(4)] by simp_all
  have "walk_closed ok nd skip {c} mid"
    using Visit.IH(1) [THEN conjunct1] Visit.hyps(3) g(4) by (simp add: walk_closed_def items_of_def succs_of_def)
  then have "walk_closed ok nd skip ({c} \<union> (snd mid - insert c vis)) st'"
    using Visit.IH(1) g(2,3) unfolding walk_closed_Un by (auto elim!: walk_closed_mono)
  then have "walk_closed ok nd skip (({c} \<union> (snd mid - insert c vis)) \<union> (snd st' - snd mid)) st'"
    using Visit.IH unfolding walk_closed_Un by simp
  moreover have "({c} \<union> (snd mid - insert c vis)) \<union> (snd st' - snd mid) = snd st' - vis"
    using g Visit(2) by auto
  ultimately have "walk_closed ok nd skip (snd st' - vis) st'" by simp
  moreover have "c \<in> snd st'" using g by auto
  ultimately show ?case using Visit(1) Visit.IH(2) by simp
next
  case (Skip c cs out vis st')
  then show ?case using walk_grows [OF Skip(2)] walk_out_grows [OF Skip(2)] by auto
qed

lemma walk_sound:
  assumes "walk ok nd skip cs st = Some st'"
  shows "snd st' \<subseteq> snd st \<union> (walk_edges ok nd)\<^sup>* `` {c \<in> set cs. ok c}"
  using assms
proof (induction rule: walk_Some_induct)
  case (Visit c cs out vis items succs mid st')
  have "(walk_edges ok nd)\<^sup>* `` {b \<in> set succs. ok b} \<subseteq> (walk_edges ok nd)\<^sup>* `` {c}"
    using Visit(3) by (auto simp: walk_edges_def succs_of_def intro: converse_rtrancl_into_rtrancl)
  moreover have "(walk_edges ok nd)\<^sup>* `` {c} \<subseteq> (walk_edges ok nd)\<^sup>* `` {d \<in> set (c # cs). ok d}"
    "(walk_edges ok nd)\<^sup>* `` {d \<in> set cs. ok d} \<subseteq> (walk_edges ok nd)\<^sup>* `` {d \<in> set (c # cs). ok d}"
    using Visit(1) by (auto intro!: Image_mono)
  moreover have "c \<in> (walk_edges ok nd)\<^sup>* `` {d \<in> set (c # cs). ok d}" using Visit(1) by auto
  ultimately show ?case using Visit.IH by (simp only: fst_conv snd_conv) blast
next
  case (Skip c cs out vis st')
  have "(walk_edges ok nd)\<^sup>* `` {d \<in> set cs. ok d} \<subseteq> (walk_edges ok nd)\<^sup>* `` {d \<in> set (c # cs). ok d}"
    by auto
  then show ?case using Skip.IH by (simp only: fst_conv snd_conv) blast
qed simp

lemma walk_out_sound:
  assumes "walk ok nd skip cs st = Some st'"
    and "set (fst st) \<subseteq> A" "\<And>c. c \<in> set cs \<Longrightarrow> set (skip c) \<subseteq> A"
    and "\<And>n. n \<in> snd st' - snd st \<Longrightarrow> items_of nd n \<subseteq> A"
    and "\<And>n b. n \<in> snd st' - snd st \<Longrightarrow> b \<in> succs_of nd n \<Longrightarrow> set (skip b) \<subseteq> A"
  shows "set (fst st') \<subseteq> A"
  using assms
proof (induction rule: walk_Some_induct)
  case (Visit c cs out vis items succs mid st')
  have g: "insert c vis \<subseteq> snd mid" "snd mid \<subseteq> snd st'"
    using walk_grows [OF Visit.hyps(4)] walk_grows [OF Visit.hyps(5)] by simp_all
  have c: "c \<in> snd st' - snd (out, vis)" using g Visit.hyps by auto
  have "set items \<subseteq> A" using Visit.prems(3) [OF c] Visit.hyps(3) by (simp add: items_of_def)
  moreover have "set (skip b) \<subseteq> A" if "b \<in> set succs" for b
    using Visit.prems(4) [OF c] that Visit.hyps(3) by (simp add: succs_of_def)
  moreover have sub: "snd mid - snd (index_extend out items, insert c vis) \<subseteq> snd st' - snd (out, vis)"
    "snd st' - snd mid \<subseteq> snd st' - snd (out, vis)"
    using g by auto
  ultimately have "set (fst mid) \<subseteq> A"
  proof (intro Visit.IH(1), goal_cases)
    case 1
    then show ?case using Visit.prems(1) by simp
  next
    case (3 n)
    then show ?case using Visit.prems(3) sub(1) by blast
  next
    case (4 n b)
    then show ?case using Visit.prems(4) sub(1) by blast
  qed
  then show ?case
  proof (intro Visit.IH(2), goal_cases)
    case (2 d)
    then show ?case using Visit.prems(2) by simp
  next
    case (3 n)
    then show ?case using Visit.prems(3) sub(2) by blast
  next
    case (4 n b)
    then show ?case using Visit.prems(4) sub(2) by blast
  qed
next
  case (Skip c cs out vis st')
  then show ?case by (intro Skip.IH) auto
qed simp

lemma walk_total:
  assumes "\<And>n. n \<in> (walk_edges ok nd)\<^sup>* `` {c \<in> set cs. ok c} \<Longrightarrow> nd n \<noteq> None"
  shows "\<exists>st'. walk ok nd skip cs st = Some st'"
  using assms
proof (induction ok nd skip cs st rule: walk.induct)
  case (2 ok nd skip c cs out vis)
  show ?case
  proof (cases "ok c \<and> c \<notin> vis")
    case True
    then have "nd c \<noteq> None" using 2(4) [of c] by auto
    then obtain items succs where nd: "nd c = Some (items, succs)" by force
    have "n \<in> (walk_edges ok nd)\<^sup>* `` {c}" if "n \<in> (walk_edges ok nd)\<^sup>* `` {b \<in> set succs. ok b}" for n
      using that nd by (auto simp: walk_edges_def succs_of_def intro: converse_rtrancl_into_rtrancl)
    then have "\<exists>mid. walk ok nd skip succs (index_extend out items, insert c vis) = Some mid"
      using True by (intro "2.IH"(1) [OF True nd refl] 2(4)) fastforce
    then obtain mid where mid: "walk ok nd skip succs (index_extend out items, insert c vis) = Some mid" ..
    have "\<exists>st'. walk ok nd skip cs mid = Some st'"
      using 2(4) by (intro "2.IH"(2) [OF True nd refl mid]) auto
    then show ?thesis using True nd mid by auto
  next
    case False
    have "\<exists>st'. walk ok nd skip cs (index_extend out (skip c), vis) = Some st'"
      using 2(4) by (intro "2.IH"(3) [OF False]) auto
    then show ?thesis unfolding walk.simps(2) if_not_P [OF False] .
  qed
qed auto

section \<open>Walks from several roots\<close>

text \<open>
  The outer loop of those queries: each root is visited whether or not a previous root has reached
  it, and \<open>mark\<close> tells whether the loop first inserts it into the visited set.
\<close>

definition visit :: "('n::finite, 'o) node_fn \<Rightarrow> bool \<Rightarrow> 'n \<Rightarrow> 'o list \<times> 'n set \<Rightarrow> ('o list \<times> 'n set) option" where
  "visit nd mark r st = (case nd r of
      None \<Rightarrow> None
    | Some (items, succs) \<Rightarrow>
        walk (\<lambda>_. True) nd (\<lambda>_. []) succs
          (index_extend (fst st) items, if mark then insert r (snd st) else snd st))"

definition walk_roots :: "('n::finite, 'o) node_fn \<Rightarrow> bool \<Rightarrow> 'n list \<Rightarrow> ('o list \<times> 'n set) option" where
  "walk_roots nd mark roots = for_each (visit nd mark) roots ([], {})"

definition reach :: "('n, 'o) node_fn \<Rightarrow> 'n set \<Rightarrow> 'n set" where
  "reach nd R = {(a, b). b \<in> succs_of nd a}\<^sup>* `` R"

lemma walk_edges_reach: "(walk_edges (\<lambda>_. True) nd)\<^sup>* `` {c \<in> set cs. True} = reach nd (set cs)"
  by (simp add: walk_edges_def reach_def)

lemma reach_root: "r \<in> R \<Longrightarrow> r \<in> reach nd R"
  by (auto simp: reach_def)

lemma reach_step: "n \<in> reach nd R \<Longrightarrow> b \<in> succs_of nd n \<Longrightarrow> b \<in> reach nd R"
  by (auto simp: reach_def intro: rtrancl_into_rtrancl)

lemma reach_subset:
  assumes "R \<subseteq> N" "\<And>n b. n \<in> N \<Longrightarrow> b \<in> succs_of nd n \<Longrightarrow> b \<in> N"
  shows "reach nd R \<subseteq> N"
proof
  fix n assume "n \<in> reach nd R"
  then obtain r where "r \<in> R" "(r, n) \<in> {(a, b). b \<in> succs_of nd a}\<^sup>*" by (auto simp: reach_def)
  from this(2) show "n \<in> N"
    by (induction rule: rtrancl_induct) (use \<open>r \<in> R\<close> assms in auto)
qed

lemma reach_reach: "R \<subseteq> reach nd S \<Longrightarrow> reach nd R \<subseteq> reach nd S"
  using reach_subset reach_step by metis

lemma visit_spec:
  assumes "visit nd mark r st = Some st'" "walk_closed (\<lambda>_. True) nd (\<lambda>_. []) (snd st) st"
  shows "walk_closed (\<lambda>_. True) nd (\<lambda>_. []) (insert r (snd st')) st'"
    and "snd st \<subseteq> snd st'" "snd st' \<subseteq> snd st \<union> reach nd {r}" "set (fst st) \<subseteq> set (fst st')"
    and "set (fst st') \<subseteq> set (fst st) \<union> (\<Union>n \<in> reach nd {r}. items_of nd n)"
proof -
  let ?ok = "\<lambda>_. True" and ?skip = "\<lambda>_. []"
  let ?vis = "if mark then insert r (snd st) else snd st"
  obtain items succs where nd: "nd r = Some (items, succs)" and
    w: "walk ?ok nd ?skip succs (index_extend (fst st) items, ?vis) = Some st'"
    using assms(1) by (auto simp: visit_def split: option.splits)
  have r: "items_of nd r = set items" "succs_of nd r = set succs"
    using nd by (simp_all add: items_of_def succs_of_def)
  have g: "?vis \<subseteq> snd st'" "set (fst st) \<union> set items \<subseteq> set (fst st')"
    using walk_grows [OF w] walk_out_grows [OF w] by simp_all
  then show "snd st \<subseteq> snd st'" "set (fst st) \<subseteq> set (fst st')" by (auto split: if_splits)
  have c: "walk_closed ?ok nd ?skip (snd st) st'"
    using assms(2) by (rule walk_closed_mono) (use g in \<open>auto split: if_splits\<close>)
  have succs: "set succs \<subseteq> snd st'" using walk_complete [OF w] by auto
  have "walk_closed ?ok nd ?skip {r} st'"
    using nd r g(2) succs by (auto simp: walk_closed_def)
  moreover have "insert r (snd st') = (snd st \<union> {r}) \<union> (snd st' - ?vis)"
    using g(1) by (cases mark) auto
  ultimately show "walk_closed ?ok nd ?skip (insert r (snd st')) st'"
    using c conjunct2 [OF walk_complete [OF w]] by (simp only: walk_closed_Un snd_conv simp_thms)
next
  obtain items succs where nd: "nd r = Some (items, succs)" and
    w: "walk (\<lambda>_. True) nd (\<lambda>_. []) succs (index_extend (fst st) items, if mark then insert r (snd st) else snd st) = Some st'"
    using assms(1) by (auto simp: visit_def split: option.splits)
  have r: "items_of nd r = set items" "succs_of nd r = set succs"
    using nd by (simp_all add: items_of_def succs_of_def)
  have "reach nd (set succs) \<subseteq> reach nd {r}"
    using reach_step [OF reach_root [of r "{r}" nd]] r by (intro reach_reach subsetI) simp
  moreover have "snd st' \<subseteq> (if mark then insert r (snd st) else snd st) \<union> reach nd (set succs)"
    using walk_sound [OF w] unfolding walk_edges_reach snd_conv .
  moreover have "r \<in> reach nd {r}" by (simp add: reach_root)
  ultimately show vis: "snd st' \<subseteq> snd st \<union> reach nd {r}"
    by (cases mark) auto
  show "set (fst st') \<subseteq> set (fst st) \<union> (\<Union>n \<in> reach nd {r}. items_of nd n)"
  proof (rule walk_out_sound [OF w])
    show "set (fst (index_extend (fst st) items, if mark then insert r (snd st) else snd st))
        \<subseteq> set (fst st) \<union> (\<Union>n \<in> reach nd {r}. items_of nd n)"
      using r reach_root [of r "{r}" nd] by auto
    show "items_of nd n \<subseteq> set (fst st) \<union> (\<Union>n \<in> reach nd {r}. items_of nd n)"
      if "n \<in> snd st' - snd (index_extend (fst st) items, if mark then insert r (snd st) else snd st)" for n
      using that vis by (auto split: if_splits)
  qed auto
qed

lemma reach_mono: "R \<subseteq> S \<Longrightarrow> reach nd R \<subseteq> reach nd S"
  by (auto simp: reach_def)

lemma subset_Un_trans: "A \<subseteq> B \<union> C \<Longrightarrow> B \<subseteq> D \<Longrightarrow> A \<subseteq> C \<union> D"
  by auto

lemma walk_roots_invariant:
  assumes "for_each (visit nd mark) roots ([], {}) = Some st"
  shows "walk_closed (\<lambda>_. True) nd (\<lambda>_. []) (set roots \<union> snd st) st \<and> snd st \<subseteq> reach nd (set roots) \<and>
    set (fst st) \<subseteq> (\<Union>n \<in> reach nd (set roots). items_of nd n)"
  using assms
proof (induction roots arbitrary: st rule: rev_induct)
  case Nil
  then show ?case by (auto simp: walk_closed_def)
next
  case (snoc r rs)
  then obtain mid where mid: "for_each (visit nd mark) rs ([], {}) = Some mid"
    and v: "visit nd mark r mid = Some st"
    by (auto simp: for_each_append bind_eq_Some)
  note IH = snoc.IH [OF mid]
  have cl: "walk_closed (\<lambda>_. True) nd (\<lambda>_. []) (snd mid) mid" using IH by (simp add: walk_closed_Un)
  note vs = visit_spec [OF v cl]
  have "walk_closed (\<lambda>_. True) nd (\<lambda>_. []) (set rs) st"
    using IH vs(2,4) unfolding walk_closed_Un by (auto elim!: walk_closed_mono)
  then have "walk_closed (\<lambda>_. True) nd (\<lambda>_. []) (set rs \<union> insert r (snd st)) st"
    using vs(1) by (simp only: walk_closed_Un simp_thms)
  moreover have sub: "reach nd {r} \<subseteq> reach nd (set (rs @ [r]))" "reach nd (set rs) \<subseteq> reach nd (set (rs @ [r]))"
    by (auto intro!: reach_mono)
  then have "snd st \<subseteq> reach nd (set (rs @ [r]))"
    using vs(3) IH by blast
  moreover have "set (fst st) \<subseteq> (\<Union>n \<in> reach nd (set (rs @ [r])). items_of nd n)"
  proof -
    have "(\<Union>n \<in> reach nd {r}. items_of nd n) \<union> (\<Union>n \<in> reach nd (set rs). items_of nd n) \<subseteq>
        (\<Union>n \<in> reach nd (set (rs @ [r])). items_of nd n)"
      using sub by (intro Un_least UN_mono) auto
    moreover have "set (fst st) \<subseteq> (\<Union>n \<in> reach nd {r}. items_of nd n) \<union> (\<Union>n \<in> reach nd (set rs). items_of nd n)"
      using subset_Un_trans [OF vs(5) conjunct2 [OF conjunct2 [OF IH]]] .
    ultimately show ?thesis by (rule order_trans [rotated])
  qed
  moreover have eq: "set (rs @ [r]) \<union> snd st = set rs \<union> insert r (snd st)" by auto
  ultimately show ?case unfolding eq by (intro conjI)
qed

lemma walk_roots_set:
  assumes "walk_roots nd mark roots = Some (out, vis)"
  shows "set out = (\<Union>n \<in> reach nd (set roots). items_of nd n)"
proof -
  note inv = walk_roots_invariant [OF assms [unfolded walk_roots_def]]
  have "reach nd (set roots) \<subseteq> set roots \<union> vis"
    by (rule reach_subset) (use inv in \<open>auto simp: walk_closed_def\<close>)
  then show ?thesis using inv by (fastforce simp: walk_closed_def)
qed

lemma walk_roots_distinct: "walk_roots nd mark roots = Some (out, vis) \<Longrightarrow> distinct out"
  unfolding walk_roots_def
  using for_each_invariant [of "visit nd mark" roots "([], {})" "(out, vis)" "\<lambda>st. distinct (fst st)"]
  by (fastforce simp: visit_def split: option.splits dest: walk_distinct)

lemma walk_roots_total:
  assumes "\<And>n. n \<in> reach nd (set roots) \<Longrightarrow> nd n \<noteq> None"
  shows "\<exists>st. walk_roots nd mark roots = Some st"
proof -
  have "\<exists>st'. visit nd mark r st = Some st'" if r: "r \<in> set roots" for r and st :: "_ list \<times> _ set"
  proof -
    obtain items succs where nd: "nd r = Some (items, succs)" using assms reach_root r by fastforce
    then have "succs_of nd r = set succs" by (simp add: succs_of_def)
    then have "set succs \<subseteq> reach nd (set roots)"
      using reach_step [OF reach_root [OF r], of _ nd] by auto
    then have "reach nd (set succs) \<subseteq> reach nd (set roots)" by (rule reach_reach)
    then have "nd n \<noteq> None" if "n \<in> (walk_edges (\<lambda>_. True) nd)\<^sup>* `` {c \<in> set succs. True}" for n
      using that assms \<open>reach nd (set succs) \<subseteq> reach nd (set roots)\<close> unfolding walk_edges_reach by blast
    then show ?thesis using nd walk_total [of "\<lambda>_. True" nd succs "\<lambda>_. []"] by (auto simp: visit_def)
  qed
  then show ?thesis
    unfolding walk_roots_def using for_each_total [of "\<lambda>_. True" _ roots "visit nd mark"] by blast
qed

text \<open>A walk that returns has found no node whose lookup fails: with lookups that abort, this decides reachability.\<close>

lemma walk_roots_None_iff: "walk_roots nd mark roots = None \<longleftrightarrow> (\<exists>n \<in> reach nd (set roots). nd n = None)"
proof (cases "walk_roots nd mark roots")
  case None
  then show ?thesis using walk_roots_total [of nd roots mark] by (metis not_None_eq)
next
  case (Some st)
  note inv = walk_roots_invariant [OF Some [unfolded walk_roots_def]]
  have "reach nd (set roots) \<subseteq> set roots \<union> snd st"
    by (rule reach_subset) (use inv in \<open>auto simp: walk_closed_def\<close>)
  then have "nd n \<noteq> None" if "n \<in> reach nd (set roots)" for n
    using that inv by (auto simp: walk_closed_def)
  then show ?thesis using Some by auto
qed

section \<open>A walk that collects the children it does not descend into\<close>

text \<open>
  How often a walk comes across a node: once per occurrence among the children it starts with and the
  successors of the nodes it has marked on the way.
\<close>

definition succ_list :: "('n, 'o) node_fn \<Rightarrow> 'n \<Rightarrow> 'n list" where
  "succ_list nd n = (case nd n of None \<Rightarrow> [] | Some (_, succs) \<Rightarrow> succs)"

definition arrivals :: "('n, 'o) node_fn \<Rightarrow> 'n list \<Rightarrow> 'n set \<Rightarrow> 'n \<Rightarrow> nat" where
  "arrivals nd cs N b = count_list cs b + (\<Sum>n \<in> N. count_list (succ_list nd n) b)"

lemma arrivals_simps [simp]:
  "arrivals nd [] {} b = 0"
  "arrivals nd (c # cs) N b = (if c = b then 1 else 0) + arrivals nd cs N b"
  by (auto simp: arrivals_def)

lemma arrivals_join:
  fixes N M :: "'n::finite set"
  assumes "c \<notin> N" "c \<notin> M" "N \<inter> M = {}" "nd c = Some (items, succs)"
  shows "arrivals nd cs (insert c (N \<union> M)) b = arrivals nd succs N b + arrivals nd cs M b"
  using assms by (simp add: arrivals_def succ_list_def sum.union_disjoint)

lemma arrivals_step:
  fixes x y z :: nat
  assumes "(m \<longleftrightarrow> b \<in> insert c vis \<or> ok \<and> x \<ge> 1) \<and> (om \<longleftrightarrow> o0 \<or> x \<ge> 1 \<and> (\<not> ok \<or> b \<in> insert c vis) \<or> x \<ge> 2)"
    and "(m' \<longleftrightarrow> m \<or> ok \<and> y \<ge> 1) \<and> (om' \<longleftrightarrow> om \<or> y \<ge> 1 \<and> (\<not> ok \<or> m) \<or> y \<ge> 2)"
    and "z = (if c = b then 1 else 0) + (x + y)" "c = b \<Longrightarrow> ok \<and> c \<notin> vis" "o0 \<longleftrightarrow> out0"
  shows "(m' \<longleftrightarrow> b \<in> vis \<or> ok \<and> z \<ge> 1) \<and> (om' \<longleftrightarrow> out0 \<or> z \<ge> 1 \<and> (\<not> ok \<or> b \<in> vis) \<or> z \<ge> 2)"
proof -
  consider "x = 0" | "x = 1" | "x \<ge> 2" by linarith
  then show ?thesis
  proof cases
    case 1
    then show ?thesis using assms by (cases "y = 0"; cases "y = 1"; cases "c = b"; cases "b \<in> vis"; simp)
  next
    case 2
    then show ?thesis using assms by (cases "y = 0"; cases "c = b"; cases "b \<in> vis"; simp)
  next
    case 3
    then show ?thesis using assms by (cases "c = b"; cases "b \<in> vis"; cases ok; simp)
  qed
qed

lemma walk_arrivals:
  fixes nd :: "('n::finite, 'n) node_fn"
  assumes "walk ok nd (\<lambda>c. [c]) cs st = Some st'" "\<And>n. items_of nd n = {}"
  shows "(b \<in> snd st' \<longleftrightarrow> b \<in> snd st \<or> ok b \<and> arrivals nd cs (snd st' - snd st) b \<ge> 1) \<and>
    (b \<in> set (fst st') \<longleftrightarrow> b \<in> set (fst st) \<or>
      arrivals nd cs (snd st' - snd st) b \<ge> 1 \<and> (\<not> ok b \<or> b \<in> snd st) \<or>
      arrivals nd cs (snd st' - snd st) b \<ge> 2)"
  using assms(1)
proof (induction rule: walk_Some_induct)
  case (Visit c cs out vis items succs mid st')
  have g: "insert c vis \<subseteq> snd mid" "snd mid \<subseteq> snd st'"
    using walk_grows [OF Visit.hyps(4)] walk_grows [OF Visit.hyps(5)] by simp_all
  have items: "set items = {}" using assms(2) [of c] Visit.hyps(3) by (simp add: items_of_def)
  have N: "snd st' - vis = insert c ((snd mid - insert c vis) \<union> (snd st' - snd mid))"
    using g Visit.hyps(2) by auto
  have "arrivals nd (c # cs) (snd st' - vis) b = (if c = b then 1 else 0) +
      (arrivals nd succs (snd mid - insert c vis) b + arrivals nd cs (snd st' - snd mid) b)"
    unfolding N arrivals_simps using g Visit.hyps(3) by (subst arrivals_join [where items = items and succs = succs]) auto
  moreover have "set (index_extend out items) = set out" using items by simp
  ultimately show ?case
    using Visit.hyps(1,2) unfolding fst_conv snd_conv
    by (intro arrivals_step [OF Visit.IH [unfolded fst_conv snd_conv]]) auto
next
  case (Skip c cs out vis st')
  then show ?case by (auto split: if_splits)
qed simp

end
