(* ===== verification/Stores.thy ===== *)
theory Stores
  imports Prelude
begin

text \<open>
  The contracts of the keyed stores of the model.

  \<open>kv_store\<close> is what a client of a map-like structure relies on: a lookup after an insertion returns
  the inserted value for an equivalent key and the previous one for any other, and insertion never
  panics on a well-formed store.  \<open>link_store\<close> is a relation stored on both of its sides.  \<open>map_store\<close> is
  a map with insertion and removal, and \<open>checkpoint_store\<close> extends it with the protocol of the
  incremental module graph: after a checkpoint, whatever was inserted or removed, a reset restores the
  map of the checkpoint.  The component theories interpret all of them on the code's own structures.
\<close>

locale kv_store =
  fixes inv :: "'s \<Rightarrow> bool"
    and empty :: 's
    and lookup :: "'s \<Rightarrow> 'k \<Rightarrow> 'v option"
    and update :: "'k \<Rightarrow> 'v \<Rightarrow> 's \<Rightarrow> 's option"
    and key_ok :: "'k \<Rightarrow> bool"
    and same :: "'k \<Rightarrow> 'k \<Rightarrow> bool"
  assumes inv_empty: "inv empty"
    and lookup_empty: "key_ok k \<Longrightarrow> lookup empty k = None"
    and update_total: "inv s \<Longrightarrow> key_ok k \<Longrightarrow> \<exists>s'. update k v s = Some s'"
    and update_inv: "inv s \<Longrightarrow> key_ok k \<Longrightarrow> update k v s = Some s' \<Longrightarrow> inv s'"
    and lookup_update: "inv s \<Longrightarrow> key_ok k \<Longrightarrow> key_ok j \<Longrightarrow> update k v s = Some s' \<Longrightarrow>
      lookup s' j = (if same k j then Some v else lookup s j)"
begin

definition update_all :: "('k \<times> 'v) list \<Rightarrow> 's \<Rightarrow> 's option" where
  "update_all kvs = for_each (\<lambda>(k, v). update k v) kvs"

definition last_binding :: "('k \<times> 'v) list \<Rightarrow> 'k \<Rightarrow> 'v option" where
  "last_binding kvs j = map_option snd (find (\<lambda>(k, v). same k j) (rev kvs))"

lemma last_binding_simps:
  "last_binding [] j = None"
  "last_binding (kvs @ [(k, v)]) j = (if same k j then Some v else last_binding kvs j)"
  by (auto simp: last_binding_def)

lemma update_all_spec:
  assumes "inv s" "\<And>k v. (k, v) \<in> set kvs \<Longrightarrow> key_ok k"
  shows "\<exists>s'. update_all kvs s = Some s' \<and> inv s' \<and>
    (\<forall>j. key_ok j \<longrightarrow> lookup s' j = (case last_binding kvs j of Some v \<Rightarrow> Some v | None \<Rightarrow> lookup s j))"
  using assms
proof (induction kvs rule: rev_induct)
  case Nil
  then show ?case by (simp add: update_all_def last_binding_simps)
next
  case (snoc kv kvs)
  obtain k v where kv: "kv = (k, v)" by (cases kv)
  then have ok: "key_ok k" using snoc.prems(2) [of k v] by simp
  obtain s1 where s1: "update_all kvs s = Some s1" "inv s1"
    "\<And>j. key_ok j \<Longrightarrow> lookup s1 j = (case last_binding kvs j of Some v \<Rightarrow> Some v | None \<Rightarrow> lookup s j)"
    using snoc.IH snoc.prems by auto
  obtain s2 where s2: "update k v s1 = Some s2" using update_total [OF s1(2) ok] by blast
  have "lookup s2 j = (case last_binding (kvs @ [kv]) j of Some v \<Rightarrow> Some v | None \<Rightarrow> lookup s j)"
    if "key_ok j" for j
    using lookup_update [OF s1(2) ok that s2] s1(3) [OF that] by (simp add: kv last_binding_simps)
  then show ?case
    using s1(1) s2 update_inv [OF s1(2) ok s2]
    by (auto simp: update_all_def for_each_append kv)
qed

lemma lookup_update_all:
  assumes "\<And>k v. (k, v) \<in> set kvs \<Longrightarrow> key_ok k"
  shows "\<exists>s. update_all kvs empty = Some s \<and> inv s \<and> (\<forall>j. key_ok j \<longrightarrow> lookup s j = last_binding kvs j)"
  using update_all_spec [OF inv_empty, of kvs] assms by (fastforce simp: lookup_empty split: option.splits)

end

section \<open>Bidirectional links\<close>

text \<open>
  A graph that stores a relation twice, on its left and on its right nodes.  \<open>connect\<close> creates missing nodes,
  \<open>disconnect\<close> panics on a missing one.  The client lemmas: both sides keep agreeing under any
  sequence of operations, and disconnecting a freshly connected pair restores the relation.
\<close>

locale link_store =
  fixes left :: "'g \<Rightarrow> ('l \<times> 'r) set"
    and right :: "'g \<Rightarrow> ('l \<times> 'r) set"
    and connect :: "'l \<Rightarrow> 'r \<Rightarrow> 'g \<Rightarrow> 'g option"
    and disconnect :: "'l \<Rightarrow> 'r \<Rightarrow> 'g \<Rightarrow> 'g option"
  assumes connect_spec: "\<exists>g'. connect l r g = Some g' \<and> left g' = insert (l, r) (left g) \<and> right g' = insert (l, r) (right g)"
    and disconnect_spec: "(l, r) \<in> left g \<Longrightarrow> (l, r) \<in> right g \<Longrightarrow>
      \<exists>g'. disconnect l r g = Some g' \<and> left g' = left g - {(l, r)} \<and> right g' = right g - {(l, r)}"
begin

definition agree :: "'g \<Rightarrow> bool" where
  "agree g \<longleftrightarrow> left g = right g"

lemma connect_agree:
  assumes "agree g"
  shows "\<exists>g'. connect l r g = Some g' \<and> agree g' \<and> left g' = insert (l, r) (left g)"
  using assms connect_spec [of l r g] unfolding agree_def by auto

lemma disconnect_agree:
  assumes "agree g" "(l, r) \<in> left g"
  shows "\<exists>g'. disconnect l r g = Some g' \<and> agree g' \<and> left g' = left g - {(l, r)}"
  using assms disconnect_spec [of l r g] unfolding agree_def by auto

lemma connect_all:
  assumes "agree g"
  shows "\<exists>g'. for_each (\<lambda>(l, r). connect l r) ps g = Some g' \<and> agree g' \<and> left g' = left g \<union> set ps"
  using assms
proof (induction ps arbitrary: g)
  case (Cons p ps)
  obtain l r where p: "p = (l, r)" by (cases p)
  obtain g1 where g1: "connect l r g = Some g1" "agree g1" "left g1 = insert (l, r) (left g)"
    using connect_agree [OF Cons.prems] by blast
  obtain g2 where "for_each (\<lambda>(l, r). connect l r) ps g1 = Some g2" "agree g2" "left g2 = left g1 \<union> set ps"
    using Cons.IH [OF g1(2)] by blast
  then show ?case using g1 by (auto simp: p)
qed simp

lemma disconnect_all:
  assumes "agree g" "distinct ps" "set ps \<subseteq> left g"
  shows "\<exists>g'. for_each (\<lambda>(l, r). disconnect l r) ps g = Some g' \<and> agree g' \<and> left g' = left g - set ps"
  using assms
proof (induction ps arbitrary: g)
  case (Cons p ps)
  obtain l r where p: "p = (l, r)" by (cases p)
  obtain g1 where g1: "disconnect l r g = Some g1" "agree g1" "left g1 = left g - {(l, r)}"
    using disconnect_agree [of g l r] Cons.prems p by auto
  have "set ps \<subseteq> left g1" using Cons.prems p g1(3) by auto
  then obtain g2 where "for_each (\<lambda>(l, r). disconnect l r) ps g1 = Some g2" "agree g2" "left g2 = left g1 - set ps"
    using Cons.IH [OF g1(2)] Cons.prems(2) by auto
  then show ?case using g1 by (auto simp: p)
qed simp

lemma connect_disconnect:
  assumes "agree g" "(l, r) \<notin> left g"
  shows "\<exists>g' g''. connect l r g = Some g' \<and> disconnect l r g' = Some g'' \<and> agree g'' \<and> left g'' = left g"
proof -
  obtain g' where g': "connect l r g = Some g'" "agree g'" "left g' = insert (l, r) (left g)"
    using connect_agree [OF assms(1)] by blast
  then obtain g'' where "disconnect l r g' = Some g''" "agree g''" "left g'' = left g' - {(l, r)}"
    using disconnect_agree [of g' l r] by auto
  then show ?thesis using g' assms(2) by auto
qed

end

section \<open>Maps with checkpoints\<close>

text \<open>\<open>Modify\<close> is a change through a mutable reference; it has no effect on a missing key.\<close>

datatype ('k, 'v) store_op = Insert 'k 'v | Remove 'k | Modify 'k "'v \<Rightarrow> 'v"

primrec map_op :: "('k, 'v) store_op \<Rightarrow> ('k \<rightharpoonup> 'v) \<Rightarrow> ('k \<rightharpoonup> 'v)" where
  "map_op (Insert k v) m = m(k \<mapsto> v)"
| "map_op (Remove k) m = m(k := None)"
| "map_op (Modify k f) m = m(k := map_option f (m k))"

primrec not_modify :: "('k, 'v) store_op \<Rightarrow> bool" where
  "not_modify (Insert k v) = True"
| "not_modify (Remove k) = True"
| "not_modify (Modify k f) = False"

locale map_store =
  fixes inv :: "'s \<Rightarrow> bool"
    and lookup :: "'s \<Rightarrow> 'k \<Rightarrow> 'v option"
    and apply_op :: "('k, 'v) store_op \<Rightarrow> 's \<Rightarrow> 's"
    and op_ok :: "('k, 'v) store_op \<Rightarrow> bool"
  assumes lookup_op: "inv s \<Longrightarrow> op_ok x \<Longrightarrow> lookup (apply_op x s) = map_op x (lookup s)"
    and inv_op: "inv s \<Longrightarrow> op_ok x \<Longrightarrow> inv (apply_op x s)"
begin

lemma run_ops: "inv s \<Longrightarrow> \<forall>x \<in> set xs. op_ok x \<Longrightarrow>
    inv (fold apply_op xs s) \<and> lookup (fold apply_op xs s) = fold map_op xs (lookup s)"
  by (induction xs arbitrary: s) (simp_all add: inv_op lookup_op)

end

text \<open>\<open>saved\<close> is the map a reset returns to, when a checkpoint is active.\<close>

locale checkpoint_store = map_store inv lookup apply_op op_ok
  for inv :: "'s \<Rightarrow> bool" and lookup :: "'s \<Rightarrow> 'k \<Rightarrow> 'v option"
    and apply_op :: "('k, 'v) store_op \<Rightarrow> 's \<Rightarrow> 's" and op_ok :: "('k, 'v) store_op \<Rightarrow> bool" +
  fixes saved :: "'s \<Rightarrow> ('k \<Rightarrow> 'v option) option"
    and checkpoint :: "'s \<Rightarrow> 's option"
    and reset :: "'s \<Rightarrow> 's option"
  assumes checkpoint_spec: "inv s \<Longrightarrow> saved s = None \<Longrightarrow>
      \<exists>s'. checkpoint s = Some s' \<and> inv s' \<and> lookup s' = lookup s \<and> saved s' = Some (lookup s)"
    and saved_op: "inv s \<Longrightarrow> op_ok x \<Longrightarrow> saved s = Some m \<Longrightarrow> saved (apply_op x s) = Some m"
    and reset_spec: "inv s \<Longrightarrow> saved s = Some m \<Longrightarrow>
      \<exists>s'. reset s = Some s' \<and> inv s' \<and> lookup s' = m \<and> saved s' = None"
begin

lemma saved_ops: "inv s \<Longrightarrow> \<forall>x \<in> set xs. op_ok x \<Longrightarrow> saved s = Some m \<Longrightarrow> saved (fold apply_op xs s) = Some m"
  by (induction xs arbitrary: s) (simp_all add: inv_op saved_op)

text \<open>A transaction: checkpoint, any operations, reset.\<close>

lemma transaction:
  assumes "inv s" "saved s = None" "\<forall>x \<in> set xs. op_ok x"
  shows "\<exists>s1 s2. checkpoint s = Some s1 \<and> lookup (fold apply_op xs s1) = fold map_op xs (lookup s) \<and>
    reset (fold apply_op xs s1) = Some s2 \<and> lookup s2 = lookup s \<and> inv s2 \<and> saved s2 = None"
proof -
  obtain s1 where s1: "checkpoint s = Some s1" "inv s1" "lookup s1 = lookup s" "saved s1 = Some (lookup s)"
    using checkpoint_spec [OF assms(1,2)] by blast
  have run: "inv (fold apply_op xs s1)" "lookup (fold apply_op xs s1) = fold map_op xs (lookup s)"
    using run_ops [OF s1(2) assms(3)] s1(3) by simp_all
  obtain s2 where "reset (fold apply_op xs s1) = Some s2" "inv s2" "lookup s2 = lookup s" "saved s2 = None"
    using reset_spec [OF run(1) saved_ops [OF s1(2) assms(3) s1(4)]] by blast
  then show ?thesis using s1(1) run(2) by blast
qed

end

end
