(* ===== verification/Runtime_Spec.thy ===== *)
theory Runtime_Spec
  imports Stores
begin

text \<open>
  \<open>crates/rspack_core/src/runtime.rs\<close>: runtime specifications (a set of runtime names with a cached
  key), runtime conditions and their algebra, and the map keyed by a runtime with its three
  storage modes.
\<close>

section \<open>RuntimeSpec\<close>

type_synonym runtime_key = string

record runtime_spec =
  rs_inner :: "ustr set"
  rs_key :: runtime_key

definition update_key :: "runtime_spec \<Rightarrow> runtime_spec" where
  "update_key this =
    (let ordered = sorted_list_of_set (rs_inner this) in
     if card (rs_inner this) = 0 then this\<lparr>rs_key := []\<rparr>
     else if card (rs_inner this) = 1 then this\<lparr>rs_key := hd ordered\<rparr>
     else this\<lparr>rs_key := (case ordered of
         [] \<Rightarrow> []
       | first # rest \<Rightarrow> foldl (\<lambda>key runtime. (key @ ''_'') @ runtime) first rest)\<rparr>)"

definition runtime_new :: "ustr set \<Rightarrow> runtime_spec" where
  "runtime_new inner = update_key \<lparr>rs_inner = inner, rs_key = []\<rparr>"

definition runtime_from_iter :: "ustr list \<Rightarrow> runtime_spec" where
  "runtime_from_iter iter = runtime_new (set iter)"

definition from_runtimes :: "runtime_spec list \<Rightarrow> runtime_spec" where
  "from_runtimes runtimes =
    runtime_new (foldl (\<lambda>inner runtime. inner \<union> rs_inner runtime) {} runtimes)"

datatype entry_runtime = EntryRuntimeString string | EntryRuntimeFalse

definition from_entry :: "string \<Rightarrow> entry_runtime option \<Rightarrow> runtime_spec" where
  "from_entry entry runtime =
    (let r = (case runtime of
        Some (EntryRuntimeString s) \<Rightarrow> (if s \<noteq> [] then s else entry)
      | _ \<Rightarrow> entry)
     in runtime_from_iter [r])"

definition runtime_subtract :: "runtime_spec \<Rightarrow> runtime_spec \<Rightarrow> runtime_spec" where
  "runtime_subtract a b = runtime_new (rs_inner a - rs_inner b)"

definition runtime_extend :: "runtime_spec \<Rightarrow> runtime_spec \<Rightarrow> runtime_spec" where
  "runtime_extend self other =
    (let prev = card (rs_inner self);
         self1 = self\<lparr>rs_inner := rs_inner self \<union> rs_inner other\<rparr>
     in if prev \<noteq> card (rs_inner self1) then update_key self1 else self1)"

definition runtime_display :: "(ustr set \<Rightarrow> ustr list) \<Rightarrow> runtime_spec \<Rightarrow> string" where
  "runtime_display ord self = (case ord (rs_inner self) of
      [] \<Rightarrow> []
    | first # rest \<Rightarrow> foldl (\<lambda>out r. (out @ '','') @ r) first rest)"

definition is_runtime_equal :: "runtime_spec \<Rightarrow> runtime_spec \<Rightarrow> bool" where
  "is_runtime_equal a b \<longleftrightarrow> rs_key a = rs_key b"

definition get_runtime_key :: "runtime_spec \<Rightarrow> runtime_key" where
  "get_runtime_key runtime = rs_key runtime"

definition compare_runtime :: "runtime_spec \<Rightarrow> runtime_spec \<Rightarrow> ordering" where
  "compare_runtime a b = cmp_ord (rs_key a) (rs_key b)"

definition merge_runtime :: "runtime_spec \<Rightarrow> runtime_spec \<Rightarrow> runtime_spec" where
  "merge_runtime a b = runtime_new (rs_inner a \<union> rs_inner b)"

definition runtime_len :: "runtime_spec \<Rightarrow> nat" where
  "runtime_len r = card (rs_inner r)"

text \<open>The cached key agrees with the set: what \<open>update_key\<close> establishes.\<close>

definition runtime_inv :: "runtime_spec \<Rightarrow> bool" where
  "runtime_inv r \<longleftrightarrow> finite (rs_inner r) \<and> update_key r = r"

lemma rs_inner_update_key [simp]: "rs_inner (update_key r) = rs_inner r"
  by (simp add: update_key_def Let_def)

lemma update_key_cong: "rs_inner r = rs_inner s \<Longrightarrow> update_key r = update_key s"
  by (cases r; cases s) (simp add: update_key_def Let_def)

lemma update_key_idem [simp]: "update_key (update_key r) = update_key r"
  by (rule update_key_cong) simp

lemma rs_inner_new [simp]: "rs_inner (runtime_new s) = s"
  by (simp add: runtime_new_def)

lemma runtime_inv_new [simp, inv_intros]: "finite s \<Longrightarrow> runtime_inv (runtime_new s)"
  by (simp add: runtime_inv_def runtime_new_def)

lemma runtime_inv_iff: "runtime_inv r \<longleftrightarrow> finite (rs_inner r) \<and> r = runtime_new (rs_inner r)"
proof -
  have "update_key r = runtime_new (rs_inner r)"
    unfolding runtime_new_def by (rule update_key_cong) simp
  then show ?thesis by (auto simp: runtime_inv_def)
qed

lemma runtime_inv_eqI: "runtime_inv a \<Longrightarrow> runtime_inv b \<Longrightarrow> rs_inner a = rs_inner b \<Longrightarrow> a = b"
  by (metis runtime_inv_iff)

lemma fold_Un_inner: "foldl (\<lambda>inner runtime. inner \<union> rs_inner runtime) S rs = S \<union> (\<Union>r \<in> set rs. rs_inner r)"
  by (induction rs arbitrary: S) auto

lemma runtime_extend_eq:
  assumes "runtime_inv a" "finite (rs_inner b)"
  shows "runtime_extend a b = runtime_new (rs_inner a \<union> rs_inner b)"
proof -
  let ?a = "a\<lparr>rs_inner := rs_inner a \<union> rs_inner b\<rparr>"
  have fin: "finite (rs_inner a \<union> rs_inner b)" using assms by (simp add: runtime_inv_def)
  have new: "update_key ?a = runtime_new (rs_inner a \<union> rs_inner b)"
    unfolding runtime_new_def by (rule update_key_cong) simp
  show ?thesis
  proof (cases "card (rs_inner a) = card (rs_inner a \<union> rs_inner b)")
    case True
    then have "rs_inner a = rs_inner a \<union> rs_inner b"
      using card_subset_eq [OF fin, of "rs_inner a"] by auto
    then have "?a = a" by simp
    then show ?thesis
      using True assms(1) \<open>rs_inner a = _\<close> by (simp add: runtime_extend_def Let_def runtime_inv_iff)
  next
    case False
    then show ?thesis using new by (simp add: runtime_extend_def Let_def)
  qed
qed

lemma runtime_inv_ops [inv_intros]:
  assumes "runtime_inv a" "runtime_inv b"
  shows "runtime_inv (runtime_extend a b)" "runtime_inv (runtime_subtract a b)"
    "runtime_inv (merge_runtime a b)"
  using assms unfolding runtime_extend_eq [OF assms(1)] runtime_subtract_def merge_runtime_def
  by (simp_all add: runtime_inv_def [of a] runtime_inv_def [of b] runtime_extend_eq [OF assms(1)])

section \<open>When keys identify runtimes\<close>

definition join_key :: "string list \<Rightarrow> string" where
  "join_key xs = (case xs of [] \<Rightarrow> [] | first # rest \<Rightarrow> foldl (\<lambda>key runtime. (key @ ''_'') @ runtime) first rest)"

definition plain_name :: "ustr \<Rightarrow> bool" where
  "plain_name n \<longleftrightarrow> n \<noteq> [] \<and> CHR ''_'' \<notin> set n"

lemma foldl_join: "foldl (\<lambda>key runtime. (key @ s) @ runtime) k xs = k @ concat (map ((@) s) xs)"
  by (induction xs arbitrary: k) auto

lemma join_key_simps:
  "join_key [] = []" "join_key [x] = x" "join_key (x # y # xs) = x @ ''_'' @ join_key (y # xs)"
  by (simp_all add: join_key_def foldl_join)

lemma rs_key_new: "finite s \<Longrightarrow> rs_key (runtime_new s) = join_key (sorted_list_of_set s)"
proof -
  assume fin: "finite s"
  have "sorted_list_of_set s = [] \<longleftrightarrow> card s = 0" using fin by simp
  moreover have "\<exists>x. sorted_list_of_set s = [x]" if "card s = 1"
    using fin that by (metis One_nat_def length_0_conv length_Suc_conv length_sorted_list_of_set)
  ultimately show ?thesis
    using fin by (auto simp: runtime_new_def update_key_def join_key_def Let_def split: list.splits)
qed

lemma split_at_sep:
  assumes "c \<notin> set x" "c \<notin> set y" "x @ c # r = y @ c # s"
  shows "x = y \<and> r = s"
  using assms
proof (induction x arbitrary: y)
  case Nil
  then show ?case by (cases y) auto
next
  case (Cons a x)
  then show ?case by (cases y) auto
qed

lemma join_key_inject:
  assumes "\<forall>n \<in> set xs \<union> set ys. plain_name n" "join_key xs = join_key ys"
  shows "xs = ys"
  using assms
proof (induction xs arbitrary: ys rule: induct_list012)
  case 1
  then show ?case by (cases ys rule: remdups_adj.cases) (auto simp: join_key_simps plain_name_def)
next
  case (2 x)
  then show ?case by (cases ys rule: remdups_adj.cases) (auto simp: join_key_simps plain_name_def)
next
  case (3 x y zs)
  obtain u v ws where ys: "ys = u # v # ws"
    using 3 by (cases ys rule: remdups_adj.cases) (auto simp: join_key_simps plain_name_def)
  have "x @ CHR ''_'' # join_key (y # zs) = u @ CHR ''_'' # join_key (v # ws)"
    using "3.prems"(2) by (simp add: ys join_key_simps)
  then have "x = u \<and> join_key (y # zs) = join_key (v # ws)"
    using "3.prems"(1) ys by (intro split_at_sep) (auto simp: plain_name_def)
  moreover have "y # zs = v # ws"
    using calculation "3.prems"(1) ys by (intro "3.IH"(2)) auto
  ultimately show ?case using ys by simp
qed

lemma key_eq_iff:
  assumes "runtime_inv a" "runtime_inv b"
    and "\<forall>n \<in> rs_inner a. plain_name n" "\<forall>n \<in> rs_inner b. plain_name n"
  shows "rs_key a = rs_key b \<longleftrightarrow> rs_inner a = rs_inner b"
proof
  assume eq: "rs_key a = rs_key b"
  have fin: "finite (rs_inner a)" "finite (rs_inner b)" using assms by (simp_all add: runtime_inv_def)
  have "rs_key a = join_key (sorted_list_of_set (rs_inner a))"
    "rs_key b = join_key (sorted_list_of_set (rs_inner b))"
    using assms(1,2) fin rs_key_new runtime_inv_iff by metis+
  then have "sorted_list_of_set (rs_inner a) = sorted_list_of_set (rs_inner b)"
    using join_key_inject [of "sorted_list_of_set (rs_inner a)" "sorted_list_of_set (rs_inner b)"] eq assms(3,4) fin
    by auto
  then show "rs_inner a = rs_inner b" using fin by (metis set_sorted_list_of_set)
qed (use assms runtime_inv_eqI in metis)

interpretation runtime_cmp: comparator compare_runtime
  unfolding compare_runtime_def by (rule comparator_key [OF ord_cmp.comparator_axioms])

section \<open>RuntimeCondition\<close>

datatype runtime_condition = Boolean bool | Spec runtime_spec

definition filter_runtime :: "(ustr set \<Rightarrow> ustr list) \<Rightarrow> runtime_spec option \<Rightarrow>
    (runtime_spec option \<Rightarrow> bool) \<Rightarrow> runtime_condition" where
  "filter_runtime ord runtime flt = (case runtime of
      None \<Rightarrow> Boolean (flt None)
    | Some runtime \<Rightarrow>
       if runtime_len runtime = 1 then Boolean (flt (Some runtime))
       else
        (let (some, every, result) =
           foldl (\<lambda>(some, every, result) r.
               let cur = runtime_from_iter [r] in
               if flt (Some cur) then (True, every, insert r result) else (some, False, result))
             (False, True, {}) (ord (rs_inner runtime))
         in if \<not> some then Boolean False
            else if every then Boolean True
            else Spec (runtime_new result)))"

definition spec_len :: "runtime_spec option \<Rightarrow> nat" where
  "spec_len runtime = (case runtime of Some spec \<Rightarrow> runtime_len spec | None \<Rightarrow> 0)"

fun merge_runtime_condition_non_false ::
  "runtime_condition \<Rightarrow> runtime_condition \<Rightarrow> runtime_spec option \<Rightarrow> runtime_condition option" where
  "merge_runtime_condition_non_false (Boolean True) _ runtime = Some (Boolean True)"
| "merge_runtime_condition_non_false (Boolean False) _ runtime = None"
| "merge_runtime_condition_non_false (Spec _) (Boolean False) runtime = None"
| "merge_runtime_condition_non_false (Spec _) (Boolean True) runtime = Some (Boolean True)"
| "merge_runtime_condition_non_false (Spec a) (Spec b) runtime =
    (let merged = merge_runtime a b in
     if spec_len runtime = runtime_len merged then Some (Boolean True) else Some (Spec merged))"

fun merge_runtime_condition ::
  "runtime_condition \<Rightarrow> runtime_condition \<Rightarrow> runtime_spec option \<Rightarrow> runtime_condition" where
  "merge_runtime_condition (Boolean False) b runtime = b"
| "merge_runtime_condition a (Boolean False) runtime = a"
| "merge_runtime_condition _ (Boolean True) runtime = Boolean True"
| "merge_runtime_condition (Boolean True) _ runtime = Boolean True"
| "merge_runtime_condition (Spec a) (Spec b) runtime =
    (let merged = merge_runtime a b in
     if spec_len runtime = runtime_len merged then Boolean True else Spec merged)"

fun subtract_runtime_condition ::
  "runtime_condition \<Rightarrow> runtime_condition \<Rightarrow> runtime_spec option \<Rightarrow> runtime_condition" where
  "subtract_runtime_condition _ (Boolean True) runtime = Boolean False"
| "subtract_runtime_condition a (Boolean False) runtime = a"
| "subtract_runtime_condition (Boolean False) _ runtime = Boolean False"
| "subtract_runtime_condition (Spec a) (Spec b) runtime =
    (let merged = rs_inner a - rs_inner b in
     if merged = {} then Boolean False else Spec (runtime_new merged))"
| "subtract_runtime_condition (Boolean True) (Spec b) runtime =
    (let merged = (case runtime of Some a \<Rightarrow> rs_inner a - rs_inner b | None \<Rightarrow> {}) in
     if merged = {} then Boolean False else Spec (runtime_new merged))"

text \<open>
  The meaning of a condition for one runtime name, and the canonical form: a \<open>Spec\<close> names some but
  not all of the runtimes it is relative to.
\<close>

fun cond_holds :: "runtime_condition \<Rightarrow> ustr \<Rightarrow> bool" where
  "cond_holds (Boolean b) r = b"
| "cond_holds (Spec s) r = (r \<in> rs_inner s)"

fun cond_ok :: "runtime_spec \<Rightarrow> runtime_condition \<Rightarrow> bool" where
  "cond_ok rt (Boolean b) = True"
| "cond_ok rt (Spec s) = (runtime_inv s \<and> rs_inner s \<noteq> {} \<and> rs_inner s \<subset> rs_inner rt)"

lemma filter_fold:
  "foldl (\<lambda>(some, every, result) r.
       let cur = runtime_from_iter [r] in
       if flt (Some cur) then (True, every, insert r result) else (some, False, result))
     (sm, ev, res) rs =
   (sm \<or> (\<exists>r \<in> set rs. flt (Some (runtime_new {r}))), ev \<and> (\<forall>r \<in> set rs. flt (Some (runtime_new {r}))),
    res \<union> {r \<in> set rs. flt (Some (runtime_new {r}))})"
  by (induction rs arbitrary: sm ev res) (auto simp: runtime_from_iter_def Let_def)

lemma filter_runtime_eq:
  assumes "hash_order ord" "runtime_inv rt"
    and R_def: "R = {r \<in> rs_inner rt. flt (Some (runtime_new {r}))}"
  shows "filter_runtime ord (Some rt) flt =
    (if R = {} then Boolean False else if R = rs_inner rt then Boolean True else Spec (runtime_new R))"
proof (cases "runtime_len rt = 1")
  case True
  then obtain r where r: "rs_inner rt = {r}" by (auto simp: runtime_len_def card_1_singleton_iff)
  then have "rt = runtime_new {r}" using assms(2) runtime_inv_iff by metis
  then have "filter_runtime ord (Some rt) flt = Boolean (flt (Some (runtime_new {r})))"
    using True by (simp add: filter_runtime_def)
  moreover have "R = (if flt (Some (runtime_new {r})) then {r} else {})"
    by (auto simp: R_def r)
  ultimately show ?thesis by (simp add: r)
next
  case False
  have "set (ord (rs_inner rt)) = rs_inner rt"
    using hash_orderD(2) assms(1,2) by (auto simp: runtime_inv_def)
  then have "filter_runtime ord (Some rt) flt =
      (if \<not> (\<exists>r \<in> rs_inner rt. flt (Some (runtime_new {r}))) then Boolean False
       else if \<forall>r \<in> rs_inner rt. flt (Some (runtime_new {r})) then Boolean True
       else Spec (runtime_new R))"
    using False unfolding filter_runtime_def option.case filter_fold R_def by simp
  moreover have "R = rs_inner rt \<longleftrightarrow> (\<forall>r \<in> rs_inner rt. flt (Some (runtime_new {r})))"
    "R = {} \<longleftrightarrow> \<not> (\<exists>r \<in> rs_inner rt. flt (Some (runtime_new {r})))"
    by (auto simp: R_def)
  ultimately show ?thesis by simp
qed

lemma filter_runtime_holds:
  assumes "hash_order ord" "runtime_inv rt" "r \<in> rs_inner rt"
  shows "cond_holds (filter_runtime ord (Some rt) flt) r \<longleftrightarrow> flt (Some (runtime_new {r}))"
  using assms(3) by (auto simp: filter_runtime_eq [OF assms(1,2) refl])

lemma filter_runtime_canonical:
  assumes "hash_order ord" "runtime_inv rt"
  shows "cond_ok rt (filter_runtime ord (Some rt) flt)"
  using assms(2) by (auto simp: filter_runtime_eq [OF assms refl] runtime_inv_def [of rt])

lemma merge_full:
  assumes "runtime_inv rt" "rs_inner a \<subseteq> rs_inner rt" "rs_inner b \<subseteq> rs_inner rt"
  shows "spec_len (Some rt) = runtime_len (merge_runtime a b) \<longleftrightarrow> rs_inner a \<union> rs_inner b = rs_inner rt"
proof -
  have "finite (rs_inner rt)" "rs_inner a \<union> rs_inner b \<subseteq> rs_inner rt"
    using assms by (auto simp: runtime_inv_def)
  then have "card (rs_inner rt) = card (rs_inner a \<union> rs_inner b) \<longleftrightarrow> rs_inner a \<union> rs_inner b = rs_inner rt"
    using card_subset_eq by metis
  then show ?thesis by (simp add: spec_len_def runtime_len_def merge_runtime_def)
qed

lemma merge_condition_spec:
  assumes "runtime_inv rt" "cond_ok rt a" "cond_ok rt b"
  shows "cond_ok rt (merge_runtime_condition a b (Some rt)) \<and>
    (\<forall>r \<in> rs_inner rt. cond_holds (merge_runtime_condition a b (Some rt)) r \<longleftrightarrow> cond_holds a r \<or> cond_holds b r)"
proof (cases "(a, b, Some rt)" rule: merge_runtime_condition.cases)
  case (5 s t rt')
  then have sub: "rs_inner s \<subseteq> rs_inner rt" "rs_inner t \<subseteq> rs_inner rt" "runtime_inv s" "runtime_inv t"
    "rs_inner s \<noteq> {}"
    using assms by auto
  have "rs_inner (merge_runtime s t) = rs_inner s \<union> rs_inner t" by (simp add: merge_runtime_def)
  then show ?thesis
    using 5 sub merge_full [OF assms(1) sub(1,2)] runtime_inv_ops(3) [OF sub(3,4)]
    by (auto simp: Let_def)
qed (use assms in auto)

lemma subtract_condition_spec:
  assumes "runtime_inv rt" "cond_ok rt a" "cond_ok rt b"
  shows "cond_ok rt (subtract_runtime_condition a b (Some rt)) \<and>
    (\<forall>r \<in> rs_inner rt. cond_holds (subtract_runtime_condition a b (Some rt)) r \<longleftrightarrow> cond_holds a r \<and> \<not> cond_holds b r)"
proof (cases "(a, b, Some rt)" rule: subtract_runtime_condition.cases)
  case (4 s t rt')
  then show ?thesis using assms by (auto simp: Let_def runtime_inv_def [of s])
next
  case (5 t rt')
  then show ?thesis using assms by (auto simp: Let_def runtime_inv_def [of rt])
qed (use assms in auto)

lemma merge_condition_true [simp]: "merge_runtime_condition (Boolean True) b rt = Boolean True"
  by (cases "(Boolean True, b, rt)" rule: merge_runtime_condition.cases) auto

lemma merge_non_false_eq:
  "merge_runtime_condition_non_false a b rt =
    (if a = Boolean False \<or> (a \<noteq> Boolean True \<and> b = Boolean False) then None
     else Some (merge_runtime_condition a b rt))"
  by (cases "(a, b, rt)" rule: merge_runtime_condition_non_false.cases) (auto simp: Let_def)

section \<open>RuntimeSpecMap and RuntimeSpecSet\<close>

datatype runtime_mode = EmptyMode | SingleEntry | MapMode

record 'v runtime_spec_map =
  rm_mode :: runtime_mode
  rm_map :: "runtime_key \<rightharpoonup> 'v"
  rm_single_runtime :: "runtime_spec option"
  rm_single_value :: "'v option"

definition rm_new :: "'v runtime_spec_map" where
  "rm_new = \<lparr>rm_mode = EmptyMode, rm_map = Map.empty, rm_single_runtime = None, rm_single_value = None\<rparr>"

definition rm_size :: "'v runtime_spec_map \<Rightarrow> nat" where
  "rm_size self = (case rm_mode self of EmptyMode \<Rightarrow> 0 | SingleEntry \<Rightarrow> 1 | MapMode \<Rightarrow> card (dom (rm_map self)))"

definition rm_get :: "'v runtime_spec_map \<Rightarrow> runtime_spec \<Rightarrow> 'v option" where
  "rm_get self runtime = (case rm_mode self of
      EmptyMode \<Rightarrow> None
    | SingleEntry \<Rightarrow> (case rm_single_runtime self of
          Some single_runtime \<Rightarrow>
            (if is_runtime_equal single_runtime runtime then rm_single_value self else None)
        | None \<Rightarrow> None)
    | MapMode \<Rightarrow> rm_map self (get_runtime_key runtime))"

text \<open>\<open>get_mut\<close> hands out a place; the model applies the caller's change \<open>f\<close> to it.\<close>

definition rm_get_mut :: "runtime_spec \<Rightarrow> ('v \<Rightarrow> 'v) \<Rightarrow> 'v runtime_spec_map \<Rightarrow> 'v runtime_spec_map" where
  "rm_get_mut runtime f self = (case rm_mode self of
      EmptyMode \<Rightarrow> self
    | SingleEntry \<Rightarrow> (case rm_single_runtime self of
          Some single_runtime \<Rightarrow>
            (if is_runtime_equal single_runtime runtime
             then self\<lparr>rm_single_value := map_option f (rm_single_value self)\<rparr> else self)
        | None \<Rightarrow> self)
    | MapMode \<Rightarrow> (case rm_map self (get_runtime_key runtime) of
          None \<Rightarrow> self
        | Some v \<Rightarrow> self\<lparr>rm_map := (rm_map self)(get_runtime_key runtime \<mapsto> f v)\<rparr>))"

definition rm_set :: "runtime_spec \<Rightarrow> 'v \<Rightarrow> 'v runtime_spec_map \<Rightarrow> 'v runtime_spec_map option" where
  "rm_set runtime value self = (case rm_mode self of
      EmptyMode \<Rightarrow> Some (self\<lparr>rm_mode := SingleEntry, rm_single_runtime := Some runtime,
        rm_single_value := Some value\<rparr>)
    | SingleEntry \<Rightarrow>
       (if (case rm_single_runtime self of Some single_runtime \<Rightarrow> is_runtime_equal single_runtime runtime
            | None \<Rightarrow> False)
        then Some (self\<lparr>rm_single_value := Some value\<rparr>)
        else do {
          single_runtime \<leftarrow> rm_single_runtime self;
          single_value \<leftarrow> rm_single_value self;
          Some (self\<lparr>rm_mode := MapMode, rm_single_runtime := None, rm_single_value := None,
            rm_map := (rm_map self)(get_runtime_key single_runtime \<mapsto> single_value,
                                    get_runtime_key runtime \<mapsto> value)\<rparr>)
        })
    | MapMode \<Rightarrow> Some (self\<lparr>rm_map := (rm_map self)(get_runtime_key runtime \<mapsto> value)\<rparr>))"

definition rm_values :: "(runtime_key set \<Rightarrow> runtime_key list) \<Rightarrow> 'v runtime_spec_map \<Rightarrow> 'v list" where
  "rm_values ord self = (case rm_mode self of
      EmptyMode \<Rightarrow> []
    | SingleEntry \<Rightarrow> (case rm_single_value self of None \<Rightarrow> [] | Some v \<Rightarrow> [v])
    | MapMode \<Rightarrow> List.map_filter (rm_map self) (ord (dom (rm_map self))))"

definition rm_inv :: "'v runtime_spec_map \<Rightarrow> bool" where
  "rm_inv self \<longleftrightarrow> (case rm_mode self of
      EmptyMode \<Rightarrow> rm_map self = Map.empty
    | SingleEntry \<Rightarrow> rm_map self = Map.empty \<and> rm_single_runtime self \<noteq> None \<and> rm_single_value self \<noteq> None
    | MapMode \<Rightarrow> finite (dom (rm_map self)))"

text \<open>The finite map from runtime keys that the three modes represent.\<close>

definition rm_abs :: "'v runtime_spec_map \<Rightarrow> runtime_key \<rightharpoonup> 'v" where
  "rm_abs self = (case rm_mode self of
      EmptyMode \<Rightarrow> Map.empty
    | SingleEntry \<Rightarrow> (case rm_single_runtime self of
          Some r \<Rightarrow> (\<lambda>k. if k = rs_key r then rm_single_value self else None) | None \<Rightarrow> Map.empty)
    | MapMode \<Rightarrow> rm_map self)"

lemmas rm_defs = rm_inv_def rm_abs_def is_runtime_equal_def get_runtime_key_def

lemma rm_get_refines: "rm_get self runtime = rm_abs self (rs_key runtime)"
  by (auto simp: rm_get_def rm_defs split: runtime_mode.splits option.splits)

lemma rm_set_refines:
  assumes "rm_inv self"
  shows "\<exists>self'. rm_set runtime value self = Some self' \<and> rm_inv self' \<and>
    rm_abs self' = (rm_abs self)(rs_key runtime \<mapsto> value)"
proof (cases "rm_mode self")
  case SingleEntry
  then obtain r v where "rm_single_runtime self = Some r" "rm_single_value self = Some v" "rm_map self = Map.empty"
    using assms by (auto simp: rm_inv_def)
  then show ?thesis
    using SingleEntry by (cases "rs_key r = rs_key runtime") (auto simp: rm_set_def rm_defs intro!: ext)
qed (use assms in \<open>auto simp: rm_set_def rm_defs intro!: ext\<close>)

lemma rm_get_mut_refines:
  assumes "rm_inv self"
  shows "rm_inv (rm_get_mut runtime f self) \<and>
    rm_abs (rm_get_mut runtime f self) =
      (rm_abs self)(rs_key runtime := map_option f (rm_abs self (rs_key runtime)))"
  using assms by (auto simp: rm_get_mut_def rm_defs fun_eq_iff split: runtime_mode.splits option.splits)

lemma rm_abs_finite: "rm_inv self \<Longrightarrow> finite (dom (rm_abs self))"
  by (auto simp: rm_defs dom_def split: runtime_mode.splits option.splits)

lemma rm_size_card: "rm_inv self \<Longrightarrow> rm_size self = card (dom (rm_abs self))"
  by (auto simp: rm_size_def rm_defs dom_def split: runtime_mode.splits option.splits)

lemma rm_new_simps [simp]: "rm_inv rm_new" "rm_abs rm_new = Map.empty"
  by (simp_all add: rm_new_def rm_defs)

interpretation rmap: kv_store rm_inv rm_new rm_get rm_set "\<lambda>_. True" is_runtime_equal
proof (standard, goal_cases)
  case (2 k)
  then show ?case by (simp add: rm_get_refines)
next
  case (3 s k v)
  then show ?case using rm_set_refines [of s k v] by blast
next
  case (4 s k v s')
  then show ?case using rm_set_refines [of s k v] by auto
next
  case (5 s k j v s')
  then have "rm_abs s' = (rm_abs s)(rs_key k \<mapsto> v)" using rm_set_refines [of s k v] by auto
  then show ?case by (simp add: rm_get_refines is_runtime_equal_def)
qed simp

record runtime_spec_set =
  rss_map :: "runtime_key \<rightharpoonup> runtime_spec"

definition rss_set :: "runtime_spec \<Rightarrow> runtime_spec_set \<Rightarrow> runtime_spec_set" where
  "rss_set runtime self = self\<lparr>rss_map := (rss_map self)(get_runtime_key runtime \<mapsto> runtime)\<rparr>"

definition rss_contains :: "runtime_spec_set \<Rightarrow> runtime_spec \<Rightarrow> bool" where
  "rss_contains self runtime \<longleftrightarrow> rss_map self (get_runtime_key runtime) \<noteq> None"

definition rss_values :: "(runtime_key set \<Rightarrow> runtime_key list) \<Rightarrow> runtime_spec_set \<Rightarrow> runtime_spec list" where
  "rss_values ord self = List.map_filter (rss_map self) (ord (dom (rss_map self)))"

definition rss_len :: "runtime_spec_set \<Rightarrow> nat" where
  "rss_len self = card (dom (rss_map self))"

definition rss_is_empty :: "runtime_spec_set \<Rightarrow> bool" where
  "rss_is_empty self \<longleftrightarrow> rss_len self = 0"

lemma rss_contains_set: "rss_contains (rss_set r s) q \<longleftrightarrow> is_runtime_equal r q \<or> rss_contains s q"
  by (auto simp: rss_contains_def rss_set_def is_runtime_equal_def get_runtime_key_def)

section \<open>Properties\<close>

text \<open>
  C1. The cached key identifies a runtime: two runtimes built by the operations whose names are
  nonempty and contain no underscore compare equal (by key) exactly when they hold the same names,
  and \<open>compare_runtime\<close> returns \<open>Equal\<close> in exactly these cases.
\<close>

theorem runtime_equal_iff_same_names:
  assumes "runtime_inv a" "runtime_inv b"
    and "\<forall>n \<in> rs_inner a \<union> rs_inner b. plain_name n"
  shows "(is_runtime_equal a b \<longleftrightarrow> rs_inner a = rs_inner b) \<and>
    (compare_runtime a b = Equal \<longleftrightarrow> rs_inner a = rs_inner b)"
  using key_eq_iff [of a b] assms by (auto simp: is_runtime_equal_def compare_runtime_def)

theorem runtime_equal_iff_same_names_witness:
  "\<not> is_runtime_equal (runtime_new {''main'', ''web''}) (runtime_new {''main''})"
  using runtime_equal_iff_same_names [of "runtime_new {''main'', ''web''}" "runtime_new {''main''}"]
  by (simp add: plain_name_def)

text \<open>
  C2. Every operation that builds or changes a runtime specification keeps the cached key in agreement
  with the set and computes the union or difference of the names; in particular \<open>extend\<close>, which
  rebuilds the key only when the number of names changed, gives what \<open>merge_runtime\<close> gives.
  \<open>from_entry\<close> gives the single name of the runtime option where that is a nonempty string, and
  the name of the entry in every other case (no option, the option \<open>false\<close>, the empty string).
\<close>

theorem runtime_operations_correct:
  assumes "runtime_inv a" "runtime_inv b" "\<forall>r \<in> set rs. runtime_inv r"
  shows "runtime_extend a b = merge_runtime a b \<and>
    runtime_inv (merge_runtime a b) \<and> rs_inner (merge_runtime a b) = rs_inner a \<union> rs_inner b \<and>
    runtime_inv (runtime_subtract a b) \<and> rs_inner (runtime_subtract a b) = rs_inner a - rs_inner b \<and>
    runtime_inv (from_runtimes rs) \<and> rs_inner (from_runtimes rs) = (\<Union>r \<in> set rs. rs_inner r) \<and>
    runtime_inv (from_entry entry rt) \<and>
    rs_inner (from_entry entry None) = {entry} \<and>
    rs_inner (from_entry entry (Some EntryRuntimeFalse)) = {entry} \<and>
    rs_inner (from_entry entry (Some (EntryRuntimeString []))) = {entry} \<and>
    (\<forall>c cs. rs_inner (from_entry entry (Some (EntryRuntimeString (c # cs)))) = {c # cs})"
proof -
  have "finite (\<Union>r \<in> set rs. rs_inner r)" using assms(3) by (auto simp: runtime_inv_def)
  then have "runtime_inv (from_runtimes rs) \<and> rs_inner (from_runtimes rs) = (\<Union>r \<in> set rs. rs_inner r)"
    by (simp add: from_runtimes_def fold_Un_inner)
  moreover have "finite (rs_inner b)" using assms(2) by (simp add: runtime_inv_def)
  then have "runtime_extend a b = merge_runtime a b"
    using runtime_extend_eq [OF assms(1)] by (simp add: merge_runtime_def)
  ultimately show ?thesis
    using runtime_inv_ops [OF assms(1,2)]
    by (simp add: merge_runtime_def runtime_subtract_def from_entry_def runtime_from_iter_def)
qed

theorem runtime_operations_correct_witness:
  "runtime_extend (runtime_new {''a''}) (runtime_new {''b''}) = runtime_new {''a'', ''b''}"
  using runtime_operations_correct [of "runtime_new {''a''}" "runtime_new {''b''}" "[]" "[]" None]
  by (simp add: merge_runtime_def insert_commute)

text \<open>
  C3. \<open>filter_runtime\<close> does what its callers rely on, for every iteration order of the hash set: the
  condition it returns holds for a runtime name exactly when the filter accepts that single
  runtime, and it is canonical (a \<open>Spec\<close> only when some but not all names pass).
\<close>

theorem filter_runtime_correct:
  assumes "hash_order ord" "runtime_inv rt"
  shows "(\<forall>r \<in> rs_inner rt. cond_holds (filter_runtime ord (Some rt) flt) r \<longleftrightarrow> flt (Some (runtime_new {r}))) \<and>
    cond_ok rt (filter_runtime ord (Some rt) flt)"
  using filter_runtime_holds [OF assms] filter_runtime_canonical [OF assms] by simp

theorem filter_runtime_correct_witness:
  "cond_holds (filter_runtime sorted_list_of_set (Some (runtime_new {''a'', ''b''}))
    (\<lambda>r. r = Some (runtime_new {''a''}))) ''a''"
  using filter_runtime_correct [of sorted_list_of_set "runtime_new {''a'', ''b''}" "\<lambda>r. r = Some (runtime_new {''a''})"]
  by simp

text \<open>
  C4. Runtime conditions form the algebra the optimisation passes use: on canonical conditions relative to a
  runtime, \<open>merge_runtime_condition\<close> is disjunction and \<open>subtract_runtime_condition\<close> is
  conjunction with the negation for every name of the runtime, the results are canonical again, and
  \<open>merge_runtime_condition_non_false\<close> panics exactly when the first condition is \<open>false\<close>, or the second
  is \<open>false\<close> and the first is not \<open>true\<close>; in every other case it returns what
  \<open>merge_runtime_condition\<close> returns.
\<close>

theorem runtime_condition_algebra:
  assumes "runtime_inv rt" "cond_ok rt a" "cond_ok rt b"
  shows "cond_ok rt (merge_runtime_condition a b (Some rt)) \<and>
    cond_ok rt (subtract_runtime_condition a b (Some rt)) \<and>
    (\<forall>r \<in> rs_inner rt.
       (cond_holds (merge_runtime_condition a b (Some rt)) r \<longleftrightarrow> cond_holds a r \<or> cond_holds b r) \<and>
       (cond_holds (subtract_runtime_condition a b (Some rt)) r \<longleftrightarrow> cond_holds a r \<and> \<not> cond_holds b r)) \<and>
    merge_runtime_condition_non_false a b (Some rt) =
      (if a = Boolean False \<or> (a \<noteq> Boolean True \<and> b = Boolean False) then None
       else Some (merge_runtime_condition a b (Some rt)))"
  using merge_condition_spec [OF assms] subtract_condition_spec [OF assms] merge_non_false_eq [of a b "Some rt"]
  by auto

theorem runtime_condition_algebra_witness:
  "cond_holds (merge_runtime_condition (Spec (runtime_new {''a''})) (Spec (runtime_new {''b''}))
    (Some (runtime_new {''a'', ''b'', ''c''}))) ''b''"
  using runtime_condition_algebra [of "runtime_new {''a'', ''b'', ''c''}" "Spec (runtime_new {''a''})" "Spec (runtime_new {''b''})"]
  by (auto simp: psubset_eq)

text \<open>
  C5. \<open>RuntimeSpecMap\<close> is a map from runtime keys whatever storage mode it is in: after any sequence of
  \<open>set\<close> calls on a new map (none of which panics) \<open>get\<close> returns the last value set for an equal
  runtime, and \<open>size\<close> is the number of distinct keys set.
\<close>

theorem runtime_spec_map_correct:
  "\<exists>m. for_each (\<lambda>(k, v). rm_set k v) kvs rm_new = Some m \<and> rm_inv m \<and>
    (\<forall>j. rm_get m j = map_option snd (find (\<lambda>(k, v). is_runtime_equal k j) (rev kvs))) \<and>
    rm_size m = card ((rs_key \<circ> fst) ` set kvs)"
proof -
  obtain m where m: "for_each (\<lambda>(k, v). rm_set k v) kvs rm_new = Some m" "rm_inv m"
    "\<And>j. rm_get m j = map_option snd (find (\<lambda>(k, v). is_runtime_equal k j) (rev kvs))"
    using rmap.lookup_update_all [of kvs] unfolding rmap.update_all_def rmap.last_binding_def by auto
  have "k \<in> dom (rm_abs m) \<longleftrightarrow> k \<in> (rs_key \<circ> fst) ` set kvs" for k
    using m(3) [of "\<lparr>rs_inner = {}, rs_key = k\<rparr>"] unfolding rm_get_refines
    by (auto simp: find_None_iff is_runtime_equal_def dom_def image_iff simp del: not_None_eq
        intro: ccontr) (metis fst_conv)+
  then have "dom (rm_abs m) = (rs_key \<circ> fst) ` set kvs" by blast
  then show ?thesis using m rm_size_card [OF m(2)] by auto
qed

end
