(* ===== verification/Chunk.thy ===== *)
theory Chunk
  imports Runtime_Spec
begin

text \<open>
  The data of \<open>crates/rspack_core/src/chunk.rs\<close>: the chunk record with the operations on its own
  fields, and the data collected while a chunk is split.  The queries that follow chunk groups are in
  \<open>Chunk_Queries\<close>.
\<close>

type_synonym chunk_ukey = u32
type_synonym chunk_group_ukey = u32
type_synonym chunk_id = string

datatype chunk_kind = HotUpdateChunk | NormalChunk | FacadeChunk

text \<open>\<open>FilenameKind::Fn\<close> is a function object compared by identity.\<close>

datatype filename = FilenameTemplate ustr | FilenameFn nat

record chunk =
  c_ukey :: chunk_ukey
  c_kind :: chunk_kind
  c_id :: "chunk_id option"
  c_name :: "string option"
  c_id_name_hints :: "string set"
  c_filename_template :: "filename option"
  c_css_filename_template :: "filename option"
  c_prevent_integration :: bool
  c_groups :: "chunk_group_ukey set"
  c_runtime :: runtime_spec
  c_files :: "string set"
  c_auxiliary_files :: "string set"
  c_chunk_reason :: "string option"
  c_rendered :: bool

type_synonym chunk_by_ukey = "chunk_ukey \<rightharpoonup> chunk"

text \<open>The keyed database of chunks; the \<open>debug_assert!\<close> of \<open>add\<close> is not part of a release build.\<close>

definition chunk_db_add :: "chunk \<Rightarrow> chunk_by_ukey \<Rightarrow> chunk_by_ukey" where
  "chunk_db_add chunk self = or_insert (c_ukey chunk) chunk self"

definition chunk_db_remove :: "chunk_ukey \<Rightarrow> chunk_by_ukey \<Rightarrow> chunk option \<times> chunk_by_ukey" where
  "chunk_db_remove ukey self = (self ukey, self(ukey := None))"

definition chunk_db_contains :: "chunk_ukey \<Rightarrow> chunk_by_ukey \<Rightarrow> bool" where
  "chunk_db_contains ukey self \<longleftrightarrow> self ukey \<noteq> None"

definition chunk_db_len :: "chunk_by_ukey \<Rightarrow> nat" where
  "chunk_db_len self = card (dom self)"

text \<open>\<open>ChunkUkey::new()\<close> draws a fresh key from a counter; the key is an argument here.\<close>

definition chunk_new :: "chunk_ukey \<Rightarrow> string option \<Rightarrow> chunk_kind \<Rightarrow> chunk" where
  "chunk_new fresh name kind =
    \<lparr>c_ukey = fresh, c_kind = kind, c_id = None, c_name = name, c_id_name_hints = {},
     c_filename_template = None, c_css_filename_template = None, c_prevent_integration = False,
     c_groups = {}, c_runtime = runtime_new {}, c_files = {}, c_auxiliary_files = {},
     c_chunk_reason = None, c_rendered = False\<rparr>"

definition chunk_set_id :: "chunk_id \<Rightarrow> chunk \<Rightarrow> bool \<times> chunk" where
  "chunk_set_id new_id self =
    (if c_id self = Some new_id then (False, self) else (True, self\<lparr>c_id := Some new_id\<rparr>))"

definition chunk_add_group :: "chunk_group_ukey \<Rightarrow> chunk \<Rightarrow> chunk" where
  "chunk_add_group grp self = self\<lparr>c_groups := insert grp (c_groups self)\<rparr>"

definition chunk_is_in_group :: "chunk \<Rightarrow> chunk_group_ukey \<Rightarrow> bool" where
  "chunk_is_in_group self chunk_group \<longleftrightarrow> chunk_group \<in> c_groups self"

definition chunk_remove_group :: "chunk_group_ukey \<Rightarrow> chunk \<Rightarrow> bool \<times> chunk" where
  "chunk_remove_group chunk_group self =
    (chunk_group \<in> c_groups self, self\<lparr>c_groups := c_groups self - {chunk_group}\<rparr>)"

definition chunk_get_number_of_groups :: "chunk \<Rightarrow> nat" where
  "chunk_get_number_of_groups self = card (c_groups self)"

definition chunk_add_id_name_hints :: "string \<Rightarrow> chunk \<Rightarrow> chunk" where
  "chunk_add_id_name_hints hint self = self\<lparr>c_id_name_hints := insert hint (c_id_name_hints self)\<rparr>"

definition chunk_add_file :: "string \<Rightarrow> chunk \<Rightarrow> chunk" where
  "chunk_add_file file self = self\<lparr>c_files := insert file (c_files self)\<rparr>"

definition chunk_remove_file :: "string \<Rightarrow> chunk \<Rightarrow> bool \<times> chunk" where
  "chunk_remove_file file self = (file \<in> c_files self, self\<lparr>c_files := c_files self - {file}\<rparr>)"

definition chunk_add_auxiliary_file :: "string \<Rightarrow> chunk \<Rightarrow> chunk" where
  "chunk_add_auxiliary_file file self = self\<lparr>c_auxiliary_files := insert file (c_auxiliary_files self)\<rparr>"

definition chunk_remove_auxiliary_file :: "string \<Rightarrow> chunk \<Rightarrow> bool \<times> chunk" where
  "chunk_remove_auxiliary_file file self =
    (file \<in> c_auxiliary_files self, self\<lparr>c_auxiliary_files := c_auxiliary_files self - {file}\<rparr>)"

definition chunk_expect_id :: "chunk \<Rightarrow> chunk_id option" where
  "chunk_expect_id self = c_id self"

definition name_for_filename_template :: "chunk \<Rightarrow> string option" where
  "name_for_filename_template self = (if c_name self \<noteq> None then c_name self else c_id self)"

section \<open>Splitting\<close>

record chunk_split_data =
  csd_groups :: "chunk_group_ukey set"
  csd_id_name_hints :: "string set"
  csd_runtimes :: "ustr list"

definition split_data_new :: chunk_split_data where
  "split_data_new = \<lparr>csd_groups = {}, csd_id_name_hints = {}, csd_runtimes = []\<rparr>"

definition split_add_runtime :: "(ustr set \<Rightarrow> ustr list) \<Rightarrow> runtime_spec \<Rightarrow> chunk_split_data \<Rightarrow> chunk_split_data" where
  "split_add_runtime ord runtime self = self\<lparr>csd_runtimes := csd_runtimes self @ ord (rs_inner runtime)\<rparr>"

definition split_apply_to :: "(ustr set \<Rightarrow> ustr list) \<Rightarrow> chunk_split_data \<Rightarrow> chunk \<Rightarrow> chunk" where
  "split_apply_to ord self chunk =
    (let chunk = chunk\<lparr>c_groups := c_groups chunk \<union> csd_groups self,
                       c_id_name_hints := c_id_name_hints chunk \<union> csd_id_name_hints self\<rparr>
     in if csd_runtimes self \<noteq> [] then
          let runtime = (if rs_inner (c_runtime chunk) = {} then runtime_from_iter (csd_runtimes self)
                         else runtime_from_iter (ord (rs_inner (c_runtime chunk)) @ csd_runtimes self))
          in chunk\<lparr>c_runtime := runtime\<rparr>
        else chunk)"

lemma split_apply_to_groups [simp]:
  "c_groups (split_apply_to ord d c) = c_groups c \<union> csd_groups d"
  "c_id_name_hints (split_apply_to ord d c) = c_id_name_hints c \<union> csd_id_name_hints d"
  "c_ukey (split_apply_to ord d c) = c_ukey c"
  by (simp_all add: split_apply_to_def Let_def)

lemma split_apply_to_runtime:
  assumes "hash_order ord" "runtime_inv (c_runtime c)"
  shows "runtime_inv (c_runtime (split_apply_to ord d c)) \<and>
    rs_inner (c_runtime (split_apply_to ord d c)) = rs_inner (c_runtime c) \<union> set (csd_runtimes d)"
  using assms hash_orderD(2) [OF assms(1)]
  by (auto simp: split_apply_to_def Let_def runtime_from_iter_def runtime_inv_def [of "c_runtime c"])

end
