(* ===== verification/Chunk_Group.thy ===== *)
theory Chunk_Group
  imports Chunk
begin

text \<open>
  \<open>crates/rspack_core/src/chunk_group.rs\<close>: entry options and their merge, chunk group kinds, and the
  chunk group with its ordered chunk vector, its parent/child links and the queries along them.
\<close>

section \<open>Options\<close>

datatype chunk_loading_type = Jsonp | ImportScripts | Require | AsyncNodeLoading | ImportLoading | CustomLoading string
datatype chunk_loading = EnableChunkLoading chunk_loading_type | DisableChunkLoading
datatype wasm_loading_type = Fetch | AsyncNodeWasm | Universal
datatype wasm_loading = EnableWasm wasm_loading_type | DisableWasm
datatype public_path = PublicFilename filename | AutoPublicPath

datatype library_non_umd_object = LibraryArray "string list" | LibraryString string

record library_custom_umd_object =
  lcu_amd :: "string option"
  lcu_commonjs :: "string option"
  lcu_root :: "string list option"

datatype library_name = NonUmdObject library_non_umd_object | UmdObject library_custom_umd_object

record library_auxiliary_comment =
  lac_root :: "string option"
  lac_commonjs :: "string option"
  lac_commonjs2 :: "string option"
  lac_amd :: "string option"

record library_options =
  lo_name :: "library_name option"
  lo_export :: "string list option"
  lo_library_type :: string
  lo_umd_named_define :: "bool option"
  lo_auxiliary_comment :: "library_auxiliary_comment option"
  lo_amd_container :: "string option"

record entry_options =
  eo_name :: "string option"
  eo_runtime :: "entry_runtime option"
  eo_chunk_loading :: "chunk_loading option"
  eo_wasm_loading :: "wasm_loading option"
  eo_async_chunks :: "bool option"
  eo_public_path :: "public_path option"
  eo_base_uri :: "string option"
  eo_filename :: "filename option"
  eo_library :: "library_options option"
  eo_depend_on :: "string list option"
  eo_layer :: "string option"

definition entry_runtime_display :: "entry_runtime \<Rightarrow> string" where
  "entry_runtime_display r = (case r of EntryRuntimeString s \<Rightarrow> s | EntryRuntimeFalse \<Rightarrow> ''false'')"

definition from_entry_options :: "entry_options \<Rightarrow> runtime_spec option" where
  "from_entry_options options =
    (let r = (case eo_runtime options of
        Some (EntryRuntimeString s) \<Rightarrow> (if s \<noteq> [] then Some s else eo_name options)
      | _ \<Rightarrow> eo_name options)
     in map_option (\<lambda>r. runtime_from_iter [r]) r)"

text \<open>The error carries the conflicting key; the formatted values of the message are left out.\<close>

datatype merge_error = ConflictingEntryOption string

fun should_merge_field :: "'a option \<Rightarrow> 'a option \<Rightarrow> string \<Rightarrow> merge_error + bool" where
  "should_merge_field (Some a) (Some b) key = (if a \<noteq> b then Inl (ConflictingEntryOption key) else Inr False)"
| "should_merge_field None (Some _) key = Inr True"
| "should_merge_field _ None key = Inr False"

text \<open>
  \<open>merge_field!\<close>: the \<open>?\<close> returns at the first error and leaves \<open>self\<close> with the fields merged so far.
\<close>

definition merge_field :: "(entry_options \<Rightarrow> 'a option) \<Rightarrow> ('a option \<Rightarrow> entry_options \<Rightarrow> entry_options) \<Rightarrow>
    string \<Rightarrow> entry_options \<Rightarrow> entry_options \<times> (merge_error + unit) \<Rightarrow> entry_options \<times> (merge_error + unit)" where
  "merge_field get_field set_field key other st = (case st of
      (self, Inl e) \<Rightarrow> (self, Inl e)
    | (self, Inr _) \<Rightarrow> (case should_merge_field (get_field self) (get_field other) key of
          Inl e \<Rightarrow> (self, Inl e)
        | Inr True \<Rightarrow> (set_field (get_field other) self, Inr ())
        | Inr False \<Rightarrow> (self, Inr ())))"

definition entry_options_merge :: "entry_options \<Rightarrow> entry_options \<Rightarrow> entry_options \<times> (merge_error + unit)" where
  "entry_options_merge self other =
    (let st = (self, Inr ());
         st = merge_field eo_name (\<lambda>v. eo_name_update (\<lambda>_. v)) ''name'' other st;
         st = merge_field eo_runtime (\<lambda>v. eo_runtime_update (\<lambda>_. v)) ''runtime'' other st;
         st = merge_field eo_chunk_loading (\<lambda>v. eo_chunk_loading_update (\<lambda>_. v)) ''chunk_loading'' other st;
         st = merge_field eo_wasm_loading (\<lambda>v. eo_wasm_loading_update (\<lambda>_. v)) ''wasm_loading'' other st;
         st = merge_field eo_async_chunks (\<lambda>v. eo_async_chunks_update (\<lambda>_. v)) ''async_chunks'' other st;
         st = merge_field eo_public_path (\<lambda>v. eo_public_path_update (\<lambda>_. v)) ''public_path'' other st;
         st = merge_field eo_base_uri (\<lambda>v. eo_base_uri_update (\<lambda>_. v)) ''base_uri'' other st;
         st = merge_field eo_filename (\<lambda>v. eo_filename_update (\<lambda>_. v)) ''filename'' other st;
         st = merge_field eo_library (\<lambda>v. eo_library_update (\<lambda>_. v)) ''library'' other st;
         st = merge_field eo_depend_on (\<lambda>v. eo_depend_on_update (\<lambda>_. v)) ''depend_on'' other st
     in merge_field eo_layer (\<lambda>v. eo_layer_update (\<lambda>_. v)) ''layer'' other st)"

text \<open>The specification of the merge: field by field, the first value wins, two different values conflict.\<close>

definition compatible :: "'a option \<Rightarrow> 'a option \<Rightarrow> bool" where
  "compatible a b \<longleftrightarrow> a = None \<or> b = None \<or> a = b"

definition first_of :: "'a option \<Rightarrow> 'a option \<Rightarrow> 'a option" where
  "first_of a b = (if a = None then b else a)"

definition merge_conflicts :: "entry_options \<Rightarrow> entry_options \<Rightarrow> string list" where
  "merge_conflicts a b = map fst (filter (\<lambda>(key, ok). \<not> ok)
    [(''name'', compatible (eo_name a) (eo_name b)),
     (''runtime'', compatible (eo_runtime a) (eo_runtime b)),
     (''chunk_loading'', compatible (eo_chunk_loading a) (eo_chunk_loading b)),
     (''wasm_loading'', compatible (eo_wasm_loading a) (eo_wasm_loading b)),
     (''async_chunks'', compatible (eo_async_chunks a) (eo_async_chunks b)),
     (''public_path'', compatible (eo_public_path a) (eo_public_path b)),
     (''base_uri'', compatible (eo_base_uri a) (eo_base_uri b)),
     (''filename'', compatible (eo_filename a) (eo_filename b)),
     (''library'', compatible (eo_library a) (eo_library b)),
     (''depend_on'', compatible (eo_depend_on a) (eo_depend_on b)),
     (''layer'', compatible (eo_layer a) (eo_layer b))])"

lemma merge_field_Inl [simp]: "merge_field g p k other (self, Inl e) = (self, Inl e)"
  by (simp add: merge_field_def)

lemma merge_field_Inr:
  assumes "p (g self) self = self"
  shows "merge_field g p k other (self, Inr u) =
    (if compatible (g self) (g other) then (p (first_of (g self) (g other)) self, Inr ())
     else (self, Inl (ConflictingEntryOption k)))"
  using assms
  by (cases "g self"; cases "g other") (auto simp: merge_field_def compatible_def first_of_def)

lemma merge_result:
  "snd (entry_options_merge a b) =
    (case merge_conflicts a b of [] \<Rightarrow> Inr () | key # _ \<Rightarrow> Inl (ConflictingEntryOption key))"
  unfolding entry_options_merge_def Let_def merge_conflicts_def
  by (simp add: merge_field_Inr)

lemma merge_success:
  assumes "merge_conflicts a b = []"
  shows "fst (entry_options_merge a b) =
    \<lparr>eo_name = first_of (eo_name a) (eo_name b),
     eo_runtime = first_of (eo_runtime a) (eo_runtime b),
     eo_chunk_loading = first_of (eo_chunk_loading a) (eo_chunk_loading b),
     eo_wasm_loading = first_of (eo_wasm_loading a) (eo_wasm_loading b),
     eo_async_chunks = first_of (eo_async_chunks a) (eo_async_chunks b),
     eo_public_path = first_of (eo_public_path a) (eo_public_path b),
     eo_base_uri = first_of (eo_base_uri a) (eo_base_uri b),
     eo_filename = first_of (eo_filename a) (eo_filename b),
     eo_library = first_of (eo_library a) (eo_library b),
     eo_depend_on = first_of (eo_depend_on a) (eo_depend_on b),
     eo_layer = first_of (eo_layer a) (eo_layer b)\<rparr>"
proof -
  have c: "compatible (eo_name a) (eo_name b)" "compatible (eo_runtime a) (eo_runtime b)"
    "compatible (eo_chunk_loading a) (eo_chunk_loading b)" "compatible (eo_wasm_loading a) (eo_wasm_loading b)"
    "compatible (eo_async_chunks a) (eo_async_chunks b)" "compatible (eo_public_path a) (eo_public_path b)"
    "compatible (eo_base_uri a) (eo_base_uri b)" "compatible (eo_filename a) (eo_filename b)"
    "compatible (eo_library a) (eo_library b)" "compatible (eo_depend_on a) (eo_depend_on b)"
    "compatible (eo_layer a) (eo_layer b)"
    using assms unfolding merge_conflicts_def map_is_Nil_conv filter_empty_conv by simp_all
  show ?thesis
    unfolding entry_options_merge_def Let_def by (cases a) (use c in \<open>simp add: merge_field_Inr\<close>)
qed

datatype fetch_priority = LowPriority | HighPriority | AutoPriority

record chunk_group_options =
  cgo_name :: "string option"
  cgo_preload_order :: "32 word option"
  cgo_prefetch_order :: "32 word option"
  cgo_fetch_priority :: "fetch_priority option"

definition chunk_group_options_new where
  "chunk_group_options_new name preload prefetch priority =
    \<lparr>cgo_name = name, cgo_preload_order = preload, cgo_prefetch_order = prefetch, cgo_fetch_priority = priority\<rparr>"

datatype group_options = EntrypointOptions entry_options | NormalOptions chunk_group_options

fun group_options_name :: "group_options \<Rightarrow> string option" where
  "group_options_name (EntrypointOptions e) = eo_name e"
| "group_options_name (NormalOptions n) = cgo_name n"

fun group_entry_options :: "group_options \<Rightarrow> entry_options option" where
  "group_entry_options (EntrypointOptions e) = Some e"
| "group_entry_options (NormalOptions _) = None"

fun group_normal_options :: "group_options \<Rightarrow> chunk_group_options option" where
  "group_normal_options (EntrypointOptions _) = None"
| "group_normal_options (NormalOptions n) = Some n"

datatype order_key = Preload | Prefetch

datatype chunk_group_kind = Entrypoint bool entry_options | Normal chunk_group_options

fun is_entrypoint :: "chunk_group_kind \<Rightarrow> bool" where
  "is_entrypoint (Entrypoint _ _) = True"
| "is_entrypoint (Normal _) = False"

fun get_entry_options :: "chunk_group_kind \<Rightarrow> entry_options option" where
  "get_entry_options (Entrypoint _ opts) = Some opts"
| "get_entry_options (Normal _) = None"

fun get_normal_options :: "chunk_group_kind \<Rightarrow> chunk_group_options option" where
  "get_normal_options (Entrypoint _ _) = None"
| "get_normal_options (Normal opts) = Some opts"

fun kind_name :: "chunk_group_kind \<Rightarrow> string option" where
  "kind_name (Entrypoint _ opts) = eo_name opts"
| "kind_name (Normal opts) = cgo_name opts"

section \<open>ChunkGroup\<close>

record source_position =
  sp_line :: u32
  sp_column :: u32

record real_dependency_location =
  rdl_start :: source_position
  rdl_end :: "source_position option"

datatype dependency_location = RealLoc real_dependency_location | SyntheticLoc string

record origin_record =
  or_module :: "module_identifier option"
  or_loc :: "dependency_location option"
  or_request :: "string option"

record chunk_group =
  cg_ukey :: chunk_group_ukey
  cg_kind :: chunk_group_kind
  cg_chunks :: "chunk_ukey list"
  cg_index :: "u32 option"
  cg_parents :: "chunk_group_ukey set"
  cg_module_pre_order_indices :: "module_identifier \<rightharpoonup> u32"
  cg_module_post_order_indices :: "module_identifier \<rightharpoonup> u32"
  cg_children :: "chunk_group_ukey list"
  cg_async_entrypoints :: "chunk_group_ukey set"
  cg_next_pre_order_index :: u32
  cg_next_post_order_index :: u32
  cg_runtime_chunk :: "chunk_ukey option"
  cg_entrypoint_chunk :: "chunk_ukey option"
  cg_origins :: "origin_record list"
  cg_is_over_size_limit :: "bool option"

type_synonym chunk_group_by_ukey = "chunk_group_ukey \<rightharpoonup> chunk_group"

definition group_db_add :: "chunk_group \<Rightarrow> chunk_group_by_ukey \<Rightarrow> chunk_group_by_ukey" where
  "group_db_add grp self = or_insert (cg_ukey grp) grp self"

definition group_db_remove :: "chunk_group_ukey \<Rightarrow> chunk_group_by_ukey \<Rightarrow> chunk_group option \<times> chunk_group_by_ukey" where
  "group_db_remove ukey self = (self ukey, self(ukey := None))"

definition group_db_contains :: "chunk_group_ukey \<Rightarrow> chunk_group_by_ukey \<Rightarrow> bool" where
  "group_db_contains ukey self \<longleftrightarrow> self ukey \<noteq> None"

definition chunk_group_new :: "chunk_group_ukey \<Rightarrow> chunk_group_kind \<Rightarrow> chunk_group" where
  "chunk_group_new fresh kind =
    \<lparr>cg_ukey = fresh, cg_kind = kind, cg_chunks = [], cg_index = None, cg_parents = {},
     cg_module_pre_order_indices = Map.empty, cg_module_post_order_indices = Map.empty,
     cg_children = [], cg_async_entrypoints = {}, cg_next_pre_order_index = 0,
     cg_next_post_order_index = 0, cg_runtime_chunk = None, cg_entrypoint_chunk = None,
     cg_origins = [], cg_is_over_size_limit = None\<rparr>"

definition module_pre_order_index :: "chunk_group \<Rightarrow> module_identifier \<Rightarrow> u32 option" where
  "module_pre_order_index self m = cg_module_pre_order_indices self m"

definition module_post_order_index :: "chunk_group \<Rightarrow> module_identifier \<Rightarrow> u32 option" where
  "module_post_order_index self m = cg_module_post_order_indices self m"

text \<open>A missing chunk panics; \<open>ord\<close> is the iteration order of the hash set of files.\<close>

definition chunk_group_get_files :: "(string set \<Rightarrow> string list) \<Rightarrow> chunk_group \<Rightarrow> chunk_by_ukey \<Rightarrow> string list option" where
  "chunk_group_get_files ord self db =
    for_each (\<lambda>c files. do { chunk \<leftarrow> db c; Some (files @ ord (c_files chunk)) }) (cg_chunks self) []"

definition connect_chunk :: "chunk_group \<Rightarrow> chunk \<Rightarrow> chunk_group \<times> chunk" where
  "connect_chunk self chunk =
    (self\<lparr>cg_chunks := cg_chunks self @ [c_ukey chunk]\<rparr>, chunk_add_group (cg_ukey self) chunk)"

text \<open>\<open>search\<close> stands for \<open>slice::binary_search\<close>, whose answer on an unsorted slice is unspecified.\<close>

definition unshift_chunk :: "(chunk_ukey list \<Rightarrow> chunk_ukey \<Rightarrow> nat option) \<Rightarrow> chunk_ukey \<Rightarrow> chunk_group \<Rightarrow> bool \<times> chunk_group" where
  "unshift_chunk search chunk self = (case search (cg_chunks self) chunk of
      Some index \<Rightarrow>
        (False, if index > 0 then self\<lparr>cg_chunks := vec_insert 0 chunk (vec_remove index (cg_chunks self))\<rparr> else self)
    | None \<Rightarrow> (True, self\<lparr>cg_chunks := vec_insert 0 chunk (cg_chunks self)\<rparr>))"

definition is_initial :: "chunk_group \<Rightarrow> bool" where
  "is_initial self = (case cg_kind self of Entrypoint initial _ \<Rightarrow> initial | Normal _ \<Rightarrow> False)"

definition set_runtime_chunk :: "chunk_ukey \<Rightarrow> chunk_group \<Rightarrow> chunk_group" where
  "set_runtime_chunk c self = self\<lparr>cg_runtime_chunk := Some c\<rparr>"

definition set_entrypoint_chunk :: "chunk_ukey \<Rightarrow> chunk_group \<Rightarrow> chunk_group" where
  "set_entrypoint_chunk c self = self\<lparr>cg_entrypoint_chunk := Some c\<rparr>"

definition get_entrypoint_chunk :: "chunk_group \<Rightarrow> chunk_ukey option" where
  "get_entrypoint_chunk self = (case cg_kind self of
      Entrypoint _ _ \<Rightarrow> cg_entrypoint_chunk self
    | Normal _ \<Rightarrow> None)"

definition add_async_entrypoint :: "chunk_group_ukey \<Rightarrow> chunk_group \<Rightarrow> bool \<times> chunk_group" where
  "add_async_entrypoint e self =
    (e \<notin> cg_async_entrypoints self, self\<lparr>cg_async_entrypoints := insert e (cg_async_entrypoints self)\<rparr>)"

definition add_child :: "chunk_group_ukey \<Rightarrow> chunk_group \<Rightarrow> bool \<times> chunk_group" where
  "add_child child_group self =
    (let size = length (cg_children self);
         self = self\<lparr>cg_children := index_insert child_group (cg_children self)\<rparr>
     in (size \<noteq> length (cg_children self), self))"

definition add_parent :: "chunk_group_ukey \<Rightarrow> chunk_group \<Rightarrow> bool \<times> chunk_group" where
  "add_parent parent_group self =
    (parent_group \<notin> cg_parents self, self\<lparr>cg_parents := insert parent_group (cg_parents self)\<rparr>)"

definition add_origin :: "module_identifier option \<Rightarrow> dependency_location option \<Rightarrow> string option \<Rightarrow> chunk_group \<Rightarrow> chunk_group" where
  "add_origin module_id loc request self =
    self\<lparr>cg_origins := cg_origins self @ [\<lparr>or_module = module_id, or_loc = loc, or_request = request\<rparr>]\<rparr>"

definition set_is_over_size_limit :: "bool \<Rightarrow> chunk_group \<Rightarrow> chunk_group" where
  "set_is_over_size_limit v self = self\<lparr>cg_is_over_size_limit := Some v\<rparr>"

fun intersperse_concat :: "string \<Rightarrow> string list \<Rightarrow> string" where
  "intersperse_concat sep [] = []"
| "intersperse_concat sep [x] = x"
| "intersperse_concat sep (x # y # xs) = x @ sep @ intersperse_concat sep (y # xs)"

definition chunk_group_id :: "chunk_group \<Rightarrow> chunk_by_ukey \<Rightarrow> string" where
  "chunk_group_id self db =
    intersperse_concat ''+'' (List.map_filter (\<lambda>c. Option.bind (db c) c_id) (cg_chunks self))"

definition chunk_group_name :: "chunk_group \<Rightarrow> string option" where
  "chunk_group_name self = kind_name (cg_kind self)"

subsection \<open>The chunk vector\<close>

definition insert_chunk :: "chunk_ukey \<Rightarrow> chunk_ukey \<Rightarrow> chunk_group \<Rightarrow> (bool \<times> chunk_group) option" where
  "insert_chunk chunk before self =
    (let old_idx = position chunk (cg_chunks self) in do {
       idx \<leftarrow> position before (cg_chunks self);
       Some (case old_idx of
           Some old_idx \<Rightarrow>
             (False, if old_idx > idx
                     then self\<lparr>cg_chunks := vec_insert idx chunk (vec_remove old_idx (cg_chunks self))\<rparr>
                     else self)
         | None \<Rightarrow> (True, self\<lparr>cg_chunks := vec_insert idx chunk (cg_chunks self)\<rparr>))
     })"

definition remove_chunk :: "chunk_ukey \<Rightarrow> chunk_group \<Rightarrow> bool \<times> chunk_group" where
  "remove_chunk chunk self = (case position chunk (cg_chunks self) of
      Some idx \<Rightarrow> (True, self\<lparr>cg_chunks := vec_remove idx (cg_chunks self)\<rparr>)
    | None \<Rightarrow> (False, self))"

definition replace_chunk :: "chunk_ukey \<Rightarrow> chunk_ukey \<Rightarrow> chunk_group \<Rightarrow> bool \<times> chunk_group" where
  "replace_chunk old_chunk new_chunk self =
    (let self = (if cg_runtime_chunk self = Some old_chunk then self\<lparr>cg_runtime_chunk := Some new_chunk\<rparr> else self);
         self = (if cg_entrypoint_chunk self = Some old_chunk then self\<lparr>cg_entrypoint_chunk := Some new_chunk\<rparr> else self)
     in case position old_chunk (cg_chunks self) of
          None \<Rightarrow> (False, self)
        | Some old_idx \<Rightarrow>
           (case position new_chunk (cg_chunks self) of
              None \<Rightarrow> (True, self\<lparr>cg_chunks := (cg_chunks self)[old_idx := new_chunk]\<rparr>)
            | Some new_idx \<Rightarrow>
                if new_idx < old_idx then (True, self\<lparr>cg_chunks := vec_remove old_idx (cg_chunks self)\<rparr>)
                else if new_idx \<noteq> old_idx
                then (True, self\<lparr>cg_chunks := vec_remove new_idx ((cg_chunks self)[old_idx := new_chunk])\<rparr>)
                else (False, self)))"

text \<open>The same three operations on the bare list, with their positions spelled out.\<close>

lemma two_positions:
  assumes "a \<in> set xs" "b \<in> set xs" "distinct xs" "a \<noteq> b"
  obtains (before) us vs ws where "xs = us @ a # vs @ b # ws" "position a xs = Some (length us)"
      "position b xs = Some (length us + length vs + 1)"
  | (after) us vs ws where "xs = us @ b # vs @ a # ws" "position b xs = Some (length us)"
      "position a xs = Some (length us + length vs + 1)"
proof -
  obtain ys zs where xs: "xs = ys @ a # zs" using assms(1) split_list by metis
  have a_ys: "a \<notin> set ys" "a \<notin> set zs" using assms(3) xs by auto
  consider "b \<in> set ys" | "b \<in> set zs" using assms(2,4) xs by auto
  then show thesis
  proof cases
    case 1
    then obtain us vs where ys: "ys = us @ b # vs" using split_list by metis
    then have x: "xs = us @ b # (vs @ a # zs)" "xs = (us @ b # vs) @ a # zs" using xs by simp_all
    have "b \<notin> set us" using assms(3) x(1) by auto
    then have "position b xs = Some (length us)" using x(1) position_append by metis
    moreover have "position a xs = Some (length (us @ b # vs))" using a_ys ys x(2) position_append by metis
    ultimately show thesis using after [of us vs zs] x by simp
  next
    case 2
    then obtain vs ws where zs: "zs = vs @ b # ws" using split_list by metis
    then have x: "xs = ys @ a # (vs @ b # ws)" "xs = (ys @ a # vs) @ b # ws" using xs by simp_all
    have "b \<notin> set (ys @ a # vs)" using assms(3) x(2) by auto
    then have "position b xs = Some (length (ys @ a # vs))" using x(2) position_append by metis
    moreover have "position a xs = Some (length ys)" using a_ys x(1) position_append by metis
    ultimately show thesis using before [of ys vs ws] x by simp
  qed
qed

lemma insert_chunk_present:
  assumes "distinct (cg_chunks g)" "chunk \<in> set (cg_chunks g)" "before \<in> set (cg_chunks g)"
  shows "\<exists>g'. insert_chunk chunk before g = Some (False, g') \<and> set (cg_chunks g') = set (cg_chunks g) \<and>
    distinct (cg_chunks g') \<and>
    filter (\<lambda>c. c \<noteq> chunk) (cg_chunks g') = filter (\<lambda>c. c \<noteq> chunk) (cg_chunks g) \<and>
    (chunk \<noteq> before \<longrightarrow> (\<exists>i j. position chunk (cg_chunks g') = Some i \<and> position before (cg_chunks g') = Some j \<and> i < j))"
proof (cases "chunk = before")
  case True
  then show ?thesis using assms position_present [of before "cg_chunks g"] by (auto simp: insert_chunk_def)
next
  case False
  show ?thesis using assms(2,3,1) False
  proof (cases rule: two_positions)
    case (before us vs ws)
    then show ?thesis using assms False by (auto simp: insert_chunk_def)
  next
    case (after us vs ws)
    have "vec_remove (length us + length vs + 1) (cg_chunks g) = us @ before # vs @ ws"
      using after(1) vec_remove_append [of "us @ before # vs" "length us + length vs + 1"] by simp
    then have "insert_chunk chunk before g = Some (False, g\<lparr>cg_chunks := us @ chunk # before # vs @ ws\<rparr>)"
      using after by (simp add: insert_chunk_def)
    moreover have "position chunk (us @ chunk # before # vs @ ws) = Some (length us)"
      "position before (us @ chunk # before # vs @ ws) = Some (length us + 1)"
      using assms(1) after(1) position_append [of chunk us] position_append [of before "us @ [chunk]" "vs @ ws"] False
      by auto
    ultimately show ?thesis using assms(1) after(1) by auto
  qed
qed

lemma insert_chunk_absent:
  assumes "distinct (cg_chunks g)" "chunk \<notin> set (cg_chunks g)" "before \<in> set (cg_chunks g)"
  shows "\<exists>g'. insert_chunk chunk before g = Some (True, g') \<and> set (cg_chunks g') = insert chunk (set (cg_chunks g)) \<and>
    distinct (cg_chunks g') \<and>
    filter (\<lambda>c. c \<noteq> chunk) (cg_chunks g') = cg_chunks g \<and>
    (\<exists>i j. position chunk (cg_chunks g') = Some i \<and> position before (cg_chunks g') = Some j \<and> i < j)"
proof -
  obtain us ws where x: "cg_chunks g = us @ before # ws" using assms(3) split_list by metis
  then have "before \<notin> set us" using assms(1) by auto
  then have "position before (cg_chunks g) = Some (length us)" using x position_append by metis
  moreover have "position chunk (cg_chunks g) = None" using assms(2) by simp
  ultimately have "insert_chunk chunk before g = Some (True, g\<lparr>cg_chunks := us @ chunk # before # ws\<rparr>)"
    using x by (simp add: insert_chunk_def del: position.simps)
  moreover have "position chunk (us @ chunk # before # ws) = Some (length us)"
    "position before (us @ chunk # before # ws) = Some (length us + 1)"
    using assms x position_append [of chunk us] position_append [of before "us @ [chunk]" ws] by auto
  moreover have "filter (\<lambda>c. c \<noteq> chunk) (us @ before # ws) = us @ before # ws"
    using assms(2) x by (metis (mono_tags, lifting) filter_True)
  ultimately show ?thesis using assms x by auto
qed

lemma remove_chunk_spec:
  "fst (remove_chunk chunk g) \<longleftrightarrow> chunk \<in> set (cg_chunks g)"
  "cg_chunks (snd (remove_chunk chunk g)) = remove1 chunk (cg_chunks g)"
proof -
  show "fst (remove_chunk chunk g) \<longleftrightarrow> chunk \<in> set (cg_chunks g)"
    using position_present [of chunk "cg_chunks g"]
    by (cases "chunk \<in> set (cg_chunks g)") (auto simp: remove_chunk_def)
  show "cg_chunks (snd (remove_chunk chunk g)) = remove1 chunk (cg_chunks g)"
  proof (cases "position chunk (cg_chunks g)")
    case None
    then show ?thesis by (simp add: remove_chunk_def remove1_idem position_None_iff)
  next
    case (Some i)
    then obtain ys zs where "cg_chunks g = ys @ chunk # zs" "chunk \<notin> set ys" "length ys = i"
      by (rule position_SomeE)
    then show ?thesis using Some by (simp add: remove_chunk_def remove1_append)
  qed
qed

lemma remove_chunk_other_fields [simp]:
  "cg_children (snd (remove_chunk chunk g)) = cg_children g"
  "cg_parents (snd (remove_chunk chunk g)) = cg_parents g"
  "cg_kind (snd (remove_chunk chunk g)) = cg_kind g"
  "cg_index (snd (remove_chunk chunk g)) = cg_index g"
  "cg_ukey (snd (remove_chunk chunk g)) = cg_ukey g"
  by (auto simp: remove_chunk_def split: option.splits)

definition redirect :: "chunk_ukey \<Rightarrow> chunk_ukey \<Rightarrow> chunk_ukey option \<Rightarrow> chunk_ukey option" where
  "redirect old new c = (if c = Some old then Some new else c)"

lemma replace_chunk_redirects:
  "cg_runtime_chunk (snd (replace_chunk old new g)) = redirect old new (cg_runtime_chunk g)"
  "cg_entrypoint_chunk (snd (replace_chunk old new g)) = redirect old new (cg_entrypoint_chunk g)"
  by (auto simp: replace_chunk_def redirect_def Let_def split: option.splits)

lemma replace_chunk_list:
  "fst (replace_chunk old new g) = (case position old (cg_chunks g) of
     None \<Rightarrow> False | Some i \<Rightarrow> position new (cg_chunks g) \<noteq> Some i)"
  "cg_chunks (snd (replace_chunk old new g)) = (case position old (cg_chunks g) of
     None \<Rightarrow> cg_chunks g
   | Some i \<Rightarrow> (case position new (cg_chunks g) of
       None \<Rightarrow> (cg_chunks g)[i := new]
     | Some j \<Rightarrow> if j < i then vec_remove i (cg_chunks g)
         else if j \<noteq> i then vec_remove j ((cg_chunks g)[i := new]) else cg_chunks g))"
  by (auto simp: replace_chunk_def Let_def split: option.splits)

lemma replace_chunk_spec:
  assumes "distinct (cg_chunks g)" "old \<noteq> new"
  shows "(fst (replace_chunk old new g) \<longleftrightarrow> old \<in> set (cg_chunks g)) \<and>
    distinct (cg_chunks (snd (replace_chunk old new g))) \<and>
    set (cg_chunks (snd (replace_chunk old new g))) =
      (if old \<in> set (cg_chunks g) then insert new (set (cg_chunks g) - {old}) else set (cg_chunks g)) \<and>
    filter (\<lambda>c. c \<noteq> old \<and> c \<noteq> new) (cg_chunks (snd (replace_chunk old new g))) =
      filter (\<lambda>c. c \<noteq> old \<and> c \<noteq> new) (cg_chunks g)"
proof (cases "old \<in> set (cg_chunks g)")
  case False
  then show ?thesis using assms by (simp add: replace_chunk_list)
next
  case old: True
  show ?thesis
  proof (cases "new \<in> set (cg_chunks g)")
    case False
    obtain us ws where x: "cg_chunks g = us @ old # ws" using old split_list by metis
    then have "position old (cg_chunks g) = Some (length us)" using assms(1) by (simp add: position_append)
    then show ?thesis using False assms x by (auto simp: replace_chunk_list list_update_append)
  next
    case True
    show ?thesis using old True assms
    proof (cases rule: two_positions)
      case (before us vs ws)
      have "vec_remove (length us + length vs + 1) ((cg_chunks g)[length us := new]) = us @ new # vs @ ws"
        using before(1) vec_remove_append [of "us @ new # vs" "length us + length vs + 1" new ws]
        by (simp add: list_update_append)
      then show ?thesis using before assms by (auto simp: replace_chunk_list)
    next
      case (after us vs ws)
      have "vec_remove (length us + length vs + 1) (cg_chunks g) = us @ new # vs @ ws"
        using after(1) vec_remove_append [of "us @ new # vs" "length us + length vs + 1" old ws] by simp
      then show ?thesis using after assms by (auto simp: replace_chunk_list)
    qed
  qed
qed

lemma replace_chunk_same: "replace_chunk c c g = (False, g)"
  by (auto simp: replace_chunk_def Let_def split: option.splits)

subsection \<open>Ancestors and the runtime chunk\<close>

text \<open>The worklist of \<open>ancestors\<close>: \<open>queue.pop()\<close> takes the last element; \<open>ord\<close> is the iteration order of the parents.\<close>

function ancestors_loop :: "(chunk_group_ukey set \<Rightarrow> chunk_group_ukey list) \<Rightarrow> chunk_group_by_ukey \<Rightarrow>
    chunk_group_ukey list \<Rightarrow> chunk_group_ukey set \<Rightarrow> chunk_group_ukey set option" where
  "ancestors_loop ord db queue ancestors =
    (if queue = [] then Some ancestors
     else let k = last queue; rest = butlast queue in
       if k \<in> ancestors then ancestors_loop ord db rest ancestors
       else (case db k of
           None \<Rightarrow> None
         | Some g \<Rightarrow> ancestors_loop ord db (rest @ ord (cg_parents g)) (insert k ancestors)))"
  by pat_completeness auto
termination ancestors_loop
proof (relation "(\<lambda>(_, _, _, ancestors). card (UNIV - ancestors)) <*mlex*> measure (\<lambda>(_, _, queue, _). length queue)",
    goal_cases)
  case 1
  then show ?case by (simp add: wf_mlex)
next
  case (2 ord db queue ancestors k rest)
  then show ?case by (intro mlex_leq) auto
next
  case (3 ord db queue ancestors k rest g)
  then have "card (UNIV - insert k ancestors) < card (UNIV - ancestors)"
    by (intro psubset_card_mono) auto
  then show ?case by (simp add: mlex_less)
qed

declare ancestors_loop.simps [simp del]

definition ancestors :: "(chunk_group_ukey set \<Rightarrow> chunk_group_ukey list) \<Rightarrow> chunk_group \<Rightarrow> chunk_group_by_ukey \<Rightarrow>
    chunk_group_ukey set option" where
  "ancestors ord self db = ancestors_loop ord db (ord (cg_parents self)) {}"

definition parent_edges :: "chunk_group_by_ukey \<Rightarrow> (chunk_group_ukey \<times> chunk_group_ukey) set" where
  "parent_edges db = {(a, b). \<exists>g. db a = Some g \<and> b \<in> cg_parents g}"

lemma ancestors_loop_spec:
  assumes "hash_order ord" "ancestors_loop ord db queue anc = Some res"
  shows "anc \<union> set queue \<subseteq> res \<and> res \<subseteq> anc \<union> (parent_edges db)\<^sup>* `` set queue \<and>
    (\<forall>a \<in> res - anc. \<exists>g. db a = Some g \<and> cg_parents g \<subseteq> res)"
  using assms(2)
proof (induction ord\<equiv>ord db queue anc rule: ancestors_loop.induct)
  case (1 db queue anc)
  show ?case
  proof (cases "queue = []")
    case True
    then show ?thesis using "1.prems" by (simp add: ancestors_loop.simps)
  next
    case False
    define k rest where "k = last queue" and "rest = butlast queue"
    have queue: "set queue = insert k (set rest)"
      using False append_butlast_last_id [OF False] unfolding k_def rest_def by (metis list.set(2) rotate1.simps(2) set_rotate1)
    show ?thesis
    proof (cases "k \<in> anc")
      case True
      then have "ancestors_loop ord db rest anc = Some res"
        using "1.prems" False by (simp add: ancestors_loop.simps [of ord db queue] k_def rest_def Let_def)
      then show ?thesis using "1.hyps"(1) [OF False k_def rest_def True] queue True by auto
    next
      case new: False
      then obtain g where g: "db k = Some g"
        and rec: "ancestors_loop ord db (rest @ ord (cg_parents g)) (insert k anc) = Some res"
        using "1.prems" False by (auto simp: ancestors_loop.simps [of ord db queue] k_def rest_def Let_def split: option.splits)
      note IH = "1.hyps"(2) [OF False k_def rest_def new g rec]
      have ps: "set (ord (cg_parents g)) = cg_parents g" using hash_orderD(2) [OF assms(1)] by simp
      have "(parent_edges db)\<^sup>* `` cg_parents g \<subseteq> (parent_edges db)\<^sup>* `` {k}"
        using g by (auto simp: parent_edges_def intro: converse_rtrancl_into_rtrancl)
      moreover have "(parent_edges db)\<^sup>* `` {k} \<subseteq> (parent_edges db)\<^sup>* `` set queue"
        "(parent_edges db)\<^sup>* `` set rest \<subseteq> (parent_edges db)\<^sup>* `` set queue"
        "k \<in> (parent_edges db)\<^sup>* `` set queue"
        using queue by auto
      moreover have "res \<subseteq> insert k anc \<union> ((parent_edges db)\<^sup>* `` set rest \<union> (parent_edges db)\<^sup>* `` cg_parents g)"
        using IH ps by (simp add: Image_Un)
      ultimately have "res \<subseteq> anc \<union> (parent_edges db)\<^sup>* `` set queue" by blast
      moreover have "\<exists>g. db k = Some g \<and> cg_parents g \<subseteq> res" using g IH ps by auto
      ultimately show ?thesis using IH queue by auto
    qed
  qed
qed

lemma ancestors_loop_total:
  assumes "hash_order ord" "\<And>a. a \<in> (parent_edges db)\<^sup>* `` set queue \<Longrightarrow> db a \<noteq> None"
  shows "\<exists>res. ancestors_loop ord db queue anc = Some res"
  using assms(2)
proof (induction ord\<equiv>ord db queue anc rule: ancestors_loop.induct)
  case (1 db queue anc)
  show ?case
  proof (cases "queue = []")
    case False
    define k rest where "k = last queue" and "rest = butlast queue"
    have queue: "k \<in> set queue" "set rest \<subseteq> set queue"
      using False unfolding k_def rest_def by (auto dest: in_set_butlastD)
    show ?thesis
    proof (cases "k \<in> anc")
      case True
      have "\<exists>res. ancestors_loop ord db rest anc = Some res"
        using 1(3) queue by (intro "1.hyps"(1) [OF False k_def rest_def True]) blast
      then show ?thesis
        using True False by (simp add: ancestors_loop.simps [of ord db queue] k_def rest_def Let_def)
    next
      case new: False
      have "db k \<noteq> None" using 1(3) queue by auto
      then obtain g where g: "db k = Some g" by auto
      have ps: "set (ord (cg_parents g)) = cg_parents g" using hash_orderD(2) [OF assms(1)] by simp
      have "(parent_edges db)\<^sup>* `` cg_parents g \<subseteq> (parent_edges db)\<^sup>* `` {k}"
        using g by (auto simp: parent_edges_def intro: converse_rtrancl_into_rtrancl)
      then have "(parent_edges db)\<^sup>* `` set (rest @ ord (cg_parents g)) \<subseteq> (parent_edges db)\<^sup>* `` set queue"
        using ps queue by (auto simp: Image_Un)
      then have "\<exists>res. ancestors_loop ord db (rest @ ord (cg_parents g)) (insert k anc) = Some res"
        using 1(3) by (intro "1.hyps"(2) [OF False k_def rest_def new g]) blast
      then show ?thesis
        using new g False by (simp add: ancestors_loop.simps [of ord db queue] k_def rest_def Let_def)
    qed
  qed (simp add: ancestors_loop.simps)
qed

text \<open>
  \<open>get_runtime_chunk\<close>: a missing parent, no entrypoint parent and a normal group panic.  A cycle of
  entrypoints without a runtime chunk does not return; both are \<^term>\<open>None\<close>.
\<close>

fun find_entry_parent :: "chunk_group_by_ukey \<Rightarrow> chunk_group_ukey list \<Rightarrow> chunk_group option" where
  "find_entry_parent db [] = None"
| "find_entry_parent db (p # ps) = (case db p of
      None \<Rightarrow> None
    | Some parent \<Rightarrow> (if is_entrypoint (cg_kind parent) then Some parent else find_entry_parent db ps))"

partial_function (option) get_runtime_chunk ::
  "(chunk_group_ukey set \<Rightarrow> chunk_group_ukey list) \<Rightarrow> chunk_group_by_ukey \<Rightarrow> chunk_group \<Rightarrow> chunk_ukey option" where
  "get_runtime_chunk ord db self =
    (if is_entrypoint (cg_kind self) then
       (case cg_runtime_chunk self of
          Some c \<Rightarrow> Some c
        | None \<Rightarrow> Option.bind (find_entry_parent db (ord (cg_parents self))) (get_runtime_chunk ord db))
     else None)"

lemma find_entry_parent_spec:
  assumes "\<forall>p \<in> set ps. db p \<noteq> None" "\<exists>p \<in> set ps. \<exists>g. db p = Some g \<and> is_entrypoint (cg_kind g)"
  shows "\<exists>g p. find_entry_parent db ps = Some g \<and> p \<in> set ps \<and> db p = Some g \<and> is_entrypoint (cg_kind g)"
  using assms by (induction ps) (auto split: option.splits)

text \<open>
  The groups for which \<open>get_runtime_chunk\<close> has an answer: an entrypoint with a runtime chunk, or one
  without whose parents are all known, at least one of them an entrypoint, and whose entrypoint
  parents have an answer themselves.  The induction is well-founded, so a cycle of entrypoints
  without a runtime chunk is not resolvable, and neither is a runtime-less entrypoint without parents.
\<close>

inductive resolvable :: "chunk_group_by_ukey \<Rightarrow> chunk_group \<Rightarrow> bool" for db where
  own_runtime: "is_entrypoint (cg_kind g) \<Longrightarrow> cg_runtime_chunk g = Some c \<Longrightarrow> resolvable db g"
| parent_runtime: "is_entrypoint (cg_kind g) \<Longrightarrow> cg_runtime_chunk g = None \<Longrightarrow>
    \<exists>p \<in> cg_parents g. \<exists>q. db p = Some q \<and> is_entrypoint (cg_kind q) \<Longrightarrow>
    \<forall>p \<in> cg_parents g. \<exists>q. db p = Some q \<and> (is_entrypoint (cg_kind q) \<longrightarrow> resolvable db q) \<Longrightarrow>
    resolvable db g"

definition answers :: "chunk_group_by_ukey \<Rightarrow> chunk_group \<Rightarrow> chunk_ukey \<Rightarrow> bool" where
  "answers db g c \<longleftrightarrow> is_entrypoint (cg_kind g) \<and> (cg_runtime_chunk g = Some c \<or>
     cg_runtime_chunk g = None \<and>
     (\<exists>a \<in> (parent_edges db)\<^sup>* `` cg_parents g. \<exists>h. db a = Some h \<and> is_entrypoint (cg_kind h) \<and> cg_runtime_chunk h = Some c))"

lemma find_entry_parent_in:
  assumes "find_entry_parent db ps = Some q"
  shows "\<exists>p \<in> set ps. db p = Some q \<and> is_entrypoint (cg_kind q)"
  using assms by (induction ps) (auto split: option.splits if_splits)

lemma answers_parent:
  assumes "answers db q c" "p \<in> cg_parents g" "db p = Some q" "is_entrypoint (cg_kind g)" "cg_runtime_chunk g = None"
  shows "answers db g c"
proof -
  have "(parent_edges db)\<^sup>* `` cg_parents q \<subseteq> (parent_edges db)\<^sup>* `` cg_parents g"
    using assms(2,3) by (auto simp: parent_edges_def intro: converse_rtrancl_into_rtrancl)
  moreover have "p \<in> (parent_edges db)\<^sup>* `` cg_parents g" using assms(2) by blast
  ultimately show ?thesis using assms unfolding answers_def by blast
qed

lemma get_runtime_chunk_sound:
  assumes "get_runtime_chunk ord db g = Some c" "hash_order ord"
  shows "answers db g c"
  using assms
proof (induction rule: get_runtime_chunk.raw_induct [rotated, consumes 1, case_names Step])
  case (Step rec ord db g c)
  have entry: "is_entrypoint (cg_kind g)" using Step.hyps by (simp split: if_splits)
  show ?case
  proof (cases "cg_runtime_chunk g")
    case None
    then obtain q where q: "find_entry_parent db (ord (cg_parents g)) = Some q" "rec ord db q = Some c"
      using Step.hyps entry by (auto simp: bind_eq_Some_conv)
    have "\<exists>p \<in> cg_parents g. db p = Some q"
      using find_entry_parent_in [OF q(1)] hash_orderD(2) [OF Step.prems, of "cg_parents g"] by auto
    then show ?thesis using answers_parent [OF Step.IH [OF q(2) Step.prems] _ _ entry None] by blast
  qed (use Step.hyps entry in \<open>simp add: answers_def\<close>)
qed

lemma get_runtime_chunk_returns:
  assumes "hash_order ord" "resolvable db g"
  shows "get_runtime_chunk ord db g \<noteq> None"
  using assms(2)
proof (induction rule: resolvable.induct)
  case (own_runtime g c)
  then show ?case by (subst get_runtime_chunk.simps) simp
next
  case (parent_runtime g)
  have ps: "set (ord (cg_parents g)) = cg_parents g" using hash_orderD(2) [OF assms(1)] by simp
  obtain q p where q: "find_entry_parent db (ord (cg_parents g)) = Some q" "p \<in> cg_parents g" "db p = Some q"
    "is_entrypoint (cg_kind q)"
    using find_entry_parent_spec [of "ord (cg_parents g)" db] parent_runtime(3,4) unfolding ps by blast
  then have "get_runtime_chunk ord db q \<noteq> None" using parent_runtime(4) by fastforce
  then show ?case using parent_runtime(1,2) q(1) by (subst get_runtime_chunk.simps) simp
qed

text \<open>The iteration order that meets a parent without an answer first.\<close>

definition blocked :: "chunk_group_by_ukey \<Rightarrow> chunk_group_ukey \<Rightarrow> bool" where
  "blocked db p \<longleftrightarrow> (\<forall>q. db p = Some q \<longrightarrow> is_entrypoint (cg_kind q) \<and> \<not> resolvable db q)"

definition worst_order :: "chunk_group_by_ukey \<Rightarrow> chunk_group_ukey set \<Rightarrow> chunk_group_ukey list" where
  "worst_order db S = filter (blocked db) (sorted_list_of_set S) @ filter (Not \<circ> blocked db) (sorted_list_of_set S)"

lemma worst_order_hash [simp]: "hash_order (worst_order db)"
  unfolding hash_order_def worst_order_def by auto

lemma find_entry_parent_blocked:
  assumes "p \<in> S" "blocked db p" "finite S" "find_entry_parent db (worst_order db S) = Some q"
  shows "\<not> resolvable db q"
proof -
  have "filter (blocked db) (sorted_list_of_set S) \<noteq> []" using assms by (auto simp: filter_empty_conv)
  then obtain p' ps where *: "filter (blocked db) (sorted_list_of_set S) = p' # ps" by (cases "filter (blocked db) (sorted_list_of_set S)") auto
  then have "blocked db p'" by (metis (no_types) filter_eq_ConsD)
  then show ?thesis using assms(4) * by (auto simp: worst_order_def blocked_def split: option.splits)
qed

lemma get_runtime_chunk_worst:
  assumes "get_runtime_chunk ord db g = Some c" "ord = worst_order db"
  shows "resolvable db g"
  using assms
proof (induction rule: get_runtime_chunk.raw_induct [rotated, consumes 1, case_names Step])
  case (Step rec ord db g c)
  have entry: "is_entrypoint (cg_kind g)" using Step.hyps by (simp split: if_splits)
  show ?case
  proof (cases "cg_runtime_chunk g")
    case None
    then obtain q where q: "find_entry_parent db (worst_order db (cg_parents g)) = Some q" "resolvable db q"
      using Step entry by (auto simp: bind_eq_Some_conv)
    have "\<forall>p \<in> cg_parents g. \<not> blocked db p" using find_entry_parent_blocked [OF _ _ _ q(1)] q(2) by auto
    moreover have "\<exists>p \<in> cg_parents g. db p = Some q \<and> is_entrypoint (cg_kind q)"
      using find_entry_parent_in [OF q(1)] hash_orderD(2) [OF worst_order_hash, of "cg_parents g" db] by simp
    ultimately show ?thesis using None entry by (intro parent_runtime) (auto simp: blocked_def)
  qed (use entry own_runtime in blast)
qed

section \<open>Properties\<close>

text \<open>
  C6. Merging entry options reports exactly the first conflicting key in declaration order: \<open>merge\<close>
  succeeds when no option is set to two different values, and then every option is the first
  operand's value if set and the second's otherwise; otherwise it fails with that key.
\<close>

theorem entry_options_merge_correct:
  "snd (entry_options_merge a b) =
     (case merge_conflicts a b of [] \<Rightarrow> Inr () | key # _ \<Rightarrow> Inl (ConflictingEntryOption key)) \<and>
   (snd (entry_options_merge a b) = Inr () \<longrightarrow>
     fst (entry_options_merge a b) =
      \<lparr>eo_name = first_of (eo_name a) (eo_name b),
       eo_runtime = first_of (eo_runtime a) (eo_runtime b),
       eo_chunk_loading = first_of (eo_chunk_loading a) (eo_chunk_loading b),
       eo_wasm_loading = first_of (eo_wasm_loading a) (eo_wasm_loading b),
       eo_async_chunks = first_of (eo_async_chunks a) (eo_async_chunks b),
       eo_public_path = first_of (eo_public_path a) (eo_public_path b),
       eo_base_uri = first_of (eo_base_uri a) (eo_base_uri b),
       eo_filename = first_of (eo_filename a) (eo_filename b),
       eo_library = first_of (eo_library a) (eo_library b),
       eo_depend_on = first_of (eo_depend_on a) (eo_depend_on b),
       eo_layer = first_of (eo_layer a) (eo_layer b)\<rparr>)"
proof (cases "merge_conflicts a b")
  case Nil
  then show ?thesis using merge_success [OF Nil] by (simp add: merge_result)
qed (simp add: merge_result)

definition no_options :: entry_options where
  "no_options = \<lparr>eo_name = None, eo_runtime = None, eo_chunk_loading = None, eo_wasm_loading = None,
    eo_async_chunks = None, eo_public_path = None, eo_base_uri = None, eo_filename = None,
    eo_library = None, eo_depend_on = None, eo_layer = None\<rparr>"

theorem entry_options_merge_correct_witness:
  "snd (entry_options_merge (no_options\<lparr>eo_name := Some ''a'', eo_layer := Some ''x''\<rparr>)
         (no_options\<lparr>eo_name := Some ''a'', eo_layer := Some ''y''\<rparr>)) =
     Inl (ConflictingEntryOption ''layer'') \<and>
   eo_name (fst (entry_options_merge no_options (no_options\<lparr>eo_name := Some ''b''\<rparr>))) = Some ''b''"
  using entry_options_merge_correct [of "no_options\<lparr>eo_name := Some ''a'', eo_layer := Some ''x''\<rparr>"
      "no_options\<lparr>eo_name := Some ''a'', eo_layer := Some ''y''\<rparr>"]
    entry_options_merge_correct [of no_options "no_options\<lparr>eo_name := Some ''b''\<rparr>"]
  by (simp add: no_options_def merge_conflicts_def compatible_def first_of_def)

text \<open>
  C7. \<open>insert_chunk\<close> puts a chunk before another one: it does not panic when \<open>before\<close> is in the group,
  returns whether the chunk is new, keeps the vector free of duplicates and the order of all other
  chunks, and afterwards the chunk stands before \<open>before\<close>.
\<close>

theorem insert_chunk_correct:
  assumes "distinct (cg_chunks g)" "before \<in> set (cg_chunks g)" "chunk \<noteq> before"
  shows "\<exists>g'. insert_chunk chunk before g = Some (chunk \<notin> set (cg_chunks g), g') \<and>
    distinct (cg_chunks g') \<and> set (cg_chunks g') = insert chunk (set (cg_chunks g)) \<and>
    filter (\<lambda>c. c \<noteq> chunk) (cg_chunks g') = filter (\<lambda>c. c \<noteq> chunk) (cg_chunks g) \<and>
    (\<exists>i j. position chunk (cg_chunks g') = Some i \<and> position before (cg_chunks g') = Some j \<and> i < j)"
proof (cases "chunk \<in> set (cg_chunks g)")
  case True
  then show ?thesis using insert_chunk_present [OF assms(1) True assms(2)] assms(3) by (auto simp: insert_absorb)
next
  case False
  then have "filter (\<lambda>c. c \<noteq> chunk) (cg_chunks g) = cg_chunks g" by (intro filter_True) auto
  then show ?thesis using insert_chunk_absent [OF assms(1) False assms(2)] False by auto
qed

definition sample_group :: "chunk_group_ukey \<Rightarrow> chunk_ukey list \<Rightarrow> chunk_group" where
  "sample_group k cs = (chunk_group_new k (Entrypoint True no_options))\<lparr>cg_chunks := cs\<rparr>"

theorem insert_chunk_correct_witness:
  "\<exists>g'. insert_chunk 3 1 (sample_group 0 [1, 2, 3]) = Some (False, g') \<and> set (cg_chunks g') = {1, 2, 3}"
  using insert_chunk_correct [of "sample_group 0 [1, 2, 3]" 1 3]
  by (auto simp: sample_group_def chunk_group_new_def)

text \<open>
  \<open>replace_chunk\<close> and \<open>remove_chunk\<close> keep the chunk vector free of duplicates: the replaced chunk
  disappears, the new one occurs exactly once, all other chunks keep their order, and the references
  to the runtime and entrypoint chunk follow.
\<close>

theorem replace_remove_chunk_correct:
  assumes "distinct (cg_chunks g)" "old \<noteq> new"
  shows "(fst (replace_chunk old new g) \<longleftrightarrow> old \<in> set (cg_chunks g)) \<and>
    distinct (cg_chunks (snd (replace_chunk old new g))) \<and>
    set (cg_chunks (snd (replace_chunk old new g))) =
      (if old \<in> set (cg_chunks g) then insert new (set (cg_chunks g) - {old}) else set (cg_chunks g)) \<and>
    filter (\<lambda>c. c \<noteq> old \<and> c \<noteq> new) (cg_chunks (snd (replace_chunk old new g))) =
      filter (\<lambda>c. c \<noteq> old \<and> c \<noteq> new) (cg_chunks g) \<and>
    cg_runtime_chunk (snd (replace_chunk old new g)) \<noteq> Some old \<and>
    cg_entrypoint_chunk (snd (replace_chunk old new g)) \<noteq> Some old \<and>
    distinct (cg_chunks (snd (remove_chunk old g))) \<and>
    set (cg_chunks (snd (remove_chunk old g))) = set (cg_chunks g) - {old}"
  using replace_chunk_spec [OF assms] assms
  by (simp add: replace_chunk_redirects redirect_def remove_chunk_spec set_remove1_eq)

theorem replace_remove_chunk_correct_witness:
  "set (cg_chunks (snd (replace_chunk 1 3 (sample_group 0 [1, 2, 3])))) = {2, 3}"
  using replace_remove_chunk_correct [of "sample_group 0 [1, 2, 3]" 1 3]
  by (auto simp: sample_group_def chunk_group_new_def)

text \<open>
  C8. \<open>ancestors\<close> terminates, also on cyclic parent links, and returns the groups reachable through one
  or more parent links, for every iteration order of the hash sets; it panics only on a dangling link.
\<close>

theorem ancestors_correct:
  assumes "hash_order ord" "\<forall>a \<in> (parent_edges db)\<^sup>* `` cg_parents self. db a \<noteq> None"
  shows "ancestors ord self db = Some ((parent_edges db)\<^sup>* `` cg_parents self)"
proof -
  have ps: "set (ord (cg_parents self)) = cg_parents self" using hash_orderD(2) [OF assms(1)] by simp
  obtain res where res: "ancestors_loop ord db (ord (cg_parents self)) {} = Some res"
    using ancestors_loop_total [of ord db "ord (cg_parents self)" "{}"] assms unfolding ps by auto
  note spec = ancestors_loop_spec [OF assms(1) res, unfolded ps]
  have "b \<in> res" if "(a, b) \<in> (parent_edges db)\<^sup>*" "a \<in> cg_parents self" for a b
    using that
  proof (induction rule: rtrancl_induct)
    case base
    then show ?case using spec by auto
  next
    case (step y z)
    then obtain g where "db y = Some g" "z \<in> cg_parents g" by (auto simp: parent_edges_def)
    moreover obtain h where "db y = Some h" "cg_parents h \<subseteq> res" using spec step by blast
    ultimately show ?case by auto
  qed
  then have "res = (parent_edges db)\<^sup>* `` cg_parents self" using spec by auto
  then show ?thesis using res by (simp add: ancestors_def)
qed

theorem ancestors_correct_witness:
  "ancestors sorted_list_of_set ((sample_group 0 [])\<lparr>cg_parents := {1}\<rparr>) [1 \<mapsto> sample_group 1 []] =
    Some ((parent_edges [1 \<mapsto> sample_group 1 []])\<^sup>* `` {1})"
proof -
  have no: "parent_edges [1 \<mapsto> sample_group 1 []] = {}"
    by (auto simp: parent_edges_def sample_group_def chunk_group_new_def)
  show ?thesis
    using ancestors_correct [of sorted_list_of_set "[1 \<mapsto> sample_group 1 []]" "(sample_group 0 [])\<lparr>cg_parents := {1}\<rparr>"]
    by (simp add: no)
qed

text \<open>
  C9. \<open>get_runtime_chunk\<close> returns, whatever the iteration order of the parent set is, exactly for the groups
  that are \<open>resolvable\<close>: entrypoints with a runtime chunk, and entrypoints without one whose parents
  are all known, with an entrypoint among them, and whose entrypoint parents are resolvable.  For
  every other group some order panics or recurses forever.  Under every order the chunk returned
  is the group's own runtime chunk, or, when it has none, the runtime chunk of an entrypoint ancestor.
\<close>

theorem get_runtime_chunk_live:
  "((\<forall>ord. hash_order ord \<longrightarrow> get_runtime_chunk ord db g \<noteq> None) \<longleftrightarrow> resolvable db g) \<and>
   (\<forall>ord c. hash_order ord \<longrightarrow> get_runtime_chunk ord db g = Some c \<longrightarrow>
     is_entrypoint (cg_kind g) \<and> (cg_runtime_chunk g = Some c \<or>
     cg_runtime_chunk g = None \<and>
     (\<exists>a \<in> (parent_edges db)\<^sup>* `` cg_parents g. \<exists>h. db a = Some h \<and> is_entrypoint (cg_kind h) \<and> cg_runtime_chunk h = Some c)))"
proof (intro conjI iffI allI impI)
  assume "\<forall>ord. hash_order ord \<longrightarrow> get_runtime_chunk ord db g \<noteq> None"
  then obtain c where "get_runtime_chunk (worst_order db) db g = Some c"
    using worst_order_hash by blast
  then show "resolvable db g" by (rule get_runtime_chunk_worst) simp
qed (use get_runtime_chunk_returns get_runtime_chunk_sound [unfolded answers_def] in blast)+

theorem get_runtime_chunk_live_witness:
  "\<exists>c. get_runtime_chunk sorted_list_of_set [1 \<mapsto> (sample_group 1 [])\<lparr>cg_runtime_chunk := Some 7\<rparr>]
    ((sample_group 0 [])\<lparr>cg_parents := {1}\<rparr>) = Some c"
proof -
  let ?db = "[1 \<mapsto> (sample_group 1 [])\<lparr>cg_runtime_chunk := Some 7\<rparr>]"
  have "resolvable ?db ((sample_group 1 [])\<lparr>cg_runtime_chunk := Some 7\<rparr>)"
    by (intro own_runtime [where c = 7]) (simp_all add: sample_group_def chunk_group_new_def)
  then have "resolvable ?db ((sample_group 0 [])\<lparr>cg_parents := {1}\<rparr>)"
    by (intro parent_runtime) (simp_all add: sample_group_def chunk_group_new_def)
  then show ?thesis
    using get_runtime_chunk_live [of ?db "(sample_group 0 [])\<lparr>cg_parents := {1}\<rparr>"] hash_order_sorted
    by blast
qed

end
