(* ===== verification/Chunk_Queries.thy ===== *)
theory Chunk_Queries
  imports Chunk_Group Walk
begin

text \<open>
  The queries of \<open>crates/rspack_core/src/chunk.rs\<close> that follow chunk groups: which chunks a chunk
  references, which of them load initially or asynchronously, splitting a chunk and disconnecting it
  from its groups.

  \<open>ord\<close> arguments are the iteration orders of hash sets.  A group read from the database carries
  the key it is stored under (\<open>ChunkGroupByUkey::add\<close>), so \<open>chunk_group.ukey\<close> of a looked-up group is
  written as the key itself.
\<close>

type_synonym group_order = "chunk_group_ukey set \<Rightarrow> chunk_group_ukey list"

fun cmp_index :: "u32 option \<Rightarrow> u32 option \<Rightarrow> ordering" where
  "cmp_index None None = Equal"
| "cmp_index None (Some _) = Greater"
| "cmp_index (Some _) None = Less"
| "cmp_index (Some a) (Some b) = cmp_ord a b"

definition group_index :: "chunk_group_by_ukey \<Rightarrow> chunk_group_ukey \<Rightarrow> u32 option" where
  "group_index db k = Option.bind (db k) cg_index"

definition sort_group_by_index :: "chunk_group_by_ukey \<Rightarrow> chunk_group_ukey list \<Rightarrow> chunk_group_ukey list option" where
  "sort_group_by_index db = sort_by_checked (\<lambda>k. db k \<noteq> None) (\<lambda>a b. cmp_index (group_index db a) (group_index db b))"

interpretation index_cmp: comparator cmp_index
proof
  show "cmp_index y x = reverse_ordering (cmp_index x y)" for x y
    by (cases x; cases y) auto
  show "cmp_index x z \<noteq> Greater" if "cmp_index x y \<noteq> Greater" "cmp_index y z \<noteq> Greater" for x y z
    using that by (cases x; cases y; cases z) auto
qed

definition get_sorted_groups :: "group_order \<Rightarrow> chunk_group_by_ukey \<Rightarrow> chunk \<Rightarrow> chunk_group_ukey list option" where
  "get_sorted_groups ord db self = sort_group_by_index db (ord (c_groups self))"

definition chunk_get_entry_options :: "group_order \<Rightarrow> chunk_group_by_ukey \<Rightarrow> chunk \<Rightarrow> entry_options option" where
  "chunk_get_entry_options ord db self =
    (case List.map_filter (\<lambda>k. Option.bind (db k) (\<lambda>g. get_entry_options (cg_kind g))) (ord (c_groups self)) of
       [] \<Rightarrow> None
     | opts # _ \<Rightarrow> Some opts)"

section \<open>Splitting and disconnecting\<close>

text \<open>The loop body of \<open>split_collect_new_chunk_data\<close>: the new chunk goes before the old one in the group.\<close>

definition split_step :: "chunk_ukey \<Rightarrow> chunk_ukey \<Rightarrow> chunk_group_ukey \<Rightarrow> chunk_group_by_ukey \<times> chunk_split_data \<Rightarrow>
    (chunk_group_by_ukey \<times> chunk_split_data) option" where
  "split_step new_chunk_ukey ukey k st = (case st of (db, split_data) \<Rightarrow> do {
     grp \<leftarrow> db k;
     (_, grp) \<leftarrow> insert_chunk new_chunk_ukey ukey grp;
     Some (db(k \<mapsto> grp), split_data\<lparr>csd_groups := insert k (csd_groups split_data)\<rparr>)
   })"

definition split_collect_new_chunk_data :: "group_order \<Rightarrow> (ustr set \<Rightarrow> ustr list) \<Rightarrow> chunk \<Rightarrow> chunk_ukey \<Rightarrow>
    chunk_group_by_ukey \<Rightarrow> chunk_split_data \<Rightarrow> (chunk_group_by_ukey \<times> chunk_split_data) option" where
  "split_collect_new_chunk_data ord rord self new_chunk_ukey db split_data = do {
     group_keys \<leftarrow> get_sorted_groups ord db self;
     (db, split_data) \<leftarrow> for_each (split_step new_chunk_ukey (c_ukey self)) group_keys (db, split_data);
     let split_data = split_data\<lparr>csd_id_name_hints := csd_id_name_hints split_data \<union> c_id_name_hints self\<rparr>;
     Some (db, split_add_runtime rord (c_runtime self) split_data)
   }"

definition chunk_split :: "group_order \<Rightarrow> (ustr set \<Rightarrow> ustr list) \<Rightarrow> chunk \<Rightarrow> chunk \<Rightarrow> chunk_group_by_ukey \<Rightarrow>
    (chunk \<times> chunk_group_by_ukey) option" where
  "chunk_split ord rord self new_chunk db = do {
     (db, split_data) \<leftarrow> split_collect_new_chunk_data ord rord self (c_ukey new_chunk) db split_data_new;
     Some (split_apply_to rord split_data new_chunk, db)
   }"

definition disconnect_from_groups :: "group_order \<Rightarrow> chunk \<Rightarrow> chunk_group_by_ukey \<Rightarrow> (chunk \<times> chunk_group_by_ukey) option" where
  "disconnect_from_groups ord self db = do {
     db \<leftarrow> for_each (\<lambda>k. expect_modify k (\<lambda>grp. snd (remove_chunk (c_ukey self) grp))) (ord (c_groups self)) db;
     Some (self\<lparr>c_groups := {}\<rparr>, db)
   }"

section \<open>Reachable chunks\<close>

definition can_be_initial :: "group_order \<Rightarrow> chunk_group_by_ukey \<Rightarrow> chunk \<Rightarrow> bool" where
  "can_be_initial ord db self = list_ex is_initial (List.map_filter db (ord (c_groups self)))"

definition is_only_initial :: "group_order \<Rightarrow> chunk_group_by_ukey \<Rightarrow> chunk \<Rightarrow> bool" where
  "is_only_initial ord db self = list_all is_initial (List.map_filter db (ord (c_groups self)))"

definition all_node :: "chunk_group_by_ukey \<Rightarrow> (chunk_group_ukey, chunk_ukey) node_fn" where
  "all_node db k = map_option (\<lambda>g. (cg_chunks g, cg_children g)) (db k)"

definition get_all_referenced_chunks :: "group_order \<Rightarrow> chunk_group_by_ukey \<Rightarrow> chunk \<Rightarrow> chunk_ukey list option" where
  "get_all_referenced_chunks ord db self = do {
     groups \<leftarrow> get_sorted_groups ord db self;
     (chunks, _) \<leftarrow> walk_roots (all_node db) True groups;
     Some chunks
   }"

definition initial_node :: "chunk_group_by_ukey \<Rightarrow> (chunk_group_ukey, chunk_ukey) node_fn" where
  "initial_node db k = map_option (\<lambda>g. if is_initial g then (cg_chunks g, cg_children g) else ([], [])) (db k)"

definition get_all_initial_chunks :: "group_order \<Rightarrow> chunk_group_by_ukey \<Rightarrow> chunk \<Rightarrow> chunk_ukey list option" where
  "get_all_initial_chunks ord db self = do {
     groups \<leftarrow> get_sorted_groups ord db self;
     (chunks, _) \<leftarrow> walk_roots (initial_node db) False groups;
     Some chunks
   }"

definition async_entrypoint_node :: "group_order \<Rightarrow> chunk_group_by_ukey \<Rightarrow> (chunk_group_ukey, chunk_group_ukey) node_fn" where
  "async_entrypoint_node ord db k = map_option (\<lambda>g. (ord (cg_async_entrypoints g), cg_children g)) (db k)"

definition get_all_referenced_async_entrypoints ::
  "group_order \<Rightarrow> chunk_group_by_ukey \<Rightarrow> chunk \<Rightarrow> chunk_group_ukey list option" where
  "get_all_referenced_async_entrypoints ord db self = do {
     groups \<leftarrow> get_sorted_groups ord db self;
     (entries, _) \<leftarrow> walk_roots (async_entrypoint_node ord db) False groups;
     Some entries
   }"

definition has_runtime :: "group_order \<Rightarrow> chunk_group_by_ukey \<Rightarrow> chunk \<Rightarrow> bool option" where
  "has_runtime ord db self =
    any_opt (\<lambda>g. if is_entrypoint (cg_kind g)
                 then map_option (\<lambda>c. c = c_ukey self) (get_runtime_chunk ord db g) else Some False)
      (List.map_filter db (ord (c_groups self)))"

text \<open>The chunks common to all groups of the chunk; a missing group panics, no group gives the empty set.\<close>

definition common_chunks :: "group_order \<Rightarrow> chunk_group_by_ukey \<Rightarrow> chunk \<Rightarrow> chunk_ukey set option" where
  "common_chunks ord db self =
    (let gs = ord (c_groups self) in
     if list_all (\<lambda>k. db k \<noteq> None) gs then
       (case map (\<lambda>g. set (cg_chunks g)) (List.map_filter db gs) of
          [] \<Rightarrow> Some {}
        | s # ss \<Rightarrow> Some (foldl (\<inter>) s ss))
     else None)"

text \<open>
  \<open>check_chunks\<close> returns at the first chunk outside \<open>initial_chunks\<close>: the lookup of such a group aborts
  the walk, so the query holds when the walk does not return.
\<close>

definition check_node :: "chunk_group_by_ukey \<Rightarrow> chunk_ukey set \<Rightarrow> (chunk_group_ukey, unit) node_fn" where
  "check_node db initial_chunks k = (case db k of
      None \<Rightarrow> Some ([], [])
    | Some g \<Rightarrow> if list_ex (\<lambda>c. c \<notin> initial_chunks) (cg_chunks g) then None else Some ([], cg_children g))"

definition child_queue :: "chunk_group_by_ukey \<Rightarrow> chunk_group_ukey list \<Rightarrow> chunk_group_ukey list option" where
  "child_queue db groups = for_each (\<lambda>k queue. case db k of
      None \<Rightarrow> Some queue
    | Some g \<Rightarrow> map_option (\<lambda>cs. index_extend queue (filter (\<lambda>c. db c \<noteq> None) cs))
        (sort_group_by_index db (cg_children g))) groups []"

definition has_async_chunks :: "group_order \<Rightarrow> chunk_group_by_ukey \<Rightarrow> chunk \<Rightarrow> bool option" where
  "has_async_chunks ord db self = do {
     initial_chunks \<leftarrow> common_chunks ord db self;
     groups \<leftarrow> get_sorted_groups ord db self;
     queue \<leftarrow> child_queue db groups;
     Some (walk_roots (check_node db initial_chunks) False queue = None)
   }"

text \<open>
  \<open>add_to_queue\<close>: an initial child that \<open>initial_queue\<close> does not hold is inserted there and descended into, every
  other known child goes to \<open>queue\<close>.
\<close>

definition queue_node :: "chunk_group_by_ukey \<Rightarrow> (chunk_group_ukey, chunk_group_ukey) node_fn" where
  "queue_node db k = (case db k of
      None \<Rightarrow> Some ([], [])
    | Some g \<Rightarrow> map_option (\<lambda>cs. ([], filter (\<lambda>c. db c \<noteq> None) cs)) (sort_group_by_index db (cg_children g)))"

definition initial_group :: "chunk_group_by_ukey \<Rightarrow> chunk_group_ukey \<Rightarrow> bool" where
  "initial_group db k = (case db k of None \<Rightarrow> False | Some g \<Rightarrow> is_initial g)"

definition add_to_queue :: "chunk_group_by_ukey \<Rightarrow> chunk_group_ukey \<Rightarrow>
    chunk_group_ukey list \<times> chunk_group_ukey set \<Rightarrow> (chunk_group_ukey list \<times> chunk_group_ukey set) option" where
  "add_to_queue db k st = do {
     (_, children) \<leftarrow> queue_node db k;
     walk (initial_group db) (queue_node db) (\<lambda>c. [c]) children st
   }"

definition async_node :: "chunk_group_by_ukey \<Rightarrow> chunk_ukey set \<Rightarrow> (chunk_group_ukey, chunk_ukey) node_fn" where
  "async_node db initial_chunks k = (case db k of
      None \<Rightarrow> Some ([], [])
    | Some g \<Rightarrow> Some (filter (\<lambda>c. c \<notin> initial_chunks) (cg_chunks g), cg_children g))"

definition get_all_async_chunks :: "group_order \<Rightarrow> chunk_group_by_ukey \<Rightarrow> chunk \<Rightarrow> chunk_ukey list option" where
  "get_all_async_chunks ord db self = do {
     initial_chunks \<leftarrow> common_chunks ord db self;
     initial_queue \<leftarrow> get_sorted_groups ord db self;
     (queue, _) \<leftarrow> for_each (add_to_queue db) initial_queue ([], set initial_queue);
     (chunks, _) \<leftarrow> walk_roots (async_node db initial_chunks) False queue;
     Some chunks
   }"

section \<open>What the queries compute\<close>

definition child_edges :: "(chunk_group \<Rightarrow> bool) \<Rightarrow> chunk_group_by_ukey \<Rightarrow> (chunk_group_ukey \<times> chunk_group_ukey) set" where
  "child_edges P db = {(a, b). \<exists>g. db a = Some g \<and> P g \<and> b \<in> set (cg_children g)}"

definition group_reach :: "(chunk_group \<Rightarrow> bool) \<Rightarrow> chunk_group_by_ukey \<Rightarrow> chunk_group_ukey set \<Rightarrow> chunk_group_ukey set" where
  "group_reach P db R = (child_edges P db)\<^sup>* `` R"

definition chunks_of_groups :: "(chunk_group \<Rightarrow> bool) \<Rightarrow> chunk_group_by_ukey \<Rightarrow> chunk_group_ukey set \<Rightarrow> chunk_ukey set" where
  "chunks_of_groups P db N = {c. \<exists>k \<in> N. \<exists>g. db k = Some g \<and> P g \<and> c \<in> set (cg_chunks g)}"

abbreviation any_group :: "chunk_group \<Rightarrow> bool" where
  "any_group \<equiv> \<lambda>_. True"

definition groups_known :: "chunk_group_by_ukey \<Rightarrow> chunk_group_ukey set \<Rightarrow> bool" where
  "groups_known db N \<longleftrightarrow> (\<forall>k \<in> N. db k \<noteq> None)"

lemma node_reach:
  "reach (all_node db) R = group_reach any_group db R"
  "reach (initial_node db) R = group_reach is_initial db R"
  "reach (async_entrypoint_node ord db) R = group_reach any_group db R"
  "reach (async_node db I) R = group_reach any_group db R"
  unfolding reach_def group_reach_def
  by (rule arg_cong [of _ _ "\<lambda>E. E\<^sup>* `` R"];
      auto simp: succs_of_def child_edges_def all_node_def initial_node_def async_entrypoint_node_def
        async_node_def split: option.splits if_splits)+

lemma group_reach_root: "R \<subseteq> group_reach P db R"
  by (auto simp: group_reach_def)

lemma group_reach_mono: "R \<subseteq> S \<Longrightarrow> group_reach P db R \<subseteq> group_reach P db S"
  by (auto simp: group_reach_def)

lemma group_reach_reach: "R \<subseteq> group_reach P db S \<Longrightarrow> group_reach P db R \<subseteq> group_reach P db S"
  unfolding group_reach_def by (blast intro: rtrancl_trans)

lemma group_reach_step: "k \<in> group_reach P db R \<Longrightarrow> (k, j) \<in> child_edges P db \<Longrightarrow> j \<in> group_reach P db R"
  by (auto simp: group_reach_def intro: rtrancl_into_rtrancl)

lemma sorted_groups_known:
  assumes "hash_order ord" "groups_known db (c_groups c)"
  shows "\<exists>gs. get_sorted_groups ord db c = Some gs \<and> set gs = c_groups c \<and> distinct gs \<and>
    sorted_wrt (\<lambda>a b. cmp_index (group_index db a) (group_index db b) \<noteq> Greater) gs"
proof -
  have set: "set (ord (c_groups c)) = c_groups c" "distinct (ord (c_groups c))"
    using hash_orderD [OF assms(1)] by simp_all
  then have "list_all (\<lambda>k. db k \<noteq> None) (ord (c_groups c))"
    using assms(2) by (auto simp: list_all_iff groups_known_def)
  then obtain gs where gs: "get_sorted_groups ord db c = Some gs"
    unfolding get_sorted_groups_def sort_group_by_index_def using sort_by_checked_total by blast
  moreover have "comparator (\<lambda>a b. cmp_index (group_index db a) (group_index db b))"
    by (rule comparator_key [OF index_cmp.comparator_axioms])
  ultimately show ?thesis
    using set sort_by_checked_set [OF gs [unfolded get_sorted_groups_def sort_group_by_index_def]]
      sort_by_checked_sorted [OF _ gs [unfolded get_sorted_groups_def sort_group_by_index_def]]
    by simp
qed

lemma walk_query:
  assumes "hash_order ord" "groups_known db (c_groups c)" "\<And>n. n \<in> reach nd (c_groups c) \<Longrightarrow> nd n \<noteq> None"
  shows "\<exists>out. (do { groups \<leftarrow> get_sorted_groups ord db c; (out, _) \<leftarrow> walk_roots nd mark groups; Some out }) = Some out \<and>
    distinct out \<and> set out = (\<Union>n \<in> reach nd (c_groups c). items_of nd n)"
proof -
  obtain gs where gs: "get_sorted_groups ord db c = Some gs" "set gs = c_groups c"
    using sorted_groups_known [OF assms(1,2)] by blast
  then obtain out vis where w: "walk_roots nd mark gs = Some (out, vis)"
    using walk_roots_total [of nd gs mark] assms(3) by auto
  then show ?thesis using gs walk_roots_set [OF w] walk_roots_distinct [OF w] by simp
qed

lemma groups_known_subset: "groups_known db (group_reach P db R) \<Longrightarrow> groups_known db R"
  using group_reach_root unfolding groups_known_def by blast

lemma group_reach_is_initial_subset: "group_reach is_initial db R \<subseteq> group_reach any_group db R"
proof -
  have "child_edges is_initial db \<subseteq> child_edges any_group db" by (auto simp: child_edges_def)
  then show ?thesis unfolding group_reach_def by (meson Image_mono order_refl rtrancl_mono)
qed

lemma referenced_chunks_spec:
  assumes "hash_order ord" "groups_known db (group_reach any_group db (c_groups c))"
  shows "\<exists>out. get_all_referenced_chunks ord db c = Some out \<and> distinct out \<and>
    set out = chunks_of_groups any_group db (group_reach any_group db (c_groups c))"
proof -
  have known: "\<And>n. n \<in> reach (all_node db) (c_groups c) \<Longrightarrow> all_node db n \<noteq> None"
    using assms(2) by (auto simp: node_reach all_node_def groups_known_def)
  from walk_query [OF assms(1) groups_known_subset [OF assms(2)], where nd = "all_node db" and mark = True, OF known]
  obtain out where out: "get_all_referenced_chunks ord db c = Some out" "distinct out"
    "set out = (\<Union>n \<in> group_reach any_group db (c_groups c). items_of (all_node db) n)"
    unfolding get_all_referenced_chunks_def node_reach by blast
  have "items_of (all_node db) n = {x. \<exists>g. db n = Some g \<and> x \<in> set (cg_chunks g)}" for n
    by (auto simp: items_of_def all_node_def split: option.splits)
  then show ?thesis using out by (auto simp: chunks_of_groups_def)
qed

lemma initial_chunks_spec:
  assumes "hash_order ord" "groups_known db (group_reach is_initial db (c_groups c))"
  shows "\<exists>out. get_all_initial_chunks ord db c = Some out \<and> distinct out \<and>
    set out = chunks_of_groups is_initial db (group_reach is_initial db (c_groups c))"
proof -
  have known: "\<And>n. n \<in> reach (initial_node db) (c_groups c) \<Longrightarrow> initial_node db n \<noteq> None"
    using assms(2) by (auto simp: node_reach initial_node_def groups_known_def)
  from walk_query [OF assms(1) groups_known_subset [OF assms(2)], where nd = "initial_node db" and mark = False, OF known]
  obtain out where out: "get_all_initial_chunks ord db c = Some out" "distinct out"
    "set out = (\<Union>n \<in> group_reach is_initial db (c_groups c). items_of (initial_node db) n)"
    unfolding get_all_initial_chunks_def node_reach by blast
  have "items_of (initial_node db) n = {x. \<exists>g. db n = Some g \<and> is_initial g \<and> x \<in> set (cg_chunks g)}" for n
    by (auto simp: items_of_def initial_node_def split: option.splits)
  then show ?thesis using out by (auto simp: chunks_of_groups_def)
qed

lemma async_entrypoints_spec:
  assumes "hash_order ord" "groups_known db (group_reach any_group db (c_groups c))"
  shows "\<exists>out. get_all_referenced_async_entrypoints ord db c = Some out \<and> distinct out \<and>
    set out = {e. \<exists>k \<in> group_reach any_group db (c_groups c). \<exists>g. db k = Some g \<and> e \<in> cg_async_entrypoints g}"
proof -
  have known: "\<And>n. n \<in> reach (async_entrypoint_node ord db) (c_groups c) \<Longrightarrow> async_entrypoint_node ord db n \<noteq> None"
    using assms(2) by (auto simp: node_reach async_entrypoint_node_def groups_known_def)
  from walk_query [OF assms(1) groups_known_subset [OF assms(2)], where nd = "async_entrypoint_node ord db" and mark = False, OF known]
  obtain out where out: "get_all_referenced_async_entrypoints ord db c = Some out" "distinct out"
    "set out = (\<Union>n \<in> group_reach any_group db (c_groups c). items_of (async_entrypoint_node ord db) n)"
    unfolding get_all_referenced_async_entrypoints_def node_reach by blast
  have "items_of (async_entrypoint_node ord db) n = {x. \<exists>g. db n = Some g \<and> x \<in> cg_async_entrypoints g}" for n
    using hash_orderD(2) [OF assms(1)] by (auto simp: items_of_def async_entrypoint_node_def split: option.splits)
  then show ?thesis using out by auto
qed

subsection \<open>Asynchronous chunks\<close>

definition common_set :: "chunk_group_by_ukey \<Rightarrow> chunk_group_ukey set \<Rightarrow> chunk_ukey set" where
  "common_set db R = {c. R \<noteq> {} \<and> (\<forall>k \<in> R. \<exists>g. db k = Some g \<and> c \<in> set (cg_chunks g))}"

definition children_of :: "chunk_group_by_ukey \<Rightarrow> chunk_group_ukey set \<Rightarrow> chunk_group_ukey set" where
  "children_of db R = {j. \<exists>k \<in> R. (k, j) \<in> child_edges any_group db}"

lemma foldl_inter: "foldl (\<inter>) s ss = s \<inter> (\<Inter>t \<in> set ss. t)"
  by (induction ss arbitrary: s) auto

lemma map_filter_known: "list_all (\<lambda>k. db k \<noteq> None) ks \<Longrightarrow> List.map_filter db ks = map (\<lambda>k. the (db k)) ks"
  by (induction ks) auto

lemma common_chunks_spec:
  assumes "hash_order ord" "groups_known db (c_groups c)"
  shows "common_chunks ord db c = Some (common_set db (c_groups c))"
proof -
  have gs: "set (ord (c_groups c)) = c_groups c" using hash_orderD(2) [OF assms(1)] by simp
  have known: "list_all (\<lambda>k. db k \<noteq> None) (ord (c_groups c))"
    using assms(2) gs by (auto simp: list_all_iff groups_known_def)
  have in_iff: "(\<exists>g. db k = Some g \<and> x \<in> set (cg_chunks g)) \<longleftrightarrow> x \<in> set (cg_chunks (the (db k)))"
    if "k \<in> c_groups c" for k x
    using assms(2) that by (auto simp: groups_known_def)
  show ?thesis
  proof (cases "ord (c_groups c)")
    case Nil
    then show ?thesis using gs by (simp add: common_chunks_def common_set_def List.map_filter_def)
  next
    case (Cons k ks)
    have "common_chunks ord db c = Some (set (cg_chunks (the (db k))) \<inter> (\<Inter>j \<in> set ks. set (cg_chunks (the (db j)))))"
      unfolding common_chunks_def Let_def map_filter_known [OF known]
      using known by (simp add: Cons foldl_inter o_def)
    moreover have "common_set db (c_groups c) = {x. \<forall>j \<in> insert k (set ks). x \<in> set (cg_chunks (the (db j)))}"
      using gs in_iff Cons unfolding common_set_def by auto
    ultimately show ?thesis by auto
  qed
qed

lemma sort_children_known:
  assumes "groups_known db (set cs)"
  shows "\<exists>ys. sort_group_by_index db cs = Some ys \<and> set ys = set cs \<and> mset ys = mset cs"
proof -
  have "list_all (\<lambda>k. db k \<noteq> None) cs" using assms by (auto simp: list_all_iff groups_known_def)
  then show ?thesis
    unfolding sort_group_by_index_def
    using sort_by_checked_total [of "\<lambda>k. db k \<noteq> None" cs] by (blast dest: sort_by_checked_set)
qed

lemma children_reach: "children_of db R \<subseteq> group_reach any_group db R"
  unfolding children_of_def using group_reach_step group_reach_root by blast

lemma known_children:
  assumes "groups_known db (group_reach any_group db R)" "k \<in> group_reach any_group db R" "db k = Some g"
  shows "groups_known db (set (cg_children g))"
  using assms group_reach_step [OF assms(2)] unfolding groups_known_def child_edges_def by blast

lemma child_queue_spec:
  assumes "groups_known db (group_reach any_group db (set gs))"
  shows "\<exists>queue. child_queue db gs = Some queue \<and> set queue = children_of db (set gs)"
  using assms
proof (induction gs rule: rev_induct)
  case Nil
  then show ?case by (simp add: child_queue_def children_of_def)
next
  case (snoc k ks)
  have "group_reach any_group db (set ks) \<subseteq> group_reach any_group db (set (ks @ [k]))"
    by (rule group_reach_mono) auto
  then obtain q where q: "child_queue db ks = Some q" "set q = children_of db (set ks)"
    using snoc unfolding groups_known_def by blast
  have k: "k \<in> group_reach any_group db (set (ks @ [k]))" using group_reach_root by fastforce
  then obtain g where g: "db k = Some g" using snoc.prems by (auto simp: groups_known_def)
  have known: "groups_known db (set (cg_children g))" using known_children [OF snoc.prems k g] .
  then obtain ys where ys: "sort_group_by_index db (cg_children g) = Some ys" "set ys = set (cg_children g)"
    using sort_children_known by blast
  have "filter (\<lambda>c. db c \<noteq> None) ys = ys" using known ys(2) by (intro filter_True) (auto simp: groups_known_def)
  then have "child_queue db (ks @ [k]) = Some (index_extend q ys)"
    using q(1) g ys(1) by (simp add: child_queue_def for_each_append)
  moreover have "set (index_extend q ys) = children_of db (set (ks @ [k]))"
    using q(2) ys(2) g by (auto simp: children_of_def child_edges_def)
  ultimately show ?case by blast
qed

lemma check_node_reach:
  "(\<exists>n \<in> reach (check_node db I) Q. check_node db I n = None) \<longleftrightarrow>
    chunks_of_groups any_group db (group_reach any_group db Q) - I \<noteq> {}"
proof
  assume "\<exists>n \<in> reach (check_node db I) Q. check_node db I n = None"
  then obtain n where n: "n \<in> reach (check_node db I) Q" "check_node db I n = None" by blast
  have "reach (check_node db I) Q \<subseteq> group_reach any_group db Q"
    by (rule reach_subset [OF group_reach_root], erule group_reach_step)
      (auto simp: succs_of_def check_node_def child_edges_def split: option.splits if_splits)
  then show "chunks_of_groups any_group db (group_reach any_group db Q) - I \<noteq> {}"
    using n by (fastforce simp: check_node_def chunks_of_groups_def list_ex_iff split: option.splits if_splits)
next
  assume nonempty: "chunks_of_groups any_group db (group_reach any_group db Q) - I \<noteq> {}"
  show "\<exists>n \<in> reach (check_node db I) Q. check_node db I n = None"
  proof (rule ccontr)
    assume none: "\<not> ?thesis"
    have step: "j \<in> reach (check_node db I) Q" if "k \<in> reach (check_node db I) Q" "(k, j) \<in> child_edges any_group db" for k j
    proof -
      have "check_node db I k \<noteq> None" using none that(1) by metis
      then have "j \<in> succs_of (check_node db I) k"
        using that(2) by (auto simp: succs_of_def check_node_def child_edges_def split: option.splits if_splits)
      then show ?thesis using that(1) by (rule reach_step [rotated])
    qed
    have "k \<in> reach (check_node db I) Q" if "(q, k) \<in> (child_edges any_group db)\<^sup>*" "q \<in> Q" for q k
      using that by (induction rule: rtrancl_induct) (auto intro: reach_root step)
    then have "group_reach any_group db Q \<subseteq> reach (check_node db I) Q" by (auto simp: group_reach_def)
    then obtain k g x where "k \<in> reach (check_node db I) Q" "db k = Some g" "x \<in> set (cg_chunks g)" "x \<notin> I"
      using nonempty by (fastforce simp: chunks_of_groups_def)
    then have "check_node db I k = None" by (auto simp: check_node_def list_ex_iff)
    then show False using none \<open>k \<in> reach (check_node db I) Q\<close> by blast
  qed
qed

lemma has_async_chunks_spec:
  assumes "hash_order ord" "groups_known db (group_reach any_group db (c_groups c))"
  shows "has_async_chunks ord db c = Some (chunks_of_groups any_group db
    (group_reach any_group db (children_of db (c_groups c))) - common_set db (c_groups c) \<noteq> {})"
proof -
  note known = groups_known_subset [OF assms(2)]
  obtain gs where gs: "get_sorted_groups ord db c = Some gs" "set gs = c_groups c"
    using sorted_groups_known [OF assms(1) known] by blast
  obtain q where q: "child_queue db gs = Some q" "set q = children_of db (c_groups c)"
    using child_queue_spec [of db gs] assms(2) gs by auto
  show ?thesis
    using common_chunks_spec [OF assms(1) known] gs(1) q
    by (simp add: has_async_chunks_def walk_roots_None_iff check_node_reach)
qed

text \<open>The groups whose children \<open>add_to_queue\<close> looks at: the roots and the initial groups below them.\<close>

definition initial_edges :: "chunk_group_by_ukey \<Rightarrow> (chunk_group_ukey \<times> chunk_group_ukey) set" where
  "initial_edges db = {(a, b). (a, b) \<in> child_edges any_group db \<and> initial_group db b}"

definition initial_frontier :: "chunk_group_by_ukey \<Rightarrow> chunk_group_ukey set \<Rightarrow> chunk_group_ukey set" where
  "initial_frontier db R = (initial_edges db)\<^sup>* `` R"

lemma initial_frontier_reach: "initial_frontier db R \<subseteq> group_reach any_group db R"
  unfolding initial_frontier_def group_reach_def
  by (intro Image_mono rtrancl_mono) (auto simp: initial_edges_def)

lemma initial_frontier_root: "R \<subseteq> initial_frontier db R"
  by (auto simp: initial_frontier_def)

lemma initial_frontier_step: "k \<in> initial_frontier db R \<Longrightarrow> (k, j) \<in> initial_edges db \<Longrightarrow> j \<in> initial_frontier db R"
  by (auto simp: initial_frontier_def intro: rtrancl_into_rtrancl)

text \<open>How many links lead from the groups of \<open>N\<close> to the group \<open>b\<close>.\<close>

definition edges_to :: "chunk_group_by_ukey \<Rightarrow> chunk_group_ukey set \<Rightarrow> chunk_group_ukey \<Rightarrow> nat" where
  "edges_to db N b = (\<Sum>k \<in> N. case db k of None \<Rightarrow> 0 | Some g \<Rightarrow> count_list (cg_children g) b)"

lemma edges_to_pos: "1 \<le> edges_to db N b \<longleftrightarrow> b \<in> children_of db N"
proof -
  have "edges_to db N b = 0 \<longleftrightarrow> (\<forall>k \<in> N. (case db k of None \<Rightarrow> 0 | Some g \<Rightarrow> count_list (cg_children g) b) = 0)"
    unfolding edges_to_def by (rule sum_eq_0_iff) simp
  also have "\<dots> \<longleftrightarrow> b \<notin> children_of db N"
    by (auto simp: children_of_def child_edges_def count_list_0_iff split: option.splits)
  finally show ?thesis by linarith
qed

lemma queue_node_known:
  assumes "groups_known db (group_reach any_group db R)" "k \<in> group_reach any_group db R"
  shows "\<exists>cs. queue_node db k = Some ([], cs) \<and> set cs = {j. (k, j) \<in> child_edges any_group db} \<and>
    (\<forall>b. count_list cs b = (case db k of None \<Rightarrow> 0 | Some g \<Rightarrow> count_list (cg_children g) b))"
proof -
  obtain g where g: "db k = Some g" using assms by (auto simp: groups_known_def)
  have known: "groups_known db (set (cg_children g))" using known_children [OF assms g] .
  then obtain ys where ys: "sort_group_by_index db (cg_children g) = Some ys" "set ys = set (cg_children g)"
    "mset ys = mset (cg_children g)"
    using sort_children_known by blast
  have "filter (\<lambda>c. db c \<noteq> None) ys = ys" using known ys(2) by (intro filter_True) (auto simp: groups_known_def)
  moreover have "count_list ys b = count_list (cg_children g) b" for b using ys(3) by (metis count_mset)
  ultimately show ?thesis using g ys(1,2) by (auto simp: queue_node_def child_edges_def)
qed

text \<open>
  What the queue holds after the walks from the roots \<open>xs\<close>: a node is marked when it is a root or initial and
  came up at least once, and it is queued when it came up and could not be marked, or came up twice.
\<close>

definition queue_counts :: "chunk_group_by_ukey \<Rightarrow> chunk_group_ukey set \<Rightarrow> chunk_group_ukey set \<Rightarrow>
    chunk_group_ukey list \<times> chunk_group_ukey set \<Rightarrow> bool" where
  "queue_counts db R xs st \<longleftrightarrow> (\<forall>b. b \<in> set (fst st) \<longleftrightarrow>
     1 \<le> edges_to db (xs \<union> (snd st - R)) b \<and> (\<not> initial_group db b \<or> b \<in> R) \<or>
     2 \<le> edges_to db (xs \<union> (snd st - R)) b) \<and>
   (\<forall>b. b \<in> snd st \<longleftrightarrow> b \<in> R \<or> initial_group db b \<and> 1 \<le> edges_to db (xs \<union> (snd st - R)) b)"

lemma queue_counts_step:
  fixes x y z :: nat
  assumes "(q \<longleftrightarrow> 1 \<le> x \<and> (\<not> ok \<or> r) \<or> 2 \<le> x) \<and> (v \<longleftrightarrow> r \<or> ok \<and> 1 \<le> x)"
    and "(v' \<longleftrightarrow> v \<or> ok \<and> 1 \<le> y) \<and> (q' \<longleftrightarrow> q \<or> 1 \<le> y \<and> (\<not> ok \<or> v) \<or> 2 \<le> y)" "z = x + y"
  shows "(q' \<longleftrightarrow> 1 \<le> z \<and> (\<not> ok \<or> r) \<or> 2 \<le> z) \<and> (v' \<longleftrightarrow> r \<or> ok \<and> 1 \<le> z)"
proof -
  consider "x = 0" | "x = 1" | "x \<ge> 2" by linarith
  then show ?thesis
  proof cases
    case 1
    then show ?thesis using assms by (cases r; cases ok; simp)
  next
    case 2
    then show ?thesis using assms by (cases "y = 0"; cases r; cases ok; simp)
  next
    case 3
    then show ?thesis using assms by (cases r; cases ok; simp)
  qed
qed

lemma add_to_queue_counts:
  assumes known: "groups_known db (group_reach any_group db R)"
    and r: "r \<in> R" "r \<notin> xs" "xs \<subseteq> R" and V: "R \<subseteq> snd st" "snd st' \<subseteq> initial_frontier db R"
    and step: "add_to_queue db r st = Some st'" and inv: "queue_counts db R xs st"
  shows "queue_counts db R (insert r xs) st'"
proof -
  let ?nd = "queue_node db" and ?kids = "\<lambda>b k. case db k of None \<Rightarrow> 0 | Some g \<Rightarrow> count_list (cg_children g) b"
  have node: "\<exists>cs. ?nd k = Some ([], cs) \<and> (\<forall>b. count_list cs b = ?kids b k)" if "k \<in> initial_frontier db R" for k
    using queue_node_known [OF known] that initial_frontier_reach by blast
  obtain cs where cs: "?nd r = Some ([], cs)" "\<forall>b. count_list cs b = ?kids b r"
    using node [of r] r(1) initial_frontier_root by blast
  have w: "walk (initial_group db) ?nd (\<lambda>c. [c]) cs st = Some st'"
    using step cs(1) by (simp add: add_to_queue_def)
  have grow: "snd st \<subseteq> snd st'" using walk_grows [OF w] .
  have items: "items_of ?nd n = {}" for n
    by (auto simp: items_of_def queue_node_def split: option.splits)
  have one: "count_list (succ_list ?nd n) b = ?kids b n" if "n \<in> initial_frontier db R" for n b
    using node [OF that] by (auto simp: succ_list_def)
  have "(\<Sum>n \<in> snd st' - snd st. count_list (succ_list ?nd n) b) = (\<Sum>n \<in> snd st' - snd st. ?kids b n)" for b
    using V one by (intro sum.cong) auto
  then have arr: "arrivals ?nd cs (snd st' - snd st) b = ?kids b r + edges_to db (snd st' - snd st) b" for b
    using cs(2) by (simp add: arrivals_def edges_to_def)
  have N: "insert r xs \<union> (snd st' - R) = insert r ((xs \<union> (snd st - R)) \<union> (snd st' - snd st))"
    using grow V by auto
  have sum: "edges_to db (insert r xs \<union> (snd st' - R)) b =
      edges_to db (xs \<union> (snd st - R)) b + arrivals ?nd cs (snd st' - snd st) b" for b
  proof -
    have "r \<notin> (xs \<union> (snd st - R)) \<union> (snd st' - snd st)" "(xs \<union> (snd st - R)) \<inter> (snd st' - snd st) = {}"
      using r V by auto
    then show ?thesis unfolding N arr by (simp add: edges_to_def sum.union_disjoint)
  qed
  have "(b \<in> set (fst st') \<longleftrightarrow> 1 \<le> edges_to db (insert r xs \<union> (snd st' - R)) b \<and> (\<not> initial_group db b \<or> b \<in> R) \<or>
      2 \<le> edges_to db (insert r xs \<union> (snd st' - R)) b) \<and>
    (b \<in> snd st' \<longleftrightarrow> b \<in> R \<or> initial_group db b \<and> 1 \<le> edges_to db (insert r xs \<union> (snd st' - R)) b)" for b
    by (rule queue_counts_step [OF _ walk_arrivals [OF w items] sum])
      (use inv in \<open>simp add: queue_counts_def\<close>)
  then show ?thesis unfolding queue_counts_def by blast
qed

definition queue_invariant :: "chunk_group_by_ukey \<Rightarrow> chunk_group_ukey set \<Rightarrow> chunk_group_ukey set \<Rightarrow>
    chunk_group_ukey list \<times> chunk_group_ukey set \<Rightarrow> bool" where
  "queue_invariant db R done st \<longleftrightarrow>
    R \<subseteq> snd st \<and> snd st \<subseteq> initial_frontier db R \<and> set (fst st) \<subseteq> children_of db (initial_frontier db R) \<and>
    (\<forall>a \<in> done \<union> (snd st - R). \<forall>b. (a, b) \<in> child_edges any_group db \<longrightarrow>
       (if initial_group db b then b \<in> snd st else b \<in> set (fst st)))"

lemma walk_initial_frontier:
  assumes known: "groups_known db (group_reach any_group db R)" and sub: "N \<subseteq> initial_frontier db R"
  shows "(walk_edges (initial_group db) (queue_node db))\<^sup>* `` N \<subseteq> initial_frontier db R"
proof
  fix k assume "k \<in> (walk_edges (initial_group db) (queue_node db))\<^sup>* `` N"
  then obtain n where "(n, k) \<in> (walk_edges (initial_group db) (queue_node db))\<^sup>*" "n \<in> N" by blast
  then show "k \<in> initial_frontier db R"
  proof (induction rule: rtrancl_induct)
    case base
    then show ?case using sub by blast
  next
    case (step y z)
    then have y: "y \<in> initial_frontier db R" by simp
    obtain cs where "queue_node db y = Some ([], cs)" "set cs = {j. (y, j) \<in> child_edges any_group db}"
      using queue_node_known [OF known] y initial_frontier_reach by blast
    then have "(y, z) \<in> initial_edges db"
      using step(2) by (auto simp: walk_edges_def succs_of_def initial_edges_def)
    then show ?case using y initial_frontier_step by blast
  qed
qed

lemma add_to_queue_invariant:
  assumes known: "groups_known db (group_reach any_group db R)" and r: "r \<in> R"
    and inv: "queue_invariant db R done st"
  shows "\<exists>st'. add_to_queue db r st = Some st' \<and> queue_invariant db R (insert r done) st'"
proof -
  let ?ok = "initial_group db" and ?nd = "queue_node db" and ?skip = "\<lambda>c::chunk_group_ukey. [c]"
  let ?F = "initial_frontier db R"
  have rF: "r \<in> ?F" using r initial_frontier_root by blast
  have node: "\<exists>cs. ?nd k = Some ([], cs) \<and> set cs = {j. (k, j) \<in> child_edges any_group db}" if "k \<in> ?F" for k
    using queue_node_known [OF known] that initial_frontier_reach by blast
  obtain cs where cs: "?nd r = Some ([], cs)" "set cs = {j. (r, j) \<in> child_edges any_group db}"
    using node [OF rF] by blast
  have csF: "{c \<in> set cs. ?ok c} \<subseteq> ?F"
    using cs(2) initial_frontier_step [OF rF] by (auto simp: initial_edges_def)
  note sub = walk_initial_frontier [OF known csF]
  have "?nd n \<noteq> None" if "n \<in> (walk_edges ?ok ?nd)\<^sup>* `` {c \<in> set cs. ?ok c}" for n
    using sub that node by blast
  then obtain st' where w: "walk ?ok ?nd ?skip cs st = Some st'" using walk_total by blast
  have "snd st \<subseteq> ?F" using inv by (simp add: queue_invariant_def)
  then have V: "snd st \<subseteq> snd st'" "snd st' \<subseteq> ?F"
    using walk_grows [OF w] order_trans [OF walk_sound [OF w] Un_least [OF _ sub]] by simp_all
  have q: "set (fst st) \<subseteq> set (fst st')" using walk_out_grows [OF w] .
  have succs: "succs_of ?nd k = {j. (k, j) \<in> child_edges any_group db}" "items_of ?nd k = {}" if "k \<in> ?F" for k
    using node [OF that] by (auto simp: succs_of_def items_of_def)
  have kids: "set (?skip b) \<subseteq> children_of db ?F" if "k \<in> ?F" "b \<in> succs_of ?nd k" for k b
    using that succs by (auto simp: children_of_def)
  have "set (fst st') \<subseteq> children_of db ?F"
  proof (rule walk_out_sound [OF w])
    show "set (fst st) \<subseteq> children_of db ?F" using inv by (simp add: queue_invariant_def)
    show "set (?skip c) \<subseteq> children_of db ?F" if "c \<in> set cs" for c
      using that cs(2) rF by (auto simp: children_of_def)
    show "items_of ?nd n \<subseteq> children_of db ?F" if "n \<in> snd st' - snd st" for n
      using that V succs(2) by blast
    show "set (?skip b) \<subseteq> children_of db ?F" if "n \<in> snd st' - snd st" "b \<in> succs_of ?nd n" for n b
      using that V kids by blast
  qed
  moreover have "if ?ok b then b \<in> snd st' else b \<in> set (fst st')"
    if ab: "a \<in> insert r done \<union> (snd st' - R)" "(a, b) \<in> child_edges any_group db" for a b
  proof -
    consider "a = r" | "a \<in> done \<union> (snd st - R)" | "a \<in> snd st' - snd st" using ab(1) by blast
    then show ?thesis
    proof cases
      case 1
      then show ?thesis using walk_complete [OF w] cs(2) ab(2) by auto
    next
      case 2
      then have "if ?ok b then b \<in> snd st else b \<in> set (fst st)"
        using inv ab(2) unfolding queue_invariant_def by blast
      then show ?thesis using V q by (auto split: if_splits)
    next
      case 3
      moreover have "b \<in> succs_of ?nd a" using 3 V succs(1) ab(2) by blast
      ultimately have "if ?ok b then b \<in> snd st' else set (?skip b) \<subseteq> set (fst st')"
        using conjunct2 [OF walk_complete [OF w]] unfolding walk_closed_def by blast
      then show ?thesis by (simp split: if_splits)
    qed
  qed
  ultimately have "queue_invariant db R (insert r done) st'"
    using inv V unfolding queue_invariant_def by blast
  then show ?thesis using cs(1) w by (simp add: add_to_queue_def)
qed

lemma initial_queue_spec:
  assumes known: "groups_known db (group_reach any_group db R)" and gs: "set gs = R" "distinct gs"
  shows "\<exists>q V. for_each (add_to_queue db) gs ([], R) = Some (q, V) \<and>
    set q = {b \<in> children_of db (initial_frontier db R).
      \<not> initial_group db b \<or> b \<in> R \<or> 2 \<le> edges_to db (initial_frontier db R) b}"
proof -
  have "\<exists>st. for_each (add_to_queue db) xs ([], R) = Some st \<and> queue_invariant db R (set xs) st \<and>
      queue_counts db R (set xs) st" if "set xs \<subseteq> R" "distinct xs" for xs
    using that
  proof (induction xs rule: rev_induct)
    case Nil
    then show ?case using initial_frontier_root by (auto simp: queue_invariant_def queue_counts_def edges_to_def)
  next
    case (snoc x xs)
    then obtain st where st: "for_each (add_to_queue db) xs ([], R) = Some st" "queue_invariant db R (set xs) st"
      "queue_counts db R (set xs) st"
      by auto
    have x: "x \<in> R" "x \<notin> set xs" "set xs \<subseteq> R" using snoc.prems by simp_all
    from add_to_queue_invariant [OF known x(1) st(2)]
    obtain st' where st': "add_to_queue db x st = Some st'" "queue_invariant db R (insert x (set xs)) st'"
      by blast
    have "R \<subseteq> snd st" "snd st' \<subseteq> initial_frontier db R" using st(2) st'(2) by (simp_all add: queue_invariant_def)
    from add_to_queue_counts [OF known x this st'(1) st(3)]
    show ?case using st(1) st' by (simp add: for_each_append)
  qed
  from this [of gs] obtain q V where qV: "for_each (add_to_queue db) gs ([], R) = Some (q, V)"
    and inv: "queue_invariant db R R (q, V)" and counts: "queue_counts db R R (q, V)"
    using gs by auto
  have RV: "R \<subseteq> V" and cl: "\<forall>a \<in> V. \<forall>b. (a, b) \<in> child_edges any_group db \<longrightarrow>
      (if initial_group db b then b \<in> V else b \<in> set q)"
    using inv unfolding queue_invariant_def fst_conv snd_conv by blast+
  have closed: "if initial_group db b then b \<in> V else b \<in> set q"
    if "a \<in> V" "(a, b) \<in> child_edges any_group db" for a b
    using cl that by blast
  have "k \<in> V" if "(r, k) \<in> (initial_edges db)\<^sup>*" "r \<in> R" for r k
    using that
  proof (induction rule: rtrancl_induct)
    case base
    then show ?case using RV by blast
  next
    case (step y z)
    then show ?case using closed [of y z] by (auto simp: initial_edges_def)
  qed
  then have "initial_frontier db R \<subseteq> V" by (auto simp: initial_frontier_def)
  moreover have "V \<subseteq> initial_frontier db R" using inv by (simp add: queue_invariant_def)
  ultimately have "R \<union> (V - R) = initial_frontier db R" using RV by auto
  then have "b \<in> set q \<longleftrightarrow> 1 \<le> edges_to db (initial_frontier db R) b \<and> (\<not> initial_group db b \<or> b \<in> R) \<or>
      2 \<le> edges_to db (initial_frontier db R) b" for b
    using counts by (simp add: queue_counts_def)
  then have "b \<in> set q \<longleftrightarrow> 1 \<le> edges_to db (initial_frontier db R) b \<and>
      (\<not> initial_group db b \<or> b \<in> R \<or> 2 \<le> edges_to db (initial_frontier db R) b)" for b
    by (meson one_le_numeral order_trans)
  then show ?thesis using qV unfolding edges_to_pos by blast
qed

definition chunks_below :: "chunk_group_by_ukey \<Rightarrow> chunk_group_ukey set \<Rightarrow> chunk_ukey set" where
  "chunks_below db N = chunks_of_groups any_group db (group_reach any_group db N)"

lemma chunks_below_mono: "N \<subseteq> M \<Longrightarrow> chunks_below db N \<subseteq> chunks_below db M"
  using group_reach_mono [of N M any_group db] unfolding chunks_below_def chunks_of_groups_def by blast

lemma get_all_async_chunks_spec:
  assumes "hash_order ord" "groups_known db (group_reach any_group db (c_groups c))"
  shows "\<exists>out. get_all_async_chunks ord db c = Some out \<and> distinct out \<and>
    set out = chunks_below db {b \<in> children_of db (initial_frontier db (c_groups c)).
        \<not> initial_group db b \<or> b \<in> c_groups c \<or> 2 \<le> edges_to db (initial_frontier db (c_groups c)) b}
      - common_set db (c_groups c)"
proof -
  let ?I = "common_set db (c_groups c)"
  note known = groups_known_subset [OF assms(2)]
  obtain gs where gs: "get_sorted_groups ord db c = Some gs" "set gs = c_groups c" "distinct gs"
    using sorted_groups_known [OF assms(1) known] by blast
  from initial_queue_spec [OF assms(2) gs(2,3)]
  obtain q V where q: "for_each (add_to_queue db) gs ([], c_groups c) = Some (q, V)"
    "set q = {b \<in> children_of db (initial_frontier db (c_groups c)).
        \<not> initial_group db b \<or> b \<in> c_groups c \<or> 2 \<le> edges_to db (initial_frontier db (c_groups c)) b}"
    by blast
  have "async_node db ?I n \<noteq> None" for n by (auto simp: async_node_def split: option.splits)
  then obtain out vis where w: "walk_roots (async_node db ?I) False q = Some (out, vis)"
    using walk_roots_total [of "async_node db ?I" q False] by fastforce
  have "items_of (async_node db ?I) n = {x. \<exists>g. db n = Some g \<and> x \<in> set (cg_chunks g) \<and> x \<notin> ?I}" for n
    by (auto simp: items_of_def async_node_def split: option.splits)
  then have "set out = chunks_below db (set q) - ?I"
    using walk_roots_set [OF w] by (auto simp: node_reach chunks_below_def chunks_of_groups_def)
  moreover have "get_all_async_chunks ord db c = Some out"
    using common_chunks_spec [OF assms(1) known] gs q(1) w by (simp add: get_all_async_chunks_def)
  ultimately show ?thesis using walk_roots_distinct [OF w] q(2) by auto
qed

lemma frontier_children_below:
  "chunks_below db (children_of db (initial_frontier db R)) \<subseteq> chunks_below db R"
proof -
  have "children_of db (initial_frontier db R) \<subseteq> group_reach any_group db R"
    using initial_frontier_reach group_reach_step unfolding children_of_def by blast
  then have "group_reach any_group db (children_of db (initial_frontier db R)) \<subseteq> group_reach any_group db R"
    by (rule group_reach_reach)
  then show ?thesis unfolding chunks_below_def chunks_of_groups_def by blast
qed

subsection \<open>Splitting and disconnecting\<close>

text \<open>What \<open>Chunk::split\<close> relies on: the groups of the chunk are known and hold it once.\<close>

definition in_its_groups :: "chunk_group_by_ukey \<Rightarrow> chunk \<Rightarrow> bool" where
  "in_its_groups db c \<longleftrightarrow>
    (\<forall>k \<in> c_groups c. \<exists>g. db k = Some g \<and> distinct (cg_chunks g) \<and> c_ukey c \<in> set (cg_chunks g))"

lemma in_its_groups_known: "in_its_groups db c \<Longrightarrow> groups_known db (c_groups c)"
  unfolding in_its_groups_def groups_known_def by fastforce

lemma split_loop:
  assumes "distinct ks" "\<forall>k \<in> set ks. \<exists>g b g'. db k = Some g \<and> insert_chunk new old g = Some (b, g')"
  shows "\<exists>db'. for_each (split_step new old) ks (db, d) = Some (db', d\<lparr>csd_groups := csd_groups d \<union> set ks\<rparr>) \<and>
     (\<forall>k. if k \<in> set ks then \<exists>g b g'. db k = Some g \<and> insert_chunk new old g = Some (b, g') \<and> db' k = Some g'
          else db' k = db k)"
  using assms
proof (induction ks arbitrary: db d)
  case (Cons k ks)
  then obtain g b g' where g: "db k = Some g" "insert_chunk new old g = Some (b, g')" by auto
  let ?db = "db(k \<mapsto> g')" and ?d = "d\<lparr>csd_groups := insert k (csd_groups d)\<rparr>"
  have "\<forall>j \<in> set ks. \<exists>g b g''. ?db j = Some g \<and> insert_chunk new old g = Some (b, g'')"
    using Cons.prems by auto
  from Cons.IH [OF _ this, of ?d] Cons.prems(1)
  obtain db' where db': "for_each (split_step new old) ks (?db, ?d) = Some (db', ?d\<lparr>csd_groups := csd_groups ?d \<union> set ks\<rparr>)"
    "\<forall>j. if j \<in> set ks then \<exists>g b g''. ?db j = Some g \<and> insert_chunk new old g = Some (b, g'') \<and> db' j = Some g''
          else db' j = ?db j"
    by (metis distinct.simps(2))
  have "if j \<in> set (k # ks) then \<exists>g b g''. db j = Some g \<and> insert_chunk new old g = Some (b, g'') \<and> db' j = Some g''
          else db' j = db j" for j
    using spec [OF db'(2), of j] g Cons.prems(1) by (cases "j = k") auto
  moreover have "for_each (split_step new old) (k # ks) (db, d) = Some (db', d\<lparr>csd_groups := csd_groups d \<union> set (k # ks)\<rparr>)"
    using db'(1) g by (simp add: split_step_def)
  ultimately show ?case by blast
qed simp

definition holds_before :: "chunk_ukey \<Rightarrow> chunk_ukey \<Rightarrow> chunk_group \<Rightarrow> bool" where
  "holds_before a b g \<longleftrightarrow> (\<exists>i j. position a (cg_chunks g) = Some i \<and> position b (cg_chunks g) = Some j \<and> i < j)"

lemma split_spec:
  assumes "hash_order ord" "hash_order rord" "in_its_groups db self" "c_ukey new \<noteq> c_ukey self"
    and "runtime_inv (c_runtime new)" "runtime_inv (c_runtime self)"
  shows "\<exists>new' db'. chunk_split ord rord self new db = Some (new', db') \<and>
    c_groups new' = c_groups new \<union> c_groups self \<and>
    c_id_name_hints new' = c_id_name_hints new \<union> c_id_name_hints self \<and>
    runtime_inv (c_runtime new') \<and> rs_inner (c_runtime new') = rs_inner (c_runtime new) \<union> rs_inner (c_runtime self) \<and>
    (\<forall>k. k \<notin> c_groups self \<longrightarrow> db' k = db k) \<and>
    (\<forall>k \<in> c_groups self. \<exists>g g'. db k = Some g \<and> db' k = Some g' \<and> distinct (cg_chunks g') \<and>
       set (cg_chunks g') = insert (c_ukey new) (set (cg_chunks g)) \<and> holds_before (c_ukey new) (c_ukey self) g')"
proof -
  obtain gs where gs: "get_sorted_groups ord db self = Some gs" "set gs = c_groups self" "distinct gs"
    using sorted_groups_known [OF assms(1) in_its_groups_known [OF assms(3)]] by blast
  have ins: "\<exists>g g'. db k = Some g \<and> insert_chunk (c_ukey new) (c_ukey self) g = Some (c_ukey new \<notin> set (cg_chunks g), g') \<and>
      distinct (cg_chunks g') \<and> set (cg_chunks g') = insert (c_ukey new) (set (cg_chunks g)) \<and>
      holds_before (c_ukey new) (c_ukey self) g'" if "k \<in> c_groups self" for k
  proof -
    obtain g where g: "db k = Some g" "distinct (cg_chunks g)" "c_ukey self \<in> set (cg_chunks g)"
      using assms(3) \<open>k \<in> c_groups self\<close> by (auto simp: in_its_groups_def)
    show ?thesis
    proof (cases "c_ukey new \<in> set (cg_chunks g)")
      case True
      then show ?thesis using g(1) insert_chunk_present [OF g(2) True g(3)] assms(4)
        by (auto simp: holds_before_def insert_absorb)
    next
      case False
      then show ?thesis using g(1) insert_chunk_absent [OF g(2) False g(3)] by (auto simp: holds_before_def)
    qed
  qed
  then have "\<forall>k \<in> set gs. \<exists>g b g'. db k = Some g \<and> insert_chunk (c_ukey new) (c_ukey self) g = Some (b, g')"
    using gs(2) by blast
  from split_loop [OF gs(3) this, of split_data_new]
  obtain db' where db': "for_each (split_step (c_ukey new) (c_ukey self)) gs (db, split_data_new) =
      Some (db', split_data_new\<lparr>csd_groups := c_groups self\<rparr>)"
    and upd: "\<And>k. if k \<in> set gs then \<exists>g b g'. db k = Some g \<and> insert_chunk (c_ukey new) (c_ukey self) g = Some (b, g') \<and> db' k = Some g'
          else db' k = db k"
    by (auto simp: split_data_new_def gs(2))
  define d where "d = split_add_runtime rord (c_runtime self)
    (split_data_new\<lparr>csd_groups := c_groups self, csd_id_name_hints := c_id_name_hints self\<rparr>)"
  have split: "chunk_split ord rord self new db = Some (split_apply_to rord d new, db')"
    using gs(1) db' by (simp add: chunk_split_def split_collect_new_chunk_data_def d_def Let_def split_data_new_def)
  have "set (csd_runtimes d) = rs_inner (c_runtime self)"
    using hash_orderD(2) [OF assms(2)] assms(6)
    by (simp add: d_def split_add_runtime_def split_data_new_def runtime_inv_def)
  moreover have "csd_groups d = c_groups self" "csd_id_name_hints d = c_id_name_hints self"
    by (simp_all add: d_def split_add_runtime_def)
  moreover have "\<exists>g g'. db k = Some g \<and> db' k = Some g' \<and> distinct (cg_chunks g') \<and>
       set (cg_chunks g') = insert (c_ukey new) (set (cg_chunks g)) \<and> holds_before (c_ukey new) (c_ukey self) g'"
    if "k \<in> c_groups self" for k
    using ins [OF that] upd [of k] that gs(2) by auto
  moreover have "db' k = db k" if "k \<notin> c_groups self" for k using upd [of k] that gs(2) by simp
  ultimately show ?thesis
    using split split_apply_to_runtime [OF assms(2,5), of d] by (intro exI [of _ "split_apply_to rord d new"] exI [of _ db']) simp
qed

lemma disconnect_loop:
  assumes "distinct ks" "groups_known db (set ks)"
  shows "for_each (\<lambda>k. expect_modify k f) ks db =
    Some (\<lambda>k. if k \<in> set ks then map_option f (db k) else db k)"
  using assms
proof (induction ks arbitrary: db)
  case (Cons k ks)
  then obtain g where g: "db k = Some g" by (auto simp: groups_known_def)
  have known: "groups_known (db(k \<mapsto> f g)) (set ks)" using Cons.prems by (auto simp: groups_known_def)
  have "for_each (\<lambda>k. expect_modify k f) ks (db(k \<mapsto> f g)) =
      Some (\<lambda>j. if j \<in> set ks then map_option f ((db(k \<mapsto> f g)) j) else (db(k \<mapsto> f g)) j)"
    using Cons.prems(1) by (intro Cons.IH [OF _ known]) simp
  moreover have "expect_modify k f db = Some (db(k \<mapsto> f g))" using g by (simp add: expect_modify_def)
  ultimately have "for_each (\<lambda>k. expect_modify k f) (k # ks) db =
      Some (\<lambda>j. if j \<in> set ks then map_option f ((db(k \<mapsto> f g)) j) else (db(k \<mapsto> f g)) j)"
    by (simp only: for_each.simps bind.bind_lunit)
  also have "(\<lambda>j. if j \<in> set ks then map_option f ((db(k \<mapsto> f g)) j) else (db(k \<mapsto> f g)) j) =
      (\<lambda>j. if j \<in> set (k # ks) then map_option f (db j) else db j)"
    using Cons.prems(1) g by (intro ext) auto
  finally show ?case .
qed simp

lemma disconnect_spec:
  assumes "hash_order ord" "groups_known db (c_groups self)"
  shows "disconnect_from_groups ord self db = Some (self\<lparr>c_groups := {}\<rparr>,
    (\<lambda>k. if k \<in> c_groups self then map_option (\<lambda>g. snd (remove_chunk (c_ukey self) g)) (db k) else db k))"
  using disconnect_loop [of "ord (c_groups self)" db] hash_orderD [OF assms(1), of "c_groups self"] assms(2)
  by (simp add: disconnect_from_groups_def)

section \<open>Properties\<close>

definition sample_chunk :: "chunk_ukey \<Rightarrow> chunk_group_ukey set \<Rightarrow> chunk" where
  "sample_chunk k gs = (chunk_new k None NormalChunk)\<lparr>c_groups := gs\<rparr>"

lemma nothing_below [simp]: "group_reach P db {} = {}" "chunks_of_groups P db {} = {}"
  by (simp_all add: group_reach_def chunks_of_groups_def)

lemma sample_reach:
  "group_reach P [k \<mapsto> sample_group k cs] {k} = {k}"
proof -
  have "child_edges P [k \<mapsto> sample_group k cs] = {}"
    by (auto simp: child_edges_def sample_group_def chunk_group_new_def)
  then show ?thesis by (simp add: group_reach_def)
qed

text \<open>
  C10. The reachability queries return, without panicking and for every hash order, exactly the chunks
  (asynchronous entrypoints) of the groups reachable from the chunk's groups through child links, each once:
  \<open>get_all_referenced_chunks\<close> over all groups, \<open>get_all_initial_chunks\<close> over initial groups reached through
  initial groups.  They terminate on cyclic group graphs.
\<close>

theorem reachability_queries_correct:
  assumes "hash_order ord" "groups_known db (group_reach any_group db (c_groups c))"
  shows "(\<exists>out. get_all_referenced_chunks ord db c = Some out \<and> distinct out \<and>
      set out = chunks_of_groups any_group db (group_reach any_group db (c_groups c))) \<and>
    (\<exists>out. get_all_initial_chunks ord db c = Some out \<and> distinct out \<and>
      set out = chunks_of_groups is_initial db (group_reach is_initial db (c_groups c))) \<and>
    (\<exists>out. get_all_referenced_async_entrypoints ord db c = Some out \<and> distinct out \<and>
      set out = {e. \<exists>k \<in> group_reach any_group db (c_groups c). \<exists>g. db k = Some g \<and> e \<in> cg_async_entrypoints g})"
proof -
  have "groups_known db (group_reach is_initial db (c_groups c))"
    using assms(2) group_reach_is_initial_subset unfolding groups_known_def by blast
  then show ?thesis
    using referenced_chunks_spec [OF assms] initial_chunks_spec [OF assms(1)] async_entrypoints_spec [OF assms]
    by blast
qed

theorem reachability_queries_correct_witness:
  "\<exists>out. get_all_referenced_chunks sorted_list_of_set [0 \<mapsto> sample_group 0 [5, 6]] (sample_chunk 5 {0}) = Some out \<and>
    set out = {5, 6}"
proof -
  have r: "group_reach any_group [0 \<mapsto> sample_group 0 [5, 6]] {0} = {0}" by (rule sample_reach)
  have "chunks_of_groups any_group [0 \<mapsto> sample_group 0 [5, 6]] {0} = {5, 6}"
    by (auto simp: chunks_of_groups_def sample_group_def)
  then show ?thesis
    using reachability_queries_correct [of sorted_list_of_set "[0 \<mapsto> sample_group 0 [5, 6]]" "sample_chunk 5 {0}"]
    by (auto simp: sample_chunk_def r groups_known_def)
qed

text \<open>
  C11. Asynchronous chunks: \<open>has_async_chunks\<close> holds exactly when a group below the chunk's groups holds a chunk that is
  not common to all of them; \<open>get_all_async_chunks\<close> returns, each once, exactly the chunks that are not common to all
  of them and lie below a queued group.  A group is queued when it is a child of the initial part of
  the group graph (the chunk's groups and the groups reached from them through initial children) and
  is not initial, or is one of the chunk's groups, or is reached by two links of that part.
\<close>

theorem async_chunks_correct:
  assumes "hash_order ord" "groups_known db (group_reach any_group db (c_groups c))"
  shows "has_async_chunks ord db c =
      Some (chunks_below db (children_of db (c_groups c)) - common_set db (c_groups c) \<noteq> {}) \<and>
    (\<exists>out. get_all_async_chunks ord db c = Some out \<and> distinct out \<and>
      set out = chunks_below db {b \<in> children_of db (initial_frontier db (c_groups c)).
          \<not> initial_group db b \<or> b \<in> c_groups c \<or> 2 \<le> edges_to db (initial_frontier db (c_groups c)) b}
        - common_set db (c_groups c))"
  using has_async_chunks_spec [OF assms] get_all_async_chunks_spec [OF assms] by (simp add: chunks_below_def)

theorem async_chunks_correct_witness:
  "has_async_chunks sorted_list_of_set [0 \<mapsto> sample_group 0 [5]] (sample_chunk 5 {0}) = Some False"
proof -
  have r: "group_reach any_group [0 \<mapsto> sample_group 0 [5]] {0} = {0}" by (rule sample_reach)
  have "children_of [0 \<mapsto> sample_group 0 [5]] {0} = {}"
    by (auto simp: children_of_def child_edges_def sample_group_def chunk_group_new_def)
  then show ?thesis
    using async_chunks_correct [of sorted_list_of_set "[0 \<mapsto> sample_group 0 [5]]" "sample_chunk 5 {0}"]
    by (simp add: sample_chunk_def r groups_known_def chunks_below_def)
qed

text \<open>
  C12. Splitting a chunk keeps the chunk graph consistent: it does not panic, the new chunk joins exactly the groups of
  the old one in addition to its own, stands before the old one in each of them, every other group
  is unchanged, and it takes over the id hints and the runtime (with a correct cached key).
\<close>

theorem chunk_split_correct:
  assumes "hash_order ord" "hash_order rord" "in_its_groups db self" "c_ukey new \<noteq> c_ukey self"
    and "runtime_inv (c_runtime new)" "runtime_inv (c_runtime self)"
  shows "\<exists>new' db'. chunk_split ord rord self new db = Some (new', db') \<and>
    c_groups new' = c_groups new \<union> c_groups self \<and>
    c_id_name_hints new' = c_id_name_hints new \<union> c_id_name_hints self \<and>
    runtime_inv (c_runtime new') \<and> rs_inner (c_runtime new') = rs_inner (c_runtime new) \<union> rs_inner (c_runtime self) \<and>
    (\<forall>k. k \<notin> c_groups self \<longrightarrow> db' k = db k) \<and>
    (\<forall>k \<in> c_groups self. \<exists>g g'. db k = Some g \<and> db' k = Some g' \<and> distinct (cg_chunks g') \<and>
       set (cg_chunks g') = insert (c_ukey new) (set (cg_chunks g)) \<and> holds_before (c_ukey new) (c_ukey self) g')"
  using split_spec [OF assms] .

theorem chunk_split_correct_witness:
  "\<exists>new' db'. chunk_split sorted_list_of_set sorted_list_of_set (sample_chunk 5 {0}) (sample_chunk 9 {})
      [0 \<mapsto> sample_group 0 [5]] = Some (new', db') \<and> c_groups new' = {0}"
  using chunk_split_correct [of sorted_list_of_set sorted_list_of_set "[0 \<mapsto> sample_group 0 [5]]"
      "sample_chunk 5 {0}" "sample_chunk 9 {}"]
  by (auto simp: sample_chunk_def chunk_new_def in_its_groups_def sample_group_def)

text \<open>
  Disconnecting a chunk removes it from every group it was in (when those hold it once), leaves every other
  group and every other field of the groups alone, and clears its own group set.
\<close>

theorem disconnect_from_groups_correct:
  assumes "hash_order ord" "in_its_groups db self"
  shows "\<exists>db'. disconnect_from_groups ord self db = Some (self\<lparr>c_groups := {}\<rparr>, db') \<and>
    (\<forall>k. k \<notin> c_groups self \<longrightarrow> db' k = db k) \<and>
    (\<forall>k \<in> c_groups self. \<exists>g g'. db k = Some g \<and> db' k = Some g' \<and> distinct (cg_chunks g') \<and>
       set (cg_chunks g') = set (cg_chunks g) - {c_ukey self} \<and>
       cg_children g' = cg_children g \<and> cg_parents g' = cg_parents g \<and> cg_kind g' = cg_kind g)"
  using disconnect_spec [OF assms(1) in_its_groups_known [OF assms(2)]] assms(2)
  by (fastforce simp: in_its_groups_def remove_chunk_spec set_remove1_eq)

theorem disconnect_from_groups_correct_witness:
  "\<exists>db'. disconnect_from_groups sorted_list_of_set (sample_chunk 5 {0}) [0 \<mapsto> sample_group 0 [5, 6]] =
    Some ((sample_chunk 5 {0})\<lparr>c_groups := {}\<rparr>, db')"
  using disconnect_from_groups_correct [of sorted_list_of_set "[0 \<mapsto> sample_group 0 [5, 6]]" "sample_chunk 5 {0}"]
  by (auto simp: sample_chunk_def chunk_new_def in_its_groups_def sample_group_def)

text \<open>
  Where two initial groups share an initial child (entries with a diamond of \<open>dependOn\<close>), the second visit of the
  child puts it on the asynchronous queue: \<open>get_all_async_chunks\<close> then returns a chunk that
  \<open>get_all_initial_chunks\<close> returns as well.
\<close>

definition diamond :: chunk_group_by_ukey where
  "diamond = [0 \<mapsto> (sample_group 0 [10])\<lparr>cg_children := [1, 2]\<rparr>, 1 \<mapsto> (sample_group 1 [11])\<lparr>cg_children := [3]\<rparr>,
    2 \<mapsto> (sample_group 2 [12])\<lparr>cg_children := [3]\<rparr>, 3 \<mapsto> sample_group 3 [13]]"

lemmas diamond_simps = get_all_async_chunks_def get_all_initial_chunks_def get_sorted_groups_def sort_group_by_index_def
  sort_by_checked_def common_chunks_def diamond_def sample_group_def sample_chunk_def add_to_queue_def
  queue_node_def initial_group_def is_initial_def chunk_group_new_def index_insert_def index_extend_def
  sort_by_def group_index_def walk_roots_def visit_def async_node_def initial_node_def

theorem initial_diamond_reported_async:
  "get_all_async_chunks sorted_list_of_set diamond (sample_chunk 10 {0}) = Some [13] \<and>
   get_all_initial_chunks sorted_list_of_set diamond (sample_chunk 10 {0}) = Some [10, 11, 13, 12]"
  by (simp add: diamond_simps)

end
