(* ===== verification/Chunk_Graph.thy ===== *)
theory Chunk_Graph
  imports Chunk_Queries
begin

text \<open>
  \<open>crates/rspack_core/src/chunk_graph\<close>: the bidirectional graph between chunks and modules
  (\<open>ChunkGraph\<close>, \<open>ChunkGraphChunk\<close>, \<open>ChunkGraphModule\<close>) with its connect, disconnect, replace and integrate
  operations.

  The module graph is read through \<open>module_by_identifier\<close>; a module is the record of what the graph asks of it
  (identifier, source types, size).  Sizes are values of a type parameter with the operations of \<open>f64\<close>
  and no law.
\<close>

section \<open>Data\<close>

datatype source_type = JavaScript | Css | AssetUrl | Wasm | Asset | Expose | Remote | ShareInit
  | ConsumeShared | ShareContainerShared | CustomType ustr | UnknownType | CssImport | RuntimeType

record 'f module_info =
  mi_identifier :: module_identifier
  mi_source_types :: "source_type list"
  mi_size :: "source_type \<Rightarrow> 'f"

type_synonym 'f module_graph = "module_identifier \<rightharpoonup> 'f module_info"

text \<open>
  \<open>hashlink::LinkedHashMap\<close>: an association list in insertion order; inserting an existing key moves it to the back.
\<close>

type_synonym ('k, 'v) linked_map = "('k \<times> 'v) list"

definition lm_insert :: "'k \<Rightarrow> 'v \<Rightarrow> ('k, 'v) linked_map \<Rightarrow> ('k, 'v) linked_map" where
  "lm_insert k v xs = filter (\<lambda>p. fst p \<noteq> k) xs @ [(k, v)]"

definition lm_remove :: "'k \<Rightarrow> ('k, 'v) linked_map \<Rightarrow> ('k, 'v) linked_map" where
  "lm_remove k xs = filter (\<lambda>p. fst p \<noteq> k) xs"

definition lm_keys :: "('k, 'v) linked_map \<Rightarrow> 'k list" where
  "lm_keys xs = map fst xs"

lemma lm_keys_simps [simp]:
  "lm_keys [] = []"
  "set (lm_keys (lm_insert k v xs)) = insert k (set (lm_keys xs))"
  "set (lm_keys (lm_remove k xs)) = set (lm_keys xs) - {k}"
  by (auto simp: lm_keys_def lm_insert_def lm_remove_def)

lemma lm_map_of:
  "map_of (lm_insert k v xs) = (map_of xs)(k \<mapsto> v)" "map_of (lm_remove k xs) = (map_of xs)(k := None)"
proof -
  have f: "map_of (filter (\<lambda>p. fst p \<noteq> k) xs) j = (if j = k then None else map_of xs j)" for j
    by (induction xs) auto
  show "map_of (lm_insert k v xs) = (map_of xs)(k \<mapsto> v)"
    by (rule ext) (auto simp: lm_insert_def map_add_def f split: option.splits)
  show "map_of (lm_remove k xs) = (map_of xs)(k := None)"
    by (rule ext) (simp add: lm_remove_def f)
qed

record chunk_graph_chunk =
  cgc_entry_modules :: "(module_identifier, chunk_group_ukey) linked_map"
  cgc_modules :: "module_identifier set"
  cgc_runtime_modules :: "module_identifier list"
  cgc_source_types_by_module :: "(module_identifier \<rightharpoonup> source_type set) option"

record chunk_graph_module =
  cgm_entry_in_chunks :: "chunk_ukey set"
  cgm_chunks :: "chunk_ukey set"
  cgm_runtime_in_chunks :: "chunk_ukey set"

record chunk_graph =
  gr_blocks :: "string \<rightharpoonup> chunk_group_ukey"
  gr_modules :: "module_identifier \<rightharpoonup> chunk_graph_module"
  gr_chunks :: "chunk_ukey \<rightharpoonup> chunk_graph_chunk"
  gr_runtime_ids :: "string \<rightharpoonup> string option"

definition cgc_new :: chunk_graph_chunk where
  "cgc_new = \<lparr>cgc_entry_modules = [], cgc_modules = {}, cgc_runtime_modules = [], cgc_source_types_by_module = None\<rparr>"

definition cgm_new :: chunk_graph_module where
  "cgm_new = \<lparr>cgm_entry_in_chunks = {}, cgm_chunks = {}, cgm_runtime_in_chunks = {}\<rparr>"

definition chunk_graph_new :: chunk_graph where
  "chunk_graph_new = \<lparr>gr_blocks = Map.empty, gr_modules = Map.empty, gr_chunks = Map.empty, gr_runtime_ids = Map.empty\<rparr>"

type_synonym chunk_order = "chunk_ukey set \<Rightarrow> chunk_ukey list"
type_synonym module_order = "module_identifier set \<Rightarrow> module_identifier list"

section \<open>Access\<close>

definition modify_cgc :: "chunk_ukey \<Rightarrow> (chunk_graph_chunk \<Rightarrow> chunk_graph_chunk) \<Rightarrow> chunk_graph \<Rightarrow> chunk_graph option" where
  "modify_cgc c f g = map_option (\<lambda>m. g\<lparr>gr_chunks := m\<rparr>) (expect_modify c f (gr_chunks g))"

definition modify_cgm :: "module_identifier \<Rightarrow> (chunk_graph_module \<Rightarrow> chunk_graph_module) \<Rightarrow> chunk_graph \<Rightarrow> chunk_graph option" where
  "modify_cgm m f g = map_option (\<lambda>ms. g\<lparr>gr_modules := ms\<rparr>) (expect_modify m f (gr_modules g))"

definition add_chunk :: "chunk_ukey \<Rightarrow> chunk_graph \<Rightarrow> chunk_graph" where
  "add_chunk c g = g\<lparr>gr_chunks := or_insert c cgc_new (gr_chunks g)\<rparr>"

definition add_module :: "module_identifier \<Rightarrow> chunk_graph \<Rightarrow> chunk_graph" where
  "add_module m g = g\<lparr>gr_modules := or_insert m cgm_new (gr_modules g)\<rparr>"

definition graph_remove_chunk :: "chunk_ukey \<Rightarrow> chunk_graph \<Rightarrow> chunk_graph_chunk option \<times> chunk_graph" where
  "graph_remove_chunk c g = (gr_chunks g c, g\<lparr>gr_chunks := (gr_chunks g)(c := None)\<rparr>)"

definition remove_module :: "chunk_order \<Rightarrow> module_identifier \<Rightarrow> chunk_graph \<Rightarrow> chunk_graph option" where
  "remove_module ord m g = (case gr_modules g m of
      None \<Rightarrow> Some g
    | Some cgm \<Rightarrow> do {
        g \<leftarrow> for_each (\<lambda>c. modify_cgc c (\<lambda>cgc. cgc\<lparr>cgc_modules := cgc_modules cgc - {m},
            cgc_entry_modules := lm_remove m (cgc_entry_modules cgc)\<rparr>)) (ord (cgm_chunks cgm))
          (g\<lparr>gr_modules := (gr_modules g)(m := None)\<rparr>);
        Some (g\<lparr>gr_blocks := (gr_blocks g)(m := None)\<rparr>)
      })"

definition is_module_in_chunk :: "module_identifier \<Rightarrow> chunk_ukey \<Rightarrow> chunk_graph \<Rightarrow> bool option" where
  "is_module_in_chunk m c g = map_option (\<lambda>cgc. m \<in> cgc_modules cgc) (gr_chunks g c)"

definition is_any_module_in_chunk :: "module_identifier list \<Rightarrow> chunk_ukey \<Rightarrow> chunk_graph \<Rightarrow> bool option" where
  "is_any_module_in_chunk ms c g = map_option (\<lambda>cgc. list_ex (\<lambda>m. m \<in> cgc_modules cgc) ms) (gr_chunks g c)"

definition get_module_chunks :: "module_identifier \<Rightarrow> chunk_graph \<Rightarrow> chunk_ukey set option" where
  "get_module_chunks m g = map_option cgm_chunks (gr_modules g m)"

definition get_number_of_module_chunks :: "module_identifier \<Rightarrow> chunk_graph \<Rightarrow> nat" where
  "get_number_of_module_chunks m g = (case gr_modules g m of None \<Rightarrow> 0 | Some cgm \<Rightarrow> card (cgm_chunks cgm))"

definition get_module_runtimes :: "chunk_order \<Rightarrow> module_identifier \<Rightarrow> chunk_by_ukey \<Rightarrow> chunk_graph \<Rightarrow> runtime_spec_set option" where
  "get_module_runtimes ord m db g = do {
     cgm \<leftarrow> gr_modules g m;
     for_each (\<lambda>c runtimes. do { chunk \<leftarrow> db c; Some (rss_set (c_runtime chunk) runtimes) })
       (ord (cgm_chunks cgm)) \<lparr>rss_map = Map.empty\<rparr>
   }"

definition set_module_id :: "module_identifier \<Rightarrow> string \<Rightarrow> (module_identifier \<rightharpoonup> string) \<Rightarrow> bool \<times> (module_identifier \<rightharpoonup> string)" where
  "set_module_id m new_id ids =
    ((case ids m of Some old_id \<Rightarrow> old_id \<noteq> new_id | None \<Rightarrow> True), ids(m \<mapsto> new_id))"

definition get_block_chunk_group :: "string \<Rightarrow> chunk_group_by_ukey \<Rightarrow> chunk_graph \<Rightarrow> chunk_group option" where
  "get_block_chunk_group block db g = Option.bind (gr_blocks g block) db"

definition connect_block_and_chunk_group :: "string \<Rightarrow> chunk_group_ukey \<Rightarrow> chunk_graph \<Rightarrow> chunk_graph" where
  "connect_block_and_chunk_group block k g = g\<lparr>gr_blocks := (gr_blocks g)(block \<mapsto> k)\<rparr>"

definition is_entry_module :: "module_identifier \<Rightarrow> chunk_graph \<Rightarrow> bool option" where
  "is_entry_module m g = map_option (\<lambda>cgm. cgm_entry_in_chunks cgm \<noteq> {}) (gr_modules g m)"

definition get_chunk_entry_modules :: "chunk_ukey \<Rightarrow> chunk_graph \<Rightarrow> module_identifier list option" where
  "get_chunk_entry_modules c g = map_option (lm_keys \<circ> cgc_entry_modules) (gr_chunks g c)"

definition get_number_of_chunk_modules :: "chunk_ukey \<Rightarrow> chunk_graph \<Rightarrow> nat option" where
  "get_number_of_chunk_modules c g = map_option (card \<circ> cgc_modules) (gr_chunks g c)"

definition get_number_of_entry_modules :: "chunk_ukey \<Rightarrow> chunk_graph \<Rightarrow> nat option" where
  "get_number_of_entry_modules c g = map_option (length \<circ> cgc_entry_modules) (gr_chunks g c)"

definition has_entry_module :: "chunk \<Rightarrow> chunk_graph \<Rightarrow> bool option" where
  "has_entry_module chunk g = map_option (\<lambda>n. n > 0) (get_number_of_entry_modules (c_ukey chunk) g)"

definition has_chunk_runtime_modules :: "chunk_ukey \<Rightarrow> chunk_graph \<Rightarrow> bool option" where
  "has_chunk_runtime_modules c g = map_option (\<lambda>cgc. cgc_runtime_modules cgc \<noteq> []) (gr_chunks g c)"

definition set_runtime_id :: "string \<Rightarrow> string option \<Rightarrow> chunk_graph \<Rightarrow> chunk_graph" where
  "set_runtime_id runtime i g = g\<lparr>gr_runtime_ids := (gr_runtime_ids g)(runtime \<mapsto> i)\<rparr>"

definition get_runtime_id :: "string \<Rightarrow> chunk_graph \<Rightarrow> string option" where
  "get_runtime_id runtime g = Option.bind (gr_runtime_ids g runtime) (\<lambda>v. v)"

section \<open>Connecting and disconnecting\<close>

definition connect_chunk_and_entry_module :: "chunk_ukey \<Rightarrow> module_identifier \<Rightarrow> chunk_group_ukey \<Rightarrow> chunk_graph \<Rightarrow> chunk_graph option" where
  "connect_chunk_and_entry_module c m entrypoint g = do {
     g \<leftarrow> modify_cgm m (\<lambda>cgm. cgm\<lparr>cgm_entry_in_chunks := insert c (cgm_entry_in_chunks cgm)\<rparr>) (add_module m g);
     modify_cgc c (\<lambda>cgc. cgc\<lparr>cgc_entry_modules := lm_insert m entrypoint (cgc_entry_modules cgc)\<rparr>) (add_chunk c g)
   }"

definition remove_source_types :: "module_identifier \<Rightarrow> chunk_graph_chunk \<Rightarrow> chunk_graph_chunk" where
  "remove_source_types m cgc =
    cgc\<lparr>cgc_source_types_by_module := map_option (\<lambda>s. s(m := None)) (cgc_source_types_by_module cgc)\<rparr>"

definition disconnect_chunk_and_module :: "chunk_ukey \<Rightarrow> module_identifier \<Rightarrow> chunk_graph \<Rightarrow> chunk_graph option" where
  "disconnect_chunk_and_module c m g = do {
     g \<leftarrow> modify_cgm m (\<lambda>cgm. cgm\<lparr>cgm_chunks := cgm_chunks cgm - {c}\<rparr>) g;
     modify_cgc c (\<lambda>cgc. remove_source_types m (cgc\<lparr>cgc_modules := cgc_modules cgc - {m}\<rparr>)) g
   }"

definition connect_chunk_and_module :: "chunk_ukey \<Rightarrow> module_identifier \<Rightarrow> chunk_graph \<Rightarrow> chunk_graph option" where
  "connect_chunk_and_module c m g = do {
     g \<leftarrow> modify_cgm m (\<lambda>cgm. cgm\<lparr>cgm_chunks := insert c (cgm_chunks cgm)\<rparr>) (add_module m g);
     modify_cgc c (\<lambda>cgc. cgc\<lparr>cgc_modules := insert m (cgc_modules cgc)\<rparr>) (add_chunk c g)
   }"

definition connect_chunk_and_runtime_module :: "chunk_ukey \<Rightarrow> module_identifier \<Rightarrow> chunk_graph \<Rightarrow> chunk_graph option" where
  "connect_chunk_and_runtime_module c m g = do {
     g \<leftarrow> modify_cgm m (\<lambda>cgm. cgm\<lparr>cgm_runtime_in_chunks := insert c (cgm_runtime_in_chunks cgm)\<rparr>) (add_module m g);
     modify_cgc c (\<lambda>cgc. if m \<in> set (cgc_runtime_modules cgc) then cgc
         else cgc\<lparr>cgc_runtime_modules := cgc_runtime_modules cgc @ [m]\<rparr>) (add_chunk c g)
   }"

text \<open>A missing chunk or module is ignored here.\<close>

definition disconnect_chunk_and_runtime_module :: "chunk_ukey \<Rightarrow> module_identifier \<Rightarrow> chunk_graph \<Rightarrow> chunk_graph" where
  "disconnect_chunk_and_runtime_module c m g =
    (let g = (case gr_modules g m of
         None \<Rightarrow> g
       | Some cgm \<Rightarrow> g\<lparr>gr_modules := (gr_modules g)(m \<mapsto>
           cgm\<lparr>cgm_runtime_in_chunks := cgm_runtime_in_chunks cgm - {c}\<rparr>)\<rparr>)
     in case gr_chunks g c of
         None \<Rightarrow> g
       | Some cgc \<Rightarrow> g\<lparr>gr_chunks := (gr_chunks g)(c \<mapsto>
           cgc\<lparr>cgc_runtime_modules := filter (\<lambda>i. i \<noteq> m) (cgc_runtime_modules cgc)\<rparr>)\<rparr>)"

definition disconnect_chunk_and_entry_module :: "chunk_ukey \<Rightarrow> module_identifier \<Rightarrow> chunk_graph \<Rightarrow> chunk_graph option" where
  "disconnect_chunk_and_entry_module c m g = do {
     g \<leftarrow> modify_cgm m (\<lambda>cgm. cgm\<lparr>cgm_chunks := cgm_chunks cgm - {c}\<rparr>) g;
     modify_cgc c (\<lambda>cgc. remove_source_types m (cgc\<lparr>cgc_entry_modules := lm_remove m (cgc_entry_modules cgc)\<rparr>)) g
   }"

definition disconnect_chunks_and_modules :: "chunk_ukey list \<Rightarrow> module_identifier list \<Rightarrow> chunk_graph \<Rightarrow> chunk_graph option" where
  "disconnect_chunks_and_modules cs ms g = do {
     g \<leftarrow> for_each (\<lambda>c. modify_cgc c (\<lambda>cgc.
         fold (\<lambda>m cgc. remove_source_types m (cgc\<lparr>cgc_modules := cgc_modules cgc - {m}\<rparr>)) ms cgc)) cs g;
     for_each (\<lambda>m. modify_cgm m (\<lambda>cgm.
         fold (\<lambda>c cgm. cgm\<lparr>cgm_chunks := cgm_chunks cgm - {c}\<rparr>) cs cgm)) ms g
   }"

definition connect_chunk_and_modules :: "chunk_ukey \<Rightarrow> module_identifier list \<Rightarrow> chunk_graph \<Rightarrow> chunk_graph option" where
  "connect_chunk_and_modules c ms g = do {
     g \<leftarrow> for_each (\<lambda>m. modify_cgm m (\<lambda>cgm. cgm\<lparr>cgm_chunks := insert c (cgm_chunks cgm)\<rparr>)) ms g;
     modify_cgc c (\<lambda>cgc. cgc\<lparr>cgc_modules := fold insert ms (cgc_modules cgc)\<rparr>) g
   }"

definition disconnect_chunk :: "group_order \<Rightarrow> module_order \<Rightarrow> chunk \<Rightarrow> chunk_group_by_ukey \<Rightarrow> chunk_graph \<Rightarrow>
    (chunk \<times> chunk_group_by_ukey \<times> chunk_graph) option" where
  "disconnect_chunk ord mord chunk db g = do {
     cgc \<leftarrow> gr_chunks g (c_ukey chunk);
     g \<leftarrow> modify_cgc (c_ukey chunk) (\<lambda>cgc. cgc\<lparr>cgc_modules := {}\<rparr>) g;
     g \<leftarrow> for_each (\<lambda>m. modify_cgm m (\<lambda>cgm. cgm\<lparr>cgm_chunks := cgm_chunks cgm - {c_ukey chunk}\<rparr>))
       (mord (cgc_modules cgc)) g;
     (chunk, db) \<leftarrow> disconnect_from_groups ord chunk db;
     Some (chunk, db, g)
   }"

definition set_chunk_modules_source_types :: "chunk_ukey \<Rightarrow> module_identifier \<Rightarrow> source_type set \<Rightarrow> chunk_graph \<Rightarrow> chunk_graph option" where
  "set_chunk_modules_source_types c m sts g = modify_cgc c (\<lambda>cgc. cgc\<lparr>cgc_source_types_by_module :=
     Some (case cgc_source_types_by_module cgc of Some s \<Rightarrow> s(m \<mapsto> sts) | None \<Rightarrow> [m \<mapsto> sts])\<rparr>) g"

definition get_chunk_module_source_types :: "chunk_ukey \<Rightarrow> 'f module_info \<Rightarrow> chunk_graph \<Rightarrow> source_type set" where
  "get_chunk_module_source_types c mi g =
    (case Option.bind (gr_chunks g c) (\<lambda>cgc. Option.bind (cgc_source_types_by_module cgc) (\<lambda>s. s (mi_identifier mi))) of
       Some sts \<Rightarrow> sts
     | None \<Rightarrow> set (mi_source_types mi))"

section \<open>The relations the graph stores\<close>

definition mods_of_chunks :: "chunk_graph \<Rightarrow> (chunk_ukey \<times> module_identifier) set" where
  "mods_of_chunks g = {(c, m). \<exists>cgc. gr_chunks g c = Some cgc \<and> m \<in> cgc_modules cgc}"

definition chunks_of_mods :: "chunk_graph \<Rightarrow> (chunk_ukey \<times> module_identifier) set" where
  "chunks_of_mods g = {(c, m). \<exists>cgm. gr_modules g m = Some cgm \<and> c \<in> cgm_chunks cgm}"

definition entries_of_chunks :: "chunk_graph \<Rightarrow> (chunk_ukey \<times> module_identifier) set" where
  "entries_of_chunks g = {(c, m). \<exists>cgc. gr_chunks g c = Some cgc \<and> m \<in> set (lm_keys (cgc_entry_modules cgc))}"

definition chunks_of_entries :: "chunk_graph \<Rightarrow> (chunk_ukey \<times> module_identifier) set" where
  "chunks_of_entries g = {(c, m). \<exists>cgm. gr_modules g m = Some cgm \<and> c \<in> cgm_entry_in_chunks cgm}"

definition runtimes_of_chunks :: "chunk_graph \<Rightarrow> (chunk_ukey \<times> module_identifier) set" where
  "runtimes_of_chunks g = {(c, m). \<exists>cgc. gr_chunks g c = Some cgc \<and> m \<in> set (cgc_runtime_modules cgc)}"

definition chunks_of_runtimes :: "chunk_graph \<Rightarrow> (chunk_ukey \<times> module_identifier) set" where
  "chunks_of_runtimes g = {(c, m). \<exists>cgm. gr_modules g m = Some cgm \<and> c \<in> cgm_runtime_in_chunks cgm}"

lemmas link_relations = mods_of_chunks_def chunks_of_mods_def entries_of_chunks_def chunks_of_entries_def
  runtimes_of_chunks_def chunks_of_runtimes_def

lemma modify_cgc_Some:
  "modify_cgc c f g = Some g' \<longleftrightarrow> (\<exists>cgc. gr_chunks g c = Some cgc \<and> g' = g\<lparr>gr_chunks := (gr_chunks g)(c \<mapsto> f cgc)\<rparr>)"
  by (auto simp: modify_cgc_def expect_modify_def split: option.splits)

lemma modify_cgm_Some:
  "modify_cgm m f g = Some g' \<longleftrightarrow> (\<exists>cgm. gr_modules g m = Some cgm \<and> g' = g\<lparr>gr_modules := (gr_modules g)(m \<mapsto> f cgm)\<rparr>)"
  by (auto simp: modify_cgm_def expect_modify_def split: option.splits)

lemma modify_known:
  "gr_chunks g c = Some cgc \<Longrightarrow> modify_cgc c f g = Some (g\<lparr>gr_chunks := (gr_chunks g)(c \<mapsto> f cgc)\<rparr>)"
  "gr_modules g m = Some cgm \<Longrightarrow> modify_cgm m h g = Some (g\<lparr>gr_modules := (gr_modules g)(m \<mapsto> h cgm)\<rparr>)"
  by (simp_all add: modify_cgc_def modify_cgm_def expect_modify_def)

lemma add_fields [simp]:
  "gr_chunks (add_module m g) = gr_chunks g" "gr_modules (add_chunk c g) = gr_modules g"
  "gr_modules (add_module m g) m = Some (case gr_modules g m of None \<Rightarrow> cgm_new | Some cgm \<Rightarrow> cgm)"
  "gr_chunks (add_chunk c g) c = Some (case gr_chunks g c of None \<Rightarrow> cgc_new | Some cgc \<Rightarrow> cgc)"
  "k \<noteq> m \<Longrightarrow> gr_modules (add_module m g) k = gr_modules g k"
  "d \<noteq> c \<Longrightarrow> gr_chunks (add_chunk c g) d = gr_chunks g d"
  by (auto simp: add_module_def add_chunk_def or_insert_def split: option.splits)

text \<open>What a connection does to the two maps: \<open>h\<close> on the module, \<open>f\<close> on the chunk, either created if missing.\<close>

lemma connect_maps:
  shows "\<exists>g'. (do { g1 \<leftarrow> modify_cgm m h (add_module m g); modify_cgc c f (add_chunk c g1) }) = Some g' \<and>
    gr_modules g' = (gr_modules g)(m \<mapsto> h (case gr_modules g m of None \<Rightarrow> cgm_new | Some cgm \<Rightarrow> cgm)) \<and>
    gr_chunks g' = (gr_chunks g)(c \<mapsto> f (case gr_chunks g c of None \<Rightarrow> cgc_new | Some cgc \<Rightarrow> cgc))"
proof -
  let ?cgm = "case gr_modules g m of None \<Rightarrow> cgm_new | Some cgm \<Rightarrow> cgm"
  let ?cgc = "case gr_chunks g c of None \<Rightarrow> cgc_new | Some cgc \<Rightarrow> cgc"
  define g1 where "g1 = (add_module m g)\<lparr>gr_modules := (gr_modules (add_module m g))(m \<mapsto> h ?cgm)\<rparr>"
  have s1: "modify_cgm m h (add_module m g) = Some g1"
    unfolding g1_def by (rule modify_known) simp
  have c: "gr_chunks (add_chunk c g1) c = Some ?cgc" by (simp add: g1_def)
  have "(gr_modules (add_module m g))(m \<mapsto> h ?cgm) = (gr_modules g)(m \<mapsto> h ?cgm)"
    "(gr_chunks (add_chunk c g1))(c \<mapsto> f ?cgc) = (gr_chunks g)(c \<mapsto> f ?cgc)"
    by (auto simp: add_module_def add_chunk_def or_insert_def g1_def split: option.splits)
  then show ?thesis using s1 modify_known(1) [OF c, of f] by (simp add: g1_def)
qed

lemma connect_module_spec:
  "\<exists>g'. connect_chunk_and_module c m g = Some g' \<and> mods_of_chunks g' = insert (c, m) (mods_of_chunks g) \<and>
    chunks_of_mods g' = insert (c, m) (chunks_of_mods g) \<and>
    entries_of_chunks g' = entries_of_chunks g \<and> chunks_of_entries g' = chunks_of_entries g \<and>
    runtimes_of_chunks g' = runtimes_of_chunks g \<and> chunks_of_runtimes g' = chunks_of_runtimes g"
proof -
  obtain g' where g': "connect_chunk_and_module c m g = Some g'"
    "gr_modules g' = (gr_modules g)(m \<mapsto> (case gr_modules g m of None \<Rightarrow> cgm_new | Some cgm \<Rightarrow> cgm)
        \<lparr>cgm_chunks := insert c (cgm_chunks (case gr_modules g m of None \<Rightarrow> cgm_new | Some cgm \<Rightarrow> cgm))\<rparr>)"
    "gr_chunks g' = (gr_chunks g)(c \<mapsto> (case gr_chunks g c of None \<Rightarrow> cgc_new | Some cgc \<Rightarrow> cgc)
        \<lparr>cgc_modules := insert m (cgc_modules (case gr_chunks g c of None \<Rightarrow> cgc_new | Some cgc \<Rightarrow> cgc))\<rparr>)"
    using connect_maps [of m "\<lambda>cgm. cgm\<lparr>cgm_chunks := insert c (cgm_chunks cgm)\<rparr>" g c
        "\<lambda>cgc. cgc\<lparr>cgc_modules := insert m (cgc_modules cgc)\<rparr>"]
    unfolding connect_chunk_and_module_def by blast
  have "mods_of_chunks g' = insert (c, m) (mods_of_chunks g)" "entries_of_chunks g' = entries_of_chunks g"
    "runtimes_of_chunks g' = runtimes_of_chunks g"
    by (auto simp: link_relations g'(3) cgc_new_def split: option.splits if_splits)
  moreover have "chunks_of_mods g' = insert (c, m) (chunks_of_mods g)" "chunks_of_entries g' = chunks_of_entries g"
    "chunks_of_runtimes g' = chunks_of_runtimes g"
    by (auto simp: link_relations g'(2) cgm_new_def split: option.splits if_splits)
  ultimately show ?thesis using g'(1) by blast
qed

lemma disconnect_maps:
  assumes "gr_modules g m = Some cgm" "gr_chunks g c = Some cgc"
  shows "(do { g1 \<leftarrow> modify_cgm m h g; modify_cgc c f g1 }) =
    Some (g\<lparr>gr_modules := (gr_modules g)(m \<mapsto> h cgm), gr_chunks := (gr_chunks g)(c \<mapsto> f cgc)\<rparr>)"
  using assms by (simp add: modify_known)

lemma remove_source_types_fields [simp]:
  "cgc_modules (remove_source_types m cgc) = cgc_modules cgc"
  "cgc_entry_modules (remove_source_types m cgc) = cgc_entry_modules cgc"
  "cgc_runtime_modules (remove_source_types m cgc) = cgc_runtime_modules cgc"
  by (simp_all add: remove_source_types_def)

lemma disconnect_module_spec:
  assumes "gr_modules g m \<noteq> None" "gr_chunks g c \<noteq> None"
  shows "\<exists>g'. disconnect_chunk_and_module c m g = Some g' \<and> mods_of_chunks g' = mods_of_chunks g - {(c, m)} \<and>
    chunks_of_mods g' = chunks_of_mods g - {(c, m)} \<and>
    entries_of_chunks g' = entries_of_chunks g \<and> chunks_of_entries g' = chunks_of_entries g \<and>
    runtimes_of_chunks g' = runtimes_of_chunks g \<and> chunks_of_runtimes g' = chunks_of_runtimes g \<and>
    dom (gr_modules g') = dom (gr_modules g) \<and> dom (gr_chunks g') = dom (gr_chunks g)"
proof -
  obtain cgm cgc where k: "gr_modules g m = Some cgm" "gr_chunks g c = Some cgc" using assms by auto
  obtain g' where g': "disconnect_chunk_and_module c m g = Some g'"
    "gr_modules g' = (gr_modules g)(m \<mapsto> cgm\<lparr>cgm_chunks := cgm_chunks cgm - {c}\<rparr>)"
    "gr_chunks g' = (gr_chunks g)(c \<mapsto> remove_source_types m (cgc\<lparr>cgc_modules := cgc_modules cgc - {m}\<rparr>))"
    using disconnect_maps [OF k] unfolding disconnect_chunk_and_module_def by simp
  have "mods_of_chunks g' = mods_of_chunks g - {(c, m)}" "entries_of_chunks g' = entries_of_chunks g"
    "runtimes_of_chunks g' = runtimes_of_chunks g"
    using k by (auto simp: link_relations g'(3) split: if_splits)
  moreover have "chunks_of_mods g' = chunks_of_mods g - {(c, m)}" "chunks_of_entries g' = chunks_of_entries g"
    "chunks_of_runtimes g' = chunks_of_runtimes g"
    using k by (auto simp: link_relations g'(2) split: if_splits)
  moreover have "dom (gr_modules g') = dom (gr_modules g)" "dom (gr_chunks g') = dom (gr_chunks g)"
    using k by (auto simp: g'(2,3))
  ultimately show ?thesis using g'(1) by blast
qed

interpretation module_links: link_store mods_of_chunks chunks_of_mods connect_chunk_and_module disconnect_chunk_and_module
proof (standard, goal_cases)
  case (1 l r g)
  then show ?case using connect_module_spec [of l r g] by blast
next
  case (2 l r g)
  then have "gr_modules g r \<noteq> None" "gr_chunks g l \<noteq> None"
    by (auto simp: link_relations)
  then show ?case using disconnect_module_spec by blast
qed

lemma connect_entry_spec:
  "\<exists>g'. connect_chunk_and_entry_module c m k g = Some g' \<and> entries_of_chunks g' = insert (c, m) (entries_of_chunks g) \<and>
    chunks_of_entries g' = insert (c, m) (chunks_of_entries g) \<and>
    mods_of_chunks g' = mods_of_chunks g \<and> chunks_of_mods g' = chunks_of_mods g \<and>
    runtimes_of_chunks g' = runtimes_of_chunks g \<and> chunks_of_runtimes g' = chunks_of_runtimes g"
proof -
  obtain g' where g': "connect_chunk_and_entry_module c m k g = Some g'"
    "gr_modules g' = (gr_modules g)(m \<mapsto> (case gr_modules g m of None \<Rightarrow> cgm_new | Some cgm \<Rightarrow> cgm)
        \<lparr>cgm_entry_in_chunks := insert c (cgm_entry_in_chunks (case gr_modules g m of None \<Rightarrow> cgm_new | Some cgm \<Rightarrow> cgm))\<rparr>)"
    "gr_chunks g' = (gr_chunks g)(c \<mapsto> (case gr_chunks g c of None \<Rightarrow> cgc_new | Some cgc \<Rightarrow> cgc)
        \<lparr>cgc_entry_modules := lm_insert m k (cgc_entry_modules (case gr_chunks g c of None \<Rightarrow> cgc_new | Some cgc \<Rightarrow> cgc))\<rparr>)"
    using connect_maps [of m "\<lambda>cgm. cgm\<lparr>cgm_entry_in_chunks := insert c (cgm_entry_in_chunks cgm)\<rparr>" g c
        "\<lambda>cgc. cgc\<lparr>cgc_entry_modules := lm_insert m k (cgc_entry_modules cgc)\<rparr>"]
    unfolding connect_chunk_and_entry_module_def by blast
  have "entries_of_chunks g' = insert (c, m) (entries_of_chunks g)" "mods_of_chunks g' = mods_of_chunks g"
    "runtimes_of_chunks g' = runtimes_of_chunks g"
    by (auto simp: link_relations g'(3) cgc_new_def split: option.splits if_splits)
  moreover have "chunks_of_entries g' = insert (c, m) (chunks_of_entries g)" "chunks_of_mods g' = chunks_of_mods g"
    "chunks_of_runtimes g' = chunks_of_runtimes g"
    by (auto simp: link_relations g'(2) cgm_new_def split: option.splits if_splits)
  ultimately show ?thesis using g'(1) by blast
qed

lemma connect_runtime_spec:
  "\<exists>g'. connect_chunk_and_runtime_module c m g = Some g' \<and> runtimes_of_chunks g' = insert (c, m) (runtimes_of_chunks g) \<and>
    chunks_of_runtimes g' = insert (c, m) (chunks_of_runtimes g) \<and>
    mods_of_chunks g' = mods_of_chunks g \<and> chunks_of_mods g' = chunks_of_mods g \<and>
    entries_of_chunks g' = entries_of_chunks g \<and> chunks_of_entries g' = chunks_of_entries g"
proof -
  let ?f = "\<lambda>cgc. if m \<in> set (cgc_runtime_modules cgc) then cgc
         else cgc\<lparr>cgc_runtime_modules := cgc_runtime_modules cgc @ [m]\<rparr>"
  obtain g' where g': "connect_chunk_and_runtime_module c m g = Some g'"
    "gr_modules g' = (gr_modules g)(m \<mapsto> (case gr_modules g m of None \<Rightarrow> cgm_new | Some cgm \<Rightarrow> cgm)
        \<lparr>cgm_runtime_in_chunks := insert c (cgm_runtime_in_chunks (case gr_modules g m of None \<Rightarrow> cgm_new | Some cgm \<Rightarrow> cgm))\<rparr>)"
    "gr_chunks g' = (gr_chunks g)(c \<mapsto> ?f (case gr_chunks g c of None \<Rightarrow> cgc_new | Some cgc \<Rightarrow> cgc))"
    using connect_maps [of m "\<lambda>cgm. cgm\<lparr>cgm_runtime_in_chunks := insert c (cgm_runtime_in_chunks cgm)\<rparr>" g c ?f]
    unfolding connect_chunk_and_runtime_module_def by blast
  have "runtimes_of_chunks g' = insert (c, m) (runtimes_of_chunks g)" "mods_of_chunks g' = mods_of_chunks g"
    "entries_of_chunks g' = entries_of_chunks g"
    by (auto simp: link_relations g'(3) cgc_new_def split: option.splits if_splits)
  moreover have "chunks_of_runtimes g' = insert (c, m) (chunks_of_runtimes g)" "chunks_of_mods g' = chunks_of_mods g"
    "chunks_of_entries g' = chunks_of_entries g"
    by (auto simp: link_relations g'(2) cgm_new_def split: option.splits if_splits)
  ultimately show ?thesis using g'(1) by blast
qed

lemma disconnect_runtime_spec:
  "runtimes_of_chunks (disconnect_chunk_and_runtime_module c m g) = runtimes_of_chunks g - {(c, m)}"
  "chunks_of_runtimes (disconnect_chunk_and_runtime_module c m g) = chunks_of_runtimes g - {(c, m)}"
  "mods_of_chunks (disconnect_chunk_and_runtime_module c m g) = mods_of_chunks g"
  "chunks_of_mods (disconnect_chunk_and_runtime_module c m g) = chunks_of_mods g"
  by (auto simp: link_relations disconnect_chunk_and_runtime_module_def Let_def split: option.splits if_splits)

interpretation runtime_links: link_store runtimes_of_chunks chunks_of_runtimes connect_chunk_and_runtime_module
  "\<lambda>c m g. Some (disconnect_chunk_and_runtime_module c m g)"
proof (standard, goal_cases)
  case (1 l r g)
  then show ?case using connect_runtime_spec [of l r g] by blast
qed (simp add: disconnect_runtime_spec)

lemma disconnect_entry_spec:
  assumes "gr_modules g m \<noteq> None" "gr_chunks g c \<noteq> None"
  shows "\<exists>g'. disconnect_chunk_and_entry_module c m g = Some g' \<and> entries_of_chunks g' = entries_of_chunks g - {(c, m)} \<and>
    chunks_of_entries g' = chunks_of_entries g \<and>
    mods_of_chunks g' = mods_of_chunks g \<and> chunks_of_mods g' = chunks_of_mods g - {(c, m)} \<and>
    dom (gr_modules g') = dom (gr_modules g) \<and> dom (gr_chunks g') = dom (gr_chunks g)"
proof -
  obtain cgm cgc where k: "gr_modules g m = Some cgm" "gr_chunks g c = Some cgc" using assms by auto
  obtain g' where g': "disconnect_chunk_and_entry_module c m g = Some g'"
    "gr_modules g' = (gr_modules g)(m \<mapsto> cgm\<lparr>cgm_chunks := cgm_chunks cgm - {c}\<rparr>)"
    "gr_chunks g' = (gr_chunks g)(c \<mapsto> remove_source_types m (cgc\<lparr>cgc_entry_modules := lm_remove m (cgc_entry_modules cgc)\<rparr>))"
    using disconnect_maps [OF k] unfolding disconnect_chunk_and_entry_module_def by simp
  have "entries_of_chunks g' = entries_of_chunks g - {(c, m)}" "mods_of_chunks g' = mods_of_chunks g"
    using k by (auto simp: link_relations g'(3) split: if_splits)
  moreover have "chunks_of_mods g' = chunks_of_mods g - {(c, m)}" "chunks_of_entries g' = chunks_of_entries g"
    using k by (auto simp: link_relations g'(2) split: if_splits)
  moreover have "dom (gr_modules g') = dom (gr_modules g)" "dom (gr_chunks g') = dom (gr_chunks g)"
    using k by (auto simp: g'(2,3))
  ultimately show ?thesis using g'(1) by blast
qed

lemma runtime_modules_distinct:
  assumes "connect_chunk_and_runtime_module c m g = Some g'"
    and "\<forall>cgc \<in> ran (gr_chunks g). distinct (cgc_runtime_modules cgc)"
  shows "\<forall>cgc \<in> ran (gr_chunks g'). distinct (cgc_runtime_modules cgc)"
proof -
  let ?f = "\<lambda>cgc. if m \<in> set (cgc_runtime_modules cgc) then cgc
         else cgc\<lparr>cgc_runtime_modules := cgc_runtime_modules cgc @ [m]\<rparr>"
  have "gr_chunks g' = (gr_chunks g)(c \<mapsto> ?f (case gr_chunks g c of None \<Rightarrow> cgc_new | Some cgc \<Rightarrow> cgc))"
    using connect_maps [of m "\<lambda>cgm. cgm\<lparr>cgm_runtime_in_chunks := insert c (cgm_runtime_in_chunks cgm)\<rparr>" g c ?f] assms(1)
    unfolding connect_chunk_and_runtime_module_def by auto
  moreover have "distinct (cgc_runtime_modules (case gr_chunks g c of None \<Rightarrow> cgc_new | Some cgc \<Rightarrow> cgc))"
    using assms(2) by (auto simp: cgc_new_def ran_def split: option.splits)
  ultimately show ?thesis using assms(2) by (auto simp: ran_def split: if_splits)
qed

section \<open>Bulk operations\<close>

lemma modify_all_cgm:
  assumes "\<forall>m \<in> set ms. gr_modules g m \<noteq> None" "\<And>x. h (h x) = h x"
  shows "for_each (\<lambda>m. modify_cgm m h) ms g =
    Some (g\<lparr>gr_modules := \<lambda>m. if m \<in> set ms then map_option h (gr_modules g m) else gr_modules g m\<rparr>)"
  using assms(1)
proof (induction ms arbitrary: g)
  case (Cons m ms)
  then obtain cgm where cgm: "gr_modules g m = Some cgm" by auto
  define g1 where "g1 = g\<lparr>gr_modules := (gr_modules g)(m \<mapsto> h cgm)\<rparr>"
  have "\<forall>k \<in> set ms. gr_modules g1 k \<noteq> None" using Cons.prems by (auto simp: g1_def)
  note IH = Cons.IH [OF this]
  have "(\<lambda>k. if k \<in> set ms then map_option h (gr_modules g1 k) else gr_modules g1 k) =
      (\<lambda>k. if k \<in> set (m # ms) then map_option h (gr_modules g k) else gr_modules g k)"
    using cgm by (intro ext) (auto simp: g1_def assms(2))
  moreover have "modify_cgm m h g = Some g1" using cgm by (simp add: modify_known g1_def)
  ultimately show ?case using IH by (simp add: g1_def)
qed simp

lemma modify_all_cgc:
  assumes "\<forall>c \<in> set cs. gr_chunks g c \<noteq> None" "\<And>x. f (f x) = f x"
  shows "for_each (\<lambda>c. modify_cgc c f) cs g =
    Some (g\<lparr>gr_chunks := \<lambda>c. if c \<in> set cs then map_option f (gr_chunks g c) else gr_chunks g c\<rparr>)"
  using assms(1)
proof (induction cs arbitrary: g)
  case (Cons c cs)
  then obtain cgc where cgc: "gr_chunks g c = Some cgc" by auto
  define g1 where "g1 = g\<lparr>gr_chunks := (gr_chunks g)(c \<mapsto> f cgc)\<rparr>"
  have "\<forall>k \<in> set cs. gr_chunks g1 k \<noteq> None" using Cons.prems by (auto simp: g1_def)
  note IH = Cons.IH [OF this]
  have "(\<lambda>k. if k \<in> set cs then map_option f (gr_chunks g1 k) else gr_chunks g1 k) =
      (\<lambda>k. if k \<in> set (c # cs) then map_option f (gr_chunks g k) else gr_chunks g k)"
    using cgc by (intro ext) (auto simp: g1_def assms(2))
  moreover have "modify_cgc c f g = Some g1" using cgc by (simp add: modify_known g1_def)
  ultimately show ?case using IH by (simp add: g1_def)
qed simp

lemma fold_remove_chunks:
  "fold (\<lambda>c cgm. cgm\<lparr>cgm_chunks := cgm_chunks cgm - {c}\<rparr>) cs cgm = cgm\<lparr>cgm_chunks := cgm_chunks cgm - set cs\<rparr>"
  by (induction cs arbitrary: cgm) (auto simp: set_diff_eq)

lemma fold_remove_modules:
  "cgc_modules (fold (\<lambda>m cgc. remove_source_types m (cgc\<lparr>cgc_modules := cgc_modules cgc - {m}\<rparr>)) ms cgc) =
    cgc_modules cgc - set ms"
  by (induction ms arbitrary: cgc) auto

lemma fold_remove_modules_eq:
  "fold (\<lambda>m cgc. remove_source_types m (cgc\<lparr>cgc_modules := cgc_modules cgc - {m}\<rparr>)) ms cgc =
    cgc\<lparr>cgc_modules := cgc_modules cgc - set ms,
        cgc_source_types_by_module := map_option (\<lambda>s k. if k \<in> set ms then None else s k) (cgc_source_types_by_module cgc)\<rparr>"
proof (induction ms arbitrary: cgc)
  case (Cons m ms)
  then show ?case
    by (cases "cgc_source_types_by_module cgc") (auto simp: remove_source_types_def fun_eq_iff set_diff_eq)
qed (simp add: option.map_ident)

lemma connect_modules_spec:
  assumes "gr_chunks g c \<noteq> None" "\<forall>m \<in> set ms. gr_modules g m \<noteq> None"
  shows "\<exists>g'. connect_chunk_and_modules c ms g = Some g' \<and>
    mods_of_chunks g' = mods_of_chunks g \<union> {c} \<times> set ms \<and> chunks_of_mods g' = chunks_of_mods g \<union> {c} \<times> set ms"
proof -
  let ?h = "\<lambda>cgm. cgm\<lparr>cgm_chunks := insert c (cgm_chunks cgm)\<rparr>"
  let ?ms = "\<lambda>m. if m \<in> set ms then map_option ?h (gr_modules g m) else gr_modules g m"
  obtain cgc where cgc: "gr_chunks g c = Some cgc" using assms(1) by auto
  have "connect_chunk_and_modules c ms g = Some (g\<lparr>gr_modules := ?ms,
      gr_chunks := (gr_chunks g)(c \<mapsto> cgc\<lparr>cgc_modules := fold insert ms (cgc_modules cgc)\<rparr>)\<rparr>)"
    using modify_all_cgm [OF assms(2), of ?h] cgc by (simp add: connect_chunk_and_modules_def modify_known)
  then show ?thesis
    using assms cgc by (auto simp: link_relations fold_insert_set split: if_splits)
qed

lemma disconnect_modules_spec:
  assumes "\<forall>c \<in> set cs. gr_chunks g c \<noteq> None" "\<forall>m \<in> set ms. gr_modules g m \<noteq> None"
  shows "\<exists>g'. disconnect_chunks_and_modules cs ms g = Some g' \<and>
    mods_of_chunks g' = mods_of_chunks g - set cs \<times> set ms \<and> chunks_of_mods g' = chunks_of_mods g - set cs \<times> set ms"
proof -
  let ?f = "fold (\<lambda>m cgc. remove_source_types m (cgc\<lparr>cgc_modules := cgc_modules cgc - {m}\<rparr>)) ms"
  let ?h = "fold (\<lambda>c cgm. cgm\<lparr>cgm_chunks := cgm_chunks cgm - {c}\<rparr>) cs"
  let ?cs = "\<lambda>c. if c \<in> set cs then map_option ?f (gr_chunks g c) else gr_chunks g c"
  let ?ms = "\<lambda>m. if m \<in> set ms then map_option ?h (gr_modules g m) else gr_modules g m"
  have f: "?f (?f x) = ?f x" for x
    by (cases "cgc_source_types_by_module x") (auto simp: fold_remove_modules_eq fun_eq_iff)
  have h: "?h (?h x) = ?h x" for x by (simp add: fold_remove_chunks)
  have "for_each (\<lambda>c. modify_cgc c ?f) cs g = Some (g\<lparr>gr_chunks := ?cs\<rparr>)"
    using modify_all_cgc [OF assms(1), of ?f] f by blast
  moreover have e: "gr_modules (g\<lparr>gr_chunks := ?cs\<rparr>) = gr_modules g" by simp
  have "for_each (\<lambda>m. modify_cgm m ?h) ms (g\<lparr>gr_chunks := ?cs\<rparr>) = Some (g\<lparr>gr_chunks := ?cs, gr_modules := ?ms\<rparr>)"
    using modify_all_cgm [of ms "g\<lparr>gr_chunks := ?cs\<rparr>" ?h, OF _ h] assms(2) unfolding e .
  ultimately have eq: "disconnect_chunks_and_modules cs ms g = Some (g\<lparr>gr_chunks := ?cs, gr_modules := ?ms\<rparr>)"
    unfolding disconnect_chunks_and_modules_def by (simp only: bind.bind_lunit)
  have "mods_of_chunks (g\<lparr>gr_chunks := ?cs, gr_modules := ?ms\<rparr>) = mods_of_chunks g - set cs \<times> set ms"
    using assms(1) by (auto simp: mods_of_chunks_def fold_remove_modules split: if_splits)
  moreover have "chunks_of_mods (g\<lparr>gr_chunks := ?cs, gr_modules := ?ms\<rparr>) = chunks_of_mods g - set cs \<times> set ms"
    using assms(2) by (auto simp: chunks_of_mods_def fold_remove_chunks split: if_splits)
  ultimately show ?thesis using eq by blast
qed

section \<open>Replacing a module\<close>

definition rename_entry :: "module_identifier \<Rightarrow> module_identifier \<Rightarrow> chunk_graph_chunk \<Rightarrow> chunk_graph_chunk" where
  "rename_entry old_m new_m cgc = (case map_of (cgc_entry_modules cgc) old_m of
      None \<Rightarrow> cgc
    | Some old \<Rightarrow> cgc\<lparr>cgc_entry_modules := foldl (\<lambda>new_entry_modules (m, cg).
          if m = old_m then lm_insert new_m old new_entry_modules else lm_insert m cg new_entry_modules)
        [] (cgc_entry_modules cgc)\<rparr>)"

definition replace_in_chunks :: "(chunk_graph_chunk \<Rightarrow> chunk_graph_chunk) \<Rightarrow>
    (chunk_ukey \<Rightarrow> chunk_graph_module \<Rightarrow> chunk_graph_module) \<Rightarrow> module_identifier \<Rightarrow> chunk_ukey list \<Rightarrow>
    chunk_graph \<Rightarrow> chunk_graph option" where
  "replace_in_chunks f h new_m cs g = for_each (\<lambda>c g. do {
     g \<leftarrow> modify_cgc c f g;
     modify_cgm new_m (h c) g
   }) cs g"

definition replace_module :: "chunk_order \<Rightarrow> module_identifier \<Rightarrow> module_identifier \<Rightarrow> chunk_graph \<Rightarrow> chunk_graph option" where
  "replace_module ord old_m new_m g = do {
     let g = (if gr_modules g new_m = None then g\<lparr>gr_modules := (gr_modules g)(new_m \<mapsto> cgm_new)\<rparr> else g);
     old_cgm \<leftarrow> gr_modules g old_m;
     g \<leftarrow> replace_in_chunks (\<lambda>cgc. cgc\<lparr>cgc_modules := insert new_m (cgc_modules cgc - {old_m})\<rparr>)
       (\<lambda>c cgm. cgm\<lparr>cgm_chunks := insert c (cgm_chunks cgm)\<rparr>) new_m (ord (cgm_chunks old_cgm)) g;
     g \<leftarrow> modify_cgm old_m (\<lambda>cgm. cgm\<lparr>cgm_chunks := {}\<rparr>) g;
     old_cgm \<leftarrow> gr_modules g old_m;
     g \<leftarrow> replace_in_chunks (rename_entry old_m new_m)
       (\<lambda>c cgm. cgm\<lparr>cgm_entry_in_chunks := insert c (cgm_entry_in_chunks cgm)\<rparr>) new_m (ord (cgm_entry_in_chunks old_cgm)) g;
     g \<leftarrow> modify_cgm old_m (\<lambda>cgm. cgm\<lparr>cgm_entry_in_chunks := {}\<rparr>) g;
     old_cgm \<leftarrow> gr_modules g old_m;
     g \<leftarrow> replace_in_chunks (\<lambda>cgc. cgc\<lparr>cgc_runtime_modules := filter (\<lambda>i. old_m \<noteq> i) (cgc_runtime_modules cgc) @ [new_m]\<rparr>)
       (\<lambda>c cgm. cgm\<lparr>cgm_runtime_in_chunks := insert c (cgm_runtime_in_chunks cgm)\<rparr>) new_m (ord (cgm_runtime_in_chunks old_cgm)) g;
     modify_cgm old_m (\<lambda>cgm. cgm\<lparr>cgm_runtime_in_chunks := {}\<rparr>) g
   }"

definition rename_pair :: "module_identifier \<Rightarrow> module_identifier \<Rightarrow> chunk_ukey \<times> module_identifier \<Rightarrow> chunk_ukey \<times> module_identifier" where
  "rename_pair old_m new_m p = (fst p, if snd p = old_m then new_m else snd p)"

lemma replace_in_chunks_spec:
  assumes "distinct cs" "\<forall>c \<in> set cs. gr_chunks g c \<noteq> None" "gr_modules g m = Some cgm"
  shows "replace_in_chunks f h m cs g = Some (g\<lparr>
    gr_chunks := \<lambda>c. if c \<in> set cs then map_option f (gr_chunks g c) else gr_chunks g c,
    gr_modules := (gr_modules g)(m \<mapsto> fold h cs cgm)\<rparr>)"
  using assms
proof (induction cs arbitrary: g cgm)
  case Nil
  then have "(gr_modules g)(m \<mapsto> cgm) = gr_modules g" by auto
  then show ?case by (simp add: replace_in_chunks_def)
next
  case (Cons c cs)
  then obtain cgc where cgc: "gr_chunks g c = Some cgc" by auto
  define g1 where "g1 = g\<lparr>gr_chunks := (gr_chunks g)(c \<mapsto> f cgc), gr_modules := (gr_modules g)(m \<mapsto> h c cgm)\<rparr>"
  have "\<forall>c \<in> set cs. gr_chunks g1 c \<noteq> None" using Cons.prems by (auto simp: g1_def)
  moreover have "gr_modules g1 m = Some (h c cgm)" by (simp add: g1_def)
  ultimately have IH: "replace_in_chunks f h m cs g1 = Some (g1\<lparr>
    gr_chunks := \<lambda>c. if c \<in> set cs then map_option f (gr_chunks g1 c) else gr_chunks g1 c,
    gr_modules := (gr_modules g1)(m \<mapsto> fold h cs (h c cgm))\<rparr>)"
    using Cons.IH [of g1 "h c cgm"] Cons.prems(1) unfolding distinct.simps by blast
  have cs: "(\<lambda>k. if k \<in> set cs then map_option f (gr_chunks g1 k) else gr_chunks g1 k) =
      (\<lambda>k. if k \<in> set (c # cs) then map_option f (gr_chunks g k) else gr_chunks g k)"
    using cgc Cons.prems(1) by (intro ext) (auto simp: g1_def)
  have upd: "g1\<lparr>gr_chunks := A, gr_modules := (gr_modules g1)(m \<mapsto> X)\<rparr> =
      g\<lparr>gr_chunks := A, gr_modules := (gr_modules g)(m \<mapsto> X)\<rparr>" for A X
    by (simp add: g1_def)
  have "replace_in_chunks f h m (c # cs) g = replace_in_chunks f h m cs g1"
    using cgc Cons.prems(3) by (simp add: replace_in_chunks_def modify_known g1_def)
  then show ?case using IH unfolding cs upd fold_simps by (rule trans)
qed

text \<open>One stage of the replacement for one of the three relations, given by what it selects of chunks and modules.\<close>

definition left_rel :: "(chunk_graph_chunk \<Rightarrow> module_identifier set) \<Rightarrow> chunk_graph \<Rightarrow> (chunk_ukey \<times> module_identifier) set" where
  "left_rel sel g = {(c, m). \<exists>cgc. gr_chunks g c = Some cgc \<and> m \<in> sel cgc}"

definition right_rel :: "(chunk_graph_module \<Rightarrow> chunk_ukey set) \<Rightarrow> chunk_graph \<Rightarrow> (chunk_ukey \<times> module_identifier) set" where
  "right_rel sel g = {(c, m). \<exists>cgm. gr_modules g m = Some cgm \<and> c \<in> sel cgm}"

lemma relations_as_rels:
  "mods_of_chunks g = left_rel cgc_modules g" "chunks_of_mods g = right_rel cgm_chunks g"
  "entries_of_chunks g = left_rel (\<lambda>cgc. set (lm_keys (cgc_entry_modules cgc))) g"
  "chunks_of_entries g = right_rel cgm_entry_in_chunks g"
  "runtimes_of_chunks g = left_rel (\<lambda>cgc. set (cgc_runtime_modules cgc)) g"
  "chunks_of_runtimes g = right_rel cgm_runtime_in_chunks g"
  by (simp_all add: link_relations left_rel_def right_rel_def)

lemma left_rel_renamed:
  assumes g': "gr_chunks g' = (\<lambda>c. if c \<in> C then map_option f (gr_chunks g c) else gr_chunks g c)"
    and C: "\<And>c. c \<in> C \<longleftrightarrow> (c, old_m) \<in> left_rel sel g"
    and f: "\<And>x. old_m \<in> sel x \<Longrightarrow> sel (f x) = insert new_m (sel x - {old_m})"
  shows "left_rel sel g' = rename_pair old_m new_m ` left_rel sel g"
proof (rule set_eqI)
  fix p :: "chunk_ukey \<times> module_identifier"
  obtain c m where p: "p = (c, m)" by (cases p)
  have img: "(c, m) \<in> rename_pair old_m new_m ` left_rel sel g \<longleftrightarrow>
      (if (c, old_m) \<in> left_rel sel g then m = new_m \<or> (m \<noteq> old_m \<and> (c, m) \<in> left_rel sel g) else (c, m) \<in> left_rel sel g)"
  proof -
    have "(c, m) \<in> rename_pair old_m new_m ` left_rel sel g \<longleftrightarrow>
        (m = new_m \<and> (c, old_m) \<in> left_rel sel g) \<or> (m \<noteq> old_m \<and> (c, m) \<in> left_rel sel g)"
      by (force simp: rename_pair_def image_iff)
    then show ?thesis by (cases "m = old_m") auto
  qed
  show "p \<in> left_rel sel g' \<longleftrightarrow> p \<in> rename_pair old_m new_m ` left_rel sel g"
  proof (cases "c \<in> C")
    case True
    then obtain cgc where cgc: "gr_chunks g c = Some cgc" "old_m \<in> sel cgc" using C by (auto simp: left_rel_def)
    then have "(c, m) \<in> left_rel sel g' \<longleftrightarrow> m = new_m \<or> (m \<in> sel cgc \<and> m \<noteq> old_m)"
      using True f [OF cgc(2)] by (auto simp: left_rel_def g')
    then show ?thesis unfolding p img using cgc True C by (auto simp: left_rel_def)
  next
    case False
    then show ?thesis unfolding p img using C by (auto simp: left_rel_def g')
  qed
qed

lemma left_rel_unchanged:
  assumes "gr_chunks g' = (\<lambda>c. if c \<in> C then map_option f (gr_chunks g c) else gr_chunks g c)"
    and "\<And>x. sel (f x) = sel x"
  shows "left_rel sel g' = left_rel sel g"
  using assms by (auto simp: left_rel_def split: if_splits)

lemma right_rel_renamed:
  assumes g': "gr_modules g' = (gr_modules g)(new_m \<mapsto> fold h cs ncgm, old_m \<mapsto> clr ocgm)"
    and known: "gr_modules g new_m = Some ncgm" "gr_modules g old_m = Some ocgm" "old_m \<noteq> new_m"
    and cs: "set cs = sel ocgm"
    and h: "\<And>c x. sel (h c x) = insert c (sel x)" and clr: "\<And>x. sel (clr x) = {}"
  shows "right_rel sel g' = rename_pair old_m new_m ` right_rel sel g"
proof -
  have fold: "sel (fold h xs x) = set xs \<union> sel x" for xs x
    by (induction xs arbitrary: x) (auto simp: h)
  have "(c, m) \<in> right_rel sel g' \<longleftrightarrow> (c, m) \<in> rename_pair old_m new_m ` right_rel sel g" for c m
  proof -
    have "(c, m) \<in> rename_pair old_m new_m ` right_rel sel g \<longleftrightarrow>
        (m = new_m \<and> (c, old_m) \<in> right_rel sel g) \<or> (m \<noteq> old_m \<and> (c, m) \<in> right_rel sel g)"
      by (force simp: rename_pair_def image_iff)
    moreover have "(c, m) \<in> right_rel sel g' \<longleftrightarrow>
        (if m = old_m then False else if m = new_m then c \<in> sel ocgm \<or> c \<in> sel ncgm else (c, m) \<in> right_rel sel g)"
      using known(3) by (auto simp: right_rel_def g' fold clr cs)
    ultimately show ?thesis using known by (auto simp: right_rel_def)
  qed
  then show ?thesis by auto
qed

lemma right_rel_unchanged:
  assumes g': "gr_modules g' = (gr_modules g)(new_m \<mapsto> fold h cs ncgm, old_m \<mapsto> clr ocgm)"
    and known: "gr_modules g new_m = Some ncgm" "gr_modules g old_m = Some ocgm" "old_m \<noteq> new_m"
    and h: "\<And>c x. sel (h c x) = sel x" "\<And>x. sel (clr x) = sel x"
  shows "right_rel sel g' = right_rel sel g"
proof -
  have "sel (fold h xs x) = sel x" for xs x by (induction xs arbitrary: x) (auto simp: h)
  then show ?thesis using known by (auto simp: right_rel_def g' h split: if_splits)
qed

definition replace_stage where
  "replace_stage f h clr cs old_m new_m g = Option.bind (replace_in_chunks f h new_m cs g) (modify_cgm old_m clr)"

lemma replace_stage_maps:
  assumes "distinct cs" "\<forall>c \<in> set cs. gr_chunks g c \<noteq> None"
    and "gr_modules g new_m = Some ncgm" "gr_modules g old_m = Some ocgm" "old_m \<noteq> new_m"
  shows "\<exists>g'. replace_stage f h clr cs old_m new_m g = Some g' \<and>
    gr_chunks g' = (\<lambda>c. if c \<in> set cs then map_option f (gr_chunks g c) else gr_chunks g c) \<and>
    gr_modules g' = (gr_modules g)(new_m \<mapsto> fold h cs ncgm, old_m \<mapsto> clr ocgm)"
proof -
  define g1 where "g1 = g\<lparr>gr_chunks := \<lambda>c. if c \<in> set cs then map_option f (gr_chunks g c) else gr_chunks g c,
    gr_modules := (gr_modules g)(new_m \<mapsto> fold h cs ncgm)\<rparr>"
  have "replace_in_chunks f h new_m cs g = Some g1"
    using replace_in_chunks_spec [OF assms(1,2,3), of f h] unfolding g1_def .
  moreover have "gr_modules g1 old_m = Some ocgm" using assms(4,5) by (simp add: g1_def)
  ultimately have "replace_stage f h clr cs old_m new_m g = Some (g1\<lparr>gr_modules := (gr_modules g1)(old_m \<mapsto> clr ocgm)\<rparr>)"
    by (simp add: replace_stage_def modify_known)
  then show ?thesis by (simp add: g1_def)
qed

text \<open>Everything the replacement of one relation does, and what it leaves alone.\<close>

lemma replace_stage_spec:
  assumes ord: "hash_order ord" and known: "gr_modules g new_m = Some ncgm" "gr_modules g old_m = Some ocgm" "old_m \<noteq> new_m"
    and agree: "left_rel sel g = right_rel rsel g"
    and f: "\<And>x. old_m \<in> sel x \<Longrightarrow> sel (f x) = insert new_m (sel x - {old_m})"
    and h: "\<And>c x. rsel (h c x) = insert c (rsel x)" and clr: "\<And>x. rsel (clr x) = {}"
  shows "\<exists>g'. replace_stage f h clr (ord (rsel ocgm)) old_m new_m g = Some g' \<and>
    left_rel sel g' = rename_pair old_m new_m ` left_rel sel g \<and>
    right_rel rsel g' = rename_pair old_m new_m ` right_rel rsel g \<and>
    (\<forall>sel'. (\<forall>x. sel' (f x) = sel' x) \<longrightarrow> left_rel sel' g' = left_rel sel' g) \<and>
    (\<forall>rsel'. (\<forall>c x. rsel' (h c x) = rsel' x) \<and> (\<forall>x. rsel' (clr x) = rsel' x) \<longrightarrow> right_rel rsel' g' = right_rel rsel' g) \<and>
    gr_modules g' new_m \<noteq> None \<and> gr_modules g' old_m \<noteq> None"
proof -
  have cs: "distinct (ord (rsel ocgm))" "set (ord (rsel ocgm)) = rsel ocgm"
    using hash_orderD [OF ord] by simp_all
  have C: "c \<in> rsel ocgm \<longleftrightarrow> (c, old_m) \<in> left_rel sel g" for c
    unfolding agree using known(2) by (auto simp: right_rel_def)
  then have "\<forall>c \<in> set (ord (rsel ocgm)). gr_chunks g c \<noteq> None" by (auto simp: cs(2) left_rel_def)
  from replace_stage_maps [OF cs(1) this known, of f h clr]
  obtain g' where g': "replace_stage f h clr (ord (rsel ocgm)) old_m new_m g = Some g'"
    "gr_chunks g' = (\<lambda>c. if c \<in> rsel ocgm then map_option f (gr_chunks g c) else gr_chunks g c)"
    "gr_modules g' = (gr_modules g)(new_m \<mapsto> fold h (ord (rsel ocgm)) ncgm, old_m \<mapsto> clr ocgm)"
    unfolding cs(2) by blast
  have "left_rel sel g' = rename_pair old_m new_m ` left_rel sel g"
    by (rule left_rel_renamed [OF g'(2) C f])
  moreover have "right_rel rsel g' = rename_pair old_m new_m ` right_rel rsel g"
    by (rule right_rel_renamed [where sel = rsel and clr = clr, OF g'(3) known cs(2) h clr])
  moreover have "left_rel sel' g' = left_rel sel' g" if "\<forall>x. sel' (f x) = sel' x" for sel'
    using left_rel_unchanged [OF g'(2)] that by blast
  moreover have "right_rel rsel' g' = right_rel rsel' g"
    if "(\<forall>c x. rsel' (h c x) = rsel' x) \<and> (\<forall>x. rsel' (clr x) = rsel' x)" for rsel'
    using right_rel_unchanged [where clr = clr, OF g'(3) known] that by blast
  ultimately show ?thesis using g'(1,3) by fastforce
qed

lemma rename_entry_keys:
  assumes "old_m \<in> set (lm_keys (cgc_entry_modules x))"
  shows "set (lm_keys (cgc_entry_modules (rename_entry old_m new_m x))) =
    insert new_m (set (lm_keys (cgc_entry_modules x)) - {old_m})"
proof -
  have fold: "set (lm_keys (foldl (\<lambda>acc (m, cg). if m = old_m then lm_insert new_m v acc else lm_insert m cg acc) acc xs)) =
      set (lm_keys acc) \<union> (\<lambda>m. if m = old_m then new_m else m) ` set (lm_keys xs)" for acc xs and v :: chunk_group_ukey
  proof (induction xs arbitrary: acc)
    case (Cons p xs)
    obtain m cg where "p = (m, cg)" by (cases p)
    then show ?case by (simp add: Cons.IH lm_keys_def [of "(m, cg) # xs"] flip: lm_keys_def) auto
  qed simp
  obtain v where v: "map_of (cgc_entry_modules x) old_m = Some v"
    using assms by (cases "map_of (cgc_entry_modules x) old_m") (auto simp: lm_keys_def map_of_eq_None_iff)
  have "set (lm_keys (cgc_entry_modules (rename_entry old_m new_m x))) =
      (\<lambda>m. if m = old_m then new_m else m) ` set (lm_keys (cgc_entry_modules x))"
    by (simp add: rename_entry_def v fold)
  also have "\<dots> = insert new_m (set (lm_keys (cgc_entry_modules x)) - {old_m})" using assms by auto
  finally show ?thesis .
qed

lemma rename_entry_fields [simp]:
  "cgc_modules (rename_entry o_m n_m x) = cgc_modules x" "cgc_runtime_modules (rename_entry o_m n_m x) = cgc_runtime_modules x"
  by (simp_all add: rename_entry_def split: option.splits)

definition links_agree :: "chunk_graph \<Rightarrow> bool" where
  "links_agree g \<longleftrightarrow> mods_of_chunks g = chunks_of_mods g \<and> entries_of_chunks g = chunks_of_entries g \<and>
    runtimes_of_chunks g = chunks_of_runtimes g"

lemma add_module_rels:
  "left_rel sel (add_module m g) = left_rel sel g"
  "rsel cgm_new = {} \<Longrightarrow> right_rel rsel (add_module m g) = right_rel rsel g"
  by (auto simp: left_rel_def right_rel_def add_module_def or_insert_def split: if_splits)

lemma replace_module_stages:
  "replace_module ord old_m new_m g = do {
     let g = add_module new_m g;
     cgm \<leftarrow> gr_modules g old_m;
     g \<leftarrow> replace_stage (\<lambda>cgc. cgc\<lparr>cgc_modules := insert new_m (cgc_modules cgc - {old_m})\<rparr>)
       (\<lambda>c cgm. cgm\<lparr>cgm_chunks := insert c (cgm_chunks cgm)\<rparr>) (\<lambda>cgm. cgm\<lparr>cgm_chunks := {}\<rparr>)
       (ord (cgm_chunks cgm)) old_m new_m g;
     cgm \<leftarrow> gr_modules g old_m;
     g \<leftarrow> replace_stage (rename_entry old_m new_m)
       (\<lambda>c cgm. cgm\<lparr>cgm_entry_in_chunks := insert c (cgm_entry_in_chunks cgm)\<rparr>) (\<lambda>cgm. cgm\<lparr>cgm_entry_in_chunks := {}\<rparr>)
       (ord (cgm_entry_in_chunks cgm)) old_m new_m g;
     cgm \<leftarrow> gr_modules g old_m;
     replace_stage (\<lambda>cgc. cgc\<lparr>cgc_runtime_modules := filter (\<lambda>i. old_m \<noteq> i) (cgc_runtime_modules cgc) @ [new_m]\<rparr>)
       (\<lambda>c cgm. cgm\<lparr>cgm_runtime_in_chunks := insert c (cgm_runtime_in_chunks cgm)\<rparr>) (\<lambda>cgm. cgm\<lparr>cgm_runtime_in_chunks := {}\<rparr>)
       (ord (cgm_runtime_in_chunks cgm)) old_m new_m g
   }"
proof -
  have "(if gr_modules g new_m = None then g\<lparr>gr_modules := (gr_modules g)(new_m \<mapsto> cgm_new)\<rparr> else g) = add_module new_m g"
    by (simp add: add_module_def or_insert_def)
  then show ?thesis
    by (simp add: replace_module_def replace_stage_def Let_def)
qed

lemma replace_module_spec:
  assumes ord: "hash_order ord" and agree: "links_agree g" and old: "gr_modules g old_m \<noteq> None" and neq: "old_m \<noteq> new_m"
  shows "\<exists>g'. replace_module ord old_m new_m g = Some g' \<and> links_agree g' \<and>
    mods_of_chunks g' = rename_pair old_m new_m ` mods_of_chunks g \<and>
    entries_of_chunks g' = rename_pair old_m new_m ` entries_of_chunks g \<and>
    runtimes_of_chunks g' = rename_pair old_m new_m ` runtimes_of_chunks g"
proof -
  define g0 where "g0 = add_module new_m g"
  note rels = relations_as_rels
  have g0: "gr_modules g0 new_m \<noteq> None" "gr_modules g0 old_m \<noteq> None"
    using old neq by (auto simp: g0_def)
  have r0: "left_rel sel g0 = left_rel sel g" "rsel cgm_new = {} \<Longrightarrow> right_rel rsel g0 = right_rel rsel g" for sel rsel
    by (simp_all add: g0_def add_module_rels)
  have a: "left_rel cgc_modules g = right_rel cgm_chunks g"
    "left_rel (\<lambda>cgc. set (lm_keys (cgc_entry_modules cgc))) g = right_rel cgm_entry_in_chunks g"
    "left_rel (\<lambda>cgc. set (cgc_runtime_modules cgc)) g = right_rel cgm_runtime_in_chunks g"
    using agree unfolding links_agree_def rels by simp_all
  have n0: "right_rel cgm_chunks g0 = right_rel cgm_chunks g"
    "right_rel cgm_entry_in_chunks g0 = right_rel cgm_entry_in_chunks g"
    "right_rel cgm_runtime_in_chunks g0 = right_rel cgm_runtime_in_chunks g"
    by (rule r0(2), simp add: cgm_new_def)+
  let ?ren = "\<lambda>R. rename_pair old_m new_m ` R"
  let ?f1 = "\<lambda>cgc. cgc\<lparr>cgc_modules := insert new_m (cgc_modules cgc - {old_m})\<rparr>"
  let ?h1 = "\<lambda>c cgm. cgm\<lparr>cgm_chunks := insert c (cgm_chunks cgm)\<rparr>" and ?k1 = "\<lambda>cgm. cgm\<lparr>cgm_chunks := {}\<rparr>"
  let ?h2 = "\<lambda>c cgm. cgm\<lparr>cgm_entry_in_chunks := insert c (cgm_entry_in_chunks cgm)\<rparr>"
    and ?k2 = "\<lambda>cgm. cgm\<lparr>cgm_entry_in_chunks := {}\<rparr>"
  let ?f3 = "\<lambda>cgc. cgc\<lparr>cgc_runtime_modules := filter (\<lambda>i. old_m \<noteq> i) (cgc_runtime_modules cgc) @ [new_m]\<rparr>"
  let ?h3 = "\<lambda>c cgm. cgm\<lparr>cgm_runtime_in_chunks := insert c (cgm_runtime_in_chunks cgm)\<rparr>"
    and ?k3 = "\<lambda>cgm. cgm\<lparr>cgm_runtime_in_chunks := {}\<rparr>"
  let ?E = "\<lambda>cgc. set (lm_keys (cgc_entry_modules cgc))" and ?R = "\<lambda>cgc. set (cgc_runtime_modules cgc)"
  obtain n1 o1 where k1: "gr_modules g0 new_m = Some n1" "gr_modules g0 old_m = Some o1" using g0 by auto
  have "left_rel cgc_modules g0 = right_rel cgm_chunks g0" using a r0(1) n0 by simp
  from replace_stage_spec [OF ord k1 neq this, of ?f1 ?h1 ?k1]
  obtain g1 where s1: "replace_stage ?f1 ?h1 ?k1 (ord (cgm_chunks o1)) old_m new_m g0 = Some g1"
    and l1: "left_rel cgc_modules g1 = ?ren (left_rel cgc_modules g0)" "left_rel ?E g1 = left_rel ?E g0" "left_rel ?R g1 = left_rel ?R g0"
    and r1: "right_rel cgm_chunks g1 = ?ren (right_rel cgm_chunks g0)"
      "right_rel cgm_entry_in_chunks g1 = right_rel cgm_entry_in_chunks g0"
      "right_rel cgm_runtime_in_chunks g1 = right_rel cgm_runtime_in_chunks g0"
    and d1: "gr_modules g1 new_m \<noteq> None" "gr_modules g1 old_m \<noteq> None"
    by auto
  obtain n2 o2 where k2: "gr_modules g1 new_m = Some n2" "gr_modules g1 old_m = Some o2" using d1 by auto
  have "left_rel ?E g1 = right_rel cgm_entry_in_chunks g1" using a r0(1) n0 l1 r1 by simp
  from replace_stage_spec [OF ord k2 neq this, of "rename_entry old_m new_m" ?h2 ?k2]
  obtain g2 where s2: "replace_stage (rename_entry old_m new_m) ?h2 ?k2 (ord (cgm_entry_in_chunks o2)) old_m new_m g1 = Some g2"
    and l2: "left_rel ?E g2 = ?ren (left_rel ?E g1)" "left_rel cgc_modules g2 = left_rel cgc_modules g1" "left_rel ?R g2 = left_rel ?R g1"
    and r2: "right_rel cgm_entry_in_chunks g2 = ?ren (right_rel cgm_entry_in_chunks g1)"
      "right_rel cgm_chunks g2 = right_rel cgm_chunks g1"
      "right_rel cgm_runtime_in_chunks g2 = right_rel cgm_runtime_in_chunks g1"
    and d2: "gr_modules g2 new_m \<noteq> None" "gr_modules g2 old_m \<noteq> None"
    by (auto simp: rename_entry_keys)
  obtain n3 o3 where k3: "gr_modules g2 new_m = Some n3" "gr_modules g2 old_m = Some o3" using d2 by auto
  have "left_rel ?R g2 = right_rel cgm_runtime_in_chunks g2" using a r0(1) n0 l1 r1 l2 r2 by simp
  moreover have "?R (?f3 x) = insert new_m (?R x - {old_m})" for x by auto
  ultimately have "\<exists>g'. replace_stage ?f3 ?h3 ?k3 (ord (cgm_runtime_in_chunks o3)) old_m new_m g2 = Some g' \<and>
    left_rel ?R g' = ?ren (left_rel ?R g2) \<and>
    right_rel cgm_runtime_in_chunks g' = ?ren (right_rel cgm_runtime_in_chunks g2) \<and>
    (\<forall>sel'. (\<forall>x. sel' (?f3 x) = sel' x) \<longrightarrow> left_rel sel' g' = left_rel sel' g2) \<and>
    (\<forall>rsel'. (\<forall>c x. rsel' (?h3 c x) = rsel' x) \<and> (\<forall>x. rsel' (?k3 x) = rsel' x) \<longrightarrow> right_rel rsel' g' = right_rel rsel' g2) \<and>
    gr_modules g' new_m \<noteq> None \<and> gr_modules g' old_m \<noteq> None"
    by (intro replace_stage_spec [OF ord k3 neq]) auto
  then
  obtain g3 where s3: "replace_stage ?f3 ?h3 ?k3 (ord (cgm_runtime_in_chunks o3)) old_m new_m g2 = Some g3"
    and l3: "left_rel ?R g3 = ?ren (left_rel ?R g2)" "left_rel cgc_modules g3 = left_rel cgc_modules g2" "left_rel ?E g3 = left_rel ?E g2"
    and r3: "right_rel cgm_runtime_in_chunks g3 = ?ren (right_rel cgm_runtime_in_chunks g2)"
      "right_rel cgm_chunks g3 = right_rel cgm_chunks g2"
      "right_rel cgm_entry_in_chunks g3 = right_rel cgm_entry_in_chunks g2"
    by auto
  have "replace_module ord old_m new_m g = Some g3"
    unfolding replace_module_stages Let_def g0_def [symmetric]
    by (simp only: k1(2) s1 k2(2) s2 k3(2) s3 bind.bind_lunit)
  moreover have "left_rel cgc_modules g3 = ?ren (left_rel cgc_modules g)" "left_rel ?E g3 = ?ren (left_rel ?E g)"
    "left_rel ?R g3 = ?ren (left_rel ?R g)" "right_rel cgm_chunks g3 = ?ren (right_rel cgm_chunks g)"
    "right_rel cgm_entry_in_chunks g3 = ?ren (right_rel cgm_entry_in_chunks g)"
    "right_rel cgm_runtime_in_chunks g3 = ?ren (right_rel cgm_runtime_in_chunks g)"
    by (simp_all only: l1 l2 l3 r1 r2 r3 r0(1) n0)
  ultimately show ?thesis
    unfolding links_agree_def rels by (intro exI [of _ g3]) (simp only: a simp_thms)
qed

section \<open>Removing a module\<close>

lemma remove_module_spec:
  assumes ord: "hash_order ord" and agree: "mods_of_chunks g = chunks_of_mods g"
    and known: "gr_modules g m = Some cgm"
  shows "\<exists>g'. remove_module ord m g = Some g' \<and> gr_modules g' = (gr_modules g)(m := None) \<and>
    gr_blocks g' = (gr_blocks g)(m := None) \<and>
    mods_of_chunks g' = {(c, k) \<in> mods_of_chunks g. k \<noteq> m} \<and>
    chunks_of_mods g' = {(c, k) \<in> chunks_of_mods g. k \<noteq> m} \<and>
    entries_of_chunks g' = {(c, k) \<in> entries_of_chunks g. k = m \<longrightarrow> (c, m) \<notin> mods_of_chunks g}"
proof -
  let ?f = "\<lambda>cgc. cgc\<lparr>cgc_modules := cgc_modules cgc - {m}, cgc_entry_modules := lm_remove m (cgc_entry_modules cgc)\<rparr>"
  let ?g0 = "g\<lparr>gr_modules := (gr_modules g)(m := None)\<rparr>"
  let ?cs = "\<lambda>c. if c \<in> cgm_chunks cgm then map_option ?f (gr_chunks g c) else gr_chunks g c"
  have set: "set (ord (cgm_chunks cgm)) = cgm_chunks cgm" using hash_orderD(2) [OF ord] by simp
  have mem: "c \<in> cgm_chunks cgm \<longleftrightarrow> (c, m) \<in> mods_of_chunks g" for c
    unfolding agree using known by (simp add: chunks_of_mods_def)
  have "\<forall>c \<in> set (ord (cgm_chunks cgm)). gr_chunks ?g0 c \<noteq> None"
    unfolding set using mem by (auto simp: mods_of_chunks_def)
  moreover have "?f (?f x) = ?f x" for x by (simp add: lm_remove_def)
  ultimately have "for_each (\<lambda>c. modify_cgc c ?f) (ord (cgm_chunks cgm)) ?g0 =
      Some (?g0\<lparr>gr_chunks := \<lambda>c. if c \<in> set (ord (cgm_chunks cgm)) then map_option ?f (gr_chunks ?g0 c) else gr_chunks ?g0 c\<rparr>)"
    by (rule modify_all_cgc)
  then have eq: "remove_module ord m g = Some (g\<lparr>gr_blocks := (gr_blocks g)(m := None), gr_modules := (gr_modules g)(m := None), gr_chunks := ?cs\<rparr>)"
    by (simp add: remove_module_def known set cong: if_cong)
  let ?g' = "g\<lparr>gr_blocks := (gr_blocks g)(m := None), gr_modules := (gr_modules g)(m := None), gr_chunks := ?cs\<rparr>"
  have "mods_of_chunks ?g' = {(c, k) \<in> mods_of_chunks g. k \<noteq> m}"
    using mem by (auto simp: mods_of_chunks_def split: if_splits)
  moreover have "entries_of_chunks ?g' = {(c, k) \<in> entries_of_chunks g. k = m \<longrightarrow> (c, m) \<notin> mods_of_chunks g}"
    unfolding mem [symmetric] by (auto simp: entries_of_chunks_def split: if_splits)
  moreover have "chunks_of_mods ?g' = {(c, k) \<in> chunks_of_mods g. k \<noteq> m}"
    by (auto simp: chunks_of_mods_def split: if_splits)
  ultimately show ?thesis using eq by (intro exI [of _ ?g']) simp
qed

section \<open>Properties\<close>

text \<open>
  C15. Chunk and module stay linked both ways: connecting any list of pairs never panics and adds exactly these
  pairs on both sides, disconnecting existing pairs removes exactly these, and disconnecting a freshly connected
  pair restores the relation.
\<close>

theorem module_links_correct:
  assumes "mods_of_chunks g = chunks_of_mods g"
  shows "(\<exists>g'. for_each (\<lambda>(c, m). connect_chunk_and_module c m) ps g = Some g' \<and>
      mods_of_chunks g' = chunks_of_mods g' \<and> mods_of_chunks g' = mods_of_chunks g \<union> set ps) \<and>
    (distinct qs \<and> set qs \<subseteq> mods_of_chunks g \<longrightarrow>
      (\<exists>g'. for_each (\<lambda>(c, m). disconnect_chunk_and_module c m) qs g = Some g' \<and>
      mods_of_chunks g' = chunks_of_mods g' \<and> mods_of_chunks g' = mods_of_chunks g - set qs)) \<and>
    ((c, m) \<notin> mods_of_chunks g \<longrightarrow> (\<exists>g' g''. connect_chunk_and_module c m g = Some g' \<and>
      disconnect_chunk_and_module c m g' = Some g'' \<and> mods_of_chunks g'' = mods_of_chunks g \<and> chunks_of_mods g'' = chunks_of_mods g))"
proof (intro conjI impI)
  have a: "module_links.agree g" using assms by (simp add: module_links.agree_def)
  show "\<exists>g'. for_each (\<lambda>(c, m). connect_chunk_and_module c m) ps g = Some g' \<and>
      mods_of_chunks g' = chunks_of_mods g' \<and> mods_of_chunks g' = mods_of_chunks g \<union> set ps"
    using module_links.connect_all [OF a] unfolding module_links.agree_def by blast
  show "\<exists>g'. for_each (\<lambda>(c, m). disconnect_chunk_and_module c m) qs g = Some g' \<and>
      mods_of_chunks g' = chunks_of_mods g' \<and> mods_of_chunks g' = mods_of_chunks g - set qs"
    if "distinct qs \<and> set qs \<subseteq> mods_of_chunks g"
    using module_links.disconnect_all [OF a] that unfolding module_links.agree_def by blast
  show "\<exists>g' g''. connect_chunk_and_module c m g = Some g' \<and> disconnect_chunk_and_module c m g' = Some g'' \<and>
      mods_of_chunks g'' = mods_of_chunks g \<and> chunks_of_mods g'' = chunks_of_mods g"
    if "(c, m) \<notin> mods_of_chunks g"
    using module_links.connect_disconnect [OF a that] assms unfolding module_links.agree_def by force
qed

theorem module_links_correct_witness:
  "\<exists>g'. for_each (\<lambda>(c, m). connect_chunk_and_module c m) [(1, ''m''), (2, ''m'')] chunk_graph_new = Some g' \<and>
    mods_of_chunks g' = {(1, ''m''), (2, ''m'')} \<and> chunks_of_mods g' = {(1, ''m''), (2, ''m'')}"
proof -
  have "mods_of_chunks chunk_graph_new = {}" "chunks_of_mods chunk_graph_new = {}"
    by (simp_all add: link_relations chunk_graph_new_def)
  then have e: "mods_of_chunks chunk_graph_new = chunks_of_mods chunk_graph_new" "mods_of_chunks chunk_graph_new = {}" by simp_all
  obtain g' where g': "for_each (\<lambda>(c, m). connect_chunk_and_module c m) [(1, ''m''), (2, ''m'')] chunk_graph_new = Some g'"
    "mods_of_chunks g' = chunks_of_mods g'" "mods_of_chunks g' = mods_of_chunks chunk_graph_new \<union> set [(1, ''m''), (2, ''m'')]"
    using module_links_correct [OF e(1), THEN conjunct1] by blast
  have "mods_of_chunks g' = {(1, ''m''), (2, ''m'')}" unfolding g'(3) e(2) by auto
  then show ?thesis using g'(1,2) by (intro exI [of _ g']) (simp only: simp_thms)
qed

text \<open>
  Connecting a runtime module adds the pair on both sides, keeps the ordered list of runtime modules of each
  chunk free of duplicates, and disconnecting it (which never panics) removes exactly that pair.
\<close>

theorem runtime_links_correct:
  assumes "runtimes_of_chunks g = chunks_of_runtimes g" "\<forall>cgc \<in> ran (gr_chunks g). distinct (cgc_runtime_modules cgc)"
  shows "\<exists>g'. connect_chunk_and_runtime_module c m g = Some g' \<and>
    runtimes_of_chunks g' = insert (c, m) (runtimes_of_chunks g) \<and> chunks_of_runtimes g' = runtimes_of_chunks g' \<and>
    (\<forall>cgc \<in> ran (gr_chunks g'). distinct (cgc_runtime_modules cgc)) \<and>
    runtimes_of_chunks (disconnect_chunk_and_runtime_module c m g') = runtimes_of_chunks g - {(c, m)} \<and>
    chunks_of_runtimes (disconnect_chunk_and_runtime_module c m g') = runtimes_of_chunks g - {(c, m)}"
proof -
  obtain g' where g': "connect_chunk_and_runtime_module c m g = Some g'" "runtime_links.agree g'"
    "runtimes_of_chunks g' = insert (c, m) (runtimes_of_chunks g)"
    using runtime_links.connect_agree [of g c m] assms(1) unfolding runtime_links.agree_def by blast
  then show ?thesis
    using runtime_modules_distinct [OF g'(1) assms(2)] disconnect_runtime_spec [of c m g']
    unfolding runtime_links.agree_def by auto
qed

theorem runtime_links_correct_witness:
  "\<exists>g'. connect_chunk_and_runtime_module 1 ''r'' chunk_graph_new = Some g' \<and> runtimes_of_chunks g' = {(1, ''r'')}"
proof -
  have "runtimes_of_chunks chunk_graph_new = {}" "chunks_of_runtimes chunk_graph_new = {}" "ran (gr_chunks chunk_graph_new) = {}"
    by (simp_all add: link_relations chunk_graph_new_def)
  then show ?thesis using runtime_links_correct [of chunk_graph_new 1 "''r''"] by auto
qed

text \<open>
  C16. The bulk operations of the chunk graph agree with the pairwise ones:
  \<open>disconnect_chunks_and_modules\<close> removes the product of the chunks and modules,
  \<open>connect_chunk_and_modules\<close> adds the modules to the chunk, and both sides keep agreeing.
\<close>

theorem bulk_links_correct:
  assumes "mods_of_chunks g = chunks_of_mods g"
    and "\<forall>c \<in> set cs. gr_chunks g c \<noteq> None" "\<forall>m \<in> set ms. gr_modules g m \<noteq> None"
  shows "(\<exists>g'. disconnect_chunks_and_modules cs ms g = Some g' \<and>
      mods_of_chunks g' = mods_of_chunks g - set cs \<times> set ms \<and> chunks_of_mods g' = mods_of_chunks g') \<and>
    (\<forall>c \<in> set cs. \<exists>g'. connect_chunk_and_modules c ms g = Some g' \<and>
      mods_of_chunks g' = mods_of_chunks g \<union> {c} \<times> set ms \<and> chunks_of_mods g' = mods_of_chunks g')"
proof
  show "\<exists>g'. disconnect_chunks_and_modules cs ms g = Some g' \<and>
      mods_of_chunks g' = mods_of_chunks g - set cs \<times> set ms \<and> chunks_of_mods g' = mods_of_chunks g'"
    using disconnect_modules_spec [OF assms(2,3)] assms(1) by force
  show "\<forall>c \<in> set cs. \<exists>g'. connect_chunk_and_modules c ms g = Some g' \<and>
      mods_of_chunks g' = mods_of_chunks g \<union> {c} \<times> set ms \<and> chunks_of_mods g' = mods_of_chunks g'"
    using connect_modules_spec [OF _ assms(3)] assms(1,2) by force
qed

definition sample_graph :: chunk_graph where
  "sample_graph = chunk_graph_new\<lparr>
     gr_modules := [''m'' \<mapsto> cgm_new\<lparr>cgm_chunks := {1, 2}, cgm_entry_in_chunks := {1}\<rparr>],
     gr_chunks := [1 \<mapsto> cgc_new\<lparr>cgc_modules := {''m''}, cgc_entry_modules := [(''m'', 0)]\<rparr>,
                   2 \<mapsto> cgc_new\<lparr>cgc_modules := {''m''}\<rparr>]\<rparr>"

lemma sample_graph_rels:
  "mods_of_chunks sample_graph = {(1, ''m''), (2, ''m'')}" "chunks_of_mods sample_graph = {(1, ''m''), (2, ''m'')}"
  "entries_of_chunks sample_graph = {(1, ''m'')}" "chunks_of_entries sample_graph = {(1, ''m'')}"
  "runtimes_of_chunks sample_graph = {}" "chunks_of_runtimes sample_graph = {}"
  by (auto simp: link_relations sample_graph_def cgc_new_def cgm_new_def chunk_graph_new_def lm_keys_def split: if_splits)

theorem bulk_links_correct_witness:
  "\<exists>g'. disconnect_chunks_and_modules [1] [''m''] sample_graph = Some g' \<and> mods_of_chunks g' = {(2, ''m'')}"
proof -
  have "\<forall>c \<in> set [1]. gr_chunks sample_graph c \<noteq> None" "\<forall>m \<in> set [''m'']. gr_modules sample_graph m \<noteq> None"
    by (auto simp: sample_graph_def)
  from bulk_links_correct [OF _ this] show ?thesis by (auto simp: sample_graph_rels)
qed

text \<open>
  C14. \<open>replace_module\<close> renames the old module to the new one in all three relations (modules, entry
  modules, runtime modules), on both sides, for every hash order, and never panics on a graph whose two sides
  agree.
\<close>

theorem replace_module_correct:
  assumes "hash_order ord" "links_agree g" "gr_modules g old_m \<noteq> None" "old_m \<noteq> new_m"
  shows "\<exists>g'. replace_module ord old_m new_m g = Some g' \<and> links_agree g' \<and>
    mods_of_chunks g' = rename_pair old_m new_m ` mods_of_chunks g \<and>
    entries_of_chunks g' = rename_pair old_m new_m ` entries_of_chunks g \<and>
    runtimes_of_chunks g' = rename_pair old_m new_m ` runtimes_of_chunks g"
  using replace_module_spec [OF assms] .

theorem replace_module_correct_witness:
  "\<exists>g'. replace_module sorted_list_of_set ''m'' ''n'' sample_graph = Some g' \<and>
    mods_of_chunks g' = {(1, ''n''), (2, ''n'')} \<and> entries_of_chunks g' = {(1, ''n'')}"
proof -
  have "links_agree sample_graph" by (simp add: links_agree_def sample_graph_rels)
  moreover have "gr_modules sample_graph ''m'' \<noteq> None" by (simp add: sample_graph_def)
  ultimately obtain g' where "replace_module sorted_list_of_set ''m'' ''n'' sample_graph = Some g'"
    "mods_of_chunks g' = rename_pair ''m'' ''n'' ` mods_of_chunks sample_graph"
    "entries_of_chunks g' = rename_pair ''m'' ''n'' ` entries_of_chunks sample_graph"
    using replace_module_correct [of sorted_list_of_set sample_graph "''m''" "''n''"] by auto
  then show ?thesis by (simp add: sample_graph_rels rename_pair_def)
qed

text \<open>
  Removing a module deletes it from every chunk that lists it, modules and entry modules alike, when the
  entry modules of each chunk are modules of it; both sides keep agreeing.
\<close>

theorem remove_module_correct:
  assumes "hash_order ord" "mods_of_chunks g = chunks_of_mods g" "entries_of_chunks g \<subseteq> mods_of_chunks g"
  shows "\<exists>g'. remove_module ord m g = Some g' \<and> mods_of_chunks g' = chunks_of_mods g' \<and>
    mods_of_chunks g' = {(c, k) \<in> mods_of_chunks g. k \<noteq> m} \<and>
    entries_of_chunks g' = {(c, k) \<in> entries_of_chunks g. k \<noteq> m}"
proof (cases "gr_modules g m")
  case None
  then have "mods_of_chunks g = {(c, k) \<in> mods_of_chunks g. k \<noteq> m}" unfolding assms(2) by (auto simp: chunks_of_mods_def)
  moreover from this have "entries_of_chunks g = {(c, k) \<in> entries_of_chunks g. k \<noteq> m}" using assms(3) by blast
  ultimately show ?thesis using None assms(2) by (simp add: remove_module_def)
next
  case (Some cgm)
  from remove_module_spec [OF assms(1,2) Some] show ?thesis using assms(2,3) by force
qed

theorem remove_module_correct_witness:
  "\<exists>g'. remove_module sorted_list_of_set ''m'' sample_graph = Some g' \<and> mods_of_chunks g' = {} \<and> entries_of_chunks g' = {}"
  using remove_module_correct [of sorted_list_of_set sample_graph "''m''"] by (auto simp: sample_graph_rels)

end
