(* ===== verification/Chunk_Integration.thy ===== *)
theory Chunk_Integration
  imports Chunk_Graph
begin

text \<open>
  The second half of \<open>chunk_graph_chunk.rs\<close>: module queries by source type, chunk sizes, the order on chunks,
  which chunks can be integrated, and \<open>integrate_chunks\<close>, which merges one chunk into another across the
  chunk database, the chunk group database and the chunk graph.
\<close>

section \<open>Modules of a chunk\<close>

definition get_chunk_modules :: "module_order \<Rightarrow> chunk_ukey \<Rightarrow> 'f module_graph \<Rightarrow> chunk_graph \<Rightarrow> 'f module_info list option" where
  "get_chunk_modules mord c mg g = map_option (\<lambda>cgc. List.map_filter mg (mord (cgc_modules cgc))) (gr_chunks g c)"

definition get_ordered_chunk_modules_identifier :: "chunk_ukey \<Rightarrow> chunk_graph \<Rightarrow> module_identifier list option" where
  "get_ordered_chunk_modules_identifier c g = map_option (\<lambda>cgc. sorted_list_of_set (cgc_modules cgc)) (gr_chunks g c)"

definition get_ordered_chunk_modules :: "module_order \<Rightarrow> chunk_ukey \<Rightarrow> 'f module_graph \<Rightarrow> chunk_graph \<Rightarrow> 'f module_info list option" where
  "get_ordered_chunk_modules mord c mg g =
    map_option (sort_by (\<lambda>x y. cmp_ord (mi_identifier x) (mi_identifier y))) (get_chunk_modules mord c mg g)"

text \<open>The module \<open>mid\<close> of a chunk when it has the source type: the override of the chunk wins over the module's own types.\<close>

definition module_of_source_type :: "source_type \<Rightarrow> 'f module_graph \<Rightarrow> chunk_graph_chunk \<Rightarrow> module_identifier \<Rightarrow> 'f module_info option" where
  "module_of_source_type st mg cgc mid =
    (case Option.bind (cgc_source_types_by_module cgc) (\<lambda>s. s mid) of
       Some module_source_types \<Rightarrow> if st \<in> module_source_types then mg mid else None
     | None \<Rightarrow> (case mg mid of
          None \<Rightarrow> None
        | Some module \<Rightarrow> if st \<in> set (mi_source_types module) then Some module else None))"

definition has_chunk_module_by_source_type :: "module_order \<Rightarrow> chunk_ukey \<Rightarrow> source_type \<Rightarrow> 'f module_graph \<Rightarrow> chunk_graph \<Rightarrow> bool option" where
  "has_chunk_module_by_source_type mord c st mg g = map_option (\<lambda>cgc.
     if st = RuntimeType then False
     else list_ex (\<lambda>mid. module_of_source_type st mg cgc mid \<noteq> None) (mord (cgc_modules cgc))) (gr_chunks g c)"

definition get_chunk_modules_by_source_type :: "module_order \<Rightarrow> chunk_ukey \<Rightarrow> source_type \<Rightarrow> 'f module_graph \<Rightarrow> chunk_graph \<Rightarrow> 'f module_info list option" where
  "get_chunk_modules_by_source_type mord c st mg g = map_option (\<lambda>cgc.
     if st = RuntimeType then [] else List.map_filter (module_of_source_type st mg cgc) (mord (cgc_modules cgc))) (gr_chunks g c)"

text \<open>The identifier variant does not look an overridden module up.\<close>

definition get_chunk_modules_identifier_by_source_type :: "module_order \<Rightarrow> chunk_ukey \<Rightarrow> source_type \<Rightarrow> 'f module_graph \<Rightarrow> chunk_graph \<Rightarrow> module_identifier list option" where
  "get_chunk_modules_identifier_by_source_type mord c st mg g = map_option (\<lambda>cgc.
     if st = RuntimeType then [] else List.map_filter (\<lambda>mid.
       (case Option.bind (cgc_source_types_by_module cgc) (\<lambda>s. s mid) of
          Some module_source_types \<Rightarrow> if st \<in> module_source_types then Some mid else None
        | None \<Rightarrow> (case mg mid of
             None \<Rightarrow> None
           | Some module \<Rightarrow> if st \<in> set (mi_source_types module) then Some (mi_identifier module) else None)))
       (mord (cgc_modules cgc))) (gr_chunks g c)"

lemma get_modules_by_source_type_spec:
  assumes "hash_order mord" "gr_chunks g c = Some cgc" "finite (cgc_modules cgc)"
  shows "\<exists>ms. get_chunk_modules_by_source_type mord c st mg g = Some ms \<and>
    set ms = (if st = RuntimeType then {} else {mi. \<exists>m \<in> cgc_modules cgc. module_of_source_type st mg cgc m = Some mi}) \<and>
    (has_chunk_module_by_source_type mord c st mg g = Some (ms \<noteq> []))"
proof -
  have ord: "set (mord (cgc_modules cgc)) = cgc_modules cgc" using hash_orderD(2) assms(1,3) by blast
  have "set (List.map_filter f xs) = {y. \<exists>x \<in> set xs. f x = Some y}" for f :: "module_identifier \<Rightarrow> 'a module_info option" and xs
    by (induction xs) (auto split: option.splits)
  moreover have "list_ex (\<lambda>x. f x \<noteq> None) xs \<longleftrightarrow> List.map_filter f xs \<noteq> []" for f :: "module_identifier \<Rightarrow> 'a module_info option" and xs
    by (induction xs) (auto split: option.splits)
  ultimately show ?thesis
    using assms(2) ord by (simp add: get_chunk_modules_by_source_type_def has_chunk_module_by_source_type_def)
qed

text \<open>A runtime module is the record of what the graph asks of it.\<close>

record runtime_module_info =
  rmi_full_hash :: bool
  rmi_dependent_hash :: bool
  rmi_stage :: nat

definition has_chunk_full_hash_modules :: "chunk_ukey \<Rightarrow> (module_identifier \<rightharpoonup> runtime_module_info) \<Rightarrow> chunk_graph \<Rightarrow> bool option" where
  "has_chunk_full_hash_modules c rms g = do {
     cgc \<leftarrow> gr_chunks g c;
     any_opt (\<lambda>m. map_option rmi_full_hash (rms m)) (cgc_runtime_modules cgc)
   }"

definition has_chunk_dependent_hash_modules :: "chunk_ukey \<Rightarrow> (module_identifier \<rightharpoonup> runtime_module_info) \<Rightarrow> chunk_graph \<Rightarrow> bool option" where
  "has_chunk_dependent_hash_modules c rms g = do {
     cgc \<leftarrow> gr_chunks g c;
     any_opt (\<lambda>m. map_option rmi_dependent_hash (rms m)) (cgc_runtime_modules cgc)
   }"

definition cmp_runtime_module :: "module_identifier \<times> runtime_module_info \<Rightarrow> module_identifier \<times> runtime_module_info \<Rightarrow> ordering" where
  "cmp_runtime_module a b = then_ordering (cmp_ord (rmi_stage (snd a)) (rmi_stage (snd b))) (cmp_ord (fst a) (fst b))"

definition get_chunk_runtime_modules_in_order ::
  "chunk_ukey \<Rightarrow> (module_identifier \<rightharpoonup> runtime_module_info) \<Rightarrow> chunk_graph \<Rightarrow> (module_identifier \<times> runtime_module_info) list option" where
  "get_chunk_runtime_modules_in_order c rms g = do {
     cgc \<leftarrow> gr_chunks g c;
     ms \<leftarrow> those (map (\<lambda>m. map_option (Pair m) (rms m)) (cgc_runtime_modules cgc));
     Some (sort_by cmp_runtime_module ms)
   }"

interpretation runtime_module_cmp: comparator cmp_runtime_module
  unfolding cmp_runtime_module_def
  by (rule comparator_then; rule comparator_key [OF ord_cmp.comparator_axioms])

section \<open>Sizes\<close>

record 'f chunk_size_options =
  cso_chunk_overhead :: "'f option"
  cso_entry_chunk_multiplicator :: "'f option"

definition get_modules_size :: "('f :: {zero, plus}) module_info list \<Rightarrow> 'f" where
  "get_modules_size modules =
    foldl (\<lambda>size m. foldl (\<lambda>size st. size + mi_size m st) size (mi_source_types m)) 0 modules"

definition size_with_overhead :: "('f :: {numeral, zero, plus, times}) chunk_size_options \<Rightarrow> 'f \<Rightarrow> bool \<Rightarrow> 'f" where
  "size_with_overhead options modules_size initial =
    (let chunk_overhead = (case cso_chunk_overhead options of None \<Rightarrow> 10000 | Some v \<Rightarrow> v);
         entry_chunk_multiplicator = (case cso_entry_chunk_multiplicator options of None \<Rightarrow> 10 | Some v \<Rightarrow> v)
     in chunk_overhead + modules_size * (if initial then entry_chunk_multiplicator else 1))"

definition get_chunk_size :: "group_order \<Rightarrow> module_order \<Rightarrow> chunk_ukey \<Rightarrow> ('f :: {numeral, zero, plus, times}) chunk_size_options \<Rightarrow>
    chunk_by_ukey \<Rightarrow> chunk_group_by_ukey \<Rightarrow> 'f module_graph \<Rightarrow> chunk_graph \<Rightarrow> 'f option" where
  "get_chunk_size ord mord c options cdb gdb mg g = do {
     modules \<leftarrow> get_chunk_modules mord c mg g;
     chunk \<leftarrow> cdb c;
     Some (size_with_overhead options (get_modules_size modules) (can_be_initial ord gdb chunk))
   }"

definition get_integrated_chunks_size :: "group_order \<Rightarrow> module_order \<Rightarrow> chunk_ukey \<Rightarrow> chunk_ukey \<Rightarrow>
    ('f :: {numeral, zero, plus, times}) chunk_size_options \<Rightarrow>
    chunk_by_ukey \<Rightarrow> chunk_group_by_ukey \<Rightarrow> 'f module_graph \<Rightarrow> chunk_graph \<Rightarrow> 'f option" where
  "get_integrated_chunks_size ord mord a b options cdb gdb mg g = do {
     modules_a \<leftarrow> get_chunk_modules mord a mg g;
     modules_b \<leftarrow> get_chunk_modules mord b mg g;
     chunk_a \<leftarrow> cdb a;
     chunk_b \<leftarrow> cdb b;
     Some (size_with_overhead options (get_modules_size (modules_a @ modules_b))
       (can_be_initial ord gdb chunk_a \<or> can_be_initial ord gdb chunk_b))
   }"

section \<open>The order on chunks\<close>

fun compare_module_iterables :: "module_identifier list \<Rightarrow> module_identifier list \<Rightarrow> ordering" where
  "compare_module_iterables [] [] = Equal"
| "compare_module_iterables [] (_ # _) = Greater"
| "compare_module_iterables (_ # _) [] = Less"
| "compare_module_iterables (a # as) (b # bs) =
    (let res = cmp_ord a b in if res \<noteq> Equal then res else compare_module_iterables as bs)"

definition compare_chunks_with_graph :: "chunk_graph \<Rightarrow> 'f module_graph \<Rightarrow> chunk_ukey \<Rightarrow> chunk_ukey \<Rightarrow> ordering option" where
  "compare_chunks_with_graph g mg a b = do {
     modules_a \<leftarrow> get_ordered_chunk_modules_identifier a g;
     modules_b \<leftarrow> get_ordered_chunk_modules_identifier b g;
     Some (if length modules_a > length modules_b then Less
       else if length modules_a < length modules_b then Greater
       else compare_module_iterables (filter (\<lambda>m. mg m \<noteq> None) modules_a) (filter (\<lambda>m. mg m \<noteq> None) modules_b))
   }"

fun compare_chunks_iterables :: "chunk_graph \<Rightarrow> 'f module_graph \<Rightarrow> chunk_ukey list \<Rightarrow> chunk_ukey list \<Rightarrow> ordering option" where
  "compare_chunks_iterables g mg [] [] = Some Equal"
| "compare_chunks_iterables g mg [] (_ # _) = Some Greater"
| "compare_chunks_iterables g mg (_ # _) [] = Some Less"
| "compare_chunks_iterables g mg (a # as) (b # bs) = do {
     res \<leftarrow> compare_chunks_with_graph g mg a b;
     if res \<noteq> Equal then Some res else compare_chunks_iterables g mg as bs
   }"

definition compare_chunk_group :: "chunk_graph \<Rightarrow> 'f module_graph \<Rightarrow> chunk_group_by_ukey \<Rightarrow> chunk_group_ukey \<Rightarrow> chunk_group_ukey \<Rightarrow> ordering option" where
  "compare_chunk_group g mg gdb a b = do {
     group_a \<leftarrow> gdb a;
     group_b \<leftarrow> gdb b;
     (case cmp_ord (length (cg_chunks group_a)) (length (cg_chunks group_b)) of
        Less \<Rightarrow> Some Greater
      | Greater \<Rightarrow> Some Less
      | Equal \<Rightarrow> compare_chunks_iterables g mg (cg_chunks group_a) (cg_chunks group_b))
   }"

lemma compare_modules_Cons: "compare_module_iterables (a # as) (b # bs) =
    then_ordering (cmp_ord a b) (compare_module_iterables as bs)"
  by (auto simp: Let_def cmp_ord_def)

interpretation module_list_cmp: comparator compare_module_iterables
proof
  show "compare_module_iterables ys xs = reverse_ordering (compare_module_iterables xs ys)" for xs ys
  proof (induction xs ys rule: compare_module_iterables.induct)
    case (4 a as b bs)
    then show ?case
      by (cases "a = b") (auto simp: compare_modules_Cons cmp_ord_def simp del: compare_module_iterables.simps(4))
  qed simp_all
  show "compare_module_iterables xs zs \<noteq> Greater"
    if "compare_module_iterables xs ys \<noteq> Greater" "compare_module_iterables ys zs \<noteq> Greater" for xs ys zs
    using that
  proof (induction xs ys arbitrary: zs rule: compare_module_iterables.induct)
    case (4 a as b bs)
    show ?case
    proof (cases zs)
      case (Cons c cs)
      have e: "compare_module_iterables as cs \<noteq> Greater" if "a = b" "b = c"
        using 4 that by (simp add: Cons compare_modules_Cons del: compare_module_iterables.simps(4))
      have "a \<le> b" "b \<le> c" using 4(2,3)
        by (auto simp: Cons compare_modules_Cons not_less simp del: compare_module_iterables.simps(4))
      then show ?thesis using e
        by (auto simp: Cons compare_modules_Cons simp del: compare_module_iterables.simps(4))
    qed simp
  next
    case 1
    then show ?case by simp
  next
    case (2 y ys zs)
    then show ?case by simp
  next
    case (3 x xs zs)
    then show ?case by (cases zs) simp_all
  qed
qed

section \<open>Dependent chunks\<close>

definition get_chunk_condition_map :: "group_order \<Rightarrow> chunk_ukey \<Rightarrow> chunk_by_ukey \<Rightarrow> chunk_group_by_ukey \<Rightarrow>
    (chunk_ukey \<Rightarrow> bool) \<Rightarrow> (string \<rightharpoonup> bool) option" where
  "get_chunk_condition_map ord c cdb gdb flt = do {
     chunk \<leftarrow> cdb c;
     cs \<leftarrow> get_all_referenced_chunks ord gdb chunk;
     for_each (\<lambda>c map. do { chunk \<leftarrow> cdb c; i \<leftarrow> chunk_expect_id chunk; Some (map(i \<mapsto> flt c)) }) cs Map.empty
   }"

definition has_chunk_entry_dependent_chunks :: "chunk_ukey \<Rightarrow> chunk_group_by_ukey \<Rightarrow> chunk_graph \<Rightarrow> bool option" where
  "has_chunk_entry_dependent_chunks c gdb g = do {
     cgc \<leftarrow> gr_chunks g c;
     any_opt (\<lambda>(_, k). map_option (\<lambda>grp. list_ex (\<lambda>d. d \<noteq> c) (cg_chunks grp)) (gdb k)) (cgc_entry_modules cgc)
   }"

text \<open>The chunks of the entry groups of \<open>entry_chunk\<close> that have no runtime and are neither it nor \<open>c\<close>.\<close>

definition add_entry_dependents :: "group_order \<Rightarrow> chunk_by_ukey \<Rightarrow> chunk_group_by_ukey \<Rightarrow> chunk_graph \<Rightarrow> chunk_ukey \<Rightarrow>
    chunk_ukey \<Rightarrow> chunk_ukey list \<Rightarrow> chunk_ukey list option" where
  "add_entry_dependents ord cdb gdb g c entry_chunk acc = do {
     cgc \<leftarrow> gr_chunks g entry_chunk;
     for_each (\<lambda>(_, k) acc. do {
       grp \<leftarrow> gdb k;
       for_each (\<lambda>d acc. do {
         chunk \<leftarrow> cdb d;
         if d \<noteq> c \<and> d \<noteq> entry_chunk then do {
           r \<leftarrow> has_runtime ord gdb chunk;
           Some (if \<not> r then index_insert d acc else acc)
         } else Some acc
       }) (cg_chunks grp) acc
     }) (cgc_entry_modules cgc) acc
   }"

definition get_chunk_entry_dependent_chunks :: "group_order \<Rightarrow> chunk_ukey \<Rightarrow> chunk_by_ukey \<Rightarrow> chunk_group_by_ukey \<Rightarrow> chunk_graph \<Rightarrow> chunk_ukey list option" where
  "get_chunk_entry_dependent_chunks ord c cdb gdb g = do {
     chunk \<leftarrow> cdb c;
     groups \<leftarrow> get_sorted_groups ord gdb chunk;
     for_each (\<lambda>k acc. do {
       grp \<leftarrow> gdb k;
       if is_entrypoint (cg_kind grp) then do {
         entry_chunk \<leftarrow> get_entrypoint_chunk grp;
         add_entry_dependents ord cdb gdb g c entry_chunk acc
       } else Some acc
     }) groups []
   }"

text \<open>
  The queue of \<open>get_runtime_chunk_dependent_chunks_iterable\<close> has no visited set: on a cycle of entrypoints it
  does not return, which is \<^term>\<open>None\<close>.
\<close>

definition entry_children :: "chunk_group_by_ukey \<Rightarrow> chunk_group \<Rightarrow> chunk_group list option" where
  "entry_children gdb grp = map_option (filter (\<lambda>g. is_entrypoint (cg_kind g))) (those (map gdb (cg_children grp)))"

partial_function (option) entry_bfs :: "group_order \<Rightarrow> chunk_by_ukey \<Rightarrow> chunk_group_by_ukey \<Rightarrow> chunk_ukey \<Rightarrow>
    chunk_group list \<Rightarrow> chunk_group_ukey list \<Rightarrow> chunk_ukey list \<Rightarrow> (chunk_group_ukey list \<times> chunk_ukey list) option" where
  "entry_bfs ord cdb gdb c queue entrypoints acc = (case queue of
      [] \<Rightarrow> Some (entrypoints, acc)
    | current # rest \<Rightarrow> do {
        kids \<leftarrow> entry_children gdb current;
        acc \<leftarrow> (if kids = [] then Some acc else do {
          entry_chunk_ukey \<leftarrow> get_entrypoint_chunk current;
          entry_chunk \<leftarrow> cdb entry_chunk_ukey;
          if entry_chunk_ukey \<noteq> c then do {
            r \<leftarrow> has_runtime ord gdb entry_chunk;
            Some (if \<not> r then index_insert entry_chunk_ukey acc else acc)
          } else Some acc
        });
        entry_bfs ord cdb gdb c (rest @ kids) (index_insert (cg_ukey current) entrypoints) acc
      })"

definition get_runtime_chunk_dependent_chunks :: "group_order \<Rightarrow> chunk_ukey \<Rightarrow> chunk_by_ukey \<Rightarrow> chunk_group_by_ukey \<Rightarrow> chunk_graph \<Rightarrow> chunk_ukey list option" where
  "get_runtime_chunk_dependent_chunks ord c cdb gdb g = do {
     chunk \<leftarrow> cdb c;
     groups \<leftarrow> get_sorted_groups ord gdb chunk;
     (entrypoints, acc) \<leftarrow> for_each (\<lambda>k (entrypoints, acc). do {
       grp \<leftarrow> gdb k;
       if is_entrypoint (cg_kind grp) then entry_bfs ord cdb gdb c [grp] entrypoints acc else Some (entrypoints, acc)
     }) groups ([], []);
     for_each (\<lambda>k acc. do {
       entrypoint \<leftarrow> gdb k;
       entry_chunk \<leftarrow> get_entrypoint_chunk entrypoint;
       add_entry_dependents ord cdb gdb g c entry_chunk acc
     }) entrypoints acc
   }"

section \<open>Which chunks can be integrated\<close>

lemma index_insert_length: "card (UNIV - set (index_insert x q)) + length (index_insert x q) = card (UNIV - set q) + length (q :: 'a::finite list)"
proof (cases "x \<in> set q")
  case False
  then have "card (UNIV - set q) = Suc (card (UNIV - insert x (set q)))"
    by (metis Diff_insert card.remove DiffI UNIV_I finite)
  then show ?thesis using False by (simp add: index_insert_def)
qed (simp add: index_insert_def insert_absorb)

lemma index_extend_length: "card (UNIV - set (index_extend q xs)) + length (index_extend q xs) = card (UNIV - set q) + length (q :: 'a::finite list)"
  unfolding index_extend_def by (induction xs arbitrary: q) (simp_all add: index_insert_length del: set_index_insert)

text \<open>The closure \<open>is_available_chunk\<close>: an indexed walk over a growing \<open>IndexSet\<close>.\<close>

function available_loop :: "group_order \<Rightarrow> chunk_group_by_ukey \<Rightarrow> chunk \<Rightarrow> chunk_group_ukey list \<Rightarrow> nat \<Rightarrow> bool option" where
  "available_loop ord gdb a queue index =
    (if index < length queue then
       let k = queue ! index in
       if k \<in> c_groups a then available_loop ord gdb a queue (Suc index)
       else (case gdb k of
           None \<Rightarrow> None
         | Some grp \<Rightarrow> if is_initial grp then Some False
             else available_loop ord gdb a (index_extend queue (ord (cg_parents grp))) (Suc index))
     else Some True)"
  by pat_completeness auto
termination available_loop
proof (relation "measure (\<lambda>(_, _, _, queue, index). card (UNIV - set queue) + length queue - index)", goal_cases)
  case (3 ord gdb a queue index k grp)
  then show ?case using index_extend_length [of queue "ord (cg_parents grp)"] by simp
qed auto

declare available_loop.simps [simp del]

definition is_available_chunk :: "group_order \<Rightarrow> chunk_group_by_ukey \<Rightarrow> chunk \<Rightarrow> chunk \<Rightarrow> bool option" where
  "is_available_chunk ord gdb a b = available_loop ord gdb a (ord (c_groups b)) 0"

definition can_chunks_be_integrated :: "group_order \<Rightarrow> chunk_ukey \<Rightarrow> chunk_ukey \<Rightarrow> chunk_by_ukey \<Rightarrow> chunk_group_by_ukey \<Rightarrow> chunk_graph \<Rightarrow> bool option" where
  "can_chunks_be_integrated ord a b cdb gdb g = do {
     chunk_a \<leftarrow> cdb a;
     chunk_b \<leftarrow> cdb b;
     if c_prevent_integration chunk_a \<or> c_prevent_integration chunk_b then Some False
     else do {
       has_runtime_a \<leftarrow> has_runtime ord gdb chunk_a;
       has_runtime_b \<leftarrow> has_runtime ord gdb chunk_b;
       if has_runtime_a \<noteq> has_runtime_b then
         (if has_runtime_a then is_available_chunk ord gdb chunk_a chunk_b
          else if has_runtime_b then is_available_chunk ord gdb chunk_b chunk_a
          else Some False)
       else do {
         n \<leftarrow> get_number_of_entry_modules (c_ukey chunk_a) g;
         if n > 0 then Some False
         else do {
           n \<leftarrow> get_number_of_entry_modules (c_ukey chunk_b) g;
           if n > 0 then Some False else Some True
         }
       }
     }
   }"

text \<open>The groups from which \<open>b\<close> can be reached upwards without passing a group of \<open>a\<close>.\<close>

definition upward_edges :: "chunk_group_by_ukey \<Rightarrow> chunk \<Rightarrow> (chunk_group_ukey \<times> chunk_group_ukey) set" where
  "upward_edges gdb a = {(k, p). k \<notin> c_groups a \<and> (\<exists>grp. gdb k = Some grp \<and> p \<in> cg_parents grp)}"

definition upward :: "chunk_group_by_ukey \<Rightarrow> chunk \<Rightarrow> chunk_group_ukey set \<Rightarrow> chunk_group_ukey set" where
  "upward gdb a R = (upward_edges gdb a)\<^sup>* `` R"

lemma available_loop_spec:
  assumes ord: "hash_order ord" and known: "groups_known gdb (upward gdb a R)"
    and "R \<subseteq> set queue" "set queue \<subseteq> upward gdb a R"
    and "\<forall>k \<in> set (take index queue). k \<in> c_groups a \<or>
      (\<exists>grp. gdb k = Some grp \<and> \<not> is_initial grp \<and> cg_parents grp \<subseteq> set queue)"
  shows "available_loop ord gdb a queue index =
    Some (\<forall>k \<in> upward gdb a R. k \<notin> c_groups a \<longrightarrow> \<not> initial_group gdb k)"
  using assms(3-)
proof (induction ord\<equiv>ord gdb\<equiv>gdb a\<equiv>a queue index rule: available_loop.induct)
  case (1 queue index)
  note prems = "1.prems"
  show ?case
  proof (cases "index < length queue")
    case False
    then have all: "\<forall>k \<in> set queue. k \<in> c_groups a \<or> (\<exists>grp. gdb k = Some grp \<and> \<not> is_initial grp \<and> cg_parents grp \<subseteq> set queue)"
      using prems(3) by simp
    have "k \<in> set queue" if "(r, k) \<in> (upward_edges gdb a)\<^sup>*" "r \<in> R" for r k
      using that
    proof (induction rule: rtrancl_induct)
      case base
      then show ?case using prems(1) by blast
    next
      case (step y z)
      then have "y \<in> set queue" by simp
      then show ?case using all step(2) by (fastforce simp: upward_edges_def)
    qed
    then have "upward gdb a R \<subseteq> set queue" by (auto simp: upward_def)
    then have "\<forall>k \<in> upward gdb a R. k \<notin> c_groups a \<longrightarrow> \<not> initial_group gdb k"
      using all by (fastforce simp: initial_group_def)
    then show ?thesis using False by (simp add: available_loop.simps [of ord gdb a queue])
  next
    case True
    define k where "k = queue ! index"
    have kq: "k \<in> set queue" "k \<in> upward gdb a R" using True prems(2) by (auto simp: k_def)
    have take: "set (take (Suc index) queue) = insert k (set (take index queue))"
      using True by (simp add: take_Suc_conv_app_nth k_def)
    show ?thesis
    proof (cases "k \<in> c_groups a")
      case in_a: True
      have "available_loop ord gdb a queue (Suc index) = Some (\<forall>k \<in> upward gdb a R. k \<notin> c_groups a \<longrightarrow> \<not> initial_group gdb k)"
        using prems in_a by (intro "1.hyps"(1) [OF True k_def in_a]) (auto simp: take)
      then show ?thesis using True in_a by (simp add: available_loop.simps [of ord gdb a queue index] k_def Let_def)
    next
      case notin: False
      obtain grp where grp: "gdb k = Some grp" using known kq(2) by (auto simp: groups_known_def)
      show ?thesis
      proof (cases "is_initial grp")
        case init: True
        then have "\<not> (\<forall>k \<in> upward gdb a R. k \<notin> c_groups a \<longrightarrow> \<not> initial_group gdb k)"
          using kq(2) notin grp by (auto simp: initial_group_def)
        then show ?thesis using True notin grp init
          by (simp add: available_loop.simps [of ord gdb a queue index] k_def Let_def)
      next
        case ninit: False
        have ps: "set (ord (cg_parents grp)) = cg_parents grp" using hash_orderD(2) [OF ord] by simp
        have "cg_parents grp \<subseteq> upward gdb a R"
          using kq(2) notin grp by (auto simp: upward_def upward_edges_def intro: rtrancl_into_rtrancl)
        moreover have "set (take (Suc index) (index_extend queue (ord (cg_parents grp)))) = set (take (Suc index) queue)"
        proof -
          obtain ys where "index_extend queue (ord (cg_parents grp)) = queue @ ys" using index_extend_prefix by blast
          then show ?thesis using True by simp
        qed
        moreover have "\<forall>j \<in> insert k (set (take index queue)). j \<in> c_groups a \<or>
            (\<exists>g. gdb j = Some g \<and> \<not> is_initial g \<and> cg_parents g \<subseteq> set (index_extend queue (ord (cg_parents grp))))"
          using prems(3) grp ninit ps unfolding set_index_extend by blast
        ultimately have "available_loop ord gdb a (index_extend queue (ord (cg_parents grp))) (Suc index) =
            Some (\<forall>k \<in> upward gdb a R. k \<notin> c_groups a \<longrightarrow> \<not> initial_group gdb k)"
          using prems(1,2) ps by (intro "1.hyps"(2) [OF True k_def notin grp ninit]) (simp_all add: take, auto)
        then show ?thesis using True notin grp ninit
          by (simp add: available_loop.simps [of ord gdb a queue index] k_def Let_def)
      qed
    qed
  qed
qed

lemma is_available_chunk_spec:
  assumes "hash_order ord" "groups_known gdb (upward gdb a (c_groups b))"
  shows "is_available_chunk ord gdb a b =
    Some (\<forall>k \<in> upward gdb a (c_groups b). k \<notin> c_groups a \<longrightarrow> \<not> initial_group gdb k)"
  unfolding is_available_chunk_def using hash_orderD(2) [OF assms(1), of "c_groups b"]
  by (intro available_loop_spec [OF assms]) (auto simp: upward_def)

section \<open>Integrating a chunk into another\<close>

definition shorter_name :: "string \<Rightarrow> string \<Rightarrow> string" where
  "shorter_name a b =
    (if length a \<noteq> length b then (if length a < length b then a else b)
     else if a < b then a else b)"

text \<open>The name of the surviving chunk.\<close>

definition integrated_name :: "chunk \<Rightarrow> chunk \<Rightarrow> chunk_ukey \<Rightarrow> chunk_ukey \<Rightarrow> chunk_graph \<Rightarrow> string option option" where
  "integrated_name chunk_a chunk_b a b g = (case (c_name chunk_a, c_name chunk_b) of
      (Some chunk_a_name, Some chunk_b_name) \<Rightarrow> do {
        na \<leftarrow> get_number_of_entry_modules a g;
        nb \<leftarrow> get_number_of_entry_modules b g;
        Some (if (na > 0) = (nb > 0) then Some (shorter_name chunk_a_name chunk_b_name)
              else if nb > 0 then Some chunk_b_name else Some chunk_a_name)
      }
    | (None, Some chunk_b_name) \<Rightarrow> Some (Some chunk_b_name)
    | (name, None) \<Rightarrow> Some name)"

definition move_modules :: "chunk_ukey \<Rightarrow> chunk_ukey \<Rightarrow> module_identifier list \<Rightarrow> chunk_graph \<Rightarrow> chunk_graph option" where
  "move_modules a b ms g = for_each (\<lambda>m g. do {
     g \<leftarrow> disconnect_chunk_and_module b m g;
     connect_chunk_and_module a m g
   }) ms g"

definition move_entry_modules :: "chunk_ukey \<Rightarrow> chunk_ukey \<Rightarrow> (module_identifier \<times> chunk_group_ukey) list \<Rightarrow> chunk_graph \<Rightarrow> chunk_graph option" where
  "move_entry_modules a b es g = for_each (\<lambda>(m, k) g. do {
     g \<leftarrow> disconnect_chunk_and_entry_module b m g;
     connect_chunk_and_entry_module a m k g
   }) es g"

definition integrate_chunks :: "group_order \<Rightarrow> module_order \<Rightarrow> chunk_ukey \<Rightarrow> chunk_ukey \<Rightarrow> chunk_by_ukey \<Rightarrow>
    chunk_group_by_ukey \<Rightarrow> 'f module_graph \<Rightarrow> chunk_graph \<Rightarrow> (chunk_by_ukey \<times> chunk_group_by_ukey \<times> chunk_graph) option" where
  "integrate_chunks ord mord a b cdb gdb mg g = do {
     chunk_b \<leftarrow> cdb b;
     chunk_a \<leftarrow> cdb a;
     name \<leftarrow> integrated_name chunk_a chunk_b a b g;
     let chunk_a = chunk_a\<lparr>c_name := name,
       c_id_name_hints := c_id_name_hints chunk_a \<union> c_id_name_hints chunk_b,
       c_runtime := merge_runtime (c_runtime chunk_a) (c_runtime chunk_b)\<rparr>;
     modules \<leftarrow> get_chunk_modules mord b mg g;
     g \<leftarrow> move_modules a b (map mi_identifier modules) g;
     cgc \<leftarrow> gr_chunks g b;
     g \<leftarrow> move_entry_modules a b (cgc_entry_modules cgc) g;
     let group_ukeys = ord (c_groups chunk_b);
     gdb \<leftarrow> for_each (\<lambda>k. expect_modify k (\<lambda>grp. snd (replace_chunk b a grp))) group_ukeys gdb;
     let chunk_a = fold chunk_add_group group_ukeys chunk_a;
     cdb \<leftarrow> expect_modify b (fold (\<lambda>k c. snd (chunk_remove_group k c)) group_ukeys) (cdb(a \<mapsto> chunk_a));
     Some (cdb, gdb, g)
   }"

lemma fold_chunk_add_group: "fold chunk_add_group ks c = c\<lparr>c_groups := c_groups c \<union> set ks\<rparr>"
  by (induction ks arbitrary: c) (auto simp: chunk_add_group_def)

lemma fold_chunk_remove_group: "fold (\<lambda>k c. snd (chunk_remove_group k c)) ks c = c\<lparr>c_groups := c_groups c - set ks\<rparr>"
  by (induction ks arbitrary: c) (auto simp: chunk_remove_group_def set_diff_eq)

lemma connect_module_dom:
  assumes "connect_chunk_and_module c m g = Some g'"
  shows "dom (gr_chunks g') = insert c (dom (gr_chunks g))" "dom (gr_modules g') = insert m (dom (gr_modules g))"
  using connect_maps [of m "\<lambda>cgm. cgm\<lparr>cgm_chunks := insert c (cgm_chunks cgm)\<rparr>" g c
      "\<lambda>cgc. cgc\<lparr>cgc_modules := insert m (cgc_modules cgc)\<rparr>"] assms
  unfolding connect_chunk_and_module_def by (auto simp: dom_def)

lemma connect_entry_dom:
  assumes "connect_chunk_and_entry_module c m k g = Some g'"
  shows "dom (gr_chunks g') = insert c (dom (gr_chunks g))" "dom (gr_modules g') = insert m (dom (gr_modules g))"
  using connect_maps [of m "\<lambda>cgm. cgm\<lparr>cgm_entry_in_chunks := insert c (cgm_entry_in_chunks cgm)\<rparr>" g c
      "\<lambda>cgc. cgc\<lparr>cgc_entry_modules := lm_insert m k (cgc_entry_modules cgc)\<rparr>"] assms
  unfolding connect_chunk_and_entry_module_def by (auto simp: dom_def)

lemma move_modules_spec:
  assumes "a \<noteq> b" "gr_chunks g b \<noteq> None" "\<forall>m \<in> set ms. gr_modules g m \<noteq> None"
  shows "\<exists>g'. move_modules a b ms g = Some g' \<and>
    mods_of_chunks g' = mods_of_chunks g - {b} \<times> set ms \<union> {a} \<times> set ms \<and>
    chunks_of_mods g' = chunks_of_mods g - {b} \<times> set ms \<union> {a} \<times> set ms \<and>
    entries_of_chunks g' = entries_of_chunks g \<and> chunks_of_entries g' = chunks_of_entries g \<and>
    gr_chunks g' b \<noteq> None \<and> dom (gr_modules g) \<subseteq> dom (gr_modules g')"
  using assms(2,3)
proof (induction ms arbitrary: g)
  case Nil
  then show ?case by (simp add: move_modules_def)
next
  case (Cons m ms)
  obtain g1 where g1: "disconnect_chunk_and_module b m g = Some g1"
    "mods_of_chunks g1 = mods_of_chunks g - {(b, m)}" "chunks_of_mods g1 = chunks_of_mods g - {(b, m)}"
    "entries_of_chunks g1 = entries_of_chunks g" "chunks_of_entries g1 = chunks_of_entries g"
    "dom (gr_modules g1) = dom (gr_modules g)" "dom (gr_chunks g1) = dom (gr_chunks g)"
    using disconnect_module_spec [of g m b] Cons.prems by auto
  obtain g2 where g2: "connect_chunk_and_module a m g1 = Some g2"
    "mods_of_chunks g2 = insert (a, m) (mods_of_chunks g1)" "chunks_of_mods g2 = insert (a, m) (chunks_of_mods g1)"
    "entries_of_chunks g2 = entries_of_chunks g1" "chunks_of_entries g2 = chunks_of_entries g1"
    using connect_module_spec [of a m g1] by blast
  have d2: "dom (gr_chunks g2) = insert a (dom (gr_chunks g))" "dom (gr_modules g2) = insert m (dom (gr_modules g))"
    using connect_module_dom [OF g2(1)] g1(6,7) by simp_all
  have "gr_chunks g2 b \<noteq> None" using d2(1) Cons.prems(1) by blast
  moreover have "\<forall>k \<in> set ms. gr_modules g2 k \<noteq> None" using d2(2) Cons.prems(2) by (metis domIff insertCI list.set_intros(2))
  ultimately obtain g3 where g3: "move_modules a b ms g2 = Some g3"
    "mods_of_chunks g3 = mods_of_chunks g2 - {b} \<times> set ms \<union> {a} \<times> set ms"
    "chunks_of_mods g3 = chunks_of_mods g2 - {b} \<times> set ms \<union> {a} \<times> set ms"
    "entries_of_chunks g3 = entries_of_chunks g2" "chunks_of_entries g3 = chunks_of_entries g2"
    "gr_chunks g3 b \<noteq> None" "dom (gr_modules g2) \<subseteq> dom (gr_modules g3)"
    using Cons.IH by blast
  have "move_modules a b (m # ms) g = Some g3"
    using g1(1) g2(1) g3(1) by (simp add: move_modules_def)
  moreover have "mods_of_chunks g3 = mods_of_chunks g - {b} \<times> set (m # ms) \<union> {a} \<times> set (m # ms)"
    "chunks_of_mods g3 = chunks_of_mods g - {b} \<times> set (m # ms) \<union> {a} \<times> set (m # ms)"
    using assms(1) unfolding g3(2,3) g2(2,3) g1(2,3) by auto
  ultimately show ?case using g1 g2 g3 d2 by auto
qed

lemma move_entry_modules_spec:
  assumes "a \<noteq> b" "gr_chunks g b \<noteq> None" "\<forall>m \<in> set (lm_keys es). gr_modules g m \<noteq> None"
  shows "\<exists>g'. move_entry_modules a b es g = Some g' \<and>
    entries_of_chunks g' = entries_of_chunks g - {b} \<times> set (lm_keys es) \<union> {a} \<times> set (lm_keys es) \<and>
    chunks_of_entries g' = chunks_of_entries g \<union> {a} \<times> set (lm_keys es) \<and>
    mods_of_chunks g' = mods_of_chunks g \<and> chunks_of_mods g' = chunks_of_mods g - {b} \<times> set (lm_keys es)"
  using assms(2,3)
proof (induction es arbitrary: g)
  case Nil
  then show ?case by (simp add: move_entry_modules_def)
next
  case (Cons e es)
  obtain m k where e: "e = (m, k)" by (cases e)
  have keys: "set (lm_keys (e # es)) = insert m (set (lm_keys es))" by (simp add: e lm_keys_def)
  obtain g1 where g1: "disconnect_chunk_and_entry_module b m g = Some g1"
    "entries_of_chunks g1 = entries_of_chunks g - {(b, m)}" "chunks_of_entries g1 = chunks_of_entries g"
    "mods_of_chunks g1 = mods_of_chunks g" "chunks_of_mods g1 = chunks_of_mods g - {(b, m)}"
    "dom (gr_modules g1) = dom (gr_modules g)" "dom (gr_chunks g1) = dom (gr_chunks g)"
    using disconnect_entry_spec [of g m b] Cons.prems keys by auto
  obtain g2 where g2: "connect_chunk_and_entry_module a m k g1 = Some g2"
    "entries_of_chunks g2 = insert (a, m) (entries_of_chunks g1)" "chunks_of_entries g2 = insert (a, m) (chunks_of_entries g1)"
    "mods_of_chunks g2 = mods_of_chunks g1" "chunks_of_mods g2 = chunks_of_mods g1"
    using connect_entry_spec [of a m k g1] by blast
  have d2: "dom (gr_chunks g2) = insert a (dom (gr_chunks g))" "dom (gr_modules g2) = insert m (dom (gr_modules g))"
    using connect_entry_dom [OF g2(1)] g1(6,7) by simp_all
  have "gr_chunks g2 b \<noteq> None" using d2(1) Cons.prems(1) by blast
  moreover have "\<forall>k \<in> set (lm_keys es). gr_modules g2 k \<noteq> None"
    using d2(2) Cons.prems(2) unfolding keys by (metis domIff insertCI)
  ultimately obtain g3 where g3: "move_entry_modules a b es g2 = Some g3"
    "entries_of_chunks g3 = entries_of_chunks g2 - {b} \<times> set (lm_keys es) \<union> {a} \<times> set (lm_keys es)"
    "chunks_of_entries g3 = chunks_of_entries g2 \<union> {a} \<times> set (lm_keys es)"
    "mods_of_chunks g3 = mods_of_chunks g2" "chunks_of_mods g3 = chunks_of_mods g2 - {b} \<times> set (lm_keys es)"
    using Cons.IH by blast
  have "move_entry_modules a b (e # es) g = Some g3"
    using g1(1) g2(1) g3(1) by (simp add: move_entry_modules_def e)
  moreover have "entries_of_chunks g3 = entries_of_chunks g - {b} \<times> set (lm_keys (e # es)) \<union> {a} \<times> set (lm_keys (e # es))"
    "chunks_of_entries g3 = chunks_of_entries g \<union> {a} \<times> set (lm_keys (e # es))"
    "chunks_of_mods g3 = chunks_of_mods g - {b} \<times> set (lm_keys (e # es))"
    using assms(1) unfolding keys g3(2,3,5) g2(2,3,5) g1(2,3,5) by auto
  ultimately show ?case using g1 g2 g3 by auto
qed

lemma map_filter_own:
  assumes "\<forall>m \<in> set ms. \<exists>mi. mg m = Some mi \<and> mi_identifier mi = m"
  shows "map mi_identifier (List.map_filter mg ms) = ms"
  using assms by (induction ms) auto

lemma integrate_spec:
  assumes ord: "hash_order ord" "hash_order mord" and neq: "a \<noteq> b"
    and known: "cdb a = Some ca" "cdb b = Some cb" "gr_chunks g a \<noteq> None" "gr_chunks g b = Some cgc_b"
    and mods: "finite (cgc_modules cgc_b)" "\<forall>m \<in> cgc_modules cgc_b. \<exists>mi. mg m = Some mi \<and> mi_identifier mi = m"
    and agree: "mods_of_chunks g = chunks_of_mods g" "entries_of_chunks g = chunks_of_entries g"
    and groups: "groups_known gdb (c_groups cb)"
  shows "\<exists>ca' g' name. integrated_name ca cb a b g = Some name \<and>
    integrate_chunks ord mord a b cdb gdb mg g =
      Some (cdb(a \<mapsto> ca', b \<mapsto> cb\<lparr>c_groups := {}\<rparr>),
        (\<lambda>k. if k \<in> c_groups cb then map_option (\<lambda>grp. snd (replace_chunk b a grp)) (gdb k) else gdb k), g') \<and>
    ca' = ca\<lparr>c_name := name, c_id_name_hints := c_id_name_hints ca \<union> c_id_name_hints cb,
       c_runtime := merge_runtime (c_runtime ca) (c_runtime cb), c_groups := c_groups ca \<union> c_groups cb\<rparr> \<and>
    mods_of_chunks g' = mods_of_chunks g - {b} \<times> UNIV \<union> {a} \<times> {m. (b, m) \<in> mods_of_chunks g} \<and>
    chunks_of_mods g' = mods_of_chunks g' - {b} \<times> UNIV \<and>
    entries_of_chunks g' = entries_of_chunks g - {b} \<times> UNIV \<union> {a} \<times> {m. (b, m) \<in> entries_of_chunks g} \<and>
    chunks_of_entries g' = chunks_of_entries g \<union> {a} \<times> {m. (b, m) \<in> entries_of_chunks g}"
proof -
  have ord_b: "set (ord (c_groups cb)) = c_groups cb" "distinct (ord (c_groups cb))"
    using hash_orderD [OF ord(1)] by simp_all
  have ms: "set (mord (cgc_modules cgc_b)) = cgc_modules cgc_b"
    using hash_orderD [OF ord(2)] mods(1) by blast
  have own: "map mi_identifier (List.map_filter mg (mord (cgc_modules cgc_b))) = mord (cgc_modules cgc_b)"
    using mods(2) ms by (intro map_filter_own) simp
  have b_mods: "{m. (b, m) \<in> mods_of_chunks g} = cgc_modules cgc_b"
    using known(4) by (auto simp: mods_of_chunks_def)
  have b_entries: "{m. (b, m) \<in> entries_of_chunks g} = set (lm_keys (cgc_entry_modules cgc_b))"
    using known(4) by (auto simp: entries_of_chunks_def)
  have m_known: "\<forall>m \<in> set (mord (cgc_modules cgc_b)). gr_modules g m \<noteq> None"
    using agree(1) b_mods unfolding ms by (fastforce simp: chunks_of_mods_def)
  have e_known: "\<forall>m \<in> set (lm_keys (cgc_entry_modules cgc_b)). gr_modules g m \<noteq> None"
    using agree(2) b_entries by (fastforce simp: chunks_of_entries_def)
  obtain name where name: "integrated_name ca cb a b g = Some name"
    using known(3,4) by (cases "c_name ca"; cases "c_name cb") (auto simp: integrated_name_def get_number_of_entry_modules_def)
  obtain g1 where g1: "move_modules a b (mord (cgc_modules cgc_b)) g = Some g1"
    "mods_of_chunks g1 = mods_of_chunks g - {b} \<times> cgc_modules cgc_b \<union> {a} \<times> cgc_modules cgc_b"
    "chunks_of_mods g1 = chunks_of_mods g - {b} \<times> cgc_modules cgc_b \<union> {a} \<times> cgc_modules cgc_b"
    "entries_of_chunks g1 = entries_of_chunks g" "chunks_of_entries g1 = chunks_of_entries g"
    "gr_chunks g1 b \<noteq> None" "dom (gr_modules g) \<subseteq> dom (gr_modules g1)"
    using move_modules_spec [OF neq _ m_known] known(4) unfolding ms by blast
  obtain cgc1 where cgc1: "gr_chunks g1 b = Some cgc1" using g1(6) by auto
  have keys1: "set (lm_keys (cgc_entry_modules cgc1)) = {m. (b, m) \<in> entries_of_chunks g}"
    unfolding g1(4) [symmetric] using cgc1 by (auto simp: entries_of_chunks_def)
  have "\<forall>m \<in> set (lm_keys (cgc_entry_modules cgc1)). gr_modules g1 m \<noteq> None"
    using e_known g1(7) unfolding keys1 b_entries by blast
  from move_entry_modules_spec [OF neq g1(6) this]
  obtain g2 where g2: "move_entry_modules a b (cgc_entry_modules cgc1) g1 = Some g2"
    "entries_of_chunks g2 = entries_of_chunks g - {b} \<times> {m. (b, m) \<in> entries_of_chunks g} \<union> {a} \<times> {m. (b, m) \<in> entries_of_chunks g}"
    "chunks_of_entries g2 = chunks_of_entries g \<union> {a} \<times> {m. (b, m) \<in> entries_of_chunks g}"
    "mods_of_chunks g2 = mods_of_chunks g1" "chunks_of_mods g2 = chunks_of_mods g1 - {b} \<times> {m. (b, m) \<in> entries_of_chunks g}"
    unfolding keys1 g1(4,5) by blast
  define ca' where "ca' = ca\<lparr>c_name := name, c_id_name_hints := c_id_name_hints ca \<union> c_id_name_hints cb,
       c_runtime := merge_runtime (c_runtime ca) (c_runtime cb), c_groups := c_groups ca \<union> c_groups cb\<rparr>"
  have loop: "for_each (\<lambda>k. expect_modify k (\<lambda>grp. snd (replace_chunk b a grp))) (ord (c_groups cb)) gdb =
      Some (\<lambda>k. if k \<in> c_groups cb then map_option (\<lambda>grp. snd (replace_chunk b a grp)) (gdb k) else gdb k)"
    using disconnect_loop [OF ord_b(2), of gdb] groups unfolding ord_b(1) by blast
  have fin: "expect_modify b (fold (\<lambda>k c. snd (chunk_remove_group k c)) (ord (c_groups cb))) (cdb(a \<mapsto> ca')) =
      Some (cdb(a \<mapsto> ca', b \<mapsto> cb\<lparr>c_groups := {}\<rparr>))"
    using neq known(2) by (simp add: expect_modify_def fold_chunk_remove_group ord_b(1))
  have upd: "(ca\<lparr>c_name := name, c_id_name_hints := c_id_name_hints ca \<union> c_id_name_hints cb,
       c_runtime := merge_runtime (c_runtime ca) (c_runtime cb)\<rparr>)
      \<lparr>c_groups := c_groups (ca\<lparr>c_name := name, c_id_name_hints := c_id_name_hints ca \<union> c_id_name_hints cb,
       c_runtime := merge_runtime (c_runtime ca) (c_runtime cb)\<rparr>) \<union> set (ord (c_groups cb))\<rparr> = ca'"
    by (simp add: ca'_def ord_b(1))
  have cm: "get_chunk_modules mord b mg g = Some (List.map_filter mg (mord (cgc_modules cgc_b)))"
    using known(4) by (simp add: get_chunk_modules_def)
  have "integrate_chunks ord mord a b cdb gdb mg g = Some (cdb(a \<mapsto> ca', b \<mapsto> cb\<lparr>c_groups := {}\<rparr>),
      (\<lambda>k. if k \<in> c_groups cb then map_option (\<lambda>grp. snd (replace_chunk b a grp)) (gdb k) else gdb k), g2)"
    unfolding integrate_chunks_def
    by (simp only: bind.bind_lunit known(1,2) name cm Let_def own fold_chunk_add_group g1(1) cgc1 g2(1) loop upd fin)
  moreover have "mods_of_chunks g2 = mods_of_chunks g - {b} \<times> UNIV \<union> {a} \<times> {m. (b, m) \<in> mods_of_chunks g}"
    unfolding g2(4) g1(2) b_mods using b_mods by auto
  moreover have "chunks_of_mods g2 = mods_of_chunks g2 - {b} \<times> UNIV"
    unfolding g2(4,5) g1(2,3) agree(1) [symmetric] using b_mods neq by auto
  moreover have "entries_of_chunks g2 = entries_of_chunks g - {b} \<times> UNIV \<union> {a} \<times> {m. (b, m) \<in> entries_of_chunks g}"
    unfolding g2(2) by auto
  ultimately show ?thesis using name g2(3) unfolding ca'_def by blast
qed

section \<open>Properties\<close>

definition chunk_rank :: "chunk_graph \<Rightarrow> 'f module_graph \<Rightarrow> chunk_ukey \<Rightarrow> module_identifier list" where
  "chunk_rank g mg c = (case gr_chunks g c of None \<Rightarrow> [] | Some cgc \<Rightarrow> sorted_list_of_set (cgc_modules cgc))"

definition rank_cmp :: "'f module_graph \<Rightarrow> module_identifier list \<Rightarrow> module_identifier list \<Rightarrow> ordering" where
  "rank_cmp mg xs ys = then_ordering (cmp_ord (length ys) (length xs))
    (compare_module_iterables (filter (\<lambda>m. mg m \<noteq> None) xs) (filter (\<lambda>m. mg m \<noteq> None) ys))"

lemma comparator_flip: "comparator c \<Longrightarrow> comparator (\<lambda>x y. c y x)"
  unfolding comparator_def by blast

interpretation rank_cmp: comparator "rank_cmp mg"
  unfolding rank_cmp_def
  by (rule comparator_then [OF comparator_key [where f = length, OF comparator_flip [OF ord_cmp.comparator_axioms]]
        comparator_key [where f = "filter (\<lambda>m. mg m \<noteq> None)", OF module_list_cmp.comparator_axioms]])

lemma compare_chunks_rank:
  assumes "gr_chunks g a \<noteq> None" "gr_chunks g b \<noteq> None"
  shows "compare_chunks_with_graph g mg a b = Some (rank_cmp mg (chunk_rank g mg a) (chunk_rank g mg b))"
  using assms by (auto simp: compare_chunks_with_graph_def get_ordered_chunk_modules_identifier_def chunk_rank_def rank_cmp_def cmp_ord_def)

lemma compare_modules_Equal: "compare_module_iterables xs ys = Equal \<longleftrightarrow> xs = ys"
  by (induction xs ys rule: compare_module_iterables.induct) (auto simp: Let_def)

text \<open>
  The order on chunks is a total preorder, compares a chunk with more modules as smaller, and calls two
  chunks equal exactly when they have the same modules.
\<close>

theorem chunk_order_correct:
  assumes "gr_chunks g a = Some ca" "gr_chunks g b = Some cb" "gr_chunks g c = Some cc"
    and "finite (cgc_modules ca)" "finite (cgc_modules cb)" "\<forall>m \<in> cgc_modules ca \<union> cgc_modules cb. mg m \<noteq> None"
  shows "\<exists>ab ba bc ac. compare_chunks_with_graph g mg a b = Some ab \<and> compare_chunks_with_graph g mg b a = Some ba \<and>
    compare_chunks_with_graph g mg b c = Some bc \<and> compare_chunks_with_graph g mg a c = Some ac \<and>
    ba = reverse_ordering ab \<and> (ab \<noteq> Greater \<and> bc \<noteq> Greater \<longrightarrow> ac \<noteq> Greater) \<and>
    (ab = Equal \<longleftrightarrow> cgc_modules ca = cgc_modules cb) \<and>
    (card (cgc_modules cb) < card (cgc_modules ca) \<longrightarrow> ab = Less)"
proof -
  let ?r = "chunk_rank g mg"
  have known: "\<forall>m \<in> set (?r a). mg m \<noteq> None" "\<forall>m \<in> set (?r b). mg m \<noteq> None"
    using assms by (simp_all add: chunk_rank_def)
  have sets: "set (?r a) = cgc_modules ca" "set (?r b) = cgc_modules cb"
    "length (?r a) = card (cgc_modules ca)" "length (?r b) = card (cgc_modules cb)"
    using assms by (simp_all add: chunk_rank_def)
  have eqv: "rank_cmp mg (?r a) (?r b) = Equal \<longleftrightarrow> cgc_modules ca = cgc_modules cb"
  proof
    assume "rank_cmp mg (?r a) (?r b) = Equal"
    then have "?r a = ?r b" using known by (simp add: rank_cmp_def compare_modules_Equal filter_True [OF known(1)] filter_True [OF known(2)])
    then show "cgc_modules ca = cgc_modules cb" using sets by simp
  next
    assume "cgc_modules ca = cgc_modules cb"
    then have "?r a = ?r b" using assms by (simp add: chunk_rank_def)
    then show "rank_cmp mg (?r a) (?r b) = Equal" using rank_cmp.cmp_refl by simp
  qed
  have "rank_cmp mg (?r a) (?r b) = Less" if "card (cgc_modules cb) < card (cgc_modules ca)"
    using that by (simp add: rank_cmp_def sets)
  then show ?thesis
    using assms(1,2,3) eqv rank_cmp.cmp_flip [of mg "?r b" "?r a"] rank_cmp.cmp_trans [of mg "?r a" "?r b" "?r c"]
    by (simp add: compare_chunks_rank)
qed

definition sample_module :: "module_identifier \<Rightarrow> nat module_info" where
  "sample_module m = \<lparr>mi_identifier = m, mi_source_types = [JavaScript], mi_size = \<lambda>_. 1\<rparr>"

definition sample_modules :: "nat module_graph" where
  "sample_modules = [''m'' \<mapsto> sample_module ''m'']"

theorem chunk_order_correct_witness:
  "compare_chunks_with_graph sample_graph sample_modules 1 2 = Some Equal"
  using chunk_order_correct [of sample_graph 1 "the (gr_chunks sample_graph 1)" 2 "the (gr_chunks sample_graph 2)" 1
      "the (gr_chunks sample_graph 1)" sample_modules]
  by (simp add: sample_graph_def sample_modules_def) auto

lemma bex_split: "m \<in> A \<Longrightarrow> (\<exists>k \<in> A. P k) \<longleftrightarrow> P m \<or> (\<exists>k \<in> A. k \<noteq> m \<and> P k)"
  by auto

text \<open>
  Setting the source types of a module for one chunk overrides what the module says of itself: the queries
  by source type then return the module exactly when the type is among those set (or another module has the same
  description), and \<open>has_chunk_module_by_source_type\<close> agrees with the list.
\<close>

theorem source_type_queries_correct:
  assumes "hash_order mord" "gr_chunks g c = Some cgc" "finite (cgc_modules cgc)" "m \<in> cgc_modules cgc"
    and "mg m = Some mi" "mi_identifier mi = m" "st \<noteq> RuntimeType"
  shows "\<exists>g' ms. set_chunk_modules_source_types c m sts g = Some g' \<and>
    get_chunk_modules_by_source_type mord c st mg g' = Some ms \<and> (mi \<in> set ms \<longleftrightarrow> st \<in> sts \<or>
      (\<exists>k \<in> cgc_modules cgc. k \<noteq> m \<and> module_of_source_type st mg cgc k = Some mi)) \<and>
    has_chunk_module_by_source_type mord c st mg g' = Some (ms \<noteq> []) \<and>
    get_chunk_module_source_types c mi g' = sts \<and>
    has_chunk_module_by_source_type mord c RuntimeType mg g' = Some False"
proof -
  let ?s = "case cgc_source_types_by_module cgc of Some s \<Rightarrow> s(m \<mapsto> sts) | None \<Rightarrow> [m \<mapsto> sts]"
  let ?cgc = "cgc\<lparr>cgc_source_types_by_module := Some ?s\<rparr>"
  define g' where "g' = g\<lparr>gr_chunks := (gr_chunks g)(c \<mapsto> ?cgc)\<rparr>"
  have set': "set_chunk_modules_source_types c m sts g = Some g'"
    using assms(2) by (simp add: set_chunk_modules_source_types_def modify_known g'_def)
  have g': "gr_chunks g' c = Some ?cgc" by (simp add: g'_def)
  have fin: "finite (cgc_modules ?cgc)" using assms(3) by simp
  obtain ms where ms: "get_chunk_modules_by_source_type mord c st mg g' = Some ms"
    "set ms = {mi. \<exists>m \<in> cgc_modules cgc. module_of_source_type st mg ?cgc m = Some mi}"
    "has_chunk_module_by_source_type mord c st mg g' = Some (ms \<noteq> [])"
    using get_modules_by_source_type_spec [OF assms(1) g' fin, of st mg] assms(7) by auto
  have here: "module_of_source_type st mg ?cgc m = (if st \<in> sts then Some mi else None)"
    using assms(5) by (simp add: module_of_source_type_def split: option.splits)
  have other: "module_of_source_type st mg ?cgc k = module_of_source_type st mg cgc k" if "k \<noteq> m" for k
    using that by (cases "cgc_source_types_by_module cgc") (simp_all add: module_of_source_type_def)
  have "mi \<in> set ms \<longleftrightarrow> module_of_source_type st mg ?cgc m = Some mi \<or>
      (\<exists>k \<in> cgc_modules cgc. k \<noteq> m \<and> module_of_source_type st mg ?cgc k = Some mi)"
    unfolding ms(2) mem_Collect_eq by (rule bex_split [OF assms(4)])
  also have "\<dots> \<longleftrightarrow> st \<in> sts \<or> (\<exists>k \<in> cgc_modules cgc. k \<noteq> m \<and> module_of_source_type st mg cgc k = Some mi)"
    by (simp add: here other cong: conj_cong)
  finally have "mi \<in> set ms \<longleftrightarrow> st \<in> sts \<or> (\<exists>k \<in> cgc_modules cgc. k \<noteq> m \<and> module_of_source_type st mg cgc k = Some mi)" .
  moreover have "get_chunk_module_source_types c mi g' = sts"
    using assms(6) by (simp add: get_chunk_module_source_types_def g' split: option.splits)
  moreover have "has_chunk_module_by_source_type mord c RuntimeType mg g' = Some False"
    by (simp add: has_chunk_module_by_source_type_def g')
  ultimately show ?thesis using set' ms(1,3) by blast
qed

theorem source_type_queries_correct_witness:
  "\<exists>g'. set_chunk_modules_source_types 1 ''m'' {Css} sample_graph = Some g' \<and>
    has_chunk_module_by_source_type sorted_list_of_set 1 Css sample_modules g' = Some True"
  using source_type_queries_correct [of sorted_list_of_set sample_graph 1 "the (gr_chunks sample_graph 1)" "''m''"
      sample_modules "sample_module ''m''" Css "{Css}"]
  by (auto simp: sample_graph_def sample_modules_def sample_module_def)

text \<open>
  C17. Two chunks can be integrated when integration is not prevented and, if exactly one of them has the
  runtime, no initial group lies above the other one without passing a group of the one with the runtime;
  otherwise when neither has entry modules.  The upward walk over the parent groups terminates on cycles.
\<close>

theorem can_integrate_correct:
  assumes "hash_order ord" "cdb a = Some ca" "cdb b = Some cb" "has_runtime ord gdb ca = Some ra" "has_runtime ord gdb cb = Some rb"
    and "gr_chunks g (c_ukey ca) = Some cgc_a" "gr_chunks g (c_ukey cb) = Some cgc_b"
    and "groups_known gdb (upward gdb ca (c_groups cb))" "groups_known gdb (upward gdb cb (c_groups ca))"
  shows "can_chunks_be_integrated ord a b cdb gdb g = Some (
    \<not> c_prevent_integration ca \<and> \<not> c_prevent_integration cb \<and>
    (if ra \<and> \<not> rb then \<forall>k \<in> upward gdb ca (c_groups cb). k \<notin> c_groups ca \<longrightarrow> \<not> initial_group gdb k
     else if \<not> ra \<and> rb then \<forall>k \<in> upward gdb cb (c_groups ca). k \<notin> c_groups cb \<longrightarrow> \<not> initial_group gdb k
     else cgc_entry_modules cgc_a = [] \<and> cgc_entry_modules cgc_b = []))"
  using assms(2-7) is_available_chunk_spec [OF assms(1,8)] is_available_chunk_spec [OF assms(1,9)]
  by (cases ra; cases rb) (simp_all add: can_chunks_be_integrated_def get_number_of_entry_modules_def)

theorem can_integrate_correct_witness:
  "can_chunks_be_integrated sorted_list_of_set 1 2 [1 \<mapsto> sample_chunk 1 {}, 2 \<mapsto> sample_chunk 2 {}] Map.empty sample_graph = Some False"
proof -
  have "upward Map.empty c {} = {}" for c by (simp add: upward_def)
  then show ?thesis
    using can_integrate_correct [of sorted_list_of_set "[1 \<mapsto> sample_chunk 1 {}, 2 \<mapsto> sample_chunk 2 {}]" 1 "sample_chunk 1 {}" 2
        "sample_chunk 2 {}" Map.empty False False sample_graph "the (gr_chunks sample_graph 1)" "the (gr_chunks sample_graph 2)"]
    by (simp add: sample_chunk_def chunk_new_def sample_graph_def has_runtime_def groups_known_def cgc_new_def)
qed

text \<open>
  C13. \<open>integrate_chunks\<close> never panics on consistent databases; it moves every module
  of \<open>b\<close> to \<open>a\<close> on both sides of the module relation and every entry module on the chunk
  side; the entry modules themselves gain \<open>a\<close> and, as the code has it, still name \<open>b\<close>.  It
  replaces \<open>b\<close> by \<open>a\<close> in every group of \<open>b\<close>, merges runtime, id hints and groups into
  \<open>a\<close> under the chosen name, and leaves every other group and chunk alone.
\<close>

theorem integrate_chunks_correct:
  assumes "hash_order ord" "hash_order mord" "a \<noteq> b" "cdb a = Some ca" "cdb b = Some cb" "c_ukey cb = b"
    and "gr_chunks g a \<noteq> None" "gr_chunks g b = Some cgc_b" "finite (cgc_modules cgc_b)"
    and "\<forall>m \<in> cgc_modules cgc_b. \<exists>mi. mg m = Some mi \<and> mi_identifier mi = m"
    and "mods_of_chunks g = chunks_of_mods g" "entries_of_chunks g = chunks_of_entries g" "in_its_groups gdb cb"
    and "runtime_inv (c_runtime ca)" "runtime_inv (c_runtime cb)"
  shows "\<exists>cdb' gdb' g' ca'. integrate_chunks ord mord a b cdb gdb mg g = Some (cdb', gdb', g') \<and>
    cdb' = cdb(a \<mapsto> ca', b \<mapsto> cb\<lparr>c_groups := {}\<rparr>) \<and> c_groups ca' = c_groups ca \<union> c_groups cb \<and>
    c_id_name_hints ca' = c_id_name_hints ca \<union> c_id_name_hints cb \<and>
    runtime_inv (c_runtime ca') \<and> rs_inner (c_runtime ca') = rs_inner (c_runtime ca) \<union> rs_inner (c_runtime cb) \<and>
    integrated_name ca cb a b g = Some (c_name ca') \<and>
    mods_of_chunks g' = mods_of_chunks g - {b} \<times> UNIV \<union> {a} \<times> {m. (b, m) \<in> mods_of_chunks g} \<and>
    chunks_of_mods g' = mods_of_chunks g' \<and>
    entries_of_chunks g' = entries_of_chunks g - {b} \<times> UNIV \<union> {a} \<times> {m. (b, m) \<in> entries_of_chunks g} \<and>
    chunks_of_entries g' = chunks_of_entries g \<union> {a} \<times> {m. (b, m) \<in> entries_of_chunks g} \<and>
    (\<forall>k. k \<notin> c_groups cb \<longrightarrow> gdb' k = gdb k) \<and>
    (\<forall>k \<in> c_groups cb. \<exists>grp grp'. gdb k = Some grp \<and> gdb' k = Some grp' \<and> distinct (cg_chunks grp') \<and>
      set (cg_chunks grp') = insert a (set (cg_chunks grp) - {b}))"
proof -
  let ?gdb = "\<lambda>k. if k \<in> c_groups cb then map_option (\<lambda>grp. snd (replace_chunk b a grp)) (gdb k) else gdb k"
  obtain ca' g' name where r: "integrated_name ca cb a b g = Some name"
    "integrate_chunks ord mord a b cdb gdb mg g = Some (cdb(a \<mapsto> ca', b \<mapsto> cb\<lparr>c_groups := {}\<rparr>), ?gdb, g')"
    "ca' = ca\<lparr>c_name := name, c_id_name_hints := c_id_name_hints ca \<union> c_id_name_hints cb,
       c_runtime := merge_runtime (c_runtime ca) (c_runtime cb), c_groups := c_groups ca \<union> c_groups cb\<rparr>"
    "mods_of_chunks g' = mods_of_chunks g - {b} \<times> UNIV \<union> {a} \<times> {m. (b, m) \<in> mods_of_chunks g}"
    "chunks_of_mods g' = mods_of_chunks g' - {b} \<times> UNIV"
    "entries_of_chunks g' = entries_of_chunks g - {b} \<times> UNIV \<union> {a} \<times> {m. (b, m) \<in> entries_of_chunks g}"
    "chunks_of_entries g' = chunks_of_entries g \<union> {a} \<times> {m. (b, m) \<in> entries_of_chunks g}"
    using integrate_spec [OF assms(1-5,7-12) in_its_groups_known [OF assms(13)]] by blast
  have no_b: "mods_of_chunks g' - {b} \<times> UNIV = mods_of_chunks g'" unfolding r(4) using assms(3) by auto
  have rt: "runtime_inv (c_runtime ca')" "rs_inner (c_runtime ca') = rs_inner (c_runtime ca) \<union> rs_inner (c_runtime cb)"
    using assms(14,15) unfolding r(3) by (simp_all add: merge_runtime_def runtime_inv_iff)
  have "\<exists>grp grp'. gdb k = Some grp \<and> ?gdb k = Some grp' \<and> distinct (cg_chunks grp') \<and>
      set (cg_chunks grp') = insert a (set (cg_chunks grp) - {b})" if "k \<in> c_groups cb" for k
  proof -
    have "\<exists>grp. gdb k = Some grp \<and> distinct (cg_chunks grp) \<and> c_ukey cb \<in> set (cg_chunks grp)"
      using assms(13) that unfolding in_its_groups_def by (rule bspec)
    then obtain grp where "gdb k = Some grp" "distinct (cg_chunks grp)" "b \<in> set (cg_chunks grp)"
      unfolding assms(6) by (elim exE conjE) (rule that)
    then show ?thesis using that replace_chunk_spec [of grp b a] assms(3) by simp
  qed
  then have moved: "\<forall>k \<in> c_groups cb. \<exists>grp grp'. gdb k = Some grp \<and> ?gdb k = Some grp' \<and> distinct (cg_chunks grp') \<and>
      set (cg_chunks grp') = insert a (set (cg_chunks grp) - {b})" by (rule ballI)
  have fields: "c_groups ca' = c_groups ca \<union> c_groups cb" "c_id_name_hints ca' = c_id_name_hints ca \<union> c_id_name_hints cb"
    "integrated_name ca cb a b g = Some (c_name ca')" using r(1) unfolding r(3) by simp_all
  have rest: "\<forall>k. k \<notin> c_groups cb \<longrightarrow> ?gdb k = gdb k" by simp
  show ?thesis
    by (rule exI [of _ "cdb(a \<mapsto> ca', b \<mapsto> cb\<lparr>c_groups := {}\<rparr>)"], rule exI [of _ ?gdb], rule exI [of _ g'], rule exI [of _ ca'],
      intro conjI r(2) refl fields rt r(4) trans [OF r(5) no_b] r(6,7) rest moved)
qed

theorem integrate_chunks_correct_witness:
  "\<exists>r g'. integrate_chunks sorted_list_of_set sorted_list_of_set 2 1 [1 \<mapsto> sample_chunk 1 {0}, 2 \<mapsto> sample_chunk 2 {}]
      [0 \<mapsto> sample_group 0 [1]] sample_modules sample_graph = Some (fst r, snd r, g') \<and> mods_of_chunks g' = {(2, ''m'')} \<and>
    set (cg_chunks (the (snd r 0))) = {2}"
proof -
  have c: "c_ukey (sample_chunk 1 {0}) = 1" "in_its_groups [0 \<mapsto> sample_group 0 [1]] (sample_chunk 1 {0})"
    "runtime_inv (c_runtime (sample_chunk 1 {0}))" "runtime_inv (c_runtime (sample_chunk 2 {}))"
    "c_groups (sample_chunk 1 {0}) = {0}"
    by (simp_all add: sample_chunk_def chunk_new_def in_its_groups_def sample_group_def)
  have m: "gr_chunks sample_graph 2 \<noteq> None" "gr_chunks sample_graph 1 = Some (cgc_new\<lparr>cgc_modules := {''m''}, cgc_entry_modules := [(''m'', 0)]\<rparr>)"
    "\<forall>m \<in> {''m''}. \<exists>mi. sample_modules m = Some mi \<and> mi_identifier mi = m"
    by (simp_all add: sample_graph_def sample_modules_def sample_module_def)
  have e: "mods_of_chunks sample_graph = chunks_of_mods sample_graph" "entries_of_chunks sample_graph = chunks_of_entries sample_graph"
    by (simp_all only: sample_graph_rels)
  have n: "(2 :: chunk_ukey) \<noteq> 1"
    and d: "[1 \<mapsto> sample_chunk 1 {0}, 2 \<mapsto> sample_chunk 2 {}] (2 :: chunk_ukey) = Some (sample_chunk 2 {})"
      "[1 \<mapsto> sample_chunk 1 {0}, 2 \<mapsto> sample_chunk 2 {}] (1 :: chunk_ukey) = Some (sample_chunk 1 {0})"
    and f: "finite (cgc_modules (cgc_new\<lparr>cgc_modules := {''m''}, cgc_entry_modules := [(''m'', 0)]\<rparr>))"
      "\<forall>m \<in> cgc_modules (cgc_new\<lparr>cgc_modules := {''m''}, cgc_entry_modules := [(''m'', 0)]\<rparr>).
        \<exists>mi. sample_modules m = Some mi \<and> mi_identifier mi = m"
    using m(3) by simp_all
  obtain cdb' gdb' g' where g': "integrate_chunks sorted_list_of_set sorted_list_of_set 2 1 [1 \<mapsto> sample_chunk 1 {0}, 2 \<mapsto> sample_chunk 2 {}]
      [0 \<mapsto> sample_group 0 [1]] sample_modules sample_graph = Some (cdb', gdb', g')"
    "mods_of_chunks g' = mods_of_chunks sample_graph - {1} \<times> UNIV \<union> {2} \<times> {m. (1, m) \<in> mods_of_chunks sample_graph}"
    "\<forall>k \<in> {0}. \<exists>grp grp'. [0 \<mapsto> sample_group 0 [1]] k = Some grp \<and> gdb' k = Some grp' \<and> distinct (cg_chunks grp') \<and>
      set (cg_chunks grp') = insert 2 (set (cg_chunks grp) - {1})"
    using integrate_chunks_correct [of sorted_list_of_set sorted_list_of_set 2 1 "[1 \<mapsto> sample_chunk 1 {0}, 2 \<mapsto> sample_chunk 2 {}]"
        "sample_chunk 2 {}" "sample_chunk 1 {0}" sample_graph "cgc_new\<lparr>cgc_modules := {''m''}, cgc_entry_modules := [(''m'', 0)]\<rparr>"
        sample_modules "[0 \<mapsto> sample_group 0 [1]]", OF hash_order_sorted hash_order_sorted n d c(1) m(1,2) f(1) f(2) e c(2,4,3)]
    unfolding c(5) by (elim exE conjE) (rule that)
  have grp: "[0 \<mapsto> sample_group 0 [1]] (0 :: chunk_group_ukey) = Some (sample_group 0 [1])" by simp
  have "mods_of_chunks g' = {(2, ''m'')}" unfolding g'(2) sample_graph_rels by auto
  moreover have "set (cg_chunks (the (gdb' 0))) = {2}" 
    using bspec [OF g'(3) singletonI] unfolding grp option.inject by (elim exE conjE) (auto simp: sample_group_def)
  ultimately show ?thesis using g'(1) by (intro exI [of _ "(cdb', gdb')"] exI [of _ g']) simp
qed

text \<open>
  Consequence of the entry side of the integration: once the integrated chunk is removed from the chunk
  graph, replacing any of its entry modules panics, because the module still names that chunk.
\<close>

lemma replace_in_chunks_frame:
  assumes "replace_in_chunks f h n cs g = Some g'"
  shows "dom (gr_chunks g') = dom (gr_chunks g) \<and> (\<forall>k. k \<noteq> n \<longrightarrow> gr_modules g' k = gr_modules g k) \<and>
    set cs \<subseteq> dom (gr_chunks g)"
  using assms
proof (induction cs arbitrary: g)
  case Nil
  then show ?case by (simp add: replace_in_chunks_def)
next
  case (Cons c cs)
  obtain cgc cgm where k: "gr_chunks g c = Some cgc" "gr_modules g n = Some cgm"
    using Cons.prems by (auto simp: replace_in_chunks_def modify_cgc_def modify_cgm_def expect_modify_def bind_eq_Some_conv
      split: option.splits)
  define g1 where "g1 = g\<lparr>gr_chunks := (gr_chunks g)(c \<mapsto> f cgc), gr_modules := (gr_modules g)(n \<mapsto> h c cgm)\<rparr>"
  have "replace_in_chunks f h n cs g1 = Some g'"
    using Cons.prems k by (simp add: replace_in_chunks_def modify_known g1_def)
  note IH = Cons.IH [OF this]
  moreover have "dom (gr_chunks g1) = dom (gr_chunks g)" "c \<in> dom (gr_chunks g)" using k(1) by (auto simp: g1_def)
  moreover have "gr_modules g1 j = gr_modules g j" if "j \<noteq> n" for j using that by (simp add: g1_def)
  ultimately show ?case by simp
qed

lemma replace_module_stale:
  assumes ord: "hash_order ord" and stale: "(c, m) \<in> chunks_of_entries g" "gr_chunks g c = None" and "m \<noteq> n"
  shows "replace_module ord m n g = None"
proof (rule ccontr)
  let ?g0 = "if gr_modules g n = None then g\<lparr>gr_modules := (gr_modules g)(n \<mapsto> cgm_new)\<rparr> else g"
  assume "replace_module ord m n g \<noteq> None"
  then obtain cgm g1 g2 cgm2 g3 where r: "gr_modules ?g0 m = Some cgm"
    "replace_in_chunks (\<lambda>cgc. cgc\<lparr>cgc_modules := insert n (cgc_modules cgc - {m})\<rparr>)
       (\<lambda>c cgm. cgm\<lparr>cgm_chunks := insert c (cgm_chunks cgm)\<rparr>) n (ord (cgm_chunks cgm)) ?g0 = Some g1"
    "modify_cgm m (\<lambda>cgm. cgm\<lparr>cgm_chunks := {}\<rparr>) g1 = Some g2" "gr_modules g2 m = Some cgm2"
    "replace_in_chunks (rename_entry m n) (\<lambda>c cgm. cgm\<lparr>cgm_entry_in_chunks := insert c (cgm_entry_in_chunks cgm)\<rparr>) n
       (ord (cgm_entry_in_chunks cgm2)) g2 = Some g3"
    unfolding replace_module_def Let_def by (auto simp only: bind_eq_Some_conv not_None_eq)
  have "c \<in> cgm_entry_in_chunks cgm" using stale(1) r(1) assms(4) by (auto simp: chunks_of_entries_def split: if_splits)
  moreover have "dom (gr_chunks g1) = dom (gr_chunks g)" "gr_modules g1 m = gr_modules ?g0 m"
    using replace_in_chunks_frame [OF r(2)] assms(4) by (simp_all split: if_splits)
  then have g1: "gr_modules g1 m = Some cgm" "gr_chunks g1 c = None"
    using r(1) stale(2) by (simp, blast)
  have "gr_chunks g2 c = None" "cgm_entry_in_chunks cgm2 = cgm_entry_in_chunks cgm"
    using r(3,4) g1 by (auto simp: modify_cgm_def expect_modify_def)
  ultimately show False
    using replace_in_chunks_frame [OF r(5)] hash_orderD(2) [OF ord, of "cgm_entry_in_chunks cgm2"] by auto
qed

theorem integrate_keeps_stale_entry:
  assumes "hash_order ord" "hash_order mord" "a \<noteq> b" "cdb a = Some ca" "cdb b = Some cb"
    and "gr_chunks g a \<noteq> None" "gr_chunks g b = Some cgc_b" "finite (cgc_modules cgc_b)"
    and "\<forall>m \<in> cgc_modules cgc_b. \<exists>mi. mg m = Some mi \<and> mi_identifier mi = m"
    and "mods_of_chunks g = chunks_of_mods g" "entries_of_chunks g = chunks_of_entries g" "groups_known gdb (c_groups cb)"
    and "m \<in> set (lm_keys (cgc_entry_modules cgc_b))"
  shows "\<exists>cdb' gdb' g'. integrate_chunks ord mord a b cdb gdb mg g = Some (cdb', gdb', g') \<and>
    (b, m) \<in> chunks_of_entries g' \<and> (b, m) \<notin> entries_of_chunks g' \<and>
    (\<forall>cord n. hash_order cord \<and> n \<noteq> m \<longrightarrow> replace_module cord m n (snd (graph_remove_chunk b g')) = None)"
proof -
  obtain ca' g' where r: "integrate_chunks ord mord a b cdb gdb mg g =
      Some (cdb(a \<mapsto> ca', b \<mapsto> cb\<lparr>c_groups := {}\<rparr>),
        (\<lambda>k. if k \<in> c_groups cb then map_option (\<lambda>grp. snd (replace_chunk b a grp)) (gdb k) else gdb k), g')"
    "entries_of_chunks g' = entries_of_chunks g - {b} \<times> UNIV \<union> {a} \<times> {m. (b, m) \<in> entries_of_chunks g}"
    "chunks_of_entries g' = chunks_of_entries g \<union> {a} \<times> {m. (b, m) \<in> entries_of_chunks g}"
    using integrate_spec [OF assms(1-12)] by blast
  have "(b, m) \<in> entries_of_chunks g" using assms(7,13) by (auto simp: entries_of_chunks_def)
  then have *: "(b, m) \<in> chunks_of_entries g'" "(b, m) \<notin> entries_of_chunks g'"
    using r(2,3) assms(3,11) by auto
  then have "(b, m) \<in> chunks_of_entries (snd (graph_remove_chunk b g'))"
    by (simp add: graph_remove_chunk_def chunks_of_entries_def)
  then have "replace_module cord m n (snd (graph_remove_chunk b g')) = None" if "hash_order cord" "n \<noteq> m" for cord n
    using that by (intro replace_module_stale [where c = b]) (simp_all add: graph_remove_chunk_def)
  then show ?thesis using r(1) * by blast
qed

end
