(* ===== verification/Rollback.thy ===== *)
theory Rollback
  imports Stores
begin

text \<open>
  \<open>crates/rspack_core/src/module_graph/rollback\<close>: the stores of the module graph that can be taken back to a
  checkpoint.  \<open>OverlayMap\<close> and \<open>DenseIdOverlayMap\<close> keep changes in an overlay over an untouched base,
  \<open>RollbackMap\<close> records an undo stack, \<open>RollbackAtom\<close> keeps a copy.  A \<open>get_mut\<close> is a function that modifies the
  referenced value and returns the value the reference saw.  Interpretations of \<open>checkpoint_store\<close> give each
  map the transaction law.
\<close>

section \<open>OverlayMap\<close>

datatype 'v overlay_value = Value 'v | Tombstone

record ('k, 'v) overlay_map =
  om_base :: "'k \<rightharpoonup> 'v"
  om_overlay :: "('k \<rightharpoonup> 'v overlay_value) option"

definition om_new :: "('k \<rightharpoonup> 'v) \<Rightarrow> ('k, 'v) overlay_map" where
  "om_new base = \<lparr>om_base = base, om_overlay = None\<rparr>"

definition om_checkpoint :: "('k, 'v) overlay_map \<Rightarrow> ('k, 'v) overlay_map" where
  "om_checkpoint m = (case om_overlay m of None \<Rightarrow> m\<lparr>om_overlay := Some Map.empty\<rparr> | Some _ \<Rightarrow> m)"

definition om_reset :: "('k, 'v) overlay_map \<Rightarrow> ('k, 'v) overlay_map" where
  "om_reset m = m\<lparr>om_overlay := None\<rparr>"

definition om_insert :: "'k \<Rightarrow> 'v \<Rightarrow> ('k, 'v) overlay_map \<Rightarrow> ('k, 'v) overlay_map" where
  "om_insert k v m = (case om_overlay m of
      Some overlay \<Rightarrow> m\<lparr>om_overlay := Some (overlay(k \<mapsto> Value v))\<rparr>
    | None \<Rightarrow> m\<lparr>om_base := (om_base m)(k \<mapsto> v)\<rparr>)"

definition om_remove :: "'k \<Rightarrow> ('k, 'v) overlay_map \<Rightarrow> ('k, 'v) overlay_map" where
  "om_remove k m = (case om_overlay m of
      Some overlay \<Rightarrow> m\<lparr>om_overlay := Some (overlay(k \<mapsto> Tombstone))\<rparr>
    | None \<Rightarrow> m\<lparr>om_base := (om_base m)(k := None)\<rparr>)"

definition om_get :: "('k, 'v) overlay_map \<Rightarrow> 'k \<Rightarrow> 'v option" where
  "om_get m k = (case Option.bind (om_overlay m) (\<lambda>overlay. overlay k) of
      Some (Value value) \<Rightarrow> Some value
    | Some Tombstone \<Rightarrow> None
    | None \<Rightarrow> om_base m k)"

definition om_contains_key :: "('k, 'v) overlay_map \<Rightarrow> 'k \<Rightarrow> bool" where
  "om_contains_key m k = (om_get m k \<noteq> None)"

definition om_has_overlay :: "('k, 'v) overlay_map \<Rightarrow> bool" where
  "om_has_overlay m = (om_overlay m \<noteq> None)"

definition om_materialize :: "'k \<Rightarrow> ('k \<rightharpoonup> 'v) \<Rightarrow> ('k \<rightharpoonup> 'v overlay_value) \<Rightarrow> ('k \<rightharpoonup> 'v overlay_value)" where
  "om_materialize k base overlay =
    (if overlay k \<noteq> None then overlay
     else case base k of Some value \<Rightarrow> overlay(k \<mapsto> Value value) | None \<Rightarrow> overlay)"

definition om_get_mut :: "'k \<Rightarrow> ('v \<Rightarrow> 'v) \<Rightarrow> ('k, 'v) overlay_map \<Rightarrow> 'v option \<times> ('k, 'v) overlay_map" where
  "om_get_mut k f m = (case om_overlay m of
      Some overlay \<Rightarrow>
        (let overlay = om_materialize k (om_base m) overlay
         in case overlay k of
              Some (Value value) \<Rightarrow> (Some value, m\<lparr>om_overlay := Some (overlay(k \<mapsto> Value (f value)))\<rparr>)
            | _ \<Rightarrow> (None, m\<lparr>om_overlay := Some overlay\<rparr>))
    | None \<Rightarrow> (case om_base m k of
          Some value \<Rightarrow> (Some value, m\<lparr>om_base := (om_base m)(k \<mapsto> f value)\<rparr>)
        | None \<Rightarrow> (None, m)))"

text \<open>The iterator: first the values of the overlay, then the base entries the overlay does not mention.\<close>

definition om_iter :: "('k set \<Rightarrow> 'k list) \<Rightarrow> ('k, 'v) overlay_map \<Rightarrow> ('k \<times> 'v) list" where
  "om_iter ord m =
    (let base = map (\<lambda>k. (k, the (om_base m k))) (ord (dom (om_base m)))
     in case om_overlay m of
          None \<Rightarrow> base
        | Some overlay \<Rightarrow>
            List.map_filter (\<lambda>k. case overlay k of Some (Value value) \<Rightarrow> Some (k, value) | _ \<Rightarrow> None) (ord (dom overlay)) @
            filter (\<lambda>(k, _). overlay k = None) base)"

lemmas om_defs = om_checkpoint_def om_reset_def om_insert_def om_remove_def om_get_mut_def om_materialize_def

lemma om_get_simps [simp]:
  "om_get (om_insert k v m) = (om_get m)(k \<mapsto> v)"
  "om_get (om_remove k m) = (om_get m)(k := None)"
  "om_get (om_checkpoint m) = om_get m"
  "om_get (om_new base) = base"
  by (auto simp: om_defs om_new_def om_get_def fun_eq_iff split: option.splits overlay_value.splits)

text \<open>The map a reset returns to.\<close>

definition om_saved :: "('k, 'v) overlay_map \<Rightarrow> ('k \<rightharpoonup> 'v) option" where
  "om_saved m = map_option (\<lambda>_. om_base m) (om_overlay m)"

lemma om_saved_simps:
  "om_saved m = Some b \<Longrightarrow> om_saved (om_insert k v m) = Some b"
  "om_saved m = Some b \<Longrightarrow> om_saved (om_remove k m) = Some b"
  "om_saved m = Some b \<Longrightarrow> om_saved (snd (om_get_mut k f m)) = Some b"
  "om_saved m = Some b \<Longrightarrow> om_saved (om_checkpoint m) = Some b"
  "om_saved m = None \<Longrightarrow> om_saved (om_checkpoint m) = Some (om_get m)"
  "om_saved (om_reset m) = None"
  "om_saved m = Some b \<Longrightarrow> om_get (om_reset m) = b"
  by (auto simp: om_defs om_saved_def om_get_def Let_def split: option.splits overlay_value.splits)

lemma om_get_mut_spec:
  "fst (om_get_mut k f m) = om_get m k"
  "om_get (snd (om_get_mut k f m)) = (om_get m)(k := map_option f (om_get m k))"
  by (auto simp: om_defs om_get_def fun_eq_iff Let_def split: option.splits overlay_value.splits)

primrec om_op :: "('k, 'v) store_op \<Rightarrow> ('k, 'v) overlay_map \<Rightarrow> ('k, 'v) overlay_map" where
  "om_op (Insert k v) m = om_insert k v m"
| "om_op (Remove k) m = om_remove k m"
| "om_op (Modify k f) m = snd (om_get_mut k f m)"

interpretation overlay: checkpoint_store "\<lambda>_. True" om_get om_op "\<lambda>_. True" om_saved
  "\<lambda>m. Some (om_checkpoint m)" "\<lambda>m. Some (om_reset m)"
proof (unfold_locales, goal_cases)
  case (1 s x)
  then show ?case by (cases x) (simp_all add: om_get_mut_spec)
next
  case (4 s x m)
  then show ?case by (cases x) (simp_all add: om_saved_simps)
qed (simp_all add: om_saved_simps)

lemma om_iter_spec:
  assumes ord: "hash_order ord" and fin: "finite (dom (om_base m))" "\<forall>overlay. om_overlay m = Some overlay \<longrightarrow> finite (dom overlay)"
  shows "distinct (map fst (om_iter ord m))" "set (om_iter ord m) = {(k, v). om_get m k = Some v}"
proof -
  have b: "set (ord (dom (om_base m))) = dom (om_base m)" "distinct (ord (dom (om_base m)))"
    using hash_orderD [OF ord fin(1)] by simp_all
  have mf: "map fst (List.map_filter (\<lambda>k. case overlay k of Some (Value value) \<Rightarrow> Some (k, value) | _ \<Rightarrow> None) ks) =
      filter (\<lambda>k. case overlay k of Some (Value _) \<Rightarrow> True | _ \<Rightarrow> False) ks"
    for overlay :: "'a \<rightharpoonup> 'b overlay_value" and ks
    by (induction ks) (auto split: option.splits overlay_value.splits)
  have ms: "set (List.map_filter (\<lambda>k. case overlay k of Some (Value value) \<Rightarrow> Some (k, value) | _ \<Rightarrow> None) ks) =
      {(k, v). k \<in> set ks \<and> overlay k = Some (Value v)}" for overlay :: "'a \<rightharpoonup> 'b overlay_value" and ks
    by (induction ks) (auto split: option.splits overlay_value.splits)
  have mfst: "map fst (filter (\<lambda>(k, _). overlay k = None) (map (\<lambda>k. (k, the (om_base m k))) ks)) = filter (\<lambda>k. overlay k = None) ks"
    for overlay :: "'a \<rightharpoonup> 'b overlay_value" and ks
    by (induction ks) auto
  show "distinct (map fst (om_iter ord m))"
  proof (cases "om_overlay m")
    case None
    then show ?thesis using b(2) by (simp add: om_iter_def Let_def comp_def)
  next
    case (Some overlay)
    have o: "set (ord (dom overlay)) = dom overlay" "distinct (ord (dom overlay))"
      using hash_orderD [OF ord] fin(2) Some by simp_all
    then show ?thesis using b(2)
      by (auto simp: om_iter_def Let_def Some mf mfst split: option.splits overlay_value.splits)
  qed
  show "set (om_iter ord m) = {(k, v). om_get m k = Some v}"
  proof (cases "om_overlay m")
    case None
    then show ?thesis using b(1) by (auto simp: om_iter_def Let_def om_get_def)
  next
    case (Some overlay)
    have o: "set (ord (dom overlay)) = dom overlay"
      using hash_orderD [OF ord] fin(2) Some by simp_all
    have "set (om_iter ord m) = {(k, v). k \<in> dom overlay \<and> overlay k = Some (Value v)} \<union>
        {(k, v). om_base m k = Some v \<and> overlay k = None}"
      using b(1) o by (auto simp: om_iter_def Let_def Some ms)
    also have "\<dots> = {(k, v). om_get m k = Some v}"
      by (auto simp: om_get_def Some split: option.splits overlay_value.splits)
    finally show ?thesis .
  qed
qed

section \<open>DenseIdOverlayMap\<close>

record 'v dense_overlay_map =
  dm_base :: "'v option list"
  dm_overlay :: "'v overlay_value option list option"

definition dm_default :: "'v dense_overlay_map" where
  "dm_default = \<lparr>dm_base = [], dm_overlay = None\<rparr>"

text \<open>\<open>Vec::get\<close> followed by \<open>Option::as_ref\<close>, and \<open>ensure_len\<close>.\<close>

definition vec_get :: "'a option list \<Rightarrow> nat \<Rightarrow> 'a option" where
  "vec_get xs i = (if i < length xs then xs ! i else None)"

definition ensure_len :: "'a option list \<Rightarrow> nat \<Rightarrow> 'a option list" where
  "ensure_len xs i = (if length xs \<le> i then xs @ replicate (Suc i - length xs) None else xs)"

definition next_index :: "'v dense_overlay_map \<Rightarrow> nat" where
  "next_index m = max (length (dm_base m)) (case dm_overlay m of None \<Rightarrow> 0 | Some overlay \<Rightarrow> length overlay)"

definition dm_checkpoint :: "'v dense_overlay_map \<Rightarrow> 'v dense_overlay_map" where
  "dm_checkpoint m = (case dm_overlay m of None \<Rightarrow> m\<lparr>dm_overlay := Some []\<rparr> | Some _ \<Rightarrow> m)"

definition dm_reset :: "'v dense_overlay_map \<Rightarrow> 'v dense_overlay_map" where
  "dm_reset m = m\<lparr>dm_overlay := None\<rparr>"

definition dm_insert :: "u32 \<Rightarrow> 'v \<Rightarrow> 'v dense_overlay_map \<Rightarrow> 'v dense_overlay_map" where
  "dm_insert key v m =
    (let index = unat key
     in case dm_overlay m of
          Some overlay \<Rightarrow> m\<lparr>dm_overlay := Some ((ensure_len overlay index)[index := Some (Value v)])\<rparr>
        | None \<Rightarrow> m\<lparr>dm_base := (ensure_len (dm_base m) index)[index := Some v]\<rparr>)"

definition dm_remove :: "u32 \<Rightarrow> 'v dense_overlay_map \<Rightarrow> 'v dense_overlay_map" where
  "dm_remove key m =
    (let index = unat key
     in case dm_overlay m of
          Some overlay \<Rightarrow> m\<lparr>dm_overlay := Some ((ensure_len overlay index)[index := Some Tombstone])\<rparr>
        | None \<Rightarrow> if index < length (dm_base m) then m\<lparr>dm_base := (dm_base m)[index := None]\<rparr> else m)"

definition dm_get :: "'v dense_overlay_map \<Rightarrow> u32 \<Rightarrow> 'v option" where
  "dm_get m key =
    (let index = unat key
     in case Option.bind (dm_overlay m) (\<lambda>overlay. vec_get overlay index) of
          Some (Value value) \<Rightarrow> Some value
        | Some Tombstone \<Rightarrow> None
        | None \<Rightarrow> vec_get (dm_base m) index)"

definition dm_materialize :: "nat \<Rightarrow> 'v option list \<Rightarrow> 'v overlay_value option list \<Rightarrow> 'v overlay_value option list" where
  "dm_materialize index base overlay =
    (if vec_get overlay index \<noteq> None then overlay
     else case vec_get base index of
         Some value \<Rightarrow> (ensure_len overlay index)[index := Some (Value value)]
       | None \<Rightarrow> overlay)"

definition dm_get_mut :: "u32 \<Rightarrow> ('v \<Rightarrow> 'v) \<Rightarrow> 'v dense_overlay_map \<Rightarrow> 'v option \<times> 'v dense_overlay_map" where
  "dm_get_mut key f m =
    (let index = unat key
     in case dm_overlay m of
          Some overlay \<Rightarrow>
            (let overlay = dm_materialize index (dm_base m) overlay
             in case vec_get overlay index of
                  Some (Value value) \<Rightarrow> (Some value, m\<lparr>dm_overlay := Some (overlay[index := Some (Value (f value))])\<rparr>)
                | _ \<Rightarrow> (None, m\<lparr>dm_overlay := Some overlay\<rparr>))
        | None \<Rightarrow> (case vec_get (dm_base m) index of
              Some value \<Rightarrow> (Some value, m\<lparr>dm_base := (dm_base m)[index := Some (f value)]\<rparr>)
            | None \<Rightarrow> (None, m)))"

lemma length_ensure_len [simp]: "length (ensure_len xs i) = max (length xs) (Suc i)"
  by (auto simp: ensure_len_def)

lemma vec_get_ensure_len [simp]: "vec_get (ensure_len xs i) j = vec_get xs j"
  by (auto simp: ensure_len_def vec_get_def nth_append)

lemma vec_get_update: "i < length xs \<Longrightarrow> vec_get (xs[i := x]) j = (if j = i then x else vec_get xs j)"
  by (auto simp: vec_get_def nth_list_update)

lemma vec_get_Some_length: "vec_get xs i = Some x \<Longrightarrow> i < length xs"
  by (auto simp: vec_get_def split: if_splits)

lemma vec_get_set [simp]: "vec_get ((ensure_len xs i)[i := x]) j = (if j = i then x else vec_get xs j)"
  by (simp add: vec_get_update)

definition dm_saved :: "'v dense_overlay_map \<Rightarrow> (u32 \<rightharpoonup> 'v) option" where
  "dm_saved m = map_option (\<lambda>_ k. vec_get (dm_base m) (unat k)) (dm_overlay m)"

lemma unat_inj [simp]: "unat (a :: 'a::len word) = unat b \<longleftrightarrow> a = b"
  by (simp add: word_unat_eq_iff)

lemma vec_get_Nil [simp]: "vec_get [] i = None"
  by (simp add: vec_get_def)

lemma dm_get_insert [simp]: "dm_get (dm_insert k v m) = (dm_get m)(k \<mapsto> v)"
  by (rule ext) (simp add: dm_get_def dm_insert_def Let_def split: option.split)

lemma dm_get_remove [simp]: "dm_get (dm_remove k m) = (dm_get m)(k := None)"
proof (rule ext)
  fix j
  have "vec_get ((dm_base m)[unat k := None]) (unat j) = (if j = k then None else vec_get (dm_base m) (unat j))" if "unat k < length (dm_base m)"
    using that by (simp add: vec_get_update)
  moreover have "vec_get (dm_base m) (unat k) = None" if "\<not> unat k < length (dm_base m)"
    using that by (simp add: vec_get_def)
  ultimately show "dm_get (dm_remove k m) j = ((dm_get m)(k := None)) j"
    by (auto simp: dm_get_def dm_remove_def Let_def split: option.split)
qed

lemma dm_get_checkpoint [simp]: "dm_get (dm_checkpoint m) = dm_get m"
  by (rule ext) (simp add: dm_get_def dm_checkpoint_def Let_def split: option.split)

lemma dm_saved_simps:
  "dm_saved m = Some b \<Longrightarrow> dm_saved (dm_insert k v m) = Some b"
  "dm_saved m = Some b \<Longrightarrow> dm_saved (dm_remove k m) = Some b"
  "dm_saved m = Some b \<Longrightarrow> dm_saved (snd (dm_get_mut k f m)) = Some b"
  "dm_saved m = Some b \<Longrightarrow> dm_saved (dm_checkpoint m) = Some b"
  "dm_saved m = None \<Longrightarrow> dm_saved (dm_checkpoint m) = Some (dm_get m)"
  "dm_saved (dm_reset m) = None"
  "dm_saved m = Some b \<Longrightarrow> dm_get (dm_reset m) = b"
  by (auto simp: dm_saved_def dm_insert_def dm_remove_def dm_get_mut_def dm_checkpoint_def dm_reset_def dm_get_def Let_def
      split: option.splits overlay_value.splits)

lemma dm_get_mut_spec:
  "fst (dm_get_mut k f m) = dm_get m k"
  "dm_get (snd (dm_get_mut k f m)) = (dm_get m)(k := map_option f (dm_get m k))"
proof -
  let ?i = "unat k"
  have mat: "vec_get (dm_materialize ?i base overlay) j =
      (if j = ?i \<and> vec_get overlay ?i = None then map_option Value (vec_get base ?i) else vec_get overlay j)"
    for base :: "'v option list" and overlay j
    by (auto simp: dm_materialize_def split: option.split)
  show "fst (dm_get_mut k f m) = dm_get m k"
    by (auto simp: dm_get_mut_def dm_get_def Let_def mat split: option.splits overlay_value.splits)
  show "dm_get (snd (dm_get_mut k f m)) = (dm_get m)(k := map_option f (dm_get m k))"
  proof (cases "dm_overlay m")
    case None
    then show ?thesis
      by (rule_tac ext) (auto simp: dm_get_mut_def dm_get_def Let_def vec_get_update dest: vec_get_Some_length split: option.splits)
  next
    case (Some overlay)
    let ?o = "dm_materialize ?i (dm_base m) overlay"
    show ?thesis
    proof (cases "vec_get ?o ?i")
      case None
      then have "dm_get m k = None" "snd (dm_get_mut k f m) = m\<lparr>dm_overlay := Some ?o\<rparr>"
        using Some by (auto simp: dm_get_mut_def dm_get_def Let_def mat split: if_splits)
      then show ?thesis using None Some
        by (rule_tac ext) (auto simp: dm_get_def Let_def mat split: option.splits if_splits)
    next
      case val: (Some w)
      have len: "?i < length ?o" using vec_get_Some_length [OF val] .
      show ?thesis
        using Some val len
        by (cases w; rule_tac ext; cases "vec_get overlay ?i")
          (auto simp: dm_get_mut_def dm_get_def Let_def mat vec_get_update split: option.splits if_splits)
    qed
  qed
qed

primrec dm_op :: "(u32, 'v) store_op \<Rightarrow> 'v dense_overlay_map \<Rightarrow> 'v dense_overlay_map" where
  "dm_op (Insert k v) m = dm_insert k v m"
| "dm_op (Remove k) m = dm_remove k m"
| "dm_op (Modify k f) m = snd (dm_get_mut k f m)"

interpretation dense: checkpoint_store "\<lambda>_. True" dm_get dm_op "\<lambda>_. True" dm_saved
  "\<lambda>m. Some (dm_checkpoint m)" "\<lambda>m. Some (dm_reset m)"
proof (unfold_locales, goal_cases)
  case (1 s x)
  then show ?case by (cases x) (simp_all add: dm_get_mut_spec)
next
  case (4 s x m)
  then show ?case by (cases x) (simp_all add: dm_saved_simps)
qed (simp_all add: dm_saved_simps)

text \<open>The next index is above every key in use, so a connection stored there is new.\<close>

lemma dm_next_fresh: "next_index m \<le> unat k \<Longrightarrow> dm_get m k = None"
  by (auto simp: next_index_def dm_get_def Let_def vec_get_def split: option.splits)

lemma next_index_mono:
  "next_index m \<le> next_index (dm_insert k v m)" "next_index m \<le> next_index (dm_remove k m)" "unat k < next_index (dm_insert k v m)"
  by (auto simp: next_index_def dm_insert_def dm_remove_def Let_def split: option.splits)

section \<open>DenseDependencyIdMap\<close>

type_synonym 'v dense_map = "'v option list"

definition dd_insert :: "u32 \<Rightarrow> 'v \<Rightarrow> 'v dense_map \<Rightarrow> 'v option \<times> 'v dense_map" where
  "dd_insert key v values =
    (let index = unat key; values = ensure_len values index
     in (values ! index, values[index := Some v]))"

definition dd_remove :: "u32 \<Rightarrow> 'v dense_map \<Rightarrow> 'v option \<times> 'v dense_map" where
  "dd_remove key values =
    (let index = unat key
     in if index < length values then (values ! index, values[index := None]) else (None, values))"

definition dd_get :: "'v dense_map \<Rightarrow> u32 \<Rightarrow> 'v option" where
  "dd_get values key = vec_get values (unat key)"

definition dd_get_mut :: "u32 \<Rightarrow> ('v \<Rightarrow> 'v) \<Rightarrow> 'v dense_map \<Rightarrow> 'v option \<times> 'v dense_map" where
  "dd_get_mut key f values = (case vec_get values (unat key) of
      Some value \<Rightarrow> (Some value, values[unat key := Some (f value)])
    | None \<Rightarrow> (None, values))"

definition dd_clear :: "'v dense_map \<Rightarrow> 'v dense_map" where
  "dd_clear values = []"

definition dd_iter :: "'v dense_map \<Rightarrow> (u32 \<times> 'v) list" where
  "dd_iter values = List.map_filter (\<lambda>(index, value). map_option (Pair (of_nat index)) value) (List.enumerate 0 values)"

lemma dd_get_simps [simp]:
  "dd_get (snd (dd_insert k v m)) = (dd_get m)(k \<mapsto> v)"
  "dd_get (snd (dd_remove k m)) = (dd_get m)(k := None)"
  "dd_get (dd_clear m) = Map.empty" "dd_get [] = Map.empty"
  "dd_get (snd (dd_get_mut k f m)) = (dd_get m)(k := map_option f (dd_get m k))"
proof -
  show "dd_get (snd (dd_insert k v m)) = (dd_get m)(k \<mapsto> v)"
    by (rule ext) (simp add: dd_get_def dd_insert_def Let_def)
  show "dd_get (snd (dd_remove k m)) = (dd_get m)(k := None)"
    by (rule ext) (auto simp: dd_get_def dd_remove_def Let_def vec_get_update vec_get_def)
  show "dd_get (dd_clear m) = Map.empty" "dd_get [] = Map.empty"
    by (simp_all add: dd_get_def dd_clear_def fun_eq_iff)
  show "dd_get (snd (dd_get_mut k f m)) = (dd_get m)(k := map_option f (dd_get m k))"
    by (rule ext) (auto simp: dd_get_def dd_get_mut_def vec_get_update dest: vec_get_Some_length split: option.split)
qed

lemma dd_returns:
  "fst (dd_insert k v m) = dd_get m k" "fst (dd_remove k m) = dd_get m k"
proof -
  have "ensure_len m i ! i = vec_get m i" for i
    by (auto simp: ensure_len_def vec_get_def nth_append)
  then show "fst (dd_insert k v m) = dd_get m k" by (simp add: dd_get_def dd_insert_def Let_def)
  show "fst (dd_remove k m) = dd_get m k" by (simp add: dd_get_def dd_remove_def Let_def vec_get_def)
qed

primrec dd_op :: "(u32, 'v) store_op \<Rightarrow> 'v dense_map \<Rightarrow> 'v dense_map" where
  "dd_op (Insert k v) m = snd (dd_insert k v m)"
| "dd_op (Remove k) m = snd (dd_remove k m)"
| "dd_op (Modify k f) m = snd (dd_get_mut k f m)"

interpretation dense_map: map_store "\<lambda>_. True" dd_get dd_op "\<lambda>_. True"
proof (unfold_locales, goal_cases)
  case (1 s x)
  then show ?case by (cases x) simp_all
qed simp

text \<open>The iterator visits the keys in increasing order, each once, as long as the indices fit a key.\<close>

lemma dd_iter_spec:
  assumes "length m \<le> 2 ^ 32"
  shows "set (dd_iter m) = {(k, v). dd_get m k = Some v}" "sorted_wrt (\<lambda>p q. fst p < fst q) (dd_iter m)"
proof -
  have mf: "set (List.map_filter f xs) = {y. \<exists>x \<in> set xs. f x = Some y}" for f :: "nat \<times> 'a option \<Rightarrow> (u32 \<times> 'a) option" and xs
    by (induction xs) (auto split: option.splits)
  have un: "unat (of_nat i :: u32) = i" if "i < length m" for i
    using that assms by (simp add: unat_of_nat take_bit_nat_eq_self)
  show "set (dd_iter m) = {(k, v). dd_get m k = Some v}"
  proof (intro set_eqI iffI)
    fix p :: "u32 \<times> 'a"
    assume "p \<in> set (dd_iter m)"
    then obtain i v where "i < length m" "m ! i = Some v" "p = (of_nat i, v)"
      by (auto simp: dd_iter_def mf in_set_enumerate_eq)
    then show "p \<in> {(k, v). dd_get m k = Some v}" using un by (simp add: dd_get_def vec_get_def)
  next
    fix p :: "u32 \<times> 'a"
    assume "p \<in> {(k, v). dd_get m k = Some v}"
    then obtain k v where p: "p = (k, v)" "vec_get m (unat k) = Some v" by (auto simp: dd_get_def)
    then have "unat k < length m" "m ! unat k = Some v" by (auto simp: vec_get_def split: if_splits)
    then have "(unat k, Some v) \<in> set (List.enumerate 0 m)" by (simp add: in_set_enumerate_eq)
    then show "p \<in> set (dd_iter m)" unfolding dd_iter_def mf p(1) by (auto intro!: bexI [of _ "(unat k, Some v)"])
  qed
  have "sorted_wrt (\<lambda>p q. fst p < fst q) (List.map_filter (\<lambda>(i, v). map_option (Pair (of_nat i :: u32)) v) (List.enumerate n xs))"
    if "n + length xs \<le> 2 ^ 32" for n and xs :: "'a option list"
    using that
  proof (induction xs arbitrary: n)
    case (Cons x xs)
    have less: "(of_nat n :: u32) < of_nat i" if "n < i" "i < 2 ^ 32" for i
      using that by (simp add: word_less_nat_alt unat_of_nat take_bit_nat_eq_self)
    have "of_nat n < fst q" if "q \<in> set (List.map_filter (\<lambda>(i, v). map_option (Pair (of_nat i :: u32)) v) (List.enumerate (Suc n) xs))" for q
      using that less Cons.prems by (auto simp: mf in_set_enumerate_eq)
    then show ?case using Cons by (auto split: option.split)
  qed simp
  then show "sorted_wrt (\<lambda>p q. fst p < fst q) (dd_iter m)"
    using assms unfolding dd_iter_def by simp
qed

section \<open>RollbackMap\<close>

datatype ('k, 'v) rollback_action = Inserted 'k "'v option" | Removed 'k 'v

record ('k, 'v) rollback_map =
  rb_map :: "'k \<rightharpoonup> 'v"
  rb_undo_stack :: "('k, 'v) rollback_action list"
  rb_checkpoint :: "nat option"

text \<open>The undo stack grows at its head.\<close>

definition rb_default :: "('k, 'v) rollback_map" where
  "rb_default = \<lparr>rb_map = Map.empty, rb_undo_stack = [], rb_checkpoint = None\<rparr>"

definition rb_insert :: "'k \<Rightarrow> 'v \<Rightarrow> ('k, 'v) rollback_map \<Rightarrow> bool \<times> ('k, 'v) rollback_map" where
  "rb_insert k v m =
    (let previous = rb_map m k;
         m' = m\<lparr>rb_map := (rb_map m)(k \<mapsto> v)\<rparr>
     in (previous = None,
         if rb_checkpoint m \<noteq> None then m'\<lparr>rb_undo_stack := Inserted k previous # rb_undo_stack m\<rparr> else m'))"

definition rb_remove :: "'k \<Rightarrow> ('k, 'v) rollback_map \<Rightarrow> bool \<times> ('k, 'v) rollback_map" where
  "rb_remove k m = (case rb_map m k of
      Some value \<Rightarrow>
        (let m' = m\<lparr>rb_map := (rb_map m)(k := None)\<rparr>
         in (True, if rb_checkpoint m \<noteq> None then m'\<lparr>rb_undo_stack := Removed k value # rb_undo_stack m\<rparr> else m'))
    | None \<Rightarrow> (False, m))"

definition rb_get :: "('k, 'v) rollback_map \<Rightarrow> 'k \<Rightarrow> 'v option" where
  "rb_get m k = rb_map m k"

definition rb_get_mut :: "'k \<Rightarrow> ('v \<Rightarrow> 'v) \<Rightarrow> ('k, 'v) rollback_map \<Rightarrow> 'v option \<times> ('k, 'v) rollback_map" where
  "rb_get_mut k f m = (rb_map m k, m\<lparr>rb_map := (rb_map m)(k := map_option f (rb_map m k))\<rparr>)"

text \<open>A second checkpoint panics.\<close>

definition rb_checkpoint_op :: "('k, 'v) rollback_map \<Rightarrow> ('k, 'v) rollback_map option" where
  "rb_checkpoint_op m = (if rb_checkpoint m = None then Some (m\<lparr>rb_undo_stack := [], rb_checkpoint := Some 0\<rparr>) else None)"

definition rb_undo :: "('k, 'v) rollback_map \<Rightarrow> bool \<times> ('k, 'v) rollback_map" where
  "rb_undo m = (case rb_checkpoint m of
      None \<Rightarrow> (False, m)
    | Some cp \<Rightarrow>
        if length (rb_undo_stack m) \<le> cp then (False, m)
        else (case rb_undo_stack m of
            Inserted k previous # rest \<Rightarrow> (True, m\<lparr>rb_undo_stack := rest, rb_map := (rb_map m)(k := previous)\<rparr>)
          | Removed k value # rest \<Rightarrow> (True, m\<lparr>rb_undo_stack := rest, rb_map := (rb_map m)(k \<mapsto> value)\<rparr>)
          | [] \<Rightarrow> (False, m)))"

definition rb_commit :: "('k, 'v) rollback_map \<Rightarrow> ('k, 'v) rollback_map" where
  "rb_commit m = m\<lparr>rb_undo_stack := [], rb_checkpoint := None\<rparr>"

lemma rb_undo_shrinks: "rb_undo m = (True, m') \<Longrightarrow> length (rb_undo_stack m') < length (rb_undo_stack m)"
  by (auto simp: rb_undo_def split: option.splits if_splits list.splits rollback_action.splits)

function rb_undo_all :: "nat \<Rightarrow> ('k, 'v) rollback_map \<Rightarrow> nat \<times> ('k, 'v) rollback_map" where
  "rb_undo_all undone m = (let (again, m') = rb_undo m in if again then rb_undo_all (Suc undone) m' else (undone, m'))"
  by pat_completeness auto
termination rb_undo_all
  by (relation "measure (\<lambda>(_, m). length (rb_undo_stack m))") (auto dest!: sym [of _ "rb_undo _"] rb_undo_shrinks)

declare rb_undo_all.simps [simp del]

definition rb_reset :: "('k, 'v) rollback_map \<Rightarrow> nat \<times> ('k, 'v) rollback_map" where
  "rb_reset m = (let (undone, m') = rb_undo_all 0 m in (undone, rb_commit m'))"

definition rb_iter :: "('k set \<Rightarrow> 'k list) \<Rightarrow> ('k, 'v) rollback_map \<Rightarrow> ('k \<times> 'v) list" where
  "rb_iter ord m = map (\<lambda>k. (k, the (rb_map m k))) (ord (dom (rb_map m)))"

definition rb_len :: "('k, 'v) rollback_map \<Rightarrow> nat" where
  "rb_len m = card (dom (rb_map m))"

text \<open>What undoing a stack does to the map, and the invariant: a stack exists only under a checkpoint at 0.\<close>

fun undo_stack :: "('k, 'v) rollback_action list \<Rightarrow> ('k \<rightharpoonup> 'v) \<Rightarrow> ('k \<rightharpoonup> 'v)" where
  "undo_stack [] m = m"
| "undo_stack (Inserted k previous # rest) m = undo_stack rest (m(k := previous))"
| "undo_stack (Removed k value # rest) m = undo_stack rest (m(k \<mapsto> value))"

definition rb_inv :: "('k, 'v) rollback_map \<Rightarrow> bool" where
  "rb_inv m \<longleftrightarrow> rb_checkpoint m \<in> {None, Some 0}"

definition rb_saved :: "('k, 'v) rollback_map \<Rightarrow> ('k \<rightharpoonup> 'v) option" where
  "rb_saved m = map_option (\<lambda>_. undo_stack (rb_undo_stack m) (rb_map m)) (rb_checkpoint m)"

lemma rb_undo_all_spec:
  assumes "rb_checkpoint m = Some 0"
  shows "rb_undo_all n m = (n + length (rb_undo_stack m), m\<lparr>rb_undo_stack := [], rb_map := undo_stack (rb_undo_stack m) (rb_map m)\<rparr>)"
  using assms
proof (induction "rb_undo_stack m" arbitrary: m n)
  case Nil
  have "m\<lparr>rb_undo_stack := [], rb_map := rb_map m\<rparr> = m" using Nil(1) by simp
  then show ?case using Nil by (simp add: rb_undo_all.simps [of n m] rb_undo_def)
next
  case (Cons a rest)
  show ?case
  proof (cases a)
    case (Inserted k previous)
    have "rb_undo m = (True, m\<lparr>rb_undo_stack := rest, rb_map := (rb_map m)(k := previous)\<rparr>)"
      using Cons.prems Cons.hyps(2) [symmetric] Inserted by (simp add: rb_undo_def)
    then show ?thesis
      using Cons.hyps(1) [of "m\<lparr>rb_undo_stack := rest, rb_map := (rb_map m)(k := previous)\<rparr>" "Suc n"] Cons.prems
        Cons.hyps(2) [symmetric] Inserted
      by (simp add: rb_undo_all.simps [of n m])
  next
    case (Removed k w)
    have "rb_undo m = (True, m\<lparr>rb_undo_stack := rest, rb_map := (rb_map m)(k \<mapsto> w)\<rparr>)"
      using Cons.prems Cons.hyps(2) [symmetric] Removed by (simp add: rb_undo_def)
    then show ?thesis
      using Cons.hyps(1) [of "m\<lparr>rb_undo_stack := rest, rb_map := (rb_map m)(k \<mapsto> w)\<rparr>" "Suc n"] Cons.prems
        Cons.hyps(2) [symmetric] Removed
      by (simp add: rb_undo_all.simps [of n m])
  qed
qed

lemma rb_get_simps [simp]:
  "rb_get (snd (rb_insert k v m)) = (rb_get m)(k \<mapsto> v)"
  "rb_get (snd (rb_remove k m)) = (rb_get m)(k := None)"
  by (auto simp: rb_get_def rb_insert_def rb_remove_def Let_def fun_eq_iff split: option.split)

lemma rb_saved_simps:
  "rb_saved m = Some b \<Longrightarrow> rb_saved (snd (rb_insert k v m)) = Some b"
  "rb_saved m = Some b \<Longrightarrow> rb_saved (snd (rb_remove k m)) = Some b"
  by (auto simp: rb_saved_def rb_insert_def rb_remove_def Let_def map_upd_triv split: option.split)

lemma rb_inv_simps:
  "rb_inv m \<Longrightarrow> rb_inv (snd (rb_insert k v m))" "rb_inv m \<Longrightarrow> rb_inv (snd (rb_remove k m))"
  by (auto simp: rb_inv_def rb_insert_def rb_remove_def Let_def split: option.split)

primrec rb_op :: "('k, 'v) store_op \<Rightarrow> ('k, 'v) rollback_map \<Rightarrow> ('k, 'v) rollback_map" where
  "rb_op (Insert k v) m = snd (rb_insert k v m)"
| "rb_op (Remove k) m = snd (rb_remove k m)"
| "rb_op (Modify k f) m = snd (rb_get_mut k f m)"

text \<open>A change through \<open>get_mut\<close> is not recorded, so the contract holds for insertions and removals only.\<close>

interpretation rollback: checkpoint_store rb_inv rb_get rb_op not_modify rb_saved rb_checkpoint_op "\<lambda>m. Some (snd (rb_reset m))"
proof (unfold_locales, goal_cases)
  case (1 s x)
  then show ?case by (cases x) simp_all
next
  case (2 s x)
  then show ?case by (cases x) (simp_all add: rb_inv_simps)
next
  case (3 s)
  then show ?case by (auto simp: rb_saved_def rb_checkpoint_op_def rb_inv_def rb_get_def)
next
  case (4 s x m)
  then show ?case by (cases x) (simp_all add: rb_saved_simps)
next
  case (5 s m)
  then have "rb_checkpoint s = Some 0" by (auto simp: rb_inv_def rb_saved_def)
  with 5 show ?case
    by (auto simp: rb_reset_def rb_undo_all_spec rb_commit_def rb_inv_def rb_get_def rb_saved_def)
qed

section \<open>RollbackAtom\<close>

record 't rollback_atom =
  ra_current :: 't
  ra_backup :: "'t option"

definition ra_new :: "'t \<Rightarrow> 't rollback_atom" where
  "ra_new v = \<lparr>ra_current = v, ra_backup = None\<rparr>"

definition ra_checkpoint :: "'t rollback_atom \<Rightarrow> 't rollback_atom option" where
  "ra_checkpoint a = (if ra_backup a = None then Some (a\<lparr>ra_backup := Some (ra_current a)\<rparr>) else None)"

definition ra_reset :: "'t rollback_atom \<Rightarrow> 't rollback_atom option" where
  "ra_reset a = map_option (\<lambda>backup. a\<lparr>ra_current := backup, ra_backup := None\<rparr>) (ra_backup a)"

definition ra_deref_mut :: "('t \<Rightarrow> 't) \<Rightarrow> 't rollback_atom \<Rightarrow> 't rollback_atom" where
  "ra_deref_mut f a = a\<lparr>ra_current := f (ra_current a)\<rparr>"

text \<open>A \<open>RollbackAtomMap\<close> is an atom that holds a map.\<close>

primrec ra_op :: "('k, 'v) store_op \<Rightarrow> ('k \<rightharpoonup> 'v) rollback_atom \<Rightarrow> ('k \<rightharpoonup> 'v) rollback_atom" where
  "ra_op (Insert k v) a = ra_deref_mut (\<lambda>m. m(k \<mapsto> v)) a"
| "ra_op (Remove k) a = ra_deref_mut (\<lambda>m. m(k := None)) a"
| "ra_op (Modify k f) a = ra_deref_mut (\<lambda>m. m(k := map_option f (m k))) a"

interpretation atom_map: checkpoint_store "\<lambda>_. True" ra_current ra_op "\<lambda>_. True" ra_backup ra_checkpoint ra_reset
proof (unfold_locales, goal_cases)
  case (1 s x)
  then show ?case by (cases x) (simp_all add: ra_deref_mut_def)
next
  case (4 s x m)
  then show ?case by (cases x) (simp_all add: ra_deref_mut_def)
qed (auto simp: ra_checkpoint_def ra_reset_def)

section \<open>Properties\<close>

text \<open>
  C23. \<open>OverlayMap\<close> and \<open>DenseIdOverlayMap\<close> are maps with transactions: after a checkpoint any sequence of insertions,
  removals and changes through \<open>get_mut\<close> is seen by lookups exactly as on a plain map, and a reset returns to the
  map before the checkpoint.
\<close>

theorem overlay_maps_transaction:
  assumes "om_overlay m = None" "dm_overlay d = None"
  shows "om_get (fold om_op xs (om_checkpoint m)) = fold map_op xs (om_get m) \<and>
    om_get (om_reset (fold om_op xs (om_checkpoint m))) = om_get m \<and>
    dm_get (fold dm_op ys (dm_checkpoint d)) = fold map_op ys (dm_get d) \<and>
    dm_get (dm_reset (fold dm_op ys (dm_checkpoint d))) = dm_get d"
  using overlay.transaction [of m xs] dense.transaction [of d ys] assms
  by (simp add: om_saved_def dm_saved_def)

theorem overlay_maps_transaction_witness:
  "om_get (om_reset (fold om_op [Remove ''a'', Insert ''c'' (7 :: nat)] (om_checkpoint (om_new [''a'' \<mapsto> 5])))) ''a'' = Some 5 \<and>
   dm_get (fold dm_op [Insert 2 ''x''] (dm_checkpoint dm_default)) 2 = Some ''x''"
proof -
  have none: "om_overlay (om_new [''a'' \<mapsto> 5 :: nat]) = None" "dm_overlay dm_default = None"
    by (simp_all add: om_new_def dm_default_def)
  show ?thesis
    using overlay_maps_transaction [OF none, of "[Remove ''a'', Insert ''c'' 7]" "[Insert 2 ''x'']"]
    by (simp only: om_get_simps) simp
qed

text \<open>
  C24. \<open>RollbackMap\<close>: a checkpoint is refused while one is active; otherwise insertions and removals after it are undone
  by a reset, which undoes exactly one action per recorded change and terminates.
\<close>

theorem rollback_map_transaction:
  assumes "rb_checkpoint m = None" "\<forall>x \<in> set xs. not_modify x"
  shows "\<exists>m'. rb_checkpoint_op m = Some m' \<and> rb_checkpoint_op m' = None \<and>
    rb_get (fold rb_op xs m') = fold map_op xs (rb_get m) \<and>
    rb_get (snd (rb_reset (fold rb_op xs m'))) = rb_get m \<and> rb_checkpoint (snd (rb_reset (fold rb_op xs m'))) = None \<and>
    fst (rb_reset (fold rb_op xs m')) = length (rb_undo_stack (fold rb_op xs m')) \<and>
    fst (rb_reset (fold rb_op xs m')) \<le> length xs"
proof -
  have inv: "rb_inv m" "rb_saved m = None" using assms(1) by (simp_all add: rb_inv_def rb_saved_def)
  obtain m' where m': "rb_checkpoint_op m = Some m'" "rb_get (fold rb_op xs m') = fold map_op xs (rb_get m)"
    "rb_get (snd (rb_reset (fold rb_op xs m'))) = rb_get m" "rb_saved (snd (rb_reset (fold rb_op xs m'))) = None"
    using rollback.transaction [OF inv assms(2)] by blast
  have m'_eq: "m' = m\<lparr>rb_undo_stack := [], rb_checkpoint := Some 0\<rparr>" using m'(1) assms(1) by (simp add: rb_checkpoint_op_def)
  have step: "rb_checkpoint (rb_op x s) = rb_checkpoint s" "length (rb_undo_stack (rb_op x s)) \<le> Suc (length (rb_undo_stack s))"
    if "not_modify x" for x and s :: "('a, 'b) rollback_map"
    using that by (cases x; simp add: rb_insert_def rb_remove_def Let_def split: option.split)+
  have run: "rb_checkpoint (fold rb_op xs s) = rb_checkpoint s \<and>
      length (rb_undo_stack (fold rb_op xs s)) \<le> length (rb_undo_stack s) + length xs" for s
    using assms(2)
  proof (induction xs arbitrary: s)
    case (Cons x xs)
    have "not_modify x" "\<forall>x \<in> set xs. not_modify x" using Cons.prems by simp_all
    then show ?case using Cons.IH [of "rb_op x s"] step [of x s] by simp
  qed simp
  have cp: "rb_checkpoint (fold rb_op xs m') = Some 0" using run [of m'] m'_eq by simp
  have undone: "fst (rb_reset (fold rb_op xs m')) = length (rb_undo_stack (fold rb_op xs m'))"
    by (simp add: rb_reset_def rb_undo_all_spec [OF cp])
  moreover have "length (rb_undo_stack (fold rb_op xs m')) \<le> length xs" using run [of m'] by (simp add: m'_eq)
  moreover have "rb_checkpoint_op m' = None" by (simp add: m'_eq rb_checkpoint_op_def)
  moreover have "rb_checkpoint (snd (rb_reset (fold rb_op xs m'))) = None" by (simp add: rb_reset_def rb_commit_def split: prod.split)
  ultimately show ?thesis using m'(1-3) by auto
qed

theorem rollback_map_transaction_witness:
  "\<exists>m'. rb_checkpoint_op (rb_default\<lparr>rb_map := [''a'' \<mapsto> 5]\<rparr>) = Some m' \<and>
    rb_get (snd (rb_reset (fold rb_op [Remove ''a'', Insert ''b'' 6] m'))) ''a'' = Some (5 :: nat)"
proof -
  have "rb_checkpoint (rb_default\<lparr>rb_map := [''a'' \<mapsto> 5 :: nat]\<rparr>) = None" "\<forall>x \<in> set [Remove ''a'', Insert ''b'' (6 :: nat)]. not_modify x"
    by (simp_all add: rb_default_def)
  from rollback_map_transaction [OF this]
  obtain m' where m': "rb_checkpoint_op (rb_default\<lparr>rb_map := [''a'' \<mapsto> 5]\<rparr>) = Some m'"
    "rb_get (snd (rb_reset (fold rb_op [Remove ''a'', Insert ''b'' (6 :: nat)] m'))) = rb_get (rb_default\<lparr>rb_map := [''a'' \<mapsto> 5]\<rparr>)"
    by (elim exE conjE) (rule that)
  have "rb_get (snd (rb_reset (fold rb_op [Remove ''a'', Insert ''b'' (6 :: nat)] m'))) ''a'' = Some 5"
    unfolding m'(2) by (simp add: rb_get_def)
  with m'(1) show ?thesis by blast
qed

text \<open>
  The iterators agree with the lookups: \<open>OverlayMap::iter\<close> yields every binding once, for every hash order, and
  hides removed base entries; \<open>DenseDependencyIdMap::iter\<close> yields every binding in increasing key order, as long as no
  index exceeds the key type.
\<close>

theorem store_iterators_correct:
  assumes "hash_order ord" "finite (dom (om_base m))" "\<forall>overlay. om_overlay m = Some overlay \<longrightarrow> finite (dom overlay)"
    and "length d \<le> 2 ^ 32"
  shows "distinct (map fst (om_iter ord m)) \<and> set (om_iter ord m) = {(k, v). om_get m k = Some v} \<and>
    sorted_wrt (\<lambda>p q. fst p < fst q) (dd_iter d) \<and> set (dd_iter d) = {(k, v). dd_get d k = Some v}"
  using om_iter_spec [OF assms(1-3)] dd_iter_spec [OF assms(4)] by blast

theorem store_iterators_correct_witness:
  "distinct (map fst (om_iter sorted_list_of_set (om_remove (CHR ''a'') (om_checkpoint (om_new [CHR ''a'' \<mapsto> ''x'']))))) \<and>
   (CHR ''a'', ''x'') \<notin> set (om_iter sorted_list_of_set (om_remove (CHR ''a'') (om_checkpoint (om_new [CHR ''a'' \<mapsto> ''x''])))) \<and>
   set (dd_iter ([] :: string dense_map)) = {}"
proof -
  let ?m = "om_remove (CHR ''a'') (om_checkpoint (om_new [CHR ''a'' \<mapsto> ''x'']))"
  have m: "finite (dom (om_base ?m))" "\<forall>overlay. om_overlay ?m = Some overlay \<longrightarrow> finite (dom overlay)"
    "length ([] :: string dense_map) \<le> 2 ^ 32"
    by (simp_all add: om_remove_def om_checkpoint_def om_new_def)
  note I = store_iterators_correct [of sorted_list_of_set, OF hash_order_sorted m]
  have "om_get ?m (CHR ''a'') = None" by (simp only: om_get_simps) simp
  then have "(CHR ''a'', ''x'') \<notin> set (om_iter sorted_list_of_set ?m)" using I by (simp del: om_get_simps)
  then show ?thesis using I by (simp del: om_get_simps)
qed

end
