(* ===== verification/Module_Graph.thy ===== *)
theory Module_Graph
  imports Rollback Runtime_Spec
begin

text \<open>
  \<open>crates/rspack_core/src/module_graph\<close>: the module graph, with its connections, the per-module graph
  data (\<open>ModuleGraphModule\<close>) and the state that can be taken back to a checkpoint (\<open>ModuleGraphData\<close>).

  A dependency is the record of what the graph asks of it: its id, whether it is a module dependency (with its
  \<open>optional\<close> flag and condition) and whether it is a context dependency.  A module is its identifier, its blocks
  and whether it has a top level await.  Conditions are trait objects: the function that evaluates one on a connection is
  an argument of the operations that ask it.  A block keeps the ids of its dependencies and nested blocks.  The id order of
  a hash set of connections is an argument.
\<close>

section \<open>Connection states\<close>

datatype connection_state = Active bool | CircularConnection | TransitiveOnly

definition state_is_true :: "connection_state \<Rightarrow> bool" where
  "state_is_true s = (s = Active True)"

definition state_is_not_false :: "connection_state \<Rightarrow> bool" where
  "state_is_not_false s = (s \<noteq> Active False)"

definition state_is_false :: "connection_state \<Rightarrow> bool" where
  "state_is_false s = (\<not> state_is_not_false s)"

definition state_add :: "connection_state \<Rightarrow> connection_state \<Rightarrow> connection_state" where
  "state_add self other =
    (if self = Active True \<or> other = Active True then Active True
     else if self = Active False then other
     else if other = Active False then self
     else if self = TransitiveOnly then other
     else if other = TransitiveOnly then self
     else self)"

text \<open>Addition is the maximum of a linear order: inactive, transitive only, circular, active.\<close>

fun state_rank :: "connection_state \<Rightarrow> nat" where
  "state_rank (Active False) = 0"
| "state_rank TransitiveOnly = 1"
| "state_rank CircularConnection = 2"
| "state_rank (Active True) = 3"

lemma state_rank_inj: "state_rank a = state_rank b \<Longrightarrow> a = b"
  by (cases a rule: state_rank.cases; cases b rule: state_rank.cases) simp_all

instantiation connection_state :: linorder
begin
definition less_eq_connection_state :: "connection_state \<Rightarrow> connection_state \<Rightarrow> bool" where
  "less_eq_connection_state a b \<longleftrightarrow> state_rank a \<le> state_rank b"
definition less_connection_state :: "connection_state \<Rightarrow> connection_state \<Rightarrow> bool" where
  "less_connection_state a b \<longleftrightarrow> state_rank a < state_rank b"
instance
  by standard (auto simp: less_eq_connection_state_def less_connection_state_def dest: state_rank_inj)
end

lemma state_add_max: "state_add a b = max a b"
  by (cases a rule: state_rank.cases; cases b rule: state_rank.cases)
    (simp_all add: state_add_def max_def less_eq_connection_state_def)

section \<open>Data\<close>

type_synonym dependency_id = u32
type_synonym connection_id = u32
type_synonym block_identifier = string

record module_graph_connection =
  con_id :: connection_id
  con_dependency_id :: dependency_id
  con_original_module_identifier :: "module_identifier option"
  con_resolved_original_module_identifier :: "module_identifier option"
  con_resolved_module :: module_identifier
  con_module_identifier :: module_identifier
  con_active :: bool
  con_conditional :: bool

definition connection_new :: "connection_id \<Rightarrow> dependency_id \<Rightarrow> module_identifier option \<Rightarrow> module_identifier \<Rightarrow> bool \<Rightarrow>
    module_graph_connection" where
  "connection_new i dep origin m conditional =
    \<lparr>con_id = i, con_dependency_id = dep, con_original_module_identifier = origin,
     con_resolved_original_module_identifier = origin, con_resolved_module = m,
     con_module_identifier = m, con_active = True, con_conditional = conditional\<rparr>"

definition force_inactive :: "module_graph_connection \<Rightarrow> module_graph_connection" where
  "force_inactive con = con\<lparr>con_active := False, con_conditional := False\<rparr>"

definition set_module_identifier :: "module_identifier \<Rightarrow> module_graph_connection \<Rightarrow> module_graph_connection" where
  "set_module_identifier m con = con\<lparr>con_module_identifier := m\<rparr>"

datatype module_issuer = Unset | NoIssuer | SomeIssuer module_identifier

fun issuer_from_identifier :: "module_identifier option \<Rightarrow> module_issuer" where
  "issuer_from_identifier (Some i) = SomeIssuer i"
| "issuer_from_identifier None = NoIssuer"

fun issuer_identifier :: "module_issuer \<Rightarrow> module_identifier option" where
  "issuer_identifier (SomeIssuer i) = Some i"
| "issuer_identifier _ = None"

datatype optimization_bailout_item = Message string | SideEffects string string string

fun bailout_display :: "optimization_bailout_item \<Rightarrow> string" where
  "bailout_display (Message msg) = msg"
| "bailout_display (SideEffects node_type loc short_id) =
    node_type @ '' with side_effects in source code at '' @ short_id @ '':'' @ loc"

record module_graph_module =
  mgm_outgoing_connections :: "connection_id set"
  mgm_incoming_connections :: "connection_id set"
  mgm_issuer :: module_issuer
  mgm_module_identifier :: module_identifier
  mgm_all_dependencies :: "dependency_id list"
  mgm_pre_order_index :: "u32 option"
  mgm_post_order_index :: "u32 option"
  mgm_depth :: "nat option"
  mgm_optimization_bailout :: "optimization_bailout_item list"

definition mgm_new :: "module_identifier \<Rightarrow> module_graph_module" where
  "mgm_new m = \<lparr>mgm_outgoing_connections = {}, mgm_incoming_connections = {}, mgm_issuer = Unset,
     mgm_module_identifier = m, mgm_all_dependencies = [], mgm_pre_order_index = None,
     mgm_post_order_index = None, mgm_depth = None, mgm_optimization_bailout = []\<rparr>"

definition add_incoming_connection :: "connection_id \<Rightarrow> module_graph_module \<Rightarrow> module_graph_module" where
  "add_incoming_connection i x = x\<lparr>mgm_incoming_connections := insert i (mgm_incoming_connections x)\<rparr>"

definition remove_incoming_connection :: "connection_id \<Rightarrow> module_graph_module \<Rightarrow> module_graph_module" where
  "remove_incoming_connection i x = x\<lparr>mgm_incoming_connections := mgm_incoming_connections x - {i}\<rparr>"

definition add_outgoing_connection :: "connection_id \<Rightarrow> module_graph_module \<Rightarrow> module_graph_module" where
  "add_outgoing_connection i x = x\<lparr>mgm_outgoing_connections := insert i (mgm_outgoing_connections x)\<rparr>"

definition remove_outgoing_connection :: "connection_id \<Rightarrow> module_graph_module \<Rightarrow> module_graph_module" where
  "remove_outgoing_connection i x = x\<lparr>mgm_outgoing_connections := mgm_outgoing_connections x - {i}\<rparr>"

definition set_issuer_if_unset :: "module_identifier option \<Rightarrow> module_graph_module \<Rightarrow> module_graph_module" where
  "set_issuer_if_unset issuer x =
    (if mgm_issuer x = Unset then x\<lparr>mgm_issuer := issuer_from_identifier issuer\<rparr> else x)"

definition set_issuer :: "module_issuer \<Rightarrow> module_graph_module \<Rightarrow> module_graph_module" where
  "set_issuer issuer x = x\<lparr>mgm_issuer := issuer\<rparr>"

record 'c dependency =
  dep_id :: dependency_id
  dep_module_dependency :: "(bool \<times> 'c option) option"
  dep_context_dependency :: bool

record graph_module =
  gmo_identifier :: module_identifier
  gmo_blocks :: "block_identifier list"
  gmo_has_top_level_await :: bool

record async_block =
  ab_id :: block_identifier
  ab_dependencies :: "dependency_id list"
  ab_blocks :: "block_identifier list"

record dependency_parents =
  dp_block :: "block_identifier option"
  dp_module :: module_identifier
  dp_index_in_block :: nat

record dependency_extra_meta =
  dem_ids :: "string list"
  dem_explanation :: "string option"

record 'c module_graph_data =
  mg_modules :: "(module_identifier, graph_module) rollback_map"
  mg_dependencies :: "'c dependency dense_map"
  mg_blocks :: "block_identifier \<rightharpoonup> async_block"
  mg_dependency_id_to_parents :: "dependency_parents dense_map"
  mg_connection_to_condition :: "'c dense_map"
  mg_module_graph_modules :: "(module_identifier, module_graph_module) overlay_map"
  mg_dependency_id_to_connection_id :: "connection_id dense_overlay_map"
  mg_connections :: "module_graph_connection dense_overlay_map"
  mg_dep_meta_map :: "dependency_extra_meta dense_map"

type_synonym connection_order = "connection_id set \<Rightarrow> connection_id list"

definition mg_default :: "'c module_graph_data" where
  "mg_default = \<lparr>mg_modules = rb_default, mg_dependencies = [], mg_blocks = Map.empty,
     mg_dependency_id_to_parents = [], mg_connection_to_condition = [],
     mg_module_graph_modules = om_new Map.empty, mg_dependency_id_to_connection_id = dm_default,
     mg_connections = dm_default, mg_dep_meta_map = []\<rparr>"

definition mg_checkpoint :: "'c module_graph_data \<Rightarrow> 'c module_graph_data option" where
  "mg_checkpoint g = map_option (\<lambda>modules. g\<lparr>mg_modules := modules,
     mg_module_graph_modules := om_checkpoint (mg_module_graph_modules g),
     mg_connections := dm_checkpoint (mg_connections g),
     mg_dependency_id_to_connection_id := dm_checkpoint (mg_dependency_id_to_connection_id g)\<rparr>)
   (rb_checkpoint_op (mg_modules g))"

definition mg_recover :: "'c module_graph_data \<Rightarrow> 'c module_graph_data" where
  "mg_recover g = g\<lparr>mg_modules := snd (rb_reset (mg_modules g)),
     mg_module_graph_modules := om_reset (mg_module_graph_modules g),
     mg_connections := dm_reset (mg_connections g),
     mg_dependency_id_to_connection_id := dm_reset (mg_dependency_id_to_connection_id g),
     mg_dep_meta_map := dd_clear (mg_dep_meta_map g)\<rparr>"

section \<open>Lookups\<close>

definition module_by_identifier :: "'c module_graph_data \<Rightarrow> module_identifier \<Rightarrow> graph_module option" where
  "module_by_identifier g m = rb_get (mg_modules g) m"

definition mgm_by_identifier :: "'c module_graph_data \<Rightarrow> module_identifier \<Rightarrow> module_graph_module option" where
  "mgm_by_identifier g m = om_get (mg_module_graph_modules g) m"

definition connection_by_id :: "'c module_graph_data \<Rightarrow> connection_id \<Rightarrow> module_graph_connection option" where
  "connection_by_id g i = dm_get (mg_connections g) i"

definition primary_connection :: "'c module_graph_data \<Rightarrow> dependency_id \<Rightarrow> connection_id option" where
  "primary_connection g d = dm_get (mg_dependency_id_to_connection_id g) d"

definition connection_by_dependency_id :: "'c module_graph_data \<Rightarrow> dependency_id \<Rightarrow> module_graph_connection option" where
  "connection_by_dependency_id g d = Option.bind (primary_connection g d) (connection_by_id g)"

definition dependency_by_id :: "'c module_graph_data \<Rightarrow> dependency_id \<Rightarrow> 'c dependency option" where
  "dependency_by_id g d = dd_get (mg_dependencies g) d"

definition modules_len :: "'c module_graph_data \<Rightarrow> nat" where
  "modules_len g = rb_len (mg_modules g)"

definition get_parent_module :: "'c module_graph_data \<Rightarrow> dependency_id \<Rightarrow> module_identifier option" where
  "get_parent_module g d = map_option dp_module (dd_get (mg_dependency_id_to_parents g) d)"

definition get_parent_block :: "'c module_graph_data \<Rightarrow> dependency_id \<Rightarrow> block_identifier option" where
  "get_parent_block g d = Option.bind (dd_get (mg_dependency_id_to_parents g) d) dp_block"

definition get_parent_block_index :: "'c module_graph_data \<Rightarrow> dependency_id \<Rightarrow> nat option" where
  "get_parent_block_index g d = map_option dp_index_in_block (dd_get (mg_dependency_id_to_parents g) d)"

definition block_by_id :: "'c module_graph_data \<Rightarrow> block_identifier \<Rightarrow> async_block option" where
  "block_by_id g b = mg_blocks g b"

definition module_identifier_by_dependency_id :: "'c module_graph_data \<Rightarrow> dependency_id \<Rightarrow> module_identifier option" where
  "module_identifier_by_dependency_id g d = map_option con_module_identifier (connection_by_dependency_id g d)"

definition mgm_by_dependency_id :: "'c module_graph_data \<Rightarrow> dependency_id \<Rightarrow> module_graph_module option" where
  "mgm_by_dependency_id g d = Option.bind (module_identifier_by_dependency_id g d) (mgm_by_identifier g)"

definition get_module_by_dependency_id :: "'c module_graph_data \<Rightarrow> dependency_id \<Rightarrow> graph_module option" where
  "get_module_by_dependency_id g d = Option.bind (module_identifier_by_dependency_id g d) (module_by_identifier g)"

definition get_resolved_module :: "'c module_graph_data \<Rightarrow> dependency_id \<Rightarrow> module_identifier option" where
  "get_resolved_module g d = map_option con_resolved_module (connection_by_dependency_id g d)"

definition get_ordered_outgoing_connections :: "'c module_graph_data \<Rightarrow> module_identifier \<Rightarrow> module_graph_connection list" where
  "get_ordered_outgoing_connections g m = (case mgm_by_identifier g m of
      None \<Rightarrow> []
    | Some x \<Rightarrow> List.map_filter (connection_by_dependency_id g) (mgm_all_dependencies x))"

definition get_outgoing_deps_in_order :: "'c module_graph_data \<Rightarrow> module_identifier \<Rightarrow> dependency_id list" where
  "get_outgoing_deps_in_order g m = (case mgm_by_identifier g m of
      None \<Rightarrow> []
    | Some x \<Rightarrow> filter (\<lambda>d. connection_by_dependency_id g d \<noteq> None) (mgm_all_dependencies x))"

definition get_outgoing_connections :: "connection_order \<Rightarrow> 'c module_graph_data \<Rightarrow> module_identifier \<Rightarrow> module_graph_connection list" where
  "get_outgoing_connections ord g m = (case mgm_by_identifier g m of
      None \<Rightarrow> []
    | Some x \<Rightarrow> List.map_filter (connection_by_id g) (ord (mgm_outgoing_connections x)))"

definition get_incoming_connections :: "connection_order \<Rightarrow> 'c module_graph_data \<Rightarrow> module_identifier \<Rightarrow> module_graph_connection list" where
  "get_incoming_connections ord g m = (case mgm_by_identifier g m of
      None \<Rightarrow> []
    | Some x \<Rightarrow> List.map_filter (connection_by_id g) (ord (mgm_incoming_connections x)))"

definition get_pre_order_index :: "'c module_graph_data \<Rightarrow> module_identifier \<Rightarrow> u32 option" where
  "get_pre_order_index g m = Option.bind (mgm_by_identifier g m) mgm_pre_order_index"

definition get_post_order_index :: "'c module_graph_data \<Rightarrow> module_identifier \<Rightarrow> u32 option" where
  "get_post_order_index g m = Option.bind (mgm_by_identifier g m) mgm_post_order_index"

definition get_depth :: "'c module_graph_data \<Rightarrow> module_identifier \<Rightarrow> nat option" where
  "get_depth g m = Option.bind (mgm_by_identifier g m) mgm_depth"

definition issuer_get_module :: "'c module_graph_data \<Rightarrow> module_issuer \<Rightarrow> graph_module option" where
  "issuer_get_module g issuer = Option.bind (issuer_identifier issuer) (module_by_identifier g)"

definition get_issuer :: "'c module_graph_data \<Rightarrow> module_identifier \<Rightarrow> graph_module option" where
  "get_issuer g m = Option.bind (mgm_by_identifier g m) (\<lambda>x. issuer_get_module g (mgm_issuer x))"

definition get_optimization_bailout :: "'c module_graph_data \<Rightarrow> module_identifier \<Rightarrow> optimization_bailout_item list option" where
  "get_optimization_bailout g m = map_option mgm_optimization_bailout (mgm_by_identifier g m)"

section \<open>Whether a connection is active\<close>

definition get_condition_state :: "('c \<Rightarrow> module_graph_connection \<Rightarrow> connection_state) \<Rightarrow> 'c module_graph_data \<Rightarrow>
    module_graph_connection \<Rightarrow> connection_state option" where
  "get_condition_state state_of g con =
    map_option (\<lambda>condition. state_of condition con) (dd_get (mg_connection_to_condition g) (con_dependency_id con))"

definition is_connection_active :: "('c \<Rightarrow> module_graph_connection \<Rightarrow> bool) \<Rightarrow> 'c module_graph_data \<Rightarrow>
    module_graph_connection \<Rightarrow> bool option" where
  "is_connection_active active_of g con =
    map_option (\<lambda>condition. active_of condition con) (dd_get (mg_connection_to_condition g) (con_dependency_id con))"

definition con_is_active :: "('c \<Rightarrow> module_graph_connection \<Rightarrow> connection_state) \<Rightarrow> 'c module_graph_data \<Rightarrow>
    module_graph_connection \<Rightarrow> bool option" where
  "con_is_active state_of g con =
    (if \<not> con_conditional con then Some (con_active con)
     else map_option state_is_not_false (get_condition_state state_of g con))"

definition con_is_target_active :: "('c \<Rightarrow> module_graph_connection \<Rightarrow> bool) \<Rightarrow> 'c module_graph_data \<Rightarrow>
    module_graph_connection \<Rightarrow> bool option" where
  "con_is_target_active active_of g con =
    (if \<not> con_conditional con then Some (con_active con) else is_connection_active active_of g con)"

definition con_active_state :: "('c \<Rightarrow> module_graph_connection \<Rightarrow> connection_state) \<Rightarrow> 'c module_graph_data \<Rightarrow>
    module_graph_connection \<Rightarrow> connection_state option" where
  "con_active_state state_of g con =
    (if \<not> con_conditional con then Some (Active (con_active con)) else get_condition_state state_of g con)"

text \<open>Connections grouped by their other end.\<close>

definition push_group :: "'k \<Rightarrow> 'v \<Rightarrow> ('k \<rightharpoonup> 'v list) \<Rightarrow> ('k \<rightharpoonup> 'v list)" where
  "push_group k v groups = groups(k \<mapsto> (case groups k of None \<Rightarrow> [] | Some vs \<Rightarrow> vs) @ [v])"

definition get_outcoming_connections_by_module :: "connection_order \<Rightarrow> 'c module_graph_data \<Rightarrow> module_identifier \<Rightarrow>
    (module_identifier \<rightharpoonup> module_graph_connection list) option" where
  "get_outcoming_connections_by_module ord g m = do {
     x \<leftarrow> mgm_by_identifier g m;
     for_each (\<lambda>i groups. do { con \<leftarrow> connection_by_id g i; Some (push_group (con_module_identifier con) con groups) })
       (ord (mgm_outgoing_connections x)) Map.empty
   }"

definition get_active_outcoming_connections_by_module :: "('c \<Rightarrow> module_graph_connection \<Rightarrow> connection_state) \<Rightarrow>
    connection_order \<Rightarrow> 'c module_graph_data \<Rightarrow> module_identifier \<Rightarrow> (module_identifier \<rightharpoonup> module_graph_connection list) option" where
  "get_active_outcoming_connections_by_module state_of ord g m = do {
     x \<leftarrow> mgm_by_identifier g m;
     for_each (\<lambda>i groups. do {
         con \<leftarrow> connection_by_id g i;
         active \<leftarrow> con_is_active state_of g con;
         Some (if \<not> active then groups else push_group (con_module_identifier con) con groups)
       })
       (ord (mgm_outgoing_connections x)) Map.empty
   }"

record incoming_connections_by_origin_module =
  ico_non_modules :: "module_graph_connection list"
  ico_modules :: "module_identifier \<rightharpoonup> module_graph_connection list"

definition ico_push :: "module_identifier option \<Rightarrow> module_graph_connection \<Rightarrow> incoming_connections_by_origin_module \<Rightarrow>
    incoming_connections_by_origin_module" where
  "ico_push origin con ico = (case origin of
      Some m \<Rightarrow> ico\<lparr>ico_modules := push_group m con (ico_modules ico)\<rparr>
    | None \<Rightarrow> ico\<lparr>ico_non_modules := ico_non_modules ico @ [con]\<rparr>)"

definition get_incoming_connections_by_origin_module :: "connection_order \<Rightarrow> 'c module_graph_data \<Rightarrow> module_identifier \<Rightarrow>
    incoming_connections_by_origin_module option" where
  "get_incoming_connections_by_origin_module ord g m = do {
     x \<leftarrow> mgm_by_identifier g m;
     for_each (\<lambda>i groups. do { con \<leftarrow> connection_by_id g i; Some (ico_push (con_original_module_identifier con) con groups) })
       (ord (mgm_incoming_connections x)) \<lparr>ico_non_modules = [], ico_modules = Map.empty\<rparr>
   }"

text \<open>\<open>is_optional\<close>: every incoming connection is an active optional module dependency, and there is one.\<close>

fun optional_loop :: "('c \<Rightarrow> module_graph_connection \<Rightarrow> bool) \<Rightarrow> 'c module_graph_data \<Rightarrow> module_graph_connection list \<Rightarrow>
    bool \<Rightarrow> bool option" where
  "optional_loop active_of g [] has_connections = Some has_connections"
| "optional_loop active_of g (con # cons) has_connections = do {
     dependency \<leftarrow> dependency_by_id g (con_dependency_id con);
     (case dep_module_dependency dependency of
        None \<Rightarrow> Some False
      | Some (optional, _) \<Rightarrow>
          if \<not> optional then Some False
          else do {
            active \<leftarrow> con_is_target_active active_of g con;
            if \<not> active then Some False else optional_loop active_of g cons True
          })
   }"

definition is_optional :: "('c \<Rightarrow> module_graph_connection \<Rightarrow> bool) \<Rightarrow> connection_order \<Rightarrow> 'c module_graph_data \<Rightarrow>
    module_identifier \<Rightarrow> bool option" where
  "is_optional active_of ord g m = optional_loop active_of g (get_incoming_connections ord g m) False"

definition is_async :: "module_identifier set \<Rightarrow> module_identifier \<Rightarrow> bool" where
  "is_async async_modules m = (m \<in> async_modules)"

definition set_async :: "module_identifier \<Rightarrow> bool \<Rightarrow> module_identifier set \<Rightarrow> bool \<times> module_identifier set" where
  "set_async m b async_modules =
    (let original = is_async async_modules m
     in if original = b then (False, async_modules)
        else if original then (m \<in> async_modules, async_modules - {m})
        else (m \<notin> async_modules, insert m async_modules))"

definition is_deferred :: "module_identifier set \<Rightarrow> 'c module_graph_data \<Rightarrow> module_identifier \<Rightarrow> bool option" where
  "is_deferred imported_by_defer g m =
    (if m \<notin> imported_by_defer then Some False
     else map_option (\<lambda>module. \<not> gmo_has_top_level_await module) (module_by_identifier g m))"

end
