(* ===== verification/Module_Connections.thy ===== *)
theory Module_Connections
  imports Module_Graph
begin

text \<open>
  The operations of the module graph that change connections, and the invariant they keep: every connection is listed by
  the module it points to and by the module it comes from, and nothing else is listed.
\<close>

section \<open>Updates\<close>

definition modify_mgm :: "module_identifier \<Rightarrow> (module_graph_module \<Rightarrow> module_graph_module) \<Rightarrow> 'c module_graph_data \<Rightarrow>
    'c module_graph_data option" where
  "modify_mgm m f g = (case om_get_mut m f (mg_module_graph_modules g) of
      (Some _, mgms) \<Rightarrow> Some (g\<lparr>mg_module_graph_modules := mgms\<rparr>)
    | (None, _) \<Rightarrow> None)"

definition try_modify_mgm :: "module_identifier \<Rightarrow> (module_graph_module \<Rightarrow> module_graph_module) \<Rightarrow> 'c module_graph_data \<Rightarrow>
    'c module_graph_data" where
  "try_modify_mgm m f g = g\<lparr>mg_module_graph_modules := snd (om_get_mut m f (mg_module_graph_modules g))\<rparr>"

definition modify_connection :: "connection_id \<Rightarrow> (module_graph_connection \<Rightarrow> module_graph_connection) \<Rightarrow> 'c module_graph_data \<Rightarrow>
    'c module_graph_data option" where
  "modify_connection i f g = (case dm_get_mut i f (mg_connections g) of
      (Some _, connections) \<Rightarrow> Some (g\<lparr>mg_connections := connections\<rparr>)
    | (None, _) \<Rightarrow> None)"

definition add_module_graph_module :: "module_graph_module \<Rightarrow> 'c module_graph_data \<Rightarrow> 'c module_graph_data" where
  "add_module_graph_module x g =
    g\<lparr>mg_module_graph_modules := om_insert (mgm_module_identifier x) x (mg_module_graph_modules g)\<rparr>"

definition mg_add_module :: "graph_module \<Rightarrow> 'c module_graph_data \<Rightarrow> 'c module_graph_data" where
  "mg_add_module m g = g\<lparr>mg_modules := snd (rb_insert (gmo_identifier m) m (mg_modules g))\<rparr>"

definition mg_add_block :: "async_block \<Rightarrow> 'c module_graph_data \<Rightarrow> 'c module_graph_data" where
  "mg_add_block b g = g\<lparr>mg_blocks := (mg_blocks g)(ab_id b \<mapsto> b)\<rparr>"

definition set_parents :: "dependency_id \<Rightarrow> dependency_parents \<Rightarrow> 'c module_graph_data \<Rightarrow> 'c module_graph_data" where
  "set_parents d parents g =
    g\<lparr>mg_dependency_id_to_parents := snd (dd_insert d parents (mg_dependency_id_to_parents g))\<rparr>"

definition add_dependency_ref :: "'c dependency \<Rightarrow> 'c module_graph_data \<Rightarrow> 'c module_graph_data" where
  "add_dependency_ref d g = g\<lparr>mg_dependencies := snd (dd_insert (dep_id d) d (mg_dependencies g))\<rparr>"

definition set_dependency_extra_meta :: "dependency_id \<Rightarrow> dependency_extra_meta \<Rightarrow> 'c module_graph_data \<Rightarrow> 'c module_graph_data" where
  "set_dependency_extra_meta d extra g = g\<lparr>mg_dep_meta_map := snd (dd_insert d extra (mg_dep_meta_map g))\<rparr>"

definition set_depth_if_lower :: "module_identifier \<Rightarrow> nat \<Rightarrow> 'c module_graph_data \<Rightarrow> (bool \<times> 'c module_graph_data) option" where
  "set_depth_if_lower m depth g = do {
     x \<leftarrow> mgm_by_identifier g m;
     let lower = (case mgm_depth x of Some cur_depth \<Rightarrow> \<not> cur_depth \<le> depth | None \<Rightarrow> True);
     g \<leftarrow> modify_mgm m (\<lambda>x. if lower then x\<lparr>mgm_depth := Some depth\<rparr> else x) g;
     Some (lower, g)
   }"

text \<open>The attributes, exports info and async flag of one module for another.\<close>

definition clone_module_attributes :: "module_identifier \<Rightarrow> module_identifier \<Rightarrow>
    'c module_graph_data \<times> (module_identifier \<rightharpoonup> 'e) \<times> module_identifier set \<Rightarrow>
    ('c module_graph_data \<times> (module_identifier \<rightharpoonup> 'e) \<times> module_identifier set) option" where
  "clone_module_attributes source_module target_module s = (case s of (g, exports_info, async_modules) \<Rightarrow> do {
     old_mgm \<leftarrow> mgm_by_identifier g source_module;
     g \<leftarrow> modify_mgm target_module (\<lambda>x. x\<lparr>mgm_post_order_index := mgm_post_order_index old_mgm,
       mgm_pre_order_index := mgm_pre_order_index old_mgm, mgm_depth := mgm_depth old_mgm\<rparr>) g;
     info \<leftarrow> exports_info source_module;
     Some (g, exports_info(target_module \<mapsto> info), snd (set_async target_module (is_async async_modules source_module) async_modules))
   })"

definition insert_connection :: "module_graph_connection \<Rightarrow> 'c module_graph_data \<Rightarrow> 'c module_graph_data option" where
  "insert_connection con g = do {
     let g = g\<lparr>mg_connections := dm_insert (con_id con) con (mg_connections g)\<rparr>;
     g \<leftarrow> modify_mgm (con_module_identifier con) (add_incoming_connection (con_id con)) g;
     (case con_original_module_identifier con of
        Some i \<Rightarrow> modify_mgm i (add_outgoing_connection (con_id con)) g
      | None \<Rightarrow> Some g)
   }"

definition next_connection_id :: "'c module_graph_data \<Rightarrow> connection_id option" where
  "next_connection_id g = (let i = next_index (mg_connections g) in if i < 2 ^ 32 then Some (of_nat i) else None)"

definition set_resolved_module :: "module_identifier option \<Rightarrow> dependency_id \<Rightarrow> module_identifier \<Rightarrow> 'c module_graph_data \<Rightarrow>
    'c module_graph_data option" where
  "set_resolved_module origin d m g =
    (if connection_by_dependency_id g d \<noteq> None then Some g
     else do {
       dependency \<leftarrow> dependency_by_id g d;
       let is_module_dependency = (dep_module_dependency dependency \<noteq> None \<or> dep_context_dependency dependency);
       let condition = Option.bind (dep_module_dependency dependency) snd;
       if \<not> is_module_dependency then Some g
       else do {
         i \<leftarrow> next_connection_id g;
         let new_connection = connection_new i d origin m (condition \<noteq> None);
         let g = (case condition of
             Some condition \<Rightarrow> g\<lparr>mg_connection_to_condition := snd (dd_insert d condition (mg_connection_to_condition g))\<rparr>
           | None \<Rightarrow> g);
         let g = g\<lparr>mg_dependency_id_to_connection_id := dm_insert d i (mg_dependency_id_to_connection_id g)\<rparr>;
         insert_connection new_connection g
       }
     })"

definition cache_recovery_connection :: "module_graph_connection \<Rightarrow> 'c module_graph_data \<Rightarrow> 'c module_graph_data option" where
  "cache_recovery_connection con g = do {
     dependency \<leftarrow> dependency_by_id g (con_dependency_id con);
     let g = (case Option.bind (dep_module_dependency dependency) snd of
         Some condition \<Rightarrow>
           g\<lparr>mg_connection_to_condition := snd (dd_insert (con_dependency_id con) condition (mg_connection_to_condition g))\<rparr>
       | None \<Rightarrow> g);
     Some (g\<lparr>mg_dependency_id_to_connection_id := dm_insert (con_dependency_id con) (con_id con) (mg_dependency_id_to_connection_id g),
       mg_connections := dm_insert (con_id con) con (mg_connections g)\<rparr>)
   }"

definition batch_copy_connections :: "(connection_id \<times> module_identifier) list \<Rightarrow> 'c module_graph_data \<Rightarrow> 'c module_graph_data option" where
  "batch_copy_connections tasks g = for_each (\<lambda>(i, origin) g. do {
     con \<leftarrow> connection_by_id g i;
     j \<leftarrow> next_connection_id g;
     insert_connection (con\<lparr>con_id := j, con_original_module_identifier := Some origin\<rparr>) g
   }) tasks g"

definition can_update_module :: "dependency_id \<Rightarrow> module_identifier \<Rightarrow> 'c module_graph_data \<Rightarrow> bool option" where
  "can_update_module d m g = map_option (\<lambda>con. con_module_identifier con \<noteq> m) (connection_by_dependency_id g d)"

definition do_update_module :: "dependency_id \<Rightarrow> module_identifier \<Rightarrow> 'c module_graph_data \<Rightarrow> 'c module_graph_data option" where
  "do_update_module d m g = do {
     i \<leftarrow> primary_connection g d;
     con \<leftarrow> connection_by_id g i;
     let old_module_identifier = con_module_identifier con;
     let connection_id = con_id con;
     g \<leftarrow> modify_connection i (set_module_identifier m) g;
     g \<leftarrow> modify_mgm old_module_identifier (remove_incoming_connection connection_id) g;
     modify_mgm m (add_incoming_connection connection_id) g
   }"

text \<open>The two halves of \<open>move_module_connections\<close>; the filter sees a connection and its dependency.\<close>

definition move_step :: "(module_graph_connection \<Rightarrow> module_graph_connection) \<Rightarrow> (module_graph_connection \<Rightarrow> 'c dependency \<Rightarrow> bool) \<Rightarrow>
    connection_id \<Rightarrow> 'c module_graph_data \<times> connection_id list \<Rightarrow> ('c module_graph_data \<times> connection_id list) option" where
  "move_step change flt i s = (case s of (g, affected) \<Rightarrow> do {
     con \<leftarrow> connection_by_id g i;
     dependency \<leftarrow> dependency_by_id g (con_dependency_id con);
     if flt con dependency then do {
       g \<leftarrow> modify_connection i change g;
       Some (g, affected @ [i])
     } else Some (g, affected)
   })"

definition move_loop :: "(module_graph_connection \<Rightarrow> module_graph_connection) \<Rightarrow> (module_graph_connection \<Rightarrow> 'c dependency \<Rightarrow> bool) \<Rightarrow>
    connection_id list \<Rightarrow> 'c module_graph_data \<Rightarrow> ('c module_graph_data \<times> connection_id list) option" where
  "move_loop change flt ids g = for_each (move_step change flt) ids (g, [])"

definition move_half :: "connection_order \<Rightarrow> (module_graph_module \<Rightarrow> connection_id set) \<Rightarrow> (connection_id \<Rightarrow> module_graph_module \<Rightarrow> module_graph_module) \<Rightarrow>
    (connection_id \<Rightarrow> module_graph_module \<Rightarrow> module_graph_module) \<Rightarrow> (module_graph_connection \<Rightarrow> module_graph_connection) \<Rightarrow>
    module_identifier \<Rightarrow> module_identifier \<Rightarrow> (module_graph_connection \<Rightarrow> 'c dependency \<Rightarrow> bool) \<Rightarrow> 'c module_graph_data \<Rightarrow>
    'c module_graph_data option" where
  "move_half ord sel rem add change old_module new_module flt g = do {
     x \<leftarrow> mgm_by_identifier g old_module;
     (g, affected) \<leftarrow> move_loop change flt (ord (sel x)) g;
     g \<leftarrow> modify_mgm old_module (fold rem affected) g;
     modify_mgm new_module (fold add affected) g
   }"

definition move_module_connections :: "connection_order \<Rightarrow> module_identifier \<Rightarrow> module_identifier \<Rightarrow>
    (module_graph_connection \<Rightarrow> 'c dependency \<Rightarrow> bool) \<Rightarrow> 'c module_graph_data \<Rightarrow> 'c module_graph_data option" where
  "move_module_connections ord old_module new_module flt g =
    (if old_module = new_module then Some g
     else do {
       g \<leftarrow> move_half ord mgm_outgoing_connections remove_outgoing_connection add_outgoing_connection
         (\<lambda>con. con\<lparr>con_original_module_identifier := Some new_module\<rparr>) old_module new_module flt g;
       move_half ord mgm_incoming_connections remove_incoming_connection add_incoming_connection
         (set_module_identifier new_module) old_module new_module flt g
     })"

section \<open>Revoking\<close>

type_synonym build_dependency = "dependency_id \<times> module_identifier option"

definition remove_from_block :: "dependency_id \<Rightarrow> async_block \<Rightarrow> async_block" where
  "remove_from_block d b = b\<lparr>ab_dependencies := filter (\<lambda>id. id \<noteq> d) (ab_dependencies b)\<rparr>"

definition revoke_dependency :: "dependency_id \<Rightarrow> bool \<Rightarrow> 'c module_graph_data \<Rightarrow> (build_dependency \<times> 'c module_graph_data) option" where
  "revoke_dependency d force g =
    (let original = get_parent_module g d;
         target = module_identifier_by_dependency_id g d;
         parent_block = get_parent_block g d;
         connection_id = primary_connection g d
     in if force \<and> \<not> (case original of None \<Rightarrow> True | Some m \<Rightarrow> module_by_identifier g m = None) then None
        else
          let g = (case connection_id of
                Some i \<Rightarrow> g\<lparr>mg_connections := dm_remove i (mg_connections g),
                  mg_dependency_id_to_connection_id := dm_remove d (mg_dependency_id_to_connection_id g)\<rparr>
              | None \<Rightarrow> g);
              g = (if force then
                  let g = g\<lparr>mg_dependencies := snd (dd_remove d (mg_dependencies g)),
                    mg_dependency_id_to_parents := snd (dd_remove d (mg_dependency_id_to_parents g)),
                    mg_connection_to_condition := snd (dd_remove d (mg_connection_to_condition g))\<rparr>
                  in (case parent_block of
                      None \<Rightarrow> g
                    | Some b \<Rightarrow> g\<lparr>mg_blocks := (mg_blocks g)(b := map_option (remove_from_block d) (mg_blocks g b))\<rparr>)
                else g);
              g = (case original of
                  None \<Rightarrow> g
                | Some m \<Rightarrow> try_modify_mgm m (\<lambda>x.
                    let x = (case connection_id of Some i \<Rightarrow> remove_outgoing_connection i x | None \<Rightarrow> x)
                    in if force then x\<lparr>mgm_all_dependencies := filter (\<lambda>id. id \<noteq> d) (mgm_all_dependencies x)\<rparr> else x) g);
              g = (case target of
                  None \<Rightarrow> g
                | Some m \<Rightarrow> try_modify_mgm m (\<lambda>x.
                    case connection_id of Some i \<Rightarrow> remove_incoming_connection i x | None \<Rightarrow> x) g)
          in Some ((d, original), g))"

text \<open>The worklist that removes the blocks of a module and the blocks nested in them: a stack of block ids.\<close>

function remove_blocks :: "block_identifier list \<Rightarrow> (block_identifier \<rightharpoonup> async_block) \<Rightarrow> (block_identifier \<rightharpoonup> async_block)" where
  "remove_blocks stack blocks =
    (if stack = [] then blocks
     else case blocks (last stack) of
         None \<Rightarrow> remove_blocks (butlast stack) blocks
       | Some b \<Rightarrow> if finite (dom blocks) then remove_blocks (butlast stack @ ab_blocks b) (blocks(last stack := None))
                   else blocks)"
  by pat_completeness auto
termination remove_blocks
proof (relation "(\<lambda>(stack, blocks). card (dom blocks)) <*mlex*> measure (\<lambda>(stack, blocks). length stack)", goal_cases)
  case 1
  then show ?case by (simp add: wf_mlex)
next
  case (2 stack blocks)
  then show ?case by (auto simp: mlex_prod_def)
next
  case (3 stack blocks b)
  then have "card (dom blocks - {last stack}) < card (dom blocks)"
    by (intro psubset_card_mono) auto
  then show ?case by (simp add: mlex_prod_def)
qed

declare remove_blocks.simps [simp del]

definition revoke_step :: "bool \<Rightarrow> dependency_id \<Rightarrow> build_dependency list \<times> 'c module_graph_data \<Rightarrow>
    (build_dependency list \<times> 'c module_graph_data) option" where
  "revoke_step force d s = (case s of (out, g) \<Rightarrow> do {
     (b, g) \<leftarrow> revoke_dependency d force g;
     Some (out @ [b], g)
   })"

definition revoke_all :: "bool \<Rightarrow> dependency_id list \<Rightarrow> 'c module_graph_data \<Rightarrow> (build_dependency list \<times> 'c module_graph_data) option" where
  "revoke_all force ds g = for_each (revoke_step force) ds ([], g)"

definition revoke_module :: "connection_order \<Rightarrow> module_identifier \<Rightarrow> 'c module_graph_data \<Rightarrow>
    (build_dependency list \<times> 'c module_graph_data) option" where
  "revoke_module ord m g = do {
     let blocks = (case module_by_identifier g m of Some module \<Rightarrow> gmo_blocks module | None \<Rightarrow> []);
     let (incoming, all_dependencies) = (case mgm_by_identifier g m of
         Some x \<Rightarrow> (map con_dependency_id (List.map_filter (connection_by_id g) (ord (mgm_incoming_connections x))),
                    mgm_all_dependencies x)
       | None \<Rightarrow> ([], []));
     let g = g\<lparr>mg_modules := snd (rb_remove m (mg_modules g)),
               mg_module_graph_modules := om_remove m (mg_module_graph_modules g)\<rparr>;
     let g = g\<lparr>mg_blocks := remove_blocks blocks (mg_blocks g)\<rparr>;
     (_, g) \<leftarrow> revoke_all True all_dependencies g;
     revoke_all False incoming g
   }"

section \<open>Batches\<close>

text \<open>
  The parallel map of a batch reads the graph before any of its writes; the result vector keeps the order of the tasks.
\<close>

definition batch_connections :: "(module_identifier \<Rightarrow> module_graph_connection \<Rightarrow> module_graph_connection) \<Rightarrow>
    (connection_id \<times> module_identifier) list \<Rightarrow> 'c module_graph_data \<Rightarrow> 'c module_graph_data option" where
  "batch_connections change tasks g = do {
     changed \<leftarrow> those (map (\<lambda>(i, m). map_option (\<lambda>con. (i, change m con)) (connection_by_id g i)) tasks);
     for_each (\<lambda>(i, con). modify_connection i (\<lambda>_. con)) changed g
   }"

definition batch_set_connections_original_module :: "(connection_id \<times> module_identifier) list \<Rightarrow> 'c module_graph_data \<Rightarrow>
    'c module_graph_data option" where
  "batch_set_connections_original_module =
    batch_connections (\<lambda>m con. con\<lparr>con_original_module_identifier := Some m\<rparr>)"

definition batch_set_connections_module :: "(connection_id \<times> module_identifier) list \<Rightarrow> 'c module_graph_data \<Rightarrow>
    'c module_graph_data option" where
  "batch_set_connections_module = batch_connections set_module_identifier"

definition batch_mgms :: "(connection_id \<Rightarrow> module_graph_module \<Rightarrow> module_graph_module) \<Rightarrow>
    (connection_id \<Rightarrow> module_graph_module \<Rightarrow> module_graph_module) \<Rightarrow>
    (module_identifier \<times> connection_id list \<times> connection_id list) list \<Rightarrow> 'c module_graph_data \<Rightarrow> 'c module_graph_data option" where
  "batch_mgms out inc tasks g = do {
     changed \<leftarrow> those (map (\<lambda>(m, outgoings, incomings).
       map_option (\<lambda>x. (m, fold inc incomings (fold out outgoings x))) (mgm_by_identifier g m)) tasks);
     Some (g\<lparr>mg_module_graph_modules := fold (\<lambda>(m, x). om_insert m x) changed (mg_module_graph_modules g)\<rparr>)
   }"

definition batch_add_connections :: "(module_identifier \<times> connection_id list \<times> connection_id list) list \<Rightarrow>
    'c module_graph_data \<Rightarrow> 'c module_graph_data option" where
  "batch_add_connections = batch_mgms add_outgoing_connection add_incoming_connection"

definition batch_remove_connections :: "(module_identifier \<times> connection_id list \<times> connection_id list) list \<Rightarrow>
    'c module_graph_data \<Rightarrow> 'c module_graph_data option" where
  "batch_remove_connections = batch_mgms remove_outgoing_connection remove_incoming_connection"

end
