(* ===== verification/Module_Links.thy ===== *)
theory Module_Links
  imports Module_Connections
begin

text \<open>
  The invariant of the module graph and its properties.  \<open>links C M\<close> says of the connections \<open>C\<close> and the graph modules
  \<open>M\<close> that each module lists exactly the connections that point to it and that come from it.
\<close>

section \<open>The link invariant\<close>

type_synonym con_map = "connection_id \<rightharpoonup> module_graph_connection"
type_synonym mgm_map = "module_identifier \<rightharpoonup> module_graph_module"

definition ins :: "mgm_map \<Rightarrow> module_identifier \<Rightarrow> connection_id set" where
  "ins M m = (case M m of None \<Rightarrow> {} | Some x \<Rightarrow> mgm_incoming_connections x)"

definition outs :: "mgm_map \<Rightarrow> module_identifier \<Rightarrow> connection_id set" where
  "outs M m = (case M m of None \<Rightarrow> {} | Some x \<Rightarrow> mgm_outgoing_connections x)"

definition pointing_to :: "con_map \<Rightarrow> module_identifier \<Rightarrow> connection_id set" where
  "pointing_to C m = {i. \<exists>c. C i = Some c \<and> con_module_identifier c = m}"

definition coming_from :: "con_map \<Rightarrow> module_identifier \<Rightarrow> connection_id set" where
  "coming_from C m = {i. \<exists>c. C i = Some c \<and> con_original_module_identifier c = Some m}"

definition links_on :: "module_identifier set \<Rightarrow> con_map \<Rightarrow> mgm_map \<Rightarrow> bool" where
  "links_on K C M \<longleftrightarrow> (\<forall>m \<in> K. ins M m = pointing_to C m \<and> outs M m = coming_from C m) \<and>
    (\<forall>i c. C i = Some c \<longrightarrow> con_id c = i)"

abbreviation links :: "con_map \<Rightarrow> mgm_map \<Rightarrow> bool" where
  "links \<equiv> links_on UNIV"

lemma links_onD:
  assumes "links_on K C M"
  shows "m \<in> K \<Longrightarrow> ins M m = pointing_to C m" "m \<in> K \<Longrightarrow> outs M m = coming_from C m" "C i = Some c \<Longrightarrow> con_id c = i"
  using assms unfolding links_on_def by blast+

text \<open>How the two lists of a module change under the updates of a graph module.\<close>

lemma ins_update:
  "ins (M(m := map_option f (M m))) k =
    (if k = m \<and> M m \<noteq> None then mgm_incoming_connections (f (the (M m))) else ins M k)"
  by (auto simp: ins_def)

lemma outs_update:
  "outs (M(m := map_option f (M m))) k =
    (if k = m \<and> M m \<noteq> None then mgm_outgoing_connections (f (the (M m))) else outs M k)"
  by (auto simp: outs_def)

lemma connection_fields [simp]:
  "mgm_incoming_connections (add_incoming_connection i x) = insert i (mgm_incoming_connections x)"
  "mgm_outgoing_connections (add_incoming_connection i x) = mgm_outgoing_connections x"
  "mgm_incoming_connections (remove_incoming_connection i x) = mgm_incoming_connections x - {i}"
  "mgm_outgoing_connections (remove_incoming_connection i x) = mgm_outgoing_connections x"
  "mgm_incoming_connections (add_outgoing_connection i x) = mgm_incoming_connections x"
  "mgm_outgoing_connections (add_outgoing_connection i x) = insert i (mgm_outgoing_connections x)"
  "mgm_incoming_connections (remove_outgoing_connection i x) = mgm_incoming_connections x"
  "mgm_outgoing_connections (remove_outgoing_connection i x) = mgm_outgoing_connections x - {i}"
  by (simp_all add: add_incoming_connection_def remove_incoming_connection_def add_outgoing_connection_def remove_outgoing_connection_def)

lemma ins_known: "M m \<noteq> None \<Longrightarrow> mgm_incoming_connections (the (M m)) = ins M m"
  by (auto simp: ins_def)

lemma outs_known: "M m \<noteq> None \<Longrightarrow> mgm_outgoing_connections (the (M m)) = outs M m"
  by (auto simp: outs_def)

text \<open>Setting one connection, and removing one.\<close>

lemma pointing_to_update:
  "pointing_to (C(i := c)) m = (case c of Some x \<Rightarrow> if con_module_identifier x = m then insert i (pointing_to C m) else pointing_to C m - {i}
     | None \<Rightarrow> pointing_to C m - {i})"
  by (auto simp: pointing_to_def split: option.splits)

lemma coming_from_update:
  "coming_from (C(i := c)) m = (case c of
      Some x \<Rightarrow> if con_original_module_identifier x = Some m then insert i (coming_from C m) else coming_from C m - {i}
    | None \<Rightarrow> coming_from C m - {i})"
  by (auto simp: coming_from_def split: option.splits)

lemma pointing_to_iff: "C i = Some c \<Longrightarrow> i \<in> pointing_to C m \<longleftrightarrow> con_module_identifier c = m"
  by (auto simp: pointing_to_def)

lemma coming_from_iff: "C i = Some c \<Longrightarrow> i \<in> coming_from C m \<longleftrightarrow> con_original_module_identifier c = Some m"
  by (auto simp: coming_from_def)

lemma not_linked: "C i = None \<Longrightarrow> i \<notin> pointing_to C m \<and> i \<notin> coming_from C m"
  by (simp add: pointing_to_def coming_from_def)

definition upd :: "module_identifier option \<Rightarrow> (module_graph_module \<Rightarrow> module_graph_module) \<Rightarrow> mgm_map \<Rightarrow> mgm_map" where
  "upd m f M = (case m of None \<Rightarrow> M | Some m \<Rightarrow> M(m := map_option f (M m)))"

lemma upd_dom [simp]: "dom (upd m f M) = dom M" "upd m f M k = None \<longleftrightarrow> M k = None"
  by (auto simp: upd_def split: option.splits if_splits)

lemma ins_upd: "ins (upd m f M) k = (if m = Some k \<and> M k \<noteq> None then mgm_incoming_connections (f (the (M k))) else ins M k)"
  by (auto simp: upd_def ins_update split: option.split)

lemma outs_upd: "outs (upd m f M) k = (if m = Some k \<and> M k \<noteq> None then mgm_outgoing_connections (f (the (M k))) else outs M k)"
  by (auto simp: upd_def outs_update split: option.split)

lemma outs_shrink: "(\<And>x. mgm_outgoing_connections (f x) = mgm_outgoing_connections x - A) \<Longrightarrow>
    outs (upd m f M) k = (if m = Some k then outs M k - A else outs M k)"
  by (cases "M k"; cases m) (auto simp: upd_def outs_def)

lemma ins_shrink: "(\<And>x. mgm_incoming_connections (f x) = mgm_incoming_connections x - A) \<Longrightarrow>
    ins (upd m f M) k = (if m = Some k then ins M k - A else ins M k)"
  by (cases "M k"; cases m) (auto simp: upd_def ins_def)

lemma outs_keep: "(\<And>x. mgm_outgoing_connections (f x) = mgm_outgoing_connections x) \<Longrightarrow> outs (upd m f M) k = outs M k"
  by (cases "M k"; cases m) (auto simp: upd_def outs_def)

lemma ins_keep: "(\<And>x. mgm_incoming_connections (f x) = mgm_incoming_connections x) \<Longrightarrow> ins (upd m f M) k = ins M k"
  by (cases "M k"; cases m) (auto simp: upd_def ins_def)

lemma links_insert:
  assumes "links C M" "C (con_id c) = None" "M (con_module_identifier c) \<noteq> None"
    and "\<forall>m. con_original_module_identifier c = Some m \<longrightarrow> M m \<noteq> None"
  shows "links (C(con_id c \<mapsto> c)) (upd (con_original_module_identifier c) (add_outgoing_connection (con_id c))
    (upd (Some (con_module_identifier c)) (add_incoming_connection (con_id c)) M))"
proof -
  let ?M1 = "upd (Some (con_module_identifier c)) (add_incoming_connection (con_id c)) M"
  let ?M2 = "upd (con_original_module_identifier c) (add_outgoing_connection (con_id c)) ?M1"
  have i: "ins ?M1 k = (if k = con_module_identifier c then insert (con_id c) (ins M k) else ins M k)" "outs ?M1 k = outs M k" for k
    using assms(3) by (auto simp: ins_upd outs_upd ins_known outs_known)
  have "ins ?M2 k = ins ?M1 k" for k
    by (simp add: ins_upd [of "con_original_module_identifier c"] ins_known)
  moreover have "outs ?M2 k = (if con_original_module_identifier c = Some k then insert (con_id c) (outs ?M1 k) else outs ?M1 k)" for k
    using assms(4) by (simp add: outs_upd [of "con_original_module_identifier c"] outs_known)
  ultimately show ?thesis
    using links_onD [OF assms(1)] not_linked [of C "con_id c", OF assms(2)]
    by (auto simp: links_on_def pointing_to_update coming_from_update i)
qed

lemma links_remove:
  assumes "links_on K C M" "C i = Some c"
    and "con_original_module_identifier c = origin \<or> (\<forall>m. con_original_module_identifier c = Some m \<longrightarrow> m \<notin> K) \<and> origin = None"
    and f: "\<And>x. mgm_outgoing_connections (f x) = mgm_outgoing_connections x - {i}" "\<And>x. mgm_incoming_connections (f x) = mgm_incoming_connections x"
    and h: "\<And>x. mgm_outgoing_connections (h x) = mgm_outgoing_connections x" "\<And>x. mgm_incoming_connections (h x) = mgm_incoming_connections x - {i}"
  shows "links_on K (C(i := None)) (upd (Some (con_module_identifier c)) h (upd origin f M))"
proof -
  let ?M1 = "upd origin f M"
  let ?M2 = "upd (Some (con_module_identifier c)) h ?M1"
  have o: "outs ?M1 k = (if origin = Some k then outs M k - {i} else outs M k)" "ins ?M1 k = ins M k" for k
    using outs_shrink [of f "{i}" origin M k] ins_keep [of f origin M k] f by simp_all
  have "outs ?M2 k = outs ?M1 k" "ins ?M2 k = (if k = con_module_identifier c then ins ?M1 k - {i} else ins ?M1 k)" for k
    using outs_keep [of h "Some (con_module_identifier c)" ?M1 k] ins_shrink [of h "{i}" "Some (con_module_identifier c)" ?M1 k] h by auto
  moreover have "i \<notin> pointing_to C k" if "k \<noteq> con_module_identifier c" for k using that assms(2) by (auto simp: pointing_to_def)
  moreover have "i \<notin> coming_from C k" if "k \<in> K" "origin \<noteq> Some k" for k
    using that assms(2,3) by (auto simp: coming_from_def)
  ultimately show ?thesis
    using links_onD [OF assms(1)] by (auto simp: links_on_def pointing_to_update coming_from_update o)
qed

section \<open>What the operations do to the maps\<close>

lemma modify_mgm_eq: "modify_mgm m f g = (if mgm_by_identifier g m = None then None else Some (try_modify_mgm m f g))"
proof -
  obtain v s where r: "om_get_mut m f (mg_module_graph_modules g) = (v, s)" by (cases "om_get_mut m f (mg_module_graph_modules g)")
  then have "v = mgm_by_identifier g m" using om_get_mut_spec(1) [of m f "mg_module_graph_modules g"] by (simp add: mgm_by_identifier_def)
  then show ?thesis using r by (simp add: modify_mgm_def try_modify_mgm_def split: option.split)
qed

lemma modify_connection_eq:
  "modify_connection i f g = (if connection_by_id g i = None then None
    else Some (g\<lparr>mg_connections := snd (dm_get_mut i f (mg_connections g))\<rparr>))"
proof -
  obtain v s where r: "dm_get_mut i f (mg_connections g) = (v, s)" by (cases "dm_get_mut i f (mg_connections g)")
  then have "v = connection_by_id g i" using dm_get_mut_spec(1) [of i f "mg_connections g"] by (simp add: connection_by_id_def)
  then show ?thesis using r by (simp add: modify_connection_def split: option.split)
qed

lemma try_modify_views [simp]:
  "mgm_by_identifier (try_modify_mgm m f g) = upd (Some m) f (mgm_by_identifier g)"
  "connection_by_id (try_modify_mgm m f g) = connection_by_id g"
  "primary_connection (try_modify_mgm m f g) = primary_connection g"
  "module_by_identifier (try_modify_mgm m f g) = module_by_identifier g"
  "dependency_by_id (try_modify_mgm m f g) = dependency_by_id g"
  "get_parent_module (try_modify_mgm m f g) = get_parent_module g"
  "mg_connections (try_modify_mgm m f g) = mg_connections g"
  by (rule ext; simp add: try_modify_mgm_def mgm_by_identifier_def om_get_mut_spec upd_def connection_by_id_def
      primary_connection_def module_by_identifier_def dependency_by_id_def get_parent_module_def)+
    (simp add: try_modify_mgm_def)

lemma insert_connection_spec:
  assumes "links (connection_by_id g) (mgm_by_identifier g)" "connection_by_id g (con_id c) = None"
    and "mgm_by_identifier g (con_module_identifier c) \<noteq> None"
    and "\<forall>m. con_original_module_identifier c = Some m \<longrightarrow> mgm_by_identifier g m \<noteq> None"
  shows "\<exists>g'. insert_connection c g = Some g' \<and> links (connection_by_id g') (mgm_by_identifier g') \<and>
    connection_by_id g' = (connection_by_id g)(con_id c \<mapsto> c) \<and> dom (mgm_by_identifier g') = dom (mgm_by_identifier g) \<and>
    primary_connection g' = primary_connection g \<and> dependency_by_id g' = dependency_by_id g \<and>
    module_by_identifier g' = module_by_identifier g \<and> get_parent_module g' = get_parent_module g"
proof -
  define g0 where "g0 = g\<lparr>mg_connections := dm_insert (con_id c) c (mg_connections g)\<rparr>"
  have v0: "connection_by_id g0 = (connection_by_id g)(con_id c \<mapsto> c)" "mgm_by_identifier g0 = mgm_by_identifier g"
    "primary_connection g0 = primary_connection g" "dependency_by_id g0 = dependency_by_id g"
    "module_by_identifier g0 = module_by_identifier g" "get_parent_module g0 = get_parent_module g"
    by (rule ext; simp add: g0_def connection_by_id_def mgm_by_identifier_def primary_connection_def dependency_by_id_def
        module_by_identifier_def get_parent_module_def)+
  define g1 where "g1 = try_modify_mgm (con_module_identifier c) (add_incoming_connection (con_id c)) g0"
  define g2 where "g2 = (case con_original_module_identifier c of
      Some i \<Rightarrow> try_modify_mgm i (add_outgoing_connection (con_id c)) g1 | None \<Rightarrow> g1)"
  have "insert_connection c g = Some g2"
    using assms(3,4) v0(2) unfolding insert_connection_def Let_def g0_def [symmetric]
    by (auto simp: modify_mgm_eq g1_def g2_def split: option.split)
  moreover have "mgm_by_identifier g2 = upd (con_original_module_identifier c) (add_outgoing_connection (con_id c))
      (upd (Some (con_module_identifier c)) (add_incoming_connection (con_id c)) (mgm_by_identifier g))"
    by (simp add: g2_def g1_def v0 upd_def [of "con_original_module_identifier c"] split: option.split)
      (simp add: upd_def)
  moreover have "connection_by_id g2 = (connection_by_id g)(con_id c \<mapsto> c)" "primary_connection g2 = primary_connection g"
    "dependency_by_id g2 = dependency_by_id g" "module_by_identifier g2 = module_by_identifier g" "get_parent_module g2 = get_parent_module g"
    by (simp_all add: g2_def g1_def v0 split: option.split)
  ultimately show ?thesis using links_insert [OF assms] by (intro exI [of _ g2]) simp
qed

lemma next_connection_fresh:
  assumes "next_connection_id g = Some i"
  shows "connection_by_id g i = None"
proof -
  have "next_index (mg_connections g) < 2 ^ 32" "i = of_nat (next_index (mg_connections g))"
    using assms by (auto simp: next_connection_id_def Let_def split: if_splits)
  then have "unat i = next_index (mg_connections g)" by (simp add: unat_of_nat take_bit_nat_eq_self)
  then show ?thesis using dm_next_fresh [of "mg_connections g" i] by (simp add: connection_by_id_def)
qed

section \<open>Well-formed graphs\<close>

text \<open>The primary connection of a dependency exists and belongs to it.\<close>

definition primary_ok :: "con_map \<Rightarrow> (dependency_id \<rightharpoonup> connection_id) \<Rightarrow> bool" where
  "primary_ok C P \<longleftrightarrow> (\<forall>d i. P d = Some i \<longrightarrow> (\<exists>c. C i = Some c \<and> con_dependency_id c = d))"

definition mg_wf :: "'c module_graph_data \<Rightarrow> bool" where
  "mg_wf g \<longleftrightarrow> links (connection_by_id g) (mgm_by_identifier g) \<and> primary_ok (connection_by_id g) (primary_connection g)"

lemma primary_ok_update:
  assumes "primary_ok C P" "C i = Some c" "con_dependency_id c' = con_dependency_id c"
  shows "primary_ok (C(i \<mapsto> c')) P"
  unfolding primary_ok_def
proof (intro allI impI)
  fix d j
  assume "P d = Some j"
  then obtain x where "C j = Some x" "con_dependency_id x = d" using assms(1) unfolding primary_ok_def by blast
  then show "\<exists>x. (C(i \<mapsto> c')) j = Some x \<and> con_dependency_id x = d" using assms(2,3) by (cases "j = i") auto
qed

lemma primary_ok_insert:
  assumes "primary_ok C P" "C i = None" "con_dependency_id c = d"
  shows "primary_ok (C(i \<mapsto> c)) (P(d \<mapsto> i))"
  unfolding primary_ok_def
proof (intro allI impI)
  fix e j
  assume P: "(P(d \<mapsto> i)) e = Some j"
  show "\<exists>x. (C(i \<mapsto> c)) j = Some x \<and> con_dependency_id x = e"
  proof (cases "e = d")
    case False
    then obtain x where "C j = Some x" "con_dependency_id x = e" using P assms(1) unfolding primary_ok_def by auto
    then show ?thesis using assms(2) by (cases "j = i") auto
  qed (use P assms(3) in auto)
qed

text \<open>In the make phase a primary connection comes from the parent module of its dependency.\<close>

definition origin_ok :: "'c module_graph_data \<Rightarrow> bool" where
  "origin_ok g \<longleftrightarrow> (\<forall>d i c. primary_connection g d = Some i \<longrightarrow> connection_by_id g i = Some c \<longrightarrow>
    con_original_module_identifier c = get_parent_module g d)"

section \<open>A concrete graph\<close>

text \<open>The module \<open>a\<close> imports \<open>b\<close> through dependency 0, whose connection is 0; dependency 1 of \<open>a\<close> is not resolved.\<close>

definition sample_connection :: module_graph_connection where
  "sample_connection = connection_new 0 0 (Some ''a'') ''b'' False"

definition sample_mgm_a :: module_graph_module where
  "sample_mgm_a = (mgm_new ''a'')\<lparr>mgm_outgoing_connections := {0}, mgm_all_dependencies := [0, 1]\<rparr>"

definition sample_mgm_b :: module_graph_module where
  "sample_mgm_b = (mgm_new ''b'')\<lparr>mgm_incoming_connections := {0}\<rparr>"

definition sample_module :: "string \<Rightarrow> graph_module" where
  "sample_module m = \<lparr>gmo_identifier = m, gmo_blocks = [], gmo_has_top_level_await = False\<rparr>"

definition sample_parents :: dependency_parents where
  "sample_parents = \<lparr>dp_block = None, dp_module = ''a'', dp_index_in_block = 0\<rparr>"

definition sample_dependency :: "u32 \<Rightarrow> nat dependency" where
  "sample_dependency d = \<lparr>dep_id = d, dep_module_dependency = Some (False, None), dep_context_dependency = False\<rparr>"

definition sample_module_graph :: "nat module_graph_data" where
  "sample_module_graph = mg_default\<lparr>
     mg_modules := snd (rb_insert ''b'' (sample_module ''b'') (snd (rb_insert ''a'' (sample_module ''a'') rb_default))),
     mg_dependencies := snd (dd_insert 1 (sample_dependency 1) (snd (dd_insert 0 (sample_dependency 0) []))),
     mg_dependency_id_to_parents := snd (dd_insert 1 sample_parents (snd (dd_insert 0 sample_parents []))),
     mg_module_graph_modules := om_new [''a'' \<mapsto> sample_mgm_a, ''b'' \<mapsto> sample_mgm_b, ''c'' \<mapsto> mgm_new ''c''],
     mg_dependency_id_to_connection_id := dm_insert 0 0 dm_default,
     mg_connections := dm_insert 0 sample_connection dm_default\<rparr>"

lemma dm_get_default: "dm_get dm_default = Map.empty"
  by (rule ext) (simp add: dm_get_def dm_default_def)

lemma sample_views:
  "connection_by_id sample_module_graph = [0 \<mapsto> sample_connection]"
  "mgm_by_identifier sample_module_graph = [''a'' \<mapsto> sample_mgm_a, ''b'' \<mapsto> sample_mgm_b, ''c'' \<mapsto> mgm_new ''c'']"
  "primary_connection sample_module_graph = [0 \<mapsto> 0]"
  "get_parent_module sample_module_graph = [0 \<mapsto> ''a'', 1 \<mapsto> ''a'']"
  "dependency_by_id sample_module_graph = [0 \<mapsto> sample_dependency 0, 1 \<mapsto> sample_dependency 1]"
  by (rule ext; simp add: sample_module_graph_def connection_by_id_def mgm_by_identifier_def primary_connection_def
      get_parent_module_def dependency_by_id_def dm_get_default sample_parents_def)+

lemma sample_connection_fields [simp]:
  "con_id sample_connection = 0" "con_dependency_id sample_connection = 0"
  "con_original_module_identifier sample_connection = Some ''a''" "con_module_identifier sample_connection = ''b''"
  by (simp_all add: sample_connection_def connection_new_def)

lemma sample_mgm_fields [simp]:
  "mgm_outgoing_connections sample_mgm_a = {0}" "mgm_incoming_connections sample_mgm_a = {}" "mgm_all_dependencies sample_mgm_a = [0, 1]"
  "mgm_outgoing_connections sample_mgm_b = {}" "mgm_incoming_connections sample_mgm_b = {0}" "mgm_all_dependencies sample_mgm_b = []"
  "mgm_outgoing_connections (mgm_new m) = {}" "mgm_incoming_connections (mgm_new m) = {}"
  by (simp_all add: sample_mgm_a_def sample_mgm_b_def mgm_new_def)

lemma sample_wf: "mg_wf sample_module_graph" "origin_ok sample_module_graph"
proof -
  have "links [0 \<mapsto> sample_connection] [''a'' \<mapsto> sample_mgm_a, ''b'' \<mapsto> sample_mgm_b, ''c'' \<mapsto> mgm_new ''c'']"
    by (auto simp: links_on_def ins_def outs_def pointing_to_def coming_from_def split: if_splits)
  then show "mg_wf sample_module_graph" by (simp add: mg_wf_def sample_views primary_ok_def)
  show "origin_ok sample_module_graph" by (simp add: origin_ok_def sample_views)
qed

section \<open>Resolving a dependency\<close>

text \<open>
  C20. \<open>set_resolved_module\<close> of an unresolved module or context dependency links it: the new connection has an id no
  connection had, it becomes the primary connection of the dependency, both modules list it, the graph stays well-formed,
  and a second resolution of the dependency changes nothing.
\<close>

theorem set_resolved_module_correct:
  assumes wf: "mg_wf g" and free: "connection_by_dependency_id g d = None"
    and dep: "dependency_by_id g d = Some dependency" "dep_module_dependency dependency \<noteq> None \<or> dep_context_dependency dependency"
    and known: "mgm_by_identifier g m \<noteq> None" "\<forall>k. origin = Some k \<longrightarrow> mgm_by_identifier g k \<noteq> None"
    and bound: "next_index (mg_connections g) < 2 ^ 32"
  shows "\<exists>g' i. set_resolved_module origin d m g = Some g' \<and> mg_wf g' \<and> connection_by_id g i = None \<and>
    connection_by_id g' = (connection_by_id g)(i \<mapsto> connection_new i d origin m (Option.bind (dep_module_dependency dependency) snd \<noteq> None)) \<and>
    primary_connection g' = (primary_connection g)(d \<mapsto> i) \<and> dom (mgm_by_identifier g') = dom (mgm_by_identifier g) \<and>
    i \<in> ins (mgm_by_identifier g') m \<and> (\<forall>k. origin = Some k \<longrightarrow> i \<in> outs (mgm_by_identifier g') k) \<and>
    (\<forall>origin2 m2. set_resolved_module origin2 d m2 g' = Some g')"
proof -
  define i :: connection_id where "i = of_nat (next_index (mg_connections g))"
  have i: "next_connection_id g = Some i" using bound by (simp add: next_connection_id_def i_def Let_def)
  note fresh = next_connection_fresh [OF i]
  define condition where "condition = Option.bind (dep_module_dependency dependency) snd"
  define c where "c = connection_new i d origin m (condition \<noteq> None)"
  have c: "con_id c = i" "con_module_identifier c = m" "con_original_module_identifier c = origin" "con_dependency_id c = d"
    by (simp_all add: c_def connection_new_def)
  define g1 where "g1 = (case condition of
      Some condition \<Rightarrow> g\<lparr>mg_connection_to_condition := snd (dd_insert d condition (mg_connection_to_condition g))\<rparr>
    | None \<Rightarrow> g)"
  define g2 where "g2 = g1\<lparr>mg_dependency_id_to_connection_id := dm_insert d i (mg_dependency_id_to_connection_id g1)\<rparr>"
  have v2: "connection_by_id g2 = connection_by_id g" "mgm_by_identifier g2 = mgm_by_identifier g"
    "primary_connection g2 = (primary_connection g)(d \<mapsto> i)"
    by (rule ext; simp add: g2_def g1_def connection_by_id_def mgm_by_identifier_def primary_connection_def split: option.split)+
  have eq: "set_resolved_module origin d m g = insert_connection c g2"
    using free dep i unfolding set_resolved_module_def
    by (simp only: Let_def condition_def [symmetric] g1_def [symmetric] g2_def [symmetric] c_def [symmetric] bind.bind_lunit
        simp_thms if_True if_False)
  have pre: "links (connection_by_id g2) (mgm_by_identifier g2)" "connection_by_id g2 (con_id c) = None"
    "mgm_by_identifier g2 (con_module_identifier c) \<noteq> None"
    "\<forall>k. con_original_module_identifier c = Some k \<longrightarrow> mgm_by_identifier g2 k \<noteq> None"
    unfolding v2 c using wf known fresh by (simp_all add: mg_wf_def)
  obtain g' where g': "insert_connection c g2 = Some g'" "links (connection_by_id g') (mgm_by_identifier g')"
    "connection_by_id g' = (connection_by_id g)(i \<mapsto> c)" "dom (mgm_by_identifier g') = dom (mgm_by_identifier g)"
    "primary_connection g' = (primary_connection g)(d \<mapsto> i)"
    using insert_connection_spec [OF pre] unfolding v2 c(1) by blast
  have "primary_ok (connection_by_id g') (primary_connection g')"
    unfolding g'(3,5) using wf fresh c(4) by (intro primary_ok_insert) (simp_all add: mg_wf_def)
  moreover have "i \<in> ins (mgm_by_identifier g') m" "\<forall>k. origin = Some k \<longrightarrow> i \<in> outs (mgm_by_identifier g') k"
    using links_onD(1,2) [OF g'(2)] g'(3) c by (simp_all add: pointing_to_iff coming_from_iff)
  moreover have "set_resolved_module origin2 d m2 g' = Some g'" for origin2 m2
    using g'(3,5) by (simp add: set_resolved_module_def connection_by_dependency_id_def)
  ultimately show ?thesis using g' fresh unfolding eq mg_wf_def c_def condition_def by blast
qed

theorem set_resolved_module_witness:
  "\<exists>g' i. set_resolved_module (Some ''a'') 1 ''c'' sample_module_graph = Some g' \<and> mg_wf g' \<and>
    i \<in> ins (mgm_by_identifier g') ''c'' \<and> primary_connection g' 1 = Some i"
proof -
  have 1: "connection_by_dependency_id sample_module_graph 1 = None"
    by (simp add: connection_by_dependency_id_def sample_views)
  have 2: "dependency_by_id sample_module_graph 1 = Some (sample_dependency 1)" by (simp add: sample_views)
  have 3: "dep_module_dependency (sample_dependency 1) \<noteq> None \<or> dep_context_dependency (sample_dependency 1)"
    by (simp add: sample_dependency_def)
  have 4: "mgm_by_identifier sample_module_graph ''c'' \<noteq> None" "\<forall>k. Some ''a'' = Some k \<longrightarrow> mgm_by_identifier sample_module_graph k \<noteq> None"
    by (simp_all add: sample_views)
  have 5: "next_index (mg_connections sample_module_graph) < 2 ^ 32"
    by (simp add: sample_module_graph_def dm_default_def dm_insert_def next_index_def ensure_len_def)
  show ?thesis using set_resolved_module_correct [OF sample_wf(1) 1 2 3 4 5] by (elim exE conjE) simp
qed

section \<open>Redirecting a connection\<close>

lemma links_redirect:
  assumes "links C M" "C i = Some c" "M m \<noteq> None"
  shows "links (C(i \<mapsto> set_module_identifier m c))
    (upd (Some m) (add_incoming_connection i) (upd (Some (con_module_identifier c)) (remove_incoming_connection i) M))"
proof -
  let ?M1 = "upd (Some (con_module_identifier c)) (remove_incoming_connection i) M"
  let ?M2 = "upd (Some m) (add_incoming_connection i) ?M1"
  have o: "outs ?M2 k = outs M k" for k by (simp add: outs_keep)
  have "ins ?M1 k = (if k = con_module_identifier c then ins M k - {i} else ins M k)" for k
    using ins_shrink [of "remove_incoming_connection i" "{i}" "Some (con_module_identifier c)" M k] by auto
  moreover have "ins ?M2 k = (if k = m then insert i (ins ?M1 k) else ins ?M1 k)" for k
    using assms(3) by (auto simp: ins_upd [of "Some m"] ins_known)
  ultimately have "ins ?M2 k = pointing_to (C(i \<mapsto> set_module_identifier m c)) k" for k
    using links_onD(1) [OF assms(1), of k] pointing_to_iff [of C i c, OF assms(2)]
    by (auto simp: pointing_to_update set_module_identifier_def)
  moreover have "outs ?M2 k = coming_from (C(i \<mapsto> set_module_identifier m c)) k" for k
    unfolding o using links_onD(2) [OF assms(1), of k] coming_from_iff [of C i c, OF assms(2)]
    by (auto simp: coming_from_update set_module_identifier_def)
  ultimately show ?thesis using links_onD(3) [OF assms(1)] assms(2) by (auto simp: links_on_def set_module_identifier_def)
qed

text \<open>
  C21. \<open>do_update_module\<close> points the primary connection of a dependency to another module and moves it between the incoming
  lists of the two modules: every other connection and the primary connections stay, the graph stays well-formed, and
  \<open>can_update_module\<close> is false afterwards.
\<close>

theorem do_update_module_correct:
  assumes wf: "mg_wf g" and con: "connection_by_dependency_id g d = Some c" and known: "mgm_by_identifier g m \<noteq> None"
  shows "\<exists>g'. do_update_module d m g = Some g' \<and> mg_wf g' \<and>
    connection_by_id g' = (connection_by_id g)(con_id c \<mapsto> set_module_identifier m c) \<and>
    primary_connection g' = primary_connection g \<and> can_update_module d m g' = Some False"
proof -
  obtain i where i: "primary_connection g d = Some i" "connection_by_id g i = Some c"
    using con by (auto simp: connection_by_dependency_id_def bind_eq_Some)
  have id: "con_id c = i" using links_onD(3) [of UNIV] wf i(2) unfolding mg_wf_def by blast
  have old: "mgm_by_identifier g (con_module_identifier c) \<noteq> None"
  proof -
    have "i \<in> ins (mgm_by_identifier g) (con_module_identifier c)"
      using links_onD(1) [of UNIV "connection_by_id g"] wf i(2) unfolding mg_wf_def by (auto simp: pointing_to_def)
    then show ?thesis by (auto simp: ins_def split: option.splits)
  qed
  define g1 where "g1 = g\<lparr>mg_connections := snd (dm_get_mut i (set_module_identifier m) (mg_connections g))\<rparr>"
  have v1: "connection_by_id g1 = (connection_by_id g)(i \<mapsto> set_module_identifier m c)" "mgm_by_identifier g1 = mgm_by_identifier g"
    "primary_connection g1 = primary_connection g"
  proof -
    have "dm_get (mg_connections g) i = Some c" using i(2) by (simp add: connection_by_id_def)
    then show "connection_by_id g1 = (connection_by_id g)(i \<mapsto> set_module_identifier m c)"
      by (intro ext) (simp add: g1_def connection_by_id_def dm_get_mut_spec)
  qed (rule ext; simp add: g1_def mgm_by_identifier_def primary_connection_def)+
  define g2 where "g2 = try_modify_mgm (con_module_identifier c) (remove_incoming_connection i) g1"
  define g3 where "g3 = try_modify_mgm m (add_incoming_connection i) g2"
  have "mgm_by_identifier g2 m \<noteq> None" "mgm_by_identifier g1 (con_module_identifier c) \<noteq> None"
    using known old by (simp_all add: g2_def v1)
  then have "do_update_module d m g = Some g3"
    using i id old by (simp add: do_update_module_def Let_def modify_connection_eq modify_mgm_eq g1_def [symmetric] g2_def [symmetric] g3_def)
  moreover have m3: "mgm_by_identifier g3 = upd (Some m) (add_incoming_connection i)
      (upd (Some (con_module_identifier c)) (remove_incoming_connection i) (mgm_by_identifier g))"
    by (simp add: g3_def g2_def v1)
  moreover have c3: "connection_by_id g3 = (connection_by_id g)(i \<mapsto> set_module_identifier m c)" "primary_connection g3 = primary_connection g"
    by (simp_all add: g3_def g2_def v1)
  moreover have "mg_wf g3"
  proof -
    have "links (connection_by_id g3) (mgm_by_identifier g3)"
      unfolding m3 c3 using links_redirect [of "connection_by_id g" "mgm_by_identifier g" i c m] i(2) known wf unfolding mg_wf_def by blast
    moreover have "primary_ok (connection_by_id g3) (primary_connection g3)"
      unfolding c3 using wf i(2) by (intro primary_ok_update [where C = "connection_by_id g" and i = i and c = c]) (simp_all add: mg_wf_def set_module_identifier_def)
    ultimately show ?thesis by (simp add: mg_wf_def)
  qed
  moreover have "can_update_module d m g3 = Some False"
    using i(1) by (simp add: can_update_module_def connection_by_dependency_id_def c3 set_module_identifier_def)
  ultimately show ?thesis using id by blast
qed

theorem do_update_module_witness:
  "\<exists>g'. do_update_module 0 ''c'' sample_module_graph = Some g' \<and> mg_wf g' \<and> can_update_module 0 ''c'' g' = Some False"
proof -
  have "connection_by_dependency_id sample_module_graph 0 = Some sample_connection" "mgm_by_identifier sample_module_graph ''c'' \<noteq> None"
    by (simp_all add: connection_by_dependency_id_def sample_views)
  from do_update_module_correct [OF sample_wf(1) this] show ?thesis by blast
qed

section \<open>Moving connections to another module\<close>

lemma set_connections_views [simp]:
  "mgm_by_identifier (g\<lparr>mg_connections := X\<rparr>) = mgm_by_identifier g"
  "primary_connection (g\<lparr>mg_connections := X\<rparr>) = primary_connection g"
  "dependency_by_id (g\<lparr>mg_connections := X\<rparr>) = dependency_by_id g"
  "module_by_identifier (g\<lparr>mg_connections := X\<rparr>) = module_by_identifier g"
  "get_parent_module (g\<lparr>mg_connections := X\<rparr>) = get_parent_module g"
  by (rule ext; simp add: mgm_by_identifier_def primary_connection_def dependency_by_id_def module_by_identifier_def get_parent_module_def)+

text \<open>Whether the filter accepts the connection \<open>i\<close>.\<close>

definition hit :: "(module_graph_connection \<Rightarrow> 'c dependency \<Rightarrow> bool) \<Rightarrow> (dependency_id \<rightharpoonup> 'c dependency) \<Rightarrow> module_graph_connection \<Rightarrow> bool" where
  "hit flt D c = (case D (con_dependency_id c) of Some dependency \<Rightarrow> flt c dependency | None \<Rightarrow> False)"

definition hits :: "(module_graph_connection \<Rightarrow> 'c dependency \<Rightarrow> bool) \<Rightarrow> 'c module_graph_data \<Rightarrow> connection_id \<Rightarrow> bool" where
  "hits flt g i = (case connection_by_id g i of Some c \<Rightarrow> hit flt (dependency_by_id g) c | None \<Rightarrow> False)"

lemma move_step_eq:
  assumes "connection_by_id g i = Some c" "dependency_by_id g (con_dependency_id c) = Some dep"
  shows "move_step change flt i (g, acc) = (if flt c dep
    then Some (g\<lparr>mg_connections := snd (dm_get_mut i change (mg_connections g))\<rparr>, acc @ [i]) else Some (g, acc))"
  using assms by (simp add: move_step_def modify_connection_eq)

lemma move_loop_acc:
  assumes "distinct ids"
    and "\<forall>i \<in> set ids. \<exists>c. connection_by_id g i = Some c \<and> dependency_by_id g (con_dependency_id c) \<noteq> None"
  shows "\<exists>g' X. for_each (move_step change flt) ids (g, acc) = Some (g', acc @ filter (hits flt g) ids) \<and> g' = g\<lparr>mg_connections := X\<rparr> \<and>
    connection_by_id g' = (\<lambda>i. if i \<in> set ids \<and> hits flt g i then map_option change (connection_by_id g i) else connection_by_id g i)"
  using assms
proof (induction ids arbitrary: g acc)
  case Nil
  then show ?case by (intro exI [of _ g] exI [of _ "mg_connections g"]) simp
next
  case (Cons i ids)
  obtain c dep where c: "connection_by_id g i = Some c" "dependency_by_id g (con_dependency_id c) = Some dep"
    using Cons.prems(2) by auto
  have h: "hits flt g i = flt c dep" by (simp add: hits_def hit_def c)
  define g1 where "g1 = (if flt c dep then g\<lparr>mg_connections := snd (dm_get_mut i change (mg_connections g))\<rparr> else g)"
  define acc1 where "acc1 = (if flt c dep then acc @ [i] else acc)"
  have step: "move_step change flt i (g, acc) = Some (g1, acc1)"
    using move_step_eq [OF c] by (simp add: g1_def acc1_def)
  have c1: "connection_by_id g1 = (if flt c dep then (connection_by_id g)(i \<mapsto> change c) else connection_by_id g)"
    using c(1) by (intro ext) (simp add: g1_def connection_by_id_def dm_get_mut_spec)
  have d1: "dependency_by_id g1 = dependency_by_id g" by (simp add: g1_def)
  have same: "connection_by_id g1 j = connection_by_id g j" "hits flt g1 j = hits flt g j" if "j \<in> set ids" for j
    using that Cons.prems(1) unfolding hits_def d1 c1 by auto
  have known: "\<forall>j \<in> set ids. \<exists>c. connection_by_id g1 j = Some c \<and> dependency_by_id g1 (con_dependency_id c) \<noteq> None"
    using Cons.prems(2) same d1 by simp
  have "distinct ids" using Cons.prems(1) by simp
  from Cons.IH [OF this known, of acc1]
  obtain g' X where IH: "for_each (move_step change flt) ids (g1, acc1) = Some (g', acc1 @ filter (hits flt g1) ids)"
    "g' = g1\<lparr>mg_connections := X\<rparr>"
    "connection_by_id g' = (\<lambda>j. if j \<in> set ids \<and> hits flt g1 j then map_option change (connection_by_id g1 j) else connection_by_id g1 j)"
    by blast
  have f: "filter (hits flt g1) ids = filter (hits flt g) ids" using same(2) by (intro filter_cong) auto
  have "g' = g\<lparr>mg_connections := X\<rparr>" using IH(2) by (simp add: g1_def)
  moreover have "connection_by_id g' = (\<lambda>j. if j \<in> set (i # ids) \<and> hits flt g j then map_option change (connection_by_id g j) else connection_by_id g j)"
    unfolding IH(3) using same h c Cons.prems(1) by (intro ext) (auto simp: c1)
  moreover have "for_each (move_step change flt) (i # ids) (g, acc) = Some (g', acc @ filter (hits flt g) (i # ids))"
    using step IH(1) f h by (simp add: acc1_def)
  ultimately show ?case by blast
qed

lemma fold_sets:
  "mgm_outgoing_connections (fold remove_outgoing_connection is x) = mgm_outgoing_connections x - set is"
  "mgm_incoming_connections (fold remove_outgoing_connection is x) = mgm_incoming_connections x"
  "mgm_outgoing_connections (fold add_outgoing_connection is x) = mgm_outgoing_connections x \<union> set is"
  "mgm_incoming_connections (fold add_outgoing_connection is x) = mgm_incoming_connections x"
  "mgm_incoming_connections (fold remove_incoming_connection is x) = mgm_incoming_connections x - set is"
  "mgm_outgoing_connections (fold remove_incoming_connection is x) = mgm_outgoing_connections x"
  "mgm_incoming_connections (fold add_incoming_connection is x) = mgm_incoming_connections x \<union> set is"
  "mgm_outgoing_connections (fold add_incoming_connection is x) = mgm_outgoing_connections x"
  by (induction "is" arbitrary: x) auto

lemma move_half_maps:
  assumes ord: "hash_order ord" and x: "mgm_by_identifier g old_m = Some x" and new_m: "mgm_by_identifier g new_m \<noteq> None"
    and known: "\<forall>i \<in> sel x. \<exists>c. connection_by_id g i = Some c \<and> dependency_by_id g (con_dependency_id c) \<noteq> None"
  shows "\<exists>g' affected. move_half ord sel rem add change old_m new_m flt g = Some g' \<and>
    set affected = {i \<in> sel x. hits flt g i} \<and>
    mgm_by_identifier g' = upd (Some new_m) (fold add affected) (upd (Some old_m) (fold rem affected) (mgm_by_identifier g)) \<and>
    connection_by_id g' = (\<lambda>i. if i \<in> set affected then map_option change (connection_by_id g i) else connection_by_id g i) \<and>
    primary_connection g' = primary_connection g \<and> dependency_by_id g' = dependency_by_id g"
proof -
  have s: "distinct (ord (sel x))" "set (ord (sel x)) = sel x" using hash_orderD [OF ord, of "sel x"] by simp_all
  have "\<forall>i \<in> set (ord (sel x)). \<exists>c. connection_by_id g i = Some c \<and> dependency_by_id g (con_dependency_id c) \<noteq> None"
    using known unfolding s(2) .
  from move_loop_acc [OF s(1) this, where flt = flt and change = change and acc = "[]"]
  obtain g1 X where g1: "move_loop change flt (ord (sel x)) g = Some (g1, filter (hits flt g) (ord (sel x)))"
    "g1 = g\<lparr>mg_connections := X\<rparr>"
    "connection_by_id g1 = (\<lambda>i. if i \<in> sel x \<and> hits flt g i then map_option change (connection_by_id g i) else connection_by_id g i)"
    unfolding move_loop_def s(2) append_Nil by blast
  let ?A = "filter (hits flt g) (ord (sel x))"
  let ?g' = "try_modify_mgm new_m (fold add ?A) (try_modify_mgm old_m (fold rem ?A) g1)"
  have "mgm_by_identifier g1 = mgm_by_identifier g" by (simp add: g1(2))
  then have "move_half ord sel rem add change old_m new_m flt g = Some ?g'"
    using x new_m g1(1) by (simp add: move_half_def modify_mgm_eq)
  moreover have "set ?A = {i \<in> sel x. hits flt g i}" using s(2) by auto
  moreover have "primary_connection g1 = primary_connection g" "dependency_by_id g1 = dependency_by_id g" by (simp_all add: g1(2))
  ultimately show ?thesis
    using g1(3) s(2) \<open>mgm_by_identifier g1 = mgm_by_identifier g\<close> by (intro exI [of _ ?g'] exI [of _ ?A]) auto
qed

lemma ins_grow: "(\<And>x. mgm_incoming_connections (f x) = mgm_incoming_connections x \<union> A) \<Longrightarrow> M m \<noteq> None \<Longrightarrow>
    ins (upd (Some m) f M) k = (if k = m then ins M k \<union> A else ins M k)"
  by (cases "M k") (auto simp: upd_def ins_def)

lemma outs_grow: "(\<And>x. mgm_outgoing_connections (f x) = mgm_outgoing_connections x \<union> A) \<Longrightarrow> M m \<noteq> None \<Longrightarrow>
    outs (upd (Some m) f M) k = (if k = m then outs M k \<union> A else outs M k)"
  by (cases "M k") (auto simp: upd_def outs_def)

lemma links_move_out:
  assumes "links C M" "A \<subseteq> outs M old_m" "M new_m \<noteq> None" "old_m \<noteq> new_m" "set as = A"
  shows "links (\<lambda>i. if i \<in> set as then map_option (\<lambda>c. c\<lparr>con_original_module_identifier := Some new_m\<rparr>) (C i) else C i)
    (upd (Some new_m) (fold add_outgoing_connection as) (upd (Some old_m) (fold remove_outgoing_connection as) M))"
proof -
  let ?C = "\<lambda>i. if i \<in> set as then map_option (\<lambda>c. c\<lparr>con_original_module_identifier := Some new_m\<rparr>) (C i) else C i"
  let ?M1 = "upd (Some old_m) (fold remove_outgoing_connection as) M"
  let ?M2 = "upd (Some new_m) (fold add_outgoing_connection as) ?M1"
  have "outs ?M2 k = (if k = new_m then outs ?M1 k \<union> A else outs ?M1 k)" for k
    using outs_grow [of "fold add_outgoing_connection as" A ?M1 new_m k] assms(3,5) by (simp add: fold_sets)
  moreover have "outs ?M1 k = (if k = old_m then outs M k - A else outs M k)" for k
    using outs_shrink [of "fold remove_outgoing_connection as" A "Some old_m" M k] assms(5) by (auto simp: fold_sets)
  moreover have "ins ?M2 k = ins M k" for k by (simp add: ins_keep fold_sets)
  moreover have "pointing_to ?C k = pointing_to C k" for k by (auto simp: pointing_to_def split: if_splits)
  moreover have "coming_from ?C k = (if k = new_m then coming_from C k \<union> A else if k = old_m then coming_from C k - A else coming_from C k)" for k
    using assms(2,4) links_onD(2) [OF assms(1), of old_m] assms(5)
    by (auto simp: coming_from_def split: if_splits)
  ultimately show ?thesis using links_onD [OF assms(1)] assms(4) by (auto simp: links_on_def split: if_splits)
qed

lemma links_move_in:
  assumes "links C M" "A \<subseteq> ins M old_m" "M new_m \<noteq> None" "old_m \<noteq> new_m" "set as = A"
  shows "links (\<lambda>i. if i \<in> set as then map_option (set_module_identifier new_m) (C i) else C i)
    (upd (Some new_m) (fold add_incoming_connection as) (upd (Some old_m) (fold remove_incoming_connection as) M))"
proof -
  let ?C = "\<lambda>i. if i \<in> set as then map_option (set_module_identifier new_m) (C i) else C i"
  let ?M1 = "upd (Some old_m) (fold remove_incoming_connection as) M"
  let ?M2 = "upd (Some new_m) (fold add_incoming_connection as) ?M1"
  have "ins ?M2 k = (if k = new_m then ins ?M1 k \<union> A else ins ?M1 k)" for k
    using ins_grow [of "fold add_incoming_connection as" A ?M1 new_m k] assms(3,5) by (simp add: fold_sets)
  moreover have "ins ?M1 k = (if k = old_m then ins M k - A else ins M k)" for k
    using ins_shrink [of "fold remove_incoming_connection as" A "Some old_m" M k] assms(5) by (auto simp: fold_sets)
  moreover have "outs ?M2 k = outs M k" for k by (simp add: outs_keep fold_sets)
  moreover have "coming_from ?C k = coming_from C k" for k by (auto simp: coming_from_def set_module_identifier_def split: if_splits)
  moreover have "pointing_to ?C k = (if k = new_m then pointing_to C k \<union> A else if k = old_m then pointing_to C k - A else pointing_to C k)" for k
    using assms(2,4) links_onD(1) [OF assms(1), of old_m] assms(5)
    by (auto simp: pointing_to_def set_module_identifier_def split: if_splits)
  ultimately show ?thesis using links_onD [OF assms(1)] assms(4)
    by (auto simp: links_on_def set_module_identifier_def split: if_splits)
qed


text \<open>What a move does to one connection.\<close>

definition moved :: "(module_graph_connection \<Rightarrow> 'c dependency \<Rightarrow> bool) \<Rightarrow> (dependency_id \<rightharpoonup> 'c dependency) \<Rightarrow> module_identifier \<Rightarrow>
    module_identifier \<Rightarrow> module_graph_connection \<Rightarrow> module_graph_connection" where
  "moved flt D old_m new_m c =
    (let c = if con_original_module_identifier c = Some old_m \<and> hit flt D c
       then c\<lparr>con_original_module_identifier := Some new_m\<rparr> else c
     in if con_module_identifier c = old_m \<and> hit flt D c then set_module_identifier new_m c else c)"

lemma hits_some: "connection_by_id g i = Some c \<Longrightarrow> hits flt g i = hit flt (dependency_by_id g) c"
  by (simp add: hits_def)

lemma move_out:
  assumes ord: "hash_order ord" and wf: "mg_wf g" and x: "mgm_by_identifier g old_m \<noteq> None" "mgm_by_identifier g new_m \<noteq> None"
    and known: "\<forall>i c. connection_by_id g i = Some c \<longrightarrow> dependency_by_id g (con_dependency_id c) \<noteq> None" and ne: "old_m \<noteq> new_m"
  shows "\<exists>g'. move_half ord mgm_outgoing_connections remove_outgoing_connection add_outgoing_connection
      (\<lambda>con. con\<lparr>con_original_module_identifier := Some new_m\<rparr>) old_m new_m flt g = Some g' \<and> mg_wf g' \<and>
    connection_by_id g' = (\<lambda>i. map_option (\<lambda>c. if con_original_module_identifier c = Some old_m \<and> hit flt (dependency_by_id g) c
       then c\<lparr>con_original_module_identifier := Some new_m\<rparr> else c) (connection_by_id g i)) \<and>
    dom (mgm_by_identifier g') = dom (mgm_by_identifier g) \<and>
    primary_connection g' = primary_connection g \<and> dependency_by_id g' = dependency_by_id g"
proof -
  obtain y where y: "mgm_by_identifier g old_m = Some y" using x(1) by blast
  have l: "links (connection_by_id g) (mgm_by_identifier g)" "primary_ok (connection_by_id g) (primary_connection g)"
    using wf by (simp_all add: mg_wf_def)
  have sel: "mgm_outgoing_connections y = coming_from (connection_by_id g) old_m" using links_onD(2) [OF l(1), of old_m] y by (simp add: outs_def)
  have "\<forall>i \<in> mgm_outgoing_connections y. \<exists>c. connection_by_id g i = Some c \<and> dependency_by_id g (con_dependency_id c) \<noteq> None"
    unfolding sel coming_from_def using known by blast
  from move_half_maps [where sel = mgm_outgoing_connections, OF ord y x(2) this, where flt = flt and rem = remove_outgoing_connection and add = add_outgoing_connection
      and change = "\<lambda>con. con\<lparr>con_original_module_identifier := Some new_m\<rparr>"]
  obtain g' as where g': "move_half ord mgm_outgoing_connections remove_outgoing_connection add_outgoing_connection
      (\<lambda>con. con\<lparr>con_original_module_identifier := Some new_m\<rparr>) old_m new_m flt g = Some g'"
    "set as = {i \<in> mgm_outgoing_connections y. hits flt g i}"
    "mgm_by_identifier g' = upd (Some new_m) (fold add_outgoing_connection as) (upd (Some old_m) (fold remove_outgoing_connection as) (mgm_by_identifier g))"
    "connection_by_id g' = (\<lambda>i. if i \<in> set as then map_option (\<lambda>con. con\<lparr>con_original_module_identifier := Some new_m\<rparr>) (connection_by_id g i)
      else connection_by_id g i)"
    "primary_connection g' = primary_connection g" "dependency_by_id g' = dependency_by_id g" by blast
  have sub: "set as \<subseteq> outs (mgm_by_identifier g) old_m" using g'(2) y by (auto simp: outs_def)
  have c: "connection_by_id g' = (\<lambda>i. map_option (\<lambda>c. if con_original_module_identifier c = Some old_m \<and> hit flt (dependency_by_id g) c
       then c\<lparr>con_original_module_identifier := Some new_m\<rparr> else c) (connection_by_id g i))"
  proof (rule ext, goal_cases)
    case (1 i)
    show ?case by (cases "connection_by_id g i") (simp_all add: g'(2,4) sel coming_from_iff hits_some)
  qed
  have "links (connection_by_id g') (mgm_by_identifier g')"
    unfolding g'(3,4) by (rule links_move_out [OF l(1) sub x(2) ne refl])
  moreover have "primary_ok (connection_by_id g') (primary_connection g')"
    using l(2) unfolding primary_ok_def c g'(5) by fastforce
  ultimately show ?thesis using g'(1,3,5,6) c by (intro exI [of _ g']) (simp add: mg_wf_def)
qed

lemma move_in:
  assumes ord: "hash_order ord" and wf: "mg_wf g" and x: "mgm_by_identifier g old_m \<noteq> None" "mgm_by_identifier g new_m \<noteq> None"
    and known: "\<forall>i c. connection_by_id g i = Some c \<longrightarrow> dependency_by_id g (con_dependency_id c) \<noteq> None" and ne: "old_m \<noteq> new_m"
  shows "\<exists>g'. move_half ord mgm_incoming_connections remove_incoming_connection add_incoming_connection
      (set_module_identifier new_m) old_m new_m flt g = Some g' \<and> mg_wf g' \<and>
    connection_by_id g' = (\<lambda>i. map_option (\<lambda>c. if con_module_identifier c = old_m \<and> hit flt (dependency_by_id g) c
       then set_module_identifier new_m c else c) (connection_by_id g i)) \<and>
    primary_connection g' = primary_connection g \<and> dependency_by_id g' = dependency_by_id g"
proof -
  obtain y where y: "mgm_by_identifier g old_m = Some y" using x(1) by blast
  have l: "links (connection_by_id g) (mgm_by_identifier g)" "primary_ok (connection_by_id g) (primary_connection g)"
    using wf by (simp_all add: mg_wf_def)
  have sel: "mgm_incoming_connections y = pointing_to (connection_by_id g) old_m" using links_onD(1) [OF l(1), of old_m] y by (simp add: ins_def)
  have "\<forall>i \<in> mgm_incoming_connections y. \<exists>c. connection_by_id g i = Some c \<and> dependency_by_id g (con_dependency_id c) \<noteq> None"
    unfolding sel pointing_to_def using known by blast
  from move_half_maps [where sel = mgm_incoming_connections, OF ord y x(2) this, where flt = flt and rem = remove_incoming_connection and add = add_incoming_connection
      and change = "set_module_identifier new_m"]
  obtain g' as where g': "move_half ord mgm_incoming_connections remove_incoming_connection add_incoming_connection
      (set_module_identifier new_m) old_m new_m flt g = Some g'"
    "set as = {i \<in> mgm_incoming_connections y. hits flt g i}"
    "mgm_by_identifier g' = upd (Some new_m) (fold add_incoming_connection as) (upd (Some old_m) (fold remove_incoming_connection as) (mgm_by_identifier g))"
    "connection_by_id g' = (\<lambda>i. if i \<in> set as then map_option (set_module_identifier new_m) (connection_by_id g i)
      else connection_by_id g i)"
    "primary_connection g' = primary_connection g" "dependency_by_id g' = dependency_by_id g" by blast
  have sub: "set as \<subseteq> ins (mgm_by_identifier g) old_m" using g'(2) y by (auto simp: ins_def)
  have c: "connection_by_id g' = (\<lambda>i. map_option (\<lambda>c. if con_module_identifier c = old_m \<and> hit flt (dependency_by_id g) c
       then set_module_identifier new_m c else c) (connection_by_id g i))"
  proof (rule ext, goal_cases)
    case (1 i)
    show ?case by (cases "connection_by_id g i") (simp_all add: g'(2,4) sel pointing_to_iff hits_some)
  qed
  have "links (connection_by_id g') (mgm_by_identifier g')"
    unfolding g'(3,4) by (rule links_move_in [OF l(1) sub x(2) ne refl])
  moreover have "primary_ok (connection_by_id g') (primary_connection g')"
    using l(2) unfolding primary_ok_def c g'(5) by (fastforce simp: set_module_identifier_def)
  ultimately show ?thesis using g'(1,5,6) c by (intro exI [of _ g']) (simp add: mg_wf_def)
qed

text \<open>
  C22. \<open>move_module_connections\<close> of a well-formed graph never panics when both modules and the dependencies of the
  connections are there: it redirects exactly the connections that touch the old module and pass the filter (\<open>moved\<close>),
  keeps every other connection and the primary connections, and the graph stays well-formed.
\<close>

theorem move_module_connections_correct:
  assumes ord: "hash_order ord" and wf: "mg_wf g" and x: "mgm_by_identifier g old_m \<noteq> None" "mgm_by_identifier g new_m \<noteq> None"
    and known: "\<forall>i c. connection_by_id g i = Some c \<longrightarrow> dependency_by_id g (con_dependency_id c) \<noteq> None"
  shows "\<exists>g'. move_module_connections ord old_m new_m flt g = Some g' \<and> mg_wf g' \<and>
    connection_by_id g' = (\<lambda>i. map_option (moved flt (dependency_by_id g) old_m new_m) (connection_by_id g i)) \<and>
    primary_connection g' = primary_connection g"
proof (cases "old_m = new_m")
  case True
  have "moved flt (dependency_by_id g) new_m new_m c = c" for c
    by (simp add: moved_def Let_def set_module_identifier_def)
  then have "moved flt (dependency_by_id g) new_m new_m = (\<lambda>c. c)" by (intro ext)
  then show ?thesis using True wf by (simp add: move_module_connections_def option.map_ident)
next
  case False
  obtain g1 where g1: "move_half ord mgm_outgoing_connections remove_outgoing_connection add_outgoing_connection
      (\<lambda>con. con\<lparr>con_original_module_identifier := Some new_m\<rparr>) old_m new_m flt g = Some g1" "mg_wf g1"
    "connection_by_id g1 = (\<lambda>i. map_option (\<lambda>c. if con_original_module_identifier c = Some old_m \<and> hit flt (dependency_by_id g) c
       then c\<lparr>con_original_module_identifier := Some new_m\<rparr> else c) (connection_by_id g i))"
    "dom (mgm_by_identifier g1) = dom (mgm_by_identifier g)"
    "primary_connection g1 = primary_connection g" "dependency_by_id g1 = dependency_by_id g"
    using move_out [OF ord wf x known False, of flt] by blast
  have x1: "mgm_by_identifier g1 old_m \<noteq> None" "mgm_by_identifier g1 new_m \<noteq> None"
    using x g1(4) by (simp_all only: domIff [symmetric] not_False_eq_True) 
  have known1: "\<forall>i c. connection_by_id g1 i = Some c \<longrightarrow> dependency_by_id g1 (con_dependency_id c) \<noteq> None"
    using known unfolding g1(3,6) by (auto split: if_splits)
  obtain g2 where g2: "move_half ord mgm_incoming_connections remove_incoming_connection add_incoming_connection
      (set_module_identifier new_m) old_m new_m flt g1 = Some g2" "mg_wf g2"
    "connection_by_id g2 = (\<lambda>i. map_option (\<lambda>c. if con_module_identifier c = old_m \<and> hit flt (dependency_by_id g1) c
       then set_module_identifier new_m c else c) (connection_by_id g1 i))"
    "primary_connection g2 = primary_connection g1"
    using move_in [OF ord g1(2) x1 known1 False, of flt] by blast
  have "connection_by_id g2 i = map_option (moved flt (dependency_by_id g) old_m new_m) (connection_by_id g i)" for i
    unfolding g2(3) g1(3,6) by (cases "connection_by_id g i") (simp_all only: option.map moved_def Let_def)
  then show ?thesis using False g1(1,5) g2(1,2,4) by (simp add: move_module_connections_def fun_eq_iff)
qed

theorem move_module_connections_witness:
  "\<exists>g'. move_module_connections sorted_list_of_set ''b'' ''c'' (\<lambda>con dep. True) sample_module_graph = Some g' \<and> mg_wf g' \<and>
    (\<exists>con. connection_by_id g' 0 = Some con \<and> con_module_identifier con = ''c'')"
proof -
  have known: "mgm_by_identifier sample_module_graph ''b'' \<noteq> None" "mgm_by_identifier sample_module_graph ''c'' \<noteq> None"
    "\<forall>i con. connection_by_id sample_module_graph i = Some con \<longrightarrow> dependency_by_id sample_module_graph (con_dependency_id con) \<noteq> None"
    by (simp_all add: sample_views)
  obtain g' where g': "move_module_connections sorted_list_of_set ''b'' ''c'' (\<lambda>con dep. True) sample_module_graph = Some g'" "mg_wf g'"
    "connection_by_id g' = (\<lambda>i. map_option (moved (\<lambda>con dep. True) (dependency_by_id sample_module_graph) ''b'' ''c'') (connection_by_id sample_module_graph i))"
    using move_module_connections_correct [OF hash_order_sorted sample_wf(1) known, of "\<lambda>con dep. True"] by blast
  have "con_module_identifier (moved (\<lambda>con dep. True) (dependency_by_id sample_module_graph) ''b'' ''c'' sample_connection) = ''c''"
    by (simp add: moved_def hit_def sample_views set_module_identifier_def)
  then have "\<exists>con. connection_by_id g' 0 = Some con \<and> con_module_identifier con = ''c''" unfolding g'(3) by (simp add: sample_views)
  then show ?thesis using g'(1,2) by blast
qed

section \<open>Revoking a module\<close>

text \<open>While a module is revoked its graph module is gone; the links of every other module are complete.\<close>

definition revoking :: "module_identifier \<Rightarrow> 'c module_graph_data \<Rightarrow> bool" where
  "revoking m g \<longleftrightarrow> links_on (- {m}) (connection_by_id g) (mgm_by_identifier g) \<and> mgm_by_identifier g m = None \<and>
    module_by_identifier g m = None \<and> primary_ok (connection_by_id g) (primary_connection g) \<and> origin_ok g"

lemma set_fields_views [simp]:
  "mgm_by_identifier (g\<lparr>mg_dependency_id_to_connection_id := X\<rparr>) = mgm_by_identifier g"
  "connection_by_id (g\<lparr>mg_dependency_id_to_connection_id := X\<rparr>) = connection_by_id g"
  "get_parent_module (g\<lparr>mg_dependency_id_to_connection_id := X\<rparr>) = get_parent_module g"
  "module_by_identifier (g\<lparr>mg_dependency_id_to_connection_id := X\<rparr>) = module_by_identifier g"
  "mgm_by_identifier (g\<lparr>mg_blocks := B\<rparr>) = mgm_by_identifier g"
  "connection_by_id (g\<lparr>mg_blocks := B\<rparr>) = connection_by_id g"
  "primary_connection (g\<lparr>mg_blocks := B\<rparr>) = primary_connection g"
  "get_parent_module (g\<lparr>mg_blocks := B\<rparr>) = get_parent_module g"
  "module_by_identifier (g\<lparr>mg_blocks := B\<rparr>) = module_by_identifier g"
  "mgm_by_identifier (g\<lparr>mg_dependencies := E\<rparr>) = mgm_by_identifier g"
  "connection_by_id (g\<lparr>mg_dependencies := E\<rparr>) = connection_by_id g"
  "primary_connection (g\<lparr>mg_dependencies := E\<rparr>) = primary_connection g"
  "get_parent_module (g\<lparr>mg_dependencies := E\<rparr>) = get_parent_module g"
  "module_by_identifier (g\<lparr>mg_dependencies := E\<rparr>) = module_by_identifier g"
  "mgm_by_identifier (g\<lparr>mg_dependency_id_to_parents := Q\<rparr>) = mgm_by_identifier g"
  "connection_by_id (g\<lparr>mg_dependency_id_to_parents := Q\<rparr>) = connection_by_id g"
  "primary_connection (g\<lparr>mg_dependency_id_to_parents := Q\<rparr>) = primary_connection g"
  "module_by_identifier (g\<lparr>mg_dependency_id_to_parents := Q\<rparr>) = module_by_identifier g"
  "mgm_by_identifier (g\<lparr>mg_connection_to_condition := U\<rparr>) = mgm_by_identifier g"
  "connection_by_id (g\<lparr>mg_connection_to_condition := U\<rparr>) = connection_by_id g"
  "primary_connection (g\<lparr>mg_connection_to_condition := U\<rparr>) = primary_connection g"
  "get_parent_module (g\<lparr>mg_connection_to_condition := U\<rparr>) = get_parent_module g"
  "module_by_identifier (g\<lparr>mg_connection_to_condition := U\<rparr>) = module_by_identifier g"
  by (rule ext; simp add: mgm_by_identifier_def connection_by_id_def primary_connection_def get_parent_module_def module_by_identifier_def)+

text \<open>The part of \<open>revoke_dependency\<close> before the graph modules are updated.\<close>

definition unlink :: "dependency_id \<Rightarrow> bool \<Rightarrow> 'c module_graph_data \<Rightarrow> 'c module_graph_data" where
  "unlink d force g =
    (let g' = (case primary_connection g d of
          Some i \<Rightarrow> g\<lparr>mg_connections := dm_remove i (mg_connections g),
            mg_dependency_id_to_connection_id := dm_remove d (mg_dependency_id_to_connection_id g)\<rparr>
        | None \<Rightarrow> g)
     in if force then
          let g' = g'\<lparr>mg_dependencies := snd (dd_remove d (mg_dependencies g')),
            mg_dependency_id_to_parents := snd (dd_remove d (mg_dependency_id_to_parents g')),
            mg_connection_to_condition := snd (dd_remove d (mg_connection_to_condition g'))\<rparr>
          in (case get_parent_block g d of
              None \<Rightarrow> g'
            | Some b \<Rightarrow> g'\<lparr>mg_blocks := (mg_blocks g')(b := map_option (remove_from_block d) (mg_blocks g' b))\<rparr>)
        else g')"

lemma unlink_views:
  "connection_by_id (unlink d force g) = (case primary_connection g d of Some i \<Rightarrow> (connection_by_id g)(i := None) | None \<Rightarrow> connection_by_id g)"
  "primary_connection (unlink d force g) = (primary_connection g)(d := None)"
  "mgm_by_identifier (unlink d force g) = mgm_by_identifier g"
  "module_by_identifier (unlink d force g) = module_by_identifier g"
  "get_parent_module (unlink d force g) = (if force then (get_parent_module g)(d := None) else get_parent_module g)"
proof -
  define g' where "g' = (case primary_connection g d of
          Some i \<Rightarrow> g\<lparr>mg_connections := dm_remove i (mg_connections g),
            mg_dependency_id_to_connection_id := dm_remove d (mg_dependency_id_to_connection_id g)\<rparr>
        | None \<Rightarrow> g)"
  have v: "connection_by_id g' = (case primary_connection g d of Some i \<Rightarrow> (connection_by_id g)(i := None) | None \<Rightarrow> connection_by_id g)"
    "primary_connection g' = (primary_connection g)(d := None)" "mgm_by_identifier g' = mgm_by_identifier g"
    "module_by_identifier g' = module_by_identifier g" "get_parent_module g' = get_parent_module g"
    by (cases "primary_connection g d"; rule ext; simp add: g'_def connection_by_id_def primary_connection_def)+
  define g2 where "g2 = g'\<lparr>mg_dependencies := snd (dd_remove d (mg_dependencies g')),
            mg_dependency_id_to_parents := snd (dd_remove d (mg_dependency_id_to_parents g')),
            mg_connection_to_condition := snd (dd_remove d (mg_connection_to_condition g'))\<rparr>"
  have v2: "connection_by_id g2 = connection_by_id g'" "primary_connection g2 = primary_connection g'"
    "mgm_by_identifier g2 = mgm_by_identifier g'" "module_by_identifier g2 = module_by_identifier g'"
    by (simp_all add: g2_def)
  have p2: "get_parent_module g2 = (get_parent_module g')(d := None)"
    by (rule ext) (simp add: g2_def get_parent_module_def)
  have u: "unlink d force g = (if force then (case get_parent_block g d of
              None \<Rightarrow> g2
            | Some b \<Rightarrow> g2\<lparr>mg_blocks := (mg_blocks g2)(b := map_option (remove_from_block d) (mg_blocks g2 b))\<rparr>) else g')"
    unfolding unlink_def Let_def g'_def [symmetric] g2_def [symmetric] ..
  show "connection_by_id (unlink d force g) = (case primary_connection g d of Some i \<Rightarrow> (connection_by_id g)(i := None) | None \<Rightarrow> connection_by_id g)"
    unfolding u v(1) [symmetric] by (simp add: v2 split: option.split)
  show "primary_connection (unlink d force g) = (primary_connection g)(d := None)"
    unfolding u v(2) [symmetric] by (simp add: v2 split: option.split)
  show "mgm_by_identifier (unlink d force g) = mgm_by_identifier g" "module_by_identifier (unlink d force g) = module_by_identifier g"
    unfolding u v(3,4) [symmetric] by (simp_all add: v2 split: option.split)
  show "get_parent_module (unlink d force g) = (if force then (get_parent_module g)(d := None) else get_parent_module g)"
    unfolding u v(5) [symmetric] by (simp add: p2 split: option.split)
qed

definition forget_out :: "dependency_id \<Rightarrow> bool \<Rightarrow> connection_id option \<Rightarrow> module_graph_module \<Rightarrow> module_graph_module" where
  "forget_out d force i x =
    (let x = (case i of Some i \<Rightarrow> remove_outgoing_connection i x | None \<Rightarrow> x)
     in if force then x\<lparr>mgm_all_dependencies := filter (\<lambda>id. id \<noteq> d) (mgm_all_dependencies x)\<rparr> else x)"

definition forget_in :: "connection_id option \<Rightarrow> module_graph_module \<Rightarrow> module_graph_module" where
  "forget_in i x = (case i of Some i \<Rightarrow> remove_incoming_connection i x | None \<Rightarrow> x)"

lemma forget_fields:
  "mgm_outgoing_connections (forget_out d force i x) = mgm_outgoing_connections x - set_option i"
  "mgm_incoming_connections (forget_out d force i x) = mgm_incoming_connections x"
  "mgm_outgoing_connections (forget_in i x) = mgm_outgoing_connections x"
  "mgm_incoming_connections (forget_in i x) = mgm_incoming_connections x - set_option i"
  by (cases i; simp add: forget_out_def forget_in_def Let_def)+

definition try_modify_opt :: "module_identifier option \<Rightarrow> (module_graph_module \<Rightarrow> module_graph_module) \<Rightarrow> 'c module_graph_data \<Rightarrow> 'c module_graph_data" where
  "try_modify_opt m f g = (case m of None \<Rightarrow> g | Some m \<Rightarrow> try_modify_mgm m f g)"

lemma try_modify_opt_views [simp]:
  "mgm_by_identifier (try_modify_opt m f g) = upd m f (mgm_by_identifier g)"
  "connection_by_id (try_modify_opt m f g) = connection_by_id g"
  "primary_connection (try_modify_opt m f g) = primary_connection g"
  "module_by_identifier (try_modify_opt m f g) = module_by_identifier g"
  "get_parent_module (try_modify_opt m f g) = get_parent_module g"
  by (simp_all add: try_modify_opt_def upd_def split: option.split)

lemma revoke_dependency_eq:
  "revoke_dependency d force g =
    (if force \<and> \<not> (case get_parent_module g d of None \<Rightarrow> True | Some m \<Rightarrow> module_by_identifier g m = None) then None
     else Some ((d, get_parent_module g d),
       try_modify_opt (module_identifier_by_dependency_id g d) (forget_in (primary_connection g d))
         (try_modify_opt (get_parent_module g d) (forget_out d force (primary_connection g d)) (unlink d force g))))"
  unfolding revoke_dependency_def unlink_def forget_out_def [abs_def] forget_in_def [abs_def] try_modify_opt_def Let_def ..

lemma revoke_dependency_spec:
  assumes inv: "revoking m g" and parent: "force \<Longrightarrow> get_parent_module g d \<in> {None, Some m}"
  shows "\<exists>g'. revoke_dependency d force g = Some ((d, get_parent_module g d), g') \<and> revoking m g' \<and>
    connection_by_id g' = (case primary_connection g d of Some i \<Rightarrow> (connection_by_id g)(i := None) | None \<Rightarrow> connection_by_id g) \<and>
    primary_connection g' = (primary_connection g)(d := None) \<and>
    get_parent_module g' = (if force then (get_parent_module g)(d := None) else get_parent_module g) \<and>
    dom (mgm_by_identifier g') = dom (mgm_by_identifier g) \<and> module_by_identifier g' = module_by_identifier g"
proof -
  let ?i = "primary_connection g d" and ?o = "get_parent_module g d" and ?t = "module_identifier_by_dependency_id g d"
  define g' where "g' = try_modify_opt ?t (forget_in ?i) (try_modify_opt ?o (forget_out d force ?i) (unlink d force g))"
  have l: "links_on (- {m}) (connection_by_id g) (mgm_by_identifier g)" "mgm_by_identifier g m = None"
    "module_by_identifier g m = None" "primary_ok (connection_by_id g) (primary_connection g)" "origin_ok g"
    using inv by (simp_all add: revoking_def)
  have "revoke_dependency d force g = Some ((d, ?o), g')"
    using parent l(3) by (auto simp: revoke_dependency_eq g'_def split: option.split)
  moreover have v: "connection_by_id g' = (case ?i of Some i \<Rightarrow> (connection_by_id g)(i := None) | None \<Rightarrow> connection_by_id g)"
    "primary_connection g' = (primary_connection g)(d := None)"
    "get_parent_module g' = (if force then (get_parent_module g)(d := None) else get_parent_module g)"
    "module_by_identifier g' = module_by_identifier g"
    "mgm_by_identifier g' = upd ?t (forget_in ?i) (upd ?o (forget_out d force ?i) (mgm_by_identifier g))"
    by (simp_all add: g'_def unlink_views)
  moreover have "links_on (- {m}) (connection_by_id g') (mgm_by_identifier g')"
  proof (cases ?i)
    case None
    then have "outs (mgm_by_identifier g') k = outs (mgm_by_identifier g) k" "ins (mgm_by_identifier g') k = ins (mgm_by_identifier g) k" for k
      unfolding v(5) by (simp_all add: outs_keep ins_keep forget_fields)
    then show ?thesis using l(1) None unfolding links_on_def v(1) by simp
  next
    case (Some i)
    obtain c where c: "connection_by_id g i = Some c" "con_dependency_id c = d"
      using l(4) Some unfolding primary_ok_def by blast
    have o: "con_original_module_identifier c = ?o" using l(5) Some c(1) unfolding origin_ok_def by blast
    have t: "?t = Some (con_module_identifier c)"
      using Some c by (simp add: module_identifier_by_dependency_id_def connection_by_dependency_id_def)
    show ?thesis unfolding v(1,5) Some t option.case
      by (rule links_remove [OF l(1) c(1)]) (simp_all add: o forget_fields)
  qed
  moreover have "primary_ok (connection_by_id g') (primary_connection g')"
    unfolding primary_ok_def
  proof (intro allI impI)
    fix e j
    assume P: "primary_connection g' e = Some j"
    then have e: "e \<noteq> d" "primary_connection g e = Some j" unfolding v(2) by (simp_all split: if_splits)
    then obtain x where x: "connection_by_id g j = Some x" "con_dependency_id x = e" using l(4) unfolding primary_ok_def by blast
    have "?i \<noteq> Some j" using l(4) x e(1) unfolding primary_ok_def by fastforce
    then show "\<exists>x. connection_by_id g' j = Some x \<and> con_dependency_id x = e" using x by (auto simp: v(1) split: option.split)
  qed
  moreover have "origin_ok g'"
    unfolding origin_ok_def
  proof (intro allI impI)
    fix e j x
    assume "primary_connection g' e = Some j" "connection_by_id g' j = Some x"
    then have "e \<noteq> d" "primary_connection g e = Some j" "connection_by_id g j = Some x"
      unfolding v(1,2) by (simp_all split: if_splits option.splits)
    then show "con_original_module_identifier x = get_parent_module g' e"
      using l(5) unfolding origin_ok_def v(3) by simp
  qed
  ultimately show ?thesis using l(2,3) by (intro exI [of _ g']) (simp add: revoking_def)
qed

lemma revoke_all_spec:
  assumes "revoking m g" "force \<longrightarrow> (\<forall>d \<in> set ds. get_parent_module g d \<in> {None, Some m})"
  shows "\<exists>g' out'. for_each (revoke_step force) ds (out, g) = Some (out @ out', g') \<and> revoking m g' \<and>
    (\<not> force \<longrightarrow> out' = map (\<lambda>d. (d, get_parent_module g d)) ds) \<and>
    connection_by_id g' = (\<lambda>i. if \<exists>d \<in> set ds. primary_connection g d = Some i then None else connection_by_id g i) \<and>
    primary_connection g' = primary_connection g |` (- set ds) \<and>
    get_parent_module g' = (if force then get_parent_module g |` (- set ds) else get_parent_module g) \<and>
    dom (mgm_by_identifier g') = dom (mgm_by_identifier g) \<and> module_by_identifier g' = module_by_identifier g"
  using assms
proof (induction ds arbitrary: g out)
  case Nil
  then show ?case by (intro exI [of _ g] exI [of _ "[]"]) (simp add: restrict_map_def)
next
  case (Cons d ds)
  have "force \<Longrightarrow> get_parent_module g d \<in> {None, Some m}" using Cons.prems(2) by simp
  from revoke_dependency_spec [OF Cons.prems(1) this]
  obtain g1 where g1: "revoke_dependency d force g = Some ((d, get_parent_module g d), g1)" "revoking m g1"
    "connection_by_id g1 = (case primary_connection g d of Some i \<Rightarrow> (connection_by_id g)(i := None) | None \<Rightarrow> connection_by_id g)"
    "primary_connection g1 = (primary_connection g)(d := None)"
    "get_parent_module g1 = (if force then (get_parent_module g)(d := None) else get_parent_module g)"
    "dom (mgm_by_identifier g1) = dom (mgm_by_identifier g)" "module_by_identifier g1 = module_by_identifier g" by blast
  have p1: "force \<longrightarrow> (\<forall>d \<in> set ds. get_parent_module g1 d \<in> {None, Some m})" using Cons.prems(2) unfolding g1(5) by simp
  from Cons.IH [OF g1(2) p1, of "out @ [(d, get_parent_module g d)]"]
  obtain g' out' where g': "for_each (revoke_step force) ds (out @ [(d, get_parent_module g d)], g1) = Some ((out @ [(d, get_parent_module g d)]) @ out', g')"
    "revoking m g'" "\<not> force \<longrightarrow> out' = map (\<lambda>d. (d, get_parent_module g1 d)) ds"
    "connection_by_id g' = (\<lambda>i. if \<exists>d \<in> set ds. primary_connection g1 d = Some i then None else connection_by_id g1 i)"
    "primary_connection g' = primary_connection g1 |` (- set ds)"
    "get_parent_module g' = (if force then get_parent_module g1 |` (- set ds) else get_parent_module g1)"
    "dom (mgm_by_identifier g') = dom (mgm_by_identifier g1)" "module_by_identifier g' = module_by_identifier g1" by blast
  have "for_each (revoke_step force) (d # ds) (out, g) = Some (out @ ((d, get_parent_module g d) # out'), g')"
    using g1(1) g'(1) by (simp add: revoke_step_def)
  moreover have "\<not> force \<longrightarrow> (d, get_parent_module g d) # out' = map (\<lambda>d. (d, get_parent_module g d)) (d # ds)"
    using g'(3) unfolding g1(5) by simp
  moreover have "connection_by_id g' = (\<lambda>i. if \<exists>d \<in> set (d # ds). primary_connection g d = Some i then None else connection_by_id g i)"
  proof
    fix i
    show "connection_by_id g' i = (if \<exists>d \<in> set (d # ds). primary_connection g d = Some i then None else connection_by_id g i)"
      unfolding g'(4) g1(3,4) by (auto split: option.split)
  qed
  moreover have "primary_connection g' = primary_connection g |` (- set (d # ds))"
    unfolding g'(5) g1(4) by (auto simp: restrict_map_def fun_eq_iff)
  moreover have "get_parent_module g' = (if force then get_parent_module g |` (- set (d # ds)) else get_parent_module g)"
    unfolding g'(6) g1(5) by (auto simp: restrict_map_def fun_eq_iff)
  ultimately show ?case using g'(2,7,8) g1(6,7) by (intro exI conjI) (assumption | simp)+
qed


lemma no_graph_module:
  assumes l: "links_on (- {m}) C M" and M: "M m = None"
    and C: "\<And>i c. C i = Some c \<Longrightarrow> con_module_identifier c \<noteq> m \<and> con_original_module_identifier c \<noteq> Some m"
  shows "links C M"
proof -
  have "ins M m = {}" "outs M m = {}" using M by (simp_all add: ins_def outs_def)
  moreover have "pointing_to C m = {}" "coming_from C m = {}" using C by (auto simp: pointing_to_def coming_from_def)
  ultimately have "ins M k = pointing_to C k \<and> outs M k = coming_from C k" for k
    using links_onD(1,2) [OF l, of k] by (cases "k = m") simp_all
  then show ?thesis using links_onD(3) [OF l] by (simp add: links_on_def)
qed

lemma incoming_dependencies:
  assumes ord: "hash_order ord" and l: "links (connection_by_id g) (mgm_by_identifier g)" and x: "mgm_by_identifier g m = Some x"
  shows "set (map con_dependency_id (List.map_filter (connection_by_id g) (ord (mgm_incoming_connections x)))) =
    {con_dependency_id c | c. \<exists>i. connection_by_id g i = Some c \<and> con_module_identifier c = m}"
proof -
  have "mgm_incoming_connections x = pointing_to (connection_by_id g) m"
    using links_onD(1) [OF l, of m] x by (simp add: ins_def)
  moreover have "set (ord (mgm_incoming_connections x)) = mgm_incoming_connections x"
    using hash_orderD [OF ord, of "mgm_incoming_connections x"] by simp
  ultimately have "set (ord (mgm_incoming_connections x)) = pointing_to (connection_by_id g) m" by simp
  moreover have "set (List.map_filter f is) = {c. \<exists>i \<in> set is. f i = Some c}" for f :: con_map and "is"
    by (induction "is") (auto split: option.split)
  ultimately show ?thesis by (auto simp: pointing_to_def)
qed

text \<open>A dependency is revoked exactly when its primary connection is.\<close>

lemma primary_in:
  assumes "primary_ok C P" "\<forall>i c. C i = Some c \<longrightarrow> P (con_dependency_id c) = Some i" "C i = Some c"
  shows "(\<exists>d \<in> D. P d = Some i) \<longleftrightarrow> con_dependency_id c \<in> D"
proof
  assume "\<exists>d \<in> D. P d = Some i"
  then obtain d where "d \<in> D" "P d = Some i" by blast
  then obtain c' where "C i = Some c'" "con_dependency_id c' = d" using assms(1) unfolding primary_ok_def by blast
  then show "con_dependency_id c \<in> D" using assms(3) \<open>d \<in> D\<close> by simp
qed (use assms(2,3) in blast)

text \<open>
  C18. Revoking a module of the make phase (\<open>revoke_module\<close>) never panics: the module and its graph module are gone, exactly
  the connections that touch it are removed, the graph stays well-formed, and the result lists the dependencies of the
  removed incoming connections, each with its parent module, or with no parent when the revoked module owned it.
\<close>

theorem revoke_module_correct:
  assumes ord: "hash_order ord" and wf: "mg_wf g" and origin: "origin_ok g" and x: "mgm_by_identifier g m = Some x"
    and primary: "\<forall>i c. connection_by_id g i = Some c \<longrightarrow> primary_connection g (con_dependency_id c) = Some i"
    and owned: "\<forall>d \<in> set (mgm_all_dependencies x). get_parent_module g d = Some m"
    and listed: "\<forall>i c. connection_by_id g i = Some c \<longrightarrow> con_original_module_identifier c = Some m \<longrightarrow>
      con_dependency_id c \<in> set (mgm_all_dependencies x)"
  shows "\<exists>out g'. revoke_module ord m g = Some (out, g') \<and> mg_wf g' \<and> origin_ok g' \<and>
    module_by_identifier g' = (module_by_identifier g)(m := None) \<and> dom (mgm_by_identifier g') = dom (mgm_by_identifier g) - {m} \<and>
    (\<forall>i. connection_by_id g' i = (case connection_by_id g i of None \<Rightarrow> None
      | Some c \<Rightarrow> if con_module_identifier c = m \<or> con_original_module_identifier c = Some m then None else Some c)) \<and>
    set out = {(con_dependency_id c, if con_original_module_identifier c = Some m then None else con_original_module_identifier c) | c.
      \<exists>i. connection_by_id g i = Some c \<and> con_module_identifier c = m}"
proof -
  define incoming where "incoming = map con_dependency_id (List.map_filter (connection_by_id g) (ord (mgm_incoming_connections x)))"
  define ds where "ds = mgm_all_dependencies x"
  define blocks where "blocks = (case module_by_identifier g m of Some module \<Rightarrow> gmo_blocks module | None \<Rightarrow> [])"
  define g0 where "g0 = (let g = g\<lparr>mg_modules := snd (rb_remove m (mg_modules g)), mg_module_graph_modules := om_remove m (mg_module_graph_modules g)\<rparr>
     in g\<lparr>mg_blocks := remove_blocks blocks (mg_blocks g)\<rparr>)"
  have l: "links (connection_by_id g) (mgm_by_identifier g)" "primary_ok (connection_by_id g) (primary_connection g)"
    using wf by (simp_all add: mg_wf_def)
  have v0: "connection_by_id g0 = connection_by_id g" "primary_connection g0 = primary_connection g" "get_parent_module g0 = get_parent_module g"
    "mgm_by_identifier g0 = (mgm_by_identifier g)(m := None)" "module_by_identifier g0 = (module_by_identifier g)(m := None)"
    by (rule ext; simp add: g0_def Let_def connection_by_id_def primary_connection_def get_parent_module_def mgm_by_identifier_def module_by_identifier_def)+
  have "links_on (- {m}) (connection_by_id g) ((mgm_by_identifier g)(m := None))"
    using l(1) unfolding links_on_def by (simp add: ins_def outs_def)
  then have r0: "revoking m g0"
    using l(2) origin unfolding revoking_def origin_ok_def by (simp add: v0)
  have "True \<longrightarrow> (\<forall>d \<in> set ds. get_parent_module g0 d \<in> {None, Some m})" using owned by (simp add: v0 ds_def)
  from revoke_all_spec [OF r0 this, where out = "[]"]
  obtain g1 out1 where g1: "revoke_all True ds g0 = Some (out1, g1)" "revoking m g1"
    "connection_by_id g1 = (\<lambda>i. if \<exists>d \<in> set ds. primary_connection g d = Some i then None else connection_by_id g i)"
    "primary_connection g1 = primary_connection g |` (- set ds)" "get_parent_module g1 = get_parent_module g |` (- set ds)"
    "dom (mgm_by_identifier g1) = dom (mgm_by_identifier g) - {m}" "module_by_identifier g1 = (module_by_identifier g)(m := None)"
    unfolding v0 revoke_all_def by auto
  have "False \<longrightarrow> (\<forall>d \<in> set incoming. get_parent_module g1 d \<in> {None, Some m})" by simp
  from revoke_all_spec [OF g1(2) this, where out = "[]"]
  obtain g2 where g2: "revoke_all False incoming g1 = Some (map (\<lambda>d. (d, get_parent_module g1 d)) incoming, g2)" "revoking m g2"
    "connection_by_id g2 = (\<lambda>i. if \<exists>d \<in> set incoming. primary_connection g1 d = Some i then None else connection_by_id g1 i)"
    "dom (mgm_by_identifier g2) = dom (mgm_by_identifier g) - {m}" "module_by_identifier g2 = (module_by_identifier g)(m := None)"
    unfolding g1(6,7) revoke_all_def by auto
  have "revoke_module ord m g = Some (map (\<lambda>d. (d, get_parent_module g1 d)) incoming, g2)"
    using g1(1) g2(1) x unfolding revoke_module_def Let_def
    by (simp add: blocks_def [symmetric] incoming_def [symmetric] ds_def [symmetric]) (simp add: g0_def)
  moreover have in_set: "set incoming = {con_dependency_id c | c. \<exists>i. connection_by_id g i = Some c \<and> con_module_identifier c = m}"
    unfolding incoming_def by (rule incoming_dependencies [OF ord l(1) x])
  have orig: "con_original_module_identifier c = get_parent_module g (con_dependency_id c)" if "connection_by_id g i = Some c" for i c
    using that primary origin unfolding origin_ok_def by blast
  have del: "con_dependency_id c \<in> set ds \<longleftrightarrow> con_original_module_identifier c = Some m" if "connection_by_id g i = Some c" for i c
    using orig [OF that] owned listed that unfolding ds_def by auto
  have con2: "connection_by_id g2 i = (case connection_by_id g i of None \<Rightarrow> None
      | Some c \<Rightarrow> if con_module_identifier c = m \<or> con_original_module_identifier c = Some m then None else Some c)" for i
  proof (cases "connection_by_id g i")
    case (Some c)
    have one: "con_dependency_id c \<in> set incoming \<longleftrightarrow> con_module_identifier c = m"
      using Some primary unfolding in_set by (auto dest: spec) (metis option.inject)
    show ?thesis
      unfolding g2(3) g1(3,4) using primary_in [OF l(2) primary Some, of "set ds"] primary_in [OF l(2) primary Some, of "set incoming"] del [OF Some] one Some
      by (auto simp: restrict_map_def)
  qed (simp add: g2(3) g1(3))
  moreover have "links (connection_by_id g2) (mgm_by_identifier g2)"
    using g2(2) unfolding revoking_def by (intro no_graph_module [of m]) (auto simp: con2 split: option.splits if_splits)
  moreover have "set (map (\<lambda>d. (d, get_parent_module g1 d)) incoming) =
    {(con_dependency_id c, if con_original_module_identifier c = Some m then None else con_original_module_identifier c) | c.
      \<exists>i. connection_by_id g i = Some c \<and> con_module_identifier c = m}"
  proof -
    have "get_parent_module g1 (con_dependency_id c) = (if con_original_module_identifier c = Some m then None else con_original_module_identifier c)"
      if "connection_by_id g i = Some c" for i c
      using del [OF that] orig [OF that] unfolding g1(5) by (simp add: restrict_map_def)
    then show ?thesis unfolding list.set_map in_set by (auto simp: image_iff) metis+
  qed
  ultimately show ?thesis using g2(2,4,5) unfolding revoking_def mg_wf_def by blast
qed


theorem revoke_module_witness:
  "\<exists>out g'. revoke_module sorted_list_of_set ''b'' sample_module_graph = Some (out, g') \<and> mg_wf g' \<and>
    set out = {(0, Some ''a'')} \<and> connection_by_id g' 0 = None"
proof -
  have x: "mgm_by_identifier sample_module_graph ''b'' = Some sample_mgm_b"
    "\<forall>i c. connection_by_id sample_module_graph i = Some c \<longrightarrow> primary_connection sample_module_graph (con_dependency_id c) = Some i"
    "\<forall>d \<in> set (mgm_all_dependencies sample_mgm_b). get_parent_module sample_module_graph d = Some ''b''"
    "\<forall>i c. connection_by_id sample_module_graph i = Some c \<longrightarrow> con_original_module_identifier c = Some ''b'' \<longrightarrow>
      con_dependency_id c \<in> set (mgm_all_dependencies sample_mgm_b)"
    by (simp_all add: sample_views)
  obtain out g' where r: "revoke_module sorted_list_of_set ''b'' sample_module_graph = Some (out, g')" "mg_wf g'"
    "\<forall>i. connection_by_id g' i = (case connection_by_id sample_module_graph i of None \<Rightarrow> None
      | Some c \<Rightarrow> if con_module_identifier c = ''b'' \<or> con_original_module_identifier c = Some ''b'' then None else Some c)"
    "set out = {(con_dependency_id c, if con_original_module_identifier c = Some ''b'' then None else con_original_module_identifier c) | c.
      \<exists>i. connection_by_id sample_module_graph i = Some c \<and> con_module_identifier c = ''b''}"
    using revoke_module_correct [OF hash_order_sorted sample_wf x] by (elim exE conjE) (rule that)
  have "(\<exists>i. connection_by_id sample_module_graph i = Some c \<and> con_module_identifier c = ''b'') \<longleftrightarrow> c = sample_connection" for c
    by (auto simp: sample_views split: if_splits)
  then have "set out = {(0, Some ''a'')}" unfolding r(4) by simp
  moreover have "connection_by_id g' 0 = None" using r(3) by (simp add: sample_views)
  ultimately show ?thesis using r(1,2) by blast
qed

end
