(* ===== verification/Module_Machine.thy ===== *)
theory Module_Machine
  imports Module_Links
begin

text \<open>
  The module graph as a state machine: the operations of its interface as steps, and what \<open>reset\<close> returns to after any
  sequence of them (\<open>checkpoint\<close> and \<open>reset\<close> of \<open>crates/rspack_core/src/module_graph/mod.rs\<close>).
\<close>

section \<open>What a reset returns to\<close>

text \<open>The four lookups a checkpoint saves: modules, graph modules, connections, primary connections.\<close>

type_synonym graph_views = "(module_identifier \<rightharpoonup> graph_module) \<times> (module_identifier \<rightharpoonup> module_graph_module) \<times>
  (connection_id \<rightharpoonup> module_graph_connection) \<times> (dependency_id \<rightharpoonup> connection_id)"

definition views :: "'c module_graph_data \<Rightarrow> graph_views" where
  "views g = (module_by_identifier g, mgm_by_identifier g, connection_by_id g, primary_connection g)"

definition saves :: "graph_views \<Rightarrow> 'c module_graph_data \<Rightarrow> bool" where
  "saves s g = (case s of (modules, mgms, cons, primary) \<Rightarrow>
     rb_inv (mg_modules g) \<and> rb_saved (mg_modules g) = Some modules \<and> om_saved (mg_module_graph_modules g) = Some mgms \<and>
     dm_saved (mg_connections g) = Some cons \<and> dm_saved (mg_dependency_id_to_connection_id g) = Some primary)"

text \<open>The updates of one field that keep what is saved.\<close>

lemma saves_update:
  "saves s g \<Longrightarrow> saves s (g\<lparr>mg_connections := dm_insert i c (mg_connections g)\<rparr>)"
  "saves s g \<Longrightarrow> saves s (g\<lparr>mg_connections := dm_remove i (mg_connections g)\<rparr>)"
  "saves s g \<Longrightarrow> saves s (g\<lparr>mg_connections := snd (dm_get_mut i f (mg_connections g))\<rparr>)"
  "saves s g \<Longrightarrow> saves s (g\<lparr>mg_dependency_id_to_connection_id := dm_insert d i (mg_dependency_id_to_connection_id g)\<rparr>)"
  "saves s g \<Longrightarrow> saves s (g\<lparr>mg_dependency_id_to_connection_id := dm_remove d (mg_dependency_id_to_connection_id g)\<rparr>)"
  "saves s g \<Longrightarrow> saves s (g\<lparr>mg_module_graph_modules := om_insert m x (mg_module_graph_modules g)\<rparr>)"
  "saves s g \<Longrightarrow> saves s (g\<lparr>mg_module_graph_modules := om_remove m (mg_module_graph_modules g)\<rparr>)"
  "saves s g \<Longrightarrow> saves s (g\<lparr>mg_module_graph_modules := snd (om_get_mut m h (mg_module_graph_modules g))\<rparr>)"
  "saves s g \<Longrightarrow> saves s (g\<lparr>mg_modules := snd (rb_insert m y (mg_modules g))\<rparr>)"
  "saves s g \<Longrightarrow> saves s (g\<lparr>mg_modules := snd (rb_remove m (mg_modules g))\<rparr>)"
  by (simp_all add: saves_def dm_saved_simps om_saved_simps rb_saved_simps rb_inv_simps split: prod.splits)

lemma saves_other [simp]:
  "saves s (g\<lparr>mg_connection_to_condition := U\<rparr>) = saves s g" "saves s (g\<lparr>mg_dependencies := E\<rparr>) = saves s g"
  "saves s (g\<lparr>mg_dependency_id_to_parents := Q\<rparr>) = saves s g" "saves s (g\<lparr>mg_blocks := B\<rparr>) = saves s g"
  "saves s (g\<lparr>mg_dep_meta_map := D\<rparr>) = saves s g"
  by (simp_all add: saves_def)

lemma saves_modify:
  "saves s g \<Longrightarrow> saves s (try_modify_mgm m f g)"
  "modify_mgm m f g = Some g' \<Longrightarrow> saves s g \<Longrightarrow> saves s g'"
  "modify_connection i h g = Some g' \<Longrightarrow> saves s g \<Longrightarrow> saves s g'"
  by (auto simp: try_modify_mgm_def modify_mgm_eq modify_connection_eq saves_update split: if_splits)

lemma saves_insert_connection:
  assumes "insert_connection c g = Some g'" "saves s g"
  shows "saves s g'"
proof -
  define g0 where "g0 = g\<lparr>mg_connections := dm_insert (con_id c) c (mg_connections g)\<rparr>"
  have "saves s g0" using assms(2) unfolding g0_def by (rule saves_update)
  moreover obtain g1 where g1: "modify_mgm (con_module_identifier c) (add_incoming_connection (con_id c)) g0 = Some g1"
    "(case con_original_module_identifier c of Some i \<Rightarrow> modify_mgm i (add_outgoing_connection (con_id c)) g1 | None \<Rightarrow> Some g1) = Some g'"
    using assms(1) unfolding insert_connection_def Let_def g0_def [symmetric] by (auto simp: bind_eq_Some)
  ultimately have "saves s g1" using saves_modify(2) by blast
  then show ?thesis using g1(2) saves_modify(2) [of _ _ g1 g' s] by (cases "con_original_module_identifier c") simp_all
qed

lemma saves_set_resolved_module:
  assumes "set_resolved_module origin d m g = Some g'" "saves s g"
  shows "saves s g'"
proof (cases "connection_by_dependency_id g d = None")
  case True
  obtain dependency where "dependency_by_id g d = Some dependency"
    using assms(1) True unfolding set_resolved_module_def by (auto simp: bind_eq_Some)
  define condition where "condition = Option.bind (dep_module_dependency dependency) snd"
  define g1 where "g1 = (case condition of
      Some condition \<Rightarrow> g\<lparr>mg_connection_to_condition := snd (dd_insert d condition (mg_connection_to_condition g))\<rparr> | None \<Rightarrow> g)"
  have s1: "saves s g1" using assms(2) by (simp add: g1_def split: option.split)
  have r: "set_resolved_module origin d m g =
    (if \<not> (dep_module_dependency dependency \<noteq> None \<or> dep_context_dependency dependency) then Some g
     else Option.bind (next_connection_id g) (\<lambda>i. insert_connection (connection_new i d origin m (condition \<noteq> None))
       (g1\<lparr>mg_dependency_id_to_connection_id := dm_insert d i (mg_dependency_id_to_connection_id g1)\<rparr>)))"
    using True \<open>dependency_by_id g d = Some dependency\<close>
    unfolding set_resolved_module_def
    by (simp only: Let_def condition_def [symmetric] g1_def [symmetric] bind.bind_lunit simp_thms if_True if_False)
  show ?thesis
  proof (cases "dep_module_dependency dependency \<noteq> None \<or> dep_context_dependency dependency")
    case True
    then obtain i where "insert_connection (connection_new i d origin m (condition \<noteq> None))
       (g1\<lparr>mg_dependency_id_to_connection_id := dm_insert d i (mg_dependency_id_to_connection_id g1)\<rparr>) = Some g'"
      using assms(1) unfolding r by (auto simp: bind_eq_Some)
    then show ?thesis using saves_insert_connection saves_update(4) [OF s1] by blast
  qed (use assms r in simp)
next
  case False
  then show ?thesis using assms by (simp add: set_resolved_module_def)
qed

lemma saves_do_update_module: "do_update_module d m g = Some g' \<Longrightarrow> saves s g \<Longrightarrow> saves s g'"
  unfolding do_update_module_def Let_def by (auto simp: bind_eq_Some dest!: saves_modify(2,3))

lemma saves_cache_recovery_connection: "cache_recovery_connection c g = Some g' \<Longrightarrow> saves s g \<Longrightarrow> saves s g'"
  unfolding cache_recovery_connection_def Let_def
  by (auto simp: bind_eq_Some saves_def dm_saved_simps split: option.splits prod.splits)

lemma saves_set_depth_if_lower: "set_depth_if_lower m n g = Some (b, g') \<Longrightarrow> saves s g \<Longrightarrow> saves s g'"
  unfolding set_depth_if_lower_def Let_def by (auto simp: bind_eq_Some dest!: saves_modify(2))

lemma saves_move_half:
  assumes "move_half ord sel rem add change old_m new_m flt g = Some g'" "saves s g"
  shows "saves s g'"
proof -
  obtain x g1 as g2 where r: "move_loop change flt (ord (sel x)) g = Some (g1, as)"
    "modify_mgm old_m (fold rem as) g1 = Some g2" "modify_mgm new_m (fold add as) g2 = Some g'"
    using assms(1) unfolding move_half_def by (auto simp: bind_eq_Some)
  have "saves s (fst (g1, as))"
  proof (rule for_each_invariant [where I = "\<lambda>p. saves s (fst p)", OF r(1) [unfolded move_loop_def]])
    fix i p p'
    assume "saves s (fst p)" "move_step change flt i p = Some p'"
    then show "saves s (fst p')"
      unfolding move_step_def by (auto simp: bind_eq_Some split: prod.splits if_splits dest!: saves_modify(3))
  qed (use assms(2) in simp)
  then show ?thesis using saves_modify(2) [OF r(3) saves_modify(2) [OF r(2)]] by simp
qed

lemma saves_move_module_connections:
  "move_module_connections ord old_m new_m flt g = Some g' \<Longrightarrow> saves s g \<Longrightarrow> saves s g'"
  unfolding move_module_connections_def by (auto simp: bind_eq_Some dest!: saves_move_half split: if_splits)

lemma saves_unlink: "saves s g \<Longrightarrow> saves s (unlink d force g)"
  by (simp add: unlink_def Let_def saves_def dm_saved_simps split: option.split prod.splits)

lemma saves_revoke_dependency: "revoke_dependency d force g = Some (b, g') \<Longrightarrow> saves s g \<Longrightarrow> saves s g'"
  using saves_unlink [of s g d force]
  by (auto simp: revoke_dependency_eq try_modify_opt_def saves_modify(1) split: if_splits option.splits)

lemma saves_revoke_all:
  assumes "revoke_all force ds g = Some (out, g')" "saves s g"
  shows "saves s g'"
proof -
  have "saves s (snd (out, g'))"
  proof (rule for_each_invariant [where I = "\<lambda>p. saves s (snd p)", OF assms(1) [unfolded revoke_all_def]])
    fix d p p'
    assume "saves s (snd p)" "revoke_step force d p = Some p'"
    then show "saves s (snd p')"
      unfolding revoke_step_def by (auto simp: bind_eq_Some split: prod.splits dest!: saves_revoke_dependency)
  qed (use assms(2) in simp)
  then show ?thesis by simp
qed

lemma saves_revoke_module:
  assumes "revoke_module ord m g = Some (out, g')" "saves s g"
  shows "saves s g'"
proof -
  have "saves s (g\<lparr>mg_modules := snd (rb_remove m (mg_modules g)), mg_module_graph_modules := om_remove m (mg_module_graph_modules g),
      mg_blocks := B\<rparr>)" for B
    using assms(2) by (simp add: saves_def om_saved_simps rb_saved_simps rb_inv_simps split: prod.splits)
  then show ?thesis using assms(1) unfolding revoke_module_def Let_def
    by (auto simp: bind_eq_Some split: prod.splits dest!: saves_revoke_all)
qed

lemma saves_batch_copy_connections:
  assumes "batch_copy_connections tasks g = Some g'" "saves s g"
  shows "saves s g'"
proof (rule for_each_invariant [where I = "saves s", OF assms(1) [unfolded batch_copy_connections_def]])
  fix t h h'
  assume "saves s h" "(case t of (i, origin) \<Rightarrow> \<lambda>g. do {
     con \<leftarrow> connection_by_id g i;
     j \<leftarrow> next_connection_id g;
     insert_connection (con\<lparr>con_id := j, con_original_module_identifier := Some origin\<rparr>) g
   }) h = Some h'"
  then show "saves s h'" by (auto simp: bind_eq_Some split: prod.splits dest!: saves_insert_connection)
qed (rule assms(2))

lemma saves_batch_connections:
  assumes "batch_connections change tasks g = Some g'" "saves s g"
  shows "saves s g'"
proof -
  obtain changed where run: "for_each (\<lambda>(i, con). modify_connection i (\<lambda>_. con)) changed g = Some g'"
    using assms(1) by (auto simp: batch_connections_def bind_eq_Some)
  show ?thesis
  proof (rule for_each_invariant [where I = "saves s", OF run])
    fix t h h'
    assume "saves s h" "(case t of (i, con) \<Rightarrow> modify_connection i (\<lambda>_. con)) h = Some h'"
    then show "saves s h'" by (auto split: prod.splits dest: saves_modify(3))
  qed (rule assms(2))
qed

lemma saves_insert_mgms:
  "saves s g \<Longrightarrow> saves s (g\<lparr>mg_module_graph_modules := fold (\<lambda>(m, x). om_insert m x) changed (mg_module_graph_modules g)\<rparr>)"
proof (induction changed arbitrary: g)
  case (Cons p changed)
  obtain m x where p: "p = (m, x)" by (cases p)
  show ?case using Cons.IH [OF saves_update(6) [OF Cons.prems, of m x]] by (simp add: p)
qed simp

lemma saves_batch_mgms: "batch_mgms out inc tasks g = Some g' \<Longrightarrow> saves s g \<Longrightarrow> saves s g'"
  by (auto simp: batch_mgms_def bind_eq_Some intro: saves_insert_mgms)

lemma saves_clone_module_attributes:
  "clone_module_attributes source target (g, ex, as) = Some (g', ex', as') \<Longrightarrow> saves s g \<Longrightarrow> saves s g'"
  by (auto simp: clone_module_attributes_def bind_eq_Some dest: saves_modify(2))

lemmas saves_operations = saves_insert_connection saves_set_resolved_module saves_do_update_module saves_cache_recovery_connection
  saves_set_depth_if_lower saves_move_module_connections saves_revoke_dependency saves_revoke_module

section \<open>The machine\<close>

text \<open>
  Every function of the interface that takes the graph by mutable reference is a step.  The accessors that hand out a
  mutable reference are steps with an arbitrary edit: \<open>modify_mgm\<close> for \<open>module_graph_module_by_identifier_mut\<close> and
  \<open>get_optimization_bailout_mut\<close>, \<open>try_modify_mgm\<close> for the variant that tolerates a missing module,
  \<open>modify_connection\<close> for \<open>connection_by_id_mut\<close> and \<open>connection_by_dependency_id_mut\<close>.  Of the exports info that
  \<open>clone_module_attributes\<close> copies the graph depends on no more than whether there is one.
\<close>

inductive mg_step :: "'c module_graph_data \<Rightarrow> 'c module_graph_data \<Rightarrow> bool" where
  step_add_module: "mg_step g (mg_add_module x g)"
| step_add_graph_module: "mg_step g (add_module_graph_module y g)"
| step_add_block: "mg_step g (mg_add_block b g)"
| step_set_parents: "mg_step g (set_parents d p g)"
| step_add_dependency: "mg_step g (add_dependency_ref e g)"
| step_set_extra_meta: "mg_step g (set_dependency_extra_meta d extra g)"
| step_resolve: "set_resolved_module origin d m g = Some g' \<Longrightarrow> mg_step g g'"
| step_insert: "insert_connection c g = Some g' \<Longrightarrow> mg_step g g'"
| step_recover: "cache_recovery_connection c g = Some g' \<Longrightarrow> mg_step g g'"
| step_update: "do_update_module d m g = Some g' \<Longrightarrow> mg_step g g'"
| step_depth: "set_depth_if_lower m n g = Some (b, g') \<Longrightarrow> mg_step g g'"
| step_move: "move_module_connections ord old_m new_m flt g = Some g' \<Longrightarrow> mg_step g g'"
| step_revoke_dependency: "revoke_dependency d force g = Some (b, g') \<Longrightarrow> mg_step g g'"
| step_revoke_module: "revoke_module ord m g = Some (out, g') \<Longrightarrow> mg_step g g'"
| step_batch_copy: "batch_copy_connections tasks g = Some g' \<Longrightarrow> mg_step g g'"
| step_batch_set_origin: "batch_set_connections_original_module tasks g = Some g' \<Longrightarrow> mg_step g g'"
| step_batch_set_module: "batch_set_connections_module tasks g = Some g' \<Longrightarrow> mg_step g g'"
| step_batch_add: "batch_add_connections updates g = Some g' \<Longrightarrow> mg_step g g'"
| step_batch_remove: "batch_remove_connections updates g = Some g' \<Longrightarrow> mg_step g g'"
| step_clone: "clone_module_attributes source target (g, ex :: module_identifier \<rightharpoonup> unit, as) = Some (g', ex', as') \<Longrightarrow> mg_step g g'"
| step_edit_mgm: "modify_mgm m f g = Some g' \<Longrightarrow> mg_step g g'"
| step_try_edit_mgm: "mg_step g (try_modify_mgm m f g)"
| step_edit_connection: "modify_connection i h g = Some g' \<Longrightarrow> mg_step g g'"
| step_edit_primary: "primary_connection g d = Some i \<Longrightarrow> modify_connection i h g = Some g' \<Longrightarrow> mg_step g g'"

lemma mg_step_saves: "mg_step g g' \<Longrightarrow> saves s g \<Longrightarrow> saves s g'"
proof (induction rule: mg_step.induct)
  case (step_add_module g x)
  then show ?case unfolding mg_add_module_def by (rule saves_update)
next
  case (step_add_graph_module g y)
  then show ?case unfolding add_module_graph_module_def by (rule saves_update)
next
  case (step_try_edit_mgm g m f)
  then show ?case by (rule saves_modify(1))
next
  case (step_clone source target g ex as g' ex' as')
  then show ?case using saves_clone_module_attributes by blast
qed (simp_all add: mg_add_block_def set_parents_def add_dependency_ref_def set_dependency_extra_meta_def saves_operations
    saves_modify(2,3) saves_batch_copy_connections saves_batch_connections saves_batch_mgms batch_set_connections_original_module_def
    batch_set_connections_module_def batch_add_connections_def batch_remove_connections_def)

lemma mg_steps_save: "mg_step\<^sup>*\<^sup>* g g' \<Longrightarrow> saves s g \<Longrightarrow> saves s g'"
  by (induction rule: rtranclp_induct) (auto intro: mg_step_saves)

lemma mg_checkpoint_saves:
  assumes "rb_checkpoint (mg_modules g) = None" "om_overlay (mg_module_graph_modules g) = None"
    "dm_overlay (mg_connections g) = None" "dm_overlay (mg_dependency_id_to_connection_id g) = None"
  shows "\<exists>g0. mg_checkpoint g = Some g0 \<and> saves (views g) g0 \<and> views g0 = views g"
proof -
  have "rb_inv (mg_modules g)" "rb_saved (mg_modules g) = None" using assms(1) by (simp_all add: rb_inv_def rb_saved_def)
  then obtain modules where m: "rb_checkpoint_op (mg_modules g) = Some modules" "rb_inv modules"
    "rb_saved modules = Some (rb_get (mg_modules g))" "rb_get modules = rb_get (mg_modules g)"
    using rollback.checkpoint_spec [of "mg_modules g"] by blast
  have "om_saved (mg_module_graph_modules g) = None" "dm_saved (mg_connections g) = None"
    "dm_saved (mg_dependency_id_to_connection_id g) = None"
    using assms(2-4) by (simp_all add: om_saved_def dm_saved_def)
  then show ?thesis
    using m by (simp add: mg_checkpoint_def views_def saves_def module_by_identifier_def [abs_def] mgm_by_identifier_def [abs_def]
        connection_by_id_def [abs_def] primary_connection_def [abs_def] om_saved_simps dm_saved_simps)
qed

lemma mg_recover_views:
  assumes "saves s g"
  shows "views (mg_recover g) = s"
proof -
  obtain a b c d where s: "s = (a, b, c, d)" by (cases s) auto
  show ?thesis using assms rollback.reset_spec [of "mg_modules g"]
    by (simp add: s saves_def views_def mg_recover_def module_by_identifier_def [abs_def] mgm_by_identifier_def [abs_def]
        connection_by_id_def [abs_def] primary_connection_def [abs_def] om_saved_simps dm_saved_simps)
qed

text \<open>
  C19. After \<open>checkpoint\<close>, whatever sequence of operations runs (adding, resolving, moving, copying and revoking
  connections one by one or in batches, cloning attributes, edits through the mutable accessors), \<open>reset\<close> brings back the modules, the graph
  modules with their connection lists, the connections and the primary connections of the checkpoint; a well-formed graph is
  well-formed again.
\<close>

theorem mg_reset_restores:
  assumes "rb_checkpoint (mg_modules g) = None" "om_overlay (mg_module_graph_modules g) = None"
    "dm_overlay (mg_connections g) = None" "dm_overlay (mg_dependency_id_to_connection_id g) = None"
  shows "\<exists>g0. mg_checkpoint g = Some g0 \<and> views g0 = views g \<and>
    (\<forall>g1. mg_step\<^sup>*\<^sup>* g0 g1 \<longrightarrow> views (mg_recover g1) = views g \<and> (mg_wf g \<longrightarrow> mg_wf (mg_recover g1)))"
proof -
  obtain g0 where g0: "mg_checkpoint g = Some g0" "saves (views g) g0" "views g0 = views g"
    using mg_checkpoint_saves [OF assms] by blast
  have "views (mg_recover g1) = views g" if "mg_step\<^sup>*\<^sup>* g0 g1" for g1
    by (rule mg_recover_views) (rule mg_steps_save [OF that g0(2)])
  then show ?thesis using g0(1,3) by (auto simp: views_def mg_wf_def)
qed

theorem mg_reset_restores_witness:
  "\<exists>g0 b g1. mg_checkpoint sample_module_graph = Some g0 \<and> revoke_dependency 0 False g0 = Some (b, g1) \<and>
    connection_by_id g1 0 = None \<and> connection_by_id (mg_recover g1) 0 = Some sample_connection"
proof -
  have none: "rb_checkpoint (mg_modules sample_module_graph) = None" "om_overlay (mg_module_graph_modules sample_module_graph) = None"
    "dm_overlay (mg_connections sample_module_graph) = None" "dm_overlay (mg_dependency_id_to_connection_id sample_module_graph) = None"
    by (simp_all add: sample_module_graph_def rb_insert_def rb_default_def om_new_def dm_insert_def dm_default_def)
  obtain g0 where g0: "mg_checkpoint sample_module_graph = Some g0" "views g0 = views sample_module_graph"
    "\<forall>g1. mg_step\<^sup>*\<^sup>* g0 g1 \<longrightarrow> views (mg_recover g1) = views sample_module_graph"
    using mg_reset_restores [OF none] by blast
  have primary: "primary_connection g0 0 = Some 0" using g0(2) by (simp add: views_def sample_views)
  obtain b g1 where r: "revoke_dependency 0 False g0 = Some (b, g1)" "connection_by_id g1 0 = None"
    by (simp add: revoke_dependency_eq unlink_views primary)
  then have "mg_step\<^sup>*\<^sup>* g0 g1" by (intro r_into_rtranclp) (rule step_revoke_dependency)
  then have "connection_by_id (mg_recover g1) = connection_by_id sample_module_graph"
    using g0(3) by (simp add: views_def)
  then show ?thesis using g0(1) r by (auto simp: sample_views)
qed

end
