(* ===== verification/Css_Syntax.thy ===== *)
theory Css_Syntax
  imports Prelude "HOL-Library.Word"
begin

text \<open>
  \<open>crates/css-module-lexer/src/css_syntax.rs\<close>: white space, magic comments, dashed identifiers and CSS keywords.  A \<open>str\<close>
  is its list of bytes; \<open>get\<close> is the checked index.  The callers of \<open>hex_digit_value\<close> have checked that the byte is a
  hexadecimal digit, so its unreachable arm is merged with the last one.
\<close>

unbundle bit_operations_syntax

section \<open>Bytes\<close>

type_synonym u8 = "8 word"

definition bytes :: "string \<Rightarrow> u8 list" where
  "bytes s = map of_char s"

definition byte_get :: "u8 list \<Rightarrow> nat \<Rightarrow> u8 option" where
  "byte_get v i = (if i < length v then Some (v ! i) else None)"

definition byte_is :: "(u8 \<Rightarrow> bool) \<Rightarrow> u8 list \<Rightarrow> nat \<Rightarrow> bool" where
  "byte_is P v i = (case byte_get v i of Some b \<Rightarrow> P b | None \<Rightarrow> False)"

lemma byte_is_iff: "byte_is P v i \<longleftrightarrow> i < length v \<and> P (v ! i)"
  by (simp add: byte_is_def byte_get_def)

definition is_ascii :: "u8 \<Rightarrow> bool" where
  "is_ascii b = (b < 0x80)"

definition is_ascii_digit :: "u8 \<Rightarrow> bool" where
  "is_ascii_digit b = (0x30 \<le> b \<and> b \<le> 0x39)"

definition is_ascii_upper :: "u8 \<Rightarrow> bool" where
  "is_ascii_upper b = (0x41 \<le> b \<and> b \<le> 0x5A)"

definition is_ascii_lower :: "u8 \<Rightarrow> bool" where
  "is_ascii_lower b = (0x61 \<le> b \<and> b \<le> 0x7A)"

definition is_ascii_alphabetic :: "u8 \<Rightarrow> bool" where
  "is_ascii_alphabetic b = (is_ascii_upper b \<or> is_ascii_lower b)"

definition is_ascii_hexdigit :: "u8 \<Rightarrow> bool" where
  "is_ascii_hexdigit b = (is_ascii_digit b \<or> 0x41 \<le> b \<and> b \<le> 0x46 \<or> 0x61 \<le> b \<and> b \<le> 0x66)"

definition to_ascii_lowercase :: "u8 \<Rightarrow> u8" where
  "to_ascii_lowercase b = (if is_ascii_upper b then b + 0x20 else b)"

definition starts_with :: "u8 list \<Rightarrow> u8 list \<Rightarrow> bool" where
  "starts_with s prefix = (take (length prefix) s = prefix)"

definition strip_prefix :: "u8 list \<Rightarrow> u8 list \<Rightarrow> u8 list option" where
  "strip_prefix s prefix = (if starts_with s prefix then Some (drop (length prefix) s) else None)"

text \<open>A loop that advances an index while the byte there satisfies a test.\<close>

function scan_while :: "(u8 \<Rightarrow> bool) \<Rightarrow> u8 list \<Rightarrow> nat \<Rightarrow> nat" where
  "scan_while P v i = (if i < length v \<and> P (v ! i) then scan_while P v (Suc i) else i)"
  by pat_completeness auto
termination scan_while
  by (relation "measure (\<lambda>(P, v, i). length v - i)") auto

declare scan_while.simps [simp del]

lemma scan_while_spec:
  "i \<le> scan_while P v i" "i \<le> length v \<Longrightarrow> scan_while P v i \<le> length v"
  "i \<le> k \<Longrightarrow> k < scan_while P v i \<Longrightarrow> k < length v \<and> P (v ! k)"
  "scan_while P v i < length v \<Longrightarrow> \<not> P (v ! scan_while P v i)"
proof (induction P v i rule: scan_while.induct)
  case (1 P v i)
  {
    case 1
    then show ?case using "1.IH"(1) by (subst scan_while.simps) (auto dest: Suc_leD)
  next
    case 2
    then show ?case using "1.IH"(2) by (subst scan_while.simps) simp
  next
    case 3
    then show ?case using "1.IH"(3) scan_while.simps [of P v i] by (cases "i = k") (simp_all split: if_splits)
  next
    case 4
    then show ?case using "1.IH"(4) scan_while.simps [of P v i] by (simp split: if_splits)
  }
qed

section \<open>White space and magic comments\<close>

definition is_css_space_byte :: "u8 \<Rightarrow> bool" where
  "is_css_space_byte b = (b = 0x20 \<or> b = 0x09 \<or> b = 0x0A \<or> b = 0x0D \<or> b = 0x0C)"

text \<open>The second loop of \<open>trim_css_whitespace\<close>, from the end down to the start.\<close>

fun trim_end :: "u8 list \<Rightarrow> nat \<Rightarrow> nat \<Rightarrow> nat" where
  "trim_end v start 0 = 0"
| "trim_end v start (Suc i) = (if Suc i > start \<and> is_css_space_byte (v ! i) then trim_end v start i else Suc i)"

definition trim_css_whitespace :: "u8 list \<Rightarrow> u8 list" where
  "trim_css_whitespace v =
    (let start = scan_while is_css_space_byte v 0;
         end_pos = trim_end v start (length v)
     in drop start (take end_pos v))"

definition ends_keyword :: "u8 list \<Rightarrow> bool" where
  "ends_keyword rest = (rest = [] \<or> is_css_space_byte (hd rest))"

definition is_css_modules_magic_comment :: "u8 list \<Rightarrow> u8 list \<Rightarrow> bool" where
  "is_css_modules_magic_comment v keyword = (case strip_prefix (trim_css_whitespace v) keyword of
      None \<Rightarrow> False
    | Some rest \<Rightarrow> ends_keyword rest)"

definition is_css_modules_pure_magic_comment :: "u8 list \<Rightarrow> bool" where
  "is_css_modules_pure_magic_comment v = (case strip_prefix (trim_css_whitespace v) (bytes ''cssmodules-pure-'') of
      None \<Rightarrow> False
    | Some keyword \<Rightarrow> list_ex (\<lambda>expected. case strip_prefix keyword expected of None \<Rightarrow> False | Some rest \<Rightarrow> ends_keyword rest)
        [bytes ''ignore'', bytes ''no-check''])"

section \<open>Escapes\<close>

definition hex_digit_value :: "u8 \<Rightarrow> u8" where
  "hex_digit_value b =
    (if is_ascii_digit b then b - 0x30 else if 0x61 \<le> b \<and> b \<le> 0x66 then b - 0x61 + 10 else b - 0x41 + 10)"

text \<open>The loop over at most six hexadecimal digits: the index after them and the value.\<close>

function hex_loop :: "u8 list \<Rightarrow> nat \<Rightarrow> nat \<Rightarrow> u32 \<Rightarrow> nat \<times> u32" where
  "hex_loop v i digits val =
    (if i < length v \<and> \<not> (digits = 6 \<or> \<not> is_ascii_hexdigit (v ! i))
     then hex_loop v (Suc i) (Suc digits) (val * 16 + ucast (hex_digit_value (v ! i)))
     else (i, val))"
  by pat_completeness auto
termination hex_loop
  by (relation "measure (\<lambda>(v, i, digits, val). length v - i)") auto

declare hex_loop.simps [simp del]

text \<open>One white space after the digits belongs to the escape; a carriage return and line feed count as one.\<close>

definition skip_escape_space :: "u8 list \<Rightarrow> nat \<Rightarrow> nat" where
  "skip_escape_space v i =
    (if byte_is is_css_space_byte v i
     then (if byte_get v i = Some 0x0D \<and> byte_get v (i + 1) = Some 0x0A then i + 2 else i + 1)
     else i)"

definition is_escaped_newline :: "u8 \<Rightarrow> bool" where
  "is_escaped_newline b = (b = 0x0A \<or> b = 0x0D \<or> b = 0x0C)"

definition next_css_code_point :: "u8 list \<Rightarrow> nat \<Rightarrow> (u32 \<times> nat) option" where
  "next_css_code_point v pos = do {
     first \<leftarrow> byte_get v pos;
     if first \<noteq> 0x5C then Some (ucast first, pos + 1)
     else do {
       let pos = pos + 1;
       first \<leftarrow> byte_get v pos;
       if \<not> is_ascii_hexdigit first then
         (if is_escaped_newline first then None else Some (ucast first, pos + 1))
       else
         let (pos, val) = hex_loop v pos 0 0
         in Some (val, skip_escape_space v pos)
     }
   }"

definition dashed_ident_name_start :: "u8 list \<Rightarrow> nat option" where
  "dashed_ident_name_start v =
    (if starts_with v (bytes ''--'') then Some 2
     else do {
       (first, pos) \<leftarrow> next_css_code_point v 0;
       if first \<noteq> 0x2D then None
       else do {
         (second, pos) \<leftarrow> next_css_code_point v pos;
         if second = 0x2D then Some pos else None
       }
     })"

definition dashed_ident_name :: "u8 list \<Rightarrow> u8 list option" where
  "dashed_ident_name v = map_option (\<lambda>start. drop start v) (dashed_ident_name_start v)"

section \<open>Keywords\<close>

definition max_css_keyword_len :: nat where
  "max_css_keyword_len = length ''-webkit-animation-name''"

definition lowercase_ascii_keyword :: "u8 list \<Rightarrow> u8 list option" where
  "lowercase_ascii_keyword v = (if length v \<le> max_css_keyword_len then Some (map to_ascii_lowercase v) else None)"

text \<open>One logical byte of a keyword with the index after it.\<close>

definition decode_byte :: "u8 list \<Rightarrow> nat \<Rightarrow> (u8 \<times> nat) option" where
  "decode_byte v i =
    (if v ! i = 0x5C then do {
       first \<leftarrow> byte_get v (i + 1);
       if is_ascii_hexdigit first then
         let (i, val) = hex_loop v (i + 1) 0 0;
             i = skip_escape_space v i
         in if val < 256 \<and> val \<noteq> 0 \<and> is_ascii (ucast val) then Some (ucast val, i) else None
       else if \<not> is_ascii first \<or> is_escaped_newline first then None
       else Some (first, i + 2)
     }
     else if \<not> is_ascii (v ! i) \<or> v ! i = 0 then None
     else Some (v ! i, i + 1))"

lemma hex_loop_ge: "i \<le> fst (hex_loop v i n x)"
proof (induction v i n x rule: hex_loop.induct)
  case (1 v i n x)
  then show ?case by (subst hex_loop.simps) auto
qed

lemma skip_escape_space_ge: "i \<le> skip_escape_space v i"
  by (simp add: skip_escape_space_def)

lemma decode_byte_gt: "decode_byte v i = Some (b, j) \<Longrightarrow> i < j"
  using hex_loop_ge [of "i + 1" v 0 0] skip_escape_space_ge [of "fst (hex_loop v (i + 1) 0 0)" v]
  by (auto simp: decode_byte_def Let_def bind_eq_Some split: if_splits prod.splits)

function decode_loop :: "u8 list \<Rightarrow> nat \<Rightarrow> u8 list \<Rightarrow> u8 list option" where
  "decode_loop v i out =
    (if i < length v then (case decode_byte v i of
        None \<Rightarrow> None
      | Some (b, j) \<Rightarrow>
          if length out < max_css_keyword_len then decode_loop v j (out @ [to_ascii_lowercase b]) else None)
     else Some out)"
  by pat_completeness auto
termination decode_loop
  by (relation "measure (\<lambda>(v, i, out). length v - i)") (auto dest!: decode_byte_gt)

declare decode_loop.simps [simp del]

definition decode_css_keyword :: "u8 list \<Rightarrow> u8 list option" where
  "decode_css_keyword v = decode_loop v 0 []"

fun find_prefix :: "u8 list list \<Rightarrow> u8 list \<Rightarrow> u8 list option" where
  "find_prefix [] v = None"
| "find_prefix (prefix # prefixes) v = (case strip_prefix v prefix of Some rest \<Rightarrow> Some rest | None \<Rightarrow> find_prefix prefixes v)"

definition strip_vendor_prefix :: "u8 list \<Rightarrow> u8 list option" where
  "strip_vendor_prefix v = find_prefix [bytes ''-webkit-'', bytes ''-moz-'', bytes ''-ms-'', bytes ''-o-''] v"

text \<open>A name without escapes, NUL and non-ASCII bytes is its own decoding.\<close>

lemma decode_byte_plain: "v ! i \<noteq> 0x5C \<Longrightarrow> is_ascii (v ! i) \<Longrightarrow> v ! i \<noteq> 0 \<Longrightarrow> decode_byte v i = Some (v ! i, i + 1)"
  by (simp add: decode_byte_def)

lemma decode_loop_plain:
  assumes "\<forall>b \<in> set (drop i v). b \<noteq> 0x5C \<and> is_ascii b \<and> b \<noteq> 0" "i \<le> length v" "length out = i" "i \<le> max_css_keyword_len"
  shows "decode_loop v i out = (if length v \<le> max_css_keyword_len then Some (out @ map to_ascii_lowercase (drop i v)) else None)"
  using assms
proof (induction v i out rule: decode_loop.induct)
  case (1 v i out)
  show ?case
  proof (cases "i < length v")
    case True
    then have d: "drop i v = v ! i # drop (Suc i) v" by (rule Cons_nth_drop_Suc [symmetric])
    then have p: "decode_byte v i = Some (v ! i, i + 1)" using 1(2) by (intro decode_byte_plain) auto
    have all: "\<forall>b \<in> set (drop (i + 1) v). b \<noteq> 0x5C \<and> is_ascii b \<and> b \<noteq> 0" using 1(2) d by simp
    show ?thesis
    proof (cases "i < max_css_keyword_len")
      case less: True
      then have "length out < max_css_keyword_len" using 1(4) by simp
      from 1(1) [OF True p refl this all] True 1(4) less p d
      show ?thesis by (subst decode_loop.simps) simp
    next
      case False
      then show ?thesis using True p 1(4,5) by (subst decode_loop.simps) simp
    qed
  next
    case False
    then show ?thesis using 1(3,5) by (subst decode_loop.simps) simp
  qed
qed

lemma decode_plain:
  assumes "\<forall>b \<in> set v. b \<noteq> 0x5C \<and> is_ascii b \<and> b \<noteq> 0"
  shows "decode_css_keyword v = lowercase_ascii_keyword v"
  using decode_loop_plain [of 0 v "[]"] assms by (simp add: decode_css_keyword_def lowercase_ascii_keyword_def)

end
