(* ===== verification/Css_Lexer.thy ===== *)
theory Css_Lexer
  imports Css_Syntax
begin

text \<open>
  \<open>crates/css-module-lexer/src/lexer.rs\<close>: the CSS tokenizer, \<open>Lexer::next_token\<close> and the scanning functions it calls.

  The input is a list of bytes; positions inside the scanning functions are natural numbers (\<open>usize\<close>), those of a token are
  32 bit words.  A panic (an index or a slice out of range) is \<open>None\<close>.  A scan returns the kind of the token, its end, the
  range of its value and its flags.  \<open>memchr\<close> and its variants belong to another crate: one argument \<open>mem\<close> stands for
  them, which finds the first of some bytes; \<open>memchr_ok\<close> is its documentation.  The visitor is the list of the
  identifiers it was called with.
\<close>

section \<open>Tokens and flags\<close>

datatype token_kind = Eof | Ident | AtKeyword | Hash | IdHash | QuotedString | Url | Function | Number | Percentage
  | Dimension | WhiteSpace | Comment | BadComment | BadString | BadUrl | Delim | Colon | Semicolon | Comma
  | LeftParenthesis | RightParenthesis | LeftSquareBracket | RightSquareBracket | LeftCurlyBracket | RightCurlyBracket
  | IncludeMatch | DashMatch | PrefixMatch | SuffixMatch | SubstringMatch

definition is_trivia :: "token_kind \<Rightarrow> bool" where
  "is_trivia k = (k = WhiteSpace \<or> k = Comment)"

definition is_scan_error :: "token_kind \<Rightarrow> bool" where
  "is_scan_error k = (k = BadComment \<or> k = BadString \<or> k = BadUrl)"

record token_flags =
  tf_escape :: bool
  tf_null :: bool
  tf_ascii :: bool

definition flags_ascii :: token_flags where
  "flags_ascii = \<lparr>tf_escape = False, tf_null = False, tf_ascii = True\<rparr>"

definition mark_escape :: "token_flags \<Rightarrow> token_flags" where
  "mark_escape fl = fl\<lparr>tf_escape := True\<rparr>"

definition mark_null :: "token_flags \<Rightarrow> token_flags" where
  "mark_null fl = fl\<lparr>tf_null := True\<rparr>"

definition mark_non_ascii :: "token_flags \<Rightarrow> token_flags" where
  "mark_non_ascii fl = fl\<lparr>tf_ascii := False\<rparr>"

definition flags_merge :: "token_flags \<Rightarrow> token_flags \<Rightarrow> token_flags" where
  "flags_merge fl other =
    (let ascii = tf_ascii fl \<and> tf_ascii other;
         fl = \<lparr>tf_escape = tf_escape fl \<or> tf_escape other, tf_null = tf_null fl \<or> tf_null other, tf_ascii = tf_ascii fl \<or> tf_ascii other\<rparr>
     in if \<not> ascii then mark_non_ascii fl else fl)"

record css_range =
  range_start :: u32
  range_end :: u32

record token =
  tok_kind :: token_kind
  tok_range :: css_range
  tok_value_range :: css_range
  tok_flags :: token_flags

definition token_new :: "token_kind \<Rightarrow> css_range \<Rightarrow> css_range \<Rightarrow> token" where
  "token_new k r v = \<lparr>tok_kind = k, tok_range = r, tok_value_range = v, tok_flags = flags_ascii\<rparr>"

section \<open>Bytes of the syntax\<close>

definition is_new_line :: "u8 \<Rightarrow> bool" where
  "is_new_line c = (c = 0x0A \<or> c = 0x0D \<or> c = 0x0C)"

definition is_space :: "u8 \<Rightarrow> bool" where
  "is_space c = (c = 0x09 \<or> c = 0x20)"

definition is_white_space :: "u8 \<Rightarrow> bool" where
  "is_white_space c = (is_new_line c \<or> is_space c)"

definition is_name_start_byte :: "u8 \<Rightarrow> bool" where
  "is_name_start_byte c = (c = 0 \<or> c = 0x5F \<or> is_ascii_alphabetic c \<or> \<not> is_ascii c)"

definition is_non_printable :: "u8 \<Rightarrow> bool" where
  "is_non_printable c = (c \<le> 0x08 \<or> c = 0x0B \<or> 0x0E \<le> c \<and> c \<le> 0x1F \<or> c = 0x7F)"

definition plain_ascii_name_byte :: "u8 \<Rightarrow> bool" where
  "plain_ascii_name_byte b = (is_ascii_digit b \<or> is_ascii_upper b \<or> is_ascii_lower b \<or> b = 0x5F \<or> b = 0x2D)"

definition utf8_width :: "u8 \<Rightarrow> nat" where
  "utf8_width b = (if b < 0x80 then 1 else if b < 0xE0 then 2 else if b < 0xF0 then 3 else 4)"

definition utf8_width_at :: "u8 list \<Rightarrow> nat \<Rightarrow> nat option" where
  "utf8_width_at v i = map_option utf8_width (byte_get v i)"

lemma utf8_width_pos: "0 < utf8_width b"
  by (simp add: utf8_width_def)

section \<open>Escapes and names\<close>

definition is_valid_escape_at :: "u8 list \<Rightarrow> nat \<Rightarrow> bool" where
  "is_valid_escape_at v i = (byte_get v i = Some 0x5C \<and> byte_is (\<lambda>b. \<not> is_new_line b) v (i + 1))"

function hex_digits :: "u8 list \<Rightarrow> nat \<Rightarrow> nat \<Rightarrow> nat" where
  "hex_digits v i digits =
    (if i < length v \<and> digits < 6 \<and> is_ascii_hexdigit (v ! i) then hex_digits v (Suc i) (Suc digits) else i)"
  by pat_completeness auto
termination hex_digits
  by (relation "measure (\<lambda>(v, i, digits). length v - i)") auto

declare hex_digits.simps [simp del]

definition scan_escape :: "u8 list \<Rightarrow> nat \<Rightarrow> nat option" where
  "scan_escape v pos = do {
     let i = pos + 1;
     b \<leftarrow> byte_get v i;
     if is_ascii_hexdigit b then
       let i = hex_digits v i 0
       in Some (if byte_is is_white_space v i
                then (if byte_get v i = Some 0x0D \<and> byte_get v (i + 1) = Some 0x0A then i + 2 else i + 1)
                else i)
     else map_option (\<lambda>w. i + w) (utf8_width_at v i)
   }"

lemma hex_digits_ge: "i \<le> hex_digits v i n"
proof (induction v i n rule: hex_digits.induct)
  case (1 v i n)
  then show ?case by (subst hex_digits.simps) auto
qed

lemma scan_escape_gt: "scan_escape v i = Some j \<Longrightarrow> i + 1 < j"
  using hex_digits_ge [of "Suc (i + 1)" v 1] hex_digits.simps [of v "i + 1" 0] utf8_width_pos
  by (auto simp: scan_escape_def Let_def bind_eq_Some utf8_width_at_def byte_get_def split: if_splits)

definition mark_byte :: "u8 \<Rightarrow> token_flags \<Rightarrow> token_flags" where
  "mark_byte b fl = (if b = 0 then mark_null fl else if \<not> is_ascii b then mark_non_ascii fl else fl)"

definition mark_escaped :: "u8 list \<Rightarrow> nat \<Rightarrow> token_flags \<Rightarrow> token_flags" where
  "mark_escaped v i fl =
    (let fl = mark_escape fl in if byte_is (\<lambda>b. \<not> is_ascii b) v (i + 1) then mark_non_ascii fl else fl)"

text \<open>The inner loop of \<open>scan_name_impl\<close>: plain bytes and NUL.\<close>

function name_run :: "u8 list \<Rightarrow> bool \<Rightarrow> nat \<Rightarrow> token_flags \<Rightarrow> nat \<times> token_flags" where
  "name_run v track i fl =
    (if i < length v then
       if plain_ascii_name_byte (v ! i) then name_run v track (Suc i) fl
       else if v ! i = 0 then name_run v track (Suc i) (if track then mark_null fl else fl)
       else (i, fl)
     else (i, fl))"
  by pat_completeness auto
termination name_run
  by (relation "measure (\<lambda>(v, track, i, fl). length v - i)") auto

declare name_run.simps [simp del]

lemma name_run_ge: "i \<le> fst (name_run v track i fl)"
proof (induction v track i fl rule: name_run.induct)
  case (1 v track i fl)
  then show ?case
    by (cases "plain_ascii_name_byte (v ! i)"; subst name_run.simps) (auto dest: Suc_leD)
qed

lemma name_run_geD: "name_run v track i fl = (j, fl') \<Longrightarrow> i \<le> j"
  using name_run_ge [of i v track fl] by simp

function name_loop :: "u8 list \<Rightarrow> bool \<Rightarrow> nat \<Rightarrow> token_flags \<Rightarrow> (nat \<times> token_flags) option" where
  "name_loop v track i0 fl0 =
    (if i0 < length v then
       case name_run v track i0 fl0 of (i, fl) \<Rightarrow>
         (case byte_get v i of
            None \<Rightarrow> Some (i, fl)
          | Some b \<Rightarrow>
              if b = 0x5C then
                if is_valid_escape_at v i then
                  (case scan_escape v i of
                     None \<Rightarrow> None
                   | Some j \<Rightarrow> name_loop v track j (if track then mark_escaped v i fl else fl))
                else Some (i, fl)
              else if is_ascii b then Some (i, fl)
              else (case utf8_width_at v i of
                  None \<Rightarrow> None
                | Some w \<Rightarrow> name_loop v track (i + w) (if track then mark_non_ascii fl else fl)))
     else Some (i0, fl0))"
  by pat_completeness auto
termination name_loop
proof (relation "measure (\<lambda>(v, track, i, fl). length v - i)", goal_cases)
  case prems: (2 v track i0 fl0 i fl b j)
  from prems have "i0 \<le> i" "i + 1 < j" by (auto dest: name_run_geD [OF sym] scan_escape_gt)
  then show ?case using prems(1) by simp
next
  case prems: (3 v track i0 fl0 i fl b w)
  from prems have "i0 \<le> i" "0 < w" by (auto dest: name_run_geD [OF sym] simp: utf8_width_at_def utf8_width_pos)
  then show ?case using prems(1) by simp
qed simp

declare name_loop.simps [simp del]

definition scan_name_impl :: "u8 list \<Rightarrow> nat \<Rightarrow> bool \<Rightarrow> (nat \<times> token_flags) option" where
  "scan_name_impl v i track = name_loop v track i flags_ascii"

definition scan_name :: "u8 list \<Rightarrow> nat \<Rightarrow> nat option" where
  "scan_name v i = map_option fst (scan_name_impl v i False)"

definition scan_name_with_flags :: "u8 list \<Rightarrow> nat \<Rightarrow> (nat \<times> token_flags) option" where
  "scan_name_with_flags v i = scan_name_impl v i True"

definition starts_ident_at :: "u8 list \<Rightarrow> nat \<Rightarrow> bool" where
  "starts_ident_at v i = (case byte_get v i of
      None \<Rightarrow> False
    | Some b \<Rightarrow>
        if b = 0x2D then (case byte_get v (i + 1) of
            Some next_byte \<Rightarrow> is_name_start_byte next_byte \<or> next_byte = 0x2D \<or> is_valid_escape_at v (i + 1)
          | None \<Rightarrow> False)
        else if b = 0x5C then is_valid_escape_at v i
        else is_name_start_byte b)"

definition starts_number_at :: "u8 list \<Rightarrow> nat \<Rightarrow> bool" where
  "starts_number_at v i = (case byte_get v i of
      None \<Rightarrow> False
    | Some b \<Rightarrow>
        if b = 0x2B \<or> b = 0x2D then
          byte_is is_ascii_digit v (i + 1) \<or> byte_get v (i + 1) = Some 0x2E \<and> byte_is is_ascii_digit v (i + 2)
        else if b = 0x2E then byte_is is_ascii_digit v (i + 1)
        else is_ascii_digit b)"

definition skip_white_space :: "u8 list \<Rightarrow> nat \<Rightarrow> nat" where
  "skip_white_space = scan_while is_white_space"

definition scan_plain_ascii_name :: "u8 list \<Rightarrow> nat \<Rightarrow> nat" where
  "scan_plain_ascii_name = scan_while plain_ascii_name_byte"

definition raw_name_needs_tokenizer :: "u8 list \<Rightarrow> nat \<Rightarrow> bool" where
  "raw_name_needs_tokenizer v i = byte_is (\<lambda>b. b = 0 \<or> b = 0x5C \<or> \<not> is_ascii b) v i"

definition is_sign :: "u8 \<Rightarrow> bool" where
  "is_sign b = (b = 0x2B \<or> b = 0x2D)"

text \<open>The parts of \<open>scan_number_end\<close>: the sign, the digits with a fraction, the exponent.\<close>

definition number_sign :: "u8 list \<Rightarrow> nat \<Rightarrow> nat" where
  "number_sign v i = (if byte_is is_sign v i then i + 1 else i)"

definition number_fraction :: "u8 list \<Rightarrow> nat \<Rightarrow> nat" where
  "number_fraction v i =
    (if byte_get v i = Some 0x2E \<and> byte_is is_ascii_digit v (i + 1) then scan_while is_ascii_digit v (i + 1) else i)"

definition number_exponent :: "u8 list \<Rightarrow> nat \<Rightarrow> nat" where
  "number_exponent v i =
    (if byte_is (\<lambda>b. b = 0x65 \<or> b = 0x45) v i then
       let exponent_end = number_sign v (i + 1)
       in if byte_is is_ascii_digit v exponent_end then scan_while is_ascii_digit v (exponent_end + 1) else i
     else i)"

definition scan_number_end :: "u8 list \<Rightarrow> nat \<Rightarrow> nat" where
  "scan_number_end v start = number_exponent v (number_fraction v (scan_while is_ascii_digit v (number_sign v start)))"

definition scan_raw_numeric_end :: "u8 list \<Rightarrow> nat \<Rightarrow> nat option" where
  "scan_raw_numeric_end v start =
    (let number_end = scan_number_end v start
     in if byte_get v number_end = Some 0x25 then Some (number_end + 1)
        else if starts_ident_at v number_end then
          let name_end = scan_plain_ascii_name v number_end
          in if name_end = number_end \<or> raw_name_needs_tokenizer v name_end then None else Some name_end
        else if raw_name_needs_tokenizer v number_end then None
        else Some number_end)"

section \<open>Scanning tokens\<close>

type_synonym token_parts = "token_kind \<times> nat \<times> nat \<times> nat \<times> token_flags"
type_synonym memchr = "u8 list \<Rightarrow> u8 list \<Rightarrow> nat option"

definition memchr_ok :: "memchr \<Rightarrow> bool" where
  "memchr_ok mem \<longleftrightarrow> (\<forall>needles hay. mem needles hay =
    (let n = length (takeWhile (\<lambda>b. b \<notin> set needles) hay) in if n < length hay then Some n else None))"

datatype scan_step = Done token_parts | More nat token_flags

text \<open>
  The loops over the bytes: \<open>run_until\<close> is a scalar loop up to a position, whose body returns a token or goes on;
  \<open>chunk_loop\<close> is the outer loop of \<open>scan_string\<close>, \<open>scan_url\<close> and \<open>scan_bad_url\<close>, a scalar loop over at most 32 bytes
  and then a bulk search.
\<close>

partial_function (option) run_until :: "(nat \<Rightarrow> token_flags \<Rightarrow> scan_step option) \<Rightarrow> nat \<Rightarrow> nat \<Rightarrow> token_flags \<Rightarrow> scan_step option" where
  "run_until step limit i fl =
    (if i < limit then (case step i fl of
        None \<Rightarrow> None
      | Some (Done t) \<Rightarrow> Some (Done t)
      | Some (More j fl') \<Rightarrow> run_until step limit j fl')
     else Some (More i fl))"

partial_function (option) chunk_loop :: "(nat \<Rightarrow> token_flags \<Rightarrow> scan_step option) \<Rightarrow> (nat \<Rightarrow> token_flags \<Rightarrow> scan_step option) \<Rightarrow>
    nat \<Rightarrow> nat \<Rightarrow> token_flags \<Rightarrow> token_parts option" where
  "chunk_loop step bulk len i fl =
    (case run_until step (min (i + 32) len) i fl of
        None \<Rightarrow> None
      | Some (Done t) \<Rightarrow> Some t
      | Some (More j fl') \<Rightarrow> (case bulk j fl' of
            None \<Rightarrow> None
          | Some (Done t) \<Rightarrow> Some t
          | Some (More k fl'') \<Rightarrow> chunk_loop step bulk len k fl''))"

definition scan_whitespace :: "u8 list \<Rightarrow> nat \<Rightarrow> token_parts" where
  "scan_whitespace v start = (let i = scan_while is_white_space v start in (WhiteSpace, i, start, i, flags_ascii))"

definition advance :: "u8 list \<Rightarrow> nat \<Rightarrow> token_flags \<Rightarrow> scan_step option" where
  "advance v i fl = map_option (\<lambda>w. More (i + w) fl) (utf8_width_at v i)"

definition comment_step :: "u8 list \<Rightarrow> nat \<Rightarrow> nat \<Rightarrow> token_flags \<Rightarrow> scan_step option" where
  "comment_step v start i fl = do {
     b \<leftarrow> byte_get v i;
     if b = 0x2A \<and> byte_get v (i + 1) = Some 0x2F then Some (Done (Comment, i + 2, start + 2, i, fl))
     else if b < 0x80 then Some (More (i + 1) (mark_byte b fl))
     else advance v i (mark_byte b fl)
   }"

definition scan_comment :: "u8 list \<Rightarrow> nat \<Rightarrow> token_parts option" where
  "scan_comment v start = (case run_until (comment_step v start) (length v) (start + 2) flags_ascii of
      None \<Rightarrow> None
    | Some (Done t) \<Rightarrow> Some t
    | Some (More i fl) \<Rightarrow> Some (BadComment, length v, start + 2, length v, fl))"

text \<open>Behind a backslash: the end of an escaped new line, a carriage return and line feed being one.\<close>

definition skip_escaped_newline :: "u8 list \<Rightarrow> nat \<Rightarrow> nat" where
  "skip_escaped_newline v i =
    (if byte_get v (i + 1) = Some 0x0D \<and> byte_get v (i + 2) = Some 0x0A then i + 3 else i + 2)"

definition string_step :: "u8 list \<Rightarrow> nat \<Rightarrow> u8 \<Rightarrow> nat \<Rightarrow> token_flags \<Rightarrow> scan_step option" where
  "string_step v start quote i fl = do {
     b \<leftarrow> byte_get v i;
     if b = quote then Some (Done (QuotedString, i + 1, start + 1, i, fl))
     else if is_new_line b then Some (Done (BadString, i, start + 1, i, fl))
     else let fl = mark_byte b fl in
       if b = 0x5C then
         let fl = mark_escaped v i fl in
         if byte_is is_new_line v (i + 1) then Some (More (skip_escaped_newline v i) fl)
         else if is_valid_escape_at v i then map_option (\<lambda>j. More j fl) (scan_escape v i)
         else Some (More (i + 1) fl)
       else advance v i fl
   }"

text \<open>The flags of a skipped segment.\<close>

definition mark_segment :: "memchr \<Rightarrow> u8 list \<Rightarrow> token_flags \<Rightarrow> token_flags" where
  "mark_segment mem segment fl =
    (let fl = (if mem [0] segment \<noteq> None then mark_null fl else fl)
     in if \<not> list_all is_ascii segment then mark_non_ascii fl else fl)"

definition unwrap_or :: "nat option \<Rightarrow> nat \<Rightarrow> nat" where
  "unwrap_or r d = (case r of Some n \<Rightarrow> n | None \<Rightarrow> d)"

definition string_bulk :: "memchr \<Rightarrow> u8 list \<Rightarrow> nat \<Rightarrow> u8 \<Rightarrow> nat \<Rightarrow> token_flags \<Rightarrow> scan_step option" where
  "string_bulk mem v start quote i fl =
    (if i = length v then Some (Done (BadString, i, start + 1, i, fl))
     else if length v < i then None
     else
       let rest = drop i v;
           end_rel = unwrap_or (mem [quote, 0x5C, 0x0A] rest) (length rest);
           segment_end = unwrap_or (mem [0x0D, 0x0C] (take end_rel rest)) end_rel;
           fl = mark_segment mem (take segment_end rest) fl;
           i = i + segment_end
       in if segment_end \<noteq> end_rel then Some (Done (BadString, i, start + 1, i, fl)) else Some (More i fl))"

definition scan_string :: "memchr \<Rightarrow> u8 list \<Rightarrow> nat \<Rightarrow> u8 \<Rightarrow> token_parts option" where
  "scan_string mem v start quote =
    chunk_loop (string_step v start quote) (string_bulk mem v start quote) (length v) (start + 1) flags_ascii"

definition bad_url_step :: "u8 list \<Rightarrow> nat \<Rightarrow> nat \<Rightarrow> token_flags \<Rightarrow> scan_step option" where
  "bad_url_step v content_start i fl = do {
     b \<leftarrow> byte_get v i;
     let fl = mark_byte b fl;
     if b = 0x29 then Some (Done (BadUrl, i + 1, content_start, i + 1, fl))
     else if b = 0x5C then
       let fl = mark_escaped v i fl in
       if is_valid_escape_at v i then map_option (\<lambda>j. More j fl) (scan_escape v i)
       else if byte_is is_new_line v (i + 1) then Some (More (skip_escaped_newline v i) fl)
       else Some (More (i + 1) fl)
     else advance v i fl
   }"

definition bad_url_bulk :: "memchr \<Rightarrow> u8 list \<Rightarrow> nat \<Rightarrow> nat \<Rightarrow> token_flags \<Rightarrow> scan_step option" where
  "bad_url_bulk mem v content_start i fl =
    (if i = length v then Some (Done (BadUrl, i, content_start, i, fl))
     else if length v < i then None
     else
       let rest = drop i v;
           rel = unwrap_or (mem [0x29, 0x5C] rest) (length rest)
       in Some (More (i + rel) (mark_segment mem (take rel rest) fl)))"

definition scan_bad_url :: "memchr \<Rightarrow> u8 list \<Rightarrow> nat \<Rightarrow> nat \<Rightarrow> token_flags \<Rightarrow> token_parts option" where
  "scan_bad_url mem v i content_start fl =
    chunk_loop (bad_url_step v content_start) (bad_url_bulk mem v content_start) (length v) i fl"

definition url_bad_byte :: "u8 \<Rightarrow> bool" where
  "url_bad_byte b = (b = 0x22 \<or> b = 0x27 \<or> b = 0x28 \<or> is_non_printable b)"

text \<open>The body of the loop of \<open>scan_url\<close>; \<open>bad\<close> is \<open>scan_bad_url\<close> from a position.\<close>

definition url_step :: "(nat \<Rightarrow> token_flags \<Rightarrow> token_parts option) \<Rightarrow> u8 list \<Rightarrow> nat \<Rightarrow> nat \<Rightarrow> token_flags \<Rightarrow> scan_step option" where
  "url_step bad v content_start i fl = do {
     b \<leftarrow> byte_get v i;
     if b = 0x29 then Some (Done (Url, i + 1, content_start, i, fl))
     else if is_white_space b then
       let close = skip_white_space v i in
       if byte_get v close = Some 0x29 then Some (Done (Url, close + 1, content_start, i, fl))
       else if close = length v then Some (Done (Url, close, content_start, i, fl))
       else map_option Done (bad close fl)
     else let fl = mark_byte b fl in
       if url_bad_byte b then map_option Done (bad i fl)
       else if b = 0x5C then
         let fl = mark_escaped v i fl in
         if is_valid_escape_at v i then map_option (\<lambda>j. More j fl) (scan_escape v i)
         else if byte_is is_new_line v (i + 1) then Some (More (skip_escaped_newline v i) fl)
         else map_option Done (bad i fl)
       else advance v i fl
   }"

definition url_stop_byte :: "u8 \<Rightarrow> bool" where
  "url_stop_byte b = (b \<le> 0x20 \<or> b = 0x22 \<or> b = 0x27 \<or> b = 0x28 \<or> b = 0x5C \<or> b = 0x7F)"

definition url_bulk :: "memchr \<Rightarrow> u8 list \<Rightarrow> nat \<Rightarrow> nat \<Rightarrow> token_flags \<Rightarrow> scan_step option" where
  "url_bulk mem v content_start i fl =
    (if i = length v then Some (Done (Url, length v, content_start, length v, fl))
     else if length v < i then None
     else
       let rest = drop i v;
           close_rel = unwrap_or (mem [0x29] rest) (length rest);
           segment = take close_rel rest;
           fl = (if \<not> list_all is_ascii segment then mark_non_ascii fl else fl);
           offset = length (takeWhile (\<lambda>b. \<not> url_stop_byte b) segment)
       in if offset < length segment then Some (More (i + offset) fl)
          else if close_rel = length rest then Some (Done (Url, length v, content_start, length v, fl))
          else Some (Done (Url, i + close_rel + 1, content_start, i + close_rel, fl)))"

definition scan_url :: "memchr \<Rightarrow> u8 list \<Rightarrow> nat \<Rightarrow> token_parts option" where
  "scan_url mem v content_start =
    chunk_loop (url_step (\<lambda>i fl. scan_bad_url mem v i content_start fl) v content_start) (url_bulk mem v content_start) (length v) content_start flags_ascii"

datatype function_kind = FkOther | FkUrl | FkImageSet | FkLayer | FkSupports | FkPaletteMix | FkVar | FkLocal | FkGlobal | FkDashed

definition classify :: "u8 list \<Rightarrow> token_flags \<Rightarrow> function_kind" where
  "classify name fl =
    (let normalized = (if tf_escape fl then decode_css_keyword name else lowercase_ascii_keyword name);
         otherwise = (if starts_with name (bytes ''--'') then FkDashed else FkOther)
     in case normalized of
       None \<Rightarrow> otherwise
     | Some keyword \<Rightarrow>
         if keyword = bytes ''url'' then FkUrl
         else if keyword = bytes ''image-set'' then FkImageSet
         else if keyword = bytes ''layer'' then FkLayer
         else if keyword = bytes ''supports'' then FkSupports
         else if keyword = bytes ''palette-mix'' then FkPaletteMix
         else if keyword = bytes ''var'' then FkVar
         else if keyword = bytes ''local'' then FkLocal
         else if keyword = bytes ''global'' then FkGlobal
         else if strip_vendor_prefix keyword = Some (bytes ''image-set'') then FkImageSet
         else otherwise)"

definition is_dependency :: "function_kind \<Rightarrow> bool" where
  "is_dependency k = (k = FkUrl \<or> k = FkImageSet \<or> k = FkVar \<or> k = FkDashed)"

text \<open>The slice of the bytes from \<open>i\<close> to \<open>j\<close>.\<close>

definition slice_bytes :: "u8 list \<Rightarrow> nat \<Rightarrow> nat \<Rightarrow> u8 list" where
  "slice_bytes v i j = drop i (take j v)"

definition scan_ident_like :: "memchr \<Rightarrow> u8 list \<Rightarrow> nat \<Rightarrow> (token_parts \<times> function_kind) option" where
  "scan_ident_like mem v start = do {
     (name_end, name_flags) \<leftarrow> scan_name_with_flags v start;
     if byte_get v name_end \<noteq> Some 0x28 then Some ((Ident, name_end, start, name_end, name_flags), FkOther)
     else do {
       let open_end = name_end + 1;
       let k = classify (slice_bytes v start name_end) name_flags;
       let content_start = skip_white_space v open_end;
       if k = FkUrl \<and> byte_get v content_start \<noteq> Some 0x22 \<and> byte_get v content_start \<noteq> Some 0x27 then do {
         (kind, end_pos, value_start, value_end, url_flags) \<leftarrow> scan_url mem v content_start;
         Some ((kind, end_pos, value_start, value_end, flags_merge name_flags url_flags), k)
       } else Some ((Function, open_end, start, name_end, name_flags), k)
     }
   }"

definition scan_numeric :: "u8 list \<Rightarrow> nat \<Rightarrow> token_parts option" where
  "scan_numeric v start =
    (let number_end = scan_number_end v start
     in if byte_get v number_end = Some 0x25 then Some (Percentage, number_end + 1, start, number_end + 1, flags_ascii)
        else if starts_ident_at v number_end then
          map_option (\<lambda>(name_end, fl). (Dimension, name_end, start, name_end, fl)) (scan_name_with_flags v number_end)
        else Some (Number, number_end, start, number_end, flags_ascii))"

section \<open>The tokenizer\<close>

record lexer =
  lx_value :: "u8 list"
  lx_scan_pos :: u32
  lx_visited :: "(u8 list \<times> css_range) list"
  lx_function_kind :: function_kind

definition lexer_new :: "u8 list \<Rightarrow> lexer option" where
  "lexer_new v =
    (if length v < 2 ^ 32 then Some \<lparr>lx_value = v, lx_scan_pos = 0, lx_visited = [], lx_function_kind = FkOther\<rparr> else None)"

definition source_end :: "lexer \<Rightarrow> u32" where
  "source_end lx = of_nat (length (lx_value lx))"

definition byte_at :: "lexer \<Rightarrow> u32 \<Rightarrow> u8 option" where
  "byte_at lx pos = byte_get (lx_value lx) (unat pos)"

definition could_start_ident_at :: "lexer \<Rightarrow> u32 \<Rightarrow> bool" where
  "could_start_ident_at lx pos =
    (case byte_at lx pos of Some b \<Rightarrow> b = 0x2D \<or> b = 0x5C \<or> is_name_start_byte b | None \<Rightarrow> False)"

definition lexer_slice :: "lexer \<Rightarrow> u32 \<Rightarrow> u32 \<Rightarrow> u8 list option" where
  "lexer_slice lx start end_pos =
    (if end_pos < start \<or> length (lx_value lx) < unat end_pos then None
     else Some (slice_bytes (lx_value lx) (unat start) (unat end_pos)))"

definition is_char_boundary :: "u8 list \<Rightarrow> nat \<Rightarrow> bool" where
  "is_char_boundary v i = (i = 0 \<or> i = length v \<or> i < length v \<and> \<not> (0x80 \<le> v ! i \<and> v ! i < 0xC0))"

definition slice_range :: "u8 list \<Rightarrow> css_range \<Rightarrow> u8 list option" where
  "slice_range v r =
    (if range_end r < range_start r \<or> length v < unat (range_end r) \<or> \<not> is_char_boundary v (unat (range_start r)) \<or>
        \<not> is_char_boundary v (unat (range_end r)) then None
     else Some (slice_bytes v (unat (range_start r)) (unat (range_end r))))"

definition visit_ident :: "token_kind \<Rightarrow> css_range \<Rightarrow> lexer \<Rightarrow> lexer option" where
  "visit_ident kind r lx =
    (if kind \<noteq> Ident \<and> kind \<noteq> Function then Some lx
     else if range_end r < range_start r \<or> length (lx_value lx) < unat (range_end r) then None
     else Some (lx\<lparr>lx_visited := lx_visited lx @ [(slice_bytes (lx_value lx) (unat (range_start r)) (unat (range_end r)), r)]\<rparr>))"

definition single :: "token_kind \<Rightarrow> nat \<Rightarrow> token_parts" where
  "single kind start = (kind, start + 1, start, start + 1, flags_ascii)"

definition matcher :: "u8 list \<Rightarrow> token_kind \<Rightarrow> nat \<Rightarrow> token_parts" where
  "matcher v kind start =
    (if byte_get v (start + 1) = Some 0x3D then (kind, start + 2, start, start + 2, flags_ascii) else single Delim start)"

definition other_kind :: "token_parts option \<Rightarrow> (token_parts \<times> function_kind) option" where
  "other_kind = map_option (\<lambda>t. (t, FkOther))"

definition named :: "u8 list \<Rightarrow> token_kind \<Rightarrow> nat \<Rightarrow> token_parts option" where
  "named v kind start =
    map_option (\<lambda>(name_end, fl). (kind, name_end, start + 1, name_end, fl)) (scan_name_with_flags v (start + 1))"

text \<open>The match of \<open>next_token_without_visit\<close> on the first byte.\<close>

definition scan_token :: "memchr \<Rightarrow> u8 list \<Rightarrow> nat \<Rightarrow> u8 \<Rightarrow> (token_parts \<times> function_kind) option" where
  "scan_token mem v start b =
    (if is_white_space b then other_kind (Some (scan_whitespace v start))
     else if b = 0x22 \<or> b = 0x27 then other_kind (scan_string mem v start b)
     else if b = 0x23 then
       other_kind (if starts_ident_at v (start + 1) then named v IdHash start
         else if byte_is (\<lambda>c. is_ascii_digit c \<or> c = 0x2D) v (start + 1) then named v Hash start
         else Some (single Delim start))
     else if b = 0x28 then other_kind (Some (single LeftParenthesis start))
     else if b = 0x29 then other_kind (Some (single RightParenthesis start))
     else if b = 0x5B then other_kind (Some (single LeftSquareBracket start))
     else if b = 0x5D then other_kind (Some (single RightSquareBracket start))
     else if b = 0x7B then other_kind (Some (single LeftCurlyBracket start))
     else if b = 0x7D then other_kind (Some (single RightCurlyBracket start))
     else if b = 0x3A then other_kind (Some (single Colon start))
     else if b = 0x3B then other_kind (Some (single Semicolon start))
     else if b = 0x2C then other_kind (Some (single Comma start))
     else if b = 0x2B \<or> b = 0x2E then
       other_kind (if starts_number_at v start then scan_numeric v start else Some (single Delim start))
     else if b = 0x2D then
       (if starts_number_at v start then other_kind (scan_numeric v start)
        else if starts_ident_at v start then scan_ident_like mem v start
        else other_kind (Some (single Delim start)))
     else if b = 0x2F then
       other_kind (if byte_get v (start + 1) = Some 0x2A then scan_comment v start else Some (single Delim start))
     else if b = 0x40 then
       other_kind (if starts_ident_at v (start + 1) then named v AtKeyword start else Some (single Delim start))
     else if b = 0x5C then
       (if is_valid_escape_at v start then scan_ident_like mem v start else other_kind (Some (single Delim start)))
     else if is_ascii_digit b then other_kind (scan_numeric v start)
     else if b = 0x24 then other_kind (Some (matcher v SuffixMatch start))
     else if b = 0x5E then other_kind (Some (matcher v PrefixMatch start))
     else if b = 0x7C then other_kind (Some (matcher v DashMatch start))
     else if b = 0x7E then other_kind (Some (matcher v IncludeMatch start))
     else if b = 0x2A then other_kind (Some (matcher v SubstringMatch start))
     else if starts_ident_at v start then scan_ident_like mem v start
     else other_kind (Some (single Delim start)))"

definition next_token_without_visit :: "memchr \<Rightarrow> lexer \<Rightarrow> (token \<times> lexer) option" where
  "next_token_without_visit mem lx =
    (let lx = lx\<lparr>lx_function_kind := FkOther\<rparr>;
         v = lx_value lx;
         start = unat (lx_scan_pos lx);
         len = of_nat (length v);
         empty_range = \<lparr>range_start = len, range_end = len\<rparr>
     in case byte_get v start of
       None \<Rightarrow> Some (token_new Eof empty_range empty_range, lx\<lparr>lx_scan_pos := len\<rparr>)
     | Some b \<Rightarrow> do {
         ((kind, end_pos, value_start, value_end, fl), k) \<leftarrow> scan_token mem v start b;
         Some (\<lparr>tok_kind = kind, tok_range = \<lparr>range_start = of_nat start, range_end = of_nat end_pos\<rparr>,
             tok_value_range = \<lparr>range_start = of_nat value_start, range_end = of_nat value_end\<rparr>, tok_flags = fl\<rparr>,
           lx\<lparr>lx_scan_pos := of_nat end_pos, lx_function_kind := k\<rparr>)
       })"

definition next_token :: "memchr \<Rightarrow> lexer \<Rightarrow> (token \<times> lexer) option" where
  "next_token mem lx = do {
     (t, lx) \<leftarrow> next_token_without_visit mem lx;
     lx \<leftarrow> visit_ident (tok_kind t) (tok_value_range t) lx;
     Some (t, lx)
   }"

end
