(* ===== verification/Css_Correct.thy ===== *)
theory Css_Correct
  imports Css_Tokens
begin

text \<open>
  Strings, comments, URLs and the whole tokenizer (\<open>crates/css-module-lexer/src/lexer.rs\<close>): the loop bodies are sound, the
  bulk searches agree with the scalar loops, and \<open>next_token\<close> cuts a valid text into tokens.
\<close>

section \<open>The loop invariant\<close>

definition scan_inv :: "u8 list \<Rightarrow> bool \<Rightarrow> nat \<Rightarrow> nat \<Rightarrow> token_flags \<Rightarrow> bool" where
  "scan_inv v a s i fl \<longleftrightarrow> boundary v i \<and> s \<le> i \<and> (tf_ascii fl \<longleftrightarrow> a \<and> ascii_on v s i)"

lemma scan_invD: "scan_inv v a s i fl \<Longrightarrow> boundary v i" "scan_inv v a s i fl \<Longrightarrow> s \<le> i" "scan_inv v a s i fl \<Longrightarrow> i \<le> length v"
  "scan_inv v a s i fl \<Longrightarrow> tf_ascii fl \<longleftrightarrow> a \<and> ascii_on v s i"
  by (auto simp: scan_inv_def boundary_le)

lemma inv_start: "boundary v s \<Longrightarrow> scan_inv v (tf_ascii fl) s s fl"
  by (simp add: scan_inv_def)

lemma inv_start_ascii: "boundary v s \<Longrightarrow> scan_inv v True s s flags_ascii"
  by (simp add: scan_inv_def)

lemma inv_more: "scan_inv v a s i fl \<Longrightarrow> i \<le> j \<Longrightarrow> boundary v j \<Longrightarrow> (tf_ascii fl' \<longleftrightarrow> tf_ascii fl \<and> ascii_on v i j) \<Longrightarrow> scan_inv v a s j fl'"
  using ascii_on_split [of s i j v] by (auto simp: scan_inv_def)

lemma advance_sound:
  assumes "utf8 v" "scan_inv v a s i fl" "i < length v"
  shows "\<exists>j. advance v i (mark_byte (v ! i) fl) = Some (More j (mark_byte (v ! i) fl)) \<and> i < j \<and> scan_inv v a s j (mark_byte (v ! i) fl)"
proof -
  let ?j = "i + utf8_width (v ! i)"
  have "scan_inv v a s ?j (mark_byte (v ! i) fl)"
    using char_ascii [OF assms(1) scan_invD(1) [OF assms(2)] assms(3)] boundary_advance [OF assms(1) scan_invD(1) [OF assms(2)] assms(3)]
    by (intro inv_more [OF assms(2)]) (simp_all add: mark_byte_ascii)
  then show ?thesis using assms(3) utf8_width_pos [of "v ! i"] by (simp add: advance_def utf8_width_at_def byte_get_def)
qed

lemma ascii_byte_inv:
  assumes "utf8 v" "scan_inv v a s i fl" "i < length v" "is_ascii (v ! i)" "tf_ascii fl' = tf_ascii fl"
  shows "scan_inv v a s (i + 1) fl'"
  using assms boundary_ascii [OF assms(1,3,4)] by (intro inv_more [OF assms(2)]) simp_all

text \<open>The three cases behind a backslash.\<close>

lemma escape_sound:
  assumes u: "utf8 v" and I: "scan_inv v a s i fl" and len: "i < length v" and b: "v ! i = 0x5C" and fl': "fl' = mark_escaped v i (mark_byte 0x5C fl)"
  shows "byte_is is_new_line v (i + 1) \<Longrightarrow> \<not> is_valid_escape_at v i \<and> i < skip_escaped_newline v i \<and> scan_inv v a s (skip_escaped_newline v i) fl'"
    and "is_valid_escape_at v i \<Longrightarrow> \<exists>j. scan_escape v i = Some j \<and> i < j \<and> scan_inv v a s j fl'"
    and "\<not> byte_is is_new_line v (i + 1) \<Longrightarrow> \<not> is_valid_escape_at v i \<Longrightarrow> scan_inv v a s (i + 1) fl'"
proof -
  have a: "is_ascii (v ! i)" by (simp add: b is_ascii_def)
  have mb: "tf_ascii (mark_byte 0x5C fl) = tf_ascii fl" by (simp add: mark_byte_ascii) (simp add: is_ascii_def)
  have one: "scan_inv v a s (i + 1) fl" by (rule ascii_byte_inv [OF u I len a refl])
  {
    assume n: "byte_is is_new_line v (i + 1)"
    then have n': "i + 1 < length v" "is_ascii (v ! (i + 1))" using ascii_classes(5) by (auto simp: byte_is_iff)
    have f: "tf_ascii fl' = tf_ascii fl" unfolding fl' using mark_escaped_ascii [OF n'(1)] n'(2) mb by simp
    have two: "scan_inv v a s (i + 2) fl'" using ascii_byte_inv [OF u one n' f] by simp
    have three: "scan_inv v a s (i + 3) fl'" if "byte_get v (i + 2) = Some 0x0A"
      using ascii_byte_inv [OF u two _ _ refl] that by (simp add: byte_get_def is_ascii_def numeral_3_eq_3 split: if_splits)
    show "\<not> is_valid_escape_at v i \<and> i < skip_escaped_newline v i \<and> scan_inv v a s (skip_escaped_newline v i) fl'"
      using n two three by (auto simp: is_valid_escape_at_def byte_is_iff skip_escaped_newline_def)
  next
    assume e: "is_valid_escape_at v i"
    obtain j where j: "scan_escape v i = Some j" "i + 1 < j" "boundary v j" "ascii_on v i j \<longleftrightarrow> is_ascii (v ! (i + 1))"
      using scan_escape_spec [OF u e] by blast
    have "i + 1 < length v" using valid_escapeD [OF e] by simp
    then have "scan_inv v a s j fl'" unfolding fl' using j mb by (intro inv_more [OF I]) (simp_all add: mark_escaped_ascii)
    then show "\<exists>j. scan_escape v i = Some j \<and> i < j \<and> scan_inv v a s j fl'" using j by auto
  next
    assume n: "\<not> byte_is is_new_line v (i + 1)" "\<not> is_valid_escape_at v i"
    then have "\<not> i + 1 < length v" using len b by (auto simp: is_valid_escape_at_def byte_is_iff byte_get_def)
    then have "tf_ascii fl' = tf_ascii fl" unfolding fl' using mb by (simp add: mark_escaped_def Let_def byte_is_iff)
    then show "scan_inv v a s (i + 1) fl'" by (rule ascii_byte_inv [OF u I len a])
  }
qed

text \<open>A token of the text from \<open>start\<close>.\<close>

definition token_ok :: "u8 list \<Rightarrow> nat \<Rightarrow> token_parts \<Rightarrow> bool" where
  "token_ok v start t = (case t of (k, e, vs, ve, fl) \<Rightarrow>
     start < e \<and> boundary v e \<and> start \<le> vs \<and> vs \<le> ve \<and> ve \<le> e \<and> boundary v vs \<and> boundary v ve \<and>
     (tf_ascii fl \<longleftrightarrow> ascii_on v start e) \<and> k \<noteq> Eof)"

text \<open>An invariant that starts at \<open>s\<close>, behind ASCII bytes from \<open>start\<close>, gives a token that ends with ASCII bytes.\<close>

lemma token_okI:
  assumes "scan_inv v True s i fl" "ascii_on v start s" "start < s" "boundary v s" "i \<le> e" "boundary v e" "ascii_on v i e" "k \<noteq> Eof"
  shows "token_ok v start (k, e, s, i, fl)"
  using assms ascii_on_split [of start s i v] ascii_on_split [of start i e v] by (auto simp: token_ok_def scan_inv_def)

section \<open>Comments\<close>

lemma comment_step_sound:
  assumes u: "utf8 v" and c: "ascii_on v start (start + 2)" "boundary v (start + 2)"
  shows "step_sound (scan_inv v True (start + 2)) (token_ok v start) (comment_step v start) (length v)"
  unfolding step_sound_def
proof (intro allI impI)
  fix i fl
  assume I: "scan_inv v True (start + 2) i fl" and len: "i < length v"
  show "(\<exists>t. comment_step v start i fl = Some (Done t) \<and> token_ok v start t) \<or>
    (\<exists>j fl'. comment_step v start i fl = Some (More j fl') \<and> i < j \<and> scan_inv v True (start + 2) j fl')"
  proof (cases "v ! i = 0x2A \<and> byte_get v (i + 1) = Some 0x2F")
    case True
    have bytes: "is_ascii (v ! i)" "i + 1 < length v" "is_ascii (v ! (i + 1))"
      using True by (auto simp: is_ascii_def byte_get_def split: if_splits)
    have "scan_inv v True (start + 2) (i + 1) fl" by (rule ascii_byte_inv [OF u I len bytes(1) refl])
    from ascii_byte_inv [OF u this bytes(2,3) refl] have "scan_inv v True (start + 2) (i + 2) fl" by simp
    moreover have "ascii_on v i (i + 2)" using bytes by (auto simp: ascii_on_def less_Suc_eq)
    ultimately have "token_ok v start (Comment, i + 2, start + 2, i, fl)"
      using c scan_invD(1) by (intro token_okI [OF I]) auto
    then show ?thesis using True len by (simp add: comment_step_def byte_get_def)
  next
    case False
    show ?thesis
    proof (cases "v ! i < 0x80")
      case True
      then have a: "is_ascii (v ! i)" by (simp add: is_ascii_def)
      have "scan_inv v True (start + 2) (i + 1) (mark_byte (v ! i) fl)"
        by (rule ascii_byte_inv [OF u I len a]) (simp add: mark_byte_ascii a)
      then show ?thesis using False True len by (auto simp: comment_step_def byte_get_def)
    next
      case wide: False
      then show ?thesis using False len advance_sound [OF u I len] by (auto simp: comment_step_def byte_get_def)
    qed
  qed
qed

lemma scan_comment_ok:
  assumes u: "utf8 v" and b: "boundary v start" "start < length v" "v ! start = 0x2F" "byte_get v (start + 1) = Some 0x2A"
  shows "\<exists>t. scan_comment v start = Some t \<and> token_ok v start t"
proof -
  have len: "start + 1 < length v" "v ! (start + 1) = 0x2A" using b(4) by (auto simp: byte_get_def split: if_splits)
  have c: "ascii_on v start (start + 2)" using b(3) len by (auto simp: ascii_on_def less_Suc_eq is_ascii_def)
  have bd: "boundary v (start + 2)" using boundary_ascii [OF u len(1)] len(2) by (simp add: is_ascii_def)
  note r = run_until_sound [OF comment_step_sound [OF u c bd] inv_start_ascii [OF bd]]
  from r show ?thesis
  proof (elim disjE exE conjE)
    fix j fl'
    assume j: "run_until (comment_step v start) (length v) (start + 2) flags_ascii = Some (More j fl')" "scan_inv v True (start + 2) j fl'" "length v \<le> j"
    then have "j = length v" using scan_invD(3) by fastforce
    then have "token_ok v start (BadComment, length v, start + 2, length v, fl')"
      using j(2) c bd boundary_length by (intro token_okI) simp_all
    then show ?thesis using j(1) by (simp add: scan_comment_def)
  qed (simp add: scan_comment_def)
qed

section \<open>Strings\<close>

definition is_quote :: "u8 \<Rightarrow> bool" where
  "is_quote q = (q = 0x22 \<or> q = 0x27)"

lemma string_step_sound:
  assumes u: "utf8 v" and q: "is_quote quote" and c: "ascii_on v start (start + 1)" "boundary v (start + 1)"
  shows "step_sound (scan_inv v True (start + 1)) (token_ok v start) (string_step v start quote) (length v)"
  unfolding step_sound_def
proof (intro allI impI)
  fix i fl
  assume I: "scan_inv v True (start + 1) i fl" and len: "i < length v"
  show "(\<exists>t. string_step v start quote i fl = Some (Done t) \<and> token_ok v start t) \<or>
    (\<exists>j fl'. string_step v start quote i fl = Some (More j fl') \<and> i < j \<and> scan_inv v True (start + 1) j fl')"
  proof (cases "v ! i = quote \<or> is_new_line (v ! i)")
    case True
    have "v ! i = quote \<Longrightarrow> is_ascii (v ! i)" using q by (auto simp: is_quote_def is_ascii_def)
    then have "token_ok v start (QuotedString, i + 1, start + 1, i, fl)" if "v ! i = quote"
      using c that boundary_ascii [OF u len] by (intro token_okI [OF I]) simp_all
    moreover have "token_ok v start (BadString, i, start + 1, i, fl)"
      using c scan_invD(1) [OF I] by (intro token_okI [OF I]) simp_all
    ultimately show ?thesis using True len by (auto simp: string_step_def byte_get_def)
  next
    case False
    show ?thesis
    proof (cases "v ! i = 0x5C")
      case True
      note e = escape_sound [OF u I len True refl]
      consider "byte_is is_new_line v (i + 1)" | "\<not> byte_is is_new_line v (i + 1)" "is_valid_escape_at v i"
        | "\<not> byte_is is_new_line v (i + 1)" "\<not> is_valid_escape_at v i" by blast
      then show ?thesis
        using e False True len by cases (auto simp: string_step_def byte_get_def Let_def)
    next
      case plain: False
      then show ?thesis using False len advance_sound [OF u I len] by (auto simp: string_step_def byte_get_def Let_def)
    qed
  qed
qed

text \<open>A bulk search is a scalar search.\<close>

lemma takeWhile_scan: "i \<le> length v \<Longrightarrow> i + length (takeWhile P (drop i v)) = scan_while P v i"
proof (induction P v i rule: scan_while.induct)
  case (1 P v i)
  show ?case
  proof (cases "i < length v \<and> P (v ! i)")
    case True
    then have "drop i v = v ! i # drop (Suc i) v" by (simp add: Cons_nth_drop_Suc)
    then show ?thesis using 1 True by (simp add: scan_while.simps [of P v i])
  next
    case False
    then show ?thesis using 1(2) Cons_nth_drop_Suc [of i v] by (cases "i < length v") (auto simp: scan_while.simps [of P v i] scan_while.simps [of P v "length v"] takeWhile_eq_Nil_iff hd_drop_conv_nth)
  qed
qed

lemma takeWhile_both: "takeWhile R (takeWhile P xs) = takeWhile (\<lambda>b. P b \<and> R b) xs"
  by (induction xs) auto

lemma take_scan: "i \<le> length v \<Longrightarrow> take (length (takeWhile P (drop i v))) (drop i v) = slice_bytes v i (scan_while P v i)"
  by (simp add: takeWhile_scan [symmetric] slice_bytes_def take_drop add.commute)

lemma fold_mark_byte_ascii: "tf_ascii (fold mark_byte seg fl) \<longleftrightarrow> tf_ascii fl \<and> list_all is_ascii seg"
  by (induction seg arbitrary: fl) (auto simp: mark_byte_ascii)

lemma slice_ascii: "j \<le> length v \<Longrightarrow> list_all is_ascii (slice_bytes v i j) \<longleftrightarrow> ascii_on v i j"
proof (cases "i \<le> j")
  case True
  assume j: "j \<le> length v"
  then have "length (slice_bytes v i j) = j - i" by (simp add: slice_bytes_def)
  then show ?thesis using True j
    by (auto simp: list_all_length ascii_on_def slice_bytes_def) (metis add_diff_inverse_nat diff_less_mono le_add_diff_inverse)
qed (auto simp: slice_bytes_def ascii_on_def)

lemma scan_stops_on_boundary:
  assumes "i \<le> length v" "\<And>b. \<not> P b \<Longrightarrow> is_ascii b"
  shows "boundary v (scan_while P v i)"
  using scan_while_spec(2) [of i v P] scan_while_spec(4) [of P v i] assms by (auto simp: boundary_def dest: ascii_not_cont)

lemma skip_sound:
  assumes u: "utf8 v" and I: "scan_inv v a s i fl" and P: "\<And>b. \<not> P b \<Longrightarrow> is_ascii b"
  shows "scan_inv v a s (scan_while P v i) (fold mark_byte (slice_bytes v i (scan_while P v i)) fl)"
proof -
  have "scan_while P v i \<le> length v" using scan_while_spec(2) scan_invD(3) [OF I] by blast
  then show ?thesis
    using scan_stops_on_boundary [OF scan_invD(3) [OF I] P] scan_while_spec(1) [of i P v]
    by (intro inv_more [OF I]) (simp_all add: fold_mark_byte_ascii slice_ascii)
qed

lemma skip_run:
  assumes u: "utf8 v" and I: "scan_inv v a s i fl" and P: "\<And>b. \<not> P b \<Longrightarrow> is_ascii b"
    and ordinary: "\<And>k f. i \<le> k \<Longrightarrow> k < length v \<Longrightarrow> P (v ! k) \<Longrightarrow> step k f = advance v k (mark_byte (v ! k) f)"
  shows "run_until step (length v) i fl =
    run_until step (length v) (scan_while P v i) (fold mark_byte (slice_bytes v i (scan_while P v i)) fl)"
proof (rule run_until_skip [OF u scan_invD(1) [OF I]])
  show "boundary v (scan_while P v i)" by (rule scan_stops_on_boundary [OF scan_invD(3) [OF I] P])
  show "i \<le> scan_while P v i" by (rule scan_while_spec)
  show "scan_while P v i \<le> length v" using scan_while_spec(2) scan_invD(3) [OF I] by blast
  fix k f
  assume "i \<le> k" "k < scan_while P v i"
  then show "step k f = advance v k (mark_byte (v ! k) f)" using scan_while_spec(3) [of i k P v] ordinary by blast
qed

lemma scan_while_unique:
  assumes "i \<le> j" "\<And>k. i \<le> k \<Longrightarrow> k < j \<Longrightarrow> k < length v \<and> P (v ! k)" "\<not> (j < length v \<and> P (v ! j))"
  shows "scan_while P v i = j"
proof (rule antisym)
  show "scan_while P v i \<le> j"
    using scan_while_spec(3) [of i j P v] assms(1,3) by (meson not_le)
  show "j \<le> scan_while P v i"
    using scan_while_spec(1) [of i P v] scan_while_spec(4) [of P v i] assms(2) by (meson not_le)
qed

abbreviation string_ordinary :: "u8 \<Rightarrow> u8 \<Rightarrow> bool" where
  "string_ordinary quote b \<equiv> b \<notin> set [quote, 0x5C, 0x0A]"

lemma string_bulk_eq:
  assumes m: "memchr_ok mem" and i: "i < length v"
  shows "string_bulk mem v start quote i fl =
    (let e = scan_while (string_ordinary quote) v i;
         j = scan_while (\<lambda>b. string_ordinary quote b \<and> b \<notin> set [0x0D, 0x0C]) v i;
         fl = fold mark_byte (slice_bytes v i j) fl
     in if j \<noteq> e then Some (Done (BadString, j, start + 1, j, fl)) else Some (More j fl))"
proof -
  let ?rest = "drop i v" and ?P = "string_ordinary quote" and ?R = "\<lambda>b. b \<notin> set [0x0D, 0x0C]"
  define e where "e = length (takeWhile ?P ?rest)"
  have e: "unwrap_or (mem [quote, 0x5C, 0x0A] ?rest) (length ?rest) = e" unfolding e_def by (rule memchr_unwrap [OF m])
  have te: "take e ?rest = takeWhile ?P ?rest" unfolding e_def by (metis takeWhile_eq_take)
  define n where "n = length (takeWhile (\<lambda>b. ?P b \<and> ?R b) ?rest)"
  have "unwrap_or (mem [0x0D, 0x0C] (take e ?rest)) e = length (takeWhile ?R (take e ?rest))"
    using memchr_unwrap [OF m, of "[0x0D, 0x0C]" "take e ?rest"] unfolding te by (simp add: e_def)
  then have n: "unwrap_or (mem [0x0D, 0x0C] (take e ?rest)) e = n" unfolding te n_def takeWhile_both .
  have s: "i + e = scan_while ?P v i" "i + n = scan_while (\<lambda>b. ?P b \<and> ?R b) v i"
    using i unfolding e_def n_def by (simp_all only: takeWhile_scan less_imp_le)
  have t: "take n ?rest = slice_bytes v i (scan_while (\<lambda>b. ?P b \<and> ?R b) v i)" using i unfolding n_def by (intro take_scan) simp
  show ?thesis
    using i unfolding string_bulk_def Let_def e n t mark_segment_fold [OF m] s [symmetric] by simp
qed

lemma string_bulk_agrees:
  assumes u: "utf8 v" and m: "memchr_ok mem" and q: "is_quote quote"
  shows "bulk_agrees (scan_inv v a s) (string_step v start quote) (\<lambda>i fl. (BadString, i, start + 1, i, fl))
    (string_bulk mem v start quote) (length v)"
  unfolding bulk_agrees_def
proof (intro allI impI)
  fix i fl
  assume I: "scan_inv v a s i fl"
  let ?step = "string_step v start quote" and ?fin = "\<lambda>i fl. (BadString, i, start + 1, i, fl)"
  let ?P = "\<lambda>b. string_ordinary quote b \<and> b \<notin> set [0x0D, 0x0C]"
  define j where "j = scan_while ?P v i"
  define fl' where "fl' = fold mark_byte (slice_bytes v i j) fl"
  have P: "is_ascii b" if "\<not> ?P b" for b using that q by (auto simp: is_quote_def is_ascii_def)
  have inv: "scan_inv v a s j fl'" unfolding j_def fl'_def by (rule skip_sound [OF u I P])
  have same: "run_until ?step (length v) i fl = run_until ?step (length v) j fl'"
    unfolding j_def fl'_def by (rule skip_run [OF u I P]) (auto simp: string_step_def byte_get_def is_new_line_def Let_def)
  show "(\<exists>t. string_bulk mem v start quote i fl = Some (Done t) \<and> scalar_loop ?step ?fin (length v) i fl = Some t) \<or>
    (\<exists>j fl'. string_bulk mem v start quote i fl = Some (More j fl') \<and> i < length v \<and> i \<le> j \<and> scan_inv v a s j fl' \<and>
      scalar_loop ?step ?fin (length v) i fl = scalar_loop ?step ?fin (length v) j fl')"
  proof (cases "i < length v")
    case False
    then have "i = length v" using scan_invD(3) [OF I] by simp
    then show ?thesis by (simp add: string_bulk_def scalar_loop_def run_until.simps [of ?step "length v" "length v"])
  next
    case True
    show ?thesis
    proof (cases "j = scan_while (string_ordinary quote) v i")
      case e: True
      have "string_bulk mem v start quote i fl = Some (More j fl')"
        unfolding string_bulk_eq [OF m True] Let_def j_def [symmetric] fl'_def [symmetric] by (rule if_not_P) (use e in simp)
      then show ?thesis using inv same True scan_while_spec(1) [of i ?P v] by (simp add: scalar_loop_def j_def)
    next
      case ne: False
      have b: "string_bulk mem v start quote i fl = Some (Done (BadString, j, start + 1, j, fl'))"
        unfolding string_bulk_eq [OF m True] Let_def j_def [symmetric] fl'_def [symmetric] by (rule if_P [OF ne])
      have "j < length v \<and> string_ordinary quote (v ! j)"
      proof (rule ccontr)
        assume stop: "\<not> (j < length v \<and> string_ordinary quote (v ! j))"
        have "scan_while (string_ordinary quote) v i = j"
          by (rule scan_while_unique) (use stop scan_while_spec [where P = ?P and v = v and i = i] scan_invD(3) [OF I] in \<open>auto simp: j_def\<close>)
        then show False using ne by simp
      qed
      then have "is_new_line (v ! j)" "v ! j \<noteq> quote" "j < length v"
        using scan_while_spec(4) [of ?P v i] by (auto simp: j_def is_new_line_def)
      then have "run_until ?step (length v) j fl' = Some (Done (BadString, j, start + 1, j, fl'))"
        by (simp add: run_until.simps [of ?step "length v" j] string_step_def byte_get_def)
      then show ?thesis using b same by (simp add: scalar_loop_def)
    qed
  qed
qed

lemma scan_string_scalar:
  assumes u: "utf8 v" and m: "memchr_ok mem" and q: "is_quote quote" and s: "start < length v" "v ! start = quote"
  shows "scan_string mem v start quote =
      scalar_loop (string_step v start quote) (\<lambda>i fl. (BadString, i, start + 1, i, fl)) (length v) (start + 1) flags_ascii \<and>
    (\<exists>t. scan_string mem v start quote = Some t \<and> token_ok v start t)"
proof -
  have a: "is_ascii (v ! start)" using q s(2) by (auto simp: is_quote_def is_ascii_def)
  have c: "ascii_on v start (start + 1)" "boundary v (start + 1)" using a boundary_ascii [OF u s(1)] by simp_all
  note sound = string_step_sound [OF u q c] and I = inv_start_ascii [OF c(2)]
  have eq: "scan_string mem v start quote =
      scalar_loop (string_step v start quote) (\<lambda>i fl. (BadString, i, start + 1, i, fl)) (length v) (start + 1) flags_ascii"
    unfolding scan_string_def by (rule chunk_loop_scalar [OF sound string_bulk_agrees [OF u m q] I])
  have "\<exists>t. scan_string mem v start quote = Some t \<and> token_ok v start t"
    unfolding eq
  proof (rule scalar_loop_sound [OF sound I])
    fix j fl'
    assume "scan_inv v True (start + 1) j fl'"
    then show "token_ok v start (BadString, j, start + 1, j, fl')" using c scan_invD(1) by (intro token_okI) auto
  qed
  then show ?thesis using eq by blast
qed

section \<open>URLs\<close>

text \<open>A URL token scanned from \<open>s\<close> on; it ends behind a closing parenthesis or with the text.\<close>

definition url_ok :: "u8 list \<Rightarrow> bool \<Rightarrow> nat \<Rightarrow> nat \<Rightarrow> token_parts \<Rightarrow> bool" where
  "url_ok v a s cs t = (case t of (k, e, vs, ve, fl) \<Rightarrow>
     (k = Url \<or> k = BadUrl) \<and> s \<le> e \<and> boundary v e \<and> vs = cs \<and> s \<le> ve \<and> ve \<le> e \<and> boundary v ve \<and>
     (tf_ascii fl \<longleftrightarrow> a \<and> ascii_on v s e) \<and> (e = length v \<or> s < e \<and> v ! (e - 1) = 0x29))"

lemma url_okI:
  assumes "scan_inv v a s i fl" "i \<le> e" "boundary v e" "ascii_on v i e" "boundary v ve" "i \<le> ve" "ve \<le> e"
    "e = length v \<or> s < e \<and> v ! (e - 1) = 0x29" "k = Url \<or> k = BadUrl"
  shows "url_ok v a s cs (k, e, cs, ve, fl)"
  using assms ascii_on_split [of s i e v] by (auto simp: url_ok_def scan_inv_def)

lemma bad_url_step_sound:
  assumes u: "utf8 v"
  shows "step_sound (scan_inv v a s) (url_ok v a s cs) (bad_url_step v cs) (length v)"
  unfolding step_sound_def
proof (intro allI impI)
  fix i fl
  assume I: "scan_inv v a s i fl" and len: "i < length v"
  show "(\<exists>t. bad_url_step v cs i fl = Some (Done t) \<and> url_ok v a s cs t) \<or>
    (\<exists>j fl'. bad_url_step v cs i fl = Some (More j fl') \<and> i < j \<and> scan_inv v a s j fl')"
  proof (cases "v ! i = 0x29")
    case True
    then have asc: "is_ascii (v ! i)" by (simp add: is_ascii_def)
    have next_inv: "scan_inv v a s (i + 1) (mark_byte (v ! i) fl)" by (rule ascii_byte_inv [OF u I len asc]) (simp add: mark_byte_ascii asc)
    have "url_ok v a s cs (BadUrl, i + 1, cs, i + 1, mark_byte (v ! i) fl)"
      using scan_invD(1) [OF next_inv] True scan_invD(2) [OF I] by (intro url_okI [OF next_inv]) auto
    then show ?thesis using True len by (simp add: bad_url_step_def byte_get_def)
  next
    case False
    show ?thesis
    proof (cases "v ! i = 0x5C")
      case True
      note e = escape_sound [OF u I len True refl]
      consider "is_valid_escape_at v i" | "\<not> is_valid_escape_at v i" "byte_is is_new_line v (i + 1)"
        | "\<not> is_valid_escape_at v i" "\<not> byte_is is_new_line v (i + 1)" by blast
      then show ?thesis
        using e True len by cases (auto simp: bad_url_step_def byte_get_def Let_def)
    next
      case plain: False
      then show ?thesis using False len advance_sound [OF u I len] by (auto simp: bad_url_step_def byte_get_def Let_def)
    qed
  qed
qed

text \<open>One bulk search that only stops at some bytes, without an end of its own.\<close>

lemma bad_url_bulk_agrees:
  assumes u: "utf8 v" and m: "memchr_ok mem"
  shows "bulk_agrees (scan_inv v a s) (bad_url_step v cs) (\<lambda>i fl. (BadUrl, i, cs, i, fl)) (bad_url_bulk mem v cs) (length v)"
  unfolding bulk_agrees_def
proof (intro allI impI)
  fix i fl
  assume I: "scan_inv v a s i fl"
  let ?step = "bad_url_step v cs" and ?fin = "\<lambda>i fl. (BadUrl, i, cs, i, fl)"
  let ?P = "\<lambda>b. b \<notin> set [0x29, 0x5C]"
  define j where "j = scan_while ?P v i"
  define fl' where "fl' = fold mark_byte (slice_bytes v i j) fl"
  have P: "is_ascii b" if "\<not> ?P b" for b using that by (auto simp: is_ascii_def)
  have next_inv: "scan_inv v a s j fl'" unfolding j_def fl'_def by (rule skip_sound [OF u I P])
  have same: "run_until ?step (length v) i fl = run_until ?step (length v) j fl'"
    unfolding j_def fl'_def by (rule skip_run [OF u I P]) (auto simp: bad_url_step_def byte_get_def Let_def)
  show "(\<exists>t. bad_url_bulk mem v cs i fl = Some (Done t) \<and> scalar_loop ?step ?fin (length v) i fl = Some t) \<or>
    (\<exists>j fl'. bad_url_bulk mem v cs i fl = Some (More j fl') \<and> i < length v \<and> i \<le> j \<and> scan_inv v a s j fl' \<and>
      scalar_loop ?step ?fin (length v) i fl = scalar_loop ?step ?fin (length v) j fl')"
  proof (cases "i < length v")
    case False
    then have "i = length v" using scan_invD(3) [OF I] by simp
    then show ?thesis by (simp add: bad_url_bulk_def scalar_loop_def run_until.simps [of ?step "length v" "length v"])
  next
    case True
    have "unwrap_or (mem [0x29, 0x5C] (drop i v)) (length (drop i v)) = length (takeWhile ?P (drop i v))" by (rule memchr_unwrap [OF m])
    moreover have "i + length (takeWhile ?P (drop i v)) = j" using True unfolding j_def by (intro takeWhile_scan) simp
    moreover have "take (length (takeWhile ?P (drop i v))) (drop i v) = slice_bytes v i j" using True unfolding j_def by (intro take_scan) simp
    ultimately have "bad_url_bulk mem v cs i fl = Some (More j fl')"
      using True unfolding bad_url_bulk_def Let_def mark_segment_fold [OF m] fl'_def by simp
    then show ?thesis using next_inv same True scan_while_spec(1) [of i ?P v] by (simp add: scalar_loop_def j_def)
  qed
qed

definition bad_url_scalar :: "u8 list \<Rightarrow> nat \<Rightarrow> nat \<Rightarrow> token_flags \<Rightarrow> token_parts option" where
  "bad_url_scalar v i cs fl = scalar_loop (bad_url_step v cs) (\<lambda>i fl. (BadUrl, i, cs, i, fl)) (length v) i fl"

lemma scan_bad_url_scalar:
  assumes u: "utf8 v" and m: "memchr_ok mem" and I: "scan_inv v a s i fl"
  shows "scan_bad_url mem v i cs fl = bad_url_scalar v i cs fl"
    and "\<exists>t. bad_url_scalar v i cs fl = Some t \<and> url_ok v a s cs t"
proof -
  show "scan_bad_url mem v i cs fl = bad_url_scalar v i cs fl"
    unfolding scan_bad_url_def bad_url_scalar_def
    by (rule chunk_loop_scalar [OF bad_url_step_sound [OF u] bad_url_bulk_agrees [OF u m] I])
  show "\<exists>t. bad_url_scalar v i cs fl = Some t \<and> url_ok v a s cs t"
    unfolding bad_url_scalar_def
  proof (rule scalar_loop_sound [OF bad_url_step_sound [OF u] I])
    fix j fl'
    assume j: "scan_inv v a s j fl'" "length v \<le> j"
    then have "j = length v" using scan_invD(3) [OF j(1)] by simp
    then show "url_ok v a s cs (BadUrl, j, cs, j, fl')" using scan_invD(1) [OF j(1)] by (intro url_okI [OF j(1)]) auto
  qed
qed

end
