(* ===== verification/Css_Url.thy ===== *)
theory Css_Url
  imports Css_Correct
begin

section \<open>Flags do not steer a scan\<close>

text \<open>A scan with a flag set in advance returns the same token with the flag set.\<close>

definition lift_token :: "token_parts \<Rightarrow> token_parts" where
  "lift_token t = (case t of (k, e, vs, ve, fl) \<Rightarrow> (k, e, vs, ve, mark_non_ascii fl))"

fun lift_step :: "scan_step \<Rightarrow> scan_step" where
  "lift_step (Done t) = Done (lift_token t)"
| "lift_step (More i fl) = More i (mark_non_ascii fl)"

definition equivariant :: "(nat \<Rightarrow> token_flags \<Rightarrow> bool) \<Rightarrow> (nat \<Rightarrow> token_flags \<Rightarrow> scan_step option) \<Rightarrow> bool" where
  "equivariant I step \<longleftrightarrow> (\<forall>i fl. I i fl \<longrightarrow> step i (mark_non_ascii fl) = map_option lift_step (step i fl))"

lemma mark_commute:
  "mark_byte b (mark_non_ascii fl) = mark_non_ascii (mark_byte b fl)"
  "mark_escaped v i (mark_non_ascii fl) = mark_non_ascii (mark_escaped v i fl)"
  by (simp_all add: mark_byte_def mark_escaped_def mark_non_ascii_def mark_null_def mark_escape_def Let_def)

lemma lift_advance: "advance v i (mark_non_ascii fl) = map_option lift_step (advance v i fl)"
  by (simp add: advance_def option.map_comp comp_def)

lemma mark_non_ascii_again: "\<not> tf_ascii fl \<Longrightarrow> mark_non_ascii fl = fl"
  by (cases fl) (simp add: mark_non_ascii_def)

lemma run_until_equivariant:
  assumes "step_sound I Q step limit" "equivariant I step" "I i fl"
  shows "run_until step limit i (mark_non_ascii fl) = map_option lift_step (run_until step limit i fl)"
  using assms(3)
proof (induction "limit - i" arbitrary: i fl rule: less_induct)
  case less
  show ?case
  proof (cases "i < limit")
    case True
    have eq: "step i (mark_non_ascii fl) = map_option lift_step (step i fl)"
      using assms(2) less.prems unfolding equivariant_def by blast
    from assms(1) less.prems True show ?thesis
    proof (cases rule: step_soundD)
      case (1 t)
      then show ?thesis using eq True by (simp add: run_until.simps [of step limit i])
    next
      case (2 j fl')
      have "limit - j < limit - i" using True 2(2) by linarith
      then show ?thesis using less.hyps [OF _ 2(3)] eq 2(1) True by (simp add: run_until.simps [of step limit i])
    qed
  next
    case False
    then show ?thesis by (simp add: run_until.simps [of step limit i])
  qed
qed

lemma scalar_loop_equivariant:
  assumes "step_sound I Q step len" "equivariant I step" "I i fl"
    and "\<And>j fl. fin j (mark_non_ascii fl) = lift_token (fin j fl)"
  shows "scalar_loop step fin len i (mark_non_ascii fl) = map_option lift_token (scalar_loop step fin len i fl)"
  unfolding scalar_loop_def run_until_equivariant [OF assms(1-3)]
  by (auto split: option.split scan_step.split simp: assms(4))

text \<open>The invariant that leaves the flags free.\<close>

definition at_boundary :: "u8 list \<Rightarrow> nat \<Rightarrow> nat \<Rightarrow> token_flags \<Rightarrow> bool" where
  "at_boundary v s i fl \<longleftrightarrow> boundary v i \<and> s \<le> i"

lemma sound_any_flags:
  assumes "\<And>a s. step_sound (scan_inv v a s) (Q a s) step limit"
  shows "step_sound (at_boundary v s) (\<lambda>_. True) step limit"
  unfolding step_sound_def
proof (intro allI impI)
  fix i fl
  assume I: "at_boundary v s i fl" and limit: "i < limit"
  then have "scan_inv v (tf_ascii fl) i i fl" by (simp add: at_boundary_def scan_inv_def)
  from step_soundD [OF assms this limit]
  show "(\<exists>t. step i fl = Some (Done t) \<and> True) \<or> (\<exists>j fl'. step i fl = Some (More j fl') \<and> i < j \<and> at_boundary v s j fl')"
    using I by (metis at_boundary_def le_trans less_imp_le scan_invD(1))
qed

lemma bad_url_equivariant:
  assumes u: "utf8 v" and b: "boundary v i"
  shows "bad_url_scalar v i cs (mark_non_ascii fl) = map_option lift_token (bad_url_scalar v i cs fl)"
  unfolding bad_url_scalar_def
proof (rule scalar_loop_equivariant [where I = "at_boundary v 0"])
  show "step_sound (at_boundary v 0) (\<lambda>_. True) (bad_url_step v cs) (length v)"
    by (rule sound_any_flags [OF bad_url_step_sound [OF u]])
  show "equivariant (at_boundary v 0) (bad_url_step v cs)"
    unfolding equivariant_def bad_url_step_def
    by (auto simp: byte_get_def Let_def mark_commute lift_advance lift_token_def option.map_comp comp_def)
  show "at_boundary v 0 i fl" using b by (simp add: at_boundary_def)
qed (simp add: lift_token_def)

section \<open>The scalar URL scan\<close>

abbreviation bad_from :: "u8 list \<Rightarrow> nat \<Rightarrow> nat \<Rightarrow> token_flags \<Rightarrow> token_parts option" where
  "bad_from v cs \<equiv> \<lambda>i fl. bad_url_scalar v i cs fl"

lemma url_step_sound:
  assumes u: "utf8 v" and m: "memchr_ok mem"
  shows "step_sound (scan_inv v a s) (url_ok v a s cs) (url_step (bad_from v cs) v cs) (length v)"
  unfolding step_sound_def
proof (intro allI impI)
  fix i fl
  assume I: "scan_inv v a s i fl" and len: "i < length v"
  note bad = scan_bad_url_scalar(2) [OF u m]
  show "(\<exists>t. url_step (bad_from v cs) v cs i fl = Some (Done t) \<and> url_ok v a s cs t) \<or>
    (\<exists>j fl'. url_step (bad_from v cs) v cs i fl = Some (More j fl') \<and> i < j \<and> scan_inv v a s j fl')"
  proof (cases "v ! i = 0x29 \<or> is_white_space (v ! i)")
    case True
    have asc: "is_ascii (v ! i)" using True ascii_classes(6) by (auto simp: is_ascii_def)
    have b1: "boundary v (i + 1)" by (rule boundary_ascii [OF u len asc])
    show ?thesis
    proof (cases "v ! i = 0x29")
      case True
      then have "url_ok v a s cs (Url, i + 1, cs, i, fl)"
        using b1 scan_invD(1,2) [OF I] asc by (intro url_okI [OF I]) auto
      then show ?thesis using True len by (simp add: url_step_def byte_get_def)
    next
      case False
      define close where "close = skip_white_space v i"
      have close: "i \<le> close" "boundary v close" "ascii_on v i close"
        using scan_while_ascii [OF u scan_invD(1) [OF I] ascii_classes(6)] scan_while_spec(1) [of i is_white_space v]
        by (simp_all add: close_def skip_white_space_def)
      have I': "scan_inv v a s close fl" by (rule inv_more [OF I close(1,2)]) (simp add: close(3))
      have "url_ok v a s cs (Url, close + 1, cs, i, fl)" if "byte_get v close = Some 0x29"
      proof -
        have c: "close < length v" "v ! close = 0x29" using that by (auto simp: byte_get_def split: if_splits)
        then have "is_ascii (v ! close)" by (simp add: is_ascii_def)
        moreover from this have "ascii_on v i (close + 1)" using ascii_on_split [of i close "close + 1" v] close by simp
        ultimately show ?thesis using c close scan_invD(1,2) [OF I] boundary_ascii [OF u c(1)] by (intro url_okI [OF I]) auto
      qed
      moreover have "url_ok v a s cs (Url, close, cs, i, fl)" if "close = length v"
        using that close scan_invD(1) [OF I] by (intro url_okI [OF I]) auto
      ultimately show ?thesis using bad [OF I', of cs] False True len
        by (auto simp: url_step_def byte_get_def close_def [symmetric] Let_def)
    qed
  next
    case False
    show ?thesis
    proof (cases "url_bad_byte (v ! i)")
      case True
      have asc: "is_ascii (v ! i)" using True by (auto simp: url_bad_byte_def is_non_printable_def is_ascii_def word_le_nat_alt word_less_nat_alt)
      have "scan_inv v a s i (mark_byte (v ! i) fl)" by (rule inv_more [OF I _ scan_invD(1) [OF I]]) (simp_all add: mark_byte_ascii asc)
      then show ?thesis using bad [of a s i "mark_byte (v ! i) fl" cs] False True len by (auto simp: url_step_def byte_get_def Let_def)
    next
      case ok: False
      show ?thesis
      proof (cases "v ! i = 0x5C")
        case True
        note e = escape_sound [OF u I len True refl]
        consider "is_valid_escape_at v i" | "\<not> is_valid_escape_at v i" "byte_is is_new_line v (i + 1)"
          | (stop) "\<not> is_valid_escape_at v i" "\<not> byte_is is_new_line v (i + 1)" by blast
        then show ?thesis
        proof cases
          case stop
          have asc: "is_ascii (v ! i)" by (simp add: True is_ascii_def)
          have "\<not> i + 1 < length v" using stop len True by (auto simp: is_valid_escape_at_def byte_is_iff byte_get_def)
          then have "tf_ascii (mark_escaped v i (mark_byte 0x5C fl)) = tf_ascii fl"
            by (simp add: mark_escaped_def Let_def byte_is_iff mark_byte_ascii) (simp add: is_ascii_def)
          then have "scan_inv v a s i (mark_escaped v i (mark_byte 0x5C fl))" by (intro inv_more [OF I _ scan_invD(1) [OF I]]) simp_all
          then show ?thesis using bad [of a s i "mark_escaped v i (mark_byte 0x5C fl)" cs] False True ok len stop
            by (auto simp: url_step_def byte_get_def Let_def)
        qed (use e False True ok len in \<open>auto simp: url_step_def byte_get_def Let_def\<close>)
      next
        case plain: False
        then show ?thesis using False ok len advance_sound [OF u I len] by (auto simp: url_step_def byte_get_def Let_def)
      qed
    qed
  qed
qed

lemma url_step_equivariant:
  assumes u: "utf8 v" and m: "memchr_ok mem"
  shows "equivariant (at_boundary v s) (url_step (bad_from v cs) v cs)"
  unfolding equivariant_def
proof (intro allI impI)
  fix i fl
  assume I: "at_boundary v s i fl"
  have b: "boundary v (skip_white_space v i)"
    using scan_while_ascii [OF u _ ascii_classes(6)] I by (simp add: at_boundary_def skip_white_space_def)
  have bad: "bad_url_scalar v i cs (mark_non_ascii f) = map_option lift_token (bad_url_scalar v i cs f)"
    "bad_url_scalar v (skip_white_space v i) cs (mark_non_ascii f) = map_option lift_token (bad_url_scalar v (skip_white_space v i) cs f)" for f
    using bad_url_equivariant [OF u] I b by (simp_all add: at_boundary_def)
  show "url_step (bad_from v cs) v cs i (mark_non_ascii fl) = map_option lift_step (url_step (bad_from v cs) v cs i fl)"
    unfolding url_step_def
    by (auto simp: byte_get_def Let_def mark_commute lift_advance lift_token_def bad option.map_comp comp_def)
qed

section \<open>The bulk search of URLs\<close>

lemma fold_mark_nonzero:
  "0 \<notin> set seg \<Longrightarrow> fold mark_byte seg fl = (if list_all is_ascii seg then fl else mark_non_ascii fl)"
  by (induction seg arbitrary: fl) (auto simp: mark_byte_def mark_non_ascii_def)

abbreviation url_fin :: "u8 list \<Rightarrow> nat \<Rightarrow> nat \<Rightarrow> token_flags \<Rightarrow> token_parts" where
  "url_fin v cs \<equiv> \<lambda>i fl. (Url, length v, cs, length v, fl)"

abbreviation not_close :: "u8 \<Rightarrow> bool" where
  "not_close b \<equiv> b \<notin> set [0x29]"

abbreviation url_ordinary :: "u8 \<Rightarrow> bool" where
  "url_ordinary b \<equiv> not_close b \<and> \<not> url_stop_byte b"

lemma url_ordinary_step:
  "k < length v \<Longrightarrow> url_ordinary (v ! k) \<Longrightarrow> url_step bad v cs k f = advance v k (mark_byte (v ! k) f)"
  by (auto simp: url_step_def byte_get_def Let_def url_stop_byte_def is_white_space_def is_new_line_def is_space_def
      url_bad_byte_def is_non_printable_def word_le_nat_alt)

lemma url_bulk_eq:
  assumes m: "memchr_ok mem" and i: "i < length v"
  shows "url_bulk mem v cs i fl =
    (let close = scan_while not_close v i;
         stop = scan_while url_ordinary v i;
         fl = (if \<not> list_all is_ascii (slice_bytes v i close) then mark_non_ascii fl else fl)
     in if stop < close then Some (More stop fl)
        else if close = length v then Some (Done (Url, length v, cs, length v, fl))
        else Some (Done (Url, close + 1, cs, close, fl)))"
proof -
  let ?rest = "drop i v"
  define c where "c = length (takeWhile not_close ?rest)"
  have c: "unwrap_or (mem [0x29] ?rest) (length ?rest) = c" unfolding c_def by (rule memchr_unwrap [OF m])
  have tc: "take c ?rest = takeWhile not_close ?rest" unfolding c_def by (metis takeWhile_eq_take)
  have close: "i + c = scan_while not_close v i" using i unfolding c_def by (intro takeWhile_scan) simp
  have "take c ?rest = slice_bytes v i (scan_while not_close v i)" using i unfolding c_def by (intro take_scan) simp
  then have slice: "slice_bytes v i (i + c) = take c ?rest" unfolding close by simp
  define n where "n = length (takeWhile url_ordinary ?rest)"
  have n: "length (takeWhile (\<lambda>b. \<not> url_stop_byte b) (take c ?rest)) = n" unfolding tc n_def takeWhile_both ..
  have stop: "i + n = scan_while url_ordinary v i" using i unfolding n_def by (intro takeWhile_scan) simp
  have len: "length (take c ?rest) = c" unfolding tc by (simp only: c_def)
  have "c \<le> length ?rest" using length_takeWhile_le [of not_close ?rest] by (simp only: c_def)
  then have full: "c = length ?rest \<longleftrightarrow> i + c = length v" using i by auto
  show ?thesis
    using i unfolding url_bulk_def Let_def c n len full close [symmetric] stop [symmetric] slice by simp
qed

lemma marked_twice:
  assumes u: "utf8 v" and m: "memchr_ok mem" and b: "boundary v j" and close: "\<And>k. j \<le> k \<Longrightarrow> k < close \<Longrightarrow> v ! k \<noteq> 0x29"
    and wide: "\<not> ascii_on v j close" "close \<le> length v"
  shows "scalar_loop (url_step (bad_from v cs) v cs) (url_fin v cs) (length v) j (mark_non_ascii fl) =
    scalar_loop (url_step (bad_from v cs) v cs) (url_fin v cs) (length v) j fl"
proof -
  let ?step = "url_step (bad_from v cs) v cs"
  have I: "scan_inv v (tf_ascii fl) j j fl" by (rule inv_start [OF b])
  have "\<exists>t. scalar_loop ?step (url_fin v cs) (length v) j fl = Some t \<and> url_ok v (tf_ascii fl) j cs t"
  proof (rule scalar_loop_sound [OF url_step_sound [OF u m] I])
    fix i f
    assume i: "scan_inv v (tf_ascii fl) j i f" "length v \<le> i"
    then have "i = length v" using scan_invD(3) [OF i(1)] by simp
    then show "url_ok v (tf_ascii fl) j cs (url_fin v cs i f)" using scan_invD(1) [OF i(1)] by (intro url_okI [OF i(1)]) auto
  qed
  then obtain t0 where t0: "scalar_loop ?step (url_fin v cs) (length v) j fl = Some t0" "url_ok v (tf_ascii fl) j cs t0" by blast
  obtain k e vs ve f where t1: "t0 = (k, e, vs, ve, f)" by (cases t0)
  have t: "scalar_loop ?step (url_fin v cs) (length v) j fl = Some (k, e, vs, ve, f)"
    "tf_ascii f \<longleftrightarrow> tf_ascii fl \<and> ascii_on v j e" "e = length v \<or> j < e \<and> v ! (e - 1) = 0x29" "j \<le> e"
    using t0 unfolding t1 url_ok_def prod.case by blast+
  have "close \<le> e"
  proof (rule ccontr)
    assume "\<not> close \<le> e"
    then have "e \<noteq> length v" "e - 1 < close" using wide(2) by auto
    moreover from this have "j \<le> e - 1" "v ! (e - 1) = 0x29" using t(3) by auto
    ultimately show False using close [of "e - 1"] by blast
  qed
  then have "\<not> ascii_on v j e" using wide(1) by (auto simp: ascii_on_def)
  then have "lift_token (k, e, vs, ve, f) = (k, e, vs, ve, f)" using t(2) by (simp add: lift_token_def mark_non_ascii_again)
  moreover have "scalar_loop ?step (url_fin v cs) (length v) j (mark_non_ascii fl) =
      map_option lift_token (scalar_loop ?step (url_fin v cs) (length v) j fl)"
    by (rule scalar_loop_equivariant [OF sound_any_flags [OF url_step_sound [OF u m]] url_step_equivariant [OF u m]])
      (use b in \<open>auto simp: at_boundary_def lift_token_def\<close>)
  ultimately show ?thesis using t(1) by simp
qed

lemma url_bulk_agrees:
  assumes u: "utf8 v" and m: "memchr_ok mem"
  shows "bulk_agrees (at_boundary v s) (url_step (bad_from v cs) v cs) (url_fin v cs) (url_bulk mem v cs) (length v)"
  unfolding bulk_agrees_def
proof (intro allI impI)
  fix i fl
  assume I: "at_boundary v s i fl"
  let ?step = "url_step (bad_from v cs) v cs" and ?loop = "scalar_loop (url_step (bad_from v cs) v cs) (url_fin v cs) (length v)"
  define close where "close = scan_while not_close v i"
  define stop where "stop = scan_while url_ordinary v i"
  define f where "f = fold mark_byte (slice_bytes v i stop) fl"
  define fl1 where "fl1 = (if \<not> list_all is_ascii (slice_bytes v i close) then mark_non_ascii fl else fl)"
  have I': "scan_inv v (tf_ascii fl) i i fl" using I by (simp add: at_boundary_def scan_inv_def)
  have le: "i \<le> length v" using scan_invD(3) [OF I'] .
  have P: "is_ascii b" if "\<not> url_ordinary b" for b
    using that by (auto simp: url_stop_byte_def is_ascii_def word_le_nat_alt word_less_nat_alt)
  have stop: "i \<le> stop" "stop \<le> length v" "boundary v stop"
    unfolding stop_def by (rule scan_while_spec(1), rule scan_while_spec(2) [OF le], rule scan_stops_on_boundary [OF le P])
  have close: "i \<le> close" "close \<le> length v" "\<And>k. i \<le> k \<Longrightarrow> k < close \<Longrightarrow> v ! k \<noteq> 0x29"
    using scan_while_spec(1) [of i not_close v] scan_while_spec(2) [OF le, of not_close] scan_while_spec(3) [of i _ not_close v]
    by (auto simp: close_def)
  have ordinary: "\<And>k. i \<le> k \<Longrightarrow> k < stop \<Longrightarrow> url_ordinary (v ! k)"
    using scan_while_spec(3) [of i _ url_ordinary v] unfolding stop_def by blast
  have same: "?loop i fl = ?loop stop f"
    unfolding scalar_loop_def f_def stop_def by (subst skip_run [OF u I' P]) (auto intro: url_ordinary_step)
  have zero: "0 \<notin> set (slice_bytes v i stop)"
  proof
    assume "0 \<in> set (slice_bytes v i stop)"
    then obtain n where "n < stop - i" "v ! (i + n) = 0" using stop(2) by (auto simp: slice_bytes_def in_set_conv_nth)
    moreover from this have "i + n < stop" by linarith
    ultimately show False using ordinary [of "i + n"] by (simp add: url_stop_byte_def)
  qed
  have f: "f = (if ascii_on v i stop then fl else mark_non_ascii fl)"
    unfolding f_def fold_mark_nonzero [OF zero] slice_ascii [OF stop(2)] ..
  have fl1: "fl1 = (if ascii_on v i close then fl else mark_non_ascii fl)"
    unfolding fl1_def slice_ascii [OF close(2)] by simp
  show "(\<exists>t. url_bulk mem v cs i fl = Some (Done t) \<and> ?loop i fl = Some t) \<or>
    (\<exists>j fl'. url_bulk mem v cs i fl = Some (More j fl') \<and> i < length v \<and> i \<le> j \<and> at_boundary v s j fl' \<and> ?loop i fl = ?loop j fl')"
  proof (cases "i < length v")
    case False
    then have "i = length v" using le by simp
    then show ?thesis by (simp add: url_bulk_def scalar_loop_def run_until.simps [of ?step "length v" "length v"])
  next
    case len: True
    note eq = url_bulk_eq [OF m len, of cs fl, unfolded Let_def, folded close_def stop_def, folded fl1_def]
    show ?thesis
    proof (cases "stop < close")
      case True
      have "?loop stop f = ?loop stop fl1"
      proof (cases "ascii_on v i stop \<and> \<not> ascii_on v i close")
        case True
        then have "\<not> ascii_on v stop close" using ascii_on_split [of i stop close v] stop(1) \<open>stop < close\<close> by simp
        then have "?loop stop (mark_non_ascii fl) = ?loop stop fl"
          using close(2,3) stop(1) by (intro marked_twice [OF u m stop(3), of close]) auto
        then show ?thesis using True f fl1 by simp
      next
        case False
        then show ?thesis using f fl1 ascii_on_split [of i stop close v] stop(1) True by auto
      qed
      then show ?thesis using eq True same len stop I by (auto simp: at_boundary_def)
    next
      case False
      have "stop = close"
      proof (rule ccontr)
        assume "stop \<noteq> close"
        then have "close < stop" using False by simp
        then have "not_close (v ! close)" "close < length v" using ordinary [of close] close(1) stop(2) by auto
        then show False using scan_while_spec(4) [of not_close v i] by (simp add: close_def)
      qed
      then have "f = fl1" using f fl1 by simp
      show ?thesis
      proof (cases "close = length v")
        case True
        then show ?thesis using eq False same \<open>stop = close\<close> \<open>f = fl1\<close>
          by (simp add: scalar_loop_def run_until.simps [of ?step "length v" "length v"])
      next
        case ne: False
        then have "close < length v" using close(2) by simp
        moreover from this have "v ! close = 0x29" using scan_while_spec(4) [of not_close v i] by (simp add: close_def)
        ultimately have "run_until ?step (length v) close fl1 = Some (Done (Url, close + 1, cs, close, fl1))"
          by (simp add: run_until.simps [of ?step "length v" close] url_step_def byte_get_def)
        then show ?thesis using eq False same ne \<open>stop = close\<close> \<open>f = fl1\<close> by (simp add: scalar_loop_def)
      qed
    qed
  qed
qed

lemma scalar_loop_cong:
  assumes "step_sound I Q step limit" "\<And>i fl. I i fl \<Longrightarrow> step' i fl = step i fl" "I i fl"
  shows "scalar_loop step' fin limit i fl = scalar_loop step fin limit i fl"
proof -
  have "run_until step' limit i fl = run_until step limit i fl"
    using assms(3)
  proof (induction "limit - i" arbitrary: i fl rule: less_induct)
    case less
    show ?case
    proof (cases "i < limit")
      case True
      from assms(1) less.prems True show ?thesis
      proof (cases rule: step_soundD)
        case (1 t)
        then show ?thesis using assms(2) [OF less.prems] True by (simp add: run_until.simps [of _ limit i])
      next
        case (2 j fl')
        have "limit - j < limit - i" using True 2(2) by linarith
        then show ?thesis using less.hyps [OF _ 2(3)] assms(2) [OF less.prems] 2(1) True by (simp add: run_until.simps [of _ limit i])
      qed
    qed (simp add: run_until.simps [of _ limit i])
  qed
  then show ?thesis by (simp add: scalar_loop_def)
qed

definition url_scalar :: "u8 list \<Rightarrow> nat \<Rightarrow> token_parts option" where
  "url_scalar v cs = scalar_loop (url_step (bad_from v cs) v cs) (url_fin v cs) (length v) cs flags_ascii"

lemma scan_url_scalar:
  assumes u: "utf8 v" and m: "memchr_ok mem" and b: "boundary v cs"
  shows "scan_url mem v cs = url_scalar v cs" "\<exists>t. url_scalar v cs = Some t \<and> url_ok v True cs cs t"
proof -
  let ?step = "url_step (bad_from v cs) v cs" and ?step' = "url_step (\<lambda>i fl. scan_bad_url mem v i cs fl) v cs"
  have agree: "?step' i fl = ?step i fl" if "at_boundary v cs i fl" for i fl
  proof -
    have "boundary v (skip_white_space v i)"
      using scan_while_ascii [OF u _ ascii_classes(6)] that by (simp add: at_boundary_def skip_white_space_def)
    then have eqs: "scan_bad_url mem v (skip_white_space v i) cs f = bad_url_scalar v (skip_white_space v i) cs f"
      "scan_bad_url mem v i cs f = bad_url_scalar v i cs f" for f
      using that scan_bad_url_scalar(1) [OF u m inv_start] by (auto simp: at_boundary_def)
    show ?thesis unfolding url_step_def Let_def eqs ..
  qed
  have sound': "step_sound (at_boundary v cs) (\<lambda>_. True) ?step (length v)" by (rule sound_any_flags [OF url_step_sound [OF u m]])
  have sound1: "step_sound (at_boundary v cs) (\<lambda>_. True) ?step' (length v)"
    using sound' agree unfolding step_sound_def by simp
  have cong: "scalar_loop ?step' (url_fin v cs) (length v) i fl = scalar_loop ?step (url_fin v cs) (length v) i fl"
    if "at_boundary v cs i fl" for i fl
    by (rule scalar_loop_cong [OF sound' _ that]) (rule agree)
  have "bulk_agrees (at_boundary v cs) ?step' (url_fin v cs) (url_bulk mem v cs) (length v)"
    unfolding bulk_agrees_def
  proof (intro allI impI)
    fix i fl
    assume I: "at_boundary v cs i fl"
    from url_bulk_agrees [OF u m, of cs cs] I
    show "(\<exists>t. url_bulk mem v cs i fl = Some (Done t) \<and> scalar_loop ?step' (url_fin v cs) (length v) i fl = Some t) \<or>
      (\<exists>j fl'. url_bulk mem v cs i fl = Some (More j fl') \<and> i < length v \<and> i \<le> j \<and> at_boundary v cs j fl' \<and>
        scalar_loop ?step' (url_fin v cs) (length v) i fl = scalar_loop ?step' (url_fin v cs) (length v) j fl')"
    proof (cases rule: bulk_agreesD)
      case (1 t)
      then show ?thesis unfolding cong [OF I] by blast
    next
      case (2 j fl')
      then show ?thesis using cong [OF I] cong [OF 2(4)] by simp
    qed
  qed
  moreover have I: "at_boundary v cs cs flags_ascii" using b by (simp add: at_boundary_def)
  ultimately show "scan_url mem v cs = url_scalar v cs"
    unfolding scan_url_def url_scalar_def using chunk_loop_scalar [OF sound1 _ I] cong [OF I] by simp
  show "\<exists>t. url_scalar v cs = Some t \<and> url_ok v True cs cs t"
    unfolding url_scalar_def
  proof (rule scalar_loop_sound [OF url_step_sound [OF u m] inv_start_ascii [OF b]])
    fix j fl'
    assume j: "scan_inv v True cs j fl'" "length v \<le> j"
    then have "j = length v" using scan_invD(3) [OF j(1)] by simp
    then show "url_ok v True cs cs (url_fin v cs j fl')" using scan_invD(1) [OF j(1)] by (intro url_okI [OF j(1)]) auto
  qed
qed

end
