(* ===== verification/Css_Text.thy ===== *)
theory Css_Text
  imports Css_Url
begin

text \<open>The whole tokenizer on a valid text: every token, the tiling of the text, the visitor.\<close>

section \<open>Every kind of token\<close>

lemma single_ok:
  assumes "utf8 v" "start < length v" "is_ascii (v ! start)" "boundary v start" "k \<noteq> Eof"
  shows "token_ok v start (single k start)"
  using assms boundary_ascii [OF assms(1-3)] by (simp add: token_ok_def single_def)

lemma matcher_ok:
  assumes u: "utf8 v" and s: "start < length v" "is_ascii (v ! start)" "boundary v start" and k: "k \<noteq> Eof"
  shows "token_ok v start (matcher v k start)"
proof (cases "byte_get v (start + 1) = Some 0x3D")
  case True
  then have n: "start + 1 < length v" "is_ascii (v ! (start + 1))" by (auto simp: byte_get_def is_ascii_def split: if_splits)
  have "ascii_on v start (start + 2)" using s(2) n(2) by (auto simp: ascii_on_def less_Suc_eq)
  moreover have "boundary v (start + 2)" using boundary_ascii [OF u n] by simp
  ultimately show ?thesis using True s k by (simp add: matcher_def token_ok_def)
next
  case False
  then show ?thesis using single_ok [OF u s] by (simp add: matcher_def)
qed

lemma named_ok:
  assumes u: "utf8 v" and s: "start < length v" "is_ascii (v ! start)" "boundary v start" and k: "k \<noteq> Eof"
  shows "\<exists>t. named v k start = Some t \<and> token_ok v start t"
proof -
  have b: "boundary v (start + 1)" by (rule boundary_ascii [OF u s(1,2)])
  obtain e fl where e: "scan_name_with_flags v (start + 1) = Some (e, fl)" "start + 1 \<le> e" "boundary v e" "tf_ascii fl \<longleftrightarrow> ascii_on v (start + 1) e"
    using scan_name_spec [OF u b] by blast
  then have "tf_ascii fl \<longleftrightarrow> ascii_on v start e" using ascii_on_split [of start "start + 1" e v] s(2) by simp
  then show ?thesis using e b k by (simp add: named_def token_ok_def)
qed

lemma numeric_ok:
  assumes u: "utf8 v" and b: "boundary v start" and n: "starts_number_at v start"
  shows "\<exists>t. scan_numeric v start = Some t \<and> token_ok v start t"
proof -
  define e where "e = scan_number_end v start"
  have e: "start < e" "boundary v e" "ascii_on v start e"
    using number_progress [OF n] number_end_spec [OF u b] by (simp_all add: e_def ascii_to_def)
  show ?thesis
  proof (cases "byte_get v e = Some 0x25")
    case True
    then have p: "e < length v" "is_ascii (v ! e)" by (auto simp: byte_get_def is_ascii_def split: if_splits)
    have "ascii_on v start (e + 1)" using ascii_on_split [of start e "e + 1" v] e p(2) by simp
    then show ?thesis using True e b boundary_ascii [OF u p] by (simp add: scan_numeric_def e_def [symmetric] token_ok_def)
  next
    case no_percent: False
    show ?thesis
    proof (cases "starts_ident_at v e")
      case True
      obtain j fl where j: "scan_name_with_flags v e = Some (j, fl)" "e \<le> j" "boundary v j" "tf_ascii fl \<longleftrightarrow> ascii_on v e j"
        using scan_name_spec [OF u e(2)] by blast
      then have "tf_ascii fl \<longleftrightarrow> ascii_on v start j" using ascii_on_split [of start e j v] e by simp
      then show ?thesis using j e b no_percent True by (simp add: scan_numeric_def e_def [symmetric] token_ok_def)
    next
      case False
      then show ?thesis using e b no_percent by (simp add: scan_numeric_def e_def [symmetric] token_ok_def)
    qed
  qed
qed

lemma ident_like_ok:
  assumes u: "utf8 v" and m: "memchr_ok mem" and b: "boundary v start" and s: "starts_ident_at v start"
  shows "\<exists>t k. scan_ident_like mem v start = Some (t, k) \<and> token_ok v start t"
proof -
  obtain n fl where n: "scan_name_with_flags v start = Some (n, fl)" "boundary v n" "tf_ascii fl \<longleftrightarrow> ascii_on v start n"
    using scan_name_spec [OF u b] by blast
  have progress: "start < n" by (rule name_progress [OF s n(1)])
  show ?thesis
  proof (cases "byte_get v n = Some 0x28")
    case False
    then show ?thesis using n progress b by (simp add: scan_ident_like_def token_ok_def)
  next
    case True
    then have p: "n < length v" "is_ascii (v ! n)" by (auto simp: byte_get_def is_ascii_def split: if_splits)
    have o: "boundary v (n + 1)" by (rule boundary_ascii [OF u p])
    have ao: "ascii_on v start (n + 1) \<longleftrightarrow> ascii_on v start n" using ascii_on_split [of start n "n + 1" v] progress p(2) by simp
    define k where "k = classify (slice_bytes v start n) fl"
    define cs where "cs = skip_white_space v (Suc n)"
    have cs: "n + 1 \<le> cs" "boundary v cs" "ascii_on v (n + 1) cs"
      using scan_while_ascii [OF u o ascii_classes(6)] scan_while_spec(1) [of "Suc n" is_white_space v]
      by (simp_all add: cs_def skip_white_space_def)
    show ?thesis
    proof (cases "k = FkUrl \<and> byte_get v cs \<noteq> Some 0x22 \<and> byte_get v cs \<noteq> Some 0x27")
      case True
      obtain t where t: "scan_url mem v cs = Some t" "url_ok v True cs cs t" using scan_url_scalar [OF u m cs(2)] by auto
      obtain uk e vs ve ufl where t': "t = (uk, e, vs, ve, ufl)" by (cases t)
      have u': "uk = Url \<or> uk = BadUrl" "cs \<le> e" "boundary v e" "vs = cs" "cs \<le> ve" "ve \<le> e" "boundary v ve" "tf_ascii ufl \<longleftrightarrow> ascii_on v cs e"
        using t(2) by (auto simp: url_ok_def t')
      have "ascii_on v start e \<longleftrightarrow> ascii_on v start n \<and> ascii_on v cs e"
        using ascii_on_split [of start "n + 1" e v] ascii_on_split [of "n + 1" cs e v] progress cs u'(2) ao by auto
      then have "token_ok v start (uk, e, vs, ve, flags_merge fl ufl)"
        using u' n(3) progress cs by (auto simp: token_ok_def)
      moreover have "scan_ident_like mem v start = Some ((uk, e, vs, ve, flags_merge fl ufl), k)"
        using n(1) \<open>byte_get v n = Some 0x28\<close> True t(1)
        by (simp add: scan_ident_like_def k_def [symmetric] cs_def [symmetric] t' Let_def)
      ultimately show ?thesis by blast
    next
      case False
      have "token_ok v start (Function, n + 1, start, n, fl)" using n progress b o ao by (simp add: token_ok_def)
      moreover have "scan_ident_like mem v start = Some ((Function, n + 1, start, n, fl), k)"
        using n(1) \<open>byte_get v n = Some 0x28\<close> False unfolding scan_ident_like_def
        by (auto simp: k_def [symmetric] cs_def [symmetric] Let_def)
      ultimately show ?thesis by blast
    qed
  qed
qed

lemma whitespace_ok:
  assumes u: "utf8 v" and b: "boundary v start" and w: "start < length v" "is_white_space (v ! start)"
  shows "token_ok v start (scan_whitespace v start)"
proof -
  have "start < scan_while is_white_space v start"
    using scan_while_spec(1) [of "Suc start" is_white_space v] scan_while_step [of start v is_white_space, OF w] by simp
  then show ?thesis using scan_while_ascii [OF u b ascii_classes(6)] b by (simp add: scan_whitespace_def token_ok_def Let_def)
qed

lemma ascii_start:
  assumes "start < length v" "\<not> starts_ident_at v start" "v ! start \<noteq> 0x2D" "v ! start \<noteq> 0x5C"
  shows "is_ascii (v ! start)"
  using assms by (auto simp: starts_ident_at_def byte_get_def is_name_start_byte_def)

definition scans :: "u8 list \<Rightarrow> nat \<Rightarrow> (token_parts \<times> function_kind) option \<Rightarrow> bool" where
  "scans v start r \<longleftrightarrow> (\<exists>t k. r = Some (t, k) \<and> token_ok v start t)"

lemma scans_if: "(c \<Longrightarrow> scans v start r) \<Longrightarrow> (\<not> c \<Longrightarrow> scans v start r') \<Longrightarrow> scans v start (if c then r else r')"
  by simp

lemma scans_other: "\<exists>t. r = Some t \<and> token_ok v start t \<Longrightarrow> scans v start (other_kind r)"
  by (auto simp: scans_def other_kind_def)

lemma scans_some: "token_ok v start t \<Longrightarrow> scans v start (other_kind (Some t))"
  by (simp add: scans_other)

lemma scan_token_ok:
  assumes u: "utf8 v" and m: "memchr_ok mem" and b: "boundary v start" and len: "start < length v"
  shows "scans v start (scan_token mem v start (v ! start))"
proof -
  let ?b = "v ! start"
  have single: "scans v start (other_kind (Some (single k start)))" if "is_ascii ?b" "k \<noteq> Eof" for k
    using single_ok [OF u len that(1) b that(2)] by (rule scans_some)
  have matcher: "scans v start (other_kind (Some (matcher v k start)))" if "is_ascii ?b" "k \<noteq> Eof" for k
    using matcher_ok [OF u len that(1) b that(2)] by (rule scans_some)
  have named: "scans v start (other_kind (named v k start))" if "is_ascii ?b" "k \<noteq> Eof" for k
    using named_ok [OF u len that(1) b that(2)] by (rule scans_other)
  have numeric: "scans v start (other_kind (scan_numeric v start))" if "starts_number_at v start"
    using numeric_ok [OF u b that] by (rule scans_other)
  have digit: "starts_number_at v start" if "is_ascii_digit ?b"
    using that len by (auto simp: starts_number_at_def byte_get_def is_ascii_digit_def)
  have ident: "scans v start (scan_ident_like mem v start)" if "starts_ident_at v start"
    using ident_like_ok [OF u m b that] by (simp add: scans_def)
  have escape: "starts_ident_at v start" if "is_valid_escape_at v start"
    using that len valid_escapeD [OF that] by (simp add: starts_ident_at_def byte_get_def)
  have space: "scans v start (other_kind (Some (scan_whitespace v start)))" if "is_white_space ?b"
    using whitespace_ok [OF u b len that] by (rule scans_some)
  have str: "scans v start (other_kind (scan_string mem v start ?b))" if "?b = 0x22 \<or> ?b = 0x27"
    by (rule scans_other) (use scan_string_scalar [OF u m _ len refl] that in \<open>unfold is_quote_def, blast\<close>)
  have comment: "scans v start (other_kind (scan_comment v start))" if "?b = 0x2F" "byte_get v (start + 1) = Some 0x2A"
    using scan_comment_ok [OF u b len that] by (rule scans_other)
  have other: "is_ascii ?b" if "\<not> starts_ident_at v start" "?b \<noteq> 0x2D" "?b \<noteq> 0x5C"
    using ascii_start [OF len that] .
  show ?thesis
    unfolding scan_token_def if_distrib [of other_kind]
    by (intro scans_if) (use single matcher named numeric digit ident escape space str comment other in \<open>auto simp: is_ascii_def\<close>)
qed

section \<open>One token\<close>

definition lexer_ok :: "lexer \<Rightarrow> bool" where
  "lexer_ok lx \<longleftrightarrow> utf8 (lx_value lx) \<and> length (lx_value lx) < 2 ^ 32 \<and> boundary (lx_value lx) (unat (lx_scan_pos lx))"

lemma pos_of_nat: "n \<le> length v \<Longrightarrow> length v < 2 ^ 32 \<Longrightarrow> unat (of_nat n :: u32) = n"
  by (simp add: unat_of_nat take_bit_nat_eq_self)

text \<open>The visitor's part of a token.\<close>

definition visits :: "u8 list \<Rightarrow> token \<Rightarrow> (u8 list \<times> css_range) list" where
  "visits v t = (if tok_kind t = Ident \<or> tok_kind t = Function
     then [(slice_bytes v (unat (range_start (tok_value_range t))) (unat (range_end (tok_value_range t))), tok_value_range t)] else [])"

text \<open>What is right about a token from \<open>i\<close> to \<open>j\<close> of a text.\<close>

definition token_right :: "u8 list \<Rightarrow> nat \<Rightarrow> nat \<Rightarrow> token \<Rightarrow> bool" where
  "token_right v i j t \<longleftrightarrow> i < j \<and> j \<le> length v \<and> unat (range_start (tok_range t)) = i \<and> unat (range_end (tok_range t)) = j \<and>
     boundary v i \<and> boundary v j \<and>
     boundary v (unat (range_start (tok_value_range t))) \<and> boundary v (unat (range_end (tok_value_range t))) \<and>
     i \<le> unat (range_start (tok_value_range t)) \<and> range_start (tok_value_range t) \<le> range_end (tok_value_range t) \<and>
     unat (range_end (tok_value_range t)) \<le> j \<and> tok_kind t \<noteq> Eof \<and>
     (tf_ascii (tok_flags t) \<longleftrightarrow> list_all is_ascii (slice_bytes v i j))"

lemma next_token_step:
  assumes ok: "lexer_ok lx" and m: "memchr_ok mem" and len: "unat (lx_scan_pos lx) < length (lx_value lx)"
  shows "\<exists>t lx'. next_token mem lx = Some (t, lx') \<and> lexer_ok lx' \<and> lx_value lx' = lx_value lx \<and>
    token_right (lx_value lx) (unat (lx_scan_pos lx)) (unat (lx_scan_pos lx')) t \<and>
    lx_visited lx' = lx_visited lx @ visits (lx_value lx) t"
proof -
  let ?v = "lx_value lx" and ?s = "unat (lx_scan_pos lx)"
  have u: "utf8 ?v" "length ?v < 2 ^ 32" "boundary ?v ?s" using ok by (simp_all add: lexer_ok_def)
  obtain t k where t: "scan_token mem ?v ?s (?v ! ?s) = Some (t, k)" "token_ok ?v ?s t"
    using scan_token_ok [OF u(1) m u(3) len] by (auto simp: scans_def)
  obtain kind e vs ve fl where t': "t = (kind, e, vs, ve, fl)" by (cases t)
  have r: "?s < e" "boundary ?v e" "?s \<le> vs" "vs \<le> ve" "ve \<le> e" "boundary ?v vs" "boundary ?v ve" "tf_ascii fl \<longleftrightarrow> ascii_on ?v ?s e" "kind \<noteq> Eof"
    using t(2) by (simp_all add: token_ok_def t')
  have le: "e \<le> length ?v" "vs \<le> length ?v" "ve \<le> length ?v" using boundary_le r(2,6,7) by blast+
  have pos: "unat (of_nat e :: u32) = e" "unat (of_nat vs :: u32) = vs" "unat (of_nat ve :: u32) = ve" "unat (of_nat ?s :: u32) = ?s"
    using le len u(2) by (simp_all add: pos_of_nat)
  define tok where "tok = \<lparr>tok_kind = kind, tok_range = \<lparr>range_start = of_nat ?s, range_end = of_nat e\<rparr>,
    tok_value_range = \<lparr>range_start = of_nat vs, range_end = of_nat ve\<rparr>, tok_flags = fl\<rparr>"
  have vr: "(of_nat vs :: u32) \<le> of_nat ve" using r(4) pos by (simp add: word_le_nat_alt)
  define lx1 where "lx1 = lx\<lparr>lx_function_kind := k, lx_scan_pos := of_nat e\<rparr>"
  define lx' where "lx' = lx1\<lparr>lx_visited := lx_visited lx @ visits ?v tok\<rparr>"
  have "next_token_without_visit mem lx = Some (tok, lx1)"
    using t len by (simp add: next_token_without_visit_def Let_def byte_get_def t' tok_def lx1_def)
  moreover have "visit_ident kind (tok_value_range tok) lx1 = Some lx'"
    using vr le(3) pos unfolding visit_ident_def visits_def lx'_def lx1_def tok_def by (auto simp: not_less)
  ultimately have "next_token mem lx = Some (tok, lx')" by (simp add: next_token_def tok_def)
  moreover have "lexer_ok lx'" using u r(2) pos by (simp add: lexer_ok_def lx'_def lx1_def)
  moreover have "token_right ?v ?s (unat (lx_scan_pos lx')) tok"
    using r u(3) le pos vr by (simp add: token_right_def tok_def lx'_def lx1_def slice_ascii)
  ultimately show ?thesis by (intro exI [of _ tok] exI [of _ lx']) (simp add: lx'_def lx1_def)
qed

lemma next_token_eof:
  assumes "length (lx_value lx) < 2 ^ 32" "length (lx_value lx) \<le> unat (lx_scan_pos lx)"
  shows "\<exists>t lx'. next_token mem lx = Some (t, lx') \<and> tok_kind t = Eof \<and> lx_value lx' = lx_value lx \<and>
    unat (lx_scan_pos lx') = length (lx_value lx) \<and> lx_visited lx' = lx_visited lx"
  using assms pos_of_nat [of "length (lx_value lx)" "lx_value lx"]
  by (simp add: next_token_def next_token_without_visit_def Let_def byte_get_def visit_ident_def token_new_def)

section \<open>The whole text\<close>

text \<open>The tokens of a lexer up to the end of the text.\<close>

partial_function (option) lex_all :: "memchr \<Rightarrow> lexer \<Rightarrow> (token list \<times> lexer) option" where
  "lex_all mem lx = Option.bind (next_token mem lx) (\<lambda>(t, lx').
     if tok_kind t = Eof then Some ([], lx')
     else Option.bind (lex_all mem lx') (\<lambda>(ts, lx''). Some (t # ts, lx'')))"

definition token_text :: "u8 list \<Rightarrow> token \<Rightarrow> u8 list" where
  "token_text v t = slice_bytes v (unat (range_start (tok_range t))) (unat (range_end (tok_range t)))"

lemma drop_slice: "i \<le> j \<Longrightarrow> drop i v = slice_bytes v i j @ drop j v"
  unfolding slice_bytes_def by (metis append_take_drop_id drop_append drop_all length_take min_def nat_le_linear append_Nil2 diff_is_0_eq drop_0 drop_take take_drop)

lemma lex_all_tiles:
  assumes m: "memchr_ok mem" and "lexer_ok lx"
  shows "\<exists>ts lx'. lex_all mem lx = Some (ts, lx') \<and>
    concat (map (token_text (lx_value lx)) ts) = drop (unat (lx_scan_pos lx)) (lx_value lx) \<and>
    (\<forall>t \<in> set ts. \<exists>i j. token_right (lx_value lx) i j t) \<and>
    lx_visited lx' = lx_visited lx @ concat (map (visits (lx_value lx)) ts)"
  using assms(2)
proof (induction "length (lx_value lx) - unat (lx_scan_pos lx)" arbitrary: lx rule: less_induct)
  case less
  let ?v = "lx_value lx" and ?s = "unat (lx_scan_pos lx)"
  show ?case
  proof (cases "?s < length ?v")
    case False
    have "length ?v < 2 ^ 32" using less.prems by (simp add: lexer_ok_def)
    then obtain t lx' where "next_token mem lx = Some (t, lx')" "tok_kind t = Eof" "lx_visited lx' = lx_visited lx"
      using next_token_eof [of lx mem] False by auto
    then have "lex_all mem lx = Some ([], lx')" "lx_visited lx' = lx_visited lx" by (simp_all add: lex_all.simps [of mem lx])
    then show ?thesis using False by simp
  next
    case True
    obtain t lx' where t: "next_token mem lx = Some (t, lx')" "lexer_ok lx'" "lx_value lx' = ?v"
      "token_right ?v ?s (unat (lx_scan_pos lx')) t" "lx_visited lx' = lx_visited lx @ visits ?v t"
      using next_token_step [OF less.prems m True] by blast
    let ?e = "unat (lx_scan_pos lx')"
    have r: "?s < ?e" "?e \<le> length ?v" "tok_kind t \<noteq> Eof" "token_text ?v t = slice_bytes ?v ?s ?e"
      using t(4) by (simp_all add: token_right_def token_text_def)
    have "length (lx_value lx') - ?e < length ?v - ?s" using r t(3) by simp
    from less.hyps [OF this t(2)]
    obtain ts lx'' where ts: "lex_all mem lx' = Some (ts, lx'')" "concat (map (token_text ?v) ts) = drop ?e ?v"
      "\<forall>t \<in> set ts. \<exists>i j. token_right ?v i j t" "lx_visited lx'' = lx_visited lx' @ concat (map (visits ?v) ts)"
      unfolding t(3) by blast
    have "lex_all mem lx = Some (t # ts, lx'')" using t(1) r(3) ts(1) by (simp add: lex_all.simps [of mem lx])
    moreover have "concat (map (token_text ?v) (t # ts)) = drop ?s ?v" using ts(2) r drop_slice [of ?s ?e ?v] by simp
    moreover have "\<forall>x \<in> set (t # ts). \<exists>i j. token_right ?v i j x" using ts(3) t(4) by auto
    moreover have "lx_visited lx'' = lx_visited lx @ concat (map (visits ?v) (t # ts))" using ts(4) t(5) by simp
    ultimately show ?thesis by blast
  qed
qed

text \<open>Concrete inputs.\<close>

definition mem_first :: memchr where
  "mem_first needles hay = (let n = length (takeWhile (\<lambda>b. b \<notin> set needles) hay) in if n < length hay then Some n else None)"

lemma mem_first_ok: "memchr_ok mem_first"
  by (simp add: memchr_ok_def mem_first_def)

text \<open>The text \<open>u{"\<dots>"}\<close> with a two-byte character in the string.\<close>

definition sample_css :: "u8 list" where
  "sample_css = [0x75, 0x7B, 0x22, 0xC3, 0xA9, 0x22, 0x7D]"

lemma sample_css_utf8: "utf8 sample_css"
proof -
  have "\<forall>i \<in> set [0..<7]. is_cont (sample_css ! i) \<longleftrightarrow> i = 4" by code_simp
  then have c: "is_cont (sample_css ! i) \<longleftrightarrow> i = 4" if "i < 7" for i using that by simp
  have n: "length sample_css = 7" by (simp add: sample_css_def)
  have "\<forall>i \<in> set [0..<7]. utf8_width (sample_css ! i) = (if i = 3 \<or> i = 4 then 2 else 1)" by code_simp
  then have w: "utf8_width (sample_css ! i) = (if i = 3 \<or> i = 4 then 2 else 1)" if "i < 7" for i using that by simp
  show ?thesis unfolding utf8_def boundary_def n using c w by auto
qed

text \<open>
  C25. Tokenizing any text terminates without a panic and loses nothing: the ranges of the tokens in order spell the text,
  and the visitor has seen exactly the names of the identifier and function tokens.
\<close>

theorem tokens_spell_the_text:
  assumes "memchr_ok mem" "utf8 v" "length v < 2 ^ 32"
  shows "\<exists>lx ts lx'. lexer_new v = Some lx \<and> lex_all mem lx = Some (ts, lx') \<and> concat (map (token_text v) ts) = v \<and>
    lx_visited lx' = concat (map (visits v) ts)"
proof -
  define lx where "lx = \<lparr>lx_value = v, lx_scan_pos = 0, lx_visited = [], lx_function_kind = FkOther\<rparr>"
  have "lexer_new v = Some lx" using assms(3) by (simp add: lexer_new_def lx_def)
  moreover have "lexer_ok lx" using assms(2,3) by (simp add: lexer_ok_def lx_def utf8_def)
  ultimately show ?thesis using lex_all_tiles [OF assms(1), of lx] by (auto simp: lx_def)
qed

theorem tokens_spell_the_text_witness:
  "\<exists>lx ts lx'. lexer_new sample_css = Some lx \<and> lex_all mem_first lx = Some (ts, lx') \<and> concat (map (token_text sample_css) ts) = sample_css"
proof -
  have "length sample_css < 2 ^ 32" by (simp add: sample_css_def)
  from tokens_spell_the_text [OF mem_first_ok sample_css_utf8 this] show ?thesis by blast
qed

text \<open>
  C27. Before the end of the input, \<open>next_token\<close> returns a token that starts at the scan position and ends behind it, within the text; the
  value lies inside the token, both on character boundaries, so slicing them never fails; the positions fit 32 bits;
  and the ASCII flag is set exactly when all bytes of the token are ASCII.
\<close>

theorem next_token_bounds:
  assumes "memchr_ok mem" "lexer_ok lx" "unat (lx_scan_pos lx) < length (lx_value lx)"
  shows "\<exists>t lx'. next_token mem lx = Some (t, lx') \<and> lexer_ok lx' \<and> tok_kind t \<noteq> Eof \<and>
    range_start (tok_range t) = lx_scan_pos lx \<and> range_end (tok_range t) = lx_scan_pos lx' \<and> lx_scan_pos lx < lx_scan_pos lx' \<and>
    unat (lx_scan_pos lx') \<le> length (lx_value lx) \<and>
    range_start (tok_range t) \<le> range_start (tok_value_range t) \<and> range_end (tok_value_range t) \<le> range_end (tok_range t) \<and>
    slice_range (lx_value lx) (tok_range t) = Some (token_text (lx_value lx) t) \<and>
    slice_range (lx_value lx) (tok_value_range t) \<noteq> None \<and>
    (tf_ascii (tok_flags t) \<longleftrightarrow> list_all is_ascii (token_text (lx_value lx) t))"
proof -
  let ?v = "lx_value lx"
  obtain t lx' where t: "next_token mem lx = Some (t, lx')" "lexer_ok lx'" "token_right ?v (unat (lx_scan_pos lx)) (unat (lx_scan_pos lx')) t"
    using next_token_step [OF assms(2,1,3)] by blast
  have cb: "is_char_boundary ?v i" if "boundary ?v i" for i
    using that by (auto simp: is_char_boundary_def boundary_def is_cont_def)
  note r = t(3) [unfolded token_right_def]
  have s: "slice_range ?v (tok_range t) = Some (token_text ?v t)"
    using r cb by (auto simp: slice_range_def token_text_def word_less_nat_alt not_less)
  have sv: "slice_range ?v (tok_value_range t) \<noteq> None"
    using r cb by (auto simp: slice_range_def not_less)
  have a: "range_start (tok_range t) = lx_scan_pos lx" "range_end (tok_range t) = lx_scan_pos lx'"
    using r by (auto intro: unsigned_word_eqI)
  have b: "lx_scan_pos lx < lx_scan_pos lx'" "unat (lx_scan_pos lx') \<le> length ?v"
    "range_start (tok_range t) \<le> range_start (tok_value_range t)" "range_end (tok_value_range t) \<le> range_end (tok_range t)"
    using r by (auto simp: word_le_nat_alt word_less_nat_alt)
  have c: "tok_kind t \<noteq> Eof" "tf_ascii (tok_flags t) \<longleftrightarrow> list_all is_ascii (token_text ?v t)"
    using r by (auto simp: token_text_def)
  show ?thesis using t(1,2) a b c s sv by blast
qed

text \<open>
  C26. The bulk searches of strings, URLs and bad URLs change nothing: each scan is the scalar loop over the rest of the text.
\<close>

theorem bulk_search_correct:
  assumes "memchr_ok mem" "utf8 v"
  shows "(\<forall>start. start < length v \<longrightarrow> is_quote (v ! start) \<longrightarrow> scan_string mem v start (v ! start) =
      scalar_loop (string_step v start (v ! start)) (\<lambda>i fl. (BadString, i, start + 1, i, fl)) (length v) (start + 1) flags_ascii) \<and>
    (\<forall>i cs fl. boundary v i \<longrightarrow> scan_bad_url mem v i cs fl = bad_url_scalar v i cs fl) \<and>
    (\<forall>cs. boundary v cs \<longrightarrow> scan_url mem v cs = url_scalar v cs)"
  using scan_string_scalar [OF assms(2,1) _ _ refl] scan_bad_url_scalar(1) [OF assms(2,1) inv_start] scan_url_scalar(1) [OF assms(2,1)]
  by simp

theorem bulk_search_witness:
  "scan_string mem_first sample_css 2 0x22 =
    scalar_loop (string_step sample_css 2 0x22) (\<lambda>i fl. (BadString, i, 3, i, fl)) 7 3 flags_ascii"
proof -
  have "2 < length sample_css" "is_quote (sample_css ! 2)" "sample_css ! 2 = 0x22" "length sample_css = 7"
    by (simp_all add: sample_css_def is_quote_def)
  then show ?thesis using bulk_search_correct [OF mem_first_ok sample_css_utf8] by fastforce
qed

theorem next_token_bounds_witness:
  "\<exists>lx t lx'. next_token mem_first lx = Some (t, lx') \<and> lx_value lx = sample_css \<and> lx_scan_pos lx = 2 \<and> 2 < lx_scan_pos lx'"
proof -
  define lx where "lx = \<lparr>lx_value = sample_css, lx_scan_pos = 2, lx_visited = [], lx_function_kind = FkOther\<rparr>"
  have "lexer_ok lx" "unat (lx_scan_pos lx) < length (lx_value lx)" "lx_scan_pos lx = 2" "lx_value lx = sample_css"
    using sample_css_utf8 by (simp_all add: lexer_ok_def lx_def sample_css_def boundary_def is_cont_def)
  then show ?thesis using next_token_bounds [OF mem_first_ok, of lx] by (intro exI [of _ lx]) auto
qed

end
