(* ===== verification/Storage_Fs.thy ===== *)
theory Storage_Fs
  imports Css_Syntax
begin

text \<open>
  The file system under the persistent cache.  \<open>crates/rspack_fs/src/memory_fs.rs\<close> (\<open>MemoryFileSystem\<close>) and
  \<open>crates/rspack_storage/src/filesystem/scope_fs.rs\<close>.  A path is the list of its components, the root being the component
  \<open>/\<close>; a text is the list of its UTF-8 bytes.  Of the metadata of a node its kind and its size are kept.

  An operation is a function of the disk that returns an outcome and the disk.  Each change of the disk takes one of the
  \<open>dk_steps\<close>; when they are used up the process dies, which no code can catch.  \<open>None\<close> is a process that does not die.
\<close>

section \<open>Outcomes\<close>

text \<open>\<open>std::io::Error\<close>: its kind and the text it displays.\<close>

datatype io_kind = NotFound | UnexpectedEof | OtherKind

record io_error =
  ioe_kind :: io_kind
  ioe_text :: "u8 list"

text \<open>The texts of the two format errors are left out.\<close>

datatype storage_error = FsError io_error | InvalidFormat | CorruptedData

datatype 'a outcome = Ret 'a | Fail storage_error | Panic | Crash

datatype node = Dir | File "u8 list"

type_synonym path = "u8 list list"

record disk =
  dk_files :: "path \<rightharpoonup> node"
  dk_steps :: "nat option"

type_synonym 'a io = "disk \<Rightarrow> 'a outcome \<times> disk"

definition io_return :: "'a \<Rightarrow> 'a io" where
  "io_return x d = (Ret x, d)"

definition io_fail :: "storage_error \<Rightarrow> 'a io" where
  "io_fail e d = (Fail e, d)"

definition io_panic :: "'a io" where
  "io_panic d = (Panic, d)"

definition io_bind :: "'a io \<Rightarrow> ('a \<Rightarrow> 'b io) \<Rightarrow> 'b io" where
  "io_bind m f d = (case m d of
      (Ret x, d') \<Rightarrow> f x d'
    | (Fail e, d') \<Rightarrow> (Fail e, d')
    | (Panic, d') \<Rightarrow> (Panic, d')
    | (Crash, d') \<Rightarrow> (Crash, d'))"

text \<open>The error of an operation as a value.\<close>

definition io_try :: "'a io \<Rightarrow> (storage_error + 'a) io" where
  "io_try m d = (case m d of
      (Ret x, d') \<Rightarrow> (Ret (Inr x), d')
    | (Fail e, d') \<Rightarrow> (Ret (Inl e), d')
    | (Panic, d') \<Rightarrow> (Panic, d')
    | (Crash, d') \<Rightarrow> (Crash, d'))"

definition io_ignore :: "'a io \<Rightarrow> unit io" where
  "io_ignore m = io_bind (io_try m) (\<lambda>_. io_return ())"

fun io_each :: "('a \<Rightarrow> unit io) \<Rightarrow> 'a list \<Rightarrow> unit io" where
  "io_each f [] = io_return ()"
| "io_each f (x # xs) = io_bind (f x) (\<lambda>_. io_each f xs)"

fun io_fold :: "('a \<Rightarrow> 's \<Rightarrow> 's io) \<Rightarrow> 'a list \<Rightarrow> 's \<Rightarrow> 's io" where
  "io_fold f [] s = io_return s"
| "io_fold f (x # xs) s = io_bind (f x s) (io_fold f xs)"

definition io_read :: "((path \<rightharpoonup> node) \<Rightarrow> 'a) \<Rightarrow> 'a io" where
  "io_read g d = (Ret (g (dk_files d)), d)"

definition io_change :: "((path \<rightharpoonup> node) \<Rightarrow> (path \<rightharpoonup> node)) \<Rightarrow> unit io" where
  "io_change g d = (case dk_steps d of
      Some 0 \<Rightarrow> (Crash, d)
    | Some (Suc n) \<Rightarrow> (Ret (), d\<lparr>dk_files := g (dk_files d), dk_steps := Some n\<rparr>)
    | None \<Rightarrow> (Ret (), d\<lparr>dk_files := g (dk_files d)\<rparr>))"

section \<open>Errors\<close>

definition new_error :: "string \<Rightarrow> storage_error" where
  "new_error msg = FsError \<lparr>ioe_kind = OtherKind, ioe_text = bytes msg\<rparr>"

definition not_found :: storage_error where
  "not_found = FsError \<lparr>ioe_kind = NotFound, ioe_text = bytes ''file not exist''\<rparr>"

definition unexpected_eof :: storage_error where
  "unexpected_eof = FsError \<lparr>ioe_kind = UnexpectedEof, ioe_text = bytes ''failed to fill whole buffer''\<rparr>"

definition text_contains :: "u8 list \<Rightarrow> u8 list \<Rightarrow> bool" where
  "text_contains s needle = list_ex (\<lambda>i. starts_with (drop i s) needle) [0..<Suc (length s)]"

fun is_not_found :: "storage_error \<Rightarrow> bool" where
  "is_not_found (FsError e) =
    (ioe_kind e = NotFound \<or>
     (let content = map to_ascii_lowercase (ioe_text e)
      in text_contains content (bytes ''no such file'') \<or> text_contains content (bytes ''not exist'')))"
| "is_not_found _ = False"

section \<open>The memory file system\<close>

definition path_starts_with :: "path \<Rightarrow> path \<Rightarrow> bool" where
  "path_starts_with p dir = (take (length dir) p = dir)"

definition path_parent :: "path \<Rightarrow> path option" where
  "path_parent p = (if p = [] \<or> p = [[0x2F]] then None else Some (butlast p))"

definition contains_dir :: "path \<Rightarrow> bool io" where
  "contains_dir dir = io_bind (io_read (\<lambda>files. files dir)) (\<lambda>ft. case ft of
      Some Dir \<Rightarrow> io_return True
    | Some (File _) \<Rightarrow> io_fail (new_error ''invalid dir path'')
    | None \<Rightarrow> io_return False)"

definition contains_file :: "path \<Rightarrow> bool io" where
  "contains_file file = io_bind (io_read (\<lambda>files. files file)) (\<lambda>ft. case ft of
      Some (File _) \<Rightarrow> io_return True
    | Some Dir \<Rightarrow> io_fail (new_error ''invalid file path'')
    | None \<Rightarrow> io_return False)"

definition fs_remove_file :: "path \<Rightarrow> unit io" where
  "fs_remove_file file = io_bind (contains_file file) (\<lambda>found.
     if found then io_change (\<lambda>files. files(file := None)) else io_return ())"

definition fs_remove_dir_all :: "path \<Rightarrow> unit io" where
  "fs_remove_dir_all dir = io_bind (contains_dir dir) (\<lambda>found.
     if found then io_change (\<lambda>files p. if path_starts_with p dir then None else files p) else io_return ())"

definition rename_file :: "path \<Rightarrow> path \<Rightarrow> unit io" where
  "rename_file src dst = io_bind (contains_file src) (\<lambda>found.
     if \<not> found then io_fail (new_error ''from file not exist'')
     else io_bind (fs_remove_file dst) (\<lambda>_.
       io_change (\<lambda>files. (files(src := None))(dst := files src))))"

definition rename_dir :: "path \<Rightarrow> path \<Rightarrow> unit io" where
  "rename_dir src dst =
    (if path_starts_with dst src then io_fail (new_error ''cannot rename into itself'')
     else io_bind (contains_dir src) (\<lambda>found.
       if \<not> found then io_fail (new_error ''from dir not exist'')
       else io_bind (io_read (\<lambda>files. files dst)) (\<lambda>target.
         if target \<noteq> None then io_fail (new_error ''target path already exist'')
         else io_change (\<lambda>files p.
           if path_starts_with p dst \<and> files (src @ drop (length dst) p) \<noteq> None then files (src @ drop (length dst) p)
           else if path_starts_with p src then None
           else files p))))"

definition rename_path :: "path \<Rightarrow> path \<Rightarrow> unit io" where
  "rename_path src dst =
    (if src = dst then io_return ()
     else case path_parent dst of
       None \<Rightarrow> io_fail (new_error ''target parent dir not exist'')
     | Some parent \<Rightarrow> io_bind (contains_dir parent) (\<lambda>found.
         if \<not> found then io_fail (new_error ''target parent dir not exist'')
         else io_bind (io_read (\<lambda>files. files src)) (\<lambda>ft. case ft of
             None \<Rightarrow> io_fail not_found
           | Some (File _) \<Rightarrow> rename_file src dst
           | Some Dir \<Rightarrow> rename_dir src dst)))"

lemma path_parent_length: "path_parent p = Some q \<Longrightarrow> length q < length p"
  by (auto simp: path_parent_def split: if_splits)

function fs_create_dir_all :: "path \<Rightarrow> unit io" where
  "fs_create_dir_all dir = io_bind (contains_dir dir) (\<lambda>found.
     if found then io_return ()
     else io_bind (case path_parent dir of None \<Rightarrow> io_return () | Some p \<Rightarrow> fs_create_dir_all p) (\<lambda>_.
       io_change (\<lambda>files. files(dir \<mapsto> Dir))))"
  by pat_completeness auto
termination fs_create_dir_all
  by (relation "measure length") (auto dest: path_parent_length)

declare fs_create_dir_all.simps [simp del]

definition fs_create_dir :: "path \<Rightarrow> unit io" where
  "fs_create_dir dir = io_bind (contains_dir dir) (\<lambda>found.
     if found then io_return ()
     else io_bind (case path_parent dir of None \<Rightarrow> io_return True | Some p \<Rightarrow> contains_dir p) (\<lambda>parent.
       if \<not> parent then io_fail (new_error ''parent directory not exist'')
       else io_change (\<lambda>files. files(dir \<mapsto> Dir))))"

definition fs_write :: "path \<Rightarrow> u8 list \<Rightarrow> unit io" where
  "fs_write file data = io_bind (io_read (\<lambda>files. files file)) (\<lambda>ft. case ft of
      Some (File _) \<Rightarrow> io_change (\<lambda>files. files(file \<mapsto> File data))
    | Some Dir \<Rightarrow> io_fail (new_error ''invalid file path'')
    | None \<Rightarrow> (case path_parent file of
        None \<Rightarrow> io_panic
      | Some p \<Rightarrow> io_bind (contains_dir p) (\<lambda>found.
          if \<not> found then io_fail (new_error ''parent dir not exist'')
          else io_change (\<lambda>files. files(file \<mapsto> File data)))))"

definition fs_read :: "path \<Rightarrow> u8 list io" where
  "fs_read file = io_bind (io_read (\<lambda>files. files file)) (\<lambda>ft. case ft of
      Some (File content) \<Rightarrow> io_return content
    | _ \<Rightarrow> io_fail not_found)"

definition fs_metadata :: "path \<Rightarrow> node io" where
  "fs_metadata p = io_bind (io_read (\<lambda>files. files p)) (\<lambda>ft. case ft of
      Some n \<Rightarrow> io_return n
    | None \<Rightarrow> io_fail not_found)"

section \<open>Streams\<close>

text \<open>A read stream is the bytes behind its cursor; a write stream is its file and what it will put there when flushed.\<close>

type_synonym reader = "u8 list"

text \<open>
  The buffer of \<open>read(n)\<close> is \<open>vec![0u8; n]\<close>, which panics (\<open>None\<close>) when \<open>n\<close> exceeds \<open>isize::MAX\<close>.  No stream has as
  many bytes, so the panic is looked for where the stream is too short.
\<close>

definition stream_read_exact :: "nat \<Rightarrow> reader \<Rightarrow> (storage_error + u8 list \<times> reader) option" where
  "stream_read_exact n r =
    (if n \<le> length r then Some (Inr (take n r, drop n r))
     else if n \<ge> 2 ^ 63 then None else Some (Inl unexpected_eof))"

definition stream_read_until :: "u8 \<Rightarrow> reader \<Rightarrow> u8 list \<times> reader" where
  "stream_read_until b r = (takeWhile (\<lambda>c. c \<noteq> b) r, tl (dropWhile (\<lambda>c. c \<noteq> b) r))"

text \<open>Well-formed UTF-8, after the table of the Unicode standard: what \<open>String::from_utf8\<close> accepts.\<close>

definition in_range :: "u8 \<Rightarrow> u8 \<Rightarrow> u8 \<Rightarrow> bool" where
  "in_range lo hi b = (lo \<le> b \<and> b \<le> hi)"

fun from_utf8_ok :: "u8 list \<Rightarrow> bool" where
  "from_utf8_ok [] = True"
| "from_utf8_ok (a # s) =
    (if a < 0x80 then from_utf8_ok s
     else if in_range 0xC2 0xDF a then
       (case s of b # s \<Rightarrow> in_range 0x80 0xBF b \<and> from_utf8_ok s | _ \<Rightarrow> False)
     else if in_range 0xE0 0xEF a then
       (case s of b # c # s \<Rightarrow>
          in_range (if a = 0xE0 then 0xA0 else 0x80) (if a = 0xED then 0x9F else 0xBF) b \<and> in_range 0x80 0xBF c \<and> from_utf8_ok s
        | _ \<Rightarrow> False)
     else if in_range 0xF0 0xF4 a then
       (case s of b # c # d # s \<Rightarrow>
          in_range (if a = 0xF0 then 0x90 else 0x80) (if a = 0xF4 then 0x8F else 0xBF) b \<and> in_range 0x80 0xBF c \<and>
          in_range 0x80 0xBF d \<and> from_utf8_ok s
        | _ \<Rightarrow> False)
     else False)"

definition stream_read_line :: "reader \<Rightarrow> storage_error + u8 list \<times> reader" where
  "stream_read_line r = (case stream_read_until 0x0A r of (line, r') \<Rightarrow>
     if from_utf8_ok line then Inr (line, r') else Inl (new_error ''invalid utf8 line''))"

record stream_writer =
  sw_file :: path
  sw_contents :: "u8 list"

definition stream_put :: "u8 list \<Rightarrow> stream_writer \<Rightarrow> stream_writer" where
  "stream_put data w = w\<lparr>sw_contents := sw_contents w @ data\<rparr>"

definition stream_put_line :: "u8 list \<Rightarrow> stream_writer \<Rightarrow> stream_writer" where
  "stream_put_line line w = stream_put [0x0A] (stream_put line w)"

text \<open>\<open>write_all\<close> of the memory stream replaces what was written before it.\<close>

definition stream_put_all :: "u8 list \<Rightarrow> stream_writer \<Rightarrow> stream_writer" where
  "stream_put_all data w = w\<lparr>sw_contents := data\<rparr>"

definition stream_flush :: "stream_writer \<Rightarrow> unit io" where
  "stream_flush w = fs_write (sw_file w) (sw_contents w)"

section \<open>Scoped file systems\<close>

text \<open>The components of a relative path, and \<open>join\<close>: an absolute path replaces the base.\<close>

fun split_at_byte :: "u8 \<Rightarrow> u8 list \<Rightarrow> u8 list list" where
  "split_at_byte sep [] = [[]]"
| "split_at_byte sep (b # s) =
    (if b = sep then [] # split_at_byte sep s
     else case split_at_byte sep s of w # ws \<Rightarrow> (b # w) # ws | [] \<Rightarrow> [[b]])"

definition path_components :: "u8 list \<Rightarrow> path" where
  "path_components s =
    (if byte_get s 0 = Some 0x2F then [[0x2F]] else []) @
    filter (\<lambda>c. c \<noteq> [] \<and> c \<noteq> [0x2E]) (split_at_byte 0x2F s)"

definition path_join :: "path \<Rightarrow> u8 list \<Rightarrow> path" where
  "path_join p s = (if byte_get s 0 = Some 0x2F then path_components s else p @ path_components s)"

type_synonym scope = path

definition child_fs :: "scope \<Rightarrow> u8 list \<Rightarrow> scope" where
  "child_fs s name = path_join s name"

definition ensure_exist :: "scope \<Rightarrow> unit io" where
  "ensure_exist s = fs_create_dir_all s"

definition unless_not_found :: "unit io \<Rightarrow> unit io" where
  "unless_not_found m = io_bind (io_try m) (\<lambda>r. case r of
      Inl e \<Rightarrow> if is_not_found e then io_return () else io_fail e
    | Inr _ \<Rightarrow> io_return ())"

definition scope_remove :: "scope \<Rightarrow> unit io" where
  "scope_remove s = unless_not_found (fs_remove_dir_all s)"

definition move_to :: "scope \<Rightarrow> scope \<Rightarrow> u8 list \<Rightarrow> unit io" where
  "move_to src dst relative_path =
    unless_not_found (rename_path (path_join src relative_path) (path_join dst relative_path))"

definition scope_stat :: "scope \<Rightarrow> u8 list \<Rightarrow> node io" where
  "scope_stat s relative_path = fs_metadata (path_join s relative_path)"

definition scope_remove_file :: "scope \<Rightarrow> u8 list \<Rightarrow> unit io" where
  "scope_remove_file s relative_path = unless_not_found (fs_remove_file (path_join s relative_path))"

definition stream_read :: "scope \<Rightarrow> u8 list \<Rightarrow> reader io" where
  "stream_read s relative_path = fs_read (path_join s relative_path)"

definition stream_write :: "scope \<Rightarrow> u8 list \<Rightarrow> stream_writer io" where
  "stream_write s relative_path =
    io_bind (io_ignore (scope_remove_file s relative_path)) (\<lambda>_.
    let p = path_join s relative_path
    in case path_parent p of
      None \<Rightarrow> io_panic
    | Some parent \<Rightarrow> io_bind (fs_create_dir_all parent) (\<lambda>_. io_return \<lparr>sw_file = p, sw_contents = []\<rparr>))"

end
