(* ===== verification/Storage_Text.thy ===== *)
theory Storage_Text
  imports Storage_Fs
begin

text \<open>
  The text functions of the standard library that the formats of the cache use: decimal numbers, \<open>split\<close>, \<open>split_once\<close>,
  \<open>split_whitespace\<close>, \<open>trim\<close> and \<open>join\<close>, on UTF-8 bytes.  White space is Unicode's, given by its encodings; no encoding
  occurs inside another character, so a search byte by byte finds exactly the white space characters.
\<close>

section \<open>Numbers\<close>

text \<open>Sums and products of \<open>u64\<close> and \<open>usize\<close> wrap.\<close>

definition wrap_u64 :: "nat \<Rightarrow> nat" where
  "wrap_u64 n = unat (of_nat n :: 64 word)"

lemma wrap_u64_le: "wrap_u64 n \<le> n"
  by (simp add: wrap_u64_def unat_of_nat)

lemma wrap_u64_small: "n < 2 ^ 64 \<Longrightarrow> wrap_u64 n = n"
  by (simp add: wrap_u64_def unat_of_nat)

fun show_nat :: "nat \<Rightarrow> u8 list" where
  "show_nat n = (if n < 10 then [of_nat (0x30 + n)] else show_nat (n div 10) @ [of_nat (0x30 + n mod 10)])"

declare show_nat.simps [simp del]

definition digit_value :: "u8 \<Rightarrow> nat option" where
  "digit_value b = (if is_ascii_digit b then Some (unat b - 0x30) else None)"

fun parse_digits :: "nat \<Rightarrow> u8 list \<Rightarrow> nat option" where
  "parse_digits acc [] = Some acc"
| "parse_digits acc (b # s) = (case digit_value b of
      None \<Rightarrow> None
    | Some d \<Rightarrow> if acc * 10 + d < 2 ^ 64 then parse_digits (acc * 10 + d) s else None)"

text \<open>\<open>str::parse\<close> at a 64-bit unsigned type: no empty text, an optional plus, no overflow.\<close>

definition parse_u64 :: "u8 list \<Rightarrow> nat option" where
  "parse_u64 s = (if s = [] then None else parse_digits 0 (if hd s = 0x2B \<and> tl s \<noteq> [] then tl s else s))"

section \<open>Splitting and joining\<close>

definition split_once :: "u8 \<Rightarrow> u8 list \<Rightarrow> (u8 list \<times> u8 list) option" where
  "split_once sep s = (if sep \<in> set s then Some (takeWhile (\<lambda>b. b \<noteq> sep) s, tl (dropWhile (\<lambda>b. b \<noteq> sep) s)) else None)"

definition white_space_chars :: "u8 list list" where
  "white_space_chars =
    [[0x09], [0x0A], [0x0B], [0x0C], [0x0D], [0x20], [0xC2, 0x85], [0xC2, 0xA0], [0xE1, 0x9A, 0x80],
     [0xE2, 0x80, 0x80], [0xE2, 0x80, 0x81], [0xE2, 0x80, 0x82], [0xE2, 0x80, 0x83], [0xE2, 0x80, 0x84], [0xE2, 0x80, 0x85],
     [0xE2, 0x80, 0x86], [0xE2, 0x80, 0x87], [0xE2, 0x80, 0x88], [0xE2, 0x80, 0x89], [0xE2, 0x80, 0x8A],
     [0xE2, 0x80, 0xA8], [0xE2, 0x80, 0xA9], [0xE2, 0x80, 0xAF], [0xE2, 0x81, 0x9F], [0xE3, 0x80, 0x80]]"

text \<open>The length of the first of the given characters that the text starts with, or 0.\<close>

definition leading :: "u8 list list \<Rightarrow> u8 list \<Rightarrow> nat" where
  "leading chars s = (case find (starts_with s) chars of Some c \<Rightarrow> length c | None \<Rightarrow> 0)"

function trim_leading :: "u8 list list \<Rightarrow> u8 list \<Rightarrow> u8 list" where
  "trim_leading chars s = (let n = leading chars s in if n = 0 \<or> s = [] then s else trim_leading chars (drop n s))"
  by pat_completeness auto
termination trim_leading
  by (relation "measure (\<lambda>(chars, s). length s)") auto

declare trim_leading.simps [simp del]

definition trim :: "u8 list \<Rightarrow> u8 list" where
  "trim s = rev (trim_leading (map rev white_space_chars) (rev (trim_leading white_space_chars s)))"

function split_words :: "u8 list \<Rightarrow> u8 list \<Rightarrow> u8 list list" where
  "split_words w [] = (if w = [] then [] else [w])"
| "split_words w (b # s) =
    (let n = leading white_space_chars (b # s)
     in if n = 0 then split_words (w @ [b]) s
        else (if w = [] then [] else [w]) @ split_words [] (drop (n - 1) s))"
  by pat_completeness auto
termination split_words
  by (relation "measure (\<lambda>(w, s). length s)") auto

definition split_whitespace :: "u8 list \<Rightarrow> u8 list list" where
  "split_whitespace s = split_words [] s"

fun join_spaces :: "u8 list list \<Rightarrow> u8 list" where
  "join_spaces [] = []"
| "join_spaces [w] = w"
| "join_spaces (w # ws) = w @ 0x20 # join_spaces ws"

section \<open>Plain texts\<close>

text \<open>Visible ASCII: what numbers and file names of the cache consist of.\<close>

definition visible :: "u8 \<Rightarrow> bool" where
  "visible b = (0x21 \<le> b \<and> b \<le> 0x7E)"

definition plain_text :: "u8 list \<Rightarrow> bool" where
  "plain_text s \<longleftrightarrow> s \<noteq> [] \<and> list_all visible s"

lemma visible_digit: "is_ascii_digit b \<Longrightarrow> visible b"
  by (simp add: visible_def is_ascii_digit_def word_le_nat_alt)

lemma digit_byte:
  assumes "d < 10"
  shows "is_ascii_digit (of_nat (0x30 + d))" "digit_value (of_nat (0x30 + d)) = Some d"
proof -
  have "unat (of_nat (0x30 + d) :: u8) = 0x30 + d" using assms by (subst unsigned_of_nat) (simp add: take_bit_nat_eq_self)
  then show "is_ascii_digit (of_nat (0x30 + d))" using assms by (simp add: is_ascii_digit_def word_le_nat_alt)
  then show "digit_value (of_nat (0x30 + d)) = Some d"
    using \<open>unat (of_nat (0x30 + d) :: u8) = 0x30 + d\<close> by (simp add: digit_value_def)
qed

lemma show_nat_digits: "list_all is_ascii_digit (show_nat n)"
proof (induction n rule: show_nat.induct)
  case (1 n)
  then show ?case using digit_byte(1) [of n] digit_byte(1) [of "n mod 10"] by (subst show_nat.simps) auto
qed

lemma show_nat_nonempty: "show_nat n \<noteq> []"
  by (subst show_nat.simps) simp

lemma plain_show_nat [simp]: "plain_text (show_nat n)"
  using show_nat_digits [of n] show_nat_nonempty
  by (auto simp: plain_text_def list_all_iff visible_digit)

lemma parse_digits_append:
  "parse_digits acc (s @ t) = Option.bind (parse_digits acc s) (\<lambda>acc. parse_digits acc t)"
  by (induction s arbitrary: acc) (auto split: option.splits)

lemma parse_digits_show: "n < 2 ^ 64 \<Longrightarrow> parse_digits 0 (show_nat n) = Some n"
proof (induction n rule: show_nat.induct)
  case (1 n)
  show ?case
  proof (cases "n < 10")
    case True
    then show ?thesis using digit_byte(2) [of n] by (subst show_nat.simps) auto
  next
    case False
    have "parse_digits 0 (show_nat (n div 10)) = Some (n div 10)" using 1 False by simp
    then show ?thesis
      using False 1(2) digit_byte(2) [of "n mod 10"] by (subst show_nat.simps) (simp add: parse_digits_append)
  qed
qed

lemma parse_show [simp]:
  assumes "n < 2 ^ 64"
  shows "parse_u64 (show_nat n) = Some n"
proof -
  have "hd (show_nat n) \<in> set (show_nat n)" using show_nat_nonempty by simp
  then have "is_ascii_digit (hd (show_nat n))" using show_nat_digits [of n] by (auto simp: list_all_iff)
  then have "hd (show_nat n) \<noteq> 0x2B" by (auto simp: is_ascii_digit_def)
  then show ?thesis using parse_digits_show [OF assms] show_nat_nonempty by (simp add: parse_u64_def)
qed

lemma leading_none:
  assumes "list_all (\<lambda>c. c \<noteq> [] \<and> \<not> visible (hd c)) chars" "visible b"
  shows "leading chars (b # s) = 0"
proof -
  have "\<not> starts_with (b # s) c" if "c \<in> set chars" for c
    using assms that by (cases c) (auto simp: list_all_iff starts_with_def)
  then have "find (starts_with (b # s)) chars = None" by (simp add: find_None_iff)
  then show ?thesis by (simp add: leading_def)
qed

lemma visible_leading: "visible b \<Longrightarrow> leading white_space_chars (b # s) = 0"
  by (rule leading_none) code_simp

lemma visible_leading_rev: "visible b \<Longrightarrow> leading (map rev white_space_chars) (b # s) = 0"
  by (rule leading_none) code_simp

lemma trim_plain:
  assumes "plain_text s"
  shows "trim s = s"
proof -
  have "trim_leading white_space_chars s = s"
    using assms by (cases s) (auto simp: trim_leading.simps plain_text_def visible_leading)
  moreover have "trim_leading (map rev white_space_chars) (rev s) = rev s"
    using assms by (cases s rule: rev_cases) (auto simp: trim_leading.simps plain_text_def visible_leading_rev)
  ultimately show ?thesis by (simp add: trim_def)
qed

lemma split_words_plain:
  "list_all visible s \<Longrightarrow> split_words w (s @ t) = split_words (w @ s) t"
  by (induction s arbitrary: w) (auto simp: visible_leading Let_def)

lemma split_words_space: "split_words w (0x20 # s) = (if w = [] then [] else [w]) @ split_words [] s"
  by (simp add: leading_def white_space_chars_def starts_with_def)

lemma split_join_spaces: "list_all plain_text ws \<Longrightarrow> split_whitespace (join_spaces ws) = ws"
proof (induction ws rule: join_spaces.induct)
  case (2 w)
  then show ?case using split_words_plain [of w "[]" "[]"] by (auto simp: split_whitespace_def plain_text_def)
next
  case (3 w v vs)
  then show ?case
    using split_words_plain [of w "[]" "0x20 # join_spaces (v # vs)"]
    by (auto simp: split_whitespace_def plain_text_def split_words_space simp del: split_words.simps)
qed (simp add: split_whitespace_def)

lemma take_until: "sep \<notin> set a \<Longrightarrow> takeWhile (\<lambda>b. b \<noteq> sep) (a @ sep # b) = a"
  by (induction a) auto

lemma drop_until: "sep \<notin> set a \<Longrightarrow> dropWhile (\<lambda>b. b \<noteq> sep) (a @ sep # b) = sep # b"
  by (induction a) auto

lemma split_once_append: "sep \<notin> set a \<Longrightarrow> split_once sep (a @ sep # b) = Some (a, b)"
  by (simp add: split_once_def take_until drop_until)

lemma split_at_byte_none: "sep \<notin> set s \<Longrightarrow> split_at_byte sep s = [s]"
  by (induction s) auto

lemma split_at_byte_append: "sep \<notin> set a \<Longrightarrow> split_at_byte sep (a @ sep # b) = a # split_at_byte sep b"
  by (induction a) auto

lemma visible_not: "list_all visible s \<Longrightarrow> b \<in> {0x20, 0x0A} \<Longrightarrow> b \<notin> set s"
  by (auto simp: list_all_iff visible_def)

lemma utf8_ascii: "list_all (\<lambda>b. b < 0x80) s \<Longrightarrow> from_utf8_ok s"
  by (induction s rule: from_utf8_ok.induct) auto

lemma visible_ascii: "visible b \<Longrightarrow> b < 0x80"
  by (simp add: visible_def word_less_nat_alt word_le_nat_alt)

lemma read_line_append:
  assumes "0x0A \<notin> set line" "list_all (\<lambda>b. b < 0x80) line"
  shows "stream_read_line (line @ 0x0A # rest) = Inr (line, rest)"
  using assms by (simp add: stream_read_line_def stream_read_until_def take_until drop_until utf8_ascii)

lemma read_line_empty [simp]: "stream_read_line [] = Inr ([], [])"
  by (simp add: stream_read_line_def stream_read_until_def)

end
