(* ===== verification/Storage_Pack.thy ===== *)
theory Storage_Pack
  imports Storage_Text
begin

text \<open>
  \<open>crates/rspack_storage/src/filesystem/db/bucket\<close>: pack ids and their allocator, the Bloom filter and the index of a pack,
  the pack file and the generator that splits entries into packs.  The hasher is \<open>FxHasher\<close> of the crate \<open>rustc_hash\<close>:
  the fields \<open>rt_\<dots>\<close> of an argument.  A \<open>usize\<close> that counts bytes or packs is a natural number, bounded by 2^64 where it is
  read back.
\<close>

text \<open>
  What the storage is run with: the hasher, the order in which a hash set is visited, the order in which the parallel
  writes of a bucket complete.
\<close>

type_synonym pack_data = "(u8 list \<times> u8 list) list"

record 'h storage_rt =
  rt_default :: 'h
  rt_hash :: "u8 list \<Rightarrow> 'h \<Rightarrow> 'h"
  rt_finish :: "'h \<Rightarrow> 64 word"
  rt_order :: "nat set \<Rightarrow> nat list"
  rt_sched :: "(nat \<times> pack_data) list \<Rightarrow> (nat \<times> pack_data) list"

section \<open>Pack ids\<close>

type_synonym pack_id = nat

definition pack_name :: "pack_id \<Rightarrow> u8 list" where
  "pack_name i = show_nat i @ bytes ''.pack''"

definition hot_pack_id :: pack_id where
  "hot_pack_id = 0"

record pack_id_alloc =
  pa_next :: pack_id
  pa_reuse_pool :: "pack_id list"

definition pack_id_alloc_default :: pack_id_alloc where
  "pack_id_alloc_default = \<lparr>pa_next = 1, pa_reuse_pool = []\<rparr>"

definition show_id_alloc :: "pack_id_alloc \<Rightarrow> u8 list" where
  "show_id_alloc a = join_spaces (map show_nat (pa_reuse_pool a @ [pa_next a]))"

definition parse_id_alloc :: "u8 list \<Rightarrow> pack_id_alloc option" where
  "parse_id_alloc s = do {
     ids \<leftarrow> those (map parse_u64 (split_whitespace s));
     if ids = [] then None else Some \<lparr>pa_next = last ids, pa_reuse_pool = butlast ids\<rparr>
   }"

definition next_id :: "pack_id_alloc \<Rightarrow> pack_id \<times> pack_id_alloc" where
  "next_id a =
    (if pa_reuse_pool a \<noteq> [] then (last (pa_reuse_pool a), a\<lparr>pa_reuse_pool := butlast (pa_reuse_pool a)\<rparr>)
     else (pa_next a, a\<lparr>pa_next := Suc (pa_next a)\<rparr>))"

definition add_id :: "pack_id \<Rightarrow> pack_id_alloc \<Rightarrow> pack_id_alloc" where
  "add_id i a = (if i \<noteq> hot_pack_id \<and> i < pa_next a then a\<lparr>pa_reuse_pool := pa_reuse_pool a @ [i]\<rparr> else a)"

section \<open>The Bloom filter\<close>

type_synonym bloom_filter = "64 word list"

definition segment_size :: nat where
  "segment_size = 64"

definition segment_num :: nat where
  "segment_num = 4"

definition bit_size :: nat where
  "bit_size = segment_size * segment_num"

definition bloom_default :: bloom_filter where
  "bloom_default = replicate segment_num 0"

definition bytes_sum :: "u8 list \<Rightarrow> 64 word" where
  "bytes_sum key = fold (\<lambda>b acc. acc + ucast b) key 0"

definition bloom_segment :: "u8 list \<Rightarrow> nat" where
  "bloom_segment key = unat (bytes_sum key) mod bit_size div segment_size"

definition bloom_bit :: "u8 list \<Rightarrow> nat" where
  "bloom_bit key = unat (bytes_sum key) mod bit_size mod segment_size"

definition bloom_insert :: "u8 list \<Rightarrow> bloom_filter \<Rightarrow> bloom_filter" where
  "bloom_insert key bits = (let segment = bloom_segment key in bits[segment := bits ! segment OR push_bit (bloom_bit key) 1])"

definition bloom_contains :: "u8 list \<Rightarrow> bloom_filter \<Rightarrow> bool" where
  "bloom_contains key bits = (bits ! bloom_segment key AND push_bit (bloom_bit key) 1 \<noteq> 0)"

definition show_bloom :: "bloom_filter \<Rightarrow> u8 list" where
  "show_bloom bits = join_spaces (map (\<lambda>b. show_nat (unat b)) bits)"

definition parse_bloom :: "u8 list \<Rightarrow> bloom_filter option" where
  "parse_bloom s =
    (let parts = split_whitespace s
     in if length parts \<noteq> segment_num then None else map_option (map of_nat) (those (map parse_u64 parts)))"

section \<open>The index of a pack\<close>

record pack_index =
  pi_content_hash :: "64 word"
  pi_bloom_filter :: bloom_filter

definition pack_index_default :: pack_index where
  "pack_index_default = \<lparr>pi_content_hash = 0, pi_bloom_filter = bloom_default\<rparr>"

definition show_index :: "pack_index \<Rightarrow> u8 list" where
  "show_index x = show_nat (unat (pi_content_hash x)) @ 0x20 # show_bloom (pi_bloom_filter x)"

definition parse_index :: "u8 list \<Rightarrow> pack_index option" where
  "parse_index s = do {
     (hash_str, bloom_str) \<leftarrow> split_once 0x20 s;
     content_hash \<leftarrow> parse_u64 hash_str;
     bloom \<leftarrow> parse_bloom bloom_str;
     Some \<lparr>pi_content_hash = of_nat content_hash, pi_bloom_filter = bloom\<rparr>
   }"

definition index_contains_key :: "u8 list \<Rightarrow> pack_index \<Rightarrow> bool" where
  "index_contains_key key x = bloom_contains key (pi_bloom_filter x)"

definition check_content_hash :: "64 word \<Rightarrow> pack_index \<Rightarrow> bool" where
  "check_content_hash h x = (pi_content_hash x = h)"

record 'h index_generator =
  ig_bloom_filter :: bloom_filter
  ig_content_hasher :: 'h

definition index_generator_default :: "'h storage_rt \<Rightarrow> 'h index_generator" where
  "index_generator_default rt = \<lparr>ig_bloom_filter = bloom_default, ig_content_hasher = rt_default rt\<rparr>"

definition ig_add_key :: "'h storage_rt \<Rightarrow> u8 list \<Rightarrow> 'h index_generator \<Rightarrow> 'h index_generator" where
  "ig_add_key rt key g =
    g\<lparr>ig_content_hasher := rt_hash rt key (ig_content_hasher g), ig_bloom_filter := bloom_insert key (ig_bloom_filter g)\<rparr>"

definition ig_add_value :: "'h storage_rt \<Rightarrow> u8 list \<Rightarrow> 'h index_generator \<Rightarrow> 'h index_generator" where
  "ig_add_value rt x g = g\<lparr>ig_content_hasher := rt_hash rt x (ig_content_hasher g)\<rparr>"

definition ig_finish :: "'h storage_rt \<Rightarrow> 'h index_generator \<Rightarrow> pack_index" where
  "ig_finish rt g = \<lparr>pi_content_hash = rt_finish rt (ig_content_hasher g), pi_bloom_filter = ig_bloom_filter g\<rparr>"

section \<open>Pack files\<close>

text \<open>\<open>Pack::load\<close>: the loop over the items of the file.\<close>

definition load_item :: "reader \<Rightarrow> u8 list \<Rightarrow> (storage_error + (u8 list \<times> u8 list) \<times> reader) option" where
  "load_item r header =
    (case split_at_byte 0x20 header of
       [k, v] \<Rightarrow> (case parse_u64 k of
           None \<Rightarrow> Some (Inl InvalidFormat)
         | Some key_len \<Rightarrow> (case stream_read_exact key_len r of
             None \<Rightarrow> None
           | Some (Inl e) \<Rightarrow> Some (Inl e)
           | Some (Inr (key, r)) \<Rightarrow> (case parse_u64 v of
               None \<Rightarrow> Some (Inl InvalidFormat)
             | Some value_len \<Rightarrow> (case stream_read_exact value_len r of
                 None \<Rightarrow> None
               | Some (Inl e) \<Rightarrow> Some (Inl e)
               | Some (Inr (x, r)) \<Rightarrow> Some (Inr ((key, x), r))))))
     | _ \<Rightarrow> Some (Inl InvalidFormat))"

lemma load_item_length: "load_item r header = Some (Inr (kv, r')) \<Longrightarrow> length r' \<le> length r"
  by (auto simp: load_item_def stream_read_exact_def split: list.splits option.splits sum.splits if_splits)

lemma read_line_length: "stream_read_line r = Inr (line, r') \<Longrightarrow> line \<noteq> [] \<Longrightarrow> length r' < length r"
  by (cases r) (auto simp: stream_read_line_def stream_read_until_def length_dropWhile_le less_Suc_eq_le split: if_splits
      intro: le_trans [OF diff_le_self length_dropWhile_le])

function load_items :: "'h storage_rt \<Rightarrow> reader \<Rightarrow> 'h \<Rightarrow> pack_data \<Rightarrow> (storage_error + pack_data \<times> 'h) option" where
  "load_items rt r h data =
    (case stream_read_line r of
       Inl e \<Rightarrow> Some (Inr (data, h))
     | Inr (header, r) \<Rightarrow>
         if header = [] then Some (Inr (data, h))
         else (case load_item r header of
             None \<Rightarrow> None
           | Some (Inl e) \<Rightarrow> Some (Inl e)
           | Some (Inr ((key, x), r)) \<Rightarrow> load_items rt r (rt_hash rt x (rt_hash rt key h)) (data @ [(key, x)])))"
  by pat_completeness auto
termination load_items
  by (relation "measure (\<lambda>(rt, r, h, data). length r)") (auto dest!: load_item_length read_line_length)

declare load_items.simps [simp del]

definition io_of_sum :: "storage_error + 'a \<Rightarrow> 'a io" where
  "io_of_sum r = (case r of Inl e \<Rightarrow> io_fail e | Inr x \<Rightarrow> io_return x)"

definition io_of_result :: "(storage_error + 'a) option \<Rightarrow> 'a io" where
  "io_of_result r = (case r of None \<Rightarrow> io_panic | Some r \<Rightarrow> io_of_sum r)"

definition pack_load :: "'h storage_rt \<Rightarrow> scope \<Rightarrow> pack_id \<Rightarrow> (pack_data \<times> 64 word) io" where
  "pack_load rt s i = io_bind (stream_read s (pack_name i)) (\<lambda>r.
     io_bind (io_of_result (load_items rt r (rt_default rt) [])) (\<lambda>(data, h).
       io_return (data, rt_finish rt h)))"

definition put_item :: "'h storage_rt \<Rightarrow> u8 list \<times> u8 list \<Rightarrow> stream_writer \<times> 'h index_generator \<Rightarrow> stream_writer \<times> 'h index_generator" where
  "put_item rt kv wg = (case (kv, wg) of ((key, x), (w, g)) \<Rightarrow>
     (stream_put x (stream_put key (stream_put_line (show_nat (length key) @ 0x20 # show_nat (length x)) w)),
      ig_add_value rt x (ig_add_key rt key g)))"

definition pack_save :: "'h storage_rt \<Rightarrow> scope \<Rightarrow> pack_id \<Rightarrow> pack_data \<Rightarrow> pack_index io" where
  "pack_save rt s i data = io_bind (stream_write s (pack_name i)) (\<lambda>w.
     case fold (put_item rt) data (w, index_generator_default rt) of (w, g) \<Rightarrow>
       io_bind (stream_flush w) (\<lambda>_. io_return (ig_finish rt g)))"

definition pack_remove :: "u8 list \<Rightarrow> pack_data \<Rightarrow> bool \<times> pack_data" where
  "pack_remove key data = (let data' = filter (\<lambda>(k, _). k \<noteq> key) data in (length data' < length data, data'))"

section \<open>The pack generator\<close>

record pack_generator =
  pg_max_pack_size :: nat
  pg_current_size :: nat
  pg_data :: pack_data
  pg_packs :: "pack_data list"

definition generator_new :: "nat \<Rightarrow> pack_generator" where
  "generator_new max_pack_size = \<lparr>pg_max_pack_size = max_pack_size, pg_current_size = 0, pg_data = [], pg_packs = []\<rparr>"

definition generator_push :: "u8 list \<times> u8 list \<Rightarrow> pack_generator \<Rightarrow> pack_generator" where
  "generator_push kv g =
    (let size = length (fst kv) + length (snd kv)
     in if size > wrap_u64 (pg_max_pack_size g * 4) div 5 then g\<lparr>pg_packs := pg_packs g @ [[kv]]\<rparr>
        else
          let g = (if pg_current_size g + size > pg_max_pack_size g
                   then g\<lparr>pg_current_size := 0, pg_data := [], pg_packs := pg_packs g @ [pg_data g]\<rparr> else g)
          in g\<lparr>pg_current_size := pg_current_size g + size, pg_data := pg_data g @ [kv]\<rparr>)"

definition generator_extend :: "pack_data \<Rightarrow> pack_generator \<Rightarrow> pack_generator" where
  "generator_extend data g = fold generator_push data g"

definition generator_finish :: "pack_generator \<Rightarrow> pack_data \<times> pack_data list" where
  "generator_finish g = (pg_data g, pg_packs g)"

end
