(* ===== verification/Storage_Format.thy ===== *)
theory Storage_Format
  imports Storage_Pack "HOL-Library.Multiset"
begin

text \<open>Laws of the pack files: the Bloom filter, the id allocator, the texts and bytes written and read back, the generator.\<close>

section \<open>The Bloom filter\<close>

lemma bloom_segment_less: "bloom_segment key < segment_num"
  by (simp add: bloom_segment_def bit_size_def segment_size_def segment_num_def less_mult_imp_div_less)

lemma bloom_bit_less: "bloom_bit key < 64"
  by (simp add: bloom_bit_def bit_size_def segment_size_def)

lemma bloom_contains_bit: "bloom_contains key bits \<longleftrightarrow> bit (bits ! bloom_segment key) (bloom_bit key)"
  by (simp add: bloom_contains_def bit_iff_and_push_bit_not_eq_0)

lemma bloom_insert_length [simp]: "length (bloom_insert key bits) = length bits"
  by (simp add: bloom_insert_def Let_def)

lemma bloom_insert_contains:
  assumes "length bits = segment_num"
  shows "bloom_contains k (bloom_insert key bits) \<longleftrightarrow>
    bloom_segment k = bloom_segment key \<and> bloom_bit k = bloom_bit key \<or> bloom_contains k bits"
  using assms bloom_segment_less [of key] bloom_bit_less [of k]
  by (cases "bloom_segment k = bloom_segment key") (auto simp: bloom_contains_bit bloom_insert_def Let_def bit_simps)

lemma bloom_fold_length [simp]: "length (fold bloom_insert keys bits) = length bits"
  by (induction keys arbitrary: bits) auto

lemma bloom_fold_keeps:
  "length bits = segment_num \<Longrightarrow> bloom_contains k bits \<Longrightarrow> bloom_contains k (fold bloom_insert keys bits)"
  by (induction keys arbitrary: bits) (auto simp: bloom_insert_contains)

lemma bloom_fold_contains:
  "length bits = segment_num \<Longrightarrow> k \<in> set keys \<Longrightarrow> bloom_contains k (fold bloom_insert keys bits)"
  by (induction keys arbitrary: bits) (auto simp: bloom_insert_contains bloom_fold_keeps)

section \<open>Pack files\<close>

definition item_bytes :: "u8 list \<times> u8 list \<Rightarrow> u8 list" where
  "item_bytes kv = show_nat (length (fst kv)) @ 0x20 # show_nat (length (snd kv)) @ 0x0A # fst kv @ snd kv"

definition pack_bytes :: "pack_data \<Rightarrow> u8 list" where
  "pack_bytes data = concat (map item_bytes data)"

definition hash_items :: "'h storage_rt \<Rightarrow> pack_data \<Rightarrow> 'h \<Rightarrow> 'h" where
  "hash_items rt data h = fold (\<lambda>(k, x) h. rt_hash rt x (rt_hash rt k h)) data h"

definition pack_hash :: "'h storage_rt \<Rightarrow> pack_data \<Rightarrow> 64 word" where
  "pack_hash rt data = rt_finish rt (hash_items rt data (rt_default rt))"

definition index_of :: "'h storage_rt \<Rightarrow> pack_data \<Rightarrow> pack_index" where
  "index_of rt data = \<lparr>pi_content_hash = pack_hash rt data, pi_bloom_filter = fold bloom_insert (map fst data) bloom_default\<rparr>"

text \<open>Lengths that a \<open>usize\<close> holds.\<close>

definition storable :: "pack_data \<Rightarrow> bool" where
  "storable data \<longleftrightarrow> (\<forall>(k, x) \<in> set data. length k < 2 ^ 64 \<and> length x < 2 ^ 64)"

lemma pack_bytes_simps [simp]: "pack_bytes [] = []" "pack_bytes (kv # data) = item_bytes kv @ pack_bytes data"
  by (simp_all add: pack_bytes_def)

lemma index_of_keys: "k \<in> set (map fst data) \<Longrightarrow> index_contains_key k (index_of rt data)"
  by (simp add: index_contains_key_def index_of_def bloom_fold_contains bloom_default_def segment_num_def)

lemma index_of_hash [simp]: "pi_content_hash (index_of rt data) = pack_hash rt data"
  by (simp add: index_of_def)

lemma put_items:
  "fold (put_item rt) data (w, g) =
    (stream_put (pack_bytes data) w,
     g\<lparr>ig_bloom_filter := fold bloom_insert (map fst data) (ig_bloom_filter g),
       ig_content_hasher := hash_items rt data (ig_content_hasher g)\<rparr>)"
  by (induction data arbitrary: w g)
    (auto simp: put_item_def stream_put_def stream_put_line_def item_bytes_def ig_add_key_def ig_add_value_def hash_items_def)

lemma plain_ascii: "plain_text s \<Longrightarrow> list_all (\<lambda>b. b < 0x80) s"
  by (auto simp: plain_text_def list_all_iff visible_ascii)

lemma plain_not: "plain_text s \<Longrightarrow> b \<in> {0x20, 0x0A} \<Longrightarrow> b \<notin> set s"
  using visible_not by (auto simp: plain_text_def)

lemma load_items_bytes:
  "storable data \<Longrightarrow> load_items rt (pack_bytes data) h acc = Some (Inr (acc @ data, hash_items rt data h))"
proof (induction data arbitrary: h acc)
  case Nil
  then show ?case by (subst load_items.simps) (simp add: hash_items_def)
next
  case (Cons kv data)
  obtain k x where kv: "kv = (k, x)" by (cases kv)
  have n: "length k < 2 ^ 64" "length x < 2 ^ 64" using Cons.prems by (simp_all add: storable_def kv)
  define header where "header = show_nat (length k) @ 0x20 # show_nat (length x)"
  have h: "0x0A \<notin> set header" "list_all (\<lambda>b. b < 0x80) header" "header \<noteq> []"
    using plain_not [OF plain_show_nat] plain_ascii [OF plain_show_nat] by (auto simp: header_def)
  have "stream_read_line (header @ 0x0A # k @ x @ pack_bytes data) = Inr (header, k @ x @ pack_bytes data)"
    by (rule read_line_append [OF h(1,2)])
  moreover have "pack_bytes (kv # data) = header @ 0x0A # k @ x @ pack_bytes data"
    by (simp add: header_def item_bytes_def kv)
  moreover have "split_at_byte 0x20 header = [show_nat (length k), show_nat (length x)]"
    using plain_not [OF plain_show_nat, of "0x20"] by (simp add: header_def split_at_byte_append split_at_byte_none)
  then have "load_item (k @ x @ pack_bytes data) header = Some (Inr ((k, x), pack_bytes data))"
    using n by (simp add: load_item_def stream_read_exact_def)
  ultimately show ?case
    using Cons.IH [of "rt_hash rt x (rt_hash rt k h)" "acc @ [(k, x)]"] Cons.prems h(3)
    by (subst load_items.simps) (simp add: hash_items_def kv storable_def)
qed

section \<open>Texts\<close>

lemma join_ascii: "list_all plain_text ws \<Longrightarrow> list_all (\<lambda>b. b < 0x80) (join_spaces ws) \<and> 0x0A \<notin> set (join_spaces ws)"
  by (induction ws rule: join_spaces.induct) (use plain_ascii plain_not in fastforce)+

lemma those_parse: "list_all (\<lambda>n. n < 2 ^ 64) ns \<Longrightarrow> those (map parse_u64 (map show_nat ns)) = Some ns"
  by (induction ns) auto

lemma plain_numbers: "list_all plain_text (map show_nat ns)"
  by (simp add: list_all_iff)

definition alloc_bounded :: "pack_id_alloc \<Rightarrow> bool" where
  "alloc_bounded a \<longleftrightarrow> pa_next a < 2 ^ 64 \<and> (\<forall>i \<in> set (pa_reuse_pool a). i < 2 ^ 64)"

lemma parse_show_id_alloc:
  assumes "alloc_bounded a"
  shows "parse_id_alloc (show_id_alloc a) = Some a"
proof -
  have "those (map parse_u64 (map show_nat (pa_reuse_pool a @ [pa_next a]))) = Some (pa_reuse_pool a @ [pa_next a])"
    using assms by (intro those_parse) (auto simp: alloc_bounded_def list_all_iff)
  then show ?thesis
    unfolding parse_id_alloc_def show_id_alloc_def by (simp add: split_join_spaces plain_numbers del: map_append)
qed

lemma parse_show_bloom:
  assumes "length bits = segment_num"
  shows "parse_bloom (show_bloom bits) = Some bits"
proof -
  have "those (map parse_u64 (map show_nat (map unat bits))) = Some (map unat bits)"
    using unsigned_less [where ?'b = 64 and ?'a = nat] by (intro those_parse) (auto simp: list_all_iff)
  moreover have "map (\<lambda>b. show_nat (unat b)) bits = map show_nat (map unat bits)" by simp
  moreover have "map of_nat (map unat bits) = bits" by (simp add: map_idI)
  ultimately show ?thesis
    using assms unfolding parse_bloom_def show_bloom_def
    by (simp only: split_join_spaces plain_numbers length_map) simp
qed

lemma parse_show_index:
  assumes "length (pi_bloom_filter x) = segment_num"
  shows "parse_index (show_index x) = Some x"
proof -
  have "split_once 0x20 (show_index x) = Some (show_nat (unat (pi_content_hash x)), show_bloom (pi_bloom_filter x))"
    unfolding show_index_def using plain_not [OF plain_show_nat] by (intro split_once_append) auto
  moreover have "parse_u64 (show_nat (unat (pi_content_hash x))) = Some (unat (pi_content_hash x))"
    using unsigned_less [of "pi_content_hash x", where ?'a = nat] by simp
  ultimately show ?thesis by (simp add: parse_index_def parse_show_bloom [OF assms])
qed

lemma index_of_bloom_length [simp]: "length (pi_bloom_filter (index_of rt data)) = segment_num"
  by (simp add: index_of_def bloom_default_def)

section \<open>The id allocator\<close>

text \<open>The ids in use and the ids to be reused are distinct and below the next one.\<close>

definition alloc_ok :: "pack_id set \<Rightarrow> pack_id_alloc \<Rightarrow> bool" where
  "alloc_ok used a \<longleftrightarrow> distinct (pa_reuse_pool a) \<and> set (pa_reuse_pool a) \<inter> used = {} \<and>
    (\<forall>i \<in> used \<union> set (pa_reuse_pool a). 0 < i \<and> i < pa_next a) \<and> 0 < pa_next a"

lemma next_id_ok:
  assumes "alloc_ok used a" "next_id a = (i, a')"
  shows "i \<notin> used" "0 < i" "alloc_ok (insert i used) a'" "pa_next a' \<le> Suc (pa_next a)"
proof -
  have "i \<notin> used \<and> 0 < i \<and> pa_next a' \<le> Suc (pa_next a) \<and> alloc_ok (insert i used) a'"
  proof (cases "pa_reuse_pool a = []")
    case True
    then show ?thesis using assms by (auto simp: alloc_ok_def next_id_def)
  next
    case False
    then obtain xs x where x: "pa_reuse_pool a = xs @ [x]" by (metis rev_exhaust)
    then show ?thesis using assms by (auto simp: alloc_ok_def next_id_def)
  qed
  then show "i \<notin> used" "0 < i" "pa_next a' \<le> Suc (pa_next a)" "alloc_ok (insert i used) a'" by simp_all
qed

lemma add_id_ok:
  assumes "alloc_ok used a" "i \<in> used"
  shows "alloc_ok (used - {i}) (add_id i a)" "pa_next (add_id i a) = pa_next a"
  using assms by (auto simp: alloc_ok_def add_id_def hot_pack_id_def)

section \<open>The generator\<close>

definition item_size :: "u8 list \<times> u8 list \<Rightarrow> nat" where
  "item_size kv = length (fst kv) + length (snd kv)"

definition data_size :: "pack_data \<Rightarrow> nat" where
  "data_size data = sum_list (map item_size data)"

text \<open>A cold pack is one large item or fits the limit; the current pack fits it; no pack is empty.\<close>

definition generator_ok :: "pack_generator \<Rightarrow> bool" where
  "generator_ok g \<longleftrightarrow> pg_current_size g = data_size (pg_data g) \<and> data_size (pg_data g) \<le> pg_max_pack_size g \<and>
    (\<forall>p \<in> set (pg_packs g). p \<noteq> [] \<and> (data_size p \<le> pg_max_pack_size g \<or> length p = 1))"

definition generator_items :: "pack_generator \<Rightarrow> (u8 list \<times> u8 list) multiset" where
  "generator_items g = mset (pg_data g) + mset (concat (pg_packs g))"

lemma generator_push_ok:
  assumes "generator_ok g"
  shows "generator_ok (generator_push kv g)" "generator_items (generator_push kv g) = add_mset kv (generator_items g)"
    "pg_max_pack_size (generator_push kv g) = pg_max_pack_size g"
proof -
  have small: "item_size kv \<le> pg_max_pack_size g" if "\<not> item_size kv > wrap_u64 (pg_max_pack_size g * 4) div 5"
  proof -
    have "wrap_u64 (pg_max_pack_size g * 4) div 5 \<le> pg_max_pack_size g * 4 div 5"
      by (intro div_le_mono wrap_u64_le)
    then show ?thesis using that by linarith
  qed
  have nonempty: "pg_data g \<noteq> []" if "pg_current_size g + item_size kv > pg_max_pack_size g" "\<not> item_size kv > wrap_u64 (pg_max_pack_size g * 4) div 5"
    using assms that small by (auto simp: generator_ok_def data_size_def)
  show "generator_ok (generator_push kv g)"
    using assms small nonempty
    by (auto simp: generator_ok_def generator_push_def Let_def data_size_def item_size_def [symmetric])
  show "generator_items (generator_push kv g) = add_mset kv (generator_items g)"
    by (auto simp: generator_items_def generator_push_def Let_def)
  show "pg_max_pack_size (generator_push kv g) = pg_max_pack_size g"
    by (simp add: generator_push_def Let_def)
qed

lemma generator_extend_ok:
  assumes "generator_ok g"
  shows "generator_ok (generator_extend data g) \<and> generator_items (generator_extend data g) = mset data + generator_items g \<and>
    pg_max_pack_size (generator_extend data g) = pg_max_pack_size g"
  using assms unfolding generator_extend_def
  by (induction data arbitrary: g) (auto simp: generator_push_ok)

lemma generator_new_ok: "generator_ok (generator_new m)" "generator_items (generator_new m) = {#}"
  by (auto simp: generator_ok_def generator_new_def generator_items_def data_size_def)

end
