(* ===== verification/Storage_Bucket.thy ===== *)
theory Storage_Bucket
  imports Storage_Format "HOL-Library.AList_Mapping"
begin

text \<open>
  \<open>crates/rspack_storage/src/filesystem/db/bucket/meta.rs\<close> and \<open>mod.rs\<close>: the metadata of a bucket, and the bucket: one
  hot pack kept in memory and cold packs loaded when needed.  A bucket that fails to save is dropped by its caller, so an
  error returns no bucket.  The packs of a bucket are written in parallel to distinct files; the model writes them one
  after the other in the order \<open>rt_sched\<close> in which they complete.
\<close>

section \<open>Metadata\<close>

record bucket_meta =
  bm_pack_id_alloc :: pack_id_alloc
  bm_hot_pack_index :: pack_index
  bm_cold_pack_indexes :: "(pack_id, pack_index) mapping"

definition meta_default :: bucket_meta where
  "meta_default = \<lparr>bm_pack_id_alloc = pack_id_alloc_default, bm_hot_pack_index = pack_index_default, bm_cold_pack_indexes = Mapping.empty\<rparr>"

abbreviation cold_index :: "bucket_meta \<Rightarrow> pack_id \<rightharpoonup> pack_index" where
  "cold_index m \<equiv> Mapping.lookup (bm_cold_pack_indexes m)"

definition meta_file_name :: "u8 list" where
  "meta_file_name = bytes ''_meta''"

definition parse_index_line :: "u8 list \<Rightarrow> (pack_id \<times> pack_index) option" where
  "parse_index_line line = do {
     (pack_id_str, index_str) \<leftarrow> split_once 0x20 line;
     i \<leftarrow> parse_u64 pack_id_str;
     x \<leftarrow> parse_index index_str;
     Some (i, x)
   }"

definition set_pack_index :: "pack_id \<Rightarrow> pack_index \<Rightarrow> bucket_meta \<Rightarrow> bucket_meta" where
  "set_pack_index i x m =
    (if i = hot_pack_id then m\<lparr>bm_hot_pack_index := x\<rparr> else m\<lparr>bm_cold_pack_indexes := Mapping.update i x (bm_cold_pack_indexes m)\<rparr>)"

text \<open>\<open>None\<close> is the unreachable arm: the hot pack is never removed.\<close>

definition drop_pack_index :: "pack_id \<Rightarrow> bucket_meta \<Rightarrow> bucket_meta option" where
  "drop_pack_index i m =
    (if i = hot_pack_id then None
     else Some (m\<lparr>bm_cold_pack_indexes := Mapping.delete i (bm_cold_pack_indexes m), bm_pack_id_alloc := add_id i (bm_pack_id_alloc m)\<rparr>))"

definition next_pack_id :: "bucket_meta \<Rightarrow> pack_id \<times> bucket_meta" where
  "next_pack_id m = (case next_id (bm_pack_id_alloc m) of (i, a) \<Rightarrow> (i, m\<lparr>bm_pack_id_alloc := a\<rparr>))"

function meta_lines :: "reader \<Rightarrow> bucket_meta \<Rightarrow> storage_error + bucket_meta" where
  "meta_lines r m =
    (case stream_read_line r of
       Inl e \<Rightarrow> Inr m
     | Inr (line, r) \<Rightarrow>
         if line = [] then Inr m
         else (case parse_index_line line of
             None \<Rightarrow> Inl InvalidFormat
           | Some (i, x) \<Rightarrow> meta_lines r (set_pack_index i x m)))"
  by pat_completeness auto
termination meta_lines
  by (relation "measure (\<lambda>(r, m). length r)") (auto dest: read_line_length)

declare meta_lines.simps [simp del]

definition meta_load :: "scope \<Rightarrow> bucket_meta io" where
  "meta_load s = io_bind (stream_read s meta_file_name) (\<lambda>r.
     io_bind (io_of_sum (stream_read_line r)) (\<lambda>(line, r).
       case parse_id_alloc line of
         None \<Rightarrow> io_fail InvalidFormat
       | Some a \<Rightarrow> io_of_sum (meta_lines r (meta_default\<lparr>bm_pack_id_alloc := a\<rparr>))))"

definition index_line :: "pack_id \<Rightarrow> pack_index \<Rightarrow> u8 list" where
  "index_line i x = show_nat i @ 0x20 # show_index x"

definition put_meta :: "'h storage_rt \<Rightarrow> bucket_meta \<Rightarrow> stream_writer \<Rightarrow> stream_writer" where
  "put_meta rt m w =
    (let w = stream_put_line (show_id_alloc (bm_pack_id_alloc m)) w;
         w = stream_put_line (index_line hot_pack_id (bm_hot_pack_index m)) w
     in fold (\<lambda>i w. case Mapping.lookup (bm_cold_pack_indexes m) i of Some x \<Rightarrow> stream_put_line (index_line i x) w | None \<Rightarrow> w)
          (rt_order rt (Mapping.keys (bm_cold_pack_indexes m))) w)"

definition meta_save :: "'h storage_rt \<Rightarrow> scope \<Rightarrow> bucket_meta \<Rightarrow> unit io" where
  "meta_save rt s m = io_bind (stream_write s meta_file_name) (\<lambda>w. stream_flush (put_meta rt m w))"

section \<open>Buckets\<close>

record bucket =
  bk_meta :: bucket_meta
  bk_hot_pack :: pack_data
  bk_fs :: scope

text \<open>A missing file is the default.\<close>

definition or_default :: "'a io \<Rightarrow> 'a \<Rightarrow> 'a io" where
  "or_default m x = io_bind (io_try m) (\<lambda>r. case r of
      Inr y \<Rightarrow> io_return y
    | Inl e \<Rightarrow> if is_not_found e then io_return x else io_fail e)"

definition load_checked :: "'h storage_rt \<Rightarrow> scope \<Rightarrow> pack_id \<Rightarrow> pack_index \<Rightarrow> pack_data io" where
  "load_checked rt s i x = io_bind (pack_load rt s i) (\<lambda>(pack, h).
     if check_content_hash h x then io_return pack else io_fail CorruptedData)"

definition bucket_new :: "'h storage_rt \<Rightarrow> scope \<Rightarrow> bucket io" where
  "bucket_new rt s = io_bind (ensure_exist s) (\<lambda>_.
     io_bind (or_default (meta_load s) meta_default) (\<lambda>m.
     io_bind (or_default (load_checked rt s hot_pack_id (bm_hot_pack_index m)) []) (\<lambda>hot.
       io_return \<lparr>bk_meta = m, bk_hot_pack = hot, bk_fs = s\<rparr>)))"

definition load_all :: "'h storage_rt \<Rightarrow> bucket \<Rightarrow> pack_data io" where
  "load_all rt b =
    io_fold (\<lambda>i result. case Mapping.lookup (bm_cold_pack_indexes (bk_meta b)) i of
        None \<Rightarrow> io_return result
      | Some x \<Rightarrow> io_bind (load_checked rt (bk_fs b) i x) (\<lambda>pack. io_return (result @ pack)))
      (rt_order rt (Mapping.keys (bm_cold_pack_indexes (bk_meta b)))) (bk_hot_pack b)"

text \<open>The cold packs loaded so far, and those a key was removed from.\<close>

type_synonym loaded_packs = "(pack_id, pack_data) mapping \<times> pack_id set"

fun cold_search :: "'h storage_rt \<Rightarrow> bucket \<Rightarrow> u8 list \<Rightarrow> pack_id list \<Rightarrow> loaded_packs \<Rightarrow> loaded_packs io" where
  "cold_search rt b key [] st = io_return st"
| "cold_search rt b key (i # is) (packs, modified) =
    (case Mapping.lookup (bm_cold_pack_indexes (bk_meta b)) i of
       None \<Rightarrow> cold_search rt b key is (packs, modified)
     | Some x \<Rightarrow>
         if \<not> index_contains_key key x then cold_search rt b key is (packs, modified)
         else io_bind (case Mapping.lookup packs i of Some pack \<Rightarrow> io_return pack | None \<Rightarrow> load_checked rt (bk_fs b) i x) (\<lambda>pack.
           case pack_remove key pack of (removed, pack) \<Rightarrow>
             if removed then io_return (Mapping.update i pack packs, insert i modified)
             else cold_search rt b key is (Mapping.update i pack packs, modified)))"

text \<open>The body of the loop of \<open>need_update_packs\<close> for one key; the state has the hot pack.\<close>

definition take_key :: "'h storage_rt \<Rightarrow> bucket \<Rightarrow> u8 list \<Rightarrow> pack_data \<times> loaded_packs \<Rightarrow> (pack_data \<times> loaded_packs) io" where
  "take_key rt b key st = (case st of (hot, loaded) \<Rightarrow>
     if index_contains_key key (bm_hot_pack_index (bk_meta b)) \<and> fst (pack_remove key hot)
     then io_return (snd (pack_remove key hot), loaded)
     else io_bind (cold_search rt b key (rt_order rt (Mapping.keys (bm_cold_pack_indexes (bk_meta b)))) loaded) (\<lambda>loaded.
       io_return (hot, loaded)))"

definition need_update_packs :: "'h storage_rt \<Rightarrow> u8 list list \<Rightarrow> bucket \<Rightarrow> (pack_data \<times> (pack_id, pack_data) mapping) io" where
  "need_update_packs rt keys b =
    io_bind (io_fold (take_key rt b) keys (bk_hot_pack b, Mapping.empty, {})) (\<lambda>(hot, packs, modified).
      io_return (hot, Mapping.filter (\<lambda>i _. i \<in> modified) packs))"

type_synonym changes = "(u8 list \<times> u8 list option) list"

text \<open>The packs to rewrite: their ids return to the pool, their entries go to the generator.\<close>

fun recycle_packs :: "(pack_id, pack_data) mapping \<Rightarrow> pack_id list \<Rightarrow> bucket_meta \<Rightarrow> pack_generator \<Rightarrow> (bucket_meta \<times> pack_generator) option" where
  "recycle_packs packs [] m g = Some (m, g)"
| "recycle_packs packs (i # is) m g =
    (case Mapping.lookup packs i of
       None \<Rightarrow> recycle_packs packs is m g
     | Some pack \<Rightarrow> (case drop_pack_index i m of
         None \<Rightarrow> None
       | Some m \<Rightarrow> recycle_packs packs is m (generator_extend pack g)))"

fun alloc_packs :: "bucket_meta \<Rightarrow> pack_data list \<Rightarrow> bucket_meta \<times> (pack_id \<times> pack_data) list" where
  "alloc_packs m [] = (m, [])"
| "alloc_packs m (p # ps) =
    (case next_pack_id m of (i, m) \<Rightarrow> case alloc_packs m ps of (m, pending) \<Rightarrow> (m, (i, p) # pending))"

record save_state =
  ss_hot_pack :: pack_data
  ss_meta :: bucket_meta
  ss_removed :: "pack_id set"
  ss_added :: "u8 list list"

definition write_pack :: "'h storage_rt \<Rightarrow> scope \<Rightarrow> pack_id \<times> pack_data \<Rightarrow> save_state \<Rightarrow> save_state io" where
  "write_pack rt s ip st = (case ip of (i, pack) \<Rightarrow> io_bind (pack_save rt s i pack) (\<lambda>x.
     io_return (st
       \<lparr>ss_hot_pack := (if i = hot_pack_id then pack else ss_hot_pack st),
        ss_meta := set_pack_index i x (ss_meta st),
        ss_removed := ss_removed st - {i},
        ss_added := ss_added st @ [pack_name i]\<rparr>)))"

definition new_entries :: "changes \<Rightarrow> pack_data" where
  "new_entries data = List.map_filter (\<lambda>(k, v). map_option (Pair k) v) data"

definition bucket_save ::
  "'h storage_rt \<Rightarrow> scope option \<Rightarrow> changes \<Rightarrow> nat \<Rightarrow> bucket \<Rightarrow> (bucket \<times> u8 list list \<times> u8 list list) io" where
  "bucket_save rt writable_fs data max_pack_size b =
    (let s = (case writable_fs of Some s \<Rightarrow> s | None \<Rightarrow> bk_fs b)
     in io_bind (need_update_packs rt (map fst data) b) (\<lambda>(hot, packs).
       let ids = rt_order rt (Mapping.keys packs)
       in case recycle_packs packs ids (bk_meta b) (generator_new max_pack_size) of
            None \<Rightarrow> io_panic
          | Some (m, g) \<Rightarrow>
              (case generator_finish (generator_extend (new_entries data) (generator_extend hot g)) of (hot_pack, new_packs) \<Rightarrow>
               case alloc_packs m new_packs of (m, pending) \<Rightarrow>
                 io_bind (io_fold (write_pack rt s) (rt_sched rt ((hot_pack_id, hot_pack) # pending))
                     \<lparr>ss_hot_pack = [], ss_meta = m, ss_removed = set ids, ss_added = []\<rparr>) (\<lambda>st.
                 io_bind (meta_save rt s (ss_meta st)) (\<lambda>_.
                   io_return (b\<lparr>bk_meta := ss_meta st, bk_hot_pack := ss_hot_pack st\<rparr>,
                     ss_added st @ [meta_file_name], map pack_name (rt_order rt (ss_removed st))))))))"

end
