(* ===== verification/Storage_Db.thy ===== *)
theory Storage_Db
  imports Storage_Bucket
begin

text \<open>
  \<open>crates/rspack_storage/src/filesystem/db\<close>: the lock files and the two-phase commit of \<open>transaction\<close>, the database of
  \<open>mod.rs\<close>; \<open>crates/rspack_storage/src/filesystem/mod.rs\<close>: the storage, with its queue of tasks.  A process is its id and
  what \<open>ps\<close> says of an id; the buckets of a save run in parallel on distinct directories, here one after the other.
\<close>

record process =
  pr_pid :: "32 word"
  pr_ps :: "32 word \<Rightarrow> u8 list option"

section \<open>Lock files\<close>

record state_lock =
  sl_pid :: "32 word"
  sl_process_name :: "u8 list"

definition state_lock_file :: "u8 list" where
  "state_lock_file = bytes ''state.lock''"

definition state_lock_default :: "process \<Rightarrow> state_lock" where
  "state_lock_default p = \<lparr>sl_pid = pr_pid p, sl_process_name = (case pr_ps p (pr_pid p) of Some n \<Rightarrow> n | None \<Rightarrow> bytes ''unknown'')\<rparr>"

definition to_be_bytes :: "32 word \<Rightarrow> u8 list" where
  "to_be_bytes x = [ucast (drop_bit 24 x), ucast (drop_bit 16 x), ucast (drop_bit 8 x), ucast x]"

definition from_be_bytes :: "u8 list \<Rightarrow> 32 word" where
  "from_be_bytes b =
    push_bit 24 (ucast (b ! 0)) OR push_bit 16 (ucast (b ! 1)) OR push_bit 8 (ucast (b ! 2)) OR ucast (b ! 3)"

definition state_lock_load :: "scope \<Rightarrow> state_lock io" where
  "state_lock_load s = io_bind (stream_read s state_lock_file) (\<lambda>r.
     case stream_read_exact 4 r of
       None \<Rightarrow> io_panic
     | Some (Inl e) \<Rightarrow> io_fail InvalidFormat
     | Some (Inr (pid_bytes, name)) \<Rightarrow>
         if \<not> from_utf8_ok name then io_fail InvalidFormat
         else io_return \<lparr>sl_pid = from_be_bytes pid_bytes, sl_process_name = name\<rparr>)"

definition state_lock_save :: "state_lock \<Rightarrow> scope \<Rightarrow> unit io" where
  "state_lock_save l s = io_bind (stream_write s state_lock_file) (\<lambda>w.
     stream_flush (stream_put (sl_process_name l) (stream_put (to_be_bytes (sl_pid l)) w)))"

definition state_lock_remove :: "scope \<Rightarrow> unit io" where
  "state_lock_remove s = scope_remove_file s state_lock_file"

definition is_running :: "process \<Rightarrow> state_lock \<Rightarrow> bool" where
  "is_running p l = (case pr_ps p (sl_pid l) of None \<Rightarrow> False | Some actual_name \<Rightarrow> actual_name = sl_process_name l)"

definition is_current :: "process \<Rightarrow> state_lock \<Rightarrow> bool" where
  "is_current p l = (sl_pid l = pr_pid p)"

record commit_lock =
  cl_added_files :: "u8 list list"
  cl_removed_files :: "u8 list list"

definition commit_lock_file :: "u8 list" where
  "commit_lock_file = bytes ''commit.lock''"

datatype lock_section = AddSection | RemoveSection

function commit_lines :: "reader \<Rightarrow> lock_section option \<Rightarrow> commit_lock \<Rightarrow> storage_error + commit_lock" where
  "commit_lines r current l =
    (case stream_read_line r of
       Inl e \<Rightarrow> Inr l
     | Inr (line, r) \<Rightarrow>
         if line = [] then Inr l
         else
           let line = trim line
           in if line = [] then commit_lines r current l
              else if line = bytes ''[ADD]'' then commit_lines r (Some AddSection) l
              else if line = bytes ''[REMOVE]'' then commit_lines r (Some RemoveSection) l
              else (case current of
                  Some AddSection \<Rightarrow> commit_lines r current (l\<lparr>cl_added_files := cl_added_files l @ [line]\<rparr>)
                | Some RemoveSection \<Rightarrow> commit_lines r current (l\<lparr>cl_removed_files := cl_removed_files l @ [line]\<rparr>)
                | None \<Rightarrow> Inl InvalidFormat))"
  by pat_completeness auto
termination commit_lines
  by (relation "measure (\<lambda>(r, current, l). length r)") (auto dest: read_line_length)

declare commit_lines.simps [simp del]

definition commit_lock_load :: "scope \<Rightarrow> commit_lock io" where
  "commit_lock_load s = io_bind (stream_read s commit_lock_file) (\<lambda>r.
     io_of_sum (commit_lines r None \<lparr>cl_added_files = [], cl_removed_files = []\<rparr>))"

definition put_commit_lock :: "commit_lock \<Rightarrow> stream_writer \<Rightarrow> stream_writer" where
  "put_commit_lock l w =
    fold stream_put_line (cl_removed_files l) (stream_put_line (bytes ''[REMOVE]'')
      (fold stream_put_line (cl_added_files l) (stream_put_line (bytes ''[ADD]'') w)))"

definition commit_lock_save :: "commit_lock \<Rightarrow> scope \<Rightarrow> unit io" where
  "commit_lock_save l s = io_bind (stream_write s commit_lock_file) (\<lambda>w. stream_flush (put_commit_lock l w))"

section \<open>Transactions\<close>

record transaction =
  tx_root_fs :: scope
  tx_temp_fs :: scope

definition temp_fs_of :: "scope \<Rightarrow> scope" where
  "temp_fs_of root_fs = child_fs root_fs (bytes ''.temp'')"

definition execute_commit :: "transaction \<Rightarrow> commit_lock \<Rightarrow> unit io" where
  "execute_commit t l =
    io_bind (io_each (scope_remove_file (tx_root_fs t)) (cl_removed_files l)) (\<lambda>_.
      io_each (move_to (tx_temp_fs t) (tx_root_fs t)) (cl_added_files l))"

definition if_found :: "'a io \<Rightarrow> 'a option io" where
  "if_found m = io_bind (io_try m) (\<lambda>r. case r of
      Inr x \<Rightarrow> io_return (Some x)
    | Inl e \<Rightarrow> if is_not_found e then io_return None else io_fail e)"

definition ensure_committed :: "process \<Rightarrow> scope \<Rightarrow> unit io" where
  "ensure_committed p root_fs =
    (let temp_fs = temp_fs_of root_fs
     in io_bind (if_found (state_lock_load temp_fs)) (\<lambda>state_lock.
       if (case state_lock of Some l \<Rightarrow> is_running p l | None \<Rightarrow> False) then io_panic
       else io_bind (if_found (commit_lock_load temp_fs)) (\<lambda>commit_lock. case commit_lock of
           None \<Rightarrow> io_return ()
         | Some l \<Rightarrow> io_bind (execute_commit \<lparr>tx_root_fs = root_fs, tx_temp_fs = temp_fs\<rparr> l) (\<lambda>_. scope_remove temp_fs))))"

definition transaction_new :: "process \<Rightarrow> scope \<Rightarrow> transaction io" where
  "transaction_new p root_fs = io_bind (ensure_committed p root_fs) (\<lambda>_.
     let temp_fs = temp_fs_of root_fs
     in io_bind (ensure_exist temp_fs) (\<lambda>_.
        io_bind (state_lock_save (state_lock_default p) temp_fs) (\<lambda>_.
          io_return \<lparr>tx_root_fs = root_fs, tx_temp_fs = temp_fs\<rparr>)))"

definition transaction_rollback :: "transaction \<Rightarrow> unit io" where
  "transaction_rollback t = scope_remove (tx_temp_fs t)"

text \<open>The debug assertion of \<open>CommitLock::new\<close>, that no file is both added and removed, is left out.\<close>

definition transaction_commit :: "process \<Rightarrow> u8 list list \<Rightarrow> u8 list list \<Rightarrow> transaction \<Rightarrow> unit io" where
  "transaction_commit p added removed t =
    io_bind (io_try (state_lock_load (tx_temp_fs t))) (\<lambda>r. case r of
      Inl e \<Rightarrow> io_bind (io_ignore (scope_remove (tx_temp_fs t))) (\<lambda>_. io_fail e)
    | Inr l \<Rightarrow>
        if \<not> is_current p l then io_panic
        else
          let commit_lock = \<lparr>cl_added_files = added, cl_removed_files = removed\<rparr>
          in io_bind (io_try (commit_lock_save commit_lock (tx_temp_fs t))) (\<lambda>r. case r of
            Inl e \<Rightarrow> io_bind (io_ignore (scope_remove (tx_temp_fs t))) (\<lambda>_. io_fail e)
          | Inr _ \<Rightarrow> io_bind (io_try (execute_commit t commit_lock)) (\<lambda>r. case r of
              Inl e \<Rightarrow> io_bind (io_ignore (state_lock_remove (tx_temp_fs t))) (\<lambda>_. io_fail e)
            | Inr _ \<Rightarrow> io_ignore (scope_remove (tx_temp_fs t)))))"

section \<open>The database\<close>

record database =
  db_fs :: scope
  db_buckets :: "u8 list \<rightharpoonup> bucket"
  db_readonly :: bool

definition db_new :: "scope \<Rightarrow> database" where
  "db_new s = \<lparr>db_fs = s, db_buckets = Map.empty, db_readonly = False\<rparr>"

text \<open>A bucket that was opened stays in the cache even when loading its packs fails.\<close>

definition open_bucket :: "process \<Rightarrow> 'h storage_rt \<Rightarrow> u8 list \<Rightarrow> database \<Rightarrow> bucket io" where
  "open_bucket p rt name db =
    io_bind (ensure_exist (db_fs db)) (\<lambda>_.
    io_bind (ensure_committed p (db_fs db)) (\<lambda>_.
      case db_buckets db name of Some b \<Rightarrow> io_return b | None \<Rightarrow> bucket_new rt (child_fs (db_fs db) name)))"

definition db_load :: "process \<Rightarrow> 'h storage_rt \<Rightarrow> u8 list \<Rightarrow> database \<Rightarrow> ((storage_error + pack_data) \<times> database) io" where
  "db_load p rt name db =
    io_bind (io_try (open_bucket p rt name db)) (\<lambda>r. case r of
      Inl e \<Rightarrow> io_return (Inl e, db)
    | Inr b \<Rightarrow> io_bind (io_try (load_all rt b)) (\<lambda>r. io_return (r, db\<lparr>db_buckets := (db_buckets db)(name \<mapsto> b)\<rparr>)))"

record save_acc =
  sa_buckets :: "u8 list \<rightharpoonup> bucket"
  sa_add :: "u8 list list"
  sa_remove :: "u8 list list"

definition in_bucket :: "u8 list \<Rightarrow> u8 list \<Rightarrow> u8 list" where
  "in_bucket name file = name @ 0x2F # file"

definition save_bucket ::
  "'h storage_rt \<Rightarrow> nat \<Rightarrow> transaction \<Rightarrow> (u8 list \<rightharpoonup> bucket) \<Rightarrow> u8 list \<times> changes \<Rightarrow> save_acc \<Rightarrow> save_acc io" where
  "save_bucket rt max_pack_size t cached nc acc = (case nc of (name, changes) \<Rightarrow>
     io_bind (case cached name of Some b \<Rightarrow> io_return b | None \<Rightarrow> bucket_new rt (child_fs (tx_root_fs t) name)) (\<lambda>b.
     io_bind (bucket_save rt (Some (child_fs (tx_temp_fs t) name)) changes max_pack_size b) (\<lambda>(b, added, removed).
       io_return \<lparr>sa_buckets = (sa_buckets acc)(name \<mapsto> b),
         sa_add = sa_add acc @ map (in_bucket name) added,
         sa_remove = sa_remove acc @ map (in_bucket name) removed\<rparr>)))"

definition save_buckets ::
  "process \<Rightarrow> 'h storage_rt \<Rightarrow> (u8 list \<times> changes) list \<Rightarrow> nat \<Rightarrow> transaction \<Rightarrow> (u8 list \<rightharpoonup> bucket) \<Rightarrow> (u8 list \<rightharpoonup> bucket) io" where
  "save_buckets p rt changes max_pack_size t cached =
    io_bind (io_try (io_fold (save_bucket rt max_pack_size t cached) changes \<lparr>sa_buckets = Map.empty, sa_add = [], sa_remove = []\<rparr>))
      (\<lambda>r. case r of
        Inl e \<Rightarrow> io_bind (transaction_rollback t) (\<lambda>_. io_fail e)
      | Inr acc \<Rightarrow> io_bind (transaction_commit p (sa_add acc) (sa_remove acc) t) (\<lambda>_. io_return (sa_buckets acc)))"

text \<open>
  The buckets of the changes leave the cache when the transaction has begun, and return updated when it is committed.  A
  failure makes the database readonly; its message is not modelled.
\<close>

definition db_save :: "process \<Rightarrow> 'h storage_rt \<Rightarrow> (u8 list \<times> changes) list \<Rightarrow> nat \<Rightarrow> database \<Rightarrow> (bool \<times> database) io" where
  "db_save p rt changes max_pack_size db =
    (if db_readonly db then io_return (False, db)
     else if changes = [] then io_return (True, db)
     else io_bind (io_try (transaction_new p (db_fs db))) (\<lambda>r. case r of
         Inl e \<Rightarrow> io_return (False, db\<lparr>db_readonly := True\<rparr>)
       | Inr t \<Rightarrow>
           let rest = db_buckets db |` (- set (map fst changes))
           in io_bind (io_try (save_buckets p rt changes max_pack_size t (db_buckets db))) (\<lambda>r. case r of
               Inl e \<Rightarrow> io_return (False, db\<lparr>db_buckets := rest, db_readonly := True\<rparr>)
             | Inr updated \<Rightarrow> io_return (True, db\<lparr>db_buckets := rest ++ updated\<rparr>))))"

definition db_reset :: "u8 list \<Rightarrow> database \<Rightarrow> (bool \<times> database) io" where
  "db_reset name db =
    (if db_readonly db then io_return (False, db)
     else
       let db = db\<lparr>db_buckets := (db_buckets db)(name := None)\<rparr>
       in io_bind (io_try (scope_remove (child_fs (db_fs db) name))) (\<lambda>r. case r of
           Inl e \<Rightarrow> io_return (False, db\<lparr>db_readonly := True\<rparr>)
         | Inr _ \<Rightarrow> io_return (True, db)))"

definition db_reset_all :: "database \<Rightarrow> (bool \<times> database) io" where
  "db_reset_all db =
    (if db_readonly db then io_return (False, db)
     else
       let db = db\<lparr>db_buckets := Map.empty\<rparr>
       in io_bind (io_try (scope_remove (db_fs db))) (\<lambda>r. case r of
           Inl e \<Rightarrow> io_return (False, db\<lparr>db_readonly := True\<rparr>)
         | Inr _ \<Rightarrow> io_return (True, db)))"

end
