(* ===== verification/Storage_Main.thy ===== *)
theory Storage_Main
  imports Storage_Db "HOL-Library.AList" "HOL-Library.List_Lexorder"
begin

text \<open>
  \<open>crates/rspack_storage/src/filesystem\<close>: the storage that the compiler uses (\<open>mod.rs\<close>), with its queue of background tasks
  (\<open>task_queue.rs\<close>) and the access times of the cache directories (\<open>meta.rs\<close>, \<open>cache_directory.rs\<close>); and the storage in
  memory (\<open>crates/rspack_storage/src/memory/mod.rs\<close>).  A hash map is an association list without duplicate keys; the order
  in which one is visited is an argument.  A \<open>u64\<close> is a natural number whose sums wrap.
\<close>

section \<open>Cache directories\<close>

definition cache_prefix :: "u8 list" where
  "cache_prefix = bytes ''rspack_v_''"

definition hash_len :: nat where
  "hash_len = 16"

definition is_valid_hash :: "u8 list \<Rightarrow> bool" where
  "is_valid_hash h = (length h = hash_len \<and> list_all (\<lambda>b. is_ascii_digit b \<or> (0x61 \<le> b \<and> b \<le> 0x66)) h)"

definition is_valid_directory :: "u8 list \<Rightarrow> bool" where
  "is_valid_directory s = (starts_with s cache_prefix \<and> is_valid_hash (drop (length cache_prefix) s))"

definition parse_directory :: "u8 list \<Rightarrow> u8 list option" where
  "parse_directory s = (if is_valid_directory s then Some s else None)"

text \<open>An invalid hash is a panic.\<close>

definition cache_directory_new :: "u8 list \<Rightarrow> u8 list option" where
  "cache_directory_new h = (if is_valid_hash h then Some (cache_prefix @ h) else None)"

section \<open>Access times\<close>

type_synonym access_times = "(u8 list \<times> nat) list"

definition access_file :: "u8 list" where
  "access_file = bytes ''_meta''"

function access_lines :: "reader \<Rightarrow> access_times \<Rightarrow> storage_error + access_times" where
  "access_lines r accessed =
    (case stream_read_line r of
       Inl e \<Rightarrow> Inr accessed
     | Inr (line, r) \<Rightarrow>
         if line = [] then Inr accessed
         else (case split_once 0x20 line of
             None \<Rightarrow> Inl InvalidFormat
           | Some (dir, t) \<Rightarrow> (case parse_u64 t of
               None \<Rightarrow> Inl InvalidFormat
             | Some t \<Rightarrow> access_lines r (case parse_directory dir of Some dir \<Rightarrow> AList.update dir t accessed | None \<Rightarrow> accessed))))"
  by pat_completeness auto
termination access_lines
  by (relation "measure (\<lambda>(r, accessed). length r)") (auto dest: read_line_length)

declare access_lines.simps [simp del]

definition access_load :: "scope \<Rightarrow> access_times io" where
  "access_load s = io_bind (stream_read s access_file) (\<lambda>r. io_of_sum (access_lines r []))"

definition put_access :: "u8 list \<times> nat \<Rightarrow> stream_writer \<Rightarrow> stream_writer" where
  "put_access dt w = stream_put_line (fst dt @ 0x20 # show_nat (snd dt)) w"

text \<open>The orders in which the hash maps of the storage are visited.\<close>

record hash_orders =
  ho_times :: "access_times \<Rightarrow> access_times"
  ho_buckets :: "(u8 list \<times> changes) list \<Rightarrow> (u8 list \<times> changes) list"
  ho_changes :: "changes \<Rightarrow> changes"

definition access_save :: "hash_orders \<Rightarrow> access_times \<Rightarrow> scope \<Rightarrow> unit io" where
  "access_save ho accessed s = io_bind (stream_write s access_file) (\<lambda>w. stream_flush (fold put_access (ho_times ho accessed) w))"

text \<open>The closure of \<open>retain\<close>, with the times kept, the directories that are stale and the next check.\<close>

definition retain_time :: "nat \<Rightarrow> nat \<Rightarrow> u8 list \<times> nat \<Rightarrow> access_times \<times> u8 list list \<times> nat \<Rightarrow> access_times \<times> u8 list list \<times> nat" where
  "retain_time expire now dt st = (case (dt, st) of ((dir, t), (kept, stale, next_check)) \<Rightarrow>
     let expiry = wrap_u64 (t + expire)
     in if expiry < now then (kept, stale @ [dir], next_check)
        else (kept @ [(dir, t)], stale, if expiry < next_check then expiry else next_check))"

definition access_refresh :: "hash_orders \<Rightarrow> u8 list \<Rightarrow> nat \<Rightarrow> nat \<Rightarrow> access_times \<Rightarrow> access_times \<times> u8 list list \<times> nat" where
  "access_refresh ho active expire now accessed =
    (let accessed = AList.update active now accessed
     in if expire = 0 then (accessed, [], wrap_u64 (now + 60 * 60))
        else
          (case fold (retain_time expire now) (ho_times ho accessed) ([], [], wrap_u64 (now + expire div 4)) of
             (kept, stale, next_check) \<Rightarrow> (kept, remdups_adj (sort stale), next_check)))"

section \<open>Refreshing the access times\<close>

definition move_stale_directories :: "scope \<Rightarrow> scope \<Rightarrow> u8 list list \<Rightarrow> unit io" where
  "move_stale_directories s stale_fs stale =
    io_bind (ensure_exist stale_fs) (\<lambda>_. io_each (move_to s stale_fs) stale)"

text \<open>
  The clock is read twice.  The result is the new \<open>next_meta_refresh_time\<close>.  The cleanup of the directory \<open>_stale\<close> that is
  spawned at the end is not modelled.
\<close>

definition refresh_metadata :: "hash_orders \<Rightarrow> scope \<Rightarrow> scope \<Rightarrow> u8 list \<Rightarrow> nat \<Rightarrow> nat \<times> nat \<Rightarrow> nat \<Rightarrow> nat io" where
  "refresh_metadata ho s stale_fs cache_directory expire clock next_refresh =
    (if next_refresh > fst clock then io_return next_refresh
     else io_bind (io_try (or_default (access_load s) [])) (\<lambda>r. case r of
         Inl e \<Rightarrow> io_return next_refresh
       | Inr accessed \<Rightarrow> (case access_refresh ho cache_directory expire (snd clock) accessed of (accessed, stale, next_check) \<Rightarrow>
           io_bind (io_try (access_save ho accessed s)) (\<lambda>r. case r of
             Inl e \<Rightarrow> io_return next_refresh
           | Inr _ \<Rightarrow> io_bind (io_try (move_stale_directories s stale_fs stale)) (\<lambda>r. case r of
               Inl e \<Rightarrow> io_return next_refresh
             | Inr _ \<Rightarrow> io_return next_check)))))"

section \<open>The storage\<close>

record storage_options =
  op_directory :: path
  op_cache_directory :: "u8 list"
  op_max_pack_size :: nat
  op_expire :: nat

datatype task = SaveTask "(u8 list \<times> changes) list" | ResetTask "u8 list" | ResetAllTask

record fs_storage =
  so_fs :: scope
  so_db :: database
  so_task_queue :: "task list"
  so_updates :: "(u8 list \<times> changes) list"
  so_options :: storage_options
  so_next_refresh :: nat

definition storage_new :: "storage_options \<Rightarrow> fs_storage" where
  "storage_new options = \<lparr>so_fs = op_directory options, so_db = db_new (child_fs (op_directory options) (op_cache_directory options)),
    so_task_queue = [], so_updates = [], so_options = options, so_next_refresh = 0\<rparr>"

definition storage_stale_fs :: "fs_storage \<Rightarrow> scope" where
  "storage_stale_fs s = child_fs (so_fs s) (bytes ''_stale'')"

definition add_task :: "task \<Rightarrow> fs_storage \<Rightarrow> fs_storage" where
  "add_task t s = s\<lparr>so_task_queue := so_task_queue s @ [t]\<rparr>"

definition stage_update :: "u8 list \<Rightarrow> u8 list \<Rightarrow> u8 list option \<Rightarrow> fs_storage \<Rightarrow> fs_storage" where
  "stage_update name key v s =
    (let scope_update = (case map_of (so_updates s) name of Some ch \<Rightarrow> ch | None \<Rightarrow> [])
     in s\<lparr>so_updates := AList.update name (AList.update key v scope_update) (so_updates s)\<rparr>)"

definition storage_set :: "u8 list \<Rightarrow> u8 list \<Rightarrow> u8 list \<Rightarrow> fs_storage \<Rightarrow> fs_storage" where
  "storage_set name key v s = stage_update name key (Some v) s"

definition storage_remove :: "u8 list \<Rightarrow> u8 list \<Rightarrow> fs_storage \<Rightarrow> fs_storage" where
  "storage_remove name key s = stage_update name key None s"

definition storage_save :: "hash_orders \<Rightarrow> fs_storage \<Rightarrow> fs_storage" where
  "storage_save ho s =
    (let changes = map (\<lambda>(n, ch). (n, ho_changes ho ch)) (ho_buckets ho (so_updates s))
     in add_task (SaveTask changes) (s\<lparr>so_updates := []\<rparr>))"

definition storage_reset :: "u8 list \<Rightarrow> fs_storage \<Rightarrow> fs_storage" where
  "storage_reset name s = add_task (ResetTask name) (s\<lparr>so_updates := AList.delete name (so_updates s)\<rparr>)"

definition storage_reset_all :: "fs_storage \<Rightarrow> fs_storage" where
  "storage_reset_all s = add_task ResetAllTask (s\<lparr>so_updates := []\<rparr>)"

definition storage_load :: "process \<Rightarrow> 'h storage_rt \<Rightarrow> u8 list \<Rightarrow> fs_storage \<Rightarrow> ((storage_error + pack_data) \<times> fs_storage) io" where
  "storage_load p rt name s = io_bind (db_load p rt name (so_db s)) (\<lambda>(data, db). io_return (data, s\<lparr>so_db := db\<rparr>))"

text \<open>A task when the worker runs it, and the worker that takes the next one.\<close>

definition run_task :: "process \<Rightarrow> 'h storage_rt \<Rightarrow> hash_orders \<Rightarrow> nat \<times> nat \<Rightarrow> task \<Rightarrow> fs_storage \<Rightarrow> fs_storage io" where
  "run_task p rt ho clock t s = (case t of
      SaveTask changes \<Rightarrow> io_bind (db_save p rt changes (op_max_pack_size (so_options s)) (so_db s)) (\<lambda>(ok, db).
        if ok then
          io_bind (refresh_metadata ho (so_fs s) (storage_stale_fs s) (op_cache_directory (so_options s)) (op_expire (so_options s))
            clock (so_next_refresh s)) (\<lambda>next_refresh. io_return (s\<lparr>so_db := db, so_next_refresh := next_refresh\<rparr>))
        else io_return (s\<lparr>so_db := db\<rparr>))
    | ResetTask name \<Rightarrow> io_bind (db_reset name (so_db s)) (\<lambda>(ok, db). io_return (s\<lparr>so_db := db\<rparr>))
    | ResetAllTask \<Rightarrow> io_bind (db_reset_all (so_db s)) (\<lambda>(ok, db). io_return (s\<lparr>so_db := db\<rparr>)))"

definition run_next :: "process \<Rightarrow> 'h storage_rt \<Rightarrow> hash_orders \<Rightarrow> nat \<times> nat \<Rightarrow> fs_storage \<Rightarrow> fs_storage io" where
  "run_next p rt ho clock s = (case so_task_queue s of
      [] \<Rightarrow> io_return s
    | t # ts \<Rightarrow> run_task p rt ho clock t (s\<lparr>so_task_queue := ts\<rparr>))"

section \<open>The storage in memory\<close>

type_synonym memory_storage = "(u8 list \<times> pack_data) list"

definition memory_load :: "u8 list \<Rightarrow> memory_storage \<Rightarrow> pack_data" where
  "memory_load name m = (case map_of m name of Some data \<Rightarrow> data | None \<Rightarrow> [])"

definition memory_set :: "u8 list \<Rightarrow> u8 list \<Rightarrow> u8 list \<Rightarrow> memory_storage \<Rightarrow> memory_storage" where
  "memory_set name key v m =
    AList.update name (AList.update key v (case map_of m name of Some data \<Rightarrow> data | None \<Rightarrow> [])) m"

definition memory_remove :: "u8 list \<Rightarrow> u8 list \<Rightarrow> memory_storage \<Rightarrow> memory_storage" where
  "memory_remove name key m = AList.map_entry name (AList.delete key) m"

definition memory_reset :: "u8 list \<Rightarrow> memory_storage \<Rightarrow> memory_storage" where
  "memory_reset name m = AList.delete name m"

definition memory_reset_all :: "memory_storage \<Rightarrow> memory_storage" where
  "memory_reset_all m = []"

section \<open>Runs\<close>

text \<open>
  What the compiler and the worker do, one after the other: the worker runs its next task, with the times it reads, and a
  process that ended is followed by one that starts on the disk it left.
\<close>

datatype storage_op =
    SetOp "u8 list" "u8 list" "u8 list" | RemoveOp "u8 list" "u8 list" | SaveOp | ResetOp "u8 list" | ResetAllOp
  | LoadOp "u8 list" | WorkOp "nat \<times> nat" | RestartOp

fun storage_step ::
  "process \<Rightarrow> 'h storage_rt \<Rightarrow> hash_orders \<Rightarrow> storage_op \<Rightarrow> fs_storage \<Rightarrow> ((storage_error + pack_data) list \<times> fs_storage) io" where
  "storage_step p rt ho (SetOp n k v) s = io_return ([], storage_set n k v s)"
| "storage_step p rt ho (RemoveOp n k) s = io_return ([], storage_remove n k s)"
| "storage_step p rt ho SaveOp s = io_return ([], storage_save ho s)"
| "storage_step p rt ho (ResetOp n) s = io_return ([], storage_reset n s)"
| "storage_step p rt ho ResetAllOp s = io_return ([], storage_reset_all s)"
| "storage_step p rt ho (LoadOp n) s = io_bind (storage_load p rt n s) (\<lambda>(data, s). io_return ([data], s))"
| "storage_step p rt ho (WorkOp clock) s = io_bind (run_next p rt ho clock s) (\<lambda>s. io_return ([], s))"
| "storage_step p rt ho RestartOp s = io_return ([], storage_new (so_options s))"

fun storage_run ::
  "process \<Rightarrow> 'h storage_rt \<Rightarrow> hash_orders \<Rightarrow> storage_op list \<Rightarrow> fs_storage \<Rightarrow> ((storage_error + pack_data) list \<times> fs_storage) io" where
  "storage_run p rt ho [] s = io_return ([], s)"
| "storage_run p rt ho (op # ops) s =
    io_bind (storage_step p rt ho op s) (\<lambda>(loaded, s).
      io_bind (storage_run p rt ho ops s) (\<lambda>(loaded', s). io_return (loaded @ loaded', s)))"

fun memory_step :: "storage_op \<Rightarrow> memory_storage \<Rightarrow> memory_storage" where
  "memory_step (SetOp n k v) m = memory_set n k v m"
| "memory_step (RemoveOp n k) m = memory_remove n k m"
| "memory_step (ResetOp n) m = memory_reset n m"
| "memory_step ResetAllOp m = memory_reset_all m"
| "memory_step SaveOp m = m"
| "memory_step (LoadOp n) m = m"
| "memory_step (WorkOp clock) m = m"
| "memory_step RestartOp m = []"

end
