(* ===== verification/Storage_Disk.thy ===== *)
theory Storage_Disk
  imports Storage_Fs "HOL-Library.Sublist"
begin

text \<open>
  A calculus for operations on a disk that may die at any change.  \<open>gives m d Q C\<close>: from \<open>d\<close> the operation returns and
  \<open>Q\<close> holds of the result and the disk, or the process dies, which it does only when its steps are bounded, and \<open>C\<close>
  holds of the disk; it neither fails nor panics.
\<close>

named_theorems gives_rules "outcomes of the operations on the disk"

definition gives :: "'a io \<Rightarrow> disk \<Rightarrow> ('a \<Rightarrow> disk \<Rightarrow> bool) \<Rightarrow> (disk \<Rightarrow> bool) \<Rightarrow> bool" where
  "gives m d Q C \<longleftrightarrow> (case m d of
      (Ret x, d') \<Rightarrow> Q x d' \<and> (dk_steps d = None \<longrightarrow> dk_steps d' = None)
    | (Crash, d') \<Rightarrow> C d' \<and> dk_steps d \<noteq> None
    | _ \<Rightarrow> False)"

lemma gives_conseq:
  "gives m d Q C \<Longrightarrow> (\<And>x d'. Q x d' \<Longrightarrow> Q' x d') \<Longrightarrow> (\<And>d'. C d' \<Longrightarrow> C' d') \<Longrightarrow> gives m d Q' C'"
  by (auto simp: gives_def split: prod.splits outcome.splits)

lemma gives_ret: "m d = (Ret x, d) \<Longrightarrow> Q x d \<Longrightarrow> gives m d Q C"
  by (simp add: gives_def)

lemma gives_return [gives_rules]: "Q x d \<Longrightarrow> gives (io_return x) d Q C"
  by (simp add: gives_def io_return_def)

lemma gives_bind:
  assumes "gives m d Q' C'" "\<And>x d'. Q' x d' \<Longrightarrow> gives (f x) d' Q C" "\<And>d'. C' d' \<Longrightarrow> C d'"
  shows "gives (io_bind m f) d Q C"
proof (cases "m d")
  case (Pair r d')
  show ?thesis
  proof (cases r)
    case (Ret x)
    then have "Q' x d'" "dk_steps d = None \<longrightarrow> dk_steps d' = None" using assms(1) Pair by (simp_all add: gives_def)
    moreover have "gives (f x) d' Q C" using assms(2) \<open>Q' x d'\<close> .
    ultimately show ?thesis
      unfolding gives_def io_bind_def Pair Ret by (cases "f x d'"; cases "fst (f x d')") auto
  qed (use assms(1,3) Pair in \<open>simp_all add: gives_def io_bind_def\<close>)
qed

lemma gives_bind_ret:
  assumes "m d = (Ret x, d)" "gives (f x) d Q C"
  shows "gives (io_bind m f) d Q C"
  using assms by (simp add: gives_def io_bind_def)

lemma gives_try: "gives m d Q C \<Longrightarrow> gives (io_try m) d (\<lambda>r d'. \<exists>x. r = Inr x \<and> Q x d') C"
  by (auto simp: gives_def io_try_def split: prod.splits outcome.splits)

lemma gives_ignore: "gives m d Q C \<Longrightarrow> gives (io_ignore m) d (\<lambda>_ d'. \<exists>x. Q x d') C"
  unfolding io_ignore_def by (rule gives_bind [OF gives_try], assumption) (auto intro: gives_return)

lemma gives_unless_not_found: "gives m d Q C \<Longrightarrow> gives (unless_not_found m) d Q C"
  unfolding unless_not_found_def by (rule gives_bind [OF gives_try], assumption) (auto intro: gives_return)

lemma gives_each:
  assumes "I 0 d" "\<And>i d. i < length xs \<Longrightarrow> I i d \<Longrightarrow> gives (f (xs ! i)) d (\<lambda>_. I (Suc i)) C"
  shows "gives (io_each f xs) d (\<lambda>_. I (length xs)) C"
  using assms
proof (induction xs arbitrary: d I)
  case Nil
  then show ?case by (simp add: gives_return)
next
  case (Cons x xs)
  show ?case
    unfolding io_each.simps
  proof (rule gives_bind)
    show "gives (f x) d (\<lambda>_. I 1) C" using Cons.prems(2) [of 0 d] Cons.prems(1) by simp
    show "gives (io_each f xs) d' (\<lambda>_. I (length (x # xs))) C" if "I 1 d'" for d'
      using Cons.IH [of "\<lambda>i. I (Suc i)"] Cons.prems(2) that by fastforce
  qed
qed

lemma gives_fold:
  assumes "I 0 s d" "\<And>i s d. i < length xs \<Longrightarrow> I i s d \<Longrightarrow> gives (f (xs ! i) s) d (I (Suc i)) C"
  shows "gives (io_fold f xs s) d (I (length xs)) C"
  using assms
proof (induction xs arbitrary: s d I)
  case Nil
  then show ?case by (simp add: gives_return)
next
  case (Cons x xs)
  show ?case
    unfolding io_fold.simps
  proof (rule gives_bind)
    show "gives (f x s) d (I 1) C" using Cons.prems(2) [of 0 s d] Cons.prems(1) by simp
    show "gives (io_fold f xs s') d' (I (length (x # xs))) C" if "I 1 s' d'" for s' d'
      using Cons.IH [of "\<lambda>i. I (Suc i)"] Cons.prems(2) that by fastforce
  qed
qed

lemma gives_change:
  assumes "\<And>d'. dk_files d' = g (dk_files d) \<Longrightarrow> Q () d'" "C d"
  shows "gives (io_change g) d Q C"
  using assms by (auto simp: gives_def io_change_def split: option.splits nat.splits)

section \<open>Contents and directories\<close>

definition cont :: "disk \<Rightarrow> path \<Rightarrow> u8 list option" where
  "cont d p = (case dk_files d p of Some (File c) \<Rightarrow> Some c | _ \<Rightarrow> None)"

definition isdir :: "disk \<Rightarrow> path \<Rightarrow> bool" where
  "isdir d p \<longleftrightarrow> dk_files d p = Some Dir"

lemma cont_Some: "cont d p = Some c \<longleftrightarrow> dk_files d p = Some (File c)"
  by (auto simp: cont_def split: option.splits node.splits)

lemma cont_None: "cont d p = None \<longleftrightarrow> dk_files d p = None \<or> dk_files d p = Some Dir"
  by (auto simp: cont_def split: option.splits node.splits)

lemma no_file_cases: "cont d p = None \<Longrightarrow> \<not> isdir d p \<Longrightarrow> dk_files d p = None"
  by (auto simp: cont_None isdir_def)

lemma cont_not_dir: "cont d p = Some c \<Longrightarrow> \<not> isdir d p"
  by (simp add: cont_Some isdir_def)

text \<open>Contents change only at \<open>cs\<close>, directories appear only at \<open>ds\<close> and stay.\<close>

definition changes :: "path set \<Rightarrow> path set \<Rightarrow> disk \<Rightarrow> disk \<Rightarrow> bool" where
  "changes cs ds d d' \<longleftrightarrow> (\<forall>q. q \<notin> cs \<longrightarrow> cont d' q = cont d q) \<and> (\<forall>q. isdir d q \<longrightarrow> isdir d' q) \<and>
    (\<forall>q. isdir d' q \<longrightarrow> isdir d q \<or> q \<in> ds)"

lemma changes_refl [simp]: "changes cs ds d d"
  by (simp add: changes_def)

lemma changes_mono: "changes cs ds d d' \<Longrightarrow> cs \<subseteq> cs' \<Longrightarrow> ds \<subseteq> ds' \<Longrightarrow> changes cs' ds' d d'"
  by (auto simp: changes_def)

lemma changes_trans: "changes cs ds d d' \<Longrightarrow> changes cs ds d' d'' \<Longrightarrow> changes cs ds d d''"
  by (simp add: changes_def) metis

lemma changes_cont: "changes cs ds d d' \<Longrightarrow> q \<notin> cs \<Longrightarrow> cont d' q = cont d q"
  by (simp add: changes_def)

lemma changes_dir: "changes cs ds d d' \<Longrightarrow> isdir d q \<Longrightarrow> isdir d' q"
  by (simp add: changes_def)

lemma changes_not_dir: "changes cs ds d d' \<Longrightarrow> \<not> isdir d q \<Longrightarrow> q \<notin> ds \<Longrightarrow> \<not> isdir d' q"
  by (auto simp: changes_def)

section \<open>The operations\<close>

lemma contains_dir_run: "cont d p = None \<Longrightarrow> contains_dir p d = (Ret (isdir d p), d)"
  by (auto simp: contains_dir_def io_bind_def io_read_def io_return_def cont_None isdir_def)

lemma contains_file_run: "\<not> isdir d p \<Longrightarrow> contains_file p d = (Ret (cont d p \<noteq> None), d)"
  by (auto simp: contains_file_def io_bind_def io_read_def io_return_def cont_def isdir_def split: option.splits node.splits)

lemma fs_read_run: "fs_read p d = (case cont d p of Some c \<Rightarrow> (Ret c, d) | None \<Rightarrow> (Fail not_found, d))"
  by (auto simp: fs_read_def io_bind_def io_read_def io_return_def io_fail_def cont_def split: option.splits node.splits)

lemma prefix_butlast: "p \<noteq> [] \<Longrightarrow> prefix q p \<longleftrightarrow> prefix q (butlast p) \<or> q = p"
  by (metis append_butlast_last_id prefix_snoc)

lemma create_dir_all_gives:
  assumes "\<forall>q. prefix q p \<longrightarrow> cont d q = None"
  shows "gives (fs_create_dir_all p) d (\<lambda>_ d'. changes {} {q. prefix q p} d d' \<and> isdir d' p) (changes {} {q. prefix q p} d)"
  using assms
proof (induction p arbitrary: d rule: fs_create_dir_all.induct)
  case (1 p)
  note c = contains_dir_run [OF 1(2) [rule_format, OF prefix_order.refl]]
  have add: "gives (io_change (\<lambda>files. files(p \<mapsto> Dir))) d' (\<lambda>_ d''. changes {} {q. prefix q p} d d'' \<and> isdir d'' p)
      (changes {} {q. prefix q p} d)" if d': "changes {} {q. prefix q p} d d'" for d'
  proof (rule gives_change)
    fix d'' :: disk assume f: "dk_files d'' = (dk_files d')(p \<mapsto> Dir)"
    have "cont d' p = None" using 1(2) changes_cont [OF d'] by auto
    then have "changes {} {q. prefix q p} d' d''" using f by (auto simp: changes_def cont_def isdir_def split: if_splits)
    then show "changes {} {q. prefix q p} d d'' \<and> isdir d'' p" using changes_trans [OF d'] f by (simp add: isdir_def)
  qed (rule d')
  show ?case
  proof (cases "isdir d p")
    case True
    then show ?thesis by (subst fs_create_dir_all.simps) (rule gives_bind_ret [where m = "contains_dir p", OF c], simp add: gives_return)
  next
    case False
    have parent: "gives (case path_parent p of None \<Rightarrow> io_return () | Some q \<Rightarrow> fs_create_dir_all q) d
      (\<lambda>_. changes {} {q. prefix q p} d) (changes {} {q. prefix q p} d)"
    proof (cases "path_parent p")
      case None
      then show ?thesis by (simp add: gives_return)
    next
      case (Some q)
      then have q: "q = butlast p" "p \<noteq> []" by (auto simp: path_parent_def split: if_splits)
      have sub: "{r. prefix r q} \<subseteq> {r. prefix r p}" using prefix_butlast [OF q(2)] q(1) by auto
      have "gives (fs_create_dir_all q) d (\<lambda>_ d'. changes {} {r. prefix r q} d d' \<and> isdir d' q) (changes {} {r. prefix r q} d)"
        using 1(1) [OF False Some] 1(2) sub by auto
      then show ?thesis using Some sub by (auto elim!: gives_conseq intro: changes_mono)
    qed
    show ?thesis
      by (subst fs_create_dir_all.simps, rule gives_bind_ret [where m = "contains_dir p", OF c], simp only: False if_False, rule gives_bind [OF parent])
        (use add in auto)
  qed
qed

lemma remove_file_gives:
  assumes "\<not> isdir d p"
  shows "gives (fs_remove_file p) d (\<lambda>_ d'. changes {p} {} d d' \<and> cont d' p = None) (\<lambda>d'. d' = d)"
proof (cases "cont d p")
  case None
  then show ?thesis
    unfolding fs_remove_file_def by (intro gives_bind_ret [where m = "contains_file p", OF contains_file_run [OF assms]]) (simp add: gives_return)
next
  case (Some c)
  have "gives (io_change (\<lambda>files. files(p := None))) d (\<lambda>_ d'. changes {p} {} d d' \<and> cont d' p = None) (\<lambda>d'. d' = d)"
    by (rule gives_change) (use assms in \<open>auto simp: changes_def cont_def isdir_def split: if_splits\<close>)
  then show ?thesis
    using Some unfolding fs_remove_file_def by (intro gives_bind_ret [where m = "contains_file p", OF contains_file_run [OF assms]]) simp
qed

lemma scope_remove_file_gives:
  assumes "\<not> isdir d (path_join s f)"
  shows "gives (scope_remove_file s f) d (\<lambda>_ d'. changes {path_join s f} {} d d' \<and> cont d' (path_join s f) = None) (\<lambda>d'. d' = d)"
  unfolding scope_remove_file_def by (rule gives_unless_not_found [OF remove_file_gives [OF assms]])

text \<open>A file written through a stream appears with all its bytes when the stream is flushed.\<close>

definition write_file :: "scope \<Rightarrow> u8 list \<Rightarrow> u8 list \<Rightarrow> unit io" where
  "write_file s f c = io_bind (stream_write s f) (\<lambda>w. stream_flush (w\<lparr>sw_contents := c\<rparr>))"

lemma fs_write_gives:
  assumes "\<not> isdir d p" "path_parent p = Some q" "isdir d q" "cont d q = None"
  shows "gives (fs_write p c) d (\<lambda>_ d'. changes {p} {} d d' \<and> cont d' p = Some c) (\<lambda>d'. d' = d)"
proof -
  have add: "gives (io_change (\<lambda>files. files(p \<mapsto> File c))) d (\<lambda>_ d'. changes {p} {} d d' \<and> cont d' p = Some c) (\<lambda>d'. d' = d)"
    by (rule gives_change) (use assms(1) in \<open>auto simp: changes_def cont_def isdir_def split: if_splits\<close>)
  show ?thesis
    unfolding fs_write_def
  proof (rule gives_bind_ret [of _ _ "dk_files d p"])
    show "io_read (\<lambda>files. files p) d = (Ret (dk_files d p), d)" by (simp add: io_read_def)
    show "gives (case dk_files d p of None \<Rightarrow> (case path_parent p of None \<Rightarrow> io_panic | Some q \<Rightarrow>
        io_bind (contains_dir q) (\<lambda>found. if \<not> found then io_fail (new_error ''parent dir not exist'')
          else io_change (\<lambda>files. files(p \<mapsto> File c))))
      | Some Dir \<Rightarrow> io_fail (new_error ''invalid file path'')
      | Some (File x) \<Rightarrow> io_change (\<lambda>files. files(p \<mapsto> File c))) d (\<lambda>_ d'. changes {p} {} d d' \<and> cont d' p = Some c) (\<lambda>d'. d' = d)"
      using assms add
      by (auto simp: isdir_def split: option.splits node.splits intro!: gives_bind_ret [OF contains_dir_run])
  qed
qed

lemma write_file_atomic:
  assumes "path_parent (path_join s f) = Some q" "\<not> isdir d (path_join s f)" "\<forall>r. prefix r q \<longrightarrow> cont d r = None"
    "q \<noteq> path_join s f" "\<not> prefix (path_join s f) q"
  shows "gives (write_file s f c) d
    (\<lambda>_ d'. changes {path_join s f} {r. prefix r q} d d' \<and> cont d' (path_join s f) = Some c)
    (\<lambda>d'. changes {path_join s f} {r. prefix r q} d d' \<and> cont d' (path_join s f) \<in> {cont d (path_join s f), None})"
proof -
  let ?p = "path_join s f" and ?ds = "{r. prefix r q}"
  let ?crash = "\<lambda>d'. changes {?p} ?ds d d' \<and> cont d' ?p \<in> {cont d ?p, None}"
  have rm: "gives (io_ignore (scope_remove_file s f)) d (\<lambda>_ d'. changes {?p} ?ds d d' \<and> cont d' ?p = None) ?crash"
    by (rule gives_conseq [OF gives_ignore [OF scope_remove_file_gives [OF assms(2)]]]) (auto intro: changes_mono)
  have open_file: "gives (stream_write s f) d
      (\<lambda>w d'. w = \<lparr>sw_file = ?p, sw_contents = []\<rparr> \<and> changes {?p} ?ds d d' \<and> cont d' ?p = None \<and> isdir d' q) ?crash"
    unfolding stream_write_def
  proof (rule gives_bind [OF rm])
    fix x :: unit and d' assume d': "changes {?p} ?ds d d' \<and> cont d' ?p = None"
    have "\<forall>r. prefix r q \<longrightarrow> cont d' r = None"
      using assms(3,5) changes_cont [OF conjunct1 [OF d']] by auto
    from create_dir_all_gives [OF this]
    have "gives (fs_create_dir_all q) d' (\<lambda>_ d''. changes {?p} ?ds d d'' \<and> cont d'' ?p = None \<and> isdir d'' q) ?crash"
    proof (rule gives_conseq)
      have step: "changes {?p} ?ds d d'' \<and> cont d'' ?p = None" if "changes {} ?ds d' d''" for d''
        using d' that changes_cont [OF that, of ?p] changes_trans [OF conjunct1 [OF d'] changes_mono [OF that]] by simp
      show "changes {?p} ?ds d d'' \<and> cont d'' ?p = None \<and> isdir d'' q" if "changes {} ?ds d' d'' \<and> isdir d'' q" for d'' using that step by blast
      show "?crash d''" if "changes {} ?ds d' d''" for d'' using step [OF that] by simp
    qed
    then show "gives (let p = ?p in case path_parent p of None \<Rightarrow> io_panic
        | Some parent \<Rightarrow> io_bind (fs_create_dir_all parent) (\<lambda>_. io_return \<lparr>sw_file = p, sw_contents = []\<rparr>)) d'
      (\<lambda>w d'. w = \<lparr>sw_file = ?p, sw_contents = []\<rparr> \<and> changes {?p} ?ds d d' \<and> cont d' ?p = None \<and> isdir d' q) ?crash"
      using assms(1) by (simp add: Let_def) (erule gives_bind, auto intro: gives_return)
  qed simp
  show ?thesis
    unfolding write_file_def
  proof (rule gives_bind [OF open_file])
    fix w d' assume w: "w = \<lparr>sw_file = ?p, sw_contents = []\<rparr> \<and> changes {?p} ?ds d d' \<and> cont d' ?p = None \<and> isdir d' q"
    have "\<not> isdir d' ?p" using w assms(2,5) changes_not_dir [of "{?p}" ?ds d d' ?p] by auto
    moreover have "cont d' q = None" using w assms(3,4) changes_cont [of "{?p}" ?ds d d' q] by auto
    ultimately have "gives (fs_write ?p c) d' (\<lambda>_ d''. changes {?p} {} d' d'' \<and> cont d'' ?p = Some c) (\<lambda>d''. d'' = d')"
      using fs_write_gives assms(1) w by blast
    then show "gives (stream_flush (w\<lparr>sw_contents := c\<rparr>)) d' (\<lambda>_ d'. changes {?p} ?ds d d' \<and> cont d' ?p = Some c) ?crash"
      using w unfolding stream_flush_def by (auto elim!: gives_conseq intro: changes_trans changes_mono)
  qed simp
qed

lemma write_file_gives:
  assumes "path_parent (path_join s f) = Some q" "\<not> isdir d (path_join s f)" "\<forall>r. prefix r q \<longrightarrow> cont d r = None"
    "q \<noteq> path_join s f" "\<not> prefix (path_join s f) q"
  shows "gives (write_file s f c) d
    (\<lambda>_ d'. changes {path_join s f} {r. prefix r q} d d' \<and> cont d' (path_join s f) = Some c)
    (changes {path_join s f} {r. prefix r q} d)"
  by (rule gives_conseq [OF write_file_atomic [OF assms]]) simp_all

text \<open>Moving a file whose target directory exists; a missing source is no error.\<close>

lemma rename_file_gives:
  assumes "cont d p = Some c" "\<not> isdir d t" "p \<noteq> t"
  shows "gives (rename_file p t) d (\<lambda>_ d'. changes {p, t} {} d d' \<and> cont d' t = Some c \<and> cont d' p = None)
    (\<lambda>d'. changes {t} {} d d')"
proof -
  have found: "contains_file p d = (Ret True, d)"
    using contains_file_run [OF cont_not_dir [OF assms(1)]] assms(1) by simp
  have "gives (io_bind (fs_remove_file t) (\<lambda>_. io_change (\<lambda>files. (files(p := None))(t := files p)))) d
      (\<lambda>_ d'. changes {p, t} {} d d' \<and> cont d' t = Some c \<and> cont d' p = None) (\<lambda>d'. changes {t} {} d d')"
  proof (rule gives_bind [OF remove_file_gives [OF assms(2)]])
    fix x :: unit and d' assume d': "changes {t} {} d d' \<and> cont d' t = None"
    have p: "dk_files d' p = Some (File c)" using d' assms(1,3) changes_cont [of "{t}" "{}" d d' p] by (simp flip: cont_Some)
    show "gives (io_change (\<lambda>files. (files(p := None))(t := files p))) d'
        (\<lambda>_ d'. changes {p, t} {} d d' \<and> cont d' t = Some c \<and> cont d' p = None) (\<lambda>d'. changes {t} {} d d')"
    proof (rule gives_change)
      fix d'' :: disk assume f: "dk_files d'' = (dk_files d')(p := None, t := dk_files d' p)"
      have "\<not> isdir d' t" using d' assms(2) changes_not_dir [of "{t}" "{}" d d' t] by auto
      then have "changes {p, t} {} d' d''" using f p by (auto simp: changes_def cont_def isdir_def split: if_splits)
      moreover have "changes {p, t} {} d d'" using d' by (auto intro: changes_mono)
      ultimately show "changes {p, t} {} d d'' \<and> cont d'' t = Some c \<and> cont d'' p = None"
        using f p assms(3) by (auto simp: cont_def intro: changes_trans)
    qed (use d' in simp)
  qed auto
  then show ?thesis
    unfolding rename_file_def by (intro gives_bind_ret [where m = "contains_file p", OF found]) simp
qed

lemma move_to_gives:
  assumes p: "path_join s f = p" "\<not> isdir d p" and t: "path_join s' f = t" "\<not> isdir d t" "path_parent t = Some q" "isdir d q"
    and "p \<noteq> t"
  shows "gives (move_to s s' f) d
    (\<lambda>_ d'. case cont d p of None \<Rightarrow> d' = d | Some c \<Rightarrow> changes {p, t} {} d d' \<and> cont d' t = Some c \<and> cont d' p = None)
    (\<lambda>d'. cont d p \<noteq> None \<and> changes {t} {} d d')"
proof -
  have q: "contains_dir q d = (Ret True, d)"
    using t(4) contains_dir_run [of d q] by (simp add: cont_def isdir_def)
  show ?thesis
  proof (cases "cont d p")
    case None
    then have "dk_files d p = None" using p(2) by (rule no_file_cases)
    then have "rename_path p t d = (Fail not_found, d)"
      using t(3) q \<open>p \<noteq> t\<close> by (simp add: rename_path_def io_bind_def io_read_def io_fail_def)
    then have "move_to s s' f d = (Ret (), d)"
      by (simp add: move_to_def p t unless_not_found_def io_bind_def io_try_def not_found_def io_return_def)
    then show ?thesis using None by (intro gives_ret) auto
  next
    case (Some c)
    then have f: "dk_files d p = Some (File c)" by (simp add: cont_Some)
    have "rename_path p t d = rename_file p t d"
      using t(3) q \<open>p \<noteq> t\<close> f by (simp add: rename_path_def io_bind_def io_read_def)
    then have "gives (rename_path p t) d (\<lambda>_ d'. changes {p, t} {} d d' \<and> cont d' t = Some c \<and> cont d' p = None) (\<lambda>d'. changes {t} {} d d')"
      using rename_file_gives [OF Some t(2) \<open>p \<noteq> t\<close>] by (simp add: gives_def)
    from gives_unless_not_found [OF this] show ?thesis
      unfolding move_to_def p t by (rule gives_conseq) (auto simp: Some)
  qed
qed

text \<open>Removing a directory with all that is under it.\<close>

definition under :: "path \<Rightarrow> path \<Rightarrow> bool" where
  "under s q \<longleftrightarrow> prefix s q"

lemma starts_with_under: "path_starts_with q s = under s q"
  by (metis append_eq_conv_conj path_starts_with_def prefix_def under_def)

lemma scope_remove_gives:
  assumes "cont d s = None"
  shows "gives (scope_remove s) d
    (\<lambda>_ d'. if isdir d s then (\<forall>q. dk_files d' q = (if under s q then None else dk_files d q)) else d' = d) (\<lambda>d'. d' = d)"
proof -
  have "gives (fs_remove_dir_all s) d
    (\<lambda>_ d'. if isdir d s then (\<forall>q. dk_files d' q = (if under s q then None else dk_files d q)) else d' = d) (\<lambda>d'. d' = d)"
    unfolding fs_remove_dir_all_def
  proof (rule gives_bind_ret [where m = "contains_dir s", OF contains_dir_run [OF assms]])
    show "gives (if isdir d s then io_change (\<lambda>files p. if path_starts_with p s then None else files p) else io_return ()) d
      (\<lambda>_ d'. if isdir d s then (\<forall>q. dk_files d' q = (if under s q then None else dk_files d q)) else d' = d) (\<lambda>d'. d' = d)"
      by (auto intro!: gives_change gives_return simp: starts_with_under)
  qed
  then show ?thesis unfolding scope_remove_def by (rule gives_unless_not_found)
qed

end
