(* ===== verification/Storage_Files.thy ===== *)
theory Storage_Files
  imports Storage_Db Storage_Disk
begin

text \<open>The files of the cache: their names, what saving writes into them and what loading reads back.\<close>

section \<open>Hash maps\<close>

lemma lookup_delete' [simp]: "Mapping.lookup (Mapping.delete k m) i = (if k = i then None else Mapping.lookup m i)"
  by (cases "k = i") auto

lemma lookup_restrict [simp]: "Mapping.lookup (Mapping.filter (\<lambda>i _. i \<in> s) m) = Mapping.lookup m |` s"
  by (auto simp: lookup_filter restrict_map_def fun_eq_iff split: option.splits)

lemma lookup_empty_map [simp]: "Mapping.lookup Mapping.empty = Map.empty"
  by (simp add: fun_eq_iff)

declare lookup_update' [simp] keys_dom_lookup [simp]

section \<open>Names\<close>

definition component :: "u8 list \<Rightarrow> bool" where
  "component n \<longleftrightarrow> n \<noteq> [] \<and> 0x2F \<notin> set n \<and> n \<noteq> [0x2E]"

lemma components_single: "component n \<Longrightarrow> path_components n = [n]"
  by (cases n) (auto simp: component_def path_components_def byte_get_def split_at_byte_none simp del: split_at_byte.simps)

lemma join_component: "component n \<Longrightarrow> path_join p n = p @ [n]"
  using components_single by (cases n) (auto simp: path_join_def byte_get_def component_def)

lemma join_in_bucket:
  assumes "component n" "component f"
  shows "path_join p (in_bucket n f) = p @ [n, f]"
proof -
  have "split_at_byte 0x2F (n @ 0x2F # f) = [n, f]"
    using assms by (simp add: component_def split_at_byte_append split_at_byte_none)
  then have "path_components (n @ 0x2F # f) = [n, f]"
    using assms by (cases n) (auto simp: component_def path_components_def byte_get_def simp del: split_at_byte.simps)
  then show ?thesis using assms by (cases n) (auto simp: path_join_def byte_get_def component_def in_bucket_def)
qed

text \<open>A bucket is named by visible ASCII without a slash; hidden names and the names of the lock files are not buckets.\<close>

definition bucket_name :: "u8 list \<Rightarrow> bool" where
  "bucket_name n \<longleftrightarrow> plain_text n \<and> 0x2F \<notin> set n \<and> hd n \<noteq> 0x2E \<and> n \<noteq> state_lock_file \<and> n \<noteq> commit_lock_file"

lemma bucket_component: "bucket_name n \<Longrightarrow> component n"
  by (auto simp: bucket_name_def component_def plain_text_def)

definition digits_value :: "u8 list \<Rightarrow> nat" where
  "digits_value s = foldl (\<lambda>acc b. acc * 10 + (unat b - 0x30)) 0 s"

lemma digits_value_show: "digits_value (show_nat n) = n"
proof (induction n rule: show_nat.induct)
  case (1 n)
  have d: "unat (of_nat (0x30 + m) :: u8) - 0x30 = m" if "m < 10" for m
    using that by (subst unsigned_of_nat) (simp add: take_bit_nat_eq_self)
  show ?case
  proof (cases "n < 10")
    case True
    then show ?thesis using d [of n] by (subst show_nat.simps) (simp add: digits_value_def)
  next
    case False
    then show ?thesis using 1 d [of "n mod 10"] by (subst show_nat.simps) (simp add: digits_value_def)
  qed
qed

lemma pack_name_inj: "pack_name i = pack_name j \<longleftrightarrow> i = j"
  using digits_value_show by (auto simp: pack_name_def) metis

lemma show_nat_not: "\<not> is_ascii_digit b \<Longrightarrow> b \<notin> set (show_nat i)"
  using show_nat_digits [of i] by (auto simp: list_all_iff)

lemma pack_suffix: "bytes ''.pack'' = [0x2E, 0x70, 0x61, 0x63, 0x6B]"
  by code_simp

lemma meta_file_bytes: "meta_file_name = [0x5F, 0x6D, 0x65, 0x74, 0x61]"
  by code_simp

lemma pack_name_plain: "plain_text (pack_name i)"
  using plain_show_nat [of i] by (auto simp: pack_name_def plain_text_def pack_suffix visible_def)

lemma pack_name_component: "component (pack_name i)"
  using show_nat_not [of "0x2F" i] show_nat_nonempty [of i]
  by (auto simp: component_def pack_name_def pack_suffix is_ascii_digit_def)

lemma meta_name_plain: "plain_text meta_file_name" "component meta_file_name"
  by (auto simp: meta_file_bytes plain_text_def visible_def component_def)

lemma pack_name_not_meta: "pack_name i \<noteq> meta_file_name"
proof
  assume "pack_name i = meta_file_name"
  then have "0x5F \<in> set (show_nat i)"
    using show_nat_nonempty [of i] by (cases "show_nat i") (auto simp: pack_name_def meta_file_bytes)
  then show False using show_nat_not [of "0x5F" i] by (simp add: is_ascii_digit_def)
qed

section \<open>What is written\<close>

lemma stream_write_new: "stream_write s f d = (Ret w, d') \<Longrightarrow> w = \<lparr>sw_file = path_join s f, sw_contents = []\<rparr>"
  by (auto simp: stream_write_def io_bind_def io_return_def io_panic_def Let_def split: prod.splits outcome.splits option.splits)

lemma stream_write_flush:
  assumes "\<And>w. sw_contents (put w) = sw_contents w @ c" "\<And>w. sw_file (put w) = sw_file w"
  shows "io_bind (stream_write s f) (\<lambda>w. io_bind (stream_flush (put w)) k) = io_bind (write_file s f c) k"
    "io_bind (stream_write s f) (\<lambda>w. stream_flush (put w)) = write_file s f c"
proof -
  have eq: "stream_flush (put w) = stream_flush (w\<lparr>sw_contents := c\<rparr>)" if "sw_contents w = []" for w
    using assms that by (simp add: stream_flush_def)
  show "io_bind (stream_write s f) (\<lambda>w. io_bind (stream_flush (put w)) k) = io_bind (write_file s f c) k"
    "io_bind (stream_write s f) (\<lambda>w. stream_flush (put w)) = write_file s f c"
    by (auto simp: write_file_def io_bind_def fun_eq_iff eq split: prod.splits outcome.splits dest!: stream_write_new)
qed

lemma pack_save_write: "pack_save rt s i data = io_bind (write_file s (pack_name i) (pack_bytes data)) (\<lambda>_. io_return (index_of rt data))"
proof -
  have index: "ig_finish rt (snd (fold (put_item rt) data (w, index_generator_default rt))) = index_of rt data" for w
    by (simp add: put_items ig_finish_def index_of_def index_generator_default_def pack_hash_def)
  have written: "fst (fold (put_item rt) data (w, index_generator_default rt)) = stream_put (pack_bytes data) w" for w
    by (simp add: put_items)
  show ?thesis
    unfolding pack_save_def case_prod_beta index written
    by (rule stream_write_flush(1)) (simp_all add: stream_put_def)
qed

definition index_lines :: "(pack_id \<rightharpoonup> pack_index) \<Rightarrow> pack_id list \<Rightarrow> u8 list" where
  "index_lines cold is = concat (map (\<lambda>i. case cold i of Some x \<Rightarrow> index_line i x @ [0x0A] | None \<Rightarrow> []) is)"

definition meta_bytes :: "'h storage_rt \<Rightarrow> bucket_meta \<Rightarrow> u8 list" where
  "meta_bytes rt m = show_id_alloc (bm_pack_id_alloc m) @ 0x0A # index_line hot_pack_id (bm_hot_pack_index m) @ 0x0A #
    index_lines (cold_index m) (rt_order rt (dom (cold_index m)))"

lemma put_index_lines:
  "fold (\<lambda>i w. case cold i of Some x \<Rightarrow> stream_put_line (index_line i x) w | None \<Rightarrow> w) is w = stream_put (index_lines cold is) w"
proof (induction "is" arbitrary: w)
  case Nil
  then show ?case by (simp add: index_lines_def stream_put_def)
next
  case (Cons i "is")
  then show ?case by (cases "cold i") (simp_all add: index_lines_def stream_put_def stream_put_line_def)
qed

lemma meta_save_write: "meta_save rt s m = write_file s meta_file_name (meta_bytes rt m)"
  unfolding meta_save_def
  by (rule stream_write_flush(2)) (simp_all add: put_meta_def Let_def put_index_lines stream_put_def stream_put_line_def meta_bytes_def)

section \<open>What is read\<close>

lemma stream_read_run: "component f \<Longrightarrow> cont d (s @ [f]) = Some c \<Longrightarrow> stream_read s f d = (Ret c, d)"
  by (simp add: stream_read_def fs_read_run join_component)

lemma stream_read_missing: "component f \<Longrightarrow> cont d (s @ [f]) = None \<Longrightarrow> stream_read s f d = (Fail not_found, d)"
  by (simp add: stream_read_def fs_read_run join_component)

lemma pack_load_run:
  assumes "cont d (s @ [pack_name i]) = Some (pack_bytes x)" "storable x"
  shows "pack_load rt s i d = (Ret (x, pack_hash rt x), d)"
  using stream_read_run [OF pack_name_component assms(1)] load_items_bytes [OF assms(2), of rt "rt_default rt" "[]"]
  by (simp add: pack_load_def io_bind_def io_of_result_def io_of_sum_def io_return_def pack_hash_def)

lemma load_checked_run:
  assumes "cont d (s @ [pack_name i]) = Some (pack_bytes x)" "storable x" "pi_content_hash idx = pack_hash rt x"
  shows "load_checked rt s i idx d = (Ret x, d)"
  by (simp add: load_checked_def io_bind_def pack_load_run [OF assms(1,2)] check_content_hash_def assms(3) io_return_def)

text \<open>A meta file that can be read back.\<close>

definition meta_ok :: "bucket_meta \<Rightarrow> bool" where
  "meta_ok m \<longleftrightarrow> alloc_bounded (bm_pack_id_alloc m) \<and> length (pi_bloom_filter (bm_hot_pack_index m)) = segment_num \<and>
    finite (dom (cold_index m)) \<and>
    (\<forall>i x. cold_index m i = Some x \<longrightarrow> i \<noteq> hot_pack_id \<and> i < 2 ^ 64 \<and> length (pi_bloom_filter x) = segment_num)"

definition rt_ok :: "'h storage_rt \<Rightarrow> bool" where
  "rt_ok rt \<longleftrightarrow> (\<forall>s. finite s \<longrightarrow> set (rt_order rt s) = s \<and> distinct (rt_order rt s)) \<and> (\<forall>xs. mset (rt_sched rt xs) = mset xs)"

lemma show_index_plain: "0x0A \<notin> set (show_index x)" "list_all (\<lambda>b. b < 0x80) (show_index x)"
  using plain_not [OF plain_show_nat] plain_ascii [OF plain_show_nat] join_ascii [of "map (\<lambda>b. show_nat (unat b)) (pi_bloom_filter x)"]
  by (auto simp: show_index_def show_bloom_def list_all_iff)

lemma index_line_plain: "0x0A \<notin> set (index_line i x)" "list_all (\<lambda>b. b < 0x80) (index_line i x)" "index_line i x \<noteq> []"
  using plain_not [OF plain_show_nat] plain_ascii [OF plain_show_nat] show_index_plain by (auto simp: index_line_def)

lemma parse_index_line_ok:
  assumes "i < 2 ^ 64" "length (pi_bloom_filter x) = segment_num"
  shows "parse_index_line (index_line i x) = Some (i, x)"
proof -
  have "split_once 0x20 (index_line i x) = Some (show_nat i, show_index x)"
    unfolding index_line_def using plain_not [OF plain_show_nat] by (intro split_once_append) auto
  then show ?thesis using assms by (simp add: parse_index_line_def parse_show_index)
qed

lemma meta_lines_step:
  assumes "i < 2 ^ 64" "length (pi_bloom_filter x) = segment_num"
  shows "meta_lines (index_line i x @ 0x0A # rest) m = meta_lines rest (set_pack_index i x m)"
  using read_line_append [OF index_line_plain(1,2), of i x rest] index_line_plain(3) parse_index_line_ok [OF assms]
  by (subst meta_lines.simps) simp

definition add_indexes :: "(pack_id \<rightharpoonup> pack_index) \<Rightarrow> pack_id list \<Rightarrow> (pack_id, pack_index) mapping \<Rightarrow> (pack_id, pack_index) mapping" where
  "add_indexes cold is m = fold (\<lambda>i. Mapping.update i (the (cold i))) is m"

lemma lookup_add_indexes: "Mapping.lookup (add_indexes cold is m) i = (if i \<in> set is then Some (the (cold i)) else Mapping.lookup m i)"
  unfolding add_indexes_def by (induction "is" arbitrary: m) (auto simp: lookup_update')

lemma meta_lines_cold:
  assumes "\<forall>i \<in> set is. \<exists>x. cold i = Some x \<and> i \<noteq> hot_pack_id \<and> i < 2 ^ 64 \<and> length (pi_bloom_filter x) = segment_num"
  shows "meta_lines (index_lines cold is) m = Inr (m\<lparr>bm_cold_pack_indexes := add_indexes cold is (bm_cold_pack_indexes m)\<rparr>)"
  using assms
proof (induction "is" arbitrary: m)
  case Nil
  then show ?case by (subst meta_lines.simps) (simp add: index_lines_def add_indexes_def)
next
  case (Cons i "is")
  then obtain x where x: "cold i = Some x" "i \<noteq> hot_pack_id" "i < 2 ^ 64" "length (pi_bloom_filter x) = segment_num" by auto
  have "meta_lines (index_lines cold (i # is)) m = meta_lines (index_lines cold is) (set_pack_index i x m)"
    using meta_lines_step [OF x(3,4), of "index_lines cold is"] x(1) by (simp add: index_lines_def)
  also have "\<dots> = Inr (set_pack_index i x m\<lparr>bm_cold_pack_indexes := add_indexes cold is (bm_cold_pack_indexes (set_pack_index i x m))\<rparr>)"
    using Cons.prems by (intro Cons.IH) simp
  finally show ?case using x(1,2) by (simp add: set_pack_index_def add_indexes_def)
qed

lemma show_id_alloc_plain: "0x0A \<notin> set (show_id_alloc a)" "list_all (\<lambda>b. b < 0x80) (show_id_alloc a)"
  using join_ascii [OF plain_numbers] by (auto simp: show_id_alloc_def simp del: map_append)

lemma meta_load_run:
  assumes "cont d (s @ [meta_file_name]) = Some (meta_bytes rt m)" "meta_ok m" "rt_ok rt"
  shows "meta_load s d = (Ret m, d)"
proof -
  let ?cold = "cold_index m" and ?is = "rt_order rt (dom (cold_index m))"
  have is_set: "set ?is = dom ?cold" using assms(2,3) by (simp add: meta_ok_def rt_ok_def)
  define rest where "rest = index_line hot_pack_id (bm_hot_pack_index m) @ 0x0A # index_lines ?cold ?is"
  have r: "stream_read_line (meta_bytes rt m) = Inr (show_id_alloc (bm_pack_id_alloc m), rest)"
    unfolding meta_bytes_def rest_def by (rule read_line_append [OF show_id_alloc_plain])
  have hot: "meta_lines rest m' = meta_lines (index_lines ?cold ?is) (set_pack_index hot_pack_id (bm_hot_pack_index m) m')" for m'
    using assms(2) unfolding rest_def by (intro meta_lines_step) (simp_all add: meta_ok_def hot_pack_id_def)
  let ?m = "set_pack_index hot_pack_id (bm_hot_pack_index m) (meta_default\<lparr>bm_pack_id_alloc := bm_pack_id_alloc m\<rparr>)"
  have "add_indexes ?cold ?is Mapping.empty = bm_cold_pack_indexes m"
  proof (rule mapping_eqI)
    fix i show "Mapping.lookup (add_indexes ?cold ?is Mapping.empty) i = cold_index m i"
      by (cases "cold_index m i") (auto simp: lookup_add_indexes is_set)
  qed
  then have "?m\<lparr>bm_cold_pack_indexes := add_indexes ?cold ?is (bm_cold_pack_indexes ?m)\<rparr> = m"
    by (simp add: set_pack_index_def meta_default_def)
  moreover have "\<forall>i \<in> set ?is. \<exists>x. ?cold i = Some x \<and> i \<noteq> hot_pack_id \<and> i < 2 ^ 64 \<and> length (pi_bloom_filter x) = segment_num"
    using assms(2) unfolding is_set meta_ok_def by blast
  ultimately have "meta_lines rest (meta_default\<lparr>bm_pack_id_alloc := bm_pack_id_alloc m\<rparr>) = Inr m"
    unfolding hot by (simp add: meta_lines_cold)
  then show ?thesis
    using stream_read_run [OF meta_name_plain(2) assms(1)] r parse_show_id_alloc [of "bm_pack_id_alloc m"] assms(2)
    by (simp add: meta_load_def io_bind_def io_of_sum_def io_return_def meta_ok_def)
qed

end
