(* ===== verification/Storage_Keep.thy ===== *)
theory Storage_Keep
  imports Storage_Files
begin

text \<open>
  What a bucket holds and how saving changes it: the packs on the disk, the entries of the bucket as a multiset without
  two entries of a key, and the files that a save stages.
\<close>

section \<open>Entries\<close>

type_synonym entries = "(u8 list \<times> u8 list) multiset"

definition keys_of :: "pack_data \<Rightarrow> u8 list set" where
  "keys_of x = fst ` set x"

definition drop_keys :: "u8 list set \<Rightarrow> pack_data \<Rightarrow> pack_data" where
  "drop_keys ks x = filter (\<lambda>kv. fst kv \<notin> ks) x"

definition cold_items :: "(pack_id \<rightharpoonup> pack_data) \<Rightarrow> entries" where
  "cold_items cold = (\<Sum>i \<in> dom cold. mset (the (cold i)))"

definition unique_keys :: "entries \<Rightarrow> bool" where
  "unique_keys e \<longleftrightarrow> (\<forall>k. count (image_mset fst e) k \<le> 1)"

definition entry_map :: "entries \<Rightarrow> u8 list \<rightharpoonup> u8 list" where
  "entry_map e k = (if \<exists>v. (k, v) \<in># e then Some (THE v. (k, v) \<in># e) else None)"

lemma unique_keysD:
  assumes "unique_keys e" "(k, v) \<in># e" "(k, w) \<in># e"
  shows "v = w"
proof (rule ccontr)
  assume "v \<noteq> w"
  then have "(k, w) \<in># e - {#(k, v)#}" using assms(3) by (metis Pair_inject insert_DiffM insert_noteq_member assms(2))
  then have "{#(k, v), (k, w)#} \<subseteq># e" using assms(2) by (simp add: insert_subset_eq_iff)
  then have "count (image_mset fst {#(k, v), (k, w)#}) k \<le> count (image_mset fst e) k"
    by (intro mset_subset_eq_count image_mset_subseteq_mono)
  then show False using assms(1) by (auto simp: unique_keys_def dest: spec [of _ k])
qed

lemma entry_map_Some:
  assumes "unique_keys e"
  shows "entry_map e k = Some v \<longleftrightarrow> (k, v) \<in># e"
proof
  assume "entry_map e k = Some v"
  then obtain w where w: "(k, w) \<in># e" "v = (THE v. (k, v) \<in># e)" by (auto simp: entry_map_def split: if_splits)
  have "(THE v. (k, v) \<in># e) = w" using w(1) unique_keysD [OF assms] by blast
  then show "(k, v) \<in># e" using w by simp
next
  assume v: "(k, v) \<in># e"
  then have "(THE v. (k, v) \<in># e) = v" using unique_keysD [OF assms] by blast
  then show "entry_map e k = Some v" using v by (auto simp: entry_map_def)
qed

lemma entry_map_None: "entry_map e k = None \<longleftrightarrow> k \<notin> fst ` set_mset e"
  by (force simp: entry_map_def)

lemma unique_mono: "unique_keys e \<Longrightarrow> e' \<subseteq># e \<Longrightarrow> unique_keys e'"
  unfolding unique_keys_def by (meson image_mset_subseteq_mono mset_subset_eq_count order_trans)

lemma cold_items_remove:
  assumes "finite (dom cold)" "cold i = Some x"
  shows "cold_items cold = mset x + cold_items (cold(i := None))"
proof -
  have "i \<in> dom cold" "dom (cold(i := None)) = dom cold - {i}" using assms(2) by auto
  moreover have "(\<Sum>j \<in> dom cold - {i}. mset (the (cold j))) = (\<Sum>j \<in> dom cold - {i}. mset (the ((cold(i := None)) j)))"
    by (intro sum.cong) auto
  ultimately show ?thesis
    using assms by (simp add: cold_items_def sum.remove [of "dom cold" i])
qed

lemma cold_items_member:
  assumes "finite (dom cold)" "cold i = Some x" "kv \<in> set x"
  shows "kv \<in># cold_items cold"
  using assms by (simp add: cold_items_remove)

lemma unique_cold:
  assumes "unique_keys (h + cold_items cold)" "finite (dom cold)" "cold i = Some x" "k \<in> keys_of x"
  shows "k \<notin> fst ` set_mset h" "cold j = Some y \<Longrightarrow> j \<noteq> i \<Longrightarrow> k \<notin> keys_of y"
proof -
  have one: "count (image_mset fst (mset x)) k \<ge> 1" if "k \<in> keys_of x" for x :: pack_data
    using that by (simp add: keys_of_def Suc_le_eq image_image flip: set_mset_mset set_image_mset)
  have le: "count (image_mset fst (h + cold_items cold)) k \<le> 1" using assms(1) by (simp add: unique_keys_def)
  show "k \<notin> fst ` set_mset h"
  proof
    assume "k \<in> fst ` set_mset h"
    then have "count (image_mset fst h) k \<ge> 1" by (metis Suc_le_eq count_greater_zero_iff One_nat_def set_image_mset)
    then show False
      using le one [OF assms(4)] unfolding cold_items_remove [OF assms(2,3)] image_mset_union count_union by linarith
  qed
  show "k \<notin> keys_of y" if y: "cold j = Some y" "j \<noteq> i"
  proof
    assume "k \<in> keys_of y"
    then have "count (image_mset fst (mset y)) k \<ge> 1" by (rule one)
    moreover have other: "cold_items (cold(i := None)) = mset y + cold_items ((cold(i := None))(j := None))"
      using y assms(2) by (intro cold_items_remove) (auto simp: finite_subset)
    ultimately show False
      using le one [OF assms(4)] unfolding cold_items_remove [OF assms(2,3)] other image_mset_union count_union by linarith
  qed
qed

lemma drop_keys_same: "ks \<inter> keys_of x = {} \<Longrightarrow> drop_keys ks x = x"
  by (auto simp: drop_keys_def keys_of_def intro!: filter_True)

lemma pack_remove_drop: "pack_remove k x = (k \<in> keys_of x, drop_keys {k} x)"
proof -
  have "(length (filter (\<lambda>(k', _). k' \<noteq> k) x) < length x) = (k \<in> keys_of x)"
    by (auto simp: keys_of_def intro: length_filter_less) (metis (mono_tags, lifting) case_prod_beta filter_True image_eqI nat_neq_iff)
  moreover have "filter (\<lambda>(k', _). k' \<noteq> k) x = drop_keys {k} x" by (auto simp: drop_keys_def intro: filter_cong)
  ultimately show ?thesis by (simp add: pack_remove_def)
qed

lemma drop_keys_insert: "drop_keys {k} (drop_keys ks x) = drop_keys (insert k ks) x"
  by (auto simp: drop_keys_def intro: filter_cong)

lemma keys_drop: "keys_of (drop_keys ks x) = keys_of x - ks"
  by (auto simp: keys_of_def drop_keys_def)

section \<open>The packs to rewrite\<close>

text \<open>The cold packs as the files say.\<close>

definition cold_at :: "'h storage_rt \<Rightarrow> disk \<Rightarrow> bucket \<Rightarrow> (pack_id \<rightharpoonup> pack_data) \<Rightarrow> bool" where
  "cold_at rt d b cold \<longleftrightarrow> finite (dom cold) \<and> dom (cold_index (bk_meta b)) = dom cold \<and>
    (\<forall>i x. cold i = Some x \<longrightarrow> storable x \<and> cold_index (bk_meta b) i = Some (index_of rt x) \<and>
      cont d (bk_fs b @ [pack_name i]) = Some (pack_bytes x))"

lemma cold_at_load:
  assumes "cold_at rt d b cold" "cold i = Some x"
  shows "load_checked rt (bk_fs b) i (index_of rt x) d = (Ret x, d)"
  using assms by (intro load_checked_run) (auto simp: cold_at_def)

definition touched :: "(pack_id \<rightharpoonup> pack_data) \<Rightarrow> u8 list set \<Rightarrow> pack_id set" where
  "touched cold ks = {i. \<exists>x. cold i = Some x \<and> keys_of x \<inter> ks \<noteq> {}}"

definition loaded_ok :: "(pack_id \<rightharpoonup> pack_data) \<Rightarrow> u8 list set \<Rightarrow> loaded_packs \<Rightarrow> bool" where
  "loaded_ok cold ks st \<longleftrightarrow> (\<forall>i p. Mapping.lookup (fst st) i = Some p \<longrightarrow> (\<exists>x. cold i = Some x \<and> p = drop_keys ks x)) \<and>
    snd st = touched cold ks \<and> snd st \<subseteq> dom (Mapping.lookup (fst st))"

lemma loaded_pack:
  assumes "loaded_ok cold ks (packs, modified)" "cold i = Some x"
  shows "(case Mapping.lookup packs i of Some pack \<Rightarrow> pack | None \<Rightarrow> x) = drop_keys ks x"
proof (cases "Mapping.lookup packs i")
  case None
  then have "i \<notin> touched cold ks" using assms(1) by (auto simp: loaded_ok_def)
  then show ?thesis using None assms(2) by (auto simp: touched_def drop_keys_same Int_commute)
next
  case (Some p)
  then have "\<exists>y. cold i = Some y \<and> p = drop_keys ks y" using assms(1) by (simp add: loaded_ok_def)
  then show ?thesis using Some assms(2) by simp
qed

lemma drop_keys_absent: "k \<notin> keys_of x \<Longrightarrow> drop_keys (insert k ks) x = drop_keys ks x"
  by (auto simp: drop_keys_def keys_of_def intro: filter_cong)

lemma cold_search_run:
  assumes "cold_at rt d b cold" "k \<notin> ks" "set is \<subseteq> dom cold" "loaded_ok cold ks st"
    and one: "\<And>i j x y. cold i = Some x \<Longrightarrow> cold j = Some y \<Longrightarrow> k \<in> keys_of x \<Longrightarrow> k \<in> keys_of y \<Longrightarrow> i = j"
    and "\<And>i x. cold i = Some x \<Longrightarrow> k \<in> keys_of x \<Longrightarrow> i \<in> set is"
  shows "\<exists>st'. cold_search rt b k is st d = (Ret st', d) \<and> loaded_ok cold (insert k ks) st'"
  using assms(3,4,6)
proof (induction "is" arbitrary: st)
  case Nil
  have absent: "k \<notin> keys_of x" if "cold i = Some x" for i x using Nil.prems(3) [OF that] by auto
  then have "touched cold (insert k ks) = touched cold ks" by (auto simp: touched_def)
  then have "loaded_ok cold (insert k ks) st"
    using Nil.prems(2) absent unfolding loaded_ok_def by (metis drop_keys_absent)
  then show ?case by (simp add: io_return_def)
next
  case (Cons i "is")
  obtain packs modified where st: "st = (packs, modified)" by (cases st)
  obtain x where x: "cold i = Some x" using Cons.prems(1) by auto
  then have idx: "cold_index (bk_meta b) i = Some (index_of rt x)" using assms(1) by (simp add: cold_at_def)
  have tail: "j \<in> set is" if "k \<notin> keys_of x" "cold j = Some y" "k \<in> keys_of y" for j y
    using Cons.prems(3) [OF that(2,3)] that x by auto
  show ?case
  proof (cases "index_contains_key k (index_of rt x)")
    case False
    then have "k \<notin> keys_of x" using index_of_keys [of k x rt] by (auto simp: keys_of_def)
    then show ?thesis using Cons.IH [of st] Cons.prems(1,2) tail idx False by (simp add: st)
  next
    case True
    define pack where "pack = (case Mapping.lookup packs i of Some pack \<Rightarrow> pack | None \<Rightarrow> x)"
    have load: "(case Mapping.lookup packs i of Some pack \<Rightarrow> io_return pack | None \<Rightarrow> load_checked rt (bk_fs b) i (index_of rt x)) d = (Ret pack, d)"
      using cold_at_load [OF assms(1) x] by (simp add: io_return_def pack_def split: option.splits)
    have p: "pack = drop_keys ks x" using loaded_pack [of cold ks packs modified, OF _ x] Cons.prems(2) by (simp add: st pack_def)
    have step: "cold_search rt b k (i # is) st d =
        (if k \<in> keys_of x then (Ret (Mapping.update i (drop_keys {k} pack) packs, insert i modified), d)
         else cold_search rt b k is (Mapping.update i (drop_keys {k} pack) packs, modified) d)"
      using True idx load assms(2) by (simp add: st io_bind_def pack_remove_drop p keys_drop io_return_def)
    have new: "drop_keys {k} pack = drop_keys (insert k ks) x" by (simp add: p drop_keys_insert)
    show ?thesis
    proof (cases "k \<in> keys_of x")
      case kx: False
      have "loaded_ok cold ks (Mapping.update i (drop_keys {k} pack) packs, modified)"
        using Cons.prems(2) x by (auto simp: loaded_ok_def st new drop_keys_absent [OF kx])
      then show ?thesis using Cons.IH Cons.prems(1) tail [OF kx] kx step by auto
    next
      case kx: True
      have other: "k \<notin> keys_of y" if "cold j = Some y" "j \<noteq> i" for j y
        using one [OF that(1) x] that kx by auto
      have "touched cold (insert k ks) = insert i (touched cold ks)"
        using x kx other by (auto simp: touched_def)
      moreover have "\<exists>y. cold j = Some y \<and> q = drop_keys (insert k ks) y" if "Mapping.lookup (Mapping.update i (drop_keys {k} pack) packs) j = Some q" for j q
      proof (cases "j = i")
        case True
        then show ?thesis using that x new by auto
      next
        case False
        then have pj: "Mapping.lookup packs j = Some q" using that by simp
        have "\<forall>i p. Mapping.lookup packs i = Some p \<longrightarrow> (\<exists>x. cold i = Some x \<and> p = drop_keys ks x)"
          using Cons.prems(2) by (simp add: loaded_ok_def st)
        then obtain y where y: "cold j = Some y" "q = drop_keys ks y" using pj by blast
        then show ?thesis using drop_keys_absent [OF other [OF y(1) False]] by simp
      qed
      ultimately have "loaded_ok cold (insert k ks) (Mapping.update i (drop_keys {k} pack) packs, insert i modified)"
        using Cons.prems(2) by (auto simp: loaded_ok_def st)
      then show ?thesis using kx step by auto
    qed
  qed
qed

text \<open>After all keys: the hot pack and the loaded packs without them, of those packs that had one.\<close>

lemma take_keys_run:
  assumes cold: "cold_at rt d b cold" and "rt_ok rt"
    and u: "unique_keys (mset (bk_hot_pack b) + cold_items cold)"
    and hot: "\<And>k. k \<in> keys_of (bk_hot_pack b) \<Longrightarrow> index_contains_key k (bm_hot_pack_index (bk_meta b))"
    and "distinct ks" "set ks \<inter> gone = {}" "loaded_ok cold gone st"
  shows "\<exists>st'. io_fold (take_key rt b) ks (drop_keys gone (bk_hot_pack b), st) d = (Ret (drop_keys (gone \<union> set ks) (bk_hot_pack b), st'), d) \<and>
    loaded_ok cold (gone \<union> set ks) st'"
  using assms(5-7)
proof (induction ks arbitrary: gone st)
  case Nil
  then show ?case by (simp add: io_return_def)
next
  case (Cons k ks)
  let ?hot = "bk_hot_pack b" and ?ids = "rt_order rt (dom (cold_index (bk_meta b)))"
  have fin: "finite (dom cold)" using cold by (simp add: cold_at_def)
  have ids: "set ?ids = dom cold" using cold assms(2) by (simp add: cold_at_def rt_ok_def)
  have k: "k \<notin> gone" using Cons.prems(2) by simp
  have "\<exists>st'. take_key rt b k (drop_keys gone ?hot, st) d = (Ret (drop_keys (insert k gone) ?hot, st'), d) \<and> loaded_ok cold (insert k gone) st'"
  proof (cases "k \<in> keys_of ?hot")
    case True
    have "k \<notin> keys_of x" if "cold i = Some x" for i x
      using unique_cold(1) [OF u fin that] True by (auto simp: keys_of_def)
    then have "touched cold (insert k gone) = touched cold gone"
      "\<And>i x. cold i = Some x \<Longrightarrow> drop_keys (insert k gone) x = drop_keys gone x"
      by (auto simp: touched_def drop_keys_absent)
    then have "loaded_ok cold (insert k gone) st" using Cons.prems(3) unfolding loaded_ok_def by metis
    moreover have "take_key rt b k (drop_keys gone ?hot, st) d = (Ret (drop_keys (insert k gone) ?hot, st), d)"
      using True hot [OF True] k by (simp add: take_key_def pack_remove_drop keys_drop drop_keys_insert io_return_def)
    ultimately show ?thesis by blast
  next
    case False
    have "\<exists>st'. cold_search rt b k ?ids st d = (Ret st', d) \<and> loaded_ok cold (insert k gone) st'"
    proof (rule cold_search_run [OF cold k _ Cons.prems(3)])
      show "i = j" if "cold i = Some x" "cold j = Some y" "k \<in> keys_of x" "k \<in> keys_of y" for i j x y
        using unique_cold(2) [OF u fin that(1,3,2)] that(4) by blast
    qed (use ids in auto)
    then show ?thesis
      using False by (auto simp: take_key_def pack_remove_drop keys_drop io_bind_def io_return_def drop_keys_absent)
  qed
  then obtain st1 where st1: "take_key rt b k (drop_keys gone ?hot, st) d = (Ret (drop_keys (insert k gone) ?hot, st1), d)"
    "loaded_ok cold (insert k gone) st1" by blast
  have "distinct ks" "set ks \<inter> insert k gone = {}" using Cons.prems(1,2) by auto
  from Cons.IH [OF this st1(2)] show ?case using st1(1) by (auto simp: io_bind_def)
qed

lemma need_update_packs_run:
  assumes cold: "cold_at rt d b cold" and "rt_ok rt" "distinct keys"
    and u: "unique_keys (mset (bk_hot_pack b) + cold_items cold)"
    and hot: "\<And>k. k \<in> keys_of (bk_hot_pack b) \<Longrightarrow> index_contains_key k (bm_hot_pack_index (bk_meta b))"
  shows "\<exists>packs. need_update_packs rt keys b d = (Ret (drop_keys (set keys) (bk_hot_pack b), packs), d) \<and>
    dom (Mapping.lookup packs) = touched cold (set keys) \<and> (\<forall>i p. Mapping.lookup packs i = Some p \<longrightarrow> (\<exists>x. cold i = Some x \<and> p = drop_keys (set keys) x))"
proof -
  have "loaded_ok cold {} (Mapping.empty, {})" by (auto simp: loaded_ok_def touched_def)
  from take_keys_run [OF cold assms(2) u hot assms(3) _ this]
  obtain packs modified where run: "io_fold (take_key rt b) keys (drop_keys {} (bk_hot_pack b), Mapping.empty, {}) d =
      (Ret (drop_keys (set keys) (bk_hot_pack b), packs, modified), d)" and ok: "loaded_ok cold (set keys) (packs, modified)" by auto
  have "drop_keys {} (bk_hot_pack b) = bk_hot_pack b" by (simp add: drop_keys_same)
  then have "need_update_packs rt keys b d = (Ret (drop_keys (set keys) (bk_hot_pack b), Mapping.filter (\<lambda>i _. i \<in> modified) packs), d)"
    using run by (simp add: need_update_packs_def io_bind_def io_return_def)
  moreover have "dom (Mapping.lookup packs |` modified) = touched cold (set keys)" using ok by (auto simp: loaded_ok_def)
  moreover have "\<exists>x. cold i = Some x \<and> p = drop_keys (set keys) x" if "(Mapping.lookup packs |` modified) i = Some p" for i p
    using ok that by (auto simp: loaded_ok_def restrict_map_def split: if_splits)
  ultimately show ?thesis
    by (intro exI [of _ "Mapping.filter (\<lambda>i _. i \<in> modified) packs"]) (simp only: lookup_restrict simp_thms, blast)
qed

end
