(* ===== verification/Storage_Save.thy ===== *)
theory Storage_Save
  imports Storage_Keep
begin

text \<open>Saving a bucket stages the files of a bucket with the changed entries, whatever the moment the process dies.\<close>

section \<open>Ids and the generator\<close>

lemma recycle_packs_run:
  assumes "distinct ids" "set ids \<subseteq> dom (Mapping.lookup packs)" "set ids \<subseteq> used" "alloc_ok used (bm_pack_id_alloc m)" "generator_ok g"
  shows "\<exists>m' g'. recycle_packs packs ids m g = Some (m', g') \<and> cold_index m' = cold_index m |` (- set ids) \<and>
    bm_hot_pack_index m' = bm_hot_pack_index m \<and> alloc_ok (used - set ids) (bm_pack_id_alloc m') \<and>
    pa_next (bm_pack_id_alloc m') = pa_next (bm_pack_id_alloc m) \<and> generator_ok g' \<and>
    generator_items g' = generator_items g + (\<Sum>i \<in> set ids. mset (the (Mapping.lookup packs i))) \<and> pg_max_pack_size g' = pg_max_pack_size g"
  using assms
proof (induction ids arbitrary: m g used)
  case Nil
  then show ?case by simp
next
  case (Cons i ids)
  obtain p where p: "Mapping.lookup packs i = Some p" using Cons.prems(2) by auto
  have i: "i \<in> used" "i \<noteq> hot_pack_id" using Cons.prems(3,4) by (auto simp: alloc_ok_def hot_pack_id_def)
  define m1 where "m1 = m\<lparr>bm_cold_pack_indexes := Mapping.delete i (bm_cold_pack_indexes m), bm_pack_id_alloc := add_id i (bm_pack_id_alloc m)\<rparr>"
  have m1: "drop_pack_index i m = Some m1" using i(2) by (simp add: drop_pack_index_def m1_def)
  have a: "alloc_ok (used - {i}) (bm_pack_id_alloc m1)" "pa_next (bm_pack_id_alloc m1) = pa_next (bm_pack_id_alloc m)"
    using add_id_ok [OF Cons.prems(4) i(1)] by (simp_all add: m1_def)
  note g = generator_extend_ok [OF Cons.prems(5), of p]
  have "distinct ids" "set ids \<subseteq> dom (Mapping.lookup packs)" "set ids \<subseteq> used - {i}" using Cons.prems(1-3) by auto
  from Cons.IH [OF this a(1) conjunct1 [OF g]]
  obtain m' g' where r: "recycle_packs packs ids m1 (generator_extend p g) = Some (m', g')"
    "cold_index m' = cold_index m1 |` (- set ids)" "bm_hot_pack_index m' = bm_hot_pack_index m1"
    "alloc_ok (used - {i} - set ids) (bm_pack_id_alloc m')" "pa_next (bm_pack_id_alloc m') = pa_next (bm_pack_id_alloc m1)"
    "generator_ok g'" "generator_items g' = generator_items (generator_extend p g) + (\<Sum>i \<in> set ids. mset (the (Mapping.lookup packs i)))"
    "pg_max_pack_size g' = pg_max_pack_size (generator_extend p g)" by auto
  have "cold_index m1 |` (- set ids) = cold_index m |` (- set (i # ids))"
    by (auto simp: m1_def restrict_map_def fun_eq_iff)
  moreover have "used - {i} - set ids = used - set (i # ids)" by auto
  moreover have "generator_items g' = generator_items g + (\<Sum>i \<in> set (i # ids). mset (the (Mapping.lookup packs i)))"
    using r(7) g Cons.prems(1) p by (simp add: add.assoc)
  ultimately show ?case using r m1 p a(2) g by (simp add: m1_def)
qed

lemma alloc_packs_run:
  assumes "alloc_ok used (bm_pack_id_alloc m)" "alloc_packs m ps = (m', pending)"
  shows "map snd pending = ps \<and> distinct (map fst pending) \<and> set (map fst pending) \<inter> used = {} \<and> 0 \<notin> set (map fst pending) \<and>
    alloc_ok (used \<union> set (map fst pending)) (bm_pack_id_alloc m') \<and> cold_index m' = cold_index m \<and>
    bm_hot_pack_index m' = bm_hot_pack_index m \<and> pa_next (bm_pack_id_alloc m') \<le> pa_next (bm_pack_id_alloc m) + length ps"
  using assms
proof (induction ps arbitrary: m used m' pending)
  case Nil
  then show ?case by simp
next
  case (Cons p ps)
  obtain i a where i: "next_id (bm_pack_id_alloc m) = (i, a)" by force
  define m1 where "m1 = m\<lparr>bm_pack_id_alloc := a\<rparr>"
  have m1: "next_pack_id m = (i, m1)" by (simp add: next_pack_id_def i m1_def)
  obtain m2 rest where rest: "alloc_packs m1 ps = (m2, rest)" by force
  then have eq: "m' = m2" "pending = (i, p) # rest" using Cons.prems(2) m1 by simp_all
  note n = next_id_ok [OF Cons.prems(1) i]
  have "alloc_ok (insert i used) (bm_pack_id_alloc m1)" using n(3) by (simp add: m1_def)
  from Cons.IH [OF this rest] show ?case using n eq by (auto simp: m1_def)
qed

lemma packs_length: "\<forall>p \<in> set ps. p \<noteq> [] \<Longrightarrow> length ps \<le> length (concat ps)"
proof (induction ps)
  case (Cons p ps)
  then show ?case by (cases p) auto
qed simp

section \<open>Writing the packs\<close>

definition files_of :: "scope \<Rightarrow> path set" where
  "files_of s = {s @ [f] | f. component f}"

definition dirs_to :: "scope \<Rightarrow> path set" where
  "dirs_to s = {r. prefix r s}"

definition staging_ready :: "scope \<Rightarrow> disk \<Rightarrow> bool" where
  "staging_ready s d \<longleftrightarrow> s \<noteq> [] \<and> (\<forall>r \<in> dirs_to s. cont d r = None) \<and> (\<forall>q \<in> files_of s. \<not> isdir d q)"

lemma files_dirs_disjoint: "files_of s \<inter> dirs_to s = {}"
  by (auto simp: files_of_def dirs_to_def dest: prefix_length_le)

lemma staging_ready_changes:
  "staging_ready s d \<Longrightarrow> changes (files_of s) (dirs_to s) d d' \<Longrightarrow> staging_ready s d'"
  using files_dirs_disjoint [of s] unfolding staging_ready_def
  by (metis changes_cont changes_not_dir disjoint_iff)

lemma write_staged:
  assumes "staging_ready s d" "component f"
  shows "gives (write_file s f c) d
    (\<lambda>_ d'. changes {s @ [f]} (dirs_to s) d d' \<and> cont d' (s @ [f]) = Some c) (changes {s @ [f]} (dirs_to s) d)"
proof -
  have "path_parent (path_join s f) = Some s"
    using assms by (simp add: join_component path_parent_def staging_ready_def)
  moreover have "\<not> prefix (path_join s f) s" using assms(2) by (auto simp: join_component dest: prefix_length_le)
  ultimately show ?thesis
    using write_file_gives [of s f s d c] assms
    by (auto simp: staging_ready_def dirs_to_def files_of_def join_component)
qed

text \<open>The disk after writing: only files of the directory changed, and these have these contents.\<close>

definition wrote :: "scope \<Rightarrow> disk \<Rightarrow> (pack_id \<times> pack_data) list \<Rightarrow> disk \<Rightarrow> bool" where
  "wrote s d ps d' \<longleftrightarrow> changes (files_of s) (dirs_to s) d d' \<and>
    (\<forall>(i, p) \<in> set ps. cont d' (s @ [pack_name i]) = Some (pack_bytes p))"

definition set_indexes :: "'h storage_rt \<Rightarrow> (pack_id \<times> pack_data) list \<Rightarrow> bucket_meta \<Rightarrow> bucket_meta" where
  "set_indexes rt ps m = fold (\<lambda>(i, p). set_pack_index i (index_of rt p)) ps m"

lemma take_step: "i < length xs \<Longrightarrow> take (Suc i) xs = take i xs @ [xs ! i]"
  by (rule take_Suc_conv_app_nth)

lemma write_packs_gives:
  assumes ready: "staging_ready s d" and dist: "distinct (map fst ps)"
  shows "gives (io_fold (write_pack rt s) ps \<lparr>ss_hot_pack = [], ss_meta = m, ss_removed = r, ss_added = []\<rparr>) d
    (\<lambda>st d'. wrote s d ps d' \<and> st = \<lparr>ss_hot_pack = (case map_of ps hot_pack_id of Some p \<Rightarrow> p | None \<Rightarrow> []),
        ss_meta = set_indexes rt ps m, ss_removed = r - fst ` set ps, ss_added = map (\<lambda>(i, p). pack_name i) ps\<rparr>)
    (changes (files_of s) (dirs_to s) d)"
proof -
  define I where "I n st d' \<longleftrightarrow> wrote s d (take n ps) d' \<and>
    st = \<lparr>ss_hot_pack = (case map_of (take n ps) hot_pack_id of Some p \<Rightarrow> p | None \<Rightarrow> []),
        ss_meta = set_indexes rt (take n ps) m, ss_removed = r - fst ` set (take n ps),
        ss_added = map (\<lambda>(i, p). pack_name i) (take n ps)\<rparr>" for n st d'
  have "gives (io_fold (write_pack rt s) ps \<lparr>ss_hot_pack = [], ss_meta = m, ss_removed = r, ss_added = []\<rparr>) d
    (I (length ps)) (changes (files_of s) (dirs_to s) d)"
  proof (rule gives_fold)
    show "I 0 \<lparr>ss_hot_pack = [], ss_meta = m, ss_removed = r, ss_added = []\<rparr> d"
      by (simp add: I_def wrote_def set_indexes_def)
    fix n st d' assume n: "n < length ps" and I: "I n st d'"
    obtain i p where ip: "ps ! n = (i, p)" by force
    have new: "i \<notin> fst ` set (take n ps)"
    proof
      assume "i \<in> fst ` set (take n ps)"
      then obtain j where j: "j < n" "fst (ps ! j) = i" using n by (auto simp: in_set_conv_nth)
      then have "map fst ps ! j = map fst ps ! n" using n ip by simp
      then show False using nth_eq_iff_index_eq [OF dist, of j n] j(1) n by simp
    qed
    then have none: "map_of (take n ps) i = None" by (simp add: map_of_eq_None_iff)
    have c: "changes (files_of s) (dirs_to s) d d'" using I by (simp add: I_def wrote_def)
    have ready': "staging_ready s d'" by (rule staging_ready_changes [OF ready c])
    have sub: "{s @ [pack_name i]} \<subseteq> files_of s" using pack_name_component by (auto simp: files_of_def)
    show "gives (write_pack rt s (ps ! n) st) d' (I (Suc n)) (changes (files_of s) (dirs_to s) d)"
      unfolding write_pack_def ip prod.case pack_save_write
    proof (rule gives_bind [where Q' = "\<lambda>x d''. x = index_of rt p \<and> wrote s d (take (Suc n) ps) d''"])
      have "wrote s d (take (Suc n) ps) d''"
        if "changes {s @ [pack_name i]} (dirs_to s) d' d''" "cont d'' (s @ [pack_name i]) = Some (pack_bytes p)" for d''
      proof -
        have "cont d'' (s @ [pack_name j]) = Some (pack_bytes q)" if "(j, q) \<in> set (take n ps)" for j q
        proof -
          have "j \<noteq> i" using new that by force
          then have "cont d'' (s @ [pack_name j]) = cont d' (s @ [pack_name j])"
            using changes_cont [OF \<open>changes {s @ [pack_name i]} (dirs_to s) d' d''\<close>] by (simp add: pack_name_inj)
          then show ?thesis using I that by (auto simp: I_def wrote_def)
        qed
        then show ?thesis
          using that changes_trans [OF c changes_mono [OF that(1) sub order_refl]]
          by (auto simp: wrote_def take_step [OF n] ip)
      qed
      then show "gives (io_bind (write_file s (pack_name i) (pack_bytes p)) (\<lambda>_. io_return (index_of rt p))) d'
          (\<lambda>x d''. x = index_of rt p \<and> wrote s d (take (Suc n) ps) d'') (changes (files_of s) (dirs_to s) d)"
        by (intro gives_bind [OF write_staged [OF ready' pack_name_component]] gives_return)
          (auto intro: changes_trans [OF c] changes_mono [OF _ sub order_refl])
      have state: "st = \<lparr>ss_hot_pack = (case map_of (take n ps) hot_pack_id of Some p \<Rightarrow> p | None \<Rightarrow> []),
          ss_meta = set_indexes rt (take n ps) m, ss_removed = r - fst ` set (take n ps), ss_added = map (\<lambda>(i, p). pack_name i) (take n ps)\<rparr>"
        using I by (simp add: I_def)
      have hot: "(case map_of (take (Suc n) ps) hot_pack_id of Some p \<Rightarrow> p | None \<Rightarrow> []) =
          (if i = hot_pack_id then p else case map_of (take n ps) hot_pack_id of Some p \<Rightarrow> p | None \<Rightarrow> [])"
        using none by (cases "i = hot_pack_id") (auto simp: take_step [OF n] ip map_add_def split: option.splits)
      show "gives (io_return (st\<lparr>ss_hot_pack := if i = hot_pack_id then p else ss_hot_pack st,
            ss_meta := set_pack_index i x (ss_meta st), ss_removed := ss_removed st - {i}, ss_added := ss_added st @ [pack_name i]\<rparr>)) d''
          (I (Suc n)) (changes (files_of s) (dirs_to s) d)"
        if "x = index_of rt p \<and> wrote s d (take (Suc n) ps) d''" for x d''
      proof (rule gives_return)
        show "I (Suc n) (st\<lparr>ss_hot_pack := if i = hot_pack_id then p else ss_hot_pack st,
            ss_meta := set_pack_index i x (ss_meta st), ss_removed := ss_removed st - {i}, ss_added := ss_added st @ [pack_name i]\<rparr>) d''"
          unfolding I_def hot using that by (auto simp: state set_indexes_def take_step [OF n] ip)
      qed
    qed simp
  qed
  then show ?thesis by (rule gives_conseq) (simp_all add: I_def)
qed

lemma set_indexes_meta:
  assumes "distinct (map fst ps)"
  shows "bm_pack_id_alloc (set_indexes rt ps m) = bm_pack_id_alloc m"
    "bm_hot_pack_index (set_indexes rt ps m) = (case map_of ps hot_pack_id of Some p \<Rightarrow> index_of rt p | None \<Rightarrow> bm_hot_pack_index m)"
    "cold_index (set_indexes rt ps m) i =
      (if i = hot_pack_id then cold_index m i
       else case map_of ps i of Some p \<Rightarrow> Some (index_of rt p) | None \<Rightarrow> cold_index m i)"
proof -
  have "bm_pack_id_alloc (set_indexes rt ps m) = bm_pack_id_alloc m \<and>
    bm_hot_pack_index (set_indexes rt ps m) = (case map_of ps hot_pack_id of Some p \<Rightarrow> index_of rt p | None \<Rightarrow> bm_hot_pack_index m) \<and>
    cold_index (set_indexes rt ps m) i =
      (if i = hot_pack_id then cold_index m i
       else case map_of ps i of Some p \<Rightarrow> Some (index_of rt p) | None \<Rightarrow> cold_index m i)"
    using assms
  proof (induction ps arbitrary: m)
    case Nil
    then show ?case by (simp add: set_indexes_def)
  next
    case (Cons jp ps)
    obtain j p where jp: "jp = (j, p)" by force
    have "map_of ps j = None" using Cons.prems by (simp add: jp map_of_eq_None_iff)
    moreover have "set_indexes rt (jp # ps) m = set_indexes rt ps (set_pack_index j (index_of rt p) m)"
      by (simp add: set_indexes_def jp)
    ultimately show ?case
      using Cons.IH [of "set_pack_index j (index_of rt p) m"] Cons.prems by (auto simp: jp set_pack_index_def split: option.splits)
  qed
  then show "bm_pack_id_alloc (set_indexes rt ps m) = bm_pack_id_alloc m"
    "bm_hot_pack_index (set_indexes rt ps m) = (case map_of ps hot_pack_id of Some p \<Rightarrow> index_of rt p | None \<Rightarrow> bm_hot_pack_index m)"
    "cold_index (set_indexes rt ps m) i =
      (if i = hot_pack_id then cold_index m i
       else case map_of ps i of Some p \<Rightarrow> Some (index_of rt p) | None \<Rightarrow> cold_index m i)"
    by blast+
qed

section \<open>Saving a bucket\<close>

text \<open>A bucket and its packs on the disk: saved, or not there yet.\<close>

definition hot_at :: "'h storage_rt \<Rightarrow> disk \<Rightarrow> bucket \<Rightarrow> bool" where
  "hot_at rt d b \<longleftrightarrow>
    bk_meta b = meta_default \<and> bk_hot_pack b = [] \<and> cont d (bk_fs b @ [meta_file_name]) = None \<and>
      cont d (bk_fs b @ [pack_name hot_pack_id]) = None \<or>
    bm_hot_pack_index (bk_meta b) = index_of rt (bk_hot_pack b) \<and>
      cont d (bk_fs b @ [meta_file_name]) = Some (meta_bytes rt (bk_meta b)) \<and>
      cont d (bk_fs b @ [pack_name hot_pack_id]) = Some (pack_bytes (bk_hot_pack b))"

definition bucket_at :: "'h storage_rt \<Rightarrow> disk \<Rightarrow> bucket \<Rightarrow> (pack_id \<rightharpoonup> pack_data) \<Rightarrow> bool" where
  "bucket_at rt d b cold \<longleftrightarrow> cold_at rt d b cold \<and> hot_at rt d b \<and> storable (bk_hot_pack b) \<and>
    alloc_ok (dom cold) (bm_pack_id_alloc (bk_meta b)) \<and> pa_next (bm_pack_id_alloc (bk_meta b)) < 2 ^ 64 \<and>
    unique_keys (mset (bk_hot_pack b) + cold_items cold)"

definition bucket_items :: "bucket \<Rightarrow> (pack_id \<rightharpoonup> pack_data) \<Rightarrow> entries" where
  "bucket_items b cold = mset (bk_hot_pack b) + cold_items cold"

definition save_items :: "changes \<Rightarrow> entries \<Rightarrow> entries" where
  "save_items ch e = filter_mset (\<lambda>kv. fst kv \<notin> fst ` set ch) e + mset (new_entries ch)"

text \<open>
  What a save leaves: staged files \<open>added\<close>, names \<open>removed\<close>, and the bucket these make of the directory of the bucket once
  the added ones have replaced, and the removed ones have left, what was there.
\<close>

definition staged :: "'h storage_rt \<Rightarrow> scope \<Rightarrow> disk \<Rightarrow> bucket \<Rightarrow> entries \<Rightarrow> bucket \<times> u8 list list \<times> u8 list list \<Rightarrow> disk \<Rightarrow> bool" where
  "staged rt s d b e = (\<lambda>(b', added, removed) d'. changes (files_of s) (dirs_to s) d d' \<and> bk_fs b' = bk_fs b \<and>
    pa_next (bm_pack_id_alloc (bk_meta b')) \<le> pa_next (bm_pack_id_alloc (bk_meta b)) + size e \<and>
    (\<forall>f \<in> set added \<union> set removed. component f \<and> plain_text f) \<and> set added \<inter> set removed = {} \<and>
    (\<forall>f \<in> set added. cont d' (s @ [f]) \<noteq> None) \<and>
    (\<exists>cold'. bucket_items b' cold' = e \<and>
      (\<forall>d''. (\<forall>f. component f \<longrightarrow> cont d'' (bk_fs b @ [f]) =
          (if f \<in> set added then cont d' (s @ [f]) else if f \<in> set removed then None else cont d (bk_fs b @ [f]))) \<longrightarrow>
        bucket_at rt d'' b' cold')))"

lemma hot_at_index: "hot_at rt d b \<Longrightarrow> k \<in> keys_of (bk_hot_pack b) \<Longrightarrow> index_contains_key k (bm_hot_pack_index (bk_meta b))"
  unfolding hot_at_def keys_of_def by (elim disjE conjE) (simp_all add: index_of_keys)

lemma new_entries_simps [simp]:
  "new_entries [] = []" "new_entries ((k, Some v) # ch) = (k, v) # new_entries ch" "new_entries ((k, None) # ch) = new_entries ch"
  by (simp_all add: new_entries_def List.map_filter_simps)

lemma new_entries_keys: "fst ` set (new_entries ch) \<subseteq> fst ` set ch"
proof (induction ch)
  case (Cons kv ch)
  then show ?case by (cases kv; cases "snd kv") auto
qed simp

lemma new_entries_distinct: "distinct (map fst ch) \<Longrightarrow> distinct (map fst (new_entries ch))"
proof (induction ch)
  case (Cons kv ch)
  then show ?case using new_entries_keys [of ch] by (cases kv; cases "snd kv") auto
qed simp

lemma unique_save:
  assumes "unique_keys e" "distinct (map fst ch)"
  shows "unique_keys (save_items ch e)"
  unfolding unique_keys_def
proof
  fix k
  let ?old = "image_mset fst (filter_mset (\<lambda>kv. fst kv \<notin> fst ` set ch) e)"
  have new: "count (image_mset fst (mset (new_entries ch))) k \<le> 1"
    using new_entries_distinct [OF assms(2)] by (simp add: distinct_count_atmost_1 flip: mset_map)
  have "?old \<subseteq># image_mset fst e" by (intro image_mset_subseteq_mono) simp
  then have old: "count ?old k \<le> 1" using assms(1) unfolding unique_keys_def by (meson mset_subset_eq_count order_trans)
  have "count ?old k = 0 \<or> count (image_mset fst (mset (new_entries ch))) k = 0"
  proof (cases "k \<in> fst ` set ch")
    case True
    have "k \<notin># ?old"
    proof
      assume "k \<in># ?old"
      then obtain kv where "fst kv \<notin> fst ` set ch" "fst kv = k" by auto
      then show False using True by simp
    qed
    then show ?thesis unfolding not_in_iff by (rule disjI1)
  next
    case False
    then have "k \<notin># image_mset fst (mset (new_entries ch))" using new_entries_keys [of ch] by auto
    then show ?thesis unfolding not_in_iff by (rule disjI2)
  qed
  then show "count (image_mset fst (save_items ch e)) k \<le> 1" using new old by (auto simp: save_items_def)
qed

lemma cold_items_split:
  assumes "finite (dom cold)" "t \<subseteq> dom cold"
  shows "cold_items cold = cold_items (cold |` (- t)) + (\<Sum>i \<in> t. mset (the (cold i)))"
proof -
  have dom: "dom (cold |` (- t)) = dom cold - t" by auto
  have "cold_items (cold |` (- t)) = (\<Sum>i \<in> dom cold - t. mset (the (cold i)))"
    unfolding cold_items_def dom by (intro sum.cong) auto
  then show ?thesis unfolding cold_items_def by (simp only: sum.subset_diff [OF assms(2,1), of "\<lambda>i. mset (the (cold i))"])
qed

lemma cold_items_pending:
  assumes "finite (dom cold)" "distinct (map fst ps)" "set (map fst ps) \<inter> dom cold = {}"
  shows "cold_items (cold ++ map_of ps) = cold_items cold + mset (concat (map snd ps))"
  using assms(2,3)
proof (induction ps)
  case (Cons ip ps)
  obtain i p where ip: "ip = (i, p)" by force
  let ?c = "cold ++ map_of (ip # ps)"
  have fin: "finite (dom ?c)" using assms(1) finite_dom_map_of [of "ip # ps"] by simp
  have none: "map_of ps i = None" using Cons.prems(1) by (simp add: ip map_of_eq_None_iff)
  have "cold i = None" using Cons.prems(2) by (auto simp: ip)
  have "?c i = Some p" by (simp add: ip map_add_def)
  then have "cold_items ?c = mset p + cold_items (?c(i := None))" by (rule cold_items_remove [OF fin])
  also have "?c(i := None) = cold ++ map_of ps"
    using none \<open>cold i = None\<close> by (auto simp: ip fun_eq_iff map_add_def split: option.splits)
  also have "cold_items (cold ++ map_of ps) = cold_items cold + mset (concat (map snd ps))" using Cons by (simp add: ip)
  finally show ?case by (simp only: ip list.map concat.simps mset_append snd_conv ac_simps)
qed simp

lemma filter_sum: "finite t \<Longrightarrow> filter_mset P (\<Sum>i \<in> t. f i) = (\<Sum>i \<in> t. filter_mset P (f i))"
  by (induction t rule: finite_induct) auto

lemma cold_items_mem:
  assumes "finite (dom cold)"
  shows "kv \<in># cold_items cold \<longleftrightarrow> (\<exists>i x. cold i = Some x \<and> kv \<in> set x)"
proof
  assume "kv \<in># cold_items cold"
  then obtain i where "i \<in> dom cold" "kv \<in> set (the (cold i))" using assms by (auto simp: cold_items_def set_mset_sum)
  then show "\<exists>i x. cold i = Some x \<and> kv \<in> set x" by (metis domIff option.exhaust_sel)
next
  assume "\<exists>i x. cold i = Some x \<and> kv \<in> set x"
  then show "kv \<in># cold_items cold" using cold_items_member [OF assms] by blast
qed

lemma mset_drop_keys: "mset (drop_keys ks x) = filter_mset (\<lambda>kv. fst kv \<notin> ks) (mset x)"
  by (simp add: drop_keys_def)

definition storable_items :: "entries \<Rightarrow> bool" where
  "storable_items e \<longleftrightarrow> (\<forall>(k, x) \<in># e. length k < 2 ^ 64 \<and> length x < 2 ^ 64)"

lemma storable_part: "storable_items e \<Longrightarrow> mset x \<subseteq># e \<Longrightarrow> storable x"
  by (auto simp: storable_items_def storable_def dest: mset_subset_eqD)

lemma bucket_storable:
  assumes "bucket_at rt d b cold"
  shows "storable_items (bucket_items b cold)"
proof -
  have "finite (dom cold)" using assms by (simp add: bucket_at_def cold_at_def)
  then show ?thesis
    using assms by (fastforce simp: storable_items_def bucket_items_def storable_def bucket_at_def cold_at_def cold_items_mem)
qed

lemma storable_save: "storable_items e \<Longrightarrow> storable (new_entries ch) \<Longrightarrow> storable_items (save_items ch e)"
  by (auto simp: storable_items_def storable_def save_items_def)

lemma touched_items:
  assumes "finite (dom cold)" "t = touched cold ks"
  shows "filter_mset (\<lambda>kv. fst kv \<notin> ks) (cold_items cold) =
    cold_items (cold |` (- t)) + (\<Sum>i \<in> t. mset (drop_keys ks (the (cold i))))"
proof -
  have t: "t \<subseteq> dom cold" using assms(2) by (auto simp: touched_def)
  have "dom (cold |` (- t)) \<subseteq> dom cold" by auto
  from finite_subset [OF t assms(1)] finite_subset [OF this assms(1)]
  have fin: "finite t" "finite (dom (cold |` (- t)))" by simp_all
  have "fst kv \<notin> ks" if kv: "kv \<in># cold_items (cold |` (- t))" for kv
  proof -
    obtain i x where x: "(cold |` (- t)) i = Some x" "kv \<in> set x" using kv cold_items_mem [OF fin(2)] by blast
    then have "cold i = Some x" "i \<notin> t" by (auto simp: restrict_map_def split: if_splits)
    then show ?thesis using x(2) assms(2) by (auto simp: touched_def keys_of_def)
  qed
  then have "filter_mset (\<lambda>kv. fst kv \<notin> ks) (cold_items (cold |` (- t))) = cold_items (cold |` (- t))"
    by (intro filter_mset_eq_conv [THEN iffD2]) auto
  then show ?thesis
    unfolding cold_items_split [OF assms(1) t] by (simp add: filter_sum [OF fin(1)] mset_drop_keys)
qed

text \<open>The plan of a save: the packs to write and their ids.\<close>

lemma save_plan:
  assumes b: "bucket_at rt d b cold" and t: "t = touched cold (fst ` set ch)" and ids: "distinct ids" "set ids = t"
    and packs: "dom (Mapping.lookup packs) = t" "\<forall>i p. Mapping.lookup packs i = Some p \<longrightarrow> (\<exists>x. cold i = Some x \<and> p = drop_keys (fst ` set ch) x)"
  shows "\<exists>m1 g1 hp nps m2 pending. recycle_packs packs ids (bk_meta b) (generator_new n) = Some (m1, g1) \<and>
    generator_finish (generator_extend (new_entries ch) (generator_extend (drop_keys (fst ` set ch) (bk_hot_pack b)) g1)) = (hp, nps) \<and>
    alloc_packs m1 nps = (m2, pending) \<and>
    cold_index m2 = cold_index (bk_meta b) |` (- t) \<and>
    distinct (map fst pending) \<and> set (map fst pending) \<inter> (dom cold - t) = {} \<and> 0 \<notin> set (map fst pending) \<and>
    alloc_ok (dom cold - t \<union> set (map fst pending)) (bm_pack_id_alloc m2) \<and> pa_next (bm_pack_id_alloc m2) \<le> pa_next (bm_pack_id_alloc (bk_meta b)) + size (save_items ch (bucket_items b cold)) \<and>
    mset hp + cold_items (cold |` (- t)) + mset (concat (map snd pending)) = save_items ch (bucket_items b cold)"
proof -
  let ?ks = "fst ` set ch"
  have fin: "finite (dom cold)" and alloc: "alloc_ok (dom cold) (bm_pack_id_alloc (bk_meta b))"
    using b by (simp_all add: bucket_at_def cold_at_def)
  have tsub: "t \<subseteq> dom cold" using t by (auto simp: touched_def)
  have "set ids \<subseteq> dom (Mapping.lookup packs)" "set ids \<subseteq> dom cold" using ids packs(1) tsub by auto
  from recycle_packs_run [OF ids(1) this alloc generator_new_ok(1) [of n]]
  obtain m1 g1 where r: "recycle_packs packs ids (bk_meta b) (generator_new n) = Some (m1, g1)"
    "cold_index m1 = cold_index (bk_meta b) |` (- t)" "alloc_ok (dom cold - t) (bm_pack_id_alloc m1)"
    "pa_next (bm_pack_id_alloc m1) = pa_next (bm_pack_id_alloc (bk_meta b))" "generator_ok g1"
    "generator_items g1 = (\<Sum>i \<in> t. mset (the (Mapping.lookup packs i)))" using ids(2) generator_new_ok(2) [of n] by auto
  define g2 where "g2 = generator_extend (new_entries ch) (generator_extend (drop_keys ?ks (bk_hot_pack b)) g1)"
  have g2: "generator_ok g2" "generator_items g2 = mset (new_entries ch) + (mset (drop_keys ?ks (bk_hot_pack b)) + generator_items g1)"
    using generator_extend_ok r(5) unfolding g2_def by (metis, metis)
  have "the (Mapping.lookup packs i) = drop_keys ?ks (the (cold i))" if i: "i \<in> t" for i
  proof -
    obtain p where "Mapping.lookup packs i = Some p" using i packs(1) by blast
    then show ?thesis using packs(2) by fastforce
  qed
  then have packs_sum: "(\<Sum>i \<in> t. mset (the (Mapping.lookup packs i))) = (\<Sum>i \<in> t. mset (drop_keys ?ks (the (cold i))))"
    by (intro sum.cong) auto
  obtain m2 pending where a: "alloc_packs m1 (pg_packs g2) = (m2, pending)" by force
  note al = alloc_packs_run [OF r(3) a]
  have items: "mset (pg_data g2) + cold_items (cold |` (- t)) + mset (concat (map snd pending)) = save_items ch (bucket_items b cold)"
  proof -
    have "save_items ch (bucket_items b cold) = mset (drop_keys ?ks (bk_hot_pack b)) +
        filter_mset (\<lambda>kv. fst kv \<notin> ?ks) (cold_items cold) + mset (new_entries ch)"
      by (simp add: save_items_def bucket_items_def mset_drop_keys)
    also have "\<dots> = cold_items (cold |` (- t)) + generator_items g2"
      by (simp add: touched_items [OF fin t] g2(2) r(6) packs_sum)
    finally show ?thesis using al by (simp add: generator_items_def)
  qed
  have "length (pg_packs g2) \<le> length (concat (pg_packs g2))" using g2(1) by (intro packs_length) (simp add: generator_ok_def)
  also have "\<dots> = size (mset (concat (map snd pending)))" using al by simp
  also have "\<dots> \<le> size (save_items ch (bucket_items b cold))" unfolding items [symmetric] size_union by simp
  finally have "pa_next (bm_pack_id_alloc m2) \<le> pa_next (bm_pack_id_alloc (bk_meta b)) + size (save_items ch (bucket_items b cold))"
    using al r(4) by linarith
  then show ?thesis
    using r(1,2) a al items by (intro exI [of _ m1] exI [of _ g1] exI [of _ "pg_data g2"] exI [of _ "pg_packs g2"] exI [of _ m2] exI [of _ pending])
      (simp add: generator_finish_def g2_def [symmetric])
qed

text \<open>The bucket that the staged files make.\<close>

lemma staged_items:
  assumes "finite (dom cold)" "distinct (map fst pending)" "set (map fst pending) \<inter> (dom cold - t) = {}" "bk_hot_pack b' = hp"
  shows "bucket_items b' ((cold |` (- t)) ++ map_of pending) = mset hp + cold_items (cold |` (- t)) + mset (concat (map snd pending))"
proof -
  have dom: "dom (cold |` (- t)) = dom cold - t" by auto
  then show ?thesis
    using cold_items_pending [of "cold |` (- t)" pending] assms by (simp add: bucket_items_def add.assoc)
qed

lemma staged_bucket:
  assumes b: "bucket_at rt d b cold" and t: "t \<subseteq> dom cold"
    and ls: "distinct (map fst ls)" "set ls = insert (hot_pack_id, hp) (set pending)" "0 \<notin> set (map fst pending)"
    and m2: "cold_index m2 = cold_index (bk_meta b) |` (- t)"
      "set (map fst pending) \<inter> (dom cold - t) = {}" "distinct (map fst pending)"
      "alloc_ok (dom cold - t \<union> set (map fst pending)) (bm_pack_id_alloc m2)" "pa_next (bm_pack_id_alloc m2) < 2 ^ 64"
    and items: "mset hp + cold_items (cold |` (- t)) + mset (concat (map snd pending)) = e" "unique_keys e" "storable_items e"
    and b': "b' = b\<lparr>bk_meta := set_indexes rt ls m2, bk_hot_pack := hp\<rparr>"
    and disk: "cont d'' (bk_fs b @ [meta_file_name]) = Some (meta_bytes rt (set_indexes rt ls m2))"
      "\<And>i p. (i, p) \<in> set ls \<Longrightarrow> cont d'' (bk_fs b @ [pack_name i]) = Some (pack_bytes p)"
      "\<And>i. i \<in> dom cold - t \<Longrightarrow> i \<notin> fst ` set ls \<Longrightarrow> cont d'' (bk_fs b @ [pack_name i]) = cont d (bk_fs b @ [pack_name i])"
  shows "bucket_at rt d'' b' ((cold |` (- t)) ++ map_of pending)"
proof -
  let ?c = "(cold |` (- t)) ++ map_of pending"
  have c: "cold_at rt d b cold" using b by (simp add: bucket_at_def)
  have fin: "finite (dom (cold |` (- t)))" using c by (auto simp: cold_at_def intro: finite_subset [of _ "dom cold"])
  have domr: "dom (cold |` (- t)) = dom cold - t" by auto
  have dom: "dom ?c = dom cold - t \<union> set (map fst pending)" by (auto simp: dom_map_of_conv_image_fst)
  have lmap: "map_of ls i = (if i = hot_pack_id then Some hp else map_of pending i)" for i
  proof -
    have "map_of ls i = map_of ((hot_pack_id, hp) # pending) i"
      using ls m2(3) by (intro map_of_eqI [THEN fun_cong]) (auto simp: hot_pack_id_def)
    then show ?thesis by simp
  qed
  have hot: "map_of pending hot_pack_id = None" "cold hot_pack_id = None"
    using ls(3) b by (auto simp: hot_pack_id_def map_of_eq_None_iff bucket_at_def alloc_ok_def)
  note meta = set_indexes_meta [OF ls(1), of rt m2]
  have idx: "cold_index (set_indexes rt ls m2) i =
      (case map_of pending i of Some p \<Rightarrow> Some (index_of rt p) | None \<Rightarrow> (cold_index (bk_meta b) |` (- t)) i)" for i
    unfolding meta(3) m2(1) lmap using hot c by (auto simp: restrict_map_def cold_at_def split: option.splits)
  have same: "cold_index (bk_meta b) i = None \<longleftrightarrow> cold i = None" for i
    using c unfolding cold_at_def by (metis domIff)
  have idx_dom: "dom (cold_index (bk_meta b')) = dom ?c"
  proof (rule set_eqI)
    fix i show "i \<in> dom (cold_index (bk_meta b')) \<longleftrightarrow> i \<in> dom ?c"
      using same [of i] by (cases "map_of pending i"; cases "cold i") (auto simp: b' domIff idx map_add_def restrict_map_def)
  qed
  have pending_e: "mset p \<subseteq># e" if "(i, p) \<in> set pending" for i p
  proof -
    have "mset p \<subseteq># mset (concat (map snd pending))" using that by (auto simp: in_set_conv_decomp)
    then show ?thesis unfolding items(1) [symmetric] by (rule subset_mset.order_trans) simp
  qed
  have cold: "cold_at rt d'' b' ?c"
    unfolding cold_at_def idx_dom
  proof (intro conjI allI impI)
    show "finite (dom ?c)" using fin finite_dom_map_of by simp
    fix i x assume "?c i = Some x"
    then consider "map_of pending i = Some x" | "map_of pending i = None" "cold i = Some x" "i \<notin> t"
      by (auto simp: map_add_def restrict_map_def split: option.splits if_splits)
    then have "storable x \<and> cold_index (set_indexes rt ls m2) i = Some (index_of rt x) \<and>
        cont d'' (bk_fs b @ [pack_name i]) = Some (pack_bytes x)"
    proof cases
      case 1
      then have "(i, x) \<in> set pending" by (rule map_of_SomeD)
      then show ?thesis using 1 disk(2) [of i x] ls(2) storable_part [OF items(3) pending_e] by (auto simp: idx)
    next
      case 2
      then have "i \<notin> fst ` set ls" using ls(2) hot(2) by (auto simp: map_of_eq_None_iff)
      then show ?thesis using 2 disk(3) [of i] c by (auto simp: idx cold_at_def restrict_map_def domI)
    qed
    then show "storable x" "cold_index (bk_meta b') i = Some (index_of rt x)"
      "cont d'' (bk_fs b' @ [pack_name i]) = Some (pack_bytes x)" by (simp_all add: b')
  qed simp
  have sum: "bucket_items b' ?c = e"
    unfolding items(1) [symmetric] using c m2(2,3) by (intro staged_items) (simp_all add: b' cold_at_def)
  have "storable hp" using storable_part [OF items(3), of hp] unfolding items(1) [symmetric] by simp
  moreover have "hot_at rt d'' b'"
    using disk(1) disk(2) [of hot_pack_id hp] ls(2) meta(2) by (simp add: hot_at_def b' lmap)
  ultimately show ?thesis
    using cold m2(4,5) sum items(2) meta(1) unfolding bucket_at_def dom by (simp add: b' bucket_items_def)
qed

lemma bucket_save_gives:
  assumes rt: "rt_ok rt" and b: "bucket_at rt d b cold" and ready: "staging_ready s d" and dist: "distinct (map fst ch)"
    and new: "storable (new_entries ch)"
    and bound: "pa_next (bm_pack_id_alloc (bk_meta b)) + size (save_items ch (bucket_items b cold)) < 2 ^ 64"
  shows "gives (bucket_save rt (Some s) ch n b) d (staged rt s d b (save_items ch (bucket_items b cold))) (changes (files_of s) (dirs_to s) d)"
proof -
  define e where "e = save_items ch (bucket_items b cold)"
  have c: "cold_at rt d b cold" and u: "unique_keys (bucket_items b cold)" using b by (simp_all add: bucket_at_def bucket_items_def)
  have e: "unique_keys e" "storable_items e"
    unfolding e_def using unique_save [OF u dist] storable_save [OF bucket_storable [OF b] new] by simp_all
  obtain packs where need: "need_update_packs rt (map fst ch) b d = (Ret (drop_keys (fst ` set ch) (bk_hot_pack b), packs), d)"
    and packs: "dom (Mapping.lookup packs) = touched cold (fst ` set ch)"
      "\<forall>i p. Mapping.lookup packs i = Some p \<longrightarrow> (\<exists>x. cold i = Some x \<and> p = drop_keys (fst ` set ch) x)"
    using need_update_packs_run [OF c rt dist] u hot_at_index [of rt d b] b by (auto simp: bucket_items_def bucket_at_def)
  define t where "t = touched cold (fst ` set ch)"
  define ids where "ids = rt_order rt (dom (Mapping.lookup packs))"
  have tsub: "t \<subseteq> dom cold" by (auto simp: t_def touched_def)
  then have "finite t" using c by (auto simp: cold_at_def intro: finite_subset)
  then have ids: "distinct ids" "set ids = t" using rt packs(1) by (simp_all add: ids_def t_def rt_ok_def)
  obtain m1 g1 hp nps m2 pending where plan: "recycle_packs packs ids (bk_meta b) (generator_new n) = Some (m1, g1)"
    "generator_finish (generator_extend (new_entries ch) (generator_extend (drop_keys (fst ` set ch) (bk_hot_pack b)) g1)) = (hp, nps)"
    "alloc_packs m1 nps = (m2, pending)"
    and m2: "cold_index m2 = cold_index (bk_meta b) |` (- t)"
      "distinct (map fst pending)" "set (map fst pending) \<inter> (dom cold - t) = {}" "0 \<notin> set (map fst pending)"
      "alloc_ok (dom cold - t \<union> set (map fst pending)) (bm_pack_id_alloc m2)" "pa_next (bm_pack_id_alloc m2) \<le> pa_next (bm_pack_id_alloc (bk_meta b)) + size e"
      "mset hp + cold_items (cold |` (- t)) + mset (concat (map snd pending)) = e"
    using save_plan [OF b t_def ids _ packs(2), of n] packs(1) unfolding t_def [symmetric] e_def by blast
  have next64: "pa_next (bm_pack_id_alloc m2) < 2 ^ 64" using m2(6) bound unfolding e_def by (rule le_less_trans)
  define ls where "ls = rt_sched rt ((hot_pack_id, hp) # pending)"
  have ms: "mset ls = mset ((hot_pack_id, hp) # pending)" using rt unfolding ls_def rt_ok_def by blast
  have "mset (map fst ls) = mset (map fst ((hot_pack_id, hp) # pending))" using ms by (simp only: mset_map)
  moreover have "distinct (map fst ((hot_pack_id, hp) # pending))" using m2(2,4) by (simp add: hot_pack_id_def)
  ultimately have dls: "distinct (map fst ls)" using mset_eq_imp_distinct_iff by blast
  have sls: "set ls = insert (hot_pack_id, hp) (set pending)" using mset_eq_setD [OF ms] by simp
  define b' where "b' = b\<lparr>bk_meta := set_indexes rt ls m2, bk_hot_pack := hp\<rparr>"
  define added where "added = map (\<lambda>(i, p). pack_name i) ls @ [meta_file_name]"
  define removed where "removed = map pack_name (rt_order rt (t - fst ` set ls))"
  have rset: "set removed = pack_name ` (t - fst ` set ls)" using \<open>finite t\<close> rt by (simp add: removed_def rt_ok_def)
  have hot: "(case map_of ls hot_pack_id of Some p \<Rightarrow> p | None \<Rightarrow> []) = hp"
    using map_of_is_SomeI [OF dls, of hot_pack_id hp] sls by simp
  have result: "staged rt s d b e (b', added, removed) d'" if w: "changes (files_of s) (dirs_to s) d d'"
    "\<And>i p. (i, p) \<in> set ls \<Longrightarrow> cont d' (s @ [pack_name i]) = Some (pack_bytes p)"
    "cont d' (s @ [meta_file_name]) = Some (meta_bytes rt (set_indexes rt ls m2))" for d'
  proof -
    have "set (map (\<lambda>(i, p). pack_name i) ls) = pack_name ` fst ` set ls" by (force simp: image_image)
    then have names: "set added = insert meta_file_name (pack_name ` fst ` set ls)" by (simp add: added_def)
    have "cont d' (s @ [f]) \<noteq> None" if "f \<in> set added" for f using that w(2,3) names by force
    moreover have "bucket_at rt d'' b' ((cold |` (- t)) ++ map_of pending)"
      if d'': "\<And>f. component f \<Longrightarrow> cont d'' (bk_fs b @ [f]) =
        (if f \<in> set added then cont d' (s @ [f]) else if f \<in> set removed then None else cont d (bk_fs b @ [f]))" for d''
    proof (rule staged_bucket [OF b tsub dls sls m2(4) m2(1,3,2,5) next64 m2(7) e b'_def])
      show "cont d'' (bk_fs b @ [meta_file_name]) = Some (meta_bytes rt (set_indexes rt ls m2))"
        using d'' [OF meta_name_plain(2)] names w(3) by simp
      show "cont d'' (bk_fs b @ [pack_name i]) = Some (pack_bytes p)" if "(i, p) \<in> set ls" for i p
        using d'' [OF pack_name_component, of i] names w(2) [OF that] that by force
      show "cont d'' (bk_fs b @ [pack_name i]) = cont d (bk_fs b @ [pack_name i])" if "i \<in> dom cold - t" "i \<notin> fst ` set ls" for i
        using d'' [OF pack_name_component, of i] names rset that by (auto simp: pack_name_inj pack_name_not_meta image_iff)
    qed
    moreover have "bucket_items b' ((cold |` (- t)) ++ map_of pending) = e"
      unfolding m2(7) [symmetric] using c m2(2,3) by (intro staged_items) (simp_all add: b'_def cold_at_def)
    moreover have "set added \<inter> set removed = {}"
    proof -
      have "pack_name ` fst ` set ls \<inter> pack_name ` (t - fst ` set ls) = {}"
        by (subst image_Int [symmetric]) (simp_all add: inj_def pack_name_inj)
      moreover have "meta_file_name \<notin> pack_name ` (t - fst ` set ls)" by (metis imageE pack_name_not_meta)
      ultimately show ?thesis unfolding names rset by simp
    qed
    moreover have "component f \<and> plain_text f" if "f \<in> set added \<union> set removed" for f
      using that pack_name_component pack_name_plain meta_name_plain unfolding names rset by auto
    moreover have "pa_next (bm_pack_id_alloc (bk_meta b')) \<le> pa_next (bm_pack_id_alloc (bk_meta b)) + size e"
      using m2(6) set_indexes_meta(1) [OF dls, of rt m2] by (simp add: b'_def)
    ultimately show ?thesis using w(1) unfolding staged_def by (auto simp: b'_def simp del: Un_iff)
  qed
  have written: "gives (io_fold (write_pack rt s) ls \<lparr>ss_hot_pack = [], ss_meta = m2, ss_removed = set ids, ss_added = []\<rparr>) d
    (\<lambda>st d'. wrote s d ls d' \<and> st = \<lparr>ss_hot_pack = hp, ss_meta = set_indexes rt ls m2, ss_removed = t - fst ` set ls,
      ss_added = map (\<lambda>(i, p). pack_name i) ls\<rparr>) (changes (files_of s) (dirs_to s) d)"
    using write_packs_gives [OF ready dls, of rt m2 "set ids"] unfolding hot ids(2) .
  have final: "gives (io_bind (meta_save rt s (set_indexes rt ls m2)) (\<lambda>_. io_return (b', added, removed))) d'
    (staged rt s d b e) (changes (files_of s) (dirs_to s) d)" if w: "wrote s d ls d'" for d'
    unfolding meta_save_write
  proof (rule gives_bind [OF write_staged [OF staging_ready_changes [OF ready] meta_name_plain(2)]])
    have c': "changes (files_of s) (dirs_to s) d d'" using w by (simp add: wrote_def)
    then show "changes (files_of s) (dirs_to s) d d'" .
    have sub: "{s @ [meta_file_name]} \<subseteq> files_of s" using meta_name_plain(2) by (auto simp: files_of_def)
    show "changes (files_of s) (dirs_to s) d d''" if "changes {s @ [meta_file_name]} (dirs_to s) d' d''" for d''
      using changes_trans [OF c' changes_mono [OF that sub order_refl]] .
    show "gives (io_return (b', added, removed)) d'' (staged rt s d b e) (changes (files_of s) (dirs_to s) d)"
      if "changes {s @ [meta_file_name]} (dirs_to s) d' d'' \<and> cont d'' (s @ [meta_file_name]) = Some (meta_bytes rt (set_indexes rt ls m2))"
      for x :: unit and d''
    proof (rule gives_return, rule result)
      show "changes (files_of s) (dirs_to s) d d''" using changes_trans [OF c' changes_mono [OF conjunct1 [OF that] sub order_refl]] .
      show "cont d'' (s @ [pack_name i]) = Some (pack_bytes p)" if "(i, p) \<in> set ls" for i p
      proof -
        have "cont d'' (s @ [pack_name i]) = cont d' (s @ [pack_name i])"
          using \<open>changes {s @ [meta_file_name]} (dirs_to s) d' d'' \<and> _\<close> pack_name_not_meta by (intro changes_cont) auto
        then show ?thesis using w that by (auto simp: wrote_def)
      qed
    qed (use that in simp)
  qed
  have "gives (bucket_save rt (Some s) ch n b) d (staged rt s d b e) (changes (files_of s) (dirs_to s) d)"
    unfolding bucket_save_def Let_def option.case keys_dom_lookup
    by (rule gives_bind_ret [where m = "need_update_packs rt (map fst ch) b", OF need],
        simp only: prod.case plan(1) [unfolded ids_def] option.case plan(2,3) ls_def [symmetric],
        rule gives_bind [OF written [unfolded ids_def]])
      (use final in \<open>auto simp: b'_def added_def removed_def\<close>)
  then show ?thesis by (simp add: e_def)
qed

end
