(* ===== verification/Storage_Open.thy ===== *)
theory Storage_Open
  imports Storage_Save
begin

text \<open>Opening a bucket reads back what is on the disk, and so do the two lock files of a transaction.\<close>

section \<open>Buckets\<close>

lemma bucket_at_cong:
  assumes "bucket_at rt d b cold" "\<And>f. component f \<Longrightarrow> cont d' (bk_fs b @ [f]) = cont d (bk_fs b @ [f])"
  shows "bucket_at rt d' b cold"
  using assms(1) assms(2) [OF pack_name_component] assms(2) [OF meta_name_plain(2)]
  by (simp add: bucket_at_def cold_at_def hot_at_def)

lemma bucket_meta_ok:
  assumes "bucket_at rt d b cold" "cont d (bk_fs b @ [meta_file_name]) \<noteq> None"
  shows "meta_ok (bk_meta b)" "bm_hot_pack_index (bk_meta b) = index_of rt (bk_hot_pack b)"
    "cont d (bk_fs b @ [meta_file_name]) = Some (meta_bytes rt (bk_meta b))"
    "cont d (bk_fs b @ [pack_name hot_pack_id]) = Some (pack_bytes (bk_hot_pack b))"
proof -
  have hot: "hot_at rt d b" and cold: "cold_at rt d b cold" and alloc: "alloc_ok (dom cold) (bm_pack_id_alloc (bk_meta b))"
    and n: "pa_next (bm_pack_id_alloc (bk_meta b)) < 2 ^ 64" using assms(1) by (simp_all add: bucket_at_def)
  show h: "bm_hot_pack_index (bk_meta b) = index_of rt (bk_hot_pack b)"
    "cont d (bk_fs b @ [meta_file_name]) = Some (meta_bytes rt (bk_meta b))"
    "cont d (bk_fs b @ [pack_name hot_pack_id]) = Some (pack_bytes (bk_hot_pack b))"
    using hot assms(2) by (auto simp: hot_at_def)
  have "alloc_bounded (bm_pack_id_alloc (bk_meta b))"
    using alloc n unfolding alloc_bounded_def alloc_ok_def by (metis UnCI order.strict_trans)
  moreover have "i \<noteq> hot_pack_id \<and> i < 2 ^ 64 \<and> length (pi_bloom_filter x) = segment_num"
    if i: "cold_index (bk_meta b) i = Some x" for i x
  proof -
    obtain y where y: "cold i = Some y" using i cold by (metis cold_at_def domI domIff option.exhaust_sel)
    then have "x = index_of rt y" using i cold by (simp add: cold_at_def)
    moreover have "0 < i" "i < pa_next (bm_pack_id_alloc (bk_meta b))" using alloc y by (auto simp: alloc_ok_def)
    ultimately show ?thesis using n by (simp add: hot_pack_id_def)
  qed
  ultimately show "meta_ok (bk_meta b)" using cold h(1) by (simp add: meta_ok_def cold_at_def)
qed

lemma not_found_found [simp]: "is_not_found not_found"
  by (simp add: not_found_def)

lemma or_default_found: "m d = (Ret x, d) \<Longrightarrow> or_default m y d = (Ret x, d)"
  by (simp add: or_default_def io_bind_def io_try_def io_return_def)

lemma or_default_missing: "m d = (Fail not_found, d) \<Longrightarrow> or_default m y d = (Ret y, d)"
  by (simp add: or_default_def io_bind_def io_try_def io_return_def)

lemma pack_load_missing: "cont d (s @ [pack_name i]) = None \<Longrightarrow> pack_load rt s i d = (Fail not_found, d)"
  by (simp add: pack_load_def io_bind_def stream_read_missing [OF pack_name_component])

lemma meta_load_missing: "cont d (s @ [meta_file_name]) = None \<Longrightarrow> meta_load s d = (Fail not_found, d)"
  by (simp add: meta_load_def io_bind_def stream_read_missing [OF meta_name_plain(2)])

lemma bucket_new_gives:
  assumes b: "bucket_at rt d b cold" and rt: "rt_ok rt" and dirs: "\<forall>q. prefix q (bk_fs b) \<longrightarrow> cont d q = None"
  shows "gives (bucket_new rt (bk_fs b)) d
    (\<lambda>b' d'. b' = b \<and> changes {} (dirs_to (bk_fs b)) d d' \<and> isdir d' (bk_fs b)) (changes {} (dirs_to (bk_fs b)) d)"
  unfolding bucket_new_def
proof (rule gives_bind [where m = "ensure_exist (bk_fs b)", OF create_dir_all_gives [OF dirs, folded ensure_exist_def dirs_to_def]])
  fix x :: unit and d' assume d': "changes {} (dirs_to (bk_fs b)) d d' \<and> isdir d' (bk_fs b)"
  then have b': "bucket_at rt d' b cold" by (intro bucket_at_cong [OF b]) (auto intro: changes_cont)
  have meta: "or_default (meta_load (bk_fs b)) meta_default d' = (Ret (bk_meta b), d') \<and>
      or_default (load_checked rt (bk_fs b) hot_pack_id (bm_hot_pack_index (bk_meta b))) [] d' = (Ret (bk_hot_pack b), d')"
  proof (cases "cont d' (bk_fs b @ [meta_file_name]) = None")
    case True
    then have "bk_meta b = meta_default" "bk_hot_pack b = []" "cont d' (bk_fs b @ [pack_name hot_pack_id]) = None"
      using b' by (auto simp: bucket_at_def hot_at_def)
    then show ?thesis
      using or_default_missing [where m = "meta_load (bk_fs b)", OF meta_load_missing [OF True]]
      by (auto intro!: or_default_missing simp: load_checked_def io_bind_def pack_load_missing)
  next
    case False
    note ok = bucket_meta_ok [OF b' False]
    have "storable (bk_hot_pack b)" using b' by (simp add: bucket_at_def)
    then have "load_checked rt (bk_fs b) hot_pack_id (index_of rt (bk_hot_pack b)) d' = (Ret (bk_hot_pack b), d')"
      by (rule load_checked_run [OF ok(4)]) simp
    then show ?thesis
      using or_default_found [where m = "meta_load (bk_fs b)", OF meta_load_run [OF ok(3,1) rt]]
      by (auto intro!: or_default_found simp: ok(2))
  qed
  show "gives (io_bind (or_default (meta_load (bk_fs b)) meta_default) (\<lambda>m.
      io_bind (or_default (load_checked rt (bk_fs b) hot_pack_id (bm_hot_pack_index m)) []) (\<lambda>hot.
        io_return \<lparr>bk_meta = m, bk_hot_pack = hot, bk_fs = bk_fs b\<rparr>))) d'
    (\<lambda>b' d'. b' = b \<and> changes {} (dirs_to (bk_fs b)) d d' \<and> isdir d' (bk_fs b)) (changes {} (dirs_to (bk_fs b)) d)"
    by (rule gives_ret) (use meta d' in \<open>simp_all add: io_bind_def io_return_def\<close>)
qed

lemma load_all_run:
  assumes b: "bucket_at rt d b cold" and rt: "rt_ok rt"
  shows "\<exists>data. load_all rt b d = (Ret data, d) \<and> mset data = bucket_items b cold"
proof -
  have cold: "cold_at rt d b cold" using b by (simp add: bucket_at_def)
  define step where "step i result = (case cold_index (bk_meta b) i of
      None \<Rightarrow> io_return result
    | Some x \<Rightarrow> io_bind (load_checked rt (bk_fs b) i x) (\<lambda>pack. io_return (result @ pack)))" for i result
  have run: "\<exists>data. io_fold step is acc d = (Ret data, d) \<and> mset data = mset acc + (\<Sum>i \<in> set is. mset (the (cold i)))"
    if "set is \<subseteq> dom cold" "distinct is" for "is" acc
    using that
  proof (induction "is" arbitrary: acc)
    case Nil
    then show ?case by (simp add: io_return_def)
  next
    case (Cons i "is")
    obtain x where x: "cold i = Some x" using Cons.prems(1) by auto
    then have "step i acc d = (Ret (acc @ x), d)"
      using cold cold_at_load [OF cold x] by (simp add: step_def cold_at_def io_bind_def io_return_def)
    then show ?case using Cons.IH [of "acc @ x"] Cons.prems x by (auto simp: io_bind_def)
  qed
  let ?is = "rt_order rt (dom (cold_index (bk_meta b)))"
  have "set ?is = dom cold" "distinct ?is" using cold rt by (simp_all add: rt_ok_def cold_at_def)
  then show ?thesis
    using run [of ?is "bk_hot_pack b"] unfolding load_all_def bucket_items_def cold_items_def step_def by simp
qed

section \<open>Lock files\<close>

definition lock_bytes :: "state_lock \<Rightarrow> u8 list" where
  "lock_bytes l = to_be_bytes (sl_pid l) @ sl_process_name l"

lemma be_bytes_round: "from_be_bytes (to_be_bytes x) = x"
proof (rule bit_word_eqI)
  fix n assume n: "n < LENGTH(32)"
  then consider "n < 8" | "8 \<le> n" "n < 16" | "16 \<le> n" "n < 24" | "24 \<le> n" "n < 32" by force
  then show "bit (from_be_bytes (to_be_bytes x)) n = bit x n"
    by cases (use n in \<open>auto simp: from_be_bytes_def to_be_bytes_def bit_simps\<close>)
qed

lemma lock_names: "component state_lock_file" "component commit_lock_file" "state_lock_file \<noteq> commit_lock_file"
  "hd (bytes ''.temp'') = 0x2E" "component (bytes ''.temp'')"
  by code_simp+

lemma state_lock_load_run:
  assumes "cont d (s @ [state_lock_file]) = Some (lock_bytes l)" "from_utf8_ok (sl_process_name l)"
  shows "state_lock_load s d = (Ret l, d)"
proof -
  have len: "length (to_be_bytes (sl_pid l)) = 4" by (simp add: to_be_bytes_def)
  then have "stream_read_exact 4 (lock_bytes l) = Some (Inr (to_be_bytes (sl_pid l), sl_process_name l))"
    by (simp add: stream_read_exact_def lock_bytes_def)
  then show ?thesis
    using assms by (simp add: state_lock_load_def io_bind_def stream_read_run [OF lock_names(1)] io_return_def be_bytes_round)
qed

lemma state_lock_save_write: "state_lock_save l s = write_file s state_lock_file (lock_bytes l)"
  unfolding state_lock_save_def by (rule stream_write_flush(2)) (simp_all add: stream_put_def lock_bytes_def)

text \<open>The lines of a commit lock.\<close>

type_synonym file_in = "u8 list \<times> u8 list"

definition lock_name :: "file_in \<Rightarrow> u8 list" where
  "lock_name nf = in_bucket (fst nf) (snd nf)"

definition lock_of :: "file_in list \<Rightarrow> file_in list \<Rightarrow> commit_lock" where
  "lock_of a r = \<lparr>cl_added_files = map lock_name a, cl_removed_files = map lock_name r\<rparr>"

definition lines_bytes :: "u8 list list \<Rightarrow> u8 list" where
  "lines_bytes ls = concat (map (\<lambda>l. l @ [0x0A]) ls)"

definition commit_bytes :: "commit_lock \<Rightarrow> u8 list" where
  "commit_bytes l = lines_bytes (bytes ''[ADD]'' # cl_added_files l @ bytes ''[REMOVE]'' # cl_removed_files l)"

lemma fold_put_line: "fold stream_put_line ls w = stream_put (lines_bytes ls) w"
  by (induction ls arbitrary: w) (simp_all add: lines_bytes_def stream_put_def stream_put_line_def)

lemma commit_lock_save_write: "commit_lock_save l s = write_file s commit_lock_file (commit_bytes l)"
  unfolding commit_lock_save_def
  by (rule stream_write_flush(2))
    (simp_all add: put_commit_lock_def fold_put_line stream_put_def stream_put_line_def commit_bytes_def lines_bytes_def)

lemma commit_line:
  assumes "plain_text line"
  shows "commit_lines (lines_bytes (line # ls)) current l =
    (if line = bytes ''[ADD]'' then commit_lines (lines_bytes ls) (Some AddSection) l
     else if line = bytes ''[REMOVE]'' then commit_lines (lines_bytes ls) (Some RemoveSection) l
     else case current of
       Some AddSection \<Rightarrow> commit_lines (lines_bytes ls) current (l\<lparr>cl_added_files := cl_added_files l @ [line]\<rparr>)
     | Some RemoveSection \<Rightarrow> commit_lines (lines_bytes ls) current (l\<lparr>cl_removed_files := cl_removed_files l @ [line]\<rparr>)
     | None \<Rightarrow> Inl InvalidFormat)"
proof -
  have "stream_read_line (lines_bytes (line # ls)) = Inr (line, lines_bytes ls)"
    using read_line_append [OF plain_not [OF assms] plain_ascii [OF assms]] by (simp add: lines_bytes_def)
  moreover have "line \<noteq> []" using assms by (simp add: plain_text_def)
  ultimately show ?thesis by (subst commit_lines.simps) (simp add: trim_plain [OF assms] Let_def)
qed

text \<open>A name of a file in a bucket is a line of its own, and not a section.\<close>

definition file_line :: "u8 list \<Rightarrow> bool" where
  "file_line s \<longleftrightarrow> plain_text s \<and> 0x2F \<in> set s"

lemma file_line_not: "file_line s \<Longrightarrow> s \<noteq> bytes ''[ADD]'' \<and> s \<noteq> bytes ''[REMOVE]''"
proof -
  have "0x2F \<notin> set (bytes ''[ADD]'')" "0x2F \<notin> set (bytes ''[REMOVE]'')" by code_simp+
  then show "file_line s \<Longrightarrow> s \<noteq> bytes ''[ADD]'' \<and> s \<noteq> bytes ''[REMOVE]''" by (auto simp: file_line_def)
qed

lemma commit_lines_removed:
  "list_all file_line rs \<Longrightarrow> commit_lines (lines_bytes rs) (Some RemoveSection) l = Inr (l\<lparr>cl_removed_files := cl_removed_files l @ rs\<rparr>)"
proof (induction rs arbitrary: l)
  case Nil
  then show ?case by (subst commit_lines.simps) (simp add: lines_bytes_def)
next
  case (Cons s rs)
  then have s: "plain_text s" "s \<noteq> bytes ''[ADD]''" "s \<noteq> bytes ''[REMOVE]''" using file_line_not by (auto simp: file_line_def)
  then show ?case using Cons by (simp add: commit_line)
qed

lemma commit_lines_added:
  assumes "list_all file_line as"
  shows "commit_lines (lines_bytes (as @ ls)) (Some AddSection) l =
    commit_lines (lines_bytes ls) (Some AddSection) (l\<lparr>cl_added_files := cl_added_files l @ as\<rparr>)"
  using assms
proof (induction as arbitrary: l)
  case (Cons s as)
  then have s: "plain_text s" "s \<noteq> bytes ''[ADD]''" "s \<noteq> bytes ''[REMOVE]''" using file_line_not by (auto simp: file_line_def)
  then show ?case using Cons by (simp add: commit_line)
qed simp

lemma commit_lines_round:
  assumes "list_all file_line (cl_added_files l)" "list_all file_line (cl_removed_files l)"
  shows "commit_lines (commit_bytes l) None \<lparr>cl_added_files = [], cl_removed_files = []\<rparr> = Inr l"
proof -
  have "plain_text (bytes ''[ADD]'')" "plain_text (bytes ''[REMOVE]'')" "bytes ''[REMOVE]'' \<noteq> bytes ''[ADD]''" by code_simp+
  then show ?thesis
    unfolding commit_bytes_def by (simp add: commit_line commit_lines_added [OF assms(1)] commit_lines_removed [OF assms(2)])
qed

lemma commit_lock_load_run:
  assumes "cont d (s @ [commit_lock_file]) = Some (commit_bytes l)" "list_all file_line (cl_added_files l)" "list_all file_line (cl_removed_files l)"
  shows "commit_lock_load s d = (Ret l, d)"
  using assms by (simp add: commit_lock_load_def io_bind_def stream_read_run [OF lock_names(2)] commit_lines_round io_of_sum_def io_return_def)

lemma lock_name_line: "bucket_name n \<Longrightarrow> component f \<Longrightarrow> plain_text f \<Longrightarrow> file_line (lock_name (n, f))"
  by (auto simp: file_line_def lock_name_def in_bucket_def bucket_name_def plain_text_def visible_def)

lemma if_found_run: "m d = (Ret x, d) \<Longrightarrow> if_found m d = (Ret (Some x), d)"
  by (simp add: if_found_def io_bind_def io_try_def io_return_def)

lemma if_found_missing: "m d = (Fail not_found, d) \<Longrightarrow> if_found m d = (Ret None, d)"
  by (simp add: if_found_def io_bind_def io_try_def io_return_def)

end
