(* ===== verification/Storage_Commit.thy ===== *)
theory Storage_Commit
  imports Storage_Open
begin

text \<open>
  The two-phase commit.  While the lock of a commit is on the disk every state is \<open>pending\<close>: executing the commit from it,
  again and again if the process dies, reaches the same contents.
\<close>

section \<open>The files of a cache\<close>

definition temp_of :: "path \<Rightarrow> path" where
  "temp_of r = r @ [bytes ''.temp'']"

definition state_path :: "path \<Rightarrow> path" where
  "state_path r = temp_of r @ [state_lock_file]"

definition commit_path :: "path \<Rightarrow> path" where
  "commit_path r = temp_of r @ [commit_lock_file]"

definition cache_dirs :: "path \<Rightarrow> path set" where
  "cache_dirs r = dirs_to (temp_of r) \<union> {r @ [n] | n. bucket_name n} \<union> {temp_of r @ [n] | n. bucket_name n}"

definition cache_files :: "path \<Rightarrow> path set" where
  "cache_files r = {r @ [n, f] | n f. bucket_name n \<and> component f} \<union> {temp_of r @ [n, f] | n f. bucket_name n \<and> component f} \<union>
    {state_path r, commit_path r}"

lemma temp_of_nonempty [simp]: "temp_of r \<noteq> []"
  by (simp add: temp_of_def)

text \<open>
  No file lies where a directory of the cache belongs, no directory where a file does, and no file of a bucket without
  the directory of the bucket.
\<close>

definition shape :: "path \<Rightarrow> disk \<Rightarrow> bool" where
  "shape r d \<longleftrightarrow> r \<noteq> [] \<and> (\<forall>q \<in> cache_dirs r. cont d q = None) \<and> (\<forall>q \<in> cache_files r. \<not> isdir d q) \<and>
    (\<forall>n f. bucket_name n \<longrightarrow> component f \<longrightarrow> cont d (r @ [n, f]) \<noteq> None \<longrightarrow> isdir d (r @ [n]))"

lemma temp_fs_of_temp [simp]: "temp_fs_of r = temp_of r"
  by (simp add: temp_fs_of_def child_fs_def join_component [OF lock_names(5)] temp_of_def)

lemma bucket_not_temp: "bucket_name n \<Longrightarrow> n \<noteq> bytes ''.temp''"
  using lock_names(4) by (auto simp: bucket_name_def)

lemma paths_differ [simp]:
  "r @ [n, f] \<noteq> temp_of r @ [n', f']" "temp_of r @ [n', f'] \<noteq> r @ [n, f]"
  "temp_of r @ [n, f] \<noteq> state_path r" "temp_of r @ [n, f] \<noteq> commit_path r"
  "state_path r \<noteq> temp_of r @ [n, f]" "commit_path r \<noteq> temp_of r @ [n, f]"
  "state_path r \<noteq> commit_path r" "commit_path r \<noteq> state_path r"
  using lock_names(3) by (simp_all add: temp_of_def state_path_def commit_path_def)

lemma lock_path_bucket [simp]:
  assumes "bucket_name n"
  shows "r @ [n, f] \<noteq> state_path r" "r @ [n, f] \<noteq> commit_path r" "state_path r \<noteq> r @ [n, f]" "commit_path r \<noteq> r @ [n, f]"
  using bucket_not_temp [OF assms] by (auto simp: temp_of_def state_path_def commit_path_def)

lemma prefix_short: "prefix q (r @ [x]) \<Longrightarrow> length q \<le> Suc (length r)"
  by (auto dest: prefix_length_le)

lemma files_not_dirs: "cache_files r \<inter> cache_dirs r = {}"
proof -
  have "q \<notin> cache_dirs r" if q: "q \<in> cache_files r" for q
  proof -
    from q consider n f where "q = r @ [n, f]" "bucket_name n" | n f where "q = temp_of r @ [n, f]" | "q = state_path r" | "q = commit_path r"
      by (auto simp: cache_files_def)
    then show ?thesis
    proof cases
      case 1
      then show ?thesis using bucket_not_temp by (auto simp: cache_dirs_def dirs_to_def temp_of_def dest: prefix_short)
    next
      case 2
      then show ?thesis by (auto simp: cache_dirs_def dirs_to_def temp_of_def dest: prefix_short)
    qed (auto simp: cache_dirs_def dirs_to_def temp_of_def state_path_def commit_path_def bucket_name_def dest: prefix_short)
  qed
  then show ?thesis by blast
qed

lemma shape_changes:
  assumes d: "shape r d" and c: "changes cs ds d d'" and sub: "cs \<subseteq> cache_files r" "ds \<subseteq> cache_dirs r"
    and dirs: "\<And>n f. bucket_name n \<Longrightarrow> component f \<Longrightarrow> r @ [n, f] \<in> cs \<Longrightarrow> isdir d (r @ [n]) \<or> cont d' (r @ [n, f]) = None"
  shows "shape r d'"
  unfolding shape_def
proof (intro conjI ballI allI impI)
  show "r \<noteq> []" using d by (simp add: shape_def)
  show "cont d' q = None" if "q \<in> cache_dirs r" for q
  proof -
    have "q \<notin> cs" using that sub(1) files_not_dirs [of r] by blast
    then show ?thesis using changes_cont [OF c] d that by (simp add: shape_def)
  qed
  show "\<not> isdir d' q" if "q \<in> cache_files r" for q
  proof (rule changes_not_dir [OF c])
    show "\<not> isdir d q" using d that by (simp add: shape_def)
    show "q \<notin> ds" using that sub(2) files_not_dirs [of r] by blast
  qed
  fix n f assume nf: "bucket_name n" "component f" "cont d' (r @ [n, f]) \<noteq> None"
  show "isdir d' (r @ [n])"
  proof (cases "r @ [n, f] \<in> cs")
    case True
    then have "isdir d (r @ [n])" using dirs [OF nf(1,2)] nf(3) by simp
    then show ?thesis by (rule changes_dir [OF c])
  next
    case False
    then have "cont d (r @ [n, f]) \<noteq> None" using nf(3) changes_cont [OF c] by simp
    then show ?thesis using nf(1,2) d changes_dir [OF c] by (simp add: shape_def)
  qed
qed

text \<open>The directories and files that the steps of a save touch.\<close>

lemma dirs_to_snoc: "dirs_to (p @ [x]) = insert (p @ [x]) (dirs_to p)"
  by (auto simp: dirs_to_def)

lemma dirs_sub [simp]:
  "dirs_to (temp_of r) \<subseteq> cache_dirs r"
  "bucket_name n \<Longrightarrow> dirs_to (r @ [n]) \<subseteq> cache_dirs r" "bucket_name n \<Longrightarrow> dirs_to (temp_of r @ [n]) \<subseteq> cache_dirs r"
proof -
  have "dirs_to r \<subseteq> dirs_to (temp_of r)" by (auto simp: dirs_to_def temp_of_def)
  then show "dirs_to (temp_of r) \<subseteq> cache_dirs r"
    "bucket_name n \<Longrightarrow> dirs_to (r @ [n]) \<subseteq> cache_dirs r" "bucket_name n \<Longrightarrow> dirs_to (temp_of r @ [n]) \<subseteq> cache_dirs r"
    by (auto simp: cache_dirs_def dirs_to_snoc)
qed

lemma files_sub [simp]:
  "state_path r \<in> cache_files r" "commit_path r \<in> cache_files r"
  "bucket_name n \<Longrightarrow> component f \<Longrightarrow> r @ [n, f] \<in> cache_files r"
  "bucket_name n \<Longrightarrow> component f \<Longrightarrow> temp_of r @ [n, f] \<in> cache_files r"
  "bucket_name n \<Longrightarrow> files_of (temp_of r @ [n]) \<subseteq> cache_files r"
  by (auto simp: cache_files_def files_of_def)

lemma shape_no_file:
  assumes "shape r d"
  shows "\<forall>q. prefix q (temp_of r) \<longrightarrow> cont d q = None" "bucket_name n \<Longrightarrow> \<forall>q. prefix q (r @ [n]) \<longrightarrow> cont d q = None"
    "bucket_name n \<Longrightarrow> \<forall>q. prefix q (temp_of r @ [n]) \<longrightarrow> cont d q = None"
  using assms dirs_sub [where r = r] unfolding shape_def dirs_to_def by blast+

lemma shape_no_dir:
  assumes "shape r d"
  shows "\<not> isdir d (state_path r)" "\<not> isdir d (commit_path r)"
    "bucket_name n \<Longrightarrow> component f \<Longrightarrow> \<not> isdir d (r @ [n, f])" "bucket_name n \<Longrightarrow> component f \<Longrightarrow> \<not> isdir d (temp_of r @ [n, f])"
  using assms files_sub [where r = r] unfolding shape_def by blast+

lemma staging_shape: "shape r d \<Longrightarrow> bucket_name n \<Longrightarrow> staging_ready (temp_of r @ [n]) d"
  using shape_no_file(3) [of r d n] files_sub(5) [of n r] unfolding staging_ready_def dirs_to_def shape_def by blast

text \<open>A lock is written at once.\<close>

lemma write_lock_gives:
  assumes "shape r d" "f = state_lock_file \<or> f = commit_lock_file"
  shows "gives (write_file (temp_of r) f c) d
    (\<lambda>_ d'. changes {temp_of r @ [f]} (dirs_to (temp_of r)) d d' \<and> cont d' (temp_of r @ [f]) = Some c)
    (\<lambda>d'. changes {temp_of r @ [f]} (dirs_to (temp_of r)) d d' \<and> cont d' (temp_of r @ [f]) \<in> {cont d (temp_of r @ [f]), None})"
proof -
  have f: "component f" using assms(2) lock_names(1,2) by auto
  then have p: "path_join (temp_of r) f = temp_of r @ [f]" by (rule join_component)
  have "path_parent (temp_of r @ [f]) = Some (temp_of r)" by (simp add: path_parent_def)
  moreover have "\<not> isdir d (temp_of r @ [f])" using assms(2) shape_no_dir(1,2) [OF assms(1)] by (auto simp: state_path_def commit_path_def)
  moreover have "\<not> prefix (temp_of r @ [f]) (temp_of r)" by (auto dest: prefix_length_le)
  ultimately show ?thesis
    using write_file_atomic [of "temp_of r" f "temp_of r" d c] shape_no_file(1) [OF assms(1)] by (simp add: p dirs_to_def)
qed

section \<open>What a cache stores\<close>

text \<open>Every bucket is on the disk and holds its map; its next pack id is at most \<open>lim\<close>.\<close>

type_synonym stores = "u8 list \<Rightarrow> u8 list \<rightharpoonup> u8 list"

definition holds_map :: "'h storage_rt \<Rightarrow> path \<Rightarrow> nat \<Rightarrow> disk \<Rightarrow> u8 list \<Rightarrow> (u8 list \<rightharpoonup> u8 list) \<Rightarrow> bucket \<Rightarrow> bool" where
  "holds_map rt r lim d n m b \<longleftrightarrow> bk_fs b = r @ [n] \<and> pa_next (bm_pack_id_alloc (bk_meta b)) \<le> lim \<and>
    (\<exists>cold. bucket_at rt d b cold \<and> entry_map (bucket_items b cold) = m)"

definition stored :: "'h storage_rt \<Rightarrow> path \<Rightarrow> nat \<Rightarrow> stores \<Rightarrow> disk \<Rightarrow> bool" where
  "stored rt r lim M d \<longleftrightarrow> (\<forall>n. bucket_name n \<longrightarrow> (\<exists>b. holds_map rt r lim d n (M n) b))"

lemma holds_map_cong:
  "holds_map rt r lim d n m b \<Longrightarrow> (\<And>f. component f \<Longrightarrow> cont d' (r @ [n, f]) = cont d (r @ [n, f])) \<Longrightarrow> holds_map rt r lim d' n m b"
  unfolding holds_map_def by (metis append.assoc append_Cons append_Nil bucket_at_cong)

lemma holds_map_mono: "holds_map rt r lim d n m b \<Longrightarrow> lim \<le> lim' \<Longrightarrow> holds_map rt r lim' d n m b"
  unfolding holds_map_def by auto

lemma stored_cong:
  "stored rt r lim M d \<Longrightarrow> (\<And>n f. bucket_name n \<Longrightarrow> component f \<Longrightarrow> cont d' (r @ [n, f]) = cont d (r @ [n, f])) \<Longrightarrow> stored rt r lim M d'"
  unfolding stored_def by (meson holds_map_cong)

text \<open>The contents of the buckets.\<close>

type_synonym view = "u8 list \<Rightarrow> u8 list \<Rightarrow> u8 list option"

definition shows_view :: "path \<Rightarrow> view \<Rightarrow> disk \<Rightarrow> bool" where
  "shows_view r V d \<longleftrightarrow> (\<forall>n f. bucket_name n \<longrightarrow> component f \<longrightarrow> cont d (r @ [n, f]) = V n f)"

section \<open>Executing a commit\<close>

definition file_ok :: "file_in \<Rightarrow> bool" where
  "file_ok nf \<longleftrightarrow> bucket_name (fst nf) \<and> component (snd nf) \<and> plain_text (snd nf)"

definition pending :: "path \<Rightarrow> file_in list \<Rightarrow> file_in list \<Rightarrow> view \<Rightarrow> disk \<Rightarrow> bool" where
  "pending r a rm V d \<longleftrightarrow> shape r d \<and> isdir d (temp_of r) \<and> (\<forall>nf \<in> set a \<union> set rm. file_ok nf) \<and> set a \<inter> set rm = {} \<and>
    (\<forall>n f. (n, f) \<in> set a \<longrightarrow> isdir d (r @ [n]) \<and> V n f \<noteq> None \<and>
      (cont d (temp_of r @ [n, f]) = V n f \<or> cont d (temp_of r @ [n, f]) = None \<and> cont d (r @ [n, f]) = V n f)) \<and>
    (\<forall>n f. (n, f) \<in> set rm \<longrightarrow> V n f = None) \<and>
    (\<forall>n f. bucket_name n \<longrightarrow> component f \<longrightarrow> (n, f) \<notin> set a \<union> set rm \<longrightarrow> cont d (r @ [n, f]) = V n f)"

definition same_locks :: "path \<Rightarrow> disk \<Rightarrow> disk \<Rightarrow> bool" where
  "same_locks r d d' \<longleftrightarrow> cont d' (state_path r) = cont d (state_path r) \<and> cont d' (commit_path r) = cont d (commit_path r) \<and>
    (\<forall>q. isdir d q \<longrightarrow> isdir d' q)"

lemma same_locks_refl [simp]: "same_locks r d d"
  by (simp add: same_locks_def)

lemma same_locks_trans: "same_locks r d d' \<Longrightarrow> same_locks r d' d'' \<Longrightarrow> same_locks r d d''"
  by (simp add: same_locks_def)

lemma pending_file: "pending r a rm V d \<Longrightarrow> (n, f) \<in> set a \<union> set rm \<Longrightarrow> bucket_name n \<and> component f"
  by (auto simp: pending_def file_ok_def dest!: bspec)

lemma pending_step:
  assumes "pending r a rm V d" "shape r d'" "\<And>q. isdir d q \<Longrightarrow> isdir d' q"
    "\<And>n f. (n, f) \<in> set a \<Longrightarrow> cont d' (temp_of r @ [n, f]) = V n f \<or> cont d' (temp_of r @ [n, f]) = None \<and> cont d' (r @ [n, f]) = V n f"
    "\<And>n f. bucket_name n \<Longrightarrow> component f \<Longrightarrow> (n, f) \<notin> set a \<union> set rm \<Longrightarrow> cont d' (r @ [n, f]) = cont d (r @ [n, f])"
  shows "pending r a rm V d'"
  using assms(1) unfolding pending_def
proof (elim conjE, intro conjI allI impI)
  fix n f assume "bucket_name n" "component f" "(n, f) \<notin> set a \<union> set rm"
    "\<forall>n f. bucket_name n \<longrightarrow> component f \<longrightarrow> (n, f) \<notin> set a \<union> set rm \<longrightarrow> cont d (r @ [n, f]) = V n f"
  then show "cont d' (r @ [n, f]) = V n f" using assms(5) by simp
qed (use assms(2,3,4) in blast)+

lemma pending_added:
  "pending r a rm V d \<Longrightarrow> (n, f) \<in> set a \<Longrightarrow> isdir d (r @ [n]) \<and> V n f \<noteq> None \<and>
    (cont d (temp_of r @ [n, f]) = V n f \<or> cont d (temp_of r @ [n, f]) = None \<and> cont d (r @ [n, f]) = V n f)"
  unfolding pending_def by blast

lemma pending_remove:
  assumes p: "pending r a rm V d" and nf: "(n, f) \<in> set rm" and c: "changes {r @ [n, f]} {} d d'" "cont d' (r @ [n, f]) = None"
  shows "pending r a rm V d'" "same_locks r d d'"
proof -
  have ok: "bucket_name n" "component f" using pending_file [OF p] nf by auto
  have shape: "shape r d'" using p ok by (intro shape_changes [OF _ c(1)]) (auto simp: pending_def c(2))
  have temp: "cont d' (temp_of r @ [n', f']) = cont d (temp_of r @ [n', f'])" for n' f' using changes_cont [OF c(1)] by simp
  have root: "cont d' (r @ [n', f']) = cont d (r @ [n', f'])" if "(n', f') \<noteq> (n, f)" for n' f'
    using that changes_cont [OF c(1), of "r @ [n', f']"] by auto
  have other: "(n', f') \<noteq> (n, f)" if "(n', f') \<in> set a" for n' f' using that nf p by (auto simp: pending_def)
  show "pending r a rm V d'"
  proof (rule pending_step [OF p shape changes_dir [OF c(1)]])
    show "cont d' (temp_of r @ [n', f']) = V n' f' \<or> cont d' (temp_of r @ [n', f']) = None \<and> cont d' (r @ [n', f']) = V n' f'"
      if "(n', f') \<in> set a" for n' f'
      using pending_added [OF p that] temp root [OF other [OF that]] by simp
    show "cont d' (r @ [n', f']) = cont d (r @ [n', f'])" if "(n', f') \<notin> set a \<union> set rm" for n' f'
      by (rule root) (use nf that in auto)
  qed
  show "same_locks r d d'" using ok changes_cont [OF c(1)] changes_dir [OF c(1)] by (simp add: same_locks_def)
qed

lemma pending_move:
  assumes p: "pending r a rm V d" and nf: "(n, f) \<in> set a" and c: "changes {temp_of r @ [n, f], r @ [n, f]} {} d d'"
    and fin: "cont d' (temp_of r @ [n, f]) = V n f \<or> cont d' (temp_of r @ [n, f]) = None \<and> cont d' (r @ [n, f]) = V n f"
  shows "pending r a rm V d'" "same_locks r d d'"
proof -
  have ok: "bucket_name n" "component f" using pending_file [OF p] nf by auto
  have shape: "shape r d'" using p ok pending_added [OF p nf]
    by (intro shape_changes [OF _ c]) (auto simp: pending_def)
  have keep: "cont d' (temp_of r @ [n', f']) = cont d (temp_of r @ [n', f'])" "cont d' (r @ [n', f']) = cont d (r @ [n', f'])"
    if "(n', f') \<noteq> (n, f)" for n' f'
    using that changes_cont [OF c] by auto
  show "pending r a rm V d'"
  proof (rule pending_step [OF p shape changes_dir [OF c]])
    show "cont d' (temp_of r @ [n', f']) = V n' f' \<or> cont d' (temp_of r @ [n', f']) = None \<and> cont d' (r @ [n', f']) = V n' f'"
      if "(n', f') \<in> set a" for n' f'
      using pending_added [OF p that] keep fin by (cases "(n', f') = (n, f)") auto
    show "cont d' (r @ [n', f']) = cont d (r @ [n', f'])" if "(n', f') \<notin> set a \<union> set rm" for n' f'
      by (rule keep(2)) (use nf that in auto)
  qed
  show "same_locks r d d'" using ok changes_cont [OF c] changes_dir [OF c] by (simp add: same_locks_def)
qed

definition removed_upto :: "path \<Rightarrow> file_in list \<Rightarrow> nat \<Rightarrow> disk \<Rightarrow> bool" where
  "removed_upto r rm i d \<longleftrightarrow> (\<forall>j < i. cont d (r @ [fst (rm ! j), snd (rm ! j)]) = None)"

lemma remove_files_gives:
  assumes p: "pending r a rm V d"
  shows "gives (io_each (scope_remove_file r) (map lock_name rm)) d
    (\<lambda>_ d'. pending r a rm V d' \<and> same_locks r d d' \<and> removed_upto r rm (length rm) d')
    (\<lambda>d'. pending r a rm V d' \<and> same_locks r d d')"
proof -
  define I where "I i d' \<longleftrightarrow> pending r a rm V d' \<and> same_locks r d d' \<and> removed_upto r rm i d'" for i d'
  have "gives (io_each (scope_remove_file r) (map lock_name rm)) d (\<lambda>_. I (length (map lock_name rm)))
      (\<lambda>d'. pending r a rm V d' \<and> same_locks r d d')"
  proof (rule gives_each)
    show "I 0 d" using p by (simp add: I_def removed_upto_def)
    fix i d' assume i: "i < length (map lock_name rm)" and I: "I i d'"
    obtain n f where nf: "rm ! i = (n, f)" by force
    then have mem: "(n, f) \<in> set rm" using i by (metis length_map nth_mem)
    have pd: "pending r a rm V d'" and sl: "same_locks r d d'" using I by (simp_all add: I_def)
    have ok: "bucket_name n" "component f" using pending_file [OF pd] mem by auto
    have j: "path_join r (lock_name (n, f)) = r @ [n, f]"
      using ok by (simp add: lock_name_def join_in_bucket bucket_component)
    have "\<not> isdir d' (r @ [n, f])" using shape_no_dir(3) ok pd by (simp add: pending_def)
    then have "gives (scope_remove_file r (lock_name (n, f))) d'
        (\<lambda>_ d''. changes {r @ [n, f]} {} d' d'' \<and> cont d'' (r @ [n, f]) = None) (\<lambda>d''. d'' = d')"
      using scope_remove_file_gives [of d' r "lock_name (n, f)"] by (simp add: j)
    then have "gives (scope_remove_file r (lock_name (n, f))) d' (\<lambda>_. I (Suc i)) (\<lambda>d'. pending r a rm V d' \<and> same_locks r d d')"
    proof (rule gives_conseq)
      fix d'' :: disk assume c: "changes {r @ [n, f]} {} d' d'' \<and> cont d'' (r @ [n, f]) = None"
      have "cont d'' (r @ [fst (rm ! j), snd (rm ! j)]) = None" if "j < Suc i" for j
      proof (cases "rm ! j = (n, f)")
        case False
        then have "j < i" using that nf by (cases "j = i") auto
        then have "cont d' (r @ [fst (rm ! j), snd (rm ! j)]) = None" using I by (simp add: I_def removed_upto_def)
        then show ?thesis using changes_cont [OF conjunct1 [OF c]] False by (cases "rm ! j") auto
      qed (use c in simp)
      then show "I (Suc i) d''"
        using pending_remove [OF pd mem conjunct1 [OF c] conjunct2 [OF c]] same_locks_trans [OF sl] by (simp add: I_def removed_upto_def)
    next
      show "pending r a rm V d'' \<and> same_locks r d d''" if "d'' = d'" for d'' using that pd sl by simp
    qed
    then show "gives (scope_remove_file r (map lock_name rm ! i)) d' (\<lambda>_. I (Suc i)) (\<lambda>d'. pending r a rm V d' \<and> same_locks r d d')"
      using i nf by simp
  qed
  then show ?thesis by (rule gives_conseq) (simp_all add: I_def)
qed

end
