(* ===== verification/Storage_Recover.thy ===== *)
theory Storage_Recover
  imports Storage_Commit
begin

text \<open>
  Transactions as a whole: \<open>recoverable\<close> is what holds of the disk at every moment, \<open>settled\<close> what holds when no commit is
  in progress.  A commit that began is executed by the next process.
\<close>

section \<open>Executing a commit\<close>

definition moved_upto :: "path \<Rightarrow> file_in list \<Rightarrow> view \<Rightarrow> nat \<Rightarrow> disk \<Rightarrow> bool" where
  "moved_upto r a V i d \<longleftrightarrow> (\<forall>j < i. cont d (r @ [fst (a ! j), snd (a ! j)]) = V (fst (a ! j)) (snd (a ! j)))"

lemma move_files_gives:
  assumes p: "pending r a rm V d" and gone: "removed_upto r rm (length rm) d"
  shows "gives (io_each (move_to (temp_of r) r) (map lock_name a)) d
    (\<lambda>_ d'. pending r a rm V d' \<and> same_locks r d d' \<and> removed_upto r rm (length rm) d' \<and> moved_upto r a V (length a) d')
    (\<lambda>d'. pending r a rm V d' \<and> same_locks r d d')"
proof -
  define I where "I i d' \<longleftrightarrow> pending r a rm V d' \<and> same_locks r d d' \<and> removed_upto r rm (length rm) d' \<and> moved_upto r a V i d'" for i d'
  let ?C = "\<lambda>d'. pending r a rm V d' \<and> same_locks r d d'"
  have "gives (io_each (move_to (temp_of r) r) (map lock_name a)) d (\<lambda>_. I (length (map lock_name a))) ?C"
  proof (rule gives_each)
    show "I 0 d" using assms by (simp add: I_def moved_upto_def)
    fix i d' assume i: "i < length (map lock_name a)" and I: "I i d'"
    obtain n f where nf: "a ! i = (n, f)" by force
    then have mem: "(n, f) \<in> set a" using i by (metis length_map nth_mem)
    have pd: "pending r a rm V d'" and sl: "same_locks r d d'" using I by (simp_all add: I_def)
    have ok: "bucket_name n" "component f" using pending_file [OF pd] mem by auto
    let ?p = "temp_of r @ [n, f]" and ?t = "r @ [n, f]"
    have j: "path_join r (lock_name (n, f)) = ?t" "path_join (temp_of r) (lock_name (n, f)) = ?p"
      using ok by (simp_all add: lock_name_def join_in_bucket bucket_component)
    have shape: "shape r d'" using pd by (simp add: pending_def)
    have parent: "path_parent ?t = Some (r @ [n])" using shape by (simp add: path_parent_def shape_def butlast_append)
    have dir: "isdir d' (r @ [n])" using pending_added [OF pd mem] by simp
    have other: "cont d'' (r @ [n', f']) = cont d' (r @ [n', f'])" if "changes {?p, ?t} {} d' d''" "(n', f') \<noteq> (n, f)" for d'' n' f'
      using changes_cont [OF that(1), of "r @ [n', f']"] that(2) by auto
    have step: "I (Suc i) d''" if c: "changes {?p, ?t} {} d' d''" and t: "cont d'' ?t = V n f"
      and p': "cont d'' ?p = V n f \<or> cont d'' ?p = None" for d''
    proof -
      note m = pending_move [OF pd mem c]
      have "removed_upto r rm (length rm) d''"
        unfolding removed_upto_def
      proof (intro allI impI)
        fix j assume j: "j < length rm"
        moreover have "set a \<inter> set rm = {}" using pd by (simp add: pending_def)
        ultimately have "rm ! j \<noteq> (n, f)" using mem by (metis disjoint_iff nth_mem)
        then show "cont d'' (r @ [fst (rm ! j), snd (rm ! j)]) = None"
          using other [OF c, of "fst (rm ! j)" "snd (rm ! j)"] I j by (auto simp: I_def removed_upto_def)
      qed
      moreover have "moved_upto r a V (Suc i) d''"
        unfolding moved_upto_def
      proof (intro allI impI)
        fix j assume j: "j < Suc i"
        show "cont d'' (r @ [fst (a ! j), snd (a ! j)]) = V (fst (a ! j)) (snd (a ! j))"
        proof (cases "a ! j = (n, f)")
          case False
          then have "j < i" using j nf by (cases "j = i") auto
          then show ?thesis using other [OF c, of "fst (a ! j)" "snd (a ! j)"] False I by (auto simp: I_def moved_upto_def)
        qed (use t in simp)
      qed
      ultimately show ?thesis using m p' t same_locks_trans [OF sl] by (auto simp: I_def)
    qed
    have "gives (move_to (temp_of r) r (lock_name (n, f))) d'
        (\<lambda>_ d''. case cont d' ?p of None \<Rightarrow> d'' = d' | Some c \<Rightarrow> changes {?p, ?t} {} d' d'' \<and> cont d'' ?t = Some c \<and> cont d'' ?p = None)
        (\<lambda>d''. cont d' ?p \<noteq> None \<and> changes {?t} {} d' d'')"
      by (rule move_to_gives [OF j(2) _ j(1) _ parent dir]) (use shape_no_dir [OF shape] ok in \<open>auto simp: temp_of_def\<close>)
    then have "gives (move_to (temp_of r) r (lock_name (n, f))) d' (\<lambda>_. I (Suc i)) ?C"
    proof (rule gives_conseq)
      fix d'' :: disk
      assume q: "case cont d' ?p of None \<Rightarrow> d'' = d' | Some c \<Rightarrow> changes {?p, ?t} {} d' d'' \<and> cont d'' ?t = Some c \<and> cont d'' ?p = None"
      show "I (Suc i) d''"
      proof (cases "cont d' ?p")
        case None
        then show ?thesis using q pending_added [OF pd mem] by (intro step) auto
      next
        case (Some c)
        then show ?thesis using q pending_added [OF pd mem] by (intro step) auto
      qed
    next
      fix d'' :: disk assume c: "cont d' ?p \<noteq> None \<and> changes {?t} {} d' d''"
      have c': "changes {?p, ?t} {} d' d''" using c by (auto intro: changes_mono)
      have "cont d'' ?p = V n f" using changes_cont [of "{?t}" "{}" d' d'' ?p] c pending_added [OF pd mem] by (auto simp: temp_of_def)
      then show "?C d''" using pending_move [OF pd mem c'] same_locks_trans [OF sl] by auto
    qed
    then show "gives (move_to (temp_of r) r (map lock_name a ! i)) d' (\<lambda>_. I (Suc i)) ?C" using i nf by simp
  qed
  then show ?thesis by (rule gives_conseq) (simp_all add: I_def)
qed

lemma view_reached:
  assumes p: "pending r a rm V d" and "removed_upto r rm (length rm) d" "moved_upto r a V (length a) d"
  shows "shows_view r V d"
  unfolding shows_view_def
proof (intro allI impI)
  fix n f assume ok: "bucket_name n" "component f"
  consider "(n, f) \<in> set a" | "(n, f) \<in> set rm" | "(n, f) \<notin> set a \<union> set rm" by blast
  then show "cont d (r @ [n, f]) = V n f"
  proof cases
    case 1
    then obtain j where "j < length a" "a ! j = (n, f)" by (metis in_set_conv_nth)
    then show ?thesis using assms(3) by (auto simp: moved_upto_def)
  next
    case 2
    then obtain j where "j < length rm" "rm ! j = (n, f)" by (metis in_set_conv_nth)
    then have "cont d (r @ [n, f]) = None" using assms(2) by (auto simp: removed_upto_def)
    then show ?thesis using p 2 by (simp add: pending_def)
  next
    case 3
    then show ?thesis using p ok by (simp add: pending_def)
  qed
qed

definition tx_of :: "path \<Rightarrow> transaction" where
  "tx_of r = \<lparr>tx_root_fs = r, tx_temp_fs = temp_of r\<rparr>"

lemma execute_commit_gives:
  assumes "pending r a rm V d"
  shows "gives (execute_commit (tx_of r) (lock_of a rm)) d
    (\<lambda>_ d'. pending r a rm V d' \<and> same_locks r d d' \<and> shows_view r V d') (\<lambda>d'. pending r a rm V d' \<and> same_locks r d d')"
  unfolding execute_commit_def tx_of_def lock_of_def transaction.simps commit_lock.simps
proof (rule gives_bind [OF remove_files_gives [OF assms]])
  fix x :: unit and d' assume d': "pending r a rm V d' \<and> same_locks r d d' \<and> removed_upto r rm (length rm) d'"
  show "gives (io_each (move_to (temp_of r) r) (map lock_name a)) d'
    (\<lambda>_ d'. pending r a rm V d' \<and> same_locks r d d' \<and> shows_view r V d') (\<lambda>d'. pending r a rm V d' \<and> same_locks r d d')"
    by (rule gives_conseq [OF move_files_gives]) (use d' in \<open>auto intro: view_reached same_locks_trans\<close>)
qed simp

section \<open>Removing the staging directory\<close>

definition cleared :: "path \<Rightarrow> disk \<Rightarrow> disk \<Rightarrow> bool" where
  "cleared r d d' \<longleftrightarrow> (\<forall>q. dk_files d' q = (if under (temp_of r) q then None else dk_files d q))"

lemma cleared_cont: "cleared r d d' \<Longrightarrow> cont d' q = (if under (temp_of r) q then None else cont d q)"
  by (simp add: cleared_def cont_def)

lemma cleared_dir: "cleared r d d' \<Longrightarrow> isdir d' q \<longleftrightarrow> \<not> under (temp_of r) q \<and> isdir d q"
  by (auto simp: cleared_def isdir_def)

lemma under_temp:
  "under (temp_of r) (state_path r)" "under (temp_of r) (commit_path r)" "bucket_name n \<Longrightarrow> \<not> under (temp_of r) (r @ [n, f])"
  "bucket_name n \<Longrightarrow> \<not> under (temp_of r) (r @ [n])"
  using bucket_not_temp by (auto simp: under_def temp_of_def state_path_def commit_path_def)

lemma cleared_shape: "shape r d \<Longrightarrow> cleared r d d' \<Longrightarrow> shape r d'"
  unfolding shape_def by (simp add: cleared_cont cleared_dir under_temp)

lemma remove_temp_gives:
  assumes "shape r d" "isdir d (temp_of r)"
  shows "gives (scope_remove (temp_of r)) d (\<lambda>_. cleared r d) (\<lambda>d'. d' = d)"
proof -
  have "cont d (temp_of r) = None" using assms(1) shape_no_file(1) by simp
  from scope_remove_gives [OF this] show ?thesis by (rule gives_conseq) (simp_all add: assms(2) cleared_def)
qed

section \<open>Recovery\<close>

definition lock_at :: "path \<Rightarrow> disk \<Rightarrow> state_lock \<Rightarrow> bool" where
  "lock_at r d l \<longleftrightarrow> cont d (state_path r) = Some (lock_bytes l) \<and> from_utf8_ok (sl_process_name l)"

definition settled :: "'h storage_rt \<Rightarrow> path \<Rightarrow> nat \<Rightarrow> stores \<Rightarrow> disk \<Rightarrow> bool" where
  "settled rt r lim M d \<longleftrightarrow> shape r d \<and> (cont d (state_path r) \<noteq> None \<longrightarrow> (\<exists>l. lock_at r d l)) \<and>
    cont d (commit_path r) = None \<and> stored rt r lim M d"

definition committing :: "'h storage_rt \<Rightarrow> path \<Rightarrow> nat \<Rightarrow> stores \<Rightarrow> disk \<Rightarrow> bool" where
  "committing rt r lim M d \<longleftrightarrow> (cont d (state_path r) \<noteq> None \<longrightarrow> (\<exists>l. lock_at r d l)) \<and>
    (\<exists>a rm V. pending r a rm V d \<and> cont d (commit_path r) = Some (commit_bytes (lock_of a rm)) \<and>
      (\<forall>d'. shows_view r V d' \<longrightarrow> stored rt r lim M d'))"

definition recoverable :: "'h storage_rt \<Rightarrow> path \<Rightarrow> nat \<Rightarrow> stores \<Rightarrow> disk \<Rightarrow> bool" where
  "recoverable rt r lim M d \<longleftrightarrow> settled rt r lim M d \<or> committing rt r lim M d"

text \<open>The process that left its lock has ended.\<close>

definition owner_dead :: "process \<Rightarrow> path \<Rightarrow> disk \<Rightarrow> bool" where
  "owner_dead p r d \<longleftrightarrow> (\<forall>l. lock_at r d l \<longrightarrow> \<not> is_running p l)"

lemma lock_at_load: "lock_at r d l \<Longrightarrow> state_lock_load (temp_of r) d = (Ret l, d)"
  by (auto simp: lock_at_def state_path_def intro: state_lock_load_run)

lemma state_lock_missing: "cont d (state_path r) = None \<Longrightarrow> state_lock_load (temp_of r) d = (Fail not_found, d)"
  by (simp add: state_lock_load_def io_bind_def stream_read_missing [OF lock_names(1)] state_path_def)

lemma commit_lock_missing: "cont d (commit_path r) = None \<Longrightarrow> commit_lock_load (temp_of r) d = (Fail not_found, d)"
  by (simp add: commit_lock_load_def io_bind_def stream_read_missing [OF lock_names(2)] commit_path_def)

lemma same_locks_at: "same_locks r d d' \<Longrightarrow> lock_at r d' l \<longleftrightarrow> lock_at r d l"
  by (simp add: same_locks_def lock_at_def)

lemma pending_lines:
  assumes "pending r a rm V d"
  shows "list_all file_line (map lock_name a)" "list_all file_line (map lock_name rm)"
proof -
  have "file_line (lock_name nf)" if "nf \<in> set a \<union> set rm" for nf
    using that assms lock_name_line [of "fst nf" "snd nf"] by (auto simp: pending_def file_ok_def dest: bspec)
  then show "list_all file_line (map lock_name a)" "list_all file_line (map lock_name rm)" by (auto simp: list_all_iff)
qed

lemma committing_keep:
  assumes "pending r a rm V d'" "same_locks r d d'" "cont d (state_path r) \<noteq> None \<longrightarrow> (\<exists>l. lock_at r d l)"
    "cont d (commit_path r) = Some (commit_bytes (lock_of a rm))" "\<forall>d'. shows_view r V d' \<longrightarrow> stored rt r lim M d'"
  shows "committing rt r lim M d'"
  unfolding committing_def
proof (intro conjI)
  show "cont d' (state_path r) \<noteq> None \<longrightarrow> (\<exists>l. lock_at r d' l)" using assms(2,3) by (simp add: same_locks_def lock_at_def)
  have "cont d' (commit_path r) = Some (commit_bytes (lock_of a rm))" using assms(2,4) by (simp add: same_locks_def)
  then show "\<exists>a rm V. pending r a rm V d' \<and> cont d' (commit_path r) = Some (commit_bytes (lock_of a rm)) \<and>
      (\<forall>d'. shows_view r V d' \<longrightarrow> stored rt r lim M d')" using assms(1,5) by blast
qed

lemma ensure_committed_gives:
  assumes rec: "recoverable rt r lim M d" and dead: "owner_dead p r d"
  shows "gives (ensure_committed p r) d (\<lambda>_ d'. settled rt r lim M d' \<and> (cont d (commit_path r) = None \<longrightarrow> d' = d) \<and> (\<forall>l. lock_at r d' l \<longrightarrow> lock_at r d l))
    (\<lambda>d'. recoverable rt r lim M d' \<and> (\<forall>l. lock_at r d' l \<longrightarrow> lock_at r d l))"
    (is "gives _ _ ?Q ?C")
proof -
  have ex: "cont d (state_path r) \<noteq> None \<longrightarrow> (\<exists>l. lock_at r d l)"
    using rec by (auto simp: recoverable_def settled_def committing_def)
  have found: "\<exists>l. if_found (state_lock_load (temp_of r)) d = (Ret l, d) \<and> \<not> (case l of Some l \<Rightarrow> is_running p l | None \<Rightarrow> False)"
  proof (cases "cont d (state_path r)")
    case None
    then show ?thesis using if_found_missing [where m = "state_lock_load (temp_of r)", OF state_lock_missing] by fastforce
  next
    case (Some c)
    then obtain l where l: "lock_at r d l" using ex by auto
    then show ?thesis
      using if_found_run [where m = "state_lock_load (temp_of r)", OF lock_at_load [OF l]] dead by (auto simp: owner_dead_def)
  qed
  have "gives (io_bind (if_found (commit_lock_load (temp_of r))) (\<lambda>commit_lock. case commit_lock of
      None \<Rightarrow> io_return ()
    | Some l \<Rightarrow> io_bind (execute_commit (tx_of r) l) (\<lambda>_. scope_remove (temp_of r)))) d ?Q ?C"
  proof (cases "settled rt r lim M d")
    case s: True
    then have "cont d (commit_path r) = None" by (simp add: settled_def)
    then have none: "if_found (commit_lock_load (temp_of r)) d = (Ret None, d)"
      by (intro if_found_missing commit_lock_missing)
    show ?thesis
      by (rule gives_bind_ret [where m = "if_found (commit_lock_load (temp_of r))", OF none]) (use s in \<open>simp add: gives_return\<close>)
  next
    case False
    then have "committing rt r lim M d" using rec by (simp add: recoverable_def)
    then obtain a rm V where p: "pending r a rm V d" and c: "cont d (commit_path r) = Some (commit_bytes (lock_of a rm))"
      and V: "\<forall>d'. shows_view r V d' \<longrightarrow> stored rt r lim M d'" by (auto simp: committing_def)
    have "list_all file_line (cl_added_files (lock_of a rm))" "list_all file_line (cl_removed_files (lock_of a rm))"
      using pending_lines [OF p] by (simp_all add: lock_of_def)
    from commit_lock_load_run [OF c [unfolded commit_path_def] this]
    have load: "if_found (commit_lock_load (temp_of r)) d = (Ret (Some (lock_of a rm)), d)" by (rule if_found_run)
    have crash: "?C d'" if d': "pending r a rm V d'" "same_locks r d d'" for d'
    proof -
      have "committing rt r lim M d'" by (rule committing_keep [OF d' ex c V])
      then show ?thesis using same_locks_at [OF d'(2)] by (simp add: recoverable_def)
    qed
    show ?thesis
    proof (rule gives_bind_ret [where m = "if_found (commit_lock_load (temp_of r))", OF load], unfold option.case,
        rule gives_bind [OF execute_commit_gives [OF p]])
      fix x :: unit and d' assume d': "pending r a rm V d' \<and> same_locks r d d' \<and> shows_view r V d'"
      have shape: "shape r d'" "isdir d' (temp_of r)" using d' by (simp_all add: pending_def)
      show "gives (scope_remove (temp_of r)) d' ?Q ?C"
      proof (rule gives_conseq [OF remove_temp_gives [OF shape]])
        fix d'' assume d'': "cleared r d' d''"
        have "shows_view r V d''" using d' under_temp(3) by (simp add: shows_view_def cleared_cont [OF d''])
        then show "?Q () d''"
          using V cleared_shape [OF shape(1) d''] under_temp(1,2) c by (simp add: settled_def lock_at_def cleared_cont [OF d''])
      qed (use d' crash in auto)
    qed (use crash in blast)
  qed
  then show ?thesis
    using found unfolding ensure_committed_def temp_fs_of_temp Let_def tx_of_def
    by (elim exE conjE) (rule gives_bind_ret [where m = "if_found (state_lock_load (temp_of r))"], assumption, simp)
qed

section \<open>Transactions\<close>

definition process_ok :: "process \<Rightarrow> bool" where
  "process_ok p \<longleftrightarrow> from_utf8_ok (sl_process_name (state_lock_default p))"

text \<open>The buckets and their directories are as before.\<close>

definition same_buckets :: "path \<Rightarrow> disk \<Rightarrow> disk \<Rightarrow> bool" where
  "same_buckets r d d' \<longleftrightarrow> (\<forall>n. bucket_name n \<longrightarrow> (isdir d (r @ [n]) \<longrightarrow> isdir d' (r @ [n])) \<and>
    (\<forall>f. component f \<longrightarrow> cont d' (r @ [n, f]) = cont d (r @ [n, f])))"

lemma same_buckets_refl [simp]: "same_buckets r d d"
  by (simp add: same_buckets_def)

lemma same_buckets_trans: "same_buckets r d d' \<Longrightarrow> same_buckets r d' d'' \<Longrightarrow> same_buckets r d d''"
  by (simp add: same_buckets_def)

lemma same_buckets_stored: "stored rt r lim M d \<Longrightarrow> same_buckets r d d' \<Longrightarrow> stored rt r lim M d'"
  by (erule stored_cong) (simp add: same_buckets_def)

lemma same_buckets_holds: "holds_map rt r lim d n m b \<Longrightarrow> bucket_name n \<Longrightarrow> same_buckets r d d' \<Longrightarrow> holds_map rt r lim d' n m b"
  by (erule holds_map_cong) (simp add: same_buckets_def)

lemma changes_same_buckets:
  assumes "changes cs ds d d'" "\<And>n f. bucket_name n \<Longrightarrow> component f \<Longrightarrow> r @ [n, f] \<notin> cs"
  shows "same_buckets r d d'"
  using changes_cont [OF assms(1) assms(2)] changes_dir [OF assms(1)] by (simp add: same_buckets_def)

lemma settled_changes:
  assumes s: "settled rt r lim M d" and c: "changes cs ds d d'" and sub: "cs \<subseteq> cache_files r" "ds \<subseteq> cache_dirs r"
    and cs: "\<And>n f. bucket_name n \<Longrightarrow> component f \<Longrightarrow> r @ [n, f] \<notin> cs"
    and locks: "cont d' (commit_path r) = None" "cont d' (state_path r) \<noteq> None \<longrightarrow> (\<exists>l. lock_at r d' l)"
  shows "settled rt r lim M d'"
  unfolding settled_def
proof (intro conjI)
  show "shape r d'" "stored rt r lim M d'"
    using s shape_changes [OF _ c sub] cs same_buckets_stored [where rt = rt, OF _ changes_same_buckets [OF c cs]] by (simp_all add: settled_def)
qed (use locks in simp_all)

text \<open>A disk on which a process has begun a transaction.\<close>

definition begun :: "process \<Rightarrow> path \<Rightarrow> disk \<Rightarrow> bool" where
  "begun p r d \<longleftrightarrow> shape r d \<and> isdir d (temp_of r) \<and> lock_at r d (state_lock_default p) \<and> cont d (commit_path r) = None"

lemma transaction_new_gives:
  assumes rec: "recoverable rt r lim M d" and dead: "owner_dead p r d" and p: "process_ok p"
  shows "gives (transaction_new p r) d
    (\<lambda>t d'. t = tx_of r \<and> settled rt r lim M d' \<and> begun p r d' \<and> (cont d (commit_path r) = None \<longrightarrow> same_buckets r d d'))
    (recoverable rt r lim M)"
  unfolding transaction_new_def temp_fs_of_temp Let_def
proof (rule gives_bind [OF ensure_committed_gives [OF rec dead]])
  let ?Q = "\<lambda>t d'. t = tx_of r \<and> settled rt r lim M d' \<and> begun p r d' \<and> (cont d (commit_path r) = None \<longrightarrow> same_buckets r d d')"
  let ?l = "state_lock_default p"
  fix x :: unit and d1 assume d1: "settled rt r lim M d1 \<and> (cont d (commit_path r) = None \<longrightarrow> d1 = d) \<and> (\<forall>l. lock_at r d1 l \<longrightarrow> lock_at r d l)"
  then have s1: "settled rt r lim M d1" and shape: "shape r d1" by (simp_all add: settled_def)
  show "gives (io_bind (ensure_exist (temp_of r)) (\<lambda>_. io_bind (state_lock_save ?l (temp_of r)) (\<lambda>_.
      io_return \<lparr>tx_root_fs = r, tx_temp_fs = temp_of r\<rparr>))) d1 ?Q (recoverable rt r lim M)"
    unfolding ensure_exist_def
  proof (rule gives_bind [OF create_dir_all_gives [OF shape_no_file(1) [OF shape]]])
    have keep: "settled rt r lim M d2" if "changes {} {q. prefix q (temp_of r)} d1 d2" for d2
    proof (rule settled_changes [OF s1 that])
      have "cont d2 q = cont d1 q" for q using changes_cont [OF that] by simp
      then show "cont d2 (commit_path r) = None" "cont d2 (state_path r) \<noteq> None \<longrightarrow> (\<exists>l. lock_at r d2 l)"
        using s1 by (simp_all add: settled_def lock_at_def)
    qed (use dirs_sub(1) in \<open>simp_all add: dirs_to_def\<close>)
    show "recoverable rt r lim M d2" if "changes {} {q. prefix q (temp_of r)} d1 d2" for d2
      using keep [OF that] by (simp add: recoverable_def)
    fix x :: unit and d2 assume d2: "changes {} {q. prefix q (temp_of r)} d1 d2 \<and> isdir d2 (temp_of r)"
    then have s2: "settled rt r lim M d2" and shape2: "shape r d2" using keep by (auto simp: settled_def)
    have save: "gives (state_lock_save ?l (temp_of r)) d2
        (\<lambda>_ d'. changes {state_path r} (dirs_to (temp_of r)) d2 d' \<and> cont d' (state_path r) = Some (lock_bytes ?l))
        (\<lambda>d'. changes {state_path r} (dirs_to (temp_of r)) d2 d' \<and> cont d' (state_path r) \<in> {cont d2 (state_path r), None})"
      unfolding state_lock_save_write state_path_def by (rule write_lock_gives [OF shape2]) simp
    have keep3: "settled rt r lim M d3 \<and> cont d3 (commit_path r) = None \<and> same_buckets r d1 d3"
      if c: "changes {state_path r} (dirs_to (temp_of r)) d2 d3" and l: "cont d3 (state_path r) \<in> {cont d2 (state_path r), None, Some (lock_bytes ?l)}" for d3
    proof -
      have cp: "cont d3 (commit_path r) = None" using changes_cont [OF c, of "commit_path r"] s2 by (simp add: settled_def)
      have "settled rt r lim M d3"
      proof (rule settled_changes [OF s2 c _ _ _ cp])
        show "cont d3 (state_path r) \<noteq> None \<longrightarrow> (\<exists>l. lock_at r d3 l)"
          using l s2 p by (auto simp: settled_def lock_at_def process_ok_def)
      qed simp_all
      moreover have "same_buckets r d1 d3"
        by (rule same_buckets_trans [OF changes_same_buckets [OF conjunct1 [OF d2]] changes_same_buckets [OF c]]) simp_all
      ultimately show ?thesis using cp by simp
    qed
    show "gives (io_bind (state_lock_save ?l (temp_of r)) (\<lambda>_. io_return \<lparr>tx_root_fs = r, tx_temp_fs = temp_of r\<rparr>)) d2 ?Q (recoverable rt r lim M)"
    proof (rule gives_bind [OF save])
      show "recoverable rt r lim M d3" if "changes {state_path r} (dirs_to (temp_of r)) d2 d3 \<and> cont d3 (state_path r) \<in> {cont d2 (state_path r), None}" for d3
        using keep3 [of d3] that by (auto simp: recoverable_def)
      fix x :: unit and d3 assume d3: "changes {state_path r} (dirs_to (temp_of r)) d2 d3 \<and> cont d3 (state_path r) = Some (lock_bytes ?l)"
      have k: "settled rt r lim M d3 \<and> cont d3 (commit_path r) = None \<and> same_buckets r d1 d3" using keep3 d3 by simp
      have "isdir d3 (temp_of r)" using changes_dir [OF conjunct1 [OF d3]] d2 by simp
      then have "begun p r d3" using k d3 p by (simp add: begun_def settled_def lock_at_def process_ok_def)
      then show "gives (io_return \<lparr>tx_root_fs = r, tx_temp_fs = temp_of r\<rparr>) d3 ?Q (recoverable rt r lim M)"
        using k d1 by (intro gives_return) (auto simp: tx_of_def)
    qed
  qed
qed (simp add: recoverable_def)

lemma try_run: "m d = (Ret x, d) \<Longrightarrow> io_try m d = (Ret (Inr x), d)"
  by (simp add: io_try_def)

lemma transaction_commit_gives:
  assumes b: "begun p r d" and old: "stored rt r lim M d" and p: "pending r a rm V d"
    and V: "\<forall>d'. shows_view r V d' \<longrightarrow> stored rt r lim' M' d'"
  shows "gives (transaction_commit p (map lock_name a) (map lock_name rm) (tx_of r)) d
    (\<lambda>_ d'. settled rt r lim' M' d' \<and> cont d' (state_path r) = None \<and> shows_view r V d' \<and> (\<forall>n. bucket_name n \<longrightarrow> isdir d (r @ [n]) \<longrightarrow> isdir d' (r @ [n])))
    (\<lambda>d'. recoverable rt r lim M d' \<or> recoverable rt r lim' M' d')"
    (is "gives _ _ ?Q ?C")
proof -
  let ?l = "state_lock_default p" and ?T = "temp_of r"
  have shape: "shape r d" and lock: "lock_at r d ?l" and none: "cont d (commit_path r) = None" and dir: "isdir d ?T"
    using b by (simp_all add: begun_def)
  have s: "settled rt r lim M d" unfolding settled_def using shape lock none old by blast
  have load: "io_try (state_lock_load ?T) d = (Ret (Inr ?l), d)" using lock_at_load [OF lock] by (rule try_run)
  have cur: "is_current p ?l" by (simp add: is_current_def state_lock_default_def)
  have save: "gives (io_try (commit_lock_save (lock_of a rm) ?T)) d
      (\<lambda>x d'. x = Inr () \<and> changes {commit_path r} (dirs_to ?T) d d' \<and> cont d' (commit_path r) = Some (commit_bytes (lock_of a rm))) ?C"
    unfolding commit_lock_save_write
  proof (rule gives_conseq [OF gives_try [OF write_lock_gives [OF shape]]])
    fix d' assume c: "changes {?T @ [commit_lock_file]} (dirs_to ?T) d d' \<and> cont d' (?T @ [commit_lock_file]) \<in> {cont d (?T @ [commit_lock_file]), None}"
    have "cont d' (state_path r) = cont d (state_path r)" 
      using changes_cont [OF conjunct1 [OF c], of "state_path r"] by (simp flip: commit_path_def)
    then have state: "lock_at r d' ?l" using lock by (simp add: lock_at_def)
    have none': "cont d' (commit_path r) = None" using c none by (simp flip: commit_path_def)
    have "settled rt r lim M d'"
    proof (rule settled_changes [OF s conjunct1 [OF c [folded commit_path_def]] _ _ _ none'])
      show "cont d' (state_path r) \<noteq> None \<longrightarrow> (\<exists>l. lock_at r d' l)" using state by blast
    qed simp_all
    then show "?C d'" by (simp add: recoverable_def)
  qed (auto simp: commit_path_def)
  have rest: "gives (io_bind (io_try (execute_commit (tx_of r) (lock_of a rm))) (\<lambda>x. case x of
      Inl e \<Rightarrow> io_bind (io_ignore (state_lock_remove ?T)) (\<lambda>_. io_fail e)
    | Inr _ \<Rightarrow> io_ignore (scope_remove ?T))) d1 ?Q ?C"
    if c: "changes {commit_path r} (dirs_to ?T) d d1" and cb: "cont d1 (commit_path r) = Some (commit_bytes (lock_of a rm))" for d1
  proof -
    have same: "cont d1 q = cont d q" if "q \<noteq> commit_path r" for q using changes_cont [OF c] that by simp
    have "shape r d1" by (rule shape_changes [OF shape c]) simp_all
    then have p1: "pending r a rm V d1"
    proof (rule pending_step [OF p _ changes_dir [OF c]])
      fix n f assume nf: "(n, f) \<in> set a"
      have "bucket_name n" using pending_file [OF p] nf by blast
      then show "cont d1 (temp_of r @ [n, f]) = V n f \<or> cont d1 (temp_of r @ [n, f]) = None \<and> cont d1 (r @ [n, f]) = V n f"
        using pending_added [OF p nf] by (simp add: same)
    next
      fix n f assume "bucket_name n"
      then show "cont d1 (r @ [n, f]) = cont d (r @ [n, f])" by (simp add: same)
    qed
    have lock1: "cont d1 (state_path r) \<noteq> None \<longrightarrow> (\<exists>l. lock_at r d1 l)" using lock by (auto simp: lock_at_def same)
    have crash: "?C d'" if "pending r a rm V d' \<and> same_locks r d1 d'" for d'
      using committing_keep [OF _ _ lock1 cb V] that by (simp add: recoverable_def)
    show ?thesis
    proof (rule gives_bind [OF gives_try [OF execute_commit_gives [OF p1]]])
      fix x :: "storage_error + unit" and d2 assume "\<exists>y. x = Inr y \<and> pending r a rm V d2 \<and> same_locks r d1 d2 \<and> shows_view r V d2"
      then have x: "\<exists>y. x = Inr y" and d2: "pending r a rm V d2" "same_locks r d1 d2" "shows_view r V d2" by auto
      have shape2: "shape r d2" "isdir d2 ?T" using d2(1) by (simp_all add: pending_def)
      have "gives (io_ignore (scope_remove ?T)) d2 ?Q ?C"
      proof (rule gives_conseq [OF gives_ignore [OF remove_temp_gives [OF shape2]]])
        fix y :: unit and d3 assume "\<exists>x :: unit. cleared r d2 d3"
        then have d3: "cleared r d2 d3" by simp
        have view: "shows_view r V d3" using d2(3) under_temp(3) by (simp add: shows_view_def cleared_cont [OF d3])
        then have "settled rt r lim' M' d3 \<and> cont d3 (state_path r) = None"
          using V cleared_shape [OF shape2(1) d3] under_temp(1,2) by (simp add: settled_def cleared_cont [OF d3])
        moreover have "isdir d3 (r @ [n])" if "bucket_name n" "isdir d (r @ [n])" for n
          using that changes_dir [OF c] d2(2) under_temp(4) by (simp add: cleared_dir [OF d3] same_locks_def)
        ultimately show "?Q y d3" using view by simp
      qed (use d2 crash in blast)
      then show "gives (case x of Inl e \<Rightarrow> io_bind (io_ignore (state_lock_remove ?T)) (\<lambda>_. io_fail e) | Inr _ \<Rightarrow> io_ignore (scope_remove ?T)) d2 ?Q ?C"
        using x by auto
    qed (use crash in blast)
  qed
  have tx: "tx_temp_fs (tx_of r) = ?T" by (simp add: tx_of_def)
  show ?thesis
    unfolding transaction_commit_def
  proof (rule gives_bind_ret [where m = "io_try (state_lock_load (tx_temp_fs (tx_of r)))"])
    show "io_try (state_lock_load (tx_temp_fs (tx_of r))) d = (Ret (Inr ?l), d)" using load by (simp add: tx_of_def)
    have "gives (io_bind (io_try (commit_lock_save (lock_of a rm) ?T)) (\<lambda>x. case x of
        Inl e \<Rightarrow> io_bind (io_ignore (scope_remove ?T)) (\<lambda>_. io_fail e)
      | Inr _ \<Rightarrow> io_bind (io_try (execute_commit (tx_of r) (lock_of a rm))) (\<lambda>x. case x of
          Inl e \<Rightarrow> io_bind (io_ignore (state_lock_remove ?T)) (\<lambda>_. io_fail e)
        | Inr _ \<Rightarrow> io_ignore (scope_remove ?T)))) d ?Q ?C"
      by (rule gives_bind [OF save]) (use rest in \<open>auto split del: if_split\<close>)
    then show "gives (case Inr ?l of Inl e \<Rightarrow> io_bind (io_ignore (scope_remove (tx_temp_fs (tx_of r)))) (\<lambda>_. io_fail e)
      | Inr l \<Rightarrow> if \<not> is_current p l then io_panic
          else let commit_lock = \<lparr>cl_added_files = map lock_name a, cl_removed_files = map lock_name rm\<rparr>
            in io_bind (io_try (commit_lock_save commit_lock (tx_temp_fs (tx_of r)))) (\<lambda>x. case x of
                Inl e \<Rightarrow> io_bind (io_ignore (scope_remove (tx_temp_fs (tx_of r)))) (\<lambda>_. io_fail e)
              | Inr _ \<Rightarrow> io_bind (io_try (execute_commit (tx_of r) commit_lock)) (\<lambda>x. case x of
                  Inl e \<Rightarrow> io_bind (io_ignore (state_lock_remove (tx_temp_fs (tx_of r)))) (\<lambda>_. io_fail e)
                | Inr _ \<Rightarrow> io_ignore (scope_remove (tx_temp_fs (tx_of r)))))) d ?Q ?C"
      unfolding Let_def sum.case tx lock_of_def [symmetric] using cur by simp
  qed
qed

end
