(* ===== verification/Storage_Safe.thy ===== *)
theory Storage_Safe
  imports Storage_Recover
begin

text \<open>
  Saving and loading as a whole: a save replaces the maps of the buckets all at once, also when the process dies at any
  change of the disk, and what is loaded is what was saved.
\<close>

section \<open>Changes of the maps\<close>

definition apply_changes :: "changes \<Rightarrow> (u8 list \<rightharpoonup> u8 list) \<Rightarrow> u8 list \<rightharpoonup> u8 list" where
  "apply_changes ch m k = (case map_of ch k of None \<Rightarrow> m k | Some v \<Rightarrow> v)"

definition save_maps :: "(u8 list \<times> changes) list \<Rightarrow> stores \<Rightarrow> stores" where
  "save_maps cs M n = (case map_of cs n of None \<Rightarrow> M n | Some ch \<Rightarrow> apply_changes ch (M n))"

lemma map_of_new_entries:
  assumes "distinct (map fst ch)"
  shows "map_of (new_entries ch) k = (case map_of ch k of Some v \<Rightarrow> v | None \<Rightarrow> None)"
  using assms
proof (induction ch)
  case (Cons kv ch)
  obtain k' v where kv: "kv = (k', v)" by force
  have "map_of (new_entries ch) k' = None"
    using Cons.prems new_entries_keys [of ch] by (auto simp: kv map_of_eq_None_iff)
  then show ?case using Cons by (cases v) (auto simp: kv)
qed simp

lemma entry_map_save:
  assumes u: "unique_keys e" and dist: "distinct (map fst ch)"
  shows "entry_map (save_items ch e) = apply_changes ch (entry_map e)"
proof
  fix k
  note u' = unique_save [OF u dist]
  have "entry_map (save_items ch e) k = Some v \<longleftrightarrow> apply_changes ch (entry_map e) k = Some v" for v
  proof -
    have "(k, v) \<in># save_items ch e \<longleftrightarrow> (k, v) \<in># e \<and> k \<notin> fst ` set ch \<or> map_of (new_entries ch) k = Some v"
      using map_of_eq_Some_iff [OF new_entries_distinct [OF dist]] by (auto simp: save_items_def)
    also have "\<dots> \<longleftrightarrow> apply_changes ch (entry_map e) k = Some v"
    proof (cases "map_of ch k")
      case None
      then have "k \<notin> fst ` set ch" by (simp add: map_of_eq_None_iff)
      then show ?thesis using None by (simp add: apply_changes_def map_of_new_entries [OF dist] entry_map_Some [OF u])
    next
      case (Some w)
      then have "k \<in> fst ` set ch" by (metis domI dom_map_of_conv_image_fst)
      then show ?thesis using Some by (simp add: apply_changes_def map_of_new_entries [OF dist])
    qed
    finally show ?thesis by (simp add: entry_map_Some [OF u'])
  qed
  then show "entry_map (save_items ch e) k = apply_changes ch (entry_map e) k" by (metis not_Some_eq)
qed

lemma unique_count:
  assumes "unique_keys e"
  shows "count (image_mset fst e) k = (if k \<in> fst ` set_mset e then 1 else 0)"
proof (cases "k \<in> fst ` set_mset e")
  case True
  then have "k \<in># image_mset fst e" by simp
  then have "1 \<le> count (image_mset fst e) k" by (simp only: count_greater_eq_one_iff)
  moreover have "count (image_mset fst e) k \<le> 1" using assms by (simp only: unique_keys_def)
  ultimately show ?thesis using True by (simp only: if_True le_antisym)
next
  case False
  then have "k \<notin># image_mset fst e" by simp
  then show ?thesis using False by (simp only: not_in_iff if_False)
qed

lemma size_entries:
  assumes "unique_keys e"
  shows "size e = card (dom (entry_map e))"
proof -
  have "image_mset fst e = mset_set (fst ` set_mset e)" by (rule multiset_eqI) (simp add: unique_count [OF assms] count_mset_set')
  then have "size e = card (fst ` set_mset e)" by (metis size_image_mset size_mset_set)
  moreover have "dom (entry_map e) = fst ` set_mset e" by (rule set_eqI) (simp only: domIff entry_map_None not_not)
  ultimately show ?thesis by simp
qed

lemma map_of_entries:
  assumes "unique_keys (mset data)"
  shows "map_of data = entry_map (mset data)" "distinct (map fst data)"
proof -
  have "count (mset (map fst data)) k = (if k \<in> set (map fst data) then 1 else 0)" for k
    using unique_count [OF assms, of k] by simp
  then show d: "distinct (map fst data)" by (simp only: distinct_count_atmost_1) blast
  show "map_of data = entry_map (mset data)"
  proof
    fix k
    have "map_of data k = Some v \<longleftrightarrow> entry_map (mset data) k = Some v" for v
      using map_of_eq_Some_iff [OF d] entry_map_Some [OF assms] by simp
    then show "map_of data k = entry_map (mset data) k" by (metis not_Some_eq)
  qed
qed

section \<open>Staging the buckets of a save\<close>

text \<open>What a save asks of its changes, with at most \<open>room\<close> entries in a changed bucket.\<close>

definition changes_ok :: "(u8 list \<times> changes) list \<Rightarrow> stores \<Rightarrow> nat \<Rightarrow> bool" where
  "changes_ok cs M room \<longleftrightarrow> distinct (map fst cs) \<and>
    (\<forall>(n, ch) \<in> set cs. bucket_name n \<and> distinct (map fst ch) \<and> storable (new_entries ch) \<and> card (dom (save_maps cs M n)) \<le> room)"

definition prepared :: "'h storage_rt \<Rightarrow> path \<Rightarrow> nat \<Rightarrow> file_in set \<Rightarrow> file_in set \<Rightarrow> disk \<Rightarrow> u8 list \<Rightarrow> (u8 list \<rightharpoonup> u8 list) \<Rightarrow> bucket \<Rightarrow> bool" where
  "prepared rt r lim a rm d n m b \<longleftrightarrow> bk_fs b = r @ [n] \<and> isdir d (r @ [n]) \<and> pa_next (bm_pack_id_alloc (bk_meta b)) \<le> lim \<and>
    (\<forall>f. (n, f) \<in> a \<longrightarrow> component f \<and> cont d (temp_of r @ [n, f]) \<noteq> None) \<and>
    (\<exists>cold. entry_map (bucket_items b cold) = m \<and>
      (\<forall>d'. (\<forall>f. component f \<longrightarrow> cont d' (r @ [n, f]) =
          (if (n, f) \<in> a then cont d (temp_of r @ [n, f]) else if (n, f) \<in> rm then None else cont d (r @ [n, f]))) \<longrightarrow>
        bucket_at rt d' b cold))"

lemma prepared_cong:
  assumes p: "prepared rt r lim a rm d n m b"
    and same: "\<And>f. (n, f) \<in> a' \<longleftrightarrow> (n, f) \<in> a" "\<And>f. (n, f) \<in> rm' \<longleftrightarrow> (n, f) \<in> rm"
    and c: "\<And>f. component f \<Longrightarrow> cont d1 (temp_of r @ [n, f]) = cont d (temp_of r @ [n, f]) \<and> cont d1 (r @ [n, f]) = cont d (r @ [n, f])"
    and dir: "isdir d (r @ [n]) \<Longrightarrow> isdir d1 (r @ [n])"
  shows "prepared rt r lim a' rm' d1 n m b"
proof -
  obtain cold where cold: "entry_map (bucket_items b cold) = m"
    "\<And>d'. (\<And>f. component f \<Longrightarrow> cont d' (r @ [n, f]) =
        (if (n, f) \<in> a then cont d (temp_of r @ [n, f]) else if (n, f) \<in> rm then None else cont d (r @ [n, f]))) \<Longrightarrow> bucket_at rt d' b cold"
    using p unfolding prepared_def by blast
  have "bucket_at rt d' b cold" if "\<forall>f. component f \<longrightarrow> cont d' (r @ [n, f]) =
      (if (n, f) \<in> a' then cont d1 (temp_of r @ [n, f]) else if (n, f) \<in> rm' then None else cont d1 (r @ [n, f]))" for d'
    using that c same by (intro cold(2)) simp
  then show ?thesis using p same c dir cold(1) unfolding prepared_def by auto
qed

definition temp_files :: "path \<Rightarrow> path set" where
  "temp_files r = {temp_of r @ [n, f] | n f. bucket_name n \<and> component f}"

lemma temp_files_sub: "temp_files r \<subseteq> cache_files r"
  by (auto simp: temp_files_def cache_files_def)

lemma temp_files_not [simp]: "r @ [n, f] \<notin> temp_files r" "state_path r \<notin> temp_files r" "commit_path r \<notin> temp_files r"
  by (auto simp: temp_files_def)

text \<open>The cached buckets are those of the disk.\<close>

definition cache_ok :: "'h storage_rt \<Rightarrow> path \<Rightarrow> nat \<Rightarrow> stores \<Rightarrow> (u8 list \<rightharpoonup> bucket) \<Rightarrow> disk \<Rightarrow> bool" where
  "cache_ok rt r lim M c d \<longleftrightarrow> (\<forall>n b. c n = Some b \<longrightarrow> bucket_name n \<and> isdir d (r @ [n]) \<and> holds_map rt r lim d n (M n) b)"

lemma child_bucket: "bucket_name n \<Longrightarrow> child_fs s n = s @ [n]"
  by (simp add: child_fs_def join_component bucket_component)

lemma get_bucket_gives:
  assumes st: "stored rt r lim M d" and c: "cache_ok rt r lim M c d" and shape: "shape r d" and n: "bucket_name n" and rt: "rt_ok rt"
  shows "gives (case c n of Some b \<Rightarrow> io_return b | None \<Rightarrow> bucket_new rt (child_fs r n)) d
    (\<lambda>b d'. holds_map rt r lim d' n (M n) b \<and> isdir d' (r @ [n]) \<and> changes {} (cache_dirs r) d d') (changes {} (cache_dirs r) d)"
proof (cases "c n")
  case None
  obtain b cold where b: "holds_map rt r lim d n (M n) b" "bk_fs b = r @ [n]" "bucket_at rt d b cold"
    using st n unfolding stored_def holds_map_def by blast
  have "\<forall>q. prefix q (bk_fs b) \<longrightarrow> cont d q = None" using shape_no_file(2) [OF shape n] b(2) by simp
  from bucket_new_gives [OF b(3) rt this]
  have "gives (bucket_new rt (r @ [n])) d (\<lambda>b' d'. b' = b \<and> changes {} (dirs_to (r @ [n])) d d' \<and> isdir d' (r @ [n])) (changes {} (dirs_to (r @ [n])) d)"
    by (simp add: b(2))
  then show ?thesis
    unfolding None option.case child_bucket [OF n]
  proof (rule gives_conseq)
    fix b' d' assume d': "b' = b \<and> changes {} (dirs_to (r @ [n])) d d' \<and> isdir d' (r @ [n])"
    then have ch: "changes {} (cache_dirs r) d d'" using n by (auto intro: changes_mono [OF _ order_refl dirs_sub(2)])
    have "holds_map rt r lim d' n (M n) b" by (rule holds_map_cong [OF b(1)]) (use changes_cont [OF ch] in simp)
    then show "holds_map rt r lim d' n (M n) b' \<and> isdir d' (r @ [n]) \<and> changes {} (cache_dirs r) d d'" using d' ch by simp
  qed (rule changes_mono [OF _ order_refl dirs_sub(2) [OF n]])
next
  case (Some b)
  then show ?thesis using c by (simp add: cache_ok_def gives_return)
qed

text \<open>After some of the changes: their buckets are staged.\<close>

definition staged_upto :: "'h storage_rt \<Rightarrow> path \<Rightarrow> nat \<Rightarrow> (u8 list \<times> changes) list \<Rightarrow> stores \<Rightarrow> disk \<Rightarrow> nat \<Rightarrow> save_acc \<Rightarrow> disk \<Rightarrow> bool" where
  "staged_upto rt r lim cs M d i acc d' \<longleftrightarrow> changes (temp_files r) (cache_dirs r) d d' \<and>
    (\<exists>a rm. sa_add acc = map lock_name a \<and> sa_remove acc = map lock_name rm \<and> set a \<inter> set rm = {} \<and>
      (\<forall>nf \<in> set a \<union> set rm. file_ok nf \<and> fst nf \<in> set (map fst (take i cs))) \<and>
      dom (sa_buckets acc) = set (map fst (take i cs)) \<and>
      (\<forall>n b. sa_buckets acc n = Some b \<longrightarrow> prepared rt r lim (set a) (set rm) d' n (save_maps cs M n) b))"

lemma changes_into: "changes cs ds d d' \<Longrightarrow> changes cs' ds' d' d'' \<Longrightarrow> cs' \<subseteq> cs \<Longrightarrow> ds' \<subseteq> ds \<Longrightarrow> changes cs ds d d''"
  by (rule changes_trans) (auto intro: changes_mono)

lemma staged_next:
  assumes I: "staged_upto rt r lim cs M d i acc d0" and i: "i < length cs" "cs ! i = (n, ch)" and cs: "distinct (map fst cs)" "bucket_name n"
    and c0: "changes {} (cache_dirs r) d0 d1" and h: "isdir d1 (r @ [n])" "bk_fs b = r @ [n]" "pa_next (bm_pack_id_alloc (bk_meta b)) + size e \<le> lim"
    and s: "staged rt (temp_of r @ [n]) d1 b e (b', added, removed) d2" and e: "entry_map e = save_maps cs M n"
  shows "staged_upto rt r lim cs M d (Suc i)
    \<lparr>sa_buckets = (sa_buckets acc)(n \<mapsto> b'), sa_add = sa_add acc @ map (in_bucket n) added, sa_remove = sa_remove acc @ map (in_bucket n) removed\<rparr> d2"
proof -
  obtain a rm where a: "sa_add acc = map lock_name a" "sa_remove acc = map lock_name rm" "set a \<inter> set rm = {}"
    "\<forall>nf \<in> set a \<union> set rm. file_ok nf \<and> fst nf \<in> set (map fst (take i cs))" "dom (sa_buckets acc) = set (map fst (take i cs))"
    "\<forall>n b. sa_buckets acc n = Some b \<longrightarrow> prepared rt r lim (set a) (set rm) d0 n (save_maps cs M n) b"
    using I unfolding staged_upto_def by blast
  define a' where "a' = a @ map (Pair n) added"
  define rm' where "rm' = rm @ map (Pair n) removed"
  have sub: "files_of (temp_of r @ [n]) \<subseteq> temp_files r" "dirs_to (temp_of r @ [n]) \<subseteq> cache_dirs r"
    using cs(2) by (auto simp: files_of_def temp_files_def)
  have st: "changes (files_of (temp_of r @ [n])) (dirs_to (temp_of r @ [n])) d1 d2" "bk_fs b' = r @ [n]"
    "pa_next (bm_pack_id_alloc (bk_meta b')) \<le> lim" "\<forall>f \<in> set added \<union> set removed. component f \<and> plain_text f"
    "set added \<inter> set removed = {}" "\<forall>f \<in> set added. cont d2 (temp_of r @ [n, f]) \<noteq> None"
    using s h unfolding staged_def by auto
  have ch: "changes (temp_files r) (cache_dirs r) d d2"
    using I changes_into [OF changes_into [OF _ c0] st(1) sub] by (auto simp: staged_upto_def)
  have "map fst cs ! i = n" using i by simp
  moreover have "map fst cs ! i \<notin> set (take i (map fst cs))" using cs(1) i(1)
    by (metis distinct_take id_take_nth_drop length_map not_distinct_conv_prefix)
  ultimately have fresh: "n \<notin> set (map fst (take i cs))" by (simp add: take_map)
  have names: "set (map fst (take (Suc i) cs)) = insert n (set (map fst (take i cs)))" using i by (simp add: take_Suc_conv_app_nth)
  have root: "cont d2 (r @ [n', f]) = cont d0 (r @ [n', f])" for n' f
    using changes_cont [OF c0] changes_cont [OF changes_mono [OF st(1) sub], of "r @ [n', f]"] by simp
  have root1: "cont d2 (r @ [n, f]) = cont d1 (r @ [n, f])" for f
    using changes_cont [OF changes_mono [OF st(1) sub], of "r @ [n, f]"] by simp
  have this_a: "(n, f) \<in> set a' \<longleftrightarrow> f \<in> set added" "(n, f) \<in> set rm' \<longleftrightarrow> f \<in> set removed" for f
    using fresh a(4) by (force simp: a'_def rm'_def)+
  have new: "prepared rt r lim (set a') (set rm') d2 n (save_maps cs M n) b'"
  proof -
    obtain cold where "bucket_items b' cold = e" "\<And>d'. (\<And>f. component f \<Longrightarrow> cont d' (bk_fs b @ [f]) =
        (if f \<in> set added then cont d2 ((temp_of r @ [n]) @ [f]) else if f \<in> set removed then None else cont d1 (bk_fs b @ [f]))) \<Longrightarrow>
        bucket_at rt d' b' cold" using s unfolding staged_def by auto
    moreover have "isdir d2 (r @ [n])" using changes_dir [OF st(1)] h(1) by simp
    ultimately show ?thesis
      using st e unfolding prepared_def this_a root1 h(2) by auto
  qed
  have old: "prepared rt r lim (set a') (set rm') d2 n' (save_maps cs M n') c" if c: "sa_buckets acc n' = Some c" for n' c
  proof (rule prepared_cong)
    have "n' \<in> set (map fst (take i cs))" using a(5) c by blast
    then have "n' \<noteq> n" using fresh by blast
    then show "(n', f) \<in> set a' \<longleftrightarrow> (n', f) \<in> set a" "(n', f) \<in> set rm' \<longleftrightarrow> (n', f) \<in> set rm" for f by (auto simp: a'_def rm'_def)
    have "temp_of r @ [n', f] \<notin> files_of (temp_of r @ [n])" for f using \<open>n' \<noteq> n\<close> by (auto simp: files_of_def)
    then show "cont d2 (temp_of r @ [n', f]) = cont d0 (temp_of r @ [n', f]) \<and> cont d2 (r @ [n', f]) = cont d0 (r @ [n', f])" for f
      using changes_cont [OF c0] changes_cont [OF st(1)] root by simp
    show "isdir d0 (r @ [n']) \<Longrightarrow> isdir d2 (r @ [n'])" using changes_dir [OF c0] changes_dir [OF st(1)] by simp
    show "prepared rt r lim (set a) (set rm) d0 n' (save_maps cs M n') c" using a(6) c by blast
  qed
  have ok: "file_ok nf \<and> fst nf \<in> set (map fst (take (Suc i) cs))" if "nf \<in> set a' \<union> set rm'" for nf
    using that a(4) st(4) cs(2) unfolding names by (auto simp: a'_def rm'_def file_ok_def)
  have "set a' \<inter> set rm' = {}"
  proof -
    have "(n', f) \<notin> set rm'" if nf: "(n', f) \<in> set a'" for n' f
    proof (cases "n' = n")
      case True
      then show ?thesis using nf this_a [of f] st(5) by auto
    next
      case False
      then have "(n', f) \<in> set a" using nf by (auto simp: a'_def)
      then show ?thesis using False a(3) by (auto simp: rm'_def)
    qed
    then show ?thesis by auto
  qed
  moreover have "prepared rt r lim (set a') (set rm') d2 m (save_maps cs M m) c" if "((sa_buckets acc)(n \<mapsto> b')) m = Some c" for m c
    using that new old by (auto split: if_splits)
  moreover have "sa_add acc @ map (in_bucket n) added = map lock_name a'" "sa_remove acc @ map (in_bucket n) removed = map lock_name rm'"
    by (simp_all add: a a'_def rm'_def lock_name_def)
  moreover have "dom ((sa_buckets acc)(n \<mapsto> b')) = set (map fst (take (Suc i) cs))" unfolding names by (simp add: a(5))
  ultimately show ?thesis using ch ok unfolding staged_upto_def save_acc.simps by blast
qed

lemma stage_buckets_gives:
  assumes b: "begun p r d" and st: "stored rt r lim M d" and c: "cache_ok rt r lim M c d"
    and cs: "changes_ok cs M room" and rt: "rt_ok rt" and room: "lim + room < 2 ^ 64"
  shows "gives (io_fold (save_bucket rt mx (tx_of r) c) cs \<lparr>sa_buckets = Map.empty, sa_add = [], sa_remove = []\<rparr>) d
    (staged_upto rt r (lim + room) cs M d (length cs)) (changes (temp_files r) (cache_dirs r) d)"
proof (rule gives_fold)
  show "staged_upto rt r (lim + room) cs M d 0 \<lparr>sa_buckets = Map.empty, sa_add = [], sa_remove = []\<rparr> d"
    by (simp add: staged_upto_def)
  fix i acc d0 assume i: "i < length cs" and I: "staged_upto rt r (lim + room) cs M d i acc d0"
  obtain n ch where nch: "cs ! i = (n, ch)" by force
  then have mem: "(n, ch) \<in> set cs" using i by (metis nth_mem)
  have dist: "distinct (map fst cs)" and n: "bucket_name n" and dch: "distinct (map fst ch)" and new: "storable (new_entries ch)"
    and card: "card (dom (save_maps cs M n)) \<le> room" using cs mem by (auto simp: changes_ok_def)
  have map: "save_maps cs M n = apply_changes ch (M n)" using mem dist by (simp add: save_maps_def)
  have c0: "changes (temp_files r) (cache_dirs r) d d0" using I by (simp add: staged_upto_def)
  have shape0: "shape r d0" by (rule shape_changes [OF _ c0 temp_files_sub]) (use b in \<open>simp_all add: begun_def\<close>)
  have same: "same_buckets r d d0" by (rule changes_same_buckets [OF c0]) simp
  have st0: "stored rt r lim M d0" by (rule same_buckets_stored [OF st same])
  have cache0: "cache_ok rt r lim M c d0"
    using c same same_buckets_holds unfolding cache_ok_def by (metis same_buckets_def)
  have root: "tx_root_fs (tx_of r) = r" by (simp add: tx_of_def)
  show "gives (save_bucket rt mx (tx_of r) c (cs ! i) acc) d0 (staged_upto rt r (lim + room) cs M d (Suc i)) (changes (temp_files r) (cache_dirs r) d)"
    unfolding save_bucket_def nch prod.case
  proof (rule gives_bind)
    show "gives (case c n of None \<Rightarrow> bucket_new rt (child_fs (tx_root_fs (tx_of r)) n) | Some b \<Rightarrow> io_return b) d0
        (\<lambda>b d'. holds_map rt r lim d' n (M n) b \<and> isdir d' (r @ [n]) \<and> changes {} (cache_dirs r) d0 d') (changes {} (cache_dirs r) d0)"
      unfolding root by (rule get_bucket_gives [OF st0 cache0 shape0 n rt])
    show "changes (temp_files r) (cache_dirs r) d d1" if "changes {} (cache_dirs r) d0 d1" for d1
      using changes_into [OF c0 that] by simp
    fix bu d1 assume h: "holds_map rt r lim d1 n (M n) bu \<and> isdir d1 (r @ [n]) \<and> changes {} (cache_dirs r) d0 d1"
    then have c1: "changes (temp_files r) (cache_dirs r) d d1" using changes_into [OF c0] by blast
    have shape1: "shape r d1" by (rule shape_changes [OF _ c1 temp_files_sub]) (use b in \<open>simp_all add: begun_def\<close>)
    obtain cold where cold: "bucket_at rt d1 bu cold" "entry_map (bucket_items bu cold) = M n" and bu: "bk_fs bu = r @ [n]"
      "pa_next (bm_pack_id_alloc (bk_meta bu)) \<le> lim" using h by (auto simp: holds_map_def)
    have u: "unique_keys (bucket_items bu cold)" using cold(1) by (simp add: bucket_at_def bucket_items_def)
    define e where "e = save_items ch (bucket_items bu cold)"
    have e: "entry_map e = save_maps cs M n" unfolding e_def entry_map_save [OF u dch] cold(2) map ..
    have sz: "size e \<le> room" using size_entries [OF unique_save [OF u dch]] card e by (simp add: e_def)
    have bound: "pa_next (bm_pack_id_alloc (bk_meta bu)) + size e \<le> lim + room" using sz bu(2) by linarith
    have sub: "files_of (temp_of r @ [n]) \<subseteq> temp_files r" "dirs_to (temp_of r @ [n]) \<subseteq> cache_dirs r"
      using n by (auto simp: files_of_def temp_files_def)
    have save: "gives (bucket_save rt (Some (temp_of r @ [n])) ch mx bu) d1 (staged rt (temp_of r @ [n]) d1 bu e)
        (changes (files_of (temp_of r @ [n])) (dirs_to (temp_of r @ [n])) d1)"
      unfolding e_def by (rule bucket_save_gives [OF rt cold(1) staging_shape [OF shape1 n] dch new]) (use bound room in \<open>simp add: e_def\<close>)
    have child: "child_fs (tx_temp_fs (tx_of r)) n = temp_of r @ [n]" by (simp add: tx_of_def child_bucket [OF n])
    show "gives (io_bind (bucket_save rt (Some (child_fs (tx_temp_fs (tx_of r)) n)) ch mx bu) (\<lambda>(b, added, removed).
        io_return \<lparr>sa_buckets = (sa_buckets acc)(n \<mapsto> b), sa_add = sa_add acc @ map (in_bucket n) added,
          sa_remove = sa_remove acc @ map (in_bucket n) removed\<rparr>)) d1
      (staged_upto rt r (lim + room) cs M d (Suc i)) (changes (temp_files r) (cache_dirs r) d)"
      unfolding child
    proof (rule gives_bind [OF save])
      show "changes (temp_files r) (cache_dirs r) d d2" if "changes (files_of (temp_of r @ [n])) (dirs_to (temp_of r @ [n])) d1 d2" for d2
        using changes_into [OF c1 that sub] .
      fix res d2 assume s: "staged rt (temp_of r @ [n]) d1 bu e res d2"
      obtain b' added removed where res: "res = (b', added, removed)" by (cases res)
      have "staged_upto rt r (lim + room) cs M d (Suc i) \<lparr>sa_buckets = (sa_buckets acc)(n \<mapsto> b'),
          sa_add = sa_add acc @ map (in_bucket n) added, sa_remove = sa_remove acc @ map (in_bucket n) removed\<rparr> d2"
        by (rule staged_next [OF I i nch dist n _ _ bu(1) bound s [unfolded res] e]) (use h in simp_all)
      then show "gives (case res of (b, added, removed) \<Rightarrow> io_return \<lparr>sa_buckets = (sa_buckets acc)(n \<mapsto> b),
          sa_add = sa_add acc @ map (in_bucket n) added, sa_remove = sa_remove acc @ map (in_bucket n) removed\<rparr>) d2
        (staged_upto rt r (lim + room) cs M d (Suc i)) (changes (temp_files r) (cache_dirs r) d)"
        by (simp add: res gives_return)
    qed
  qed
qed

section \<open>Saving\<close>

lemma save_buckets_gives:
  assumes b: "begun p r d" and st: "stored rt r lim M d" and c: "cache_ok rt r lim M c d"
    and cs: "changes_ok cs M room" and rt: "rt_ok rt" and room: "lim + room < 2 ^ 64"
  shows "gives (save_buckets p rt cs mx (tx_of r) c) d
    (\<lambda>c' d'. settled rt r (lim + room) (save_maps cs M) d' \<and> cont d' (state_path r) = None \<and>
      cache_ok rt r (lim + room) (save_maps cs M) (c |` (- set (map fst cs)) ++ c') d')
    (\<lambda>d'. recoverable rt r lim M d' \<or> recoverable rt r (lim + room) (save_maps cs M) d')"
    (is "gives _ _ ?Q ?C")
  unfolding save_buckets_def
proof (rule gives_bind [OF gives_try [OF stage_buckets_gives [OF b st c cs rt room]]])
  show "?C d'" if ch: "changes (temp_files r) (cache_dirs r) d d'" for d'
  proof -
    have same: "cont d' (state_path r) = cont d (state_path r)" "cont d' (commit_path r) = cont d (commit_path r)"
      using changes_cont [OF ch] by simp_all
    have "settled rt r lim M d"
      unfolding settled_def using b st by (auto simp: begun_def)
    then have "settled rt r lim M d'"
    proof (rule settled_changes [OF _ ch temp_files_sub])
      show "cont d' (commit_path r) = None" using b same by (simp add: begun_def)
      show "cont d' (state_path r) \<noteq> None \<longrightarrow> (\<exists>l. lock_at r d' l)" using b same by (auto simp: begun_def lock_at_def)
    qed simp_all
    then show ?thesis by (simp add: recoverable_def)
  qed
  fix res :: "storage_error + save_acc" and d1 assume "\<exists>acc. res = Inr acc \<and> staged_upto rt r (lim + room) cs M d (length cs) acc d1"
  then obtain acc where res: "res = Inr acc" and s: "staged_upto rt r (lim + room) cs M d (length cs) acc d1" by blast
  let ?M = "save_maps cs M" and ?names = "set (map fst cs)"
  obtain a rm where a: "sa_add acc = map lock_name a" "sa_remove acc = map lock_name rm" "set a \<inter> set rm = {}"
    "\<forall>nf \<in> set a \<union> set rm. file_ok nf \<and> fst nf \<in> ?names" "dom (sa_buckets acc) = ?names"
    "\<forall>n b. sa_buckets acc n = Some b \<longrightarrow> prepared rt r (lim + room) (set a) (set rm) d1 n (?M n) b"
    using s unfolding staged_upto_def take_all_iff [THEN iffD2, OF order_refl] by blast
  have ch: "changes (temp_files r) (cache_dirs r) d d1" using s by (simp add: staged_upto_def)
  have same: "same_buckets r d d1" by (rule changes_same_buckets [OF ch]) simp
  have b1: "begun p r d1"
    using b shape_changes [OF _ ch temp_files_sub] changes_dir [OF ch] changes_cont [OF ch] by (simp add: begun_def lock_at_def)
  define V where "V n f = (if (n, f) \<in> set a then cont d1 (temp_of r @ [n, f]) else if (n, f) \<in> set rm then None else cont d1 (r @ [n, f]))" for n f
  have new: "holds_map rt r (lim + room) d' n (?M n) bu" if v: "shows_view r V d'" and n: "bucket_name n" and bu: "sa_buckets acc n = Some bu" for n bu d'
  proof -
    have "prepared rt r (lim + room) (set a) (set rm) d1 n (?M n) bu" using a(6) bu by blast
    moreover have "cont d' (r @ [n, f]) = V n f" if "component f" for f using v n that by (simp add: shows_view_def)
    ultimately show ?thesis unfolding prepared_def holds_map_def V_def by blast
  qed
  have keep: "holds_map rt r (lim + room) d' n (?M n) bu"
    if v: "shows_view r V d'" and n: "bucket_name n" "n \<notin> ?names" and bu: "holds_map rt r lim d n (M n) bu" for n bu d'
  proof -
    have "map_of cs n = None" using n(2) by (simp add: map_of_eq_None_iff)
    then have "?M n = M n" by (simp add: save_maps_def)
    moreover have "(n, f) \<notin> set a \<union> set rm" for f using bspec [OF a(4), of "(n, f)"] n(2) by auto
    then have "cont d' (r @ [n, f]) = cont d (r @ [n, f])" if "component f" for f
      using v n that same by (simp add: shows_view_def V_def same_buckets_def)
    ultimately show ?thesis using holds_map_mono [OF holds_map_cong [OF bu]] by simp
  qed
  have stored: "stored rt r (lim + room) ?M d'" if v: "shows_view r V d'" for d'
    unfolding stored_def
  proof (intro allI impI)
    fix n assume n: "bucket_name n"
    show "\<exists>bu. holds_map rt r (lim + room) d' n (?M n) bu"
    proof (cases "n \<in> ?names")
      case True
      then obtain bu where "sa_buckets acc n = Some bu" using a(5) by blast
      then show ?thesis using new [OF v n] by blast
    next
      case False
      then show ?thesis using keep [OF v n] st n unfolding stored_def by blast
    qed
  qed
  have pending: "pending r a rm V d1"
    unfolding pending_def
  proof (intro conjI allI impI)
    show "shape r d1" "isdir d1 (temp_of r)" using b1 by (simp_all add: begun_def)
    show "\<forall>nf \<in> set a \<union> set rm. file_ok nf" "set a \<inter> set rm = {}" using a(3,4) by blast+
    fix n f
    show "cont d1 (r @ [n, f]) = V n f" if "(n, f) \<notin> set a \<union> set rm" using that by (simp add: V_def)
    show "V n f = None" if "(n, f) \<in> set rm" using that a(3) by (auto simp: V_def)
    assume nf: "(n, f) \<in> set a"
    then have "n \<in> ?names" using bspec [OF a(4), of "(n, f)"] by simp
    then obtain bu where "sa_buckets acc n = Some bu" using a(5) by blast
    then have "prepared rt r (lim + room) (set a) (set rm) d1 n (?M n) bu" using a(6) by blast
    then show "isdir d1 (r @ [n])" "V n f \<noteq> None" using nf by (auto simp: prepared_def V_def)
    show "cont d1 (temp_of r @ [n, f]) = V n f \<or> cont d1 (temp_of r @ [n, f]) = None \<and> cont d1 (r @ [n, f]) = V n f"
      using nf by (simp add: V_def)
  qed
  have commit: "gives (transaction_commit p (sa_add acc) (sa_remove acc) (tx_of r)) d1
      (\<lambda>_ d'. settled rt r (lim + room) ?M d' \<and> cont d' (state_path r) = None \<and> shows_view r V d' \<and>
        (\<forall>n. bucket_name n \<longrightarrow> isdir d1 (r @ [n]) \<longrightarrow> isdir d' (r @ [n]))) ?C"
    unfolding a(1,2) by (rule transaction_commit_gives [OF b1 same_buckets_stored [OF st same] pending]) (use stored in blast)
  show "gives (case res of Inl e \<Rightarrow> io_bind (transaction_rollback (tx_of r)) (\<lambda>_. io_fail e)
    | Inr acc \<Rightarrow> io_bind (transaction_commit p (sa_add acc) (sa_remove acc) (tx_of r)) (\<lambda>_. io_return (sa_buckets acc))) d1 ?Q ?C"
    unfolding res sum.case
  proof (rule gives_bind [OF commit], rule gives_return)
    fix x :: unit and d2
    assume d2: "settled rt r (lim + room) ?M d2 \<and> cont d2 (state_path r) = None \<and> shows_view r V d2 \<and>
      (\<forall>n. bucket_name n \<longrightarrow> isdir d1 (r @ [n]) \<longrightarrow> isdir d2 (r @ [n]))"
    have "bucket_name n \<and> isdir d2 (r @ [n]) \<and> holds_map rt r (lim + room) d2 n (?M n) bu"
      if bu: "(c |` (- ?names) ++ sa_buckets acc) n = Some bu" for n bu
    proof (cases "sa_buckets acc n")
      case None
      then have "c n = Some bu" "n \<notin> ?names" using bu a(5) by (auto simp: map_add_def restrict_map_def split: if_splits)
      then have "bucket_name n \<and> isdir d (r @ [n]) \<and> holds_map rt r lim d n (M n) bu" using c by (simp add: cache_ok_def)
      then show ?thesis using keep [of d2 n bu] \<open>n \<notin> ?names\<close> d2 same by (auto simp: same_buckets_def)
    next
      case (Some bu')
      then have "bu' = bu" "n \<in> ?names" using bu a(5) by auto
      then have "bucket_name n" using cs by (auto simp: changes_ok_def)
      moreover have "isdir d1 (r @ [n])" using a(6) Some by (auto simp: prepared_def)
      ultimately show ?thesis using new [of d2 n bu] Some d2 \<open>bu' = bu\<close> by auto
    qed
    then show "?Q (sa_buckets acc) d2" using d2 by (simp add: cache_ok_def)
  qed
qed

text \<open>A database on its disk: the caches agree, and a commit in progress leaves no cache.\<close>

definition db_at :: "'h storage_rt \<Rightarrow> path \<Rightarrow> nat \<Rightarrow> stores \<Rightarrow> database \<Rightarrow> disk \<Rightarrow> bool" where
  "db_at rt r lim M db d \<longleftrightarrow> db_fs db = r \<and> \<not> db_readonly db \<and> recoverable rt r lim M d \<and> cache_ok rt r lim M (db_buckets db) d \<and>
    (db_buckets db = Map.empty \<or> cont d (commit_path r) = None)"

lemma stored_mono: "stored rt r lim M d \<Longrightarrow> lim \<le> lim' \<Longrightarrow> stored rt r lim' M d"
  unfolding stored_def by (meson holds_map_mono)

lemma recoverable_mono:
  assumes "recoverable rt r lim M d" "lim \<le> lim'"
  shows "recoverable rt r lim' M d"
  using assms(1) unfolding recoverable_def
proof (elim disjE)
  assume "settled rt r lim M d"
  then show "settled rt r lim' M d \<or> committing rt r lim' M d" using stored_mono [OF _ assms(2)] unfolding settled_def by blast
next
  assume "committing rt r lim M d"
  then show "settled rt r lim' M d \<or> committing rt r lim' M d" using stored_mono [OF _ assms(2)] unfolding committing_def by blast
qed

lemma cache_mono: "cache_ok rt r lim M c d \<Longrightarrow> lim \<le> lim' \<Longrightarrow> cache_ok rt r lim' M c d"
  unfolding cache_ok_def by (meson holds_map_mono)

lemma cache_same: "cache_ok rt r lim M c d \<Longrightarrow> same_buckets r d d' \<Longrightarrow> cache_ok rt r lim M c d'"
  unfolding cache_ok_def using same_buckets_holds by (metis same_buckets_def)

lemma db_save_gives:
  assumes db: "db_at rt r lim M db d" and dead: "owner_dead p r d" and p: "process_ok p" and rt: "rt_ok rt"
    and cs: "changes_ok cs M room" "lim + room < 2 ^ 64"
  shows "gives (db_save p rt cs mx db) d
    (\<lambda>res d'. fst res \<and> db_at rt r (lim + room) (save_maps cs M) (snd res) d' \<and>
      (cont d (commit_path r) = None \<longrightarrow> cont d' (commit_path r) = None) \<and> (\<forall>l. lock_at r d' l \<longrightarrow> lock_at r d l))
    (\<lambda>d'. recoverable rt r lim M d' \<or> recoverable rt r (lim + room) (save_maps cs M) d')"
    (is "gives _ _ ?Q ?C")
proof (cases "cs = []")
  case True
  then have "save_maps cs M = M" by (auto simp: save_maps_def)
  then have "?Q (True, db) d"
    using db recoverable_mono [where rt = rt, OF _ le_add1] cache_mono [where rt = rt, OF _ le_add1] unfolding db_at_def by auto
  then show ?thesis using db True by (simp add: db_save_def db_at_def gives_return)
next
  case False
  let ?names = "set (map fst cs)"
  have rec: "recoverable rt r lim M d" and ro: "\<not> db_readonly db" "db_fs db = r" and cache: "cache_ok rt r lim M (db_buckets db) d"
    using db by (simp_all add: db_at_def)
  have "gives (io_bind (io_try (transaction_new p r)) (\<lambda>x. case x of
      Inl e \<Rightarrow> io_return (False, db\<lparr>db_readonly := True\<rparr>)
    | Inr t \<Rightarrow> io_bind (io_try (save_buckets p rt cs mx t (db_buckets db))) (\<lambda>x. case x of
        Inl e \<Rightarrow> io_return (False, db\<lparr>db_buckets := db_buckets db |` (- ?names), db_readonly := True\<rparr>)
      | Inr updated \<Rightarrow> io_return (True, db\<lparr>db_buckets := db_buckets db |` (- ?names) ++ updated\<rparr>)))) d ?Q ?C"
  proof (rule gives_bind [OF gives_try [OF transaction_new_gives [OF rec dead p]]])
    fix x :: "storage_error + transaction" and d1
    assume "\<exists>t. x = Inr t \<and> t = tx_of r \<and> settled rt r lim M d1 \<and> begun p r d1 \<and> (cont d (commit_path r) = None \<longrightarrow> same_buckets r d d1)"
    then have x: "x = Inr (tx_of r)" and d1: "settled rt r lim M d1" "begun p r d1" "cont d (commit_path r) = None \<longrightarrow> same_buckets r d d1" by auto
    have cache1: "cache_ok rt r lim M (db_buckets db) d1"
      using db cache_same [OF cache] d1(3) by (auto simp: db_at_def cache_ok_def)
    have "stored rt r lim M d1" using d1(1) by (simp add: settled_def)
    from save_buckets_gives [OF d1(2) this cache1 cs(1) rt cs(2)]
    have save: "gives (io_try (save_buckets p rt cs mx (tx_of r) (db_buckets db))) d1
      (\<lambda>y d'. \<exists>c'. y = Inr c' \<and> settled rt r (lim + room) (save_maps cs M) d' \<and> cont d' (state_path r) = None \<and>
        cache_ok rt r (lim + room) (save_maps cs M) (db_buckets db |` (- ?names) ++ c') d') ?C"
      by (rule gives_try)
    show "gives (case x of
        Inl e \<Rightarrow> io_return (False, db\<lparr>db_readonly := True\<rparr>)
      | Inr t \<Rightarrow> io_bind (io_try (save_buckets p rt cs mx t (db_buckets db))) (\<lambda>x. case x of
          Inl e \<Rightarrow> io_return (False, db\<lparr>db_buckets := db_buckets db |` (- ?names), db_readonly := True\<rparr>)
        | Inr updated \<Rightarrow> io_return (True, db\<lparr>db_buckets := db_buckets db |` (- ?names) ++ updated\<rparr>))) d1 ?Q ?C"
      unfolding x sum.case
    proof (rule gives_bind [OF save])
      fix y :: "storage_error + (u8 list \<rightharpoonup> bucket)" and d2
      assume "\<exists>c'. y = Inr c' \<and> settled rt r (lim + room) (save_maps cs M) d2 \<and> cont d2 (state_path r) = None \<and>
        cache_ok rt r (lim + room) (save_maps cs M) (db_buckets db |` (- ?names) ++ c') d2"
      then obtain c' where y: "y = Inr c'" and d2: "settled rt r (lim + room) (save_maps cs M) d2" "cont d2 (state_path r) = None"
        "cache_ok rt r (lim + room) (save_maps cs M) (db_buckets db |` (- ?names) ++ c') d2" by blast
      have "db_at rt r (lim + room) (save_maps cs M) (db\<lparr>db_buckets := db_buckets db |` (- ?names) ++ c'\<rparr>) d2"
        using d2 ro by (simp add: db_at_def recoverable_def settled_def)
      then show "gives (case y of
          Inl e \<Rightarrow> io_return (False, db\<lparr>db_buckets := db_buckets db |` (- ?names), db_readonly := True\<rparr>)
        | Inr updated \<Rightarrow> io_return (True, db\<lparr>db_buckets := db_buckets db |` (- ?names) ++ updated\<rparr>)) d2 ?Q ?C"
        using d2(1,2) by (simp add: y gives_return lock_at_def settled_def)
    qed
  qed simp
  then show ?thesis unfolding db_save_def Let_def by (simp only: ro False if_False)
qed

section \<open>Loading\<close>

lemma db_load_gives:
  assumes db: "db_at rt r lim M db d" and dead: "owner_dead p r d" and rt: "rt_ok rt" and n: "bucket_name n"
  shows "gives (db_load p rt n db) d
    (\<lambda>res d'. (\<exists>data. fst res = Inr data \<and> map_of data = M n \<and> distinct (map fst data)) \<and> db_at rt r lim M (snd res) d' \<and>
      cont d' (commit_path r) = None \<and> (\<forall>l. lock_at r d' l \<longrightarrow> lock_at r d l))
    (\<lambda>d'. recoverable rt r lim M d' \<and> (\<forall>l. lock_at r d' l \<longrightarrow> lock_at r d l))"
    (is "gives _ _ ?Q ?C")
proof -
  have rec: "recoverable rt r lim M d" and ro: "\<not> db_readonly db" "db_fs db = r" and cache: "cache_ok rt r lim M (db_buckets db) d"
    using db by (simp_all add: db_at_def)
  have shape: "shape r d" using rec by (auto simp: recoverable_def settled_def committing_def pending_def)
  let ?P = "\<lambda>b d'. settled rt r lim M d' \<and> holds_map rt r lim d' n (M n) b \<and> isdir d' (r @ [n]) \<and>
    cache_ok rt r lim M (db_buckets db) d' \<and> (\<forall>l. lock_at r d' l \<longrightarrow> lock_at r d l)"
  have dirs: "recoverable rt r lim M d1 \<and> same_buckets r d d1 \<and> (\<forall>l. lock_at r d1 l \<longleftrightarrow> lock_at r d l) \<and> cont d1 (commit_path r) = cont d (commit_path r)"
    if c: "changes {} {q. prefix q r} d d1" for d1
  proof -
    have same: "cont d1 q = cont d q" for q using changes_cont [OF c] by simp
    have sub: "{q. prefix q r} \<subseteq> cache_dirs r" using dirs_sub(1) [of r] by (auto simp: dirs_to_def temp_of_def)
    have sb: "same_buckets r d d1" by (rule changes_same_buckets [OF c]) simp
    have lock: "lock_at r d1 l \<longleftrightarrow> lock_at r d l" for l by (simp add: lock_at_def same)
    have sl: "same_locks r d d1" using same changes_dir [OF c] by (simp add: same_locks_def)
    have "recoverable rt r lim M d1"
      using rec unfolding recoverable_def
    proof (elim disjE)
      assume s: "settled rt r lim M d"
      have "settled rt r lim M d1"
        by (rule settled_changes [OF s c _ sub]) (use s in \<open>simp_all add: same lock settled_def\<close>)
      then show "settled rt r lim M d1 \<or> committing rt r lim M d1" ..
    next
      assume "committing rt r lim M d"
      then obtain a rm V where k: "pending r a rm V d" "cont d (state_path r) \<noteq> None \<longrightarrow> (\<exists>l. lock_at r d l)"
        "cont d (commit_path r) = Some (commit_bytes (lock_of a rm))" "\<forall>d'. shows_view r V d' \<longrightarrow> stored rt r lim M d'"
        unfolding committing_def by blast
      have "shape r d1" by (rule shape_changes [OF shape c _ sub]) simp_all
      then have "pending r a rm V d1"
        using pending_added [OF k(1)] by (intro pending_step [OF k(1) _ changes_dir [OF c]]) (auto simp: same)
      from committing_keep [OF this sl k(2-4)] show "settled rt r lim M d1 \<or> committing rt r lim M d1" ..
    qed
    then show ?thesis using sb lock same by simp
  qed
  have opened: "gives (open_bucket p rt n db) d ?P ?C"
    unfolding open_bucket_def ro(2) ensure_exist_def
  proof (rule gives_bind [OF create_dir_all_gives])
    show "\<forall>q. prefix q r \<longrightarrow> cont d q = None" using shape_no_file(1) [OF shape] by (auto simp: temp_of_def)
    show "?C d1" if "changes {} {q. prefix q r} d d1" for d1 using dirs [OF that] by simp
    fix x :: unit and d1 assume c1: "changes {} {q. prefix q r} d d1 \<and> isdir d1 r"
    then have d1: "recoverable rt r lim M d1" "same_buckets r d d1" "\<forall>l. lock_at r d1 l \<longleftrightarrow> lock_at r d l"
      "cont d1 (commit_path r) = cont d (commit_path r)" using dirs by blast+
    have dead1: "owner_dead p r d1" using dead d1(3) by (simp add: owner_dead_def)
    have cache1: "cache_ok rt r lim M (db_buckets db) d1" by (rule cache_same [OF cache d1(2)])
    show "gives (io_bind (ensure_committed p r) (\<lambda>_. case db_buckets db n of Some b \<Rightarrow> io_return b | None \<Rightarrow> bucket_new rt (child_fs r n))) d1 ?P ?C"
    proof (rule gives_bind [OF ensure_committed_gives [OF d1(1) dead1]])
      show "?C d2" if "recoverable rt r lim M d2 \<and> (\<forall>l. lock_at r d2 l \<longrightarrow> lock_at r d1 l)" for d2 using that d1(3) by simp
      fix x :: unit and d2
      assume d2: "settled rt r lim M d2 \<and> (cont d1 (commit_path r) = None \<longrightarrow> d2 = d1) \<and> (\<forall>l. lock_at r d2 l \<longrightarrow> lock_at r d1 l)"
      have cache2: "cache_ok rt r lim M (db_buckets db) d2"
        using db cache1 d2 d1(4) by (auto simp: db_at_def cache_ok_def)
      have s2: "stored rt r lim M d2" "shape r d2" using d2 by (simp_all add: settled_def)
      have keep: "settled rt r lim M d3 \<and> (\<forall>l. lock_at r d3 l \<longrightarrow> lock_at r d l)" if c: "changes {} (cache_dirs r) d2 d3" for d3
      proof -
        have same: "cont d3 q = cont d2 q" for q using changes_cont [OF c] by simp
        have "settled rt r lim M d3"
          by (rule settled_changes [OF conjunct1 [OF d2] c]) (use d2 in \<open>simp_all add: settled_def same lock_at_def\<close>)
        moreover have "lock_at r d3 l \<longleftrightarrow> lock_at r d2 l" for l by (simp add: lock_at_def same)
        ultimately show ?thesis using d2 d1(3) by blast
      qed
      show "gives (case db_buckets db n of Some b \<Rightarrow> io_return b | None \<Rightarrow> bucket_new rt (child_fs r n)) d2 ?P ?C"
      proof (rule gives_conseq [OF get_bucket_gives [OF s2(1) cache2 s2(2) n rt]])
        fix b d3 assume h: "holds_map rt r lim d3 n (M n) b \<and> isdir d3 (r @ [n]) \<and> changes {} (cache_dirs r) d2 d3"
        then have "same_buckets r d2 d3" by (intro changes_same_buckets) auto
        then show "?P b d3" using h keep cache_same [OF cache2] by blast
      qed (use keep in \<open>auto simp: recoverable_def\<close>)
    qed
  qed
  show ?thesis
    unfolding db_load_def
  proof (rule gives_bind [OF gives_try [OF opened]])
    fix x :: "storage_error + bucket" and d1 assume "\<exists>b. x = Inr b \<and> ?P b d1"
    then obtain b where x: "x = Inr b" and P: "?P b d1" by blast
    obtain cold where cold: "bucket_at rt d1 b cold" "entry_map (bucket_items b cold) = M n" using P by (auto simp: holds_map_def)
    obtain data where data: "load_all rt b d1 = (Ret data, d1)" "mset data = bucket_items b cold" using load_all_run [OF cold(1) rt] by blast
    have "unique_keys (mset data)" using cold(1) data(2) by (simp add: bucket_at_def bucket_items_def)
    from map_of_entries [OF this] have m: "map_of data = M n" "distinct (map fst data)" using data(2) cold(2) by simp_all
    have "db_at rt r lim M (db\<lparr>db_buckets := (db_buckets db)(n \<mapsto> b)\<rparr>) d1"
      using P ro n by (auto simp: db_at_def recoverable_def settled_def cache_ok_def)
    moreover have "cont d1 (commit_path r) = None" using P by (simp add: settled_def)
    ultimately have "?Q (Inr data, db\<lparr>db_buckets := (db_buckets db)(n \<mapsto> b)\<rparr>) d1" using m P by auto
    then have "gives (io_bind (io_try (load_all rt b)) (\<lambda>x. io_return (x, db\<lparr>db_buckets := (db_buckets db)(n \<mapsto> b)\<rparr>))) d1 ?Q ?C"
      by (intro gives_bind_ret [where m = "io_try (load_all rt b)", OF try_run [where m = "load_all rt b", OF data(1)]] gives_return)
    then show "gives (case x of Inl e \<Rightarrow> io_return (Inl e, db)
      | Inr b \<Rightarrow> io_bind (io_try (load_all rt b)) (\<lambda>x. io_return (x, db\<lparr>db_buckets := (db_buckets db)(n \<mapsto> b)\<rparr>))) d1 ?Q ?C"
      by (simp add: x)
  qed
qed

section \<open>Resetting\<close>

lemma default_bucket:
  assumes "\<And>f. component f \<Longrightarrow> cont d (r @ [n, f]) = None" "0 < lim"
  shows "holds_map rt r lim d n Map.empty \<lparr>bk_meta = meta_default, bk_hot_pack = [], bk_fs = r @ [n]\<rparr>"
proof -
  have "bucket_at rt d \<lparr>bk_meta = meta_default, bk_hot_pack = [], bk_fs = r @ [n]\<rparr> Map.empty"
    using assms(1) [OF meta_name_plain(2)] assms(1) [OF pack_name_component]
    by (simp add: bucket_at_def cold_at_def hot_at_def meta_default_def storable_def alloc_ok_def pack_id_alloc_default_def
        cold_items_def unique_keys_def)
  then show ?thesis
    using assms(2) unfolding holds_map_def
    by (intro conjI exI [of _ Map.empty]) (auto simp: meta_default_def pack_id_alloc_default_def bucket_items_def cold_items_def entry_map_def)
qed

lemma stored_lim: "stored rt r lim M d \<Longrightarrow> bucket_name n \<Longrightarrow> 0 < lim"
  by (fastforce simp: stored_def holds_map_def bucket_at_def alloc_ok_def)

definition reset_map :: "u8 list \<Rightarrow> stores \<Rightarrow> stores" where
  "reset_map n M = M(n := Map.empty)"

lemma db_reset_gives:
  assumes db: "db_at rt r lim M db d" and commit: "cont d (commit_path r) = None" and n: "bucket_name n"
  shows "gives (db_reset n db) d
    (\<lambda>res d'. fst res \<and> db_at rt r lim (reset_map n M) (snd res) d' \<and> cont d' (commit_path r) = None \<and> (\<forall>l. lock_at r d' l \<longrightarrow> lock_at r d l))
    (recoverable rt r lim M)"
    (is "gives _ _ ?Q ?C")
proof -
  let ?b = "r @ [n]"
  have rec: "recoverable rt r lim M d" and ro: "\<not> db_readonly db" "db_fs db = r" and cache: "cache_ok rt r lim M (db_buckets db) d"
    using db by (simp_all add: db_at_def)
  then have s: "settled rt r lim M d" using commit by (auto simp: recoverable_def committing_def)
  then have shape: "shape r d" and st: "stored rt r lim M d" by (simp_all add: settled_def)
  have gone: "?Q (True, db\<lparr>db_buckets := (db_buckets db)(n := None)\<rparr>) d'"
    if d': "if isdir d ?b then \<forall>q. dk_files d' q = (if under ?b q then None else dk_files d q) else d' = d" for d'
  proof -
    have cont': "cont d' q = (if isdir d ?b \<and> under ?b q then None else cont d q)"
      and dir': "isdir d' q \<longleftrightarrow> \<not> (isdir d ?b \<and> under ?b q) \<and> isdir d q" for q
      using d' by (auto simp: cont_def isdir_def split: if_splits)
    have not_under: "\<not> under ?b (r @ [m, f])" "\<not> under ?b (r @ [m])" if "m \<noteq> n" for m f using that by (auto simp: under_def)
    have temp: "\<not> under ?b (state_path r)" "\<not> under ?b (commit_path r)"
      using bucket_not_temp [OF n] by (auto simp: under_def temp_of_def state_path_def commit_path_def)
    have none: "cont d' (r @ [n, f]) = None" if "component f" for f
      using shape n that by (auto simp: cont' shape_def under_def)
    have "\<exists>b. holds_map rt r lim d' m (reset_map n M m) b" if m: "bucket_name m" for m
    proof (cases "m = n")
      case True
      then show ?thesis using default_bucket [where d = d' and r = r, OF none stored_lim [OF st m]] by (auto simp: reset_map_def)
    next
      case False
      then obtain b where "holds_map rt r lim d m (M m) b" using st m by (auto simp: stored_def)
      then have "holds_map rt r lim d' m (M m) b" by (rule holds_map_cong) (simp add: cont' not_under(1) [OF False])
      then show ?thesis using False by (auto simp: reset_map_def)
    qed
    then have st': "stored rt r lim (reset_map n M) d'" by (simp add: stored_def)
    have "shape r d'"
      unfolding shape_def
    proof (intro conjI ballI allI impI)
      show "cont d' q = None" if "q \<in> cache_dirs r" for q using shape that by (simp add: cont' shape_def)
      show "r \<noteq> []" using shape by (simp add: shape_def)
      show "\<not> isdir d' q" if "q \<in> cache_files r" for q using shape that by (simp add: dir' shape_def)
      show "isdir d' (r @ [m])" if "bucket_name m" "component f" "cont d' (r @ [m, f]) \<noteq> None" for m f
      proof (cases "m = n")
        case True
        then show ?thesis using none that(2,3) by simp
      next
        case False
        then show ?thesis using shape that not_under [OF False] by (simp add: cont' dir' shape_def)
      qed
    qed
    then have s': "settled rt r lim (reset_map n M) d'"
      using s st' temp by (simp add: settled_def cont' lock_at_def)
    have "cache_ok rt r lim (reset_map n M) ((db_buckets db)(n := None)) d'"
      unfolding cache_ok_def
    proof (intro allI impI)
      fix m b assume b: "((db_buckets db)(n := None)) m = Some b"
      then have "m \<noteq> n" "db_buckets db m = Some b" by (auto split: if_splits)
      then have c: "bucket_name m" "isdir d (r @ [m])" "holds_map rt r lim d m (M m) b" using cache by (auto simp: cache_ok_def)
      then have "holds_map rt r lim d' m (M m) b" using not_under [OF \<open>m \<noteq> n\<close>] by (intro holds_map_cong [OF c(3)]) (simp add: cont')
      then show "bucket_name m \<and> isdir d' (r @ [m]) \<and> holds_map rt r lim d' m (reset_map n M m) b"
        using c not_under [OF \<open>m \<noteq> n\<close>] \<open>m \<noteq> n\<close> by (simp add: dir' reset_map_def)
    qed
    then show ?thesis using s' ro by (simp add: db_at_def recoverable_def settled_def) (simp add: lock_at_def cont' temp)
  qed
  have "cont d ?b = None" using shape_no_file(2) [OF shape n] by simp
  from gives_try [OF scope_remove_gives [OF this]]
  have "gives (io_bind (io_try (scope_remove ?b)) (\<lambda>x. case x of
      Inl e \<Rightarrow> io_return (False, db\<lparr>db_buckets := (db_buckets db)(n := None), db_readonly := True\<rparr>)
    | Inr _ \<Rightarrow> io_return (True, db\<lparr>db_buckets := (db_buckets db)(n := None)\<rparr>))) d ?Q ?C"
  proof (rule gives_bind)
    fix x :: "storage_error + unit" and d'
    assume "\<exists>y. x = Inr y \<and> (if isdir d ?b then \<forall>q. dk_files d' q = (if under ?b q then None else dk_files d q) else d' = d)"
    then obtain y where x: "x = Inr y" and d': "if isdir d ?b then \<forall>q. dk_files d' q = (if under ?b q then None else dk_files d q) else d' = d" by blast
    show "gives (case x of
        Inl e \<Rightarrow> io_return (False, db\<lparr>db_buckets := (db_buckets db)(n := None), db_readonly := True\<rparr>)
      | Inr _ \<Rightarrow> io_return (True, db\<lparr>db_buckets := (db_buckets db)(n := None)\<rparr>)) d' ?Q ?C"
      unfolding x sum.case by (rule gives_return, rule gone, rule d')
  qed (simp add: rec)
  then show ?thesis
    unfolding db_reset_def Let_def by (simp add: ro child_bucket [OF n])
qed

end
