(* ===== verification/Storage_Correct.thy ===== *)
theory Storage_Correct
  imports Storage_Safe
begin

text \<open>The theorems of the cache: what is lost when the process dies, the files, the packs.\<close>

section \<open>A cache that dies while it saves\<close>

text \<open>Processes that die while they recover the cache, each on a disk with some number of changes left.\<close>

inductive recoveries :: "'h storage_rt \<Rightarrow> path \<Rightarrow> disk \<Rightarrow> disk \<Rightarrow> bool" for rt r where
  no_recovery: "recoveries rt r d d"
| dead_recovery: "recoveries rt r d d1 \<Longrightarrow> bucket_name n \<Longrightarrow> owner_dead p r d1 \<Longrightarrow>
    db_load p rt n (db_new r) (d1\<lparr>dk_steps := steps\<rparr>) = (Crash, d2) \<Longrightarrow> recoveries rt r d d2"

inductive_simps no_recovery_simp: "recoveries rt r d d'"

lemma steps_cont [simp]: "cont (d\<lparr>dk_steps := k\<rparr>) = cont d" "isdir (d\<lparr>dk_steps := k\<rparr>) = isdir d"
  by (simp_all add: cont_def isdir_def fun_eq_iff)

lemma steps_lock [simp]: "lock_at r (d\<lparr>dk_steps := k\<rparr>) = lock_at r d" "owner_dead p r (d\<lparr>dk_steps := k\<rparr>) = owner_dead p r d"
  by (simp_all add: lock_at_def owner_dead_def fun_eq_iff)

lemma steps_shows [simp]: "shows_view r V (d\<lparr>dk_steps := k\<rparr>) = shows_view r V d"
  by (simp add: shows_view_def)

lemma steps_recoverable [simp]: "recoverable rt r lim M (d\<lparr>dk_steps := k\<rparr>) = recoverable rt r lim M d"
proof -
  have "bucket_at rt (d\<lparr>dk_steps := k\<rparr>) b cold = bucket_at rt d b cold" for b cold
    by (simp add: bucket_at_def cold_at_def hot_at_def)
  then have "stored rt r lim M (d\<lparr>dk_steps := k\<rparr>) = stored rt r lim M d"
    by (simp add: stored_def holds_map_def)
  then show ?thesis by (simp add: recoverable_def settled_def committing_def pending_def shape_def)
qed

lemma gives_run: "gives m d Q C \<Longrightarrow> dk_steps d = None \<Longrightarrow> \<exists>x d'. m d = (Ret x, d') \<and> Q x d' \<and> dk_steps d' = None"
  by (auto simp: gives_def split: prod.splits outcome.splits)

lemma gives_crash: "gives m d Q C \<Longrightarrow> m d = (Crash, d') \<Longrightarrow> C d'"
  by (simp add: gives_def)

lemma new_db_at: "recoverable rt r lim M d \<Longrightarrow> db_at rt r lim M (db_new r) d"
  by (simp add: db_at_def db_new_def cache_ok_def)

lemma recoveries_keep:
  assumes "recoveries rt r d d'" "recoverable rt r lim M d" "rt_ok rt"
  shows "recoverable rt r lim M d'"
  using assms
proof (induction rule: recoveries.induct)
  case (dead_recovery d d1 n p steps d2)
  then have rec: "recoverable rt r lim M d1" by blast
  have "recoverable rt r lim M (d1\<lparr>dk_steps := steps\<rparr>)" "owner_dead p r (d1\<lparr>dk_steps := steps\<rparr>)"
    using rec dead_recovery.hyps(3) by simp_all
  from db_load_gives [OF new_db_at [OF this(1)] this(2) dead_recovery.prems(2) dead_recovery.hyps(2)]
  show ?case using gives_crash [where m = "db_load p rt n (db_new r)", OF _ dead_recovery.hyps(4)] by blast
qed

lemma load_recovered:
  assumes "recoverable rt r lim M d" "rt_ok rt" "owner_dead p r d" "bucket_name n"
  shows "\<exists>data db d'. db_load p rt n (db_new r) (d\<lparr>dk_steps := None\<rparr>) = (Ret (Inr data, db), d') \<and>
    map_of data = M n \<and> distinct (map fst data)"
proof -
  have rec: "recoverable rt r lim M (d\<lparr>dk_steps := None\<rparr>)" and dead: "owner_dead p r (d\<lparr>dk_steps := None\<rparr>)"
    using assms(1,3) by simp_all
  obtain res d' where run: "db_load p rt n (db_new r) (d\<lparr>dk_steps := None\<rparr>) = (Ret res, d')"
    and q: "\<exists>data. fst res = Inr data \<and> map_of data = M n \<and> distinct (map fst data)"
    using gives_run [OF db_load_gives [OF new_db_at [OF rec] dead assms(2,4)]] by auto
  then obtain data where data: "fst res = Inr data" "map_of data = M n" "distinct (map fst data)" by blast
  obtain s db where res: "res = (s, db)" by (cases res)
  have "db_load p rt n (db_new r) (d\<lparr>dk_steps := None\<rparr>) = (Ret (Inr data, db), d')" using run data(1) by (simp add: res)
  then show ?thesis using data(2,3) by blast
qed

section \<open>An empty disk\<close>

definition empty_disk :: "nat option \<Rightarrow> disk" where
  "empty_disk steps = \<lparr>dk_files = Map.empty, dk_steps = steps\<rparr>"

lemma empty_settled:
  assumes "r \<noteq> []"
  shows "settled rt r 1 (\<lambda>_. Map.empty) (empty_disk k)"
proof -
  have none: "cont (empty_disk k) q = None" "\<not> isdir (empty_disk k) q" for q by (simp_all add: empty_disk_def cont_def isdir_def)
  have "holds_map rt r 1 (empty_disk k) n Map.empty \<lparr>bk_meta = meta_default, bk_hot_pack = [], bk_fs = r @ [n]\<rparr>" for n
    by (rule default_bucket) (simp_all add: none)
  then have "stored rt r 1 (\<lambda>_. Map.empty) (empty_disk k)" unfolding stored_def by blast
  then show ?thesis using assms by (simp add: settled_def shape_def none)
qed

lemma empty_db_at: "r \<noteq> [] \<Longrightarrow> db_at rt r 1 (\<lambda>_. Map.empty) (db_new r) (empty_disk k)"
  unfolding recoverable_def by (rule new_db_at) (simp only: recoverable_def empty_settled simp_thms)

lemma empty_no_lock: "\<not> lock_at r (empty_disk k) l"
  by (simp add: lock_at_def cont_def empty_disk_def)

text \<open>The maps after a save have no keys but the old ones and the changed ones.\<close>

lemma save_maps_keys: "k \<in> dom (save_maps cs M n) \<Longrightarrow> k \<in> dom (M n) \<or> (\<exists>ch. map_of cs n = Some ch \<and> k \<in> fst ` set ch)"
proof (cases "map_of cs n")
  case (Some ch)
  assume k: "k \<in> dom (save_maps cs M n)"
  show ?thesis
  proof (cases "map_of ch k")
    case None
    then show ?thesis using k Some by (simp add: save_maps_def apply_changes_def domIff)
  next
    case (Some v)
    then have "k \<in> fst ` set ch" by (metis domI dom_map_of_conv_image_fst)
    then show ?thesis using \<open>map_of cs n = Some ch\<close> by blast
  qed
qed (simp add: save_maps_def)

text \<open>A process that no other process runs beside; a hasher, and an order for the hash sets.\<close>

definition sum_rt :: "nat storage_rt" where
  "sum_rt = \<lparr>rt_default = 0, rt_hash = (\<lambda>s h. fold (\<lambda>b h. 31 * h + unat b) s h), rt_finish = of_nat,
    rt_order = sorted_list_of_set, rt_sched = rev\<rparr>"

lemma sum_rt_ok: "rt_ok sum_rt"
  by (simp add: rt_ok_def sum_rt_def)

definition lone_process :: "32 word \<Rightarrow> process" where
  "lone_process pid = \<lparr>pr_pid = pid, pr_ps = (\<lambda>_. None)\<rparr>"

lemma lone_process_ok: "process_ok (lone_process pid)"
proof -
  have "from_utf8_ok (bytes ''unknown'')" by code_simp
  then show ?thesis by (simp add: process_ok_def state_lock_default_def lone_process_def)
qed

lemma lone_process_dead: "owner_dead (lone_process pid) r d"
  by (simp add: owner_dead_def is_running_def lone_process_def)

text \<open>
  C28. A save that dies at any change of the disk, followed by any number of processes that die while they recover it,
  leaves either all the buckets as they were or all of them with the changes: the next process loads them.
\<close>

theorem save_is_atomic:
  assumes "rt_ok rt" "db_at rt r lim M db d" "process_ok p" "owner_dead p r d"
    and "changes_ok cs M room" "lim + room < 2 ^ 64"
    and "db_save p rt cs max_pack_size db d = (Crash, d1)" "recoveries rt r d1 d2" "owner_dead p' r d2"
  shows "\<exists>N \<in> {M, save_maps cs M}. \<forall>n. bucket_name n \<longrightarrow>
    (\<exists>data db' d'. db_load p' rt n (db_new r) (d2\<lparr>dk_steps := None\<rparr>) = (Ret (Inr data, db'), d') \<and>
      map_of data = N n \<and> distinct (map fst data))"
proof -
  have "recoverable rt r lim M d1 \<or> recoverable rt r (lim + room) (save_maps cs M) d1"
    using gives_crash [where m = "db_save p rt cs max_pack_size db", OF db_save_gives [OF assms(2,4,3,1,5,6)] assms(7)] .
  then show ?thesis
  proof
    assume "recoverable rt r lim M d1"
    from load_recovered [OF recoveries_keep [OF assms(8) this assms(1)] assms(1,9)] show ?thesis by blast
  next
    assume "recoverable rt r (lim + room) (save_maps cs M) d1"
    from load_recovered [OF recoveries_keep [OF assms(8) this assms(1)] assms(1,9)] show ?thesis by blast
  qed
qed

text \<open>One entry is saved on an empty disk, and the process dies at the ninth change, while the files are moved.\<close>

definition one_change :: "(u8 list \<times> changes) list" where
  "one_change = [(bytes ''b'', [([1], Some [2])])]"

definition dead_save :: "(bool \<times> database) outcome \<times> disk" where
  "dead_save = db_save (lone_process 1) sum_rt one_change 9 (db_new [[0x2F]]) (empty_disk (Some 8))"

lemma dead_save_crash: "fst dead_save = Crash"
proof -
  have "case fst dead_save of Crash \<Rightarrow> True | _ \<Rightarrow> False" by code_simp
  then show ?thesis by (cases "fst dead_save") simp_all
qed

lemma one_change_ok: "changes_ok one_change (\<lambda>_. Map.empty) 1"
proof -
  have "bucket_name (bytes ''b'')" by code_simp
  moreover have "dom (save_maps one_change (\<lambda>_. Map.empty) (bytes ''b'')) \<subseteq> {[1]}"
    using save_maps_keys [of _ one_change "\<lambda>_. Map.empty" "bytes ''b''"] by (auto simp: one_change_def)
  then have "card (dom (save_maps one_change (\<lambda>_. Map.empty) (bytes ''b''))) \<le> card {[1 :: u8]}" by (intro card_mono) simp_all
  ultimately show ?thesis by (simp add: changes_ok_def one_change_def storable_def)
qed

theorem save_is_atomic_witness:
  "\<exists>N \<in> {\<lambda>_. Map.empty, save_maps one_change (\<lambda>_. Map.empty)}. \<forall>n. bucket_name n \<longrightarrow>
    (\<exists>data db' d'. db_load (lone_process 2) sum_rt n (db_new [[0x2F]]) ((snd dead_save)\<lparr>dk_steps := None\<rparr>) = (Ret (Inr data, db'), d') \<and>
      map_of data = N n \<and> distinct (map fst data))"
proof (rule save_is_atomic)
  show "db_save (lone_process 1) sum_rt one_change 9 (db_new [[0x2F]]) (empty_disk (Some 8)) = (Crash, snd dead_save)"
    using dead_save_crash by (simp add: dead_save_def prod_eq_iff)
  show "db_at sum_rt [[0x2F]] 1 (\<lambda>_. Map.empty) (db_new [[0x2F]]) (empty_disk (Some 8))" by (rule empty_db_at) simp
  show "recoveries sum_rt [[0x2F]] (snd dead_save) (snd dead_save)" by (rule no_recovery)
  show "changes_ok one_change (\<lambda>_. Map.empty) 1" by (rule one_change_ok)
qed (simp_all add: sum_rt_ok lone_process_ok lone_process_dead)

section \<open>Files\<close>

text \<open>
  C29. What the cache writes it reads back: a pack with its content hash, and an index that has all its keys; the metadata
  of a bucket; the lock of a commit.
\<close>

theorem files_round_trip:
  assumes "rt_ok rt" "staging_ready s d" "dk_steps d = None"
    and "storable data" "meta_ok m" "list_all file_line (cl_added_files l)" "list_all file_line (cl_removed_files l)"
  shows "(\<exists>x d'. pack_save rt s i data d = (Ret x, d') \<and> pack_load rt s i d' = (Ret (data, pi_content_hash x), d') \<and>
      list_all (\<lambda>kv. index_contains_key (fst kv) x) data) \<and>
    (\<exists>d'. meta_save rt s m d = (Ret (), d') \<and> meta_load s d' = (Ret m, d')) \<and>
    (\<exists>d'. commit_lock_save l s d = (Ret (), d') \<and> commit_lock_load s d' = (Ret l, d'))"
proof (intro conjI)
  have wrote: "\<exists>d'. write_file s f c d = (Ret (), d') \<and> cont d' (s @ [f]) = Some c" if "component f" for f c
    using gives_run [OF write_staged [OF assms(2) that] assms(3)] by auto
  obtain d1 where d1: "write_file s (pack_name i) (pack_bytes data) d = (Ret (), d1)" "cont d1 (s @ [pack_name i]) = Some (pack_bytes data)"
    using wrote [OF pack_name_component] by blast
  have "pack_save rt s i data d = (Ret (index_of rt data), d1)" using d1(1) by (simp add: pack_save_write io_bind_def io_return_def)
  moreover have "pack_load rt s i d1 = (Ret (data, pi_content_hash (index_of rt data)), d1)"
    using pack_load_run [OF d1(2) assms(4), of rt] by simp
  moreover have "list_all (\<lambda>kv. index_contains_key (fst kv) (index_of rt data)) data" by (simp add: list_all_iff index_of_keys)
  ultimately show "\<exists>x d'. pack_save rt s i data d = (Ret x, d') \<and> pack_load rt s i d' = (Ret (data, pi_content_hash x), d') \<and>
      list_all (\<lambda>kv. index_contains_key (fst kv) x) data" by blast
  show "\<exists>d'. meta_save rt s m d = (Ret (), d') \<and> meta_load s d' = (Ret m, d')"
    using wrote [OF meta_name_plain(2)] meta_load_run [OF _ assms(5,1)] unfolding meta_save_write by blast
  show "\<exists>d'. commit_lock_save l s d = (Ret (), d') \<and> commit_lock_load s d' = (Ret l, d')"
    using wrote [OF lock_names(2)] commit_lock_load_run [OF _ assms(6,7)] unfolding commit_lock_save_write by blast
qed

text \<open>A pack of two entries, metadata with one cold pack, a lock of one added and one removed file.\<close>

definition example_pack :: pack_data where
  "example_pack = [([0x6B, 0x31], [0, 255, 10]), ([0x6B, 0x32], [])]"

definition example_meta :: bucket_meta where
  "example_meta = \<lparr>bm_pack_id_alloc = \<lparr>pa_next = 4, pa_reuse_pool = [2, 1]\<rparr>, bm_hot_pack_index = index_of sum_rt [],
    bm_cold_pack_indexes = Mapping.update 3 (index_of sum_rt example_pack) Mapping.empty\<rparr>"

definition example_lock :: commit_lock where
  "example_lock = lock_of [(bytes ''meta'', pack_name 3)] [(bytes ''meta'', pack_name 1)]"

lemma example_files: "storable example_pack" "meta_ok example_meta" "list_all file_line (cl_added_files example_lock)"
  "list_all file_line (cl_removed_files example_lock)" "staging_ready [[0x2F]] (empty_disk None)"
proof -
  show "storable example_pack" by (simp add: storable_def example_pack_def)
  have "cold_index example_meta = [3 \<mapsto> index_of sum_rt example_pack]" by (simp add: example_meta_def fun_eq_iff)
  then show "meta_ok example_meta" by (auto simp: meta_ok_def example_meta_def alloc_bounded_def hot_pack_id_def split: if_splits)
  have "bucket_name (bytes ''meta'')" by code_simp
  from lock_name_line [OF this pack_name_component pack_name_plain]
  show "list_all file_line (cl_added_files example_lock)" "list_all file_line (cl_removed_files example_lock)"
    by (simp_all add: example_lock_def lock_of_def)
  show "staging_ready [[0x2F]] (empty_disk None)" by (simp add: staging_ready_def empty_disk_def cont_def isdir_def)
qed

theorem files_round_trip_witness:
  "(\<exists>x d'. pack_save sum_rt [[0x2F]] 3 example_pack (empty_disk None) = (Ret x, d') \<and>
      pack_load sum_rt [[0x2F]] 3 d' = (Ret (example_pack, pi_content_hash x), d') \<and>
      list_all (\<lambda>kv. index_contains_key (fst kv) x) example_pack) \<and>
    (\<exists>d'. meta_save sum_rt [[0x2F]] example_meta (empty_disk None) = (Ret (), d') \<and> meta_load [[0x2F]] d' = (Ret example_meta, d')) \<and>
    (\<exists>d'. commit_lock_save example_lock [[0x2F]] (empty_disk None) = (Ret (), d') \<and> commit_lock_load [[0x2F]] d' = (Ret example_lock, d'))"
  by (rule files_round_trip [OF sum_rt_ok example_files(5) _ example_files(1-4)]) (simp add: empty_disk_def)

text \<open>
  A pack whose header asks for more bytes than a vector can have is not an error of the format: reading it panics.
\<close>

lemma corrupt_length_panics:
  assumes "cont d (s @ [pack_name i]) = Some (show_nat (2 ^ 63) @ 0x20 # show_nat 0 @ [0x0A])"
  shows "pack_load rt s i d = (Panic, d)"
proof -
  let ?header = "show_nat (2 ^ 63) @ 0x20 # show_nat 0"
  have "0x0A \<notin> set ?header" "list_all (\<lambda>b. b < 0x80) ?header" "?header \<noteq> []"
    using plain_not [OF plain_show_nat] plain_ascii [OF plain_show_nat] by auto
  then have line: "stream_read_line (?header @ 0x0A # []) = Inr (?header, [])" by (intro read_line_append)
  have "split_at_byte 0x20 ?header = [show_nat (2 ^ 63), show_nat 0]"
    using plain_not [OF plain_show_nat, of "0x20"] by (simp add: split_at_byte_append split_at_byte_none)
  then have "load_item [] ?header = None" by (simp add: load_item_def stream_read_exact_def)
  then have "load_items rt (?header @ [0x0A]) h acc = None" for h acc
    using line by (subst load_items.simps) simp
  then show ?thesis
    using stream_read_run [OF pack_name_component assms] by (simp add: pack_load_def io_bind_def io_of_result_def io_panic_def)
qed

section \<open>Packs\<close>

text \<open>
  C30. The generator loses no entry and repeats none.  The hot pack stays within the limit; every other pack has an entry,
  and one beyond the limit is a single large entry.
\<close>

theorem packs_are_bounded:
  "case generator_finish (generator_extend data (generator_new max_pack_size)) of (hot, packs) \<Rightarrow>
    mset hot + mset (concat packs) = mset data \<and> data_size hot \<le> max_pack_size \<and>
    list_all (\<lambda>p. p \<noteq> [] \<and> (data_size p \<le> max_pack_size \<or> length p = 1)) packs"
proof -
  define g where "g = generator_extend data (generator_new max_pack_size)"
  have "generator_ok g" "generator_items g = mset data" "pg_max_pack_size g = max_pack_size"
    using generator_extend_ok [OF generator_new_ok(1), of data max_pack_size] generator_new_ok(2) [of max_pack_size]
    by (simp_all add: g_def generator_new_def)
  then show ?thesis
    by (simp add: generator_finish_def flip: g_def) (simp add: generator_ok_def generator_items_def list_all_iff)
qed

end
