(* ===== verification/Storage_Tree.thy ===== *)
theory Storage_Tree
  imports Storage_Main Storage_Disk
begin

text \<open>
  Invariants of the disk.  \<open>file_system_invariant\<close> is the interface between the file system and the storage: what the
  operations of the file system keep, every operation of the storage keeps, whatever its outcome.  The memory file system
  keeps its nodes a tree.
\<close>

section \<open>What an operation keeps\<close>

named_theorems keeps_rules "operations that keep an invariant of the disk"

definition keeps :: "(disk \<Rightarrow> bool) \<Rightarrow> 'a io \<Rightarrow> bool" where
  "keeps P m \<longleftrightarrow> (\<forall>d. P d \<longrightarrow> P (snd (m d)))"

lemma keepsI: "(\<And>d. P d \<Longrightarrow> P (snd (m d))) \<Longrightarrow> keeps P m"
  by (simp add: keeps_def)

lemma keeps_basic [keeps_rules]:
  "keeps P (io_return x)" "keeps P (io_fail e)" "keeps P io_panic" "keeps P (io_read g)"
  by (simp_all add: keeps_def io_return_def io_fail_def io_panic_def io_read_def)

lemma keeps_bind [keeps_rules]: "keeps P m \<Longrightarrow> (\<And>x. keeps P (f x)) \<Longrightarrow> keeps P (io_bind m f)"
  unfolding keeps_def io_bind_def by (fastforce split: prod.splits outcome.splits)

lemma keeps_try [keeps_rules]: "keeps P m \<Longrightarrow> keeps P (io_try m)"
  unfolding keeps_def io_try_def by (fastforce split: prod.splits outcome.splits)

lemma keeps_ignore [keeps_rules]: "keeps P m \<Longrightarrow> keeps P (io_ignore m)"
  unfolding io_ignore_def by (intro keeps_rules)

lemma keeps_each [keeps_rules]: "(\<And>x. keeps P (f x)) \<Longrightarrow> keeps P (io_each f xs)"
  by (induction xs) (auto intro: keeps_rules)

lemma keeps_fold [keeps_rules]: "(\<And>x s. keeps P (f x s)) \<Longrightarrow> keeps P (io_fold f xs s)"
  by (induction xs arbitrary: s) (auto intro: keeps_rules)

lemma keeps_if [keeps_rules]: "(b \<Longrightarrow> keeps P m) \<Longrightarrow> (\<not> b \<Longrightarrow> keeps P m') \<Longrightarrow> keeps P (if b then m else m')"
  by simp

lemma keeps_case [keeps_rules]:
  "keeps P m \<Longrightarrow> (\<And>x. keeps P (f x)) \<Longrightarrow> keeps P (case o1 of None \<Rightarrow> m | Some x \<Rightarrow> f x)"
  "(\<And>x. keeps P (g x)) \<Longrightarrow> (\<And>y. keeps P (h y)) \<Longrightarrow> keeps P (case s1 of Inl x \<Rightarrow> g x | Inr y \<Rightarrow> h y)"
  "(\<And>x y. keeps P (k x y)) \<Longrightarrow> keeps P (case p1 of (x, y) \<Rightarrow> k x y)"
  by (simp_all split: option.splits sum.splits prod.splits)

lemma keeps_let [keeps_rules]: "keeps P (f x) \<Longrightarrow> keeps P (let y = x in f y)"
  by simp

lemma keeps_unless [keeps_rules]: "keeps P m \<Longrightarrow> keeps P (unless_not_found m)"
  unfolding unless_not_found_def by (intro keeps_rules)

lemma keeps_found [keeps_rules]: "keeps P m \<Longrightarrow> keeps P (if_found m)" "keeps P m \<Longrightarrow> keeps P (or_default m x)"
  unfolding if_found_def or_default_def by (auto intro!: keeps_bind keeps_try keeps_basic split: sum.splits)

lemma keeps_result [keeps_rules]: "keeps P (io_of_sum r)" "keeps P (io_of_result r')"
  unfolding io_of_result_def io_of_sum_def by (intro keeps_rules)+

lemma keeps_reads [keeps_rules]: "keeps P (contains_dir p)" "keeps P (contains_file p)" "keeps P (fs_read p)" "keeps P (fs_metadata p)"
  unfolding contains_dir_def contains_file_def fs_read_def fs_metadata_def
  by (auto intro!: keeps_rules split: option.splits node.splits)

section \<open>The storage over a file system\<close>

locale file_system_invariant =
  fixes P :: "disk \<Rightarrow> bool"
  assumes remove_file: "keeps P (fs_remove_file p)"
    and remove_dir_all: "keeps P (fs_remove_dir_all p)"
    and rename: "keeps P (rename_path p q)"
    and create_dir_all: "keeps P (fs_create_dir_all p)"
    and write_bytes: "keeps P (fs_write p c)"
begin

lemma scope_keeps [keeps_rules]:
  "keeps P (ensure_exist s)" "keeps P (scope_remove s)" "keeps P (move_to s s' f)" "keeps P (scope_remove_file s f)"
  "keeps P (stream_read s f)" "keeps P (stream_write s f)" "keeps P (stream_flush w)"
  unfolding ensure_exist_def scope_remove_def move_to_def scope_remove_file_def stream_read_def stream_write_def stream_flush_def
  by (intro keeps_rules remove_file remove_dir_all rename create_dir_all write_bytes)+

lemma pack_keeps [keeps_rules]: "keeps P (pack_load rt s i)" "keeps P (pack_save rt s i data)"
  unfolding pack_load_def pack_save_def by (intro keeps_rules)+

lemma meta_keeps [keeps_rules]: "keeps P (meta_load s)" "keeps P (meta_save rt s m)"
  unfolding meta_load_def meta_save_def by (intro keeps_rules)+

lemma bucket_keeps [keeps_rules]: "keeps P (load_checked rt s i x)" "keeps P (bucket_new rt s)" "keeps P (load_all rt b)"
  unfolding bucket_new_def load_all_def load_checked_def by (intro keeps_rules)+

lemma cold_search_keeps [keeps_rules]: "keeps P (cold_search rt b key is st)"
proof (induction "is" arbitrary: st)
  case (Cons i "is")
  obtain packs modified where st: "st = (packs, modified)" by (cases st)
  show ?case unfolding st cold_search.simps by (intro keeps_rules Cons.IH)
qed (simp add: keeps_basic)

lemma bucket_save_keeps [keeps_rules]: "keeps P (bucket_save rt w data mx b)"
  unfolding bucket_save_def need_update_packs_def take_key_def write_pack_def by (intro keeps_rules)

lemma lock_keeps [keeps_rules]:
  "keeps P (state_lock_load s)" "keeps P (state_lock_save l s)" "keeps P (state_lock_remove s)" "keeps P (commit_lock_load s)"
  "keeps P (commit_lock_save c s)"
  unfolding state_lock_load_def state_lock_save_def state_lock_remove_def commit_lock_load_def commit_lock_save_def
  by (intro keeps_rules)+

lemma transaction_keeps [keeps_rules]:
  "keeps P (execute_commit t c)" "keeps P (ensure_committed p s)" "keeps P (transaction_new p s)" "keeps P (transaction_rollback t)"
  "keeps P (transaction_commit p added removed t)"
  unfolding transaction_new_def transaction_rollback_def transaction_commit_def ensure_committed_def execute_commit_def
  by (intro keeps_rules)+

lemma db_keeps [keeps_rules]:
  "keeps P (db_load p rt n db)" "keeps P (db_save p rt cs mx db)" "keeps P (db_reset n db)" "keeps P (db_reset_all db)"
  unfolding db_load_def open_bucket_def db_save_def save_buckets_def save_bucket_def db_reset_def db_reset_all_def
  by (intro keeps_rules)+

lemma refresh_keeps [keeps_rules]: "keeps P (refresh_metadata ho s stale_fs cd expire clock t)"
  unfolding refresh_metadata_def access_load_def access_save_def move_stale_directories_def by (intro keeps_rules)

lemma task_keeps [keeps_rules]: "keeps P (run_next p rt ho clock s)"
  unfolding run_next_def run_task_def by (auto intro!: keeps_rules split: list.splits task.splits)

lemma storage_step_keeps [keeps_rules]: "keeps P (storage_step p rt ho op s)"
  by (cases op) (auto simp: storage_load_def intro!: keeps_rules)

lemma storage_run_keeps: "keeps P (storage_run p rt ho ops s)"
  by (induction ops arbitrary: s) (auto intro!: keeps_rules)

end

section \<open>The nodes are a tree\<close>

text \<open>Every node but a root lies in a directory.\<close>

definition tree_ok :: "disk \<Rightarrow> bool" where
  "tree_ok d \<longleftrightarrow> (\<forall>p q. dk_files d p \<noteq> None \<longrightarrow> path_parent p = Some q \<longrightarrow> isdir d q)"

lemma parent_snoc: "path_parent (p @ [x]) = (if p @ [x] = [[0x2F]] then None else Some p)"
  by (simp add: path_parent_def)

lemma parent_Some: "path_parent p = Some q \<longleftrightarrow> (\<exists>x. p = q @ [x]) \<and> p \<noteq> [[0x2F]]"
  by (metis append_is_Nil_conv butlast_snoc list.discI option.inject option.simps(3) path_parent_def append_butlast_last_id)

lemma tree_step: "tree_ok d \<Longrightarrow> dk_files d (p @ [x]) \<noteq> None \<Longrightarrow> p \<noteq> [] \<Longrightarrow> isdir d p"
  by (auto simp: tree_ok_def parent_Some)

lemma tree_under:
  assumes "tree_ok d" "p \<noteq> []" "\<not> isdir d p" "s \<noteq> []"
  shows "dk_files d (p @ s) = None"
  using assms(4)
proof (induction s rule: rev_induct)
  case (snoc x s)
  show ?case
  proof (rule ccontr)
    assume "dk_files d (p @ s @ [x]) \<noteq> None"
    then have "isdir d (p @ s)" using tree_step [OF assms(1), of "p @ s" x] assms(2) by simp
    then show False using snoc.IH assms(3) by (cases s) (auto simp: isdir_def)
  qed
qed simp

lemma tree_change:
  assumes "tree_ok d" "tree_ok (d\<lparr>dk_files := g (dk_files d)\<rparr>)"
  shows "tree_ok (snd (io_change g d))"
  using assms by (auto simp: io_change_def tree_ok_def isdir_def split: option.splits nat.splits)

lemma tree_files: "(\<And>p q. f p \<noteq> None \<Longrightarrow> path_parent p = Some q \<Longrightarrow> f q = Some Dir) \<Longrightarrow> tree_ok (d\<lparr>dk_files := f\<rparr>)"
  by (auto simp: tree_ok_def isdir_def)

lemma tree_remove_file: "keeps tree_ok (fs_remove_file p)"
proof (rule keepsI)
  fix d assume t: "tree_ok d"
  have "tree_ok (snd (io_change (\<lambda>files. files(p := None)) d))" if "cont d p \<noteq> None"
    by (rule tree_change [OF t]) (use t that in \<open>auto simp: tree_ok_def isdir_def cont_None\<close>)
  then show "tree_ok (snd (fs_remove_file p d))"
    using t contains_file_run [of d p]
    by (cases "isdir d p") (auto simp: fs_remove_file_def io_bind_def io_return_def contains_file_def io_read_def io_fail_def isdir_def)
qed

lemma tree_remove_dir: "keeps tree_ok (fs_remove_dir_all p)"
proof (rule keepsI)
  fix d assume t: "tree_ok d"
  have "tree_ok (snd (io_change (\<lambda>files q. if path_starts_with q p then None else files q) d))"
    by (rule tree_change [OF t]) (use t in \<open>auto simp: tree_ok_def isdir_def starts_with_under under_def parent_Some\<close>)
  then show "tree_ok (snd (fs_remove_dir_all p d))"
    using t by (auto simp: fs_remove_dir_all_def contains_dir_def io_bind_def io_return_def io_read_def io_fail_def split: option.splits node.splits)
qed

lemma tree_add:
  assumes "tree_ok d" "\<And>q. path_parent p = Some q \<Longrightarrow> isdir d q" "n = Dir \<or> \<not> isdir d p"
  shows "tree_ok (snd (io_change (\<lambda>files. files(p \<mapsto> n)) d))"
proof (rule tree_change [OF assms(1)])
  show "tree_ok (d\<lparr>dk_files := (dk_files d)(p \<mapsto> n)\<rparr>)"
    using assms by (auto simp: tree_ok_def isdir_def)
qed

lemma tree_create_dir_all:
  assumes "tree_ok d"
  shows "tree_ok (snd (fs_create_dir_all p d)) \<and> (\<forall>u. fst (fs_create_dir_all p d) = Ret u \<longrightarrow> isdir (snd (fs_create_dir_all p d)) p)"
  using assms
proof (induction p arbitrary: d rule: fs_create_dir_all.induct)
  case (1 p)
  let ?parent = "(case path_parent p of None \<Rightarrow> io_return () | Some q \<Rightarrow> fs_create_dir_all q) d"
  have parent: "tree_ok (snd ?parent) \<and> (\<forall>u q. fst ?parent = Ret u \<longrightarrow> path_parent p = Some q \<longrightarrow> isdir (snd ?parent) q)"
    if "dk_files d p = None"
    using 1 that by (cases "path_parent p") (auto simp: io_return_def)
  have add: "tree_ok (snd (io_change (\<lambda>files. files(p \<mapsto> Dir)) d')) \<and>
      (\<forall>u. fst (io_change (\<lambda>files. files(p \<mapsto> Dir)) d') = Ret u \<longrightarrow> isdir (snd (io_change (\<lambda>files. files(p \<mapsto> Dir)) d')) p)"
    if "tree_ok d'" "\<forall>q. path_parent p = Some q \<longrightarrow> isdir d' q" for d'
    using tree_add [of d' p Dir] that by (auto simp: io_change_def isdir_def split: option.splits nat.splits)
  show ?case
  proof (cases "dk_files d p")
    case None
    then have eq: "fs_create_dir_all p d = io_bind (\<lambda>_. ?parent) (\<lambda>_. io_change (\<lambda>files. files(p \<mapsto> Dir))) d"
      by (subst fs_create_dir_all.simps) (simp add: contains_dir_def io_bind_def io_read_def io_return_def)
    show ?thesis
      unfolding eq using parent [OF None] add [of "snd ?parent"] by (cases ?parent; cases "fst ?parent") (auto simp: io_bind_def)
  next
    case (Some n)
    then show ?thesis
      using 1(2) by (subst (1 2 3) fs_create_dir_all.simps)
        (auto simp: contains_dir_def io_bind_def io_read_def io_return_def io_fail_def isdir_def split: node.splits)
  qed
qed

lemma tree_write: "keeps tree_ok (fs_write p c)"
proof (rule keepsI)
  fix d assume t: "tree_ok d"
  show "tree_ok (snd (fs_write p c d))"
  proof (cases "dk_files d p")
    case None
    then show ?thesis
      using t tree_add [OF t, of p "File c"]
      by (auto simp: fs_write_def io_bind_def io_read_def io_panic_def io_fail_def io_return_def contains_dir_def isdir_def
          split: option.splits node.splits)
  next
    case (Some n)
    then show ?thesis
      using t tree_add [OF t, of p "File c"]
      by (cases n) (auto simp: fs_write_def io_bind_def io_read_def io_fail_def isdir_def tree_ok_def)
  qed
qed

lemma tree_rename_dir:
  assumes t: "tree_ok d" and dst: "dk_files d dst = None" "path_parent dst = Some q0" "isdir d q0" and src: "\<not> under src dst" "isdir d src"
  shows "tree_ok (snd (rename_dir src dst d))"
proof -
  let ?g = "\<lambda>files p. if path_starts_with p dst \<and> files (src @ drop (length dst) p) \<noteq> None then files (src @ drop (length dst) p)
           else if path_starts_with p src then None else files p"
  have dst0: "dst \<noteq> []" "\<not> isdir d dst" and src0: "src \<noteq> []" using dst(1,2) src(1) by (auto simp: path_parent_def isdir_def under_def)
  have none: "dk_files d (dst @ s) = None" for s
    using tree_under [OF t dst0, of s] dst(1) by (cases s) auto
  have move: "?g (dk_files d) (dst @ s) = dk_files d (src @ s)" for s
    using none by (auto simp: starts_with_under under_def)
  have stay: "?g (dk_files d) p = (if under src p then None else dk_files d p)" if "\<not> under dst p" for p
    using that by (auto simp: starts_with_under)
  have "tree_ok (d\<lparr>dk_files := ?g (dk_files d)\<rparr>)"
  proof (rule tree_files)
    fix p q assume p: "?g (dk_files d) p \<noteq> None" "path_parent p = Some q"
    then obtain x where x: "p = q @ [x]" by (auto simp: parent_Some)
    show "?g (dk_files d) q = Some Dir"
    proof (cases "under dst p")
      case True
      then obtain s where s: "p = dst @ s" by (auto simp: under_def prefix_def)
      show ?thesis
      proof (cases s rule: rev_cases)
        case Nil
        then have q: "q = q0" using p(2) dst(2) s by simp
        then have "\<not> under dst q" "\<not> under src q" using x s Nil src(1) by (auto simp: under_def dest: prefix_length_le)
        then show ?thesis using stay [of q] dst(3) q by (simp add: isdir_def)
      next
        case (snoc s' y)
        then have q: "q = dst @ s'" using x s by simp
        have "dk_files d (src @ s) \<noteq> None" using p(1) unfolding s move .
        then have "dk_files d (src @ s' @ [y]) \<noteq> None" by (simp add: snoc)
        then have "isdir d (src @ s')" using tree_step [OF t, of "src @ s'" y] src0 by simp
        then show ?thesis unfolding q move isdir_def .
      qed
    next
      case False
      then have "\<not> under src p" "dk_files d p \<noteq> None" using stay [OF False] p(1) by (auto split: if_splits)
      then have "isdir d q" "\<not> under src q" "\<not> under dst q"
        using t p(2) False by (auto simp: tree_ok_def under_def x)
      then show ?thesis using stay [of q] by (simp add: isdir_def)
    qed
  qed
  then have "tree_ok (snd (io_change ?g d))" by (rule tree_change [OF t])
  then show ?thesis
    using t src dst(1)
    by (simp add: rename_dir_def starts_with_under io_bind_def io_read_def contains_dir_def io_return_def isdir_def)
qed

lemma tree_rename_file:
  assumes t: "tree_ok d" and dst: "path_parent dst = Some q0" "isdir d q0" and src: "cont d src = Some c" "src \<noteq> dst"
  shows "tree_ok (snd (rename_file src dst d))"
proof -
  have found: "contains_file src d = (Ret True, d)" using contains_file_run [of d src] src cont_not_dir by fastforce
  have gone: "fs_remove_file dst d = (x, d') \<Longrightarrow> x = Ret () \<Longrightarrow> dk_files d' = (dk_files d)(dst := None) \<and> \<not> isdir d dst" for x d'
    by (auto simp: fs_remove_file_def contains_file_def io_bind_def io_read_def io_return_def io_fail_def io_change_def isdir_def
        split: option.splits node.splits nat.splits if_splits)
  have "tree_ok (snd (io_bind (fs_remove_file dst) (\<lambda>_. io_change (\<lambda>files. (files(src := None))(dst := files src))) d))"
  proof (cases "fs_remove_file dst d")
    case (Pair x d')
    then have t': "tree_ok d'" using tree_remove_file [of dst] t by (metis keeps_def snd_conv)
    have "tree_ok (snd (io_change (\<lambda>files. (files(src := None))(dst := files src)) d'))" if "x = Ret ()"
    proof (rule tree_change [OF t'])
      have f: "dk_files d' = (dk_files d)(dst := None)" "\<not> isdir d dst" using gone [OF Pair that] by auto
      show "tree_ok (d'\<lparr>dk_files := (\<lambda>files. (files(src := None))(dst := files src)) (dk_files d')\<rparr>)"
        using t t' f src dst by (auto simp: tree_ok_def isdir_def cont_Some)
    qed
    then show ?thesis using t' Pair by (cases x) (auto simp: io_bind_def)
  qed
  then show ?thesis by (simp add: rename_file_def io_bind_def found)
qed

lemma tree_rename: "keeps tree_ok (rename_path src dst)"
proof (rule keepsI)
  fix d assume t: "tree_ok d"
  show "tree_ok (snd (rename_path src dst d))"
  proof (cases "src = dst \<or> path_parent dst = None")
    case True
    then show ?thesis using t by (auto simp: rename_path_def io_return_def io_fail_def split: option.splits)
  next
    case False
    then obtain q where q: "path_parent dst = Some q" "src \<noteq> dst" by auto
    show ?thesis
    proof (cases "isdir d q \<and> dk_files d src \<noteq> None")
      case True
      then obtain n where n: "dk_files d src = Some n" by auto
      then have eq: "rename_path src dst d = (case n of File c \<Rightarrow> rename_file src dst d | Dir \<Rightarrow> rename_dir src dst d)"
        using True q by (cases n) (auto simp: rename_path_def io_bind_def io_read_def io_return_def contains_dir_def isdir_def)
      show ?thesis
      proof (cases n)
        case (File c)
        then show ?thesis using tree_rename_file [OF t q(1)] True n q(2) eq by (simp add: cont_Some)
      next
        case Dir
        show ?thesis
        proof (cases "under src dst \<or> dk_files d dst \<noteq> None")
          case True
          then show ?thesis
            using t eq Dir n by (auto simp: rename_dir_def starts_with_under io_bind_def io_read_def io_fail_def contains_dir_def io_return_def)
        next
          case False
          then show ?thesis using tree_rename_dir [OF t _ q(1)] True n Dir eq by (simp add: isdir_def)
        qed
      qed
    next
      case False
      then show ?thesis
        using t q by (auto simp: rename_path_def io_bind_def io_read_def io_return_def io_fail_def contains_dir_def isdir_def
            split: option.splits node.splits)
    qed
  qed
qed

interpretation tree: file_system_invariant tree_ok
proof unfold_locales
  show "keeps tree_ok (fs_create_dir_all p)" for p using tree_create_dir_all by (simp add: keeps_def)
qed (rule tree_remove_file tree_remove_dir tree_rename tree_write)+

end
