(* ===== verification/Storage_Refresh.thy ===== *)
theory Storage_Refresh
  imports Storage_Tree Storage_Safe
begin

text \<open>
  The maintenance that follows a save.  It writes beside the cache, never into it: the access times, and the stale caches
  that it moves away, which are never the cache in use.
\<close>

section \<open>Operations beside a directory\<close>

text \<open>Nothing changes under \<open>r\<close>, and no file comes to lie on the way to it.\<close>

definition frame :: "path \<Rightarrow> disk \<Rightarrow> disk \<Rightarrow> bool" where
  "frame r d d' \<longleftrightarrow> (\<forall>q. under r q \<longrightarrow> dk_files d' q = dk_files d q) \<and> (\<forall>q. prefix q r \<longrightarrow> cont d q = None \<longrightarrow> cont d' q = None)"

lemma frame_refl [simp]: "frame r d d"
  by (simp add: frame_def)

lemma frame_trans: "frame r d d' \<Longrightarrow> frame r d' d'' \<Longrightarrow> frame r d d''"
  by (simp add: frame_def)

lemma frame_cont: "frame r d d' \<Longrightarrow> under r q \<Longrightarrow> cont d' q = cont d q"
  and frame_dir: "frame r d d' \<Longrightarrow> under r q \<Longrightarrow> isdir d' q = isdir d q"
  by (simp_all add: frame_def cont_def isdir_def)

named_theorems stays_rules "operations beside a directory"

definition stays :: "path \<Rightarrow> 'a io \<Rightarrow> bool" where
  "stays r m \<longleftrightarrow> (\<forall>d x d'. dk_steps d = None \<longrightarrow> m d = (x, d') \<longrightarrow> frame r d d' \<and> dk_steps d' = None \<and> x \<noteq> Panic \<and> x \<noteq> Crash)"

lemma stays_run: "stays r m \<Longrightarrow> dk_steps d = None \<Longrightarrow> m d = (x, d') \<Longrightarrow> frame r d d' \<and> dk_steps d' = None \<and> x \<noteq> Panic \<and> x \<noteq> Crash"
  unfolding stays_def by blast

lemma stays_basic [stays_rules]: "stays r (io_return x)" "stays r (io_fail e)" "stays r (io_read g)"
  by (simp_all add: stays_def io_return_def io_fail_def io_read_def)

lemma stays_bind_post:
  assumes "stays r m" "\<And>x d d'. m d = (Ret x, d') \<Longrightarrow> stays r (f x)"
  shows "stays r (io_bind m f)"
  unfolding stays_def
proof (intro allI impI)
  fix d d'' :: disk and z assume d: "dk_steps d = None" and z: "io_bind m f d = (z, d'')"
  obtain y d' where run: "m d = (y, d')" by (cases "m d")
  note s = stays_run [OF assms(1) d run]
  show "frame r d d'' \<and> dk_steps d'' = None \<and> z \<noteq> Panic \<and> z \<noteq> Crash"
  proof (cases y)
    case (Ret x)
    then have "stays r (f x)" "f x d' = (z, d'')" using run z by (auto intro: assms(2) simp: io_bind_def)
    then have "frame r d' d'' \<and> dk_steps d'' = None \<and> z \<noteq> Panic \<and> z \<noteq> Crash" using s stays_run by metis
    then show ?thesis using s by (simp add: frame_trans [of r d d' d''])
  qed (use s run z in \<open>auto simp: io_bind_def\<close>)
qed

lemma stays_bind [stays_rules]: "stays r m \<Longrightarrow> (\<And>x. stays r (f x)) \<Longrightarrow> stays r (io_bind m f)"
  by (rule stays_bind_post)

lemma stays_try [stays_rules]: "stays r m \<Longrightarrow> stays r (io_try m)"
  unfolding stays_def
proof (intro allI impI)
  fix d d'' :: disk and z
  assume a: "\<forall>d x d'. dk_steps d = None \<longrightarrow> m d = (x, d') \<longrightarrow> frame r d d' \<and> dk_steps d' = None \<and> x \<noteq> Panic \<and> x \<noteq> Crash"
    "dk_steps d = None" "io_try m d = (z, d'')"
  obtain y d' where run: "m d = (y, d')" by (cases "m d")
  then have "frame r d d' \<and> dk_steps d' = None \<and> y \<noteq> Panic \<and> y \<noteq> Crash" using a(1,2) by blast
  then show "frame r d d'' \<and> dk_steps d'' = None \<and> z \<noteq> Panic \<and> z \<noteq> Crash"
    using a(3) by (cases y) (auto simp: io_try_def run)
qed

lemma stays_ignore [stays_rules]: "stays r m \<Longrightarrow> stays r (io_ignore m)"
  unfolding io_ignore_def by (intro stays_rules)

lemma stays_each: "(\<And>x. x \<in> set xs \<Longrightarrow> stays r (f x)) \<Longrightarrow> stays r (io_each f xs)"
  by (induction xs) (auto intro: stays_rules)

lemma stays_case [stays_rules]:
  "stays r m \<Longrightarrow> (\<And>x. stays r (f x)) \<Longrightarrow> stays r (case o1 of None \<Rightarrow> m | Some x \<Rightarrow> f x)"
  "(\<And>x. stays r (g x)) \<Longrightarrow> (\<And>y. stays r (h y)) \<Longrightarrow> stays r (case s1 of Inl x \<Rightarrow> g x | Inr y \<Rightarrow> h y)"
  by (simp_all split: option.splits sum.splits)

lemma stays_if [stays_rules]: "(b \<Longrightarrow> stays r m) \<Longrightarrow> (\<not> b \<Longrightarrow> stays r m') \<Longrightarrow> stays r (if b then m else m')"
  by simp

lemma stays_unless [stays_rules]: "stays r m \<Longrightarrow> stays r (unless_not_found m)"
  unfolding unless_not_found_def by (intro stays_rules)

lemma stays_change:
  assumes "\<And>files q. under r q \<Longrightarrow> g files q = files q"
    and "\<And>files q. prefix q r \<Longrightarrow> g files q = files q \<or> (\<forall>c. g files q \<noteq> Some (File c))"
  shows "stays r (io_change g)"
proof -
  have "frame r d (d\<lparr>dk_files := g (dk_files d)\<rparr>)" for d :: disk
    unfolding frame_def
  proof (intro conjI allI impI)
    show "dk_files (d\<lparr>dk_files := g (dk_files d)\<rparr>) q = dk_files d q" if "under r q" for q using assms(1) [OF that] by simp
    show "cont (d\<lparr>dk_files := g (dk_files d)\<rparr>) q = None" if "prefix q r" "cont d q = None" for q
      using assms(2) [OF that(1), of "dk_files d"] that(2) by (auto simp: cont_def split: option.splits node.splits)
  qed
  then show ?thesis by (auto simp: stays_def io_change_def)
qed

text \<open>Paths of which neither leads to the other.\<close>

definition apart :: "path \<Rightarrow> path \<Rightarrow> bool" where
  "apart r p \<longleftrightarrow> \<not> prefix r p \<and> \<not> prefix p r"

lemma apart_under: "apart r p \<Longrightarrow> under r q \<Longrightarrow> q \<noteq> p \<and> \<not> prefix p q"
  by (metis apart_def prefix_same_cases under_def)

lemma apart_prefix: "apart r p \<Longrightarrow> prefix q r \<Longrightarrow> q \<noteq> p \<and> \<not> prefix p q"
  by (metis apart_def prefix_order.trans)

lemma stays_update: "apart r p \<Longrightarrow> stays r (io_change (\<lambda>files. files(p := n)))"
  by (rule stays_change) (auto simp: apart_def under_def)

lemma stays_mkdir: "\<not> under r p \<Longrightarrow> stays r (io_change (\<lambda>files. files(p \<mapsto> Dir)))"
  by (rule stays_change) auto

lemma stays_reads [stays_rules]: "stays r (contains_dir p)" "stays r (contains_file p)" "stays r (fs_read p)"
  unfolding contains_dir_def contains_file_def fs_read_def
  by (auto intro!: stays_rules split: option.splits node.splits)

lemma stays_remove_file: "apart r p \<Longrightarrow> stays r (fs_remove_file p)"
  unfolding fs_remove_file_def by (intro stays_rules stays_update)

lemma stays_create_dir_all: "\<not> under r p \<Longrightarrow> stays r (fs_create_dir_all p)"
proof (induction p rule: fs_create_dir_all.induct)
  case (1 p)
  have "stays r (case path_parent p of None \<Rightarrow> io_return () | Some q \<Rightarrow> fs_create_dir_all q)" if "\<not> True \<or> True"
    using 1 by (auto split: option.splits intro!: stays_basic simp: parent_Some under_def)
  then show ?case
    using 1(2) by (subst fs_create_dir_all.simps) (auto intro!: stays_rules stays_mkdir)
qed

lemma stays_write: "apart r p \<Longrightarrow> path_parent p \<noteq> None \<Longrightarrow> stays r (fs_write p c)"
  unfolding fs_write_def
  by (auto intro!: stays_rules stays_update split: option.splits node.splits)

lemma stays_rename: "apart r src \<Longrightarrow> apart r dst \<Longrightarrow> stays r (rename_path src dst)"
proof -
  assume a: "apart r src" "apart r dst"
  have "stays r (rename_file src dst)"
    unfolding rename_file_def using a by (intro stays_rules stays_change stays_remove_file) (auto dest: apart_under apart_prefix)
  moreover have "stays r (rename_dir src dst)"
    unfolding rename_dir_def starts_with_under
    using a by (intro stays_rules stays_change) (auto simp: under_def dest: apart_under [unfolded under_def] apart_prefix)
  ultimately show ?thesis
    unfolding rename_path_def by (auto intro!: stays_rules split: option.splits node.splits)
qed

lemma stays_write_file:
  assumes "component f" "apart r (s @ [f])" "\<not> under r s" "s \<noteq> []"
    and put: "\<And>w. sw_file (put w) = sw_file w"
  shows "stays r (io_bind (stream_write s f) (\<lambda>w. stream_flush (put w)))"
proof (rule stays_bind_post)
  have p: "path_join s f = s @ [f]" "path_parent (s @ [f]) = Some s"
    using join_component [OF assms(1)] assms(4) by (simp_all add: parent_snoc)
  show "stays r (stream_write s f)"
    unfolding stream_write_def scope_remove_file_def Let_def p
    using assms(2,3) by (simp add: p) (intro stays_rules stays_remove_file stays_create_dir_all)
  fix w d d' assume "stream_write s f d = (Ret w, d')"
  then have "sw_file w = s @ [f]" using stream_write_new by (fastforce simp: p)
  then show "stays r (stream_flush (put w))"
    unfolding stream_flush_def put using stays_write assms(2) p(2) by simp
qed

section \<open>Access times\<close>

lemma valid_component: "is_valid_directory x \<Longrightarrow> component x" "is_valid_directory x \<Longrightarrow> x \<noteq> access_file \<and> x \<noteq> bytes ''_stale''"
proof -
  have p: "cache_prefix \<noteq> []" "0x2F \<notin> set cache_prefix" "hd cache_prefix = 0x72" "hd access_file = 0x5F" "hd (bytes ''_stale'') = 0x5F"
    by code_simp+
  assume x: "is_valid_directory x"
  then have eq: "x = cache_prefix @ drop (length cache_prefix) x" and h: "is_valid_hash (drop (length cache_prefix) x)"
    by (metis append_take_drop_id is_valid_directory_def starts_with_def, simp add: is_valid_directory_def)
  have "0x2F \<notin> set (drop (length cache_prefix) x)"
    using h by (auto simp: is_valid_hash_def list_all_iff is_ascii_digit_def)
  then have "0x2F \<notin> set x" using p(2) by (subst eq) simp
  moreover have "hd x = 0x72" using p(1,3) by (subst eq) simp
  ultimately show "component x" "x \<noteq> access_file \<and> x \<noteq> bytes ''_stale''"
    using p(4,5) eq p(1) by (auto simp: component_def)
qed

definition times_ok :: "access_times \<Rightarrow> bool" where
  "times_ok accessed \<longleftrightarrow> distinct (map fst accessed) \<and> list_all is_valid_directory (map fst accessed)"

lemma update_keys: "set (map fst (AList.update k v xs)) = insert k (set (map fst xs))"
  by (simp add: dom_update)

lemma times_ok_update: "times_ok accessed \<Longrightarrow> is_valid_directory x \<Longrightarrow> times_ok (AList.update x t accessed)"
  using update_keys [of x t accessed] by (auto simp: times_ok_def list_all_iff distinct_update)

lemma times_ok_parsed:
  "times_ok accessed \<Longrightarrow> times_ok (case parse_directory x of Some dir \<Rightarrow> AList.update dir t accessed | None \<Rightarrow> accessed)"
  by (simp add: parse_directory_def times_ok_update)

lemma access_lines_ok: "access_lines r accessed = Inr t \<Longrightarrow> times_ok accessed \<Longrightarrow> times_ok t"
proof (induction r accessed rule: access_lines.induct)
  case (1 r accessed)
  note eq = 1(2) [unfolded access_lines.simps [of r accessed]]
  show ?case
  proof (cases "\<exists>line r' dir x n. stream_read_line r = Inr (line, r') \<and> line \<noteq> [] \<and> split_once 0x20 line = Some (dir, x) \<and> parse_u64 x = Some n")
    case True
    then obtain line r' dir x n where l: "stream_read_line r = Inr (line, r')" "line \<noteq> []" "split_once 0x20 line = Some (dir, x)" "parse_u64 x = Some n"
      by blast
    show ?thesis by (rule 1(1) [OF l(1) refl l(2,3) refl l(4) _ times_ok_parsed [OF 1(3)]]) (use eq l in simp)
  next
    case False
    then show ?thesis using eq 1(3) by (auto split: sum.splits if_splits option.splits)
  qed
qed

lemma access_load_ok:
  assumes "io_try (or_default (access_load s) []) d = (Ret (Inr t), d')"
  shows "times_ok t"
proof (cases "access_load s d")
  case (Pair x d1)
  show ?thesis
  proof (cases x)
    case (Ret u)
    then have "u = t" using assms Pair by (simp add: io_try_def or_default_def io_bind_def io_return_def)
    then obtain r where "access_lines r [] = Inr t"
      using Pair Ret by (auto simp: access_load_def io_bind_def io_of_sum_def io_return_def io_fail_def split: prod.splits outcome.splits sum.splits)
    then show ?thesis by (rule access_lines_ok) (simp add: times_ok_def)
  qed (use assms Pair in \<open>auto simp: io_try_def or_default_def io_bind_def io_return_def io_fail_def times_ok_def split: if_splits\<close>)
qed

definition orders_ok :: "hash_orders \<Rightarrow> bool" where
  "orders_ok ho \<longleftrightarrow> (\<forall>t. mset (ho_times ho t) = mset t) \<and> (\<forall>cs. mset (ho_buckets ho cs) = mset cs) \<and> (\<forall>ch. mset (ho_changes ho ch) = mset ch)"

lemma retained:
  "fold (retain_time expire now) xs (kept, stale, n) = (kept', stale', n') \<Longrightarrow>
    set stale' \<subseteq> set stale \<union> {x. \<exists>t. (x, t) \<in> set xs \<and> wrap_u64 (t + expire) < now}"
  by (induction xs arbitrary: kept stale n) (fastforce simp: retain_time_def Let_def split: if_splits)+

lemma refresh_stale:
  assumes "access_refresh ho active expire now accessed = (accessed', stale, n)" "times_ok accessed" "is_valid_directory active"
    and "orders_ok ho" "now + expire < 2 ^ 64" "x \<in> set stale"
  shows "is_valid_directory x \<and> x \<noteq> active"
proof -
  let ?t = "AList.update active now accessed"
  have t: "times_ok ?t" by (rule times_ok_update [OF assms(2,3)])
  have same: "set (ho_times ho ?t) = set ?t" using assms(4) by (metis orders_ok_def set_mset_mset)
  obtain t where x: "(x, t) \<in> set ?t" "wrap_u64 (t + expire) < now"
    using assms(1,6) retained [of expire now "ho_times ho ?t" "[]" "[]"] same
    by (fastforce simp: access_refresh_def Let_def split: if_splits prod.splits)
  have "x \<noteq> active"
  proof
    assume "x = active"
    then have "map_of ?t active = Some t" using x(1) t by (auto simp: times_ok_def intro: map_of_is_SomeI)
    then have "t = now" by (simp add: update_conv')
    then show False using x(2) assms(5) by (simp add: wrap_u64_small)
  qed
  moreover have "is_valid_directory x" using t x(1) by (auto simp: times_ok_def list_all_iff)
  ultimately show ?thesis by simp
qed

section \<open>The refresh\<close>

lemma refresh_stays:
  assumes "s \<noteq> []" "is_valid_directory cd" "orders_ok ho" "snd clock + expire < 2 ^ 64"
  shows "stays (s @ [cd]) (refresh_metadata ho s (s @ [bytes ''_stale'']) cd expire clock n)"
proof -
  let ?r = "s @ [cd]" and ?stale = "s @ [bytes ''_stale'']"
  have names: "component access_file" by code_simp
  have load: "stays ?r (io_try (or_default (access_load s) []))"
    unfolding or_default_def access_load_def stream_read_def io_of_sum_def by (intro stays_rules)
  have save: "stays ?r (access_save ho accessed s)" for accessed
    unfolding access_save_def
  proof (rule stays_write_file [OF names])
    show "apart ?r (s @ [access_file])" using valid_component(2) [OF assms(2)] by (auto simp: apart_def)
    show "\<not> under ?r s" by (auto simp: under_def dest: prefix_length_le)
    have "sw_file (fold put_access xs w) = sw_file w" for xs and w
      by (induction xs arbitrary: w) (simp_all add: put_access_def stream_put_line_def stream_put_def)
    then show "sw_file (fold put_access (ho_times ho accessed) w) = sw_file w" for w .
  qed (rule assms(1))
  have move: "stays ?r (move_stale_directories s ?stale stale)" if "\<And>x. x \<in> set stale \<Longrightarrow> is_valid_directory x \<and> x \<noteq> cd" for stale
    unfolding move_stale_directories_def ensure_exist_def
  proof (intro stays_bind stays_create_dir_all stays_each)
    show "\<not> under ?r ?stale" using valid_component(2) [OF assms(2)] by (auto simp: under_def)
    fix x assume "x \<in> set stale"
    then have x: "is_valid_directory x" "x \<noteq> cd" using that by auto
    then have "apart ?r (s @ [x])" "apart ?r (?stale @ [x])"
      using valid_component(2) [OF assms(2)] by (auto simp: apart_def prefix_append)
    then show "stays ?r (move_to s ?stale x)"
      unfolding move_to_def join_component [OF valid_component(1) [OF x(1)]] by (intro stays_rules stays_rename)
  qed
  show ?thesis
    unfolding refresh_metadata_def
  proof (intro stays_if stays_basic stays_bind_post [OF load])
    fix x d d' assume run: "io_try (or_default (access_load s) []) d = (Ret x, d')"
    show "stays ?r (case x of Inl e \<Rightarrow> io_return n
      | Inr accessed \<Rightarrow> (case access_refresh ho cd expire (snd clock) accessed of (accessed, stale, next_check) \<Rightarrow>
          io_bind (io_try (access_save ho accessed s)) (\<lambda>r. case r of
            Inl e \<Rightarrow> io_return n
          | Inr _ \<Rightarrow> io_bind (io_try (move_stale_directories s ?stale stale)) (\<lambda>r. case r of
              Inl e \<Rightarrow> io_return n
            | Inr _ \<Rightarrow> io_return next_check))))"
    proof (cases x)
      case (Inr t)
      obtain accessed stale next_check where res: "access_refresh ho cd expire (snd clock) t = (accessed, stale, next_check)" by (metis prod_cases3)
      have "is_valid_directory y \<and> y \<noteq> cd" if "y \<in> set stale" for y
        using refresh_stale [OF res access_load_ok assms(2,3,4) that] run Inr by simp
      from move [OF this] show ?thesis unfolding Inr sum.case res prod.case using save by (intro stays_rules)
    qed (simp add: stays_basic)
  qed
qed

definition never_fails :: "'a io \<Rightarrow> bool" where
  "never_fails m \<longleftrightarrow> (\<forall>d e d'. m d \<noteq> (Fail e, d'))"

lemma never_fails_return: "never_fails (io_return x)"
  by (simp add: never_fails_def io_return_def)

lemma never_fails_bind: "(\<And>x. never_fails (f x)) \<Longrightarrow> never_fails (io_bind (io_try m) f)"
  by (auto simp: never_fails_def io_bind_def io_try_def split: prod.splits outcome.splits)

lemma refresh_returns:
  assumes "s \<noteq> []" "is_valid_directory cd" "orders_ok ho" "snd clock + expire < 2 ^ 64" "dk_steps d = None"
  shows "\<exists>n' d'. refresh_metadata ho s (s @ [bytes ''_stale'']) cd expire clock n d = (Ret n', d') \<and> frame (s @ [cd]) d d' \<and> dk_steps d' = None"
proof -
  let ?m = "refresh_metadata ho s (s @ [bytes ''_stale'']) cd expire clock n"
  have "never_fails ?m"
    unfolding refresh_metadata_def
    by (auto intro!: never_fails_return never_fails_bind split: sum.splits prod.splits)
  then show ?thesis 
    using stays_run [OF refresh_stays [OF assms(1-4), of n] assms(5)]
    unfolding never_fails_def by (cases "?m d"; cases "fst (?m d)") auto
qed

section \<open>The cache beside the maintenance\<close>

lemma frame_shape:
  assumes "shape r d" "frame r d d'"
  shows "shape r d'"
proof -
  have "cont d' q = None" if "q \<in> cache_dirs r" for q
  proof (cases "under r q")
    case True
    then show ?thesis using assms that frame_cont by (simp add: shape_def)
  next
    case False
    then have "prefix q r" using that by (auto simp: cache_dirs_def dirs_to_def temp_of_def under_def)
    then show ?thesis using assms that by (simp add: shape_def frame_def)
  qed
  moreover have "under r q" if "q \<in> cache_files r" for q
    using that by (auto simp: cache_files_def under_def temp_of_def state_path_def commit_path_def)
  moreover have "under r (r @ [n])" "under r (r @ [n, f])" for n f by (simp_all add: under_def)
  ultimately show ?thesis
    using assms(1) frame_cont [OF assms(2)] frame_dir [OF assms(2)] by (simp add: shape_def)
qed

lemma frame_bucket: "frame r d d' \<Longrightarrow> holds_map rt r lim d n m b \<Longrightarrow> holds_map rt r lim d' n m b"
  by (erule holds_map_cong) (simp add: frame_cont under_def)

lemma frame_lock: "frame r d d' \<Longrightarrow> lock_at r d' l = lock_at r d l" "frame r d d' \<Longrightarrow> cont d' (commit_path r) = cont d (commit_path r)"
  by (simp_all add: lock_at_def frame_cont under_def state_path_def commit_path_def temp_of_def)

lemma frame_settled: "settled rt r lim M d \<Longrightarrow> frame r d d' \<Longrightarrow> settled rt r lim M d'"
proof -
  assume a: "settled rt r lim M d" "frame r d d'"
  have "stored rt r lim M d'" using a frame_bucket [OF a(2)] by (fastforce simp: settled_def stored_def)
  moreover have "cont d' (state_path r) = cont d (state_path r)" by (rule frame_cont [OF a(2)]) (simp add: under_def state_path_def temp_of_def)
  ultimately show "settled rt r lim M d'" using a frame_shape [OF _ a(2)] frame_lock [OF a(2)] by (simp add: settled_def)
qed

lemma frame_cache: "cache_ok rt r lim M c d \<Longrightarrow> frame r d d' \<Longrightarrow> cache_ok rt r lim M c d'"
  using frame_bucket frame_dir [of r d d'] by (fastforce simp: cache_ok_def under_def)

end
