(* ===== verification/Storage_Refine.thy ===== *)
theory Storage_Refine
  imports Storage_Refresh Storage_Correct
begin

text \<open>
  The storage refines maps: whatever the compiler does, with the worker running its tasks in between, a load returns the
  entries that the specification has, and a process that is started anew finds what was saved.
\<close>

section \<open>The specification\<close>

text \<open>The saved maps, the transformations that wait to be run, and the updates since the last save.\<close>

type_synonym updates = "u8 list \<Rightarrow> u8 list \<rightharpoonup> u8 list option"

record spec_state =
  sp_maps :: stores
  sp_queue :: "(stores \<Rightarrow> stores) list"
  sp_updates :: updates

definition spec_new :: "stores \<Rightarrow> spec_state" where
  "spec_new M = \<lparr>sp_maps = M, sp_queue = [], sp_updates = (\<lambda>_. Map.empty)\<rparr>"

definition spec_save :: "updates \<Rightarrow> stores \<Rightarrow> stores" where
  "spec_save U M n k = (case U n k of Some v \<Rightarrow> v | None \<Rightarrow> M n k)"

fun spec_step :: "storage_op \<Rightarrow> spec_state \<Rightarrow> (u8 list \<rightharpoonup> u8 list) list \<times> spec_state" where
  "spec_step (SetOp n k v) s = ([], s\<lparr>sp_updates := (sp_updates s)(n := (sp_updates s n)(k \<mapsto> Some v))\<rparr>)"
| "spec_step (RemoveOp n k) s = ([], s\<lparr>sp_updates := (sp_updates s)(n := (sp_updates s n)(k \<mapsto> None))\<rparr>)"
| "spec_step SaveOp s = ([], s\<lparr>sp_queue := sp_queue s @ [spec_save (sp_updates s)], sp_updates := \<lambda>_. Map.empty\<rparr>)"
| "spec_step (ResetOp n) s = ([], s\<lparr>sp_queue := sp_queue s @ [\<lambda>M. M(n := Map.empty)], sp_updates := (sp_updates s)(n := Map.empty)\<rparr>)"
| "spec_step ResetAllOp s = ([], s\<lparr>sp_queue := sp_queue s @ [\<lambda>_ _. Map.empty], sp_updates := \<lambda>_. Map.empty\<rparr>)"
| "spec_step (LoadOp n) s = ([sp_maps s n], s)"
| "spec_step (WorkOp clock) s = ([], case sp_queue s of [] \<Rightarrow> s | f # fs \<Rightarrow> s\<lparr>sp_queue := fs, sp_maps := f (sp_maps s)\<rparr>)"
| "spec_step RestartOp s = ([], spec_new (sp_maps s))"

fun spec_run :: "storage_op list \<Rightarrow> spec_state \<Rightarrow> (u8 list \<rightharpoonup> u8 list) list" where
  "spec_run [] s = []"
| "spec_run (op # ops) s = (case spec_step op s of (loaded, s) \<Rightarrow> loaded @ spec_run ops s)"

section \<open>A database that no process holds\<close>

definition ready :: "'h storage_rt \<Rightarrow> path \<Rightarrow> nat \<Rightarrow> stores \<Rightarrow> database \<Rightarrow> disk \<Rightarrow> bool" where
  "ready rt r lim M db d \<longleftrightarrow> db_at rt r lim M db d \<and> cont d (commit_path r) = None \<and> (\<forall>l. \<not> lock_at r d l) \<and> tree_ok d \<and> dk_steps d = None"

lemma ready_dead: "ready rt r lim M db d \<Longrightarrow> owner_dead p r d"
  by (simp add: ready_def owner_dead_def)

lemma ready_settled: "ready rt r lim M db d \<Longrightarrow> settled rt r lim M d"
  by (auto simp: ready_def db_at_def recoverable_def committing_def)

lemma readyI:
  "settled rt r lim M d \<Longrightarrow> cache_ok rt r lim M (db_buckets db) d \<Longrightarrow> db_fs db = r \<Longrightarrow> \<not> db_readonly db \<Longrightarrow> (\<forall>l. \<not> lock_at r d l) \<Longrightarrow>
    tree_ok d \<Longrightarrow> dk_steps d = None \<Longrightarrow> ready rt r lim M db d"
  by (simp add: ready_def db_at_def recoverable_def settled_def)

lemma ready_new: "ready rt r lim M db d \<Longrightarrow> ready rt r lim M (db_new r) d"
  by (rule readyI [OF ready_settled]) (auto simp: ready_def cache_ok_def db_new_def)

lemma tree_run: "keeps tree_ok m \<Longrightarrow> m d = (x, d') \<Longrightarrow> tree_ok d \<Longrightarrow> tree_ok d'"
  by (metis keeps_def snd_conv)

lemma ready_run:
  assumes "ready rt r lim M db d" "gives m d Q C" "keeps tree_ok m"
  shows "\<exists>x d'. m d = (Ret x, d') \<and> Q x d' \<and> tree_ok d' \<and> dk_steps d' = None"
  using gives_run [OF assms(2)] assms(1) tree_run [OF assms(3)] by (auto simp: ready_def)

lemma ready_load:
  assumes "ready rt r lim M db d" "rt_ok rt" "bucket_name n"
  shows "\<exists>data db' d'. db_load p rt n db d = (Ret (Inr data, db'), d') \<and> map_of data = M n \<and> distinct (map fst data) \<and> ready rt r lim M db' d'"
proof -
  have "db_at rt r lim M db d" using assms(1) by (simp add: ready_def)
  from ready_run [OF assms(1) db_load_gives [where p = p, OF this ready_dead [OF assms(1)] assms(2,3)] tree.db_keeps(1)]
  obtain res d' where run: "db_load p rt n db d = (Ret res, d')" "\<exists>data. fst res = Inr data \<and> map_of data = M n \<and> distinct (map fst data)"
    "ready rt r lim M (snd res) d'"
    using assms(1) by (auto simp: ready_def)
  obtain x db' where "res = (x, db')" by (cases res)
  then show ?thesis using run by auto
qed

lemma ready_save:
  assumes "ready rt r lim M db d" "rt_ok rt" "process_ok p" "changes_ok cs M room" "lim + room < 2 ^ 64"
  shows "\<exists>db' d'. db_save p rt cs mx db d = (Ret (True, db'), d') \<and> ready rt r (lim + room) (save_maps cs M) db' d'"
proof -
  have "db_at rt r lim M db d" using assms(1) by (simp add: ready_def)
  from ready_run [OF assms(1) db_save_gives [where p = p and mx = mx, OF this ready_dead [OF assms(1)] assms(3,2,4,5)] tree.db_keeps(2)]
  obtain res d' where run: "db_save p rt cs mx db d = (Ret res, d')" "fst res" "ready rt r (lim + room) (save_maps cs M) (snd res) d'"
    using assms(1) by (auto simp: ready_def)
  then show ?thesis by (metis prod.collapse)
qed

lemma ready_reset:
  assumes "ready rt r lim M db d" "bucket_name n"
  shows "\<exists>ok db' d'. db_reset n db d = (Ret (ok, db'), d') \<and> ready rt r lim (M(n := Map.empty)) db' d'"
proof -
  have "db_at rt r lim M db d" "cont d (commit_path r) = None" using assms(1) by (simp_all add: ready_def)
  from ready_run [OF assms(1) db_reset_gives [OF this assms(2)] tree.db_keeps(3)]
  obtain res d' where "db_reset n db d = (Ret res, d')" "ready rt r lim (M(n := Map.empty)) (snd res) d'"
    using assms(1) by (auto simp: ready_def reset_map_def)
  then show ?thesis by (metis prod.collapse)
qed

lemma ready_reset_all:
  assumes "ready rt r lim M db d"
  shows "\<exists>ok db' d'. db_reset_all db d = (Ret (ok, db'), d') \<and> ready rt r lim (\<lambda>_. Map.empty) db' d'"
proof -
  have s: "settled rt r lim M d" and shape: "shape r d" using ready_settled [OF assms] by (simp_all add: settled_def)
  have db: "db_fs db = r" "\<not> db_readonly db" "tree_ok d" using assms by (simp_all add: ready_def db_at_def)
  have rd: "cont d r = None" using shape_no_file(1) [OF shape] by (simp add: temp_of_def)
  have r: "r \<noteq> []" using shape by (simp add: shape_def)
  obtain u d' where run: "scope_remove r d = (Ret u, d')" "dk_steps d' = None" "tree_ok d'"
    and d': "if isdir d r then \<forall>q. dk_files d' q = (if under r q then None else dk_files d q) else d' = d"
    using ready_run [OF assms scope_remove_gives [OF rd] tree.scope_keeps(2)] by blast
  have gone: "dk_files d' q = (if q \<noteq> r \<and> under r q then None else dk_files d' q)" for q
  proof (cases "isdir d r \<or> q = r \<or> \<not> under r q")
    case True
    then show ?thesis using d' by auto
  next
    case False
    then obtain s where "q = r @ s" "s \<noteq> []" by (auto simp: under_def prefix_def)
    then show ?thesis using d' tree_under [OF db(3) r, of s] False by simp
  qed
  have none: "cont d' q = None" "\<not> isdir d' q" if "q \<noteq> r" "under r q" for q
    using gone [of q] that by (simp_all add: cont_None isdir_def)
  have same: "cont d' q = cont d q \<or> cont d' q = None" for q
    using d' by (auto simp: cont_def split: if_splits)
  have lim: "0 < lim"
  proof -
    have "bucket_name [0x62]" by code_simp
    then show ?thesis using stored_lim s by (auto simp: settled_def)
  qed
  have "stored rt r lim (\<lambda>_. Map.empty) d'"
    unfolding stored_def using default_bucket [OF none(1) lim, of r] by (fastforce simp: under_def)
  moreover have "shape r d'"
  proof -
    have "cont d' q = None" if "q \<in> cache_dirs r" for q using shape that same [of q] by (auto simp: shape_def)
    moreover have "\<not> isdir d' q" if "q \<in> cache_files r" for q
      using that none(2) [of q] by (auto simp: cache_files_def under_def temp_of_def state_path_def commit_path_def)
    moreover have "cont d' (r @ [n, f]) = None" for n f by (rule none(1)) (simp_all add: under_def)
    ultimately show ?thesis using r by (simp add: shape_def)
  qed
  moreover have "cont d' (state_path r) = None" "cont d' (commit_path r) = None"
    by (rule none(1); simp add: under_def state_path_def commit_path_def temp_of_def)+
  ultimately have "settled rt r lim (\<lambda>_. Map.empty) d' \<and> (\<forall>l. \<not> lock_at r d' l)" by (simp add: settled_def lock_at_def)
  then have "ready rt r lim (\<lambda>_. Map.empty) (db\<lparr>db_buckets := Map.empty\<rparr>) d'"
    using db run by (intro readyI) (simp_all add: cache_ok_def)
  moreover have "db_reset_all db d = (Ret (True, db\<lparr>db_buckets := Map.empty\<rparr>), d')"
    using db run by (simp add: db_reset_all_def io_bind_def io_try_def io_return_def Let_def)
  ultimately show ?thesis by blast
qed

lemma ready_refresh:
  assumes "ready rt (s @ [cd]) lim M db d" "s \<noteq> []" "is_valid_directory cd" "orders_ok ho" "snd clock + expire < 2 ^ 64"
  shows "\<exists>n' d'. refresh_metadata ho s (s @ [bytes ''_stale'']) cd expire clock n d = (Ret n', d') \<and> ready rt (s @ [cd]) lim M db d'"
proof -
  have "dk_steps d = None" using assms(1) by (simp add: ready_def)
  then obtain n' d' where run: "refresh_metadata ho s (s @ [bytes ''_stale'']) cd expire clock n d = (Ret n', d')"
    "frame (s @ [cd]) d d'" "dk_steps d' = None" using refresh_returns [OF assms(2-5)] by blast
  have "tree_ok d'" using tree_run [OF tree.refresh_keeps run(1)] assms(1) by (simp add: ready_def)
  moreover have "cache_ok rt (s @ [cd]) lim M (db_buckets db) d'"
    by (rule frame_cache [OF _ run(2)]) (use assms(1) in \<open>simp add: ready_def db_at_def\<close>)
  ultimately have "ready rt (s @ [cd]) lim M db d'"
    using assms(1) run frame_settled [OF ready_settled [OF assms(1)] run(2)] frame_lock(1) [OF run(2)]
    by (intro readyI) (simp_all add: ready_def db_at_def)
  then show ?thesis using run by blast
qed

lemma ready_mono: "ready rt r lim M db d \<Longrightarrow> lim \<le> lim' \<Longrightarrow> ready rt r lim' M db d"
  by (auto simp: ready_def db_at_def intro: recoverable_mono cache_mono)

section \<open>Updates\<close>

text \<open>The new keys are among \<open>K\<close>; keys and values are short enough for their lengths to be stored.\<close>

definition change_ok :: "u8 list set \<Rightarrow> u8 list \<times> u8 list option \<Rightarrow> bool" where
  "change_ok K kv \<longleftrightarrow> (\<forall>x. snd kv = Some x \<longrightarrow> fst kv \<in> K \<and> length (fst kv) < 2 ^ 64 \<and> length x < 2 ^ 64)"

definition bucket_changes_ok :: "u8 list set \<Rightarrow> u8 list \<times> changes \<Rightarrow> bool" where
  "bucket_changes_ok K nc \<longleftrightarrow> bucket_name (fst nc) \<and> distinct (map fst (snd nc)) \<and> (\<forall>kv \<in> set (snd nc). change_ok K kv)"

definition updates_ok :: "u8 list set \<Rightarrow> (u8 list \<times> changes) list \<Rightarrow> bool" where
  "updates_ok K us \<longleftrightarrow> distinct (map fst us) \<and> (\<forall>nc \<in> set us. bucket_changes_ok K nc)"

definition updates_of :: "(u8 list \<times> changes) list \<Rightarrow> updates" where
  "updates_of us n = (case map_of us n of Some ch \<Rightarrow> map_of ch | None \<Rightarrow> Map.empty)"

lemma update_mem: "kv \<in> set (AList.update k v xs) \<Longrightarrow> kv = (k, v) \<or> kv \<in> set xs"
  by (induction xs) (auto split: if_splits)

lemma map_of_perm:
  assumes "mset xs = mset ys" "distinct (map fst ys)"
  shows "map_of xs = map_of ys"
proof -
  have d: "distinct (map fst xs)" using assms by (metis mset_eq_imp_distinct_iff mset_map)
  have "map_of xs k = Some v \<longleftrightarrow> map_of ys k = Some v" for k v
    using assms(1) map_of_eq_Some_iff [OF d] map_of_eq_Some_iff [OF assms(2)] by (metis set_mset_mset)
  then show ?thesis by (intro ext) (metis not_Some_eq)
qed

lemma new_entries_mem: "(k, x) \<in> set (new_entries ch) \<longleftrightarrow> (k, Some x) \<in> set ch"
  by (force simp: new_entries_def List.map_filter_def split: option.splits)

lemma stage_ok:
  assumes "updates_ok K (so_updates s)" "bucket_name n" "change_ok K (k, v)"
  shows "updates_ok K (so_updates (stage_update n k v s))"
    "updates_of (so_updates (stage_update n k v s)) = (updates_of (so_updates s))(n := (updates_of (so_updates s) n)(k \<mapsto> v))"
proof -
  define ch where "ch = (case map_of (so_updates s) n of Some ch \<Rightarrow> ch | None \<Rightarrow> [])"
  have us: "so_updates (stage_update n k v s) = AList.update n (AList.update k v ch) (so_updates s)"
    by (simp add: stage_update_def ch_def Let_def)
  have "distinct (map fst ch) \<and> (\<forall>kv \<in> set ch. change_ok K kv)"
    using assms(1) by (auto simp: ch_def updates_ok_def bucket_changes_ok_def split: option.splits dest: map_of_SomeD)
  then have "bucket_changes_ok K (n, AList.update k v ch)"
    using assms(2,3) by (auto simp: bucket_changes_ok_def distinct_update dest: update_mem)
  then show "updates_ok K (so_updates (stage_update n k v s))"
    using assms(1) unfolding us by (auto simp: updates_ok_def distinct_update dest: update_mem)
  show "updates_of (so_updates (stage_update n k v s)) = (updates_of (so_updates s))(n := (updates_of (so_updates s) n)(k \<mapsto> v))"
    unfolding us by (rule ext) (auto simp: updates_of_def update_conv' ch_def fun_eq_iff split: option.splits)
qed

lemma delete_ok:
  assumes "updates_ok K us"
  shows "updates_ok K (AList.delete n us)" "updates_of (AList.delete n us) = (updates_of us)(n := Map.empty)"
proof -
  have "set (AList.delete n us) \<subseteq> set us" by (induction us) auto
  then show "updates_ok K (AList.delete n us)" using assms by (auto simp: updates_ok_def distinct_delete)
  show "updates_of (AList.delete n us) = (updates_of us)(n := Map.empty)"
    by (rule ext) (simp add: updates_of_def delete_conv')
qed

lemma visited_ok:
  assumes "updates_ok K us" "orders_ok ho"
  defines "cs \<equiv> map (\<lambda>(n, ch). (n, ho_changes ho ch)) (ho_buckets ho us)"
  shows "updates_ok K cs" "save_maps cs M = spec_save (updates_of us) M"
proof -
  have b: "mset (ho_buckets ho us) = mset us" and c: "mset (ho_changes ho ch) = mset ch" for ch using assms(2) by (simp_all add: orders_ok_def)
  then have sets: "set (ho_buckets ho us) = set us" "set (ho_changes ho ch) = set ch" for ch by (metis set_mset_mset)+
  have "bucket_changes_ok K (n, ho_changes ho ch)" if "(n, ch) \<in> set us" for n ch
  proof -
    have "bucket_changes_ok K (n, ch)" using that assms(1) by (auto simp: updates_ok_def)
    moreover have "distinct (map fst (ho_changes ho ch)) = distinct (map fst ch)" by (metis c mset_eq_imp_distinct_iff mset_map)
    ultimately show ?thesis by (simp add: bucket_changes_ok_def sets)
  qed
  then have "\<forall>nc \<in> set cs. bucket_changes_ok K nc" by (auto simp: cs_def sets)
  moreover have "map fst cs = map fst (ho_buckets ho us)" by (simp add: cs_def case_prod_beta)
  moreover have "distinct (map fst (ho_buckets ho us)) = distinct (map fst us)" by (metis b mset_eq_imp_distinct_iff mset_map)
  ultimately show "updates_ok K cs" using assms(1) by (simp only: updates_ok_def)
  have find: "map_of cs n = map_option (ho_changes ho) (map_of us n)" for n
    using map_of_perm [OF b] assms(1) by (simp add: cs_def map_of_map updates_ok_def)
  have "map_of (ho_changes ho ch) = map_of ch" if "map_of us n = Some ch" for n ch
    by (rule map_of_perm [OF c]) (use that assms(1) in \<open>auto simp: updates_ok_def bucket_changes_ok_def dest: map_of_SomeD\<close>)
  then show "save_maps cs M = spec_save (updates_of us) M"
    by (auto simp: save_maps_def find spec_save_def updates_of_def apply_changes_def fun_eq_iff split: option.splits)
qed

lemma saved_keys:
  assumes "updates_ok K cs" "dom (M n) \<subseteq> K"
  shows "dom (save_maps cs M n) \<subseteq> K"
proof
  fix k assume "k \<in> dom (save_maps cs M n)"
  then show "k \<in> K"
    using assms unfolding save_maps_def apply_changes_def dom_def updates_ok_def bucket_changes_ok_def change_ok_def
    by (fastforce split: option.splits dest: map_of_SomeD)
qed

lemma saved_ok:
  assumes "updates_ok K cs" "\<And>n. dom (M n) \<subseteq> K" "finite K" "card K \<le> room"
  shows "changes_ok cs M room"
  unfolding changes_ok_def case_prod_beta
proof (intro conjI ballI)
  show "distinct (map fst cs)" using assms(1) by (simp add: updates_ok_def)
  fix nc assume "nc \<in> set cs"
  then have nc: "bucket_changes_ok K nc" using assms(1) by (simp add: updates_ok_def)
  then show "bucket_name (fst nc)" "distinct (map fst (snd nc))" by (simp_all add: bucket_changes_ok_def)
  show "storable (new_entries (snd nc))" using nc by (force simp: storable_def new_entries_mem bucket_changes_ok_def change_ok_def)
  show "card (dom (save_maps cs M (fst nc))) \<le> room"
    using card_mono [OF assms(3) saved_keys [OF assms(1,2)]] assms(4) by (rule le_trans)
qed

section \<open>Refinement\<close>

fun task_ok :: "u8 list set \<Rightarrow> task \<Rightarrow> (stores \<Rightarrow> stores) \<Rightarrow> bool" where
  "task_ok K (SaveTask cs) f = (updates_ok K cs \<and> (\<forall>M. f M = save_maps cs M))"
| "task_ok K (ResetTask n) f = (bucket_name n \<and> (\<forall>M. f M = M(n := Map.empty)))"
| "task_ok K ResetAllTask f = (\<forall>M. f M = (\<lambda>_. Map.empty))"

definition storage_at :: "'h storage_rt \<Rightarrow> storage_options \<Rightarrow> u8 list set \<Rightarrow> nat \<Rightarrow> spec_state \<Rightarrow> fs_storage \<Rightarrow> disk \<Rightarrow> bool" where
  "storage_at rt opts K lim a s d \<longleftrightarrow> so_fs s = op_directory opts \<and> so_options s = opts \<and>
    ready rt (op_directory opts @ [op_cache_directory opts]) lim (sp_maps a) (so_db s) d \<and> (\<forall>n. dom (sp_maps a n) \<subseteq> K) \<and>
    list_all2 (task_ok K) (so_task_queue s) (sp_queue a) \<and> updates_ok K (so_updates s) \<and> updates_of (so_updates s) = sp_updates a"

fun op_ok :: "nat \<Rightarrow> storage_op \<Rightarrow> bool" where
  "op_ok expire (SetOp n k v) = (bucket_name n \<and> length k < 2 ^ 64 \<and> length v < 2 ^ 64)"
| "op_ok expire (RemoveOp n k) = bucket_name n"
| "op_ok expire (ResetOp n) = bucket_name n"
| "op_ok expire (LoadOp n) = bucket_name n"
| "op_ok expire (WorkOp clock) = (snd clock + expire < 2 ^ 64)"
| "op_ok expire SaveOp = True"
| "op_ok expire ResetAllOp = True"
| "op_ok expire RestartOp = True"

definition loads :: "storage_error + pack_data \<Rightarrow> (u8 list \<rightharpoonup> u8 list) \<Rightarrow> bool" where
  "loads res m \<longleftrightarrow> (\<exists>data. res = Inr data \<and> map_of data = m \<and> distinct (map fst data))"

lemma stage_fields [simp]:
  "so_fs (stage_update n k v s) = so_fs s" "so_options (stage_update n k v s) = so_options s" "so_db (stage_update n k v s) = so_db s"
  "so_task_queue (stage_update n k v s) = so_task_queue s"
  by (simp_all add: stage_update_def Let_def)

lemma no_updates [simp]: "updates_of [] = (\<lambda>_. Map.empty)" "updates_ok K []"
  by (simp_all add: updates_of_def updates_ok_def fun_eq_iff)

definition options_ok :: "storage_options \<Rightarrow> bool" where
  "options_ok opts \<longleftrightarrow> op_directory opts \<noteq> [] \<and> is_valid_directory (op_cache_directory opts)"

lemma storage_new_at:
  assumes "options_ok opts" "ready rt (op_directory opts @ [op_cache_directory opts]) lim M db d" "\<And>n. dom (M n) \<subseteq> K"
  shows "storage_at rt opts K lim (spec_new M) (storage_new opts) d"
  using assms ready_new [OF assms(2)] join_component [OF valid_component(1)]
  by (simp add: storage_at_def storage_new_def spec_new_def child_fs_def options_ok_def)

text \<open>The worker.\<close>

lemma run_task_at:
  assumes at: "storage_at rt opts K lim a s d" and opts: "options_ok opts" and t: "task_ok K t f"
    and env: "rt_ok rt" "orders_ok ho" "process_ok p" and K: "finite K" "card K \<le> room" "lim + room < 2 ^ 64"
    and clock: "snd clock + op_expire opts < 2 ^ 64"
  shows "\<exists>s' d'. run_task p rt ho clock t s d = (Ret s', d') \<and> storage_at rt opts K (lim + room) (a\<lparr>sp_maps := f (sp_maps a)\<rparr>) s' d'"
proof -
  let ?r = "op_directory opts @ [op_cache_directory opts]"
  have ready: "ready rt ?r lim (sp_maps a) (so_db s) d" and keys: "\<And>n. dom (sp_maps a n) \<subseteq> K"
    and fields: "so_fs s = op_directory opts" "so_options s = opts" using at by (simp_all add: storage_at_def)
  have done_at: "storage_at rt opts K (lim + room) (a\<lparr>sp_maps := f (sp_maps a)\<rparr>) (s\<lparr>so_db := db, so_next_refresh := n\<rparr>) d'"
    if "ready rt ?r (lim + room) (f (sp_maps a)) db d'" "\<And>n. dom (f (sp_maps a) n) \<subseteq> K" for db n d'
    using at that by (simp add: storage_at_def)
  have done_db: "storage_at rt opts K (lim + room) (a\<lparr>sp_maps := f (sp_maps a)\<rparr>) (s\<lparr>so_db := db\<rparr>) d'"
    if "ready rt ?r (lim + room) (f (sp_maps a)) db d'" "\<And>n. dom (f (sp_maps a) n) \<subseteq> K" for db d'
    using at that by (simp add: storage_at_def)
  show ?thesis
  proof (cases t)
    case (SaveTask cs)
    then have cs: "updates_ok K cs" "f (sp_maps a) = save_maps cs (sp_maps a)" using t by simp_all
    obtain db1 d1 where saved: "db_save p rt cs (op_max_pack_size opts) (so_db s) d = (Ret (True, db1), d1)"
      and r1: "ready rt ?r (lim + room) (f (sp_maps a)) db1 d1"
      using ready_save [OF ready env(1,3) saved_ok [OF cs(1) keys K(1,2)] K(3)] cs(2) by metis
    have "op_directory opts \<noteq> []" "is_valid_directory (op_cache_directory opts)" using opts by (simp_all add: options_ok_def)
    from ready_refresh [OF r1 this env(2) clock]
    obtain n2 d2 where refreshed: "refresh_metadata ho (op_directory opts) (op_directory opts @ [bytes ''_stale'']) (op_cache_directory opts)
        (op_expire opts) clock (so_next_refresh s) d1 = (Ret n2, d2)" and r2: "ready rt ?r (lim + room) (f (sp_maps a)) db1 d2" by blast
    have "component (bytes ''_stale'')" by code_simp
    then have "storage_stale_fs s = op_directory opts @ [bytes ''_stale'']"
      by (simp add: storage_stale_fs_def child_fs_def join_component fields)
    then have "run_task p rt ho clock t s d = (Ret (s\<lparr>so_db := db1, so_next_refresh := n2\<rparr>), d2)"
      using saved refreshed by (simp add: run_task_def SaveTask fields io_bind_def io_return_def)
    moreover have "dom (f (sp_maps a) n) \<subseteq> K" for n using saved_keys [OF cs(1) keys] by (simp add: cs(2))
    ultimately show ?thesis using done_at [OF r2] by blast
  next
    case (ResetTask n)
    then have f: "bucket_name n" "f (sp_maps a) = (sp_maps a)(n := Map.empty)" using t by simp_all
    obtain ok db' d' where "db_reset n (so_db s) d = (Ret (ok, db'), d')" "ready rt ?r lim (f (sp_maps a)) db' d'"
      using ready_reset [OF ready f(1)] f(2) by auto
    then have "run_task p rt ho clock t s d = (Ret (s\<lparr>so_db := db'\<rparr>), d')" "ready rt ?r (lim + room) (f (sp_maps a)) db' d'"
      by (simp_all add: run_task_def ResetTask io_bind_def io_return_def ready_mono [OF _ le_add1])
    moreover have "dom (f (sp_maps a) m) \<subseteq> K" for m using keys [of m] by (simp add: f(2))
    ultimately show ?thesis using done_db by blast
  next
    case ResetAllTask
    then have f: "f (sp_maps a) = (\<lambda>_. Map.empty)" using t by simp
    obtain ok db' d' where "db_reset_all (so_db s) d = (Ret (ok, db'), d')" "ready rt ?r lim (f (sp_maps a)) db' d'"
      using ready_reset_all [OF ready] f by auto
    then have "run_task p rt ho clock t s d = (Ret (s\<lparr>so_db := db'\<rparr>), d')" "ready rt ?r (lim + room) (f (sp_maps a)) db' d'"
      by (simp_all add: run_task_def ResetAllTask io_bind_def io_return_def ready_mono [OF _ le_add1])
    moreover have "dom (f (sp_maps a) m) \<subseteq> K" for m by (simp add: f)
    ultimately show ?thesis using done_db by blast
  qed
qed

text \<open>The keys an operation may add.\<close>

fun op_keys :: "storage_op \<Rightarrow> u8 list set" where
  "op_keys (SetOp n k v) = {k}"
| "op_keys _ = {}"

lemma storage_step_at:
  assumes at: "storage_at rt opts K lim a s d" and opts: "options_ok opts" and op: "op_ok (op_expire opts) op" "op_keys op \<subseteq> K"
    and env: "rt_ok rt" "orders_ok ho" "process_ok p" and K: "finite K" "card K \<le> room" "lim + room < 2 ^ 64"
  shows "\<exists>out s' d'. storage_step p rt ho op s d = (Ret (out, s'), d') \<and> list_all2 loads out (fst (spec_step op a)) \<and>
    storage_at rt opts K (lim + room) (snd (spec_step op a)) s' d'"
proof -
  have ready: "ready rt (op_directory opts @ [op_cache_directory opts]) (lim + room) (sp_maps a) (so_db s) d"
    and keys: "\<And>n. dom (sp_maps a n) \<subseteq> K" and us: "updates_ok K (so_updates s)" "updates_of (so_updates s) = sp_updates a"
    and queue: "list_all2 (task_ok K) (so_task_queue s) (sp_queue a)" and fields: "so_fs s = op_directory opts" "so_options s = opts"
    using at by (auto simp: storage_at_def intro: ready_mono [OF _ le_add1])
  have new: "storage_at rt opts K (lim + room) a' s' d"
    if "so_fs s' = so_fs s" "so_options s' = so_options s" "so_db s' = so_db s" "sp_maps a' = sp_maps a"
      "list_all2 (task_ok K) (so_task_queue s') (sp_queue a')" "updates_ok K (so_updates s')" "updates_of (so_updates s') = sp_updates a'" for a' s'
    using that fields ready keys by (simp add: storage_at_def)
  have queued: "list_all2 (task_ok K) (so_task_queue s @ [t]) (sp_queue a @ [f])" if "task_ok K t f" for t f
    using queue that by (simp add: list_all2_appendI)
  show ?thesis
  proof (cases op)
    case (SetOp n k v)
    then have "bucket_name n" "change_ok K (k, Some v)" using op by (simp_all add: change_ok_def)
    from new [of "storage_set n k v s" "snd (spec_step op a)"] stage_ok [OF us(1) this] queue
    show ?thesis by (simp add: SetOp storage_set_def io_return_def us(2))
  next
    case (RemoveOp n k)
    then have "bucket_name n" "change_ok K (k, None)" using op by (simp_all add: change_ok_def)
    from new [of "storage_remove n k s" "snd (spec_step op a)"] stage_ok [OF us(1) this] queue
    show ?thesis by (simp add: RemoveOp storage_remove_def io_return_def us(2))
  next
    case SaveOp
    from visited_ok [OF us(1) env(2)] have t: "task_ok K (SaveTask (map (\<lambda>(n, ch). (n, ho_changes ho ch)) (ho_buckets ho (so_updates s)))) (spec_save (sp_updates a))"
      by (simp add: us(2))
    from new [of "storage_save ho s" "snd (spec_step op a)"] queued [OF t]
    show ?thesis by (simp add: SaveOp storage_save_def add_task_def io_return_def Let_def)
  next
    case (ResetOp n)
    then have "bucket_name n" using op by simp
    then have t: "task_ok K (ResetTask n) (\<lambda>M. M(n := Map.empty))" by simp
    from new [of "storage_reset n s" "snd (spec_step op a)"] queued [OF t] delete_ok [OF us(1), of n]
    show ?thesis by (simp add: ResetOp storage_reset_def add_task_def io_return_def us(2))
  next
    case ResetAllOp
    have t: "task_ok K ResetAllTask (\<lambda>_ _. Map.empty)" by simp
    from new [of "storage_reset_all s" "snd (spec_step op a)"] queued [OF t]
    show ?thesis by (simp add: ResetAllOp storage_reset_all_def add_task_def io_return_def)
  next
    case (LoadOp n)
    then have "bucket_name n" using op by simp
    from ready_load [OF ready env(1) this] obtain data db' d' where
      run: "db_load p rt n (so_db s) d = (Ret (Inr data, db'), d')" "map_of data = sp_maps a n" "distinct (map fst data)"
        "ready rt (op_directory opts @ [op_cache_directory opts]) (lim + room) (sp_maps a) db' d'" by blast
    then have "storage_at rt opts K (lim + room) a (s\<lparr>so_db := db'\<rparr>) d'" using at by (simp add: storage_at_def)
    then show ?thesis using run by (simp add: LoadOp storage_load_def io_bind_def io_return_def loads_def)
  next
    case (WorkOp clock)
    then have clock: "snd clock + op_expire opts < 2 ^ 64" using op by simp
    show ?thesis
    proof (cases "so_task_queue s")
      case Nil
      then show ?thesis using queue new [of s a] us by (simp add: WorkOp run_next_def io_bind_def io_return_def)
    next
      case (Cons t ts)
      then obtain f fs where q: "sp_queue a = f # fs" "task_ok K t f" "list_all2 (task_ok K) ts fs"
        using queue by (auto simp: list_all2_Cons1)
      have "storage_at rt opts K lim (a\<lparr>sp_queue := fs\<rparr>) (s\<lparr>so_task_queue := ts\<rparr>) d"
        using at q(3) by (simp add: storage_at_def)
      from run_task_at [OF this opts q(2) env K clock] show ?thesis
        by (auto simp: WorkOp run_next_def Cons q(1) io_bind_def io_return_def)
    qed
  next
    case RestartOp
    then show ?thesis using storage_new_at [OF opts ready keys] by (simp add: io_return_def fields)
  qed
qed

lemma storage_run_at:
  assumes "storage_at rt opts K lim a s d" "options_ok opts" "list_all (op_ok (op_expire opts)) ops" "(\<Union>op \<in> set ops. op_keys op) \<subseteq> K"
    and env: "rt_ok rt" "orders_ok ho" "process_ok p" and K: "finite K" "card K \<le> room" "lim + room * length ops < 2 ^ 64"
  shows "\<exists>out s' d'. storage_run p rt ho ops s d = (Ret (out, s'), d') \<and> list_all2 loads out (spec_run ops a)"
  using assms(1,3,4,10)
proof (induction ops arbitrary: lim a s d)
  case Nil
  then show ?case by (simp add: io_return_def)
next
  case (Cons op ops)
  have "lim + room < 2 ^ 64" using Cons.prems(4) by simp
  from storage_step_at [OF Cons.prems(1) assms(2) _ _ env K(1,2) this, of op] Cons.prems(2,3)
  obtain out s1 d1 where step: "storage_step p rt ho op s d = (Ret (out, s1), d1)" "list_all2 loads out (fst (spec_step op a))"
    "storage_at rt opts K (lim + room) (snd (spec_step op a)) s1 d1" by auto
  from Cons.IH [OF step(3)] Cons.prems(2,3,4)
  obtain out' s2 d2 where "storage_run p rt ho ops s1 d1 = (Ret (out', s2), d2)" "list_all2 loads out' (spec_run ops (snd (spec_step op a)))"
    by (auto simp: algebra_simps)
  then show ?case using step(1,2) by (simp add: io_bind_def io_return_def case_prod_beta list_all2_appendI)
qed

lemma storage_run_from:
  assumes ready: "ready rt (op_directory options @ [op_cache_directory options]) lim M db d" and keys: "\<And>n. dom (M n) \<subseteq> K0" "finite K0"
    and env: "rt_ok rt" "orders_ok ho" "process_ok p" "options_ok options" and ops: "list_all (op_ok (op_expire options)) ops"
    and room: "lim + (card K0 + length ops) * length ops < 2 ^ 64"
  shows "\<exists>loaded s' d'. storage_run p rt ho ops (storage_new options) d = (Ret (loaded, s'), d') \<and> list_all2 loads loaded (spec_run ops (spec_new M))"
proof (rule storage_run_at [OF _ env(4) ops _ env(1-3) _ _ room])
  let ?new = "\<Union>op \<in> set ops. op_keys op"
  show "storage_at rt options (K0 \<union> ?new) lim (spec_new M) (storage_new options) d"
    using keys(1) by (intro storage_new_at [OF env(4) ready]) auto
  have one: "finite (op_keys op) \<and> card (op_keys op) \<le> 1" for op by (cases op) simp_all
  then show "finite (K0 \<union> ?new)" using keys(2) by simp
  have "card ?new \<le> (\<Sum>op \<in> set ops. card (op_keys op))" by (rule card_UN_le) simp
  also have "\<dots> \<le> card (set ops)" using one sum_mono [of "set ops" "\<lambda>op. card (op_keys op)" "\<lambda>_. 1"] by simp
  also have "\<dots> \<le> length ops" by (rule card_length)
  finally show "card (K0 \<union> ?new) \<le> card K0 + length ops" using card_Un_le [of K0 ?new] by linarith
qed simp

lemma empty_ready:
  assumes "r \<noteq> []"
  shows "ready rt r 1 (\<lambda>_. Map.empty) (db_new r) (empty_disk None)"
proof (rule readyI [OF empty_settled [OF assms]])
  show "\<forall>l. \<not> lock_at r (empty_disk None) l" using empty_no_lock by blast
qed (simp_all add: cache_ok_def db_new_def tree_ok_def empty_disk_def)

lemma run_room: "n < 2 ^ 31 \<Longrightarrow> 1 + (card {} + n) * n < (2 :: nat) ^ 64"
  using mult_le_mono [of n "2 ^ 31" n "2 ^ 31"] by simp

text \<open>
  C31. Every load returns the entries that the specification has: the saves, resets and loads that the compiler asks for, in
  its order, with the worker running the queued tasks at any moments in between, and with restarts on the same disk.
\<close>

theorem storage_refines_maps:
  assumes "rt_ok rt" "orders_ok ho" "process_ok p" "options_ok options"
    and "list_all (op_ok (op_expire options)) ops" "length ops < 2 ^ 31"
  shows "\<exists>loaded s' d'. storage_run p rt ho ops (storage_new options) (empty_disk None) = (Ret (loaded, s'), d') \<and>
    list_all2 loads loaded (spec_run ops (spec_new (\<lambda>_. Map.empty)))"
proof -
  have "ready rt (op_directory options @ [op_cache_directory options]) 1 (\<lambda>_. Map.empty)
      (db_new (op_directory options @ [op_cache_directory options])) (empty_disk None)"
    by (rule empty_ready) simp
  from storage_run_from [OF this _ finite.emptyI assms(1-5) run_room [OF assms(6)]] show ?thesis by simp
qed

text \<open>Two entries are saved and one of them is removed; a reset of another bucket is queued; a new process loads.\<close>

definition plain_orders :: hash_orders where
  "plain_orders = \<lparr>ho_times = id, ho_buckets = rev, ho_changes = id\<rparr>"

definition example_options :: storage_options where
  "example_options = \<lparr>op_directory = [[0x2F]], op_cache_directory = bytes ''rspack_v_0123456789abcdef'', op_max_pack_size = 9, op_expire = 3600\<rparr>"

definition example_ops :: "storage_op list" where
  "example_ops = [SetOp (bytes ''b'') [1] [2], SetOp (bytes ''b'') [3] [4], SaveOp, RemoveOp (bytes ''b'') [1], SaveOp, WorkOp (7, 8),
    LoadOp (bytes ''b''), WorkOp (9, 9), ResetOp (bytes ''c''), RestartOp, LoadOp (bytes ''b'')]"

lemma example_setting: "orders_ok plain_orders" "options_ok example_options" "bucket_name (bytes ''b'')" "bucket_name (bytes ''c'')"
proof -
  show "orders_ok plain_orders" by (simp add: orders_ok_def plain_orders_def)
  have "is_valid_directory (bytes ''rspack_v_0123456789abcdef'')" by code_simp
  then show "options_ok example_options" by (simp add: options_ok_def example_options_def)
  show "bucket_name (bytes ''b'')" "bucket_name (bytes ''c'')" by code_simp+
qed

theorem storage_refines_maps_witness:
  "\<exists>loaded s' d'. storage_run (lone_process 1) sum_rt plain_orders example_ops (storage_new example_options) (empty_disk None) = (Ret (loaded, s'), d') \<and>
    list_all2 loads loaded (spec_run example_ops (spec_new (\<lambda>_. Map.empty)))"
proof (rule storage_refines_maps [OF sum_rt_ok example_setting(1) lone_process_ok example_setting(2)])
  show "list_all (op_ok (op_expire example_options)) example_ops"
    using example_setting(3,4) by (simp add: example_ops_def example_options_def)
qed (simp add: example_ops_def)

end
