(* ===== verification/Storage_Agree.thy ===== *)
theory Storage_Agree
  imports Storage_Refine
begin

text \<open>The storage on the file system agrees with the storage in memory, and leaves the nodes of the file system a tree.\<close>

section \<open>The two storages\<close>

text \<open>What the specification holds when everything is saved and the worker is done.\<close>

definition settle :: "spec_state \<Rightarrow> stores" where
  "settle a = spec_save (sp_updates a) (fold (\<lambda>f M. f M) (sp_queue a) (sp_maps a))"

definition memory_view :: "memory_storage \<Rightarrow> stores" where
  "memory_view m n = map_of (memory_load n m)"

definition spec_after :: "storage_op list \<Rightarrow> spec_state \<Rightarrow> spec_state" where
  "spec_after ops a = fold (\<lambda>op a. snd (spec_step op a)) ops a"

lemma spec_after_simps [simp]: "spec_after [] a = a" "spec_after (op # ops) a = spec_after ops (snd (spec_step op a))"
  "spec_after (ops @ ops') a = spec_after ops' (spec_after ops a)"
  by (simp_all add: spec_after_def)

lemma spec_run_append: "spec_run (ops @ ops') a = spec_run ops a @ spec_run ops' (spec_after ops a)"
  by (induction ops arbitrary: a) (simp_all add: case_prod_beta)

lemma spec_save_none [simp]: "spec_save (\<lambda>_. Map.empty) M = M"
  by (simp add: spec_save_def fun_eq_iff)

lemma spec_save_upd:
  "spec_save (U(n := (U n)(k \<mapsto> v))) M = (spec_save U M)(n := (spec_save U M n)(k := v))"
  "spec_save (U(n := Map.empty)) (M(n := Map.empty)) = (spec_save U M)(n := Map.empty)"
  by (auto simp: spec_save_def fun_eq_iff split: option.splits)

lemma memory_view_ops:
  "memory_view (memory_set n k v m) = (memory_view m)(n := (memory_view m n)(k \<mapsto> v))"
  "memory_view (memory_remove n k m) = (memory_view m)(n := (memory_view m n)(k := None))"
  "memory_view (memory_reset n m) = (memory_view m)(n := Map.empty)"
  "memory_view (memory_reset_all m) = (\<lambda>_. Map.empty)"
  by (auto simp: memory_view_def memory_load_def memory_set_def memory_remove_def memory_reset_def memory_reset_all_def
      update_conv' map_of_map_entry delete_conv' fun_eq_iff split: option.splits)

lemma settle_step:
  assumes "settle a = memory_view m" "op \<noteq> RestartOp"
  shows "settle (snd (spec_step op a)) = memory_view (memory_step op m)"
proof (cases op)
  case (WorkOp clock)
  then show ?thesis using assms(1) by (cases "sp_queue a") (simp_all add: settle_def)
qed (use assms in \<open>simp_all add: settle_def memory_view_ops spec_save_upd\<close>)

lemma settle_run:
  "settle a = memory_view m \<Longrightarrow> RestartOp \<notin> set ops \<Longrightarrow> settle (spec_after ops a) = memory_view (fold memory_step ops m)"
  by (induction ops arbitrary: a m) (auto simp: settle_step)

lemma queue_length: "length (sp_queue (spec_after ops a)) \<le> length (sp_queue a) + length ops"
proof (induction ops arbitrary: a)
  case (Cons op ops)
  have "length (sp_queue (snd (spec_step op a))) \<le> Suc (length (sp_queue a))"
    by (cases op; cases "sp_queue a") (simp_all add: spec_new_def)
  then show ?case using Cons.IH [of "snd (spec_step op a)"] by simp
qed simp

lemma work_done:
  assumes "length (sp_queue a) \<le> length clocks" "sp_updates a = (\<lambda>_. Map.empty)"
  shows "sp_maps (spec_after (map WorkOp clocks) a) = settle a" "spec_run (map WorkOp clocks) a = []"
  using assms
proof (induction clocks arbitrary: a)
  case (Cons c clocks)
  {
    case 1
    then show ?case using Cons.IH(1) [of "snd (spec_step (WorkOp c) a)"] by (cases "sp_queue a") (simp_all add: settle_def)
  next
    case 2
    then show ?case using Cons.IH(2) [of "snd (spec_step (WorkOp c) a)"] by (cases "sp_queue a") simp_all
  }
qed (simp_all add: settle_def)

text \<open>
  C32. When the updates are saved and the worker has run all its tasks, a load returns the entries that the storage in
  memory has after the same calls.
\<close>

theorem storage_agrees_with_memory:
  assumes "rt_ok rt" "orders_ok ho" "process_ok p" "options_ok options"
    and "list_all (op_ok (op_expire options)) (ops @ map WorkOp clocks)" "bucket_name n" "RestartOp \<notin> set ops"
    and "length ops < length clocks" "length ops + length clocks < 2 ^ 30"
  shows "\<exists>loaded data s' d'.
    storage_run p rt ho (ops @ [SaveOp] @ map WorkOp clocks @ [LoadOp n]) (storage_new options) (empty_disk None) =
      (Ret (loaded @ [Inr data], s'), d') \<and>
    map_of data = map_of (memory_load n (fold memory_step ops [])) \<and> distinct (map fst data)"
proof -
  let ?all = "ops @ [SaveOp] @ map WorkOp clocks @ [LoadOp n]" and ?new = "spec_new (\<lambda>_. Map.empty)"
  let ?saved = "spec_after (ops @ [SaveOp]) ?new"
  have "settle ?new = memory_view []" by (simp add: settle_def spec_new_def memory_view_def memory_load_def fun_eq_iff)
  then have "settle ?saved = memory_view (fold memory_step (ops @ [SaveOp]) [])" using assms(7) by (intro settle_run) simp_all
  moreover have "length (sp_queue ?saved) \<le> length clocks"
    using queue_length [of "ops @ [SaveOp]" ?new] assms(8) by (simp add: spec_new_def)
  moreover have "sp_updates ?saved = (\<lambda>_. Map.empty)" by simp
  ultimately have "spec_run (map WorkOp clocks @ [LoadOp n]) ?saved = [memory_view (fold memory_step ops []) n]"
    using work_done [of ?saved clocks] by (simp add: spec_run_append)
  then have "spec_run ?all ?new = spec_run (ops @ [SaveOp]) ?new @ [memory_view (fold memory_step ops []) n]"
    using spec_run_append [of "ops @ [SaveOp]" "map WorkOp clocks @ [LoadOp n]" ?new] by simp
  moreover obtain loaded s' d' where "storage_run p rt ho ?all (storage_new options) (empty_disk None) = (Ret (loaded, s'), d')"
    "list_all2 loads loaded (spec_run ?all ?new)"
    using storage_run_from [OF empty_ready _ finite.emptyI assms(1-4) _ run_room, of ?all] assms(5,6,9) by auto
  ultimately show ?thesis
    by (auto simp: list_all2_append2 list_all2_Cons2 loads_def memory_view_def)
qed

text \<open>A key is set twice, another is set and removed; a bucket is reset after a save; the rest is saved at the end.\<close>

definition agreeing_ops :: "storage_op list" where
  "agreeing_ops = [SetOp (bytes ''b'') [1] [2], SetOp (bytes ''b'') [1] [3], SetOp (bytes ''b'') [4] [5], RemoveOp (bytes ''b'') [4],
    SetOp (bytes ''c'') [6] [7], SaveOp, WorkOp (5, 5), ResetOp (bytes ''c''), SetOp (bytes ''b'') [8] []]"

theorem storage_agrees_with_memory_witness:
  "\<exists>loaded data s' d'.
    storage_run (lone_process 1) sum_rt plain_orders
        (agreeing_ops @ [SaveOp] @ map WorkOp (replicate 10 (7, 8)) @ [LoadOp (bytes ''b'')]) (storage_new example_options) (empty_disk None) =
      (Ret (loaded @ [Inr data], s'), d') \<and>
    map_of data = map_of (memory_load (bytes ''b'') (fold memory_step agreeing_ops [])) \<and> distinct (map fst data)"
proof (rule storage_agrees_with_memory [OF sum_rt_ok example_setting(1) lone_process_ok example_setting(2)])
  show "list_all (op_ok (op_expire example_options)) (agreeing_ops @ map WorkOp (replicate 10 (7, 8)))"
    using example_setting(3,4) by (simp add: agreeing_ops_def example_options_def list_all_iff)
qed (simp_all add: agreeing_ops_def example_setting)

section \<open>The nodes\<close>

text \<open>
  C33. On a disk whose nodes are a tree every sequence of storage operations leaves them a tree, also when it fails, panics or
  dies at a change of the disk.
\<close>

theorem storage_keeps_tree:
  assumes "tree_ok d"
  shows "tree_ok (snd (storage_run p rt ho ops s d))"
  using tree.storage_run_keeps [of p rt ho ops s] assms by (simp add: keeps_def)

theorem storage_keeps_tree_witness:
  "tree_ok (snd (storage_run (lone_process 1) sum_rt plain_orders agreeing_ops (storage_new example_options) (empty_disk (Some 9))))"
  by (rule storage_keeps_tree) (simp add: tree_ok_def empty_disk_def)

end
