(* ===== verification/Sources_Codec.thy ===== *)
theory Sources_Codec
  imports Css_Syntax
begin

text \<open>
  \<open>crates/rspack_sources/src/encoder.rs\<close> and \<open>decoder.rs\<close>: source map mappings as a string of base-64 VLQ numbers.
  A \<open>u32\<close> is a 32-bit word and an \<open>i64\<close> a 64-bit word read as signed.  Arithmetic wraps, as in the release profile, and
  a shift takes its distance modulo the width.  The encoders append to the bytes they have written.
\<close>

unbundle bit_operations_syntax

section \<open>Mappings\<close>

record original_location =
  source_index :: u32
  original_line :: u32
  original_column :: u32
  name_index :: "u32 option"

record source_mapping =
  generated_line :: u32
  generated_column :: u32
  original :: "original_location option"

section \<open>Writing numbers\<close>

definition b64_chars :: "u8 list" where
  "b64_chars = bytes ''ABCDEFGHIJKLMNOPQRSTUVWXYZabcdefghijklmnopqrstuvwxyz0123456789+/''"

function vlq_loop :: "u32 \<Rightarrow> u8 list" where
  "vlq_loop num =
     (let digit = num AND 0b11111; num' = drop_bit 5 num;
          digit' = (if num' > 0 then digit OR push_bit 5 1 else digit)
      in b64_chars ! unat digit' # (if num' = 0 then [] else vlq_loop num'))"
  by pat_completeness auto

lemma drop_bit_less: "num \<noteq> 0 \<Longrightarrow> unat (drop_bit 5 num) < unat (num :: 32 word)"
  by (simp add: drop_bit_eq_div unat_div unat_gt_0)

termination vlq_loop
proof (relation "measure unat", simp, goal_cases)
  case (1 num x xa xb)
  then have "num \<noteq> 0" by auto
  with 1 show ?case by (simp add: drop_bit_less)
qed

declare vlq_loop.simps [simp del]

definition vlq_number :: "u32 \<Rightarrow> u32 \<Rightarrow> u32" where
  "vlq_number a b = (if a \<ge> b then push_bit 1 (a - b) else push_bit 1 (b - a) + 1)"

definition encode_vlq :: "u32 \<Rightarrow> u32 \<Rightarrow> u8 list" where
  "encode_vlq a b =
     (if a = b then bytes ''A''
      else let num = vlq_number a b in
        if num < 0b100000 then [b64_chars ! unat num] else vlq_loop num)"

section \<open>The encoders\<close>

record full_encoder =
  current_line :: u32
  current_column :: u32
  current_original_line :: u32
  current_original_column :: u32
  current_source_index :: u32
  current_name_index :: u32
  active_mapping :: bool
  active_name :: bool
  initial_segment :: bool
  mappings :: "u8 list"

definition full_encoder_new :: full_encoder where
  "full_encoder_new = \<lparr>current_line = 1, current_column = 0, current_original_line = 1,
     current_original_column = 0, current_source_index = 0, current_name_index = 0,
     active_mapping = False, active_name = False, initial_segment = True, mappings = []\<rparr>"

definition full_encoder_skips :: "full_encoder \<Rightarrow> source_mapping \<Rightarrow> bool" where
  "full_encoder_skips e m =
     (if active_mapping e \<and> current_line e = generated_line m
      then (case original m of None \<Rightarrow> False
            | Some orig \<Rightarrow> source_index orig = current_source_index e
                \<and> original_line orig = current_original_line e
                \<and> original_column orig = current_original_column e
                \<and> \<not> active_name e \<and> name_index orig = None)
      else original m = None)"

definition full_encoder_separate :: "u32 \<Rightarrow> full_encoder \<Rightarrow> full_encoder" where
  "full_encoder_separate line e =
     (if current_line e < line
      then e\<lparr>mappings := mappings e @ replicate (unat (line - current_line e)) 0x3B,
             current_line := line, current_column := 0, initial_segment := False\<rparr>
      else if initial_segment e then e\<lparr>initial_segment := False\<rparr>
      else e\<lparr>mappings := mappings e @ [0x2C]\<rparr>)"

definition full_encoder_column :: "u32 \<Rightarrow> full_encoder \<Rightarrow> full_encoder" where
  "full_encoder_column column e =
     e\<lparr>mappings := mappings e @ encode_vlq column (current_column e), current_column := column\<rparr>"

definition write_delta :: "u32 \<Rightarrow> u32 \<Rightarrow> u8 list" where
  "write_delta a b = (if a = b then bytes ''A'' else encode_vlq a b)"

definition full_encoder_original :: "original_location \<Rightarrow> full_encoder \<Rightarrow> full_encoder" where
  "full_encoder_original orig e =
     (let e = e\<lparr>active_mapping := True\<rparr>;
          e = e\<lparr>mappings := mappings e @ write_delta (source_index orig) (current_source_index e),
                current_source_index := source_index orig\<rparr>;
          e = e\<lparr>mappings := mappings e @ write_delta (original_line orig) (current_original_line e),
                current_original_line := original_line orig\<rparr>;
          e = e\<lparr>mappings := mappings e
                  @ write_delta (original_column orig) (current_original_column e),
                current_original_column := original_column orig\<rparr>
      in case name_index orig of
           Some i \<Rightarrow> e\<lparr>mappings := mappings e @ encode_vlq i (current_name_index e),
                       current_name_index := i, active_name := True\<rparr>
         | None \<Rightarrow> e\<lparr>active_name := False\<rparr>)"

definition full_encode :: "source_mapping \<Rightarrow> full_encoder \<Rightarrow> full_encoder" where
  "full_encode m e =
     (if full_encoder_skips e m then e
      else let e = full_encoder_column (generated_column m)
                     (full_encoder_separate (generated_line m) e)
           in case original m of
                Some orig \<Rightarrow> full_encoder_original orig e
              | None \<Rightarrow> e\<lparr>active_mapping := False\<rparr>)"

definition full_drain :: "full_encoder \<Rightarrow> u8 list \<times> full_encoder" where
  "full_drain e = (mappings e, e\<lparr>mappings := []\<rparr>)"

record lines_encoder =
  last_written_line :: u32
  lines_current_line :: u32
  lines_source_index :: u32
  lines_original_line :: u32
  lines_mappings :: "u8 list"

definition lines_encoder_new :: lines_encoder where
  "lines_encoder_new = \<lparr>last_written_line = 0, lines_current_line = 1, lines_source_index = 0,
     lines_original_line = 1, lines_mappings = []\<rparr>"

definition lines_encode :: "source_mapping \<Rightarrow> lines_encoder \<Rightarrow> lines_encoder" where
  "lines_encode m e =
     (case original m of None \<Rightarrow> e
      | Some orig \<Rightarrow>
          if last_written_line e = generated_line m then e
          else
            let line_delta = generated_line m - lines_current_line e;
                text = lines_mappings e @ replicate (unat line_delta) 0x3B;
                text = (if source_index orig = lines_source_index e
                        then if original_line orig = lines_original_line e + 1
                             then text @ bytes ''AACA''
                             else text @ bytes ''AA''
                               @ encode_vlq (original_line orig) (lines_original_line e)
                               @ bytes ''A''
                        else text @ bytes ''A''
                               @ encode_vlq (source_index orig) (lines_source_index e)
                               @ encode_vlq (original_line orig) (lines_original_line e)
                               @ bytes ''A'')
            in \<lparr>last_written_line = generated_line m, lines_current_line = generated_line m,
                lines_source_index = source_index orig,
                lines_original_line = original_line orig, lines_mappings = text\<rparr>)"

definition lines_drain :: "lines_encoder \<Rightarrow> u8 list \<times> lines_encoder" where
  "lines_drain e = (lines_mappings e, e\<lparr>lines_mappings := []\<rparr>)"

datatype mappings_encoder = Full full_encoder | LinesOnly lines_encoder

definition create_encoder :: "bool \<Rightarrow> mappings_encoder" where
  "create_encoder columns =
     (if columns then Full full_encoder_new else LinesOnly lines_encoder_new)"

fun encoder_encode :: "source_mapping \<Rightarrow> mappings_encoder \<Rightarrow> mappings_encoder" where
  "encoder_encode m (Full e) = Full (full_encode m e)"
| "encoder_encode m (LinesOnly e) = LinesOnly (lines_encode m e)"

fun encoder_drain :: "mappings_encoder \<Rightarrow> u8 list \<times> mappings_encoder" where
  "encoder_drain (Full e) = (let (text, e') = full_drain e in (text, Full e'))"
| "encoder_drain (LinesOnly e) = (let (text, e') = lines_drain e in (text, LinesOnly e'))"

definition encode_mappings :: "source_mapping list \<Rightarrow> u8 list" where
  "encode_mappings ms = fst (encoder_drain (fold encoder_encode ms (create_encoder True)))"

section \<open>The decoder\<close>

definition COM :: u8 where "COM = 0x40"
definition SEM :: u8 where "SEM = COM OR 0x01"
definition ERR :: u8 where "ERR = COM OR 0x02"
definition continuation_bit :: u8 where "continuation_bit = 0x20"
definition data_mask :: u8 where "data_mask = 0x1f"

definition B64 :: "u8 list" where
  "B64 = replicate 43 ERR @ [62, COM, ERR, ERR, 63]
     @ [52, 53, 54, 55, 56, 57, 58, 59, 60, 61, ERR, SEM] @ replicate 5 ERR
     @ map of_nat [0..<26] @ replicate 6 ERR @ map of_nat [26..<52] @ replicate 133 ERR"

record mappings_decoder =
  mappings_iter :: "u8 list"
  current_data :: "u32 list"
  current_data_pos :: nat
  current_value :: "64 word"
  current_value_pos :: nat
  decoder_line :: u32

definition decoder_new :: "u8 list \<Rightarrow> mappings_decoder" where
  "decoder_new text = \<lparr>mappings_iter = text, current_data = [0, 0, 1, 0, 0], current_data_pos = 0,
     current_value = 0, current_value_pos = 0, decoder_line = 1\<rparr>"

text \<open>The mapping that ends with the segment, if the segment has one, four or five numbers.\<close>

definition segment :: "u32 \<Rightarrow> u32 list \<Rightarrow> nat \<Rightarrow> source_mapping option" where
  "segment line data n =
     (if n = 1 then Some \<lparr>generated_line = line, generated_column = data ! 0, original = None\<rparr>
      else if n = 4 then Some \<lparr>generated_line = line, generated_column = data ! 0,
        original = Some \<lparr>source_index = data ! 1, original_line = data ! 2,
          original_column = data ! 3, name_index = None\<rparr>\<rparr>
      else if n = 5 then Some \<lparr>generated_line = line, generated_column = data ! 0,
        original = Some \<lparr>source_index = data ! 1, original_line = data ! 2,
          original_column = data ! 3, name_index = Some (data ! 4)\<rparr>\<rparr>
      else None)"

definition shl64 :: "64 word \<Rightarrow> nat \<Rightarrow> 64 word" where
  "shl64 v n = push_bit (n mod 64) v"

text \<open>One round of the loop over the bytes: the mapping it returns, if it returns, and the decoder it leaves.\<close>

definition decoder_byte :: "u8 \<Rightarrow> mappings_decoder \<Rightarrow> source_mapping option \<times> mappings_decoder"
  where
  "decoder_byte c d =
     (let value = B64 ! unat c in
      if value = ERR then (None, d)
      else if value AND COM \<noteq> 0 then
        let result = segment (decoder_line d) (current_data d) (current_data_pos d);
            d = d\<lparr>current_data_pos := 0\<rparr>
        in (result,
            if value = SEM
            then d\<lparr>decoder_line := decoder_line d + 1, current_data := (current_data d)[0 := 0]\<rparr>
            else d)
      else if value AND continuation_bit = 0 then
        let current = current_value d OR shl64 (ucast value) (current_value_pos d);
            final_value = (if current AND 1 \<noteq> 0 then - signed_drop_bit 1 current
                           else signed_drop_bit 1 current);
            data = (if current_data_pos d < 5
                    then (current_data d)[current_data_pos d :=
                           ucast (ucast (current_data d ! current_data_pos d) + final_value)]
                    else current_data d)
        in (None, d\<lparr>current_data := data, current_data_pos := current_data_pos d + 1,
                    current_value_pos := 0, current_value := 0\<rparr>)
      else
        (None, d\<lparr>current_value :=
                   current_value d OR shl64 (ucast (value AND data_mask)) (current_value_pos d),
                 current_value_pos := current_value_pos d + 5\<rparr>))"

fun decoder_loop :: "u8 list \<Rightarrow> mappings_decoder \<Rightarrow> source_mapping option \<times> mappings_decoder"
  where
  "decoder_loop [] d =
     (segment (decoder_line d) (current_data d) (current_data_pos d),
      d\<lparr>mappings_iter := [], current_data_pos := 0\<rparr>)"
| "decoder_loop (c # cs) d =
     (case decoder_byte c d of
        (Some m, d') \<Rightarrow> (Some m, d'\<lparr>mappings_iter := cs\<rparr>)
      | (None, d') \<Rightarrow> decoder_loop cs d')"

definition decoder_next :: "mappings_decoder \<Rightarrow> source_mapping option \<times> mappings_decoder" where
  "decoder_next d = decoder_loop (mappings_iter d) d"

definition decoder_left :: "mappings_decoder \<Rightarrow> nat" where
  "decoder_left d = 2 * length (mappings_iter d) + (if current_data_pos d = 0 then 0 else 1)"

lemma decoder_byte_iter: "mappings_iter (snd (decoder_byte c d)) = mappings_iter d"
  by (simp add: decoder_byte_def Let_def)

lemma decoder_loop_left:
  "decoder_loop cs d = (Some m, d') \<Longrightarrow>
     decoder_left d' < 2 * length cs + (if current_data_pos d = 0 then 0 else 1)"
proof (induction cs arbitrary: d)
  case Nil
  then show ?case by (auto simp: decoder_left_def segment_def split: if_splits)
next
  case (Cons c cs)
  obtain r d1 where b: "decoder_byte c d = (r, d1)" by force
  show ?case
  proof (cases r)
    case None
    with Cons b have "decoder_loop cs d1 = (Some m, d')" by simp
    from Cons.IH [OF this] show ?thesis by (simp split: if_splits)
  next
    case (Some m1)
    with Cons b have "d' = d1\<lparr>mappings_iter := cs\<rparr>" by simp
    moreover have "current_data_pos d1 = 0"
      using b Some by (auto simp: decoder_byte_def Let_def split: if_splits)
    ultimately show ?thesis by (simp add: decoder_left_def)
  qed
qed

function decoder_collect :: "mappings_decoder \<Rightarrow> source_mapping list" where
  "decoder_collect d =
     (case decoder_next d of
        (None, d') \<Rightarrow> [] | (Some m, d') \<Rightarrow> m # decoder_collect d')"
  by pat_completeness auto
termination
  by (relation "measure decoder_left")
    (auto simp: decoder_next_def decoder_left_def [of d for d]
       dest!: decoder_loop_left [OF sym] simp del: decoder_left_def)

declare decoder_collect.simps [simp del]

definition decode_mappings :: "u8 list \<Rightarrow> source_mapping list" where
  "decode_mappings text = decoder_collect (decoder_new text)"

end
