(* ===== verification/Sources_Round.thy ===== *)
theory Sources_Round
  imports Sources_Codec "HOL-Library.Sublist"
begin

text \<open>
  What the encoders write is what the decoder reads: numbers first, then segments, then whole lists of mappings.
\<close>

unbundle bit_operations_syntax

section \<open>Digits\<close>

lemma b64_length: "length b64_chars = 64" "length B64 = 256"
  by (simp_all add: b64_chars_def bytes_def B64_def)

lemma b64_table: "map (\<lambda>c. B64 ! unat c) b64_chars = map of_nat [0..<64]"
  by code_simp

lemma b64_inverse: "i < 64 \<Longrightarrow> B64 ! unat (b64_chars ! i) = of_nat i"
  using arg_cong [OF b64_table, of "\<lambda>xs. xs ! i"] by (simp add: b64_length)

lemma b64_digits:
  "list_all (\<lambda>i. (of_nat i :: u8) \<noteq> ERR \<and> (of_nat i :: u8) AND COM = 0
     \<and> ((of_nat i :: u8) AND continuation_bit = 0 \<longleftrightarrow> i < 32)
     \<and> (of_nat i :: u8) AND data_mask = of_nat (i mod 32)) [0..<64]"
  by code_simp

lemma b64_digit:
  assumes "i < 64"
  shows "(of_nat i :: u8) \<noteq> ERR" "(of_nat i :: u8) AND COM = 0"
    "(of_nat i :: u8) AND continuation_bit = 0 \<longleftrightarrow> i < 32"
    "(of_nat i :: u8) AND data_mask = of_nat (i mod 32)"
  using b64_digits assms by (auto simp: list_all_iff)

lemma ucast_small: "i < 256 \<Longrightarrow> (ucast (of_nat i :: u8) :: 64 word) = of_nat i"
  by (simp add: unsigned_of_nat take_bit_nat_eq_self)

lemma decoder_byte_last:
  assumes "i < 32"
  shows "decoder_byte (b64_chars ! i) d =
    (let current = current_value d OR shl64 (of_nat i) (current_value_pos d);
         final_value = (if current AND 1 \<noteq> 0 then - signed_drop_bit 1 current
                        else signed_drop_bit 1 current);
         data = (if current_data_pos d < 5
                 then (current_data d)[current_data_pos d :=
                        ucast (ucast (current_data d ! current_data_pos d) + final_value)]
                 else current_data d)
     in (None, d\<lparr>current_data := data, current_data_pos := current_data_pos d + 1,
                 current_value_pos := 0, current_value := 0\<rparr>))"
  using assms by (simp add: decoder_byte_def b64_inverse b64_digit ucast_small)

lemma decoder_byte_more:
  assumes "32 \<le> i" "i < 64"
  shows "decoder_byte (b64_chars ! i) d =
    (None, d\<lparr>current_value := current_value d OR shl64 (of_nat (i mod 32)) (current_value_pos d),
             current_value_pos := current_value_pos d + 5\<rparr>)"
  using assms by (simp add: decoder_byte_def b64_inverse b64_digit ucast_small)

section \<open>Numbers\<close>

text \<open>The mappings a text makes the decoder return, and the decoder behind it.\<close>

fun scan_bytes :: "u8 list \<Rightarrow> mappings_decoder \<Rightarrow> source_mapping list \<times> mappings_decoder" where
  "scan_bytes [] d = ([], d)"
| "scan_bytes (c # cs) d =
     (let (r, d1) = decoder_byte c d; (ms, d2) = scan_bytes cs d1
      in ((case r of Some m \<Rightarrow> m # ms | None \<Rightarrow> ms), d2))"

lemma scan_bytes_append:
  "scan_bytes (xs @ ys) d =
     (let (ms, d1) = scan_bytes xs d; (ms', d2) = scan_bytes ys d1 in (ms @ ms', d2))"
  by (induction xs arbitrary: d) (auto simp: Let_def split: prod.splits option.splits)

definition number_value :: "64 word \<Rightarrow> 64 word" where
  "number_value v = (if v AND 1 \<noteq> 0 then - signed_drop_bit 1 v else signed_drop_bit 1 v)"

definition push_number :: "64 word \<Rightarrow> mappings_decoder \<Rightarrow> mappings_decoder" where
  "push_number v d =
     d\<lparr>current_data := (if current_data_pos d < 5
         then (current_data d)[current_data_pos d :=
                ucast (ucast (current_data d ! current_data_pos d) + number_value v)]
         else current_data d),
       current_data_pos := current_data_pos d + 1, current_value_pos := 0, current_value := 0\<rparr>"

lemma scan_last:
  assumes "i < 32"
  shows "scan_bytes [b64_chars ! i] d =
    ([], push_number (current_value d OR shl64 (of_nat i) (current_value_pos d)) d)"
  using decoder_byte_last [OF assms, of d]
  by (simp add: Let_def push_number_def number_value_def)

lemma and_31: "num AND 0b11111 = take_bit 5 (num :: u32)"
  by (simp add: take_bit_eq_mask mask_eq_exp_minus_1)

lemma unat_digit: "unat (num AND 0b11111 :: u32) = unat num mod 32"
  by (simp add: and_31 unsigned_take_bit_eq take_bit_eq_mod unat_mod)

lemma or_32_table: "list_all (\<lambda>i. i OR 32 = i + (32 :: nat)) [0..<32]"
  by code_simp

lemma unat_more_digit: "unat ((num AND 0b11111) OR 0b100000 :: u32) = unat num mod 32 + 32"
proof -
  have "unat num mod 32 < 32" by simp
  with or_32_table have "unat num mod 32 OR 32 = unat num mod 32 + 32"
    by (auto simp: list_all_iff)
  then show ?thesis by (simp add: unsigned_or_eq unat_digit)
qed

lemma unat_rest: "unat (drop_bit 5 num :: u32) = unat num div 32"
  by (simp add: drop_bit_eq_div unat_div)

lemma vlq_loop_eq:
  "vlq_loop num =
     (if unat num < 32 then [b64_chars ! unat num]
      else b64_chars ! (unat num mod 32 + 32) # vlq_loop (drop_bit 5 num))"
proof (cases "unat num < 32")
  case True
  then have "drop_bit 5 num = 0" using unat_rest [of num] by (simp add: unat_eq_0 [symmetric])
  with True show ?thesis by (subst vlq_loop.simps) (simp add: unat_digit)
next
  case False
  then have "drop_bit 5 num \<noteq> 0" using unat_rest [of num] by (auto simp: unat_eq_0 [symmetric])
  with False show ?thesis
    by (subst vlq_loop.simps) (simp add: unat_more_digit Let_def word_gt_0)
qed

lemma digit_split:
  "(ucast num :: 64 word) = of_nat (unat num mod 32) OR push_bit 5 (ucast (drop_bit 5 num :: u32))"
proof -
  have "of_nat (unat num mod 32) = (ucast (take_bit 5 num) :: 64 word)"
    by (simp add: and_31 [symmetric] unat_digit [symmetric] of_nat_unat)
  moreover have "(ucast num :: 64 word)
      = ucast (take_bit 5 num) OR push_bit 5 (ucast (drop_bit 5 num))"
    by (rule bit_word_eqI) (auto simp: bit_simps)
  ultimately show ?thesis by simp
qed

lemma scan_vlq_loop:
  assumes "unat num * 2 ^ current_value_pos d < 2 ^ 32" "current_value_pos d < 32"
  shows "scan_bytes (vlq_loop num) d =
    ([], push_number (current_value d OR push_bit (current_value_pos d) (ucast num)) d)"
  using assms
proof (induction num arbitrary: d rule: vlq_loop.induct)
  case (1 num)
  show ?case
  proof (cases "unat num < 32")
    case True
    then have "vlq_loop num = [b64_chars ! unat num]" by (simp add: vlq_loop_eq)
    then show ?thesis
      using scan_last [OF True, of d] 1(3) by (simp add: shl64_def)
  next
    case False
    let ?d = "d\<lparr>current_value := current_value d
                 OR shl64 (of_nat (unat num mod 32)) (current_value_pos d),
               current_value_pos := current_value_pos d + 5\<rparr>"
    have nz: "drop_bit 5 num \<noteq> 0" using False unat_rest [of num] by (auto simp: unat_eq_0 [symmetric])
    have "32 * 2 ^ current_value_pos d \<le> unat num * 2 ^ current_value_pos d"
      using False by (intro mult_le_mono1) simp
    from le_less_trans [OF this 1(2)] have "(2::nat) ^ (5 + current_value_pos d) < 2 ^ 32"
      by (simp only: power_add) simp
    then have "5 + current_value_pos d < 32"
      by (rule power_less_imp_less_exp [rotated]) simp
    then have p: "current_value_pos d < 27" by simp
    have "unat num div 32 * 2 ^ (5 + current_value_pos d) \<le> unat num * 2 ^ current_value_pos d"
      by (simp add: power_add)
    from le_less_trans [OF this 1(2)]
    have r: "unat (drop_bit 5 num) * 2 ^ current_value_pos ?d < 2 ^ 32"
      by (simp add: unat_rest add.commute)
    have "scan_bytes (vlq_loop num) d = scan_bytes (vlq_loop (drop_bit 5 num)) ?d"
      using False by (subst vlq_loop_eq) (simp add: decoder_byte_more split: prod.splits)
    also have "\<dots> = ([], push_number (current_value ?d
        OR push_bit (current_value_pos ?d) (ucast (drop_bit 5 num))) ?d)"
      by (rule 1(1) [OF refl refl refl nz r]) (use p in simp)
    also have "current_value ?d OR push_bit (current_value_pos ?d) (ucast (drop_bit 5 num))
        = current_value d OR push_bit (current_value_pos d) (ucast num)"
      using p by (subst digit_split) (simp add: shl64_def push_bit_or push_bit_push_bit or.assoc add.commute)
    finally show ?thesis by (simp add: push_number_def)
  qed
qed

lemma signed_half:
  assumes "uint v < 2 ^ 63"
  shows "signed_drop_bit (Suc 0) v = (word_of_int (uint v div 2) :: 64 word)"
proof -
  have "- (2 ^ 63) \<le> uint v" by (rule order_trans [OF _ uint_ge_0]) simp
  with assms have "sint v = uint v"
    by (simp add: sint_uint signed_take_bit_int_eq_self_iff)
  then have "sint (signed_drop_bit (Suc 0) v) = uint v div 2"
    by (simp add: sint_signed_drop_bit_eq drop_bit_eq_div)
  from arg_cong [OF this, of "word_of_int :: int \<Rightarrow> 64 word"] show ?thesis by simp
qed

lemma uint_widen: "uint (ucast (v :: u32) :: 64 word) = uint v"
  by (rule uint_up_ucast) (simp add: is_up)

lemma and_1_iff: "(v :: 64 word) AND 1 = 0 \<longleftrightarrow> even (uint v)"
  by (simp add: word_eq_iff_unsigned [where ?'a = int] and_one_eq even_iff_mod_2_eq_zero uint_and uint_mod)

lemma ucast_of_uint: "word_of_int (uint (v :: u32)) = (ucast v :: 64 word)"
  by (simp add: uint_word_of_int_eq flip: uint_widen)

lemma number_value_even:
  fixes v :: u32
  assumes "uint v < 2 ^ 31"
  shows "number_value (ucast (push_bit 1 v)) = ucast v"
proof -
  have "uint (push_bit 1 v) = 2 * uint v"
    using assms by (simp add: uint_word_ariths)
  then have "uint (ucast (push_bit 1 v) :: 64 word) = 2 * uint v" 
    by (simp only: uint_widen)
  with assms show ?thesis
    by (simp add: number_value_def and_1_iff signed_half ucast_of_uint del: push_bit_Suc)
qed

lemma number_value_odd:
  fixes v :: u32
  assumes "uint v < 2 ^ 31"
  shows "number_value (ucast (push_bit 1 v + 1)) = - ucast v"
proof -
  have "uint (push_bit 1 v + 1) = 2 * uint v + 1"
    using assms by (simp add: uint_word_ariths)
  then have "uint (ucast (push_bit 1 v + 1) :: 64 word) = 2 * uint v + 1" 
    by (simp only: uint_widen)
  with assms show ?thesis
    by (simp add: number_value_def and_1_iff signed_half ucast_of_uint del: push_bit_Suc)
qed

lemma ucast_cancel: "(ucast (ucast (v :: u32) :: 64 word) :: u32) = v"
  by (rule ucast_up_ucast_id) (simp add: is_up)

lemma ucast_sum: "(ucast (v + w :: 64 word) :: u32) = ucast v + ucast w"
proof transfer
  fix v w :: int
  have "take_bit 32 (take_bit 64 (v + w)) = take_bit 32 (v + w)" by simp
  also have "\<dots> = take_bit 32 (take_bit 64 v + take_bit 64 w)"
    using take_bit_add [of 32 "take_bit 64 v" "take_bit 64 w"] take_bit_add [of 32 v w] by simp
  finally show "take_bit LENGTH(32) (take_bit LENGTH(64) (v + w))
      = take_bit LENGTH(32) (take_bit LENGTH(64) v + take_bit LENGTH(64) w)" by simp
qed

lemma ucast_diff: "(ucast (v - w :: 64 word) :: u32) = ucast v - ucast w"
  using ucast_sum [of "v - w" w] by (simp add: algebra_simps)

definition close_by :: "u32 \<Rightarrow> u32 \<Rightarrow> bool" where
  "close_by a b \<longleftrightarrow> \<bar>uint a - uint b\<bar> < 2 ^ 31"

lemma number_of_delta:
  assumes "close_by a b"
  shows "ucast (ucast b + number_value (ucast (vlq_number a b))) = a"
proof (cases "a \<ge> b")
  case True
  then have "uint (a - b) = uint a - uint b" by (simp add: uint_sub_if_size word_le_def)
  with True assms have "uint (a - b) < 2 ^ 31" by (simp add: close_by_def)
  from number_value_even [OF this] True show ?thesis
    by (simp add: vlq_number_def ucast_sum ucast_cancel)
next
  case False
  then have "uint (b - a) = uint b - uint a" by (simp add: uint_sub_if_size word_le_def)
  with False assms have "uint (b - a) < 2 ^ 31" by (simp add: close_by_def)
  from number_value_odd [OF this] False show ?thesis
    by (simp add: vlq_number_def ucast_diff ucast_cancel)
qed

lemma encode_vlq_eq: "encode_vlq a b = vlq_loop (vlq_number a b)"
proof -
  have "vlq_loop 0 = bytes ''A''" by code_simp
  moreover have "vlq_loop num = [b64_chars ! unat num]" if "num < 0b100000" for num
    using that by (subst vlq_loop_eq) (simp add: word_less_nat_alt)
  ultimately show ?thesis by (auto simp: encode_vlq_def vlq_number_def Let_def)
qed

definition number_read :: "u32 \<Rightarrow> mappings_decoder \<Rightarrow> mappings_decoder" where
  "number_read a d =
     d\<lparr>current_data := (current_data d)[current_data_pos d := a],
       current_data_pos := current_data_pos d + 1\<rparr>"

lemma scan_encode_vlq:
  assumes "current_value d = 0" "current_value_pos d = 0" "current_data_pos d < 5"
    "current_data d ! current_data_pos d = b" "close_by a b"
  shows "scan_bytes (encode_vlq a b) d = ([], number_read a d)"
proof -
  have "unat (vlq_number a b) * 2 ^ current_value_pos d < 2 ^ 32"
    using unsigned_less [of "vlq_number a b"] assms by simp
  from scan_vlq_loop [OF this] assms number_of_delta [of a b] show ?thesis
    by (simp add: encode_vlq_eq push_number_def number_read_def)
qed

lemma scan_write_delta:
  assumes "current_value d = 0" "current_value_pos d = 0" "current_data_pos d < 5"
    "current_data d ! current_data_pos d = b" "close_by a b"
  shows "scan_bytes (write_delta a b) d = ([], number_read a d)"
  using scan_encode_vlq [OF assms] by (cases "a = b") (auto simp: write_delta_def encode_vlq_def)

section \<open>Reading a text to its end\<close>

definition pending :: "mappings_decoder \<Rightarrow> source_mapping list" where
  "pending d = (case segment (decoder_line d) (current_data d) (current_data_pos d) of
     None \<Rightarrow> [] | Some m \<Rightarrow> [m])"

lemma pending_iter [simp]: "pending (d\<lparr>mappings_iter := cs\<rparr>) = pending d"
  by (simp add: pending_def)

lemma pending_0: "current_data_pos d = 0 \<Longrightarrow> pending d = []"
  by (simp add: pending_def segment_def)

definition read_all :: "u8 list \<Rightarrow> mappings_decoder \<Rightarrow> source_mapping list" where
  "read_all cs d = (let (ms, d1) = scan_bytes cs d in ms @ pending d1)"

lemma decoder_byte_with_iter:
  "decoder_byte c (d\<lparr>mappings_iter := xs\<rparr>) =
     (let (r, d1) = decoder_byte c d in (r, d1\<lparr>mappings_iter := xs\<rparr>))"
  by (simp add: decoder_byte_def Let_def)

lemma scan_bytes_with_iter:
  "scan_bytes cs (d\<lparr>mappings_iter := xs\<rparr>) =
     (let (ms, d1) = scan_bytes cs d in (ms, d1\<lparr>mappings_iter := xs\<rparr>))"
  by (induction cs arbitrary: d) (auto simp: decoder_byte_with_iter Let_def split: prod.splits)

lemma read_all_iter: "read_all cs (d\<lparr>mappings_iter := xs\<rparr>) = read_all cs d"
  by (simp add: read_all_def scan_bytes_with_iter split: prod.splits)

lemma decoder_loop_reads:
  "decoder_loop cs d = (r, d') \<Longrightarrow>
     read_all cs d = (case r of None \<Rightarrow> [] | Some m \<Rightarrow> m # read_all (mappings_iter d') d')"
proof (induction cs arbitrary: d)
  case Nil
  then show ?case
    by (auto simp: read_all_def pending_def segment_def split: option.splits if_splits)
next
  case (Cons c cs)
  obtain r1 d1 where b: "decoder_byte c d = (r1, d1)" by force
  have "read_all (c # cs) d = (case r1 of None \<Rightarrow> [] | Some m \<Rightarrow> [m]) @ read_all cs d1"
    using b by (auto simp: read_all_def Let_def split: prod.splits option.splits)
  with Cons b show ?case by (cases r1) (auto simp: read_all_iter)
qed

lemma decoder_collect_reads: "decoder_collect d = read_all (mappings_iter d) d"
proof (induction d rule: decoder_collect.induct)
  case (1 d)
  obtain r d' where n: "decoder_next d = (r, d')" by force
  with decoder_loop_reads [of "mappings_iter d" d r d'] 1 show ?case
    by (subst decoder_collect.simps) (cases r; auto simp: decoder_next_def)
qed

definition decoder_start :: mappings_decoder where
  "decoder_start = decoder_new []"

lemma decode_mappings_reads: "decode_mappings cs = read_all cs decoder_start"
  using read_all_iter [of cs cs decoder_start]
  by (simp add: decode_mappings_def decoder_collect_reads decoder_start_def decoder_new_def)

section \<open>Segments\<close>

lemma decoder_byte_comma: "decoder_byte 0x2C d =
   (segment (decoder_line d) (current_data d) (current_data_pos d), d\<lparr>current_data_pos := 0\<rparr>)"
proof -
  have "B64 ! 44 = COM" "COM \<noteq> ERR" "COM \<noteq> SEM" "COM AND COM \<noteq> 0" by code_simp+
  then show ?thesis by (simp add: decoder_byte_def)
qed

lemma decoder_byte_semicolon: "decoder_byte 0x3B d =
   (segment (decoder_line d) (current_data d) (current_data_pos d),
    d\<lparr>current_data_pos := 0, decoder_line := decoder_line d + 1,
      current_data := (current_data d)[0 := 0]\<rparr>)"
proof -
  have "B64 ! 59 = SEM" "SEM \<noteq> ERR" "SEM AND COM \<noteq> 0" by code_simp+
  then show ?thesis by (simp add: decoder_byte_def)
qed

lemma scan_comma: "scan_bytes [0x2C] d = (pending d, d\<lparr>current_data_pos := 0\<rparr>)"
  by (simp add: decoder_byte_comma pending_def)

lemma scan_semicolons:
  "scan_bytes (replicate (Suc n) 0x3B) d =
     (pending d, d\<lparr>current_data_pos := 0, decoder_line := decoder_line d + 1 + of_nat n,
        current_data := (current_data d)[0 := 0]\<rparr>)"
proof (induction n arbitrary: d)
  case 0
  then show ?case by (simp add: decoder_byte_semicolon pending_def)
next
  case (Suc n)
  let ?d = "snd (decoder_byte 0x3B d)"
  have "scan_bytes (replicate (Suc (Suc n)) 0x3B) d =
      (pending d @ fst (scan_bytes (replicate (Suc n) 0x3B) ?d),
       snd (scan_bytes (replicate (Suc n) 0x3B) ?d))"
    by (subst replicate_Suc)
      (auto simp: decoder_byte_semicolon pending_def split: prod.splits option.splits
        simp del: replicate_Suc)
  moreover have "pending ?d = []" by (simp add: pending_0 decoder_byte_semicolon)
  ultimately show ?case
    using Suc [of ?d] by (simp add: decoder_byte_semicolon algebra_simps del: replicate_Suc)
qed

section \<open>The full encoder\<close>

text \<open>The decoder that has read what the encoder has written, and the mappings it has returned.\<close>

definition encoder_data :: "full_encoder \<Rightarrow> u32 list" where
  "encoder_data e = [current_column e, current_source_index e, current_original_line e,
     current_original_column e, current_name_index e]"

definition written :: "full_encoder \<Rightarrow> source_mapping list \<Rightarrow> mappings_decoder \<Rightarrow> bool" where
  "written e out d \<longleftrightarrow> scan_bytes (mappings e) decoder_start = (out, d)
     \<and> current_value d = 0 \<and> current_value_pos d = 0
     \<and> decoder_line d = current_line e \<and> current_data d = encoder_data e"

lemma written_append:
  assumes "written e out d" "scan_bytes cs d = (ms, d')"
    "current_value d' = 0" "current_value_pos d' = 0"
    "mappings e' = mappings e @ cs" "decoder_line d' = current_line e'"
    "current_data d' = encoder_data e'"
  shows "written e' (out @ ms) d'"
  using assms by (auto simp: written_def scan_bytes_append)

lemma written_new: "written full_encoder_new [] decoder_start"
  by (simp add: written_def full_encoder_new_def decoder_start_def decoder_new_def
      encoder_data_def)

lemma separate_written:
  assumes w: "written e out d" and i: "initial_segment e \<Longrightarrow> current_data_pos d = 0"
    and l: "current_line e \<le> line"
  obtains d' where "written (full_encoder_separate line e) (out @ pending d) d'"
    "current_data_pos d' = 0"
proof -
  consider (semi) "current_line e < line" | (first) "current_line e = line" "initial_segment e"
    | (comma) "current_line e = line" "\<not> initial_segment e"
    using l by (auto simp: order_le_less)
  then show thesis
  proof cases
    case semi
    then have "unat (line - current_line e) > 0"
      by (simp add: unat_gt_0)
    then obtain n where n: "unat (line - current_line e) = Suc n" by (cases "unat (line - current_line e)") auto
    from arg_cong [OF n, of "of_nat :: nat \<Rightarrow> u32"]
    have "line - current_line e = of_nat (Suc n)" by simp
    then have "line = current_line e + 1 + of_nat n" by (simp add: algebra_simps)
    let ?d = "d\<lparr>current_data_pos := 0, decoder_line := decoder_line d + 1 + of_nat n,
        current_data := (current_data d)[0 := 0]\<rparr>"
    have "written (full_encoder_separate line e) (out @ pending d) ?d"
      by (rule written_append [OF w scan_semicolons])
        (use semi w n \<open>line = current_line e + 1 + of_nat n\<close> in
          \<open>auto simp: written_def full_encoder_separate_def encoder_data_def\<close>)
    then show thesis by (rule that) simp
  next
    case first
    with w i show thesis
      by (intro that [of d]) (auto simp: written_def full_encoder_separate_def encoder_data_def pending_0)
  next
    case comma
    have "written (full_encoder_separate line e) (out @ pending d) (d\<lparr>current_data_pos := 0\<rparr>)"
      by (rule written_append [OF w scan_comma])
        (use comma w in \<open>auto simp: written_def full_encoder_separate_def encoder_data_def\<close>)
    then show thesis by (rule that) simp
  qed
qed

definition small :: "u32 \<Rightarrow> bool" where
  "small v \<longleftrightarrow> v < 2 ^ 31"

lemma close_small: "small a \<Longrightarrow> small b \<Longrightarrow> close_by a b"
proof -
  assume "small a" "small b"
  then have "uint a < 2 ^ 31" "uint b < 2 ^ 31" by (simp_all add: small_def word_less_def)
  then show ?thesis
    unfolding close_by_def abs_less_iff using uint_ge_0 [of a] uint_ge_0 [of b] by linarith
qed

definition location_small :: "original_location \<Rightarrow> bool" where
  "location_small orig \<longleftrightarrow> small (source_index orig) \<and> small (original_line orig)
     \<and> small (original_column orig) \<and> (case name_index orig of None \<Rightarrow> True | Some i \<Rightarrow> small i)"

definition mapping_small :: "source_mapping \<Rightarrow> bool" where
  "mapping_small m \<longleftrightarrow> small (generated_column m)
     \<and> (case original m of None \<Rightarrow> True | Some orig \<Rightarrow> location_small orig)"

definition encoder_small :: "full_encoder \<Rightarrow> bool" where
  "encoder_small e \<longleftrightarrow> list_all small (encoder_data e)"

lemma column_written:
  assumes "written e out d" "current_data_pos d = 0" "small column" "encoder_small e"
  obtains d' where "written (full_encoder_column column e) out d'" "current_data_pos d' = 1"
proof -
  have "scan_bytes (encode_vlq column (current_column e)) d = ([], number_read column d)"
    using assms by (intro scan_encode_vlq)
      (auto simp: written_def encoder_data_def encoder_small_def intro: close_small)
  then have "written (full_encoder_column column e) (out @ []) (number_read column d)"
    by (rule written_append [OF assms(1)])
      (use assms in \<open>auto simp: written_def number_read_def full_encoder_column_def encoder_data_def\<close>)
  with assms show thesis by (intro that) (auto simp: number_read_def)
qed

lemma separate_small: "encoder_small e \<Longrightarrow> encoder_small (full_encoder_separate line e)"
  by (simp add: encoder_small_def encoder_data_def full_encoder_separate_def small_def)

lemma column_small: "encoder_small e \<Longrightarrow> small c \<Longrightarrow> encoder_small (full_encoder_column c e)"
  by (simp add: encoder_small_def encoder_data_def full_encoder_column_def)

lemma original_small:
  "encoder_small e \<Longrightarrow> location_small orig \<Longrightarrow> encoder_small (full_encoder_original orig e)"
  by (simp add: encoder_small_def encoder_data_def full_encoder_original_def location_small_def
      Let_def split: option.splits)

text \<open>The four or five numbers of an original location.\<close>

definition location_text :: "original_location \<Rightarrow> full_encoder \<Rightarrow> u8 list" where
  "location_text orig e =
     write_delta (source_index orig) (current_source_index e)
     @ write_delta (original_line orig) (current_original_line e)
     @ write_delta (original_column orig) (current_original_column e)
     @ (case name_index orig of None \<Rightarrow> [] | Some i \<Rightarrow> encode_vlq i (current_name_index e))"

definition location_read :: "original_location \<Rightarrow> mappings_decoder \<Rightarrow> mappings_decoder" where
  "location_read orig d =
     (let d = number_read (original_column orig) (number_read (original_line orig)
                (number_read (source_index orig) d))
      in case name_index orig of None \<Rightarrow> d | Some i \<Rightarrow> number_read i d)"

lemma full_encoder_original_text:
  "mappings (full_encoder_original orig e) = mappings e @ location_text orig e"
  by (simp add: full_encoder_original_def location_text_def split: option.splits)

lemma scan_location:
  assumes "written e out d" "current_data_pos d = 1" "location_small orig" "encoder_small e"
  shows "scan_bytes (location_text orig e) d = ([], location_read orig d)"
  using assms
  by (auto simp: location_text_def location_read_def scan_bytes_append scan_write_delta
      scan_encode_vlq number_read_def written_def encoder_data_def encoder_small_def
      location_small_def close_small Let_def split: option.splits)

lemma original_written:
  assumes w: "written e out d" and p: "current_data_pos d = 1"
    and s: "location_small orig" "encoder_small e"
  obtains d' where "written (full_encoder_original orig e) out d'"
    "segment (decoder_line d') (current_data d') (current_data_pos d') =
       Some \<lparr>generated_line = current_line e, generated_column = current_column e,
             original = Some orig\<rparr>"
proof -
  have "written (full_encoder_original orig e) (out @ []) (location_read orig d)"
    by (rule written_append [OF w scan_location [OF w p s]])
      (use w p in \<open>auto simp: full_encoder_original_text location_text_def written_def location_read_def
        number_read_def full_encoder_original_def encoder_data_def Let_def split: option.splits\<close>)
  moreover have "segment (decoder_line (location_read orig d)) (current_data (location_read orig d))
      (current_data_pos (location_read orig d)) =
      Some \<lparr>generated_line = current_line e, generated_column = current_column e,
            original = Some orig\<rparr>"
    using w p by (cases orig)
      (auto simp: written_def location_read_def number_read_def segment_def encoder_data_def Let_def
        split: option.splits)
  ultimately show thesis by (intro that) auto
qed

lemma full_encode_small:
  "encoder_small e \<Longrightarrow> mapping_small m \<Longrightarrow> encoder_small (full_encode m e)"
  by (auto simp: full_encode_def mapping_small_def Let_def split: option.splits
      intro!: original_small column_small separate_small)
    (simp_all add: encoder_small_def encoder_data_def full_encoder_column_def
      full_encoder_separate_def small_def)

lemma separate_line: "current_line e \<le> line \<Longrightarrow> current_line (full_encoder_separate line e) = line"
  by (auto simp: full_encoder_separate_def)

lemma full_encode_written:
  assumes w: "written e out d" and i: "initial_segment e \<Longrightarrow> current_data_pos d = 0"
    and l: "current_line e \<le> generated_line m" and s: "encoder_small e" "mapping_small m"
    and k: "\<not> full_encoder_skips e m"
  obtains d' where "written (full_encode m e) (out @ pending d) d'" "pending d' = [m]"
proof -
  let ?e1 = "full_encoder_separate (generated_line m) e"
  let ?e2 = "full_encoder_column (generated_column m) ?e1"
  obtain d1 where d1: "written ?e1 (out @ pending d) d1" "current_data_pos d1 = 0"
    using separate_written [OF w i l] by blast
  obtain d2 where d2: "written ?e2 (out @ pending d) d2" "current_data_pos d2 = 1"
    using column_written [OF d1] s separate_small by (auto simp: mapping_small_def)
  have e2: "current_line ?e2 = generated_line m" "current_column ?e2 = generated_column m"
    using separate_line [OF l] by (simp_all add: full_encoder_column_def)
  show thesis
  proof (cases "original m")
    case None
    then have "written (full_encode m e) (out @ pending d) d2"
      using d2 k by (simp add: full_encode_def written_def encoder_data_def)
    moreover have "pending d2 = [m]"
      using d2 e2 None by (cases m) (simp add: pending_def segment_def written_def encoder_data_def)
    ultimately show thesis by (rule that)
  next
    case (Some orig)
    have "location_small orig" "encoder_small ?e2"
      using s Some by (auto simp: mapping_small_def intro!: column_small separate_small)
    with d2 obtain d3 where "written (full_encoder_original orig ?e2) (out @ pending d) d3"
      "segment (decoder_line d3) (current_data d3) (current_data_pos d3) =
         Some \<lparr>generated_line = current_line ?e2, generated_column = current_column ?e2,
               original = Some orig\<rparr>"
      by (blast intro: original_written)
    with Some k e2 show thesis
      by (intro that [of d3]) (cases m, auto simp: full_encode_def pending_def)+
  qed
qed

section \<open>Lists of mappings\<close>

text \<open>The mappings the encoder does not leave out.\<close>

fun kept :: "full_encoder \<Rightarrow> source_mapping list \<Rightarrow> source_mapping list" where
  "kept e [] = []"
| "kept e (m # ms) =
     (if full_encoder_skips e m then kept e ms else m # kept (full_encode m e) ms)"

fun in_line_order :: "u32 \<Rightarrow> source_mapping list \<Rightarrow> bool" where
  "in_line_order line [] \<longleftrightarrow> True"
| "in_line_order line (m # ms) \<longleftrightarrow> line \<le> generated_line m \<and> in_line_order (generated_line m) ms"

lemma in_line_order_mono: "in_line_order l ms \<Longrightarrow> k \<le> l \<Longrightarrow> in_line_order k ms"
  by (cases ms) auto

lemma full_encode_line:
  assumes "current_line e \<le> generated_line m"
  shows "\<not> full_encoder_skips e m \<Longrightarrow> current_line (full_encode m e) = generated_line m"
    "full_encoder_skips e m \<Longrightarrow> full_encode m e = e"
    "\<not> full_encoder_skips e m \<Longrightarrow> \<not> initial_segment (full_encode m e)"
  using assms separate_line [OF assms]
  by (auto simp: full_encode_def full_encoder_column_def full_encoder_original_def
      full_encoder_separate_def Let_def split: option.splits)

lemma full_encode_fold:
  assumes "written e out d" "initial_segment e \<Longrightarrow> current_data_pos d = 0"
    "in_line_order (current_line e) ms" "encoder_small e" "list_all mapping_small ms"
  shows "read_all (mappings (fold full_encode ms e)) decoder_start = out @ pending d @ kept e ms"
  using assms
proof (induction ms arbitrary: e out d)
  case Nil
  then show ?case by (simp add: written_def read_all_def)
next
  case (Cons m ms)
  show ?case
  proof (cases "full_encoder_skips e m")
    case True
    with Cons.prems Cons.IH [of e out d] show ?thesis
      by (auto simp: full_encode_line intro: in_line_order_mono)
  next
    case False
    with Cons.prems obtain d' where d': "written (full_encode m e) (out @ pending d) d'"
      "pending d' = [m]"
      by (auto intro: full_encode_written)
    from Cons.IH [OF this(1)] Cons.prems False d' show ?thesis
      by (auto simp: full_encode_line full_encode_small)
  qed
qed

lemma fold_full: "fold encoder_encode ms (Full e) = Full (fold full_encode ms e)"
  by (induction ms arbitrary: e) auto

lemma encode_mappings_full: "encode_mappings ms = mappings (fold full_encode ms full_encoder_new)"
  by (simp add: encode_mappings_def create_encoder_def fold_full full_drain_def)

lemma new_small: "encoder_small full_encoder_new"
  by code_simp

definition encodable :: "source_mapping list \<Rightarrow> bool" where
  "encodable ms \<longleftrightarrow> in_line_order 1 ms \<and> list_all mapping_small ms"

lemma decode_encode_kept:
  assumes "encodable ms"
  shows "decode_mappings (encode_mappings ms) = kept full_encoder_new ms"
proof -
  have "pending decoder_start = []" by (simp add: decoder_start_def decoder_new_def pending_0)
  with full_encode_fold [OF written_new _ _ new_small, of ms] assms show ?thesis
    by (simp add: decode_mappings_reads encode_mappings_full encodable_def full_encoder_new_def
        decoder_start_def decoder_new_def)
qed

lemma kept_subseq: "subseq (kept e ms) ms"
  by (induction ms arbitrary: e) auto

lemma fold_kept: "fold full_encode (kept e ms) e = fold full_encode ms e"
  by (induction ms arbitrary: e) (auto simp: full_encode_def)

section \<open>Resolving a position\<close>

text \<open>What a reader of the mappings finds for a generated position: the last mapping of the line at or before the column.\<close>

fun resolve_from :: "u32 \<Rightarrow> u32 \<Rightarrow> original_location option \<Rightarrow> source_mapping list \<Rightarrow> original_location option"
  where
  "resolve_from l c found [] = found"
| "resolve_from l c found (m # ms) =
     resolve_from l c
       (if generated_line m = l \<and> generated_column m \<le> c then original m else found) ms"

definition resolve_position :: "source_mapping list \<Rightarrow> u32 \<Rightarrow> u32 \<Rightarrow> original_location option" where
  "resolve_position ms l c = resolve_from l c None ms"

fun in_position_order :: "u32 \<Rightarrow> u32 \<Rightarrow> source_mapping list \<Rightarrow> bool" where
  "in_position_order l c [] \<longleftrightarrow> True"
| "in_position_order l c (m # ms) \<longleftrightarrow>
     (l < generated_line m \<or> l = generated_line m \<and> c \<le> generated_column m)
     \<and> in_position_order (generated_line m) (generated_column m) ms"

lemma in_position_order_lines: "in_position_order l c ms \<Longrightarrow> in_line_order l ms"
  by (induction ms arbitrary: l c) auto

lemma in_position_order_weaken:
  "in_position_order l c ms \<Longrightarrow> l' < l \<or> l' = l \<and> c' \<le> c \<Longrightarrow> in_position_order l' c' ms"
  by (cases ms) auto

definition encoder_original :: "full_encoder \<Rightarrow> original_location option" where
  "encoder_original e =
     (if active_mapping e
      then Some \<lparr>source_index = current_source_index e, original_line = current_original_line e,
        original_column = current_original_column e,
        name_index = (if active_name e then Some (current_name_index e) else None)\<rparr>
      else None)"

lemma encoder_original_encode:
  assumes "\<not> full_encoder_skips e m"
  shows "encoder_original (full_encode m e) = original m"
    "current_column (full_encode m e) = generated_column m"
  using assms
  by (auto simp: encoder_original_def full_encode_def full_encoder_original_def
      full_encoder_column_def Let_def split: option.splits)

lemma skips_original:
  assumes "full_encoder_skips e m" "current_line e = generated_line m"
  shows "original m = encoder_original e"
  using assms by (auto simp: full_encoder_skips_def encoder_original_def split: if_splits option.splits)

lemma skips_later:
  assumes "full_encoder_skips e m" "current_line e \<noteq> generated_line m"
  shows "original m = None"
  using assms by (auto simp: full_encoder_skips_def)

lemma resolve_kept:
  assumes "in_position_order (current_line e) (current_column e) ms"
    "l = current_line e \<and> current_column e \<le> c \<Longrightarrow> found = encoder_original e"
    "current_line e < l \<Longrightarrow> found = None"
  shows "resolve_from l c found (kept e ms) = resolve_from l c found ms"
  using assms
proof (induction ms arbitrary: e found)
  case (Cons m ms)
  let ?found = "if generated_line m = l \<and> generated_column m \<le> c then original m else found"
  show ?case
  proof (cases "full_encoder_skips e m")
    case True
    have "?found = found"
    proof (cases "generated_line m = l \<and> generated_column m \<le> c")
      case match: True
      show ?thesis
      proof (cases "current_line e = l")
        case same: True
        with match Cons.prems(1) have "current_column e \<le> c" by (auto intro: order_trans)
        with same match Cons.prems(2) skips_original [OF True] show ?thesis by simp
      next
        case False
        with match Cons.prems(1,3) skips_later [OF True] show ?thesis by auto
      qed
    qed auto
    with True Cons show ?thesis
      by (auto intro: in_position_order_weaken)
  next
    case False
    have line: "current_line (full_encode m e) = generated_line m"
      using Cons.prems(1) False by (auto intro!: full_encode_line)
    show ?thesis
      using Cons.IH [of "full_encode m e" ?found] Cons.prems False
      by (auto simp: line encoder_original_encode)
  qed
qed simp

definition sample_mappings :: "source_mapping list" where
  "sample_mappings =
     [\<lparr>generated_line = 1, generated_column = 0, original = Some \<lparr>source_index = 0,
        original_line = 1, original_column = 4, name_index = None\<rparr>\<rparr>,
      \<lparr>generated_line = 1, generated_column = 9, original = Some \<lparr>source_index = 0,
        original_line = 1, original_column = 4, name_index = None\<rparr>\<rparr>,
      \<lparr>generated_line = 1, generated_column = 40, original = Some \<lparr>source_index = 2,
        original_line = 300, original_column = 0, name_index = Some 1\<rparr>\<rparr>,
      \<lparr>generated_line = 3, generated_column = 2, original = None\<rparr>,
      \<lparr>generated_line = 3, generated_column = 2, original = Some \<lparr>source_index = 1,
        original_line = 2, original_column = 2, name_index = None\<rparr>\<rparr>,
      \<lparr>generated_line = 3, generated_column = 7, original = None\<rparr>]"

text \<open>
  C34. Mappings in the order of their positions, with numbers below 2 to the power of 31, survive the encoding: the decoder
  returns a part of them that resolves every generated position to the same original location, and
  encoding that part again gives the same text.
\<close>

theorem mappings_round_trip:
  assumes "in_position_order 1 0 ms" "list_all mapping_small ms"
  shows "subseq (decode_mappings (encode_mappings ms)) ms
    \<and> (\<forall>l c. resolve_position (decode_mappings (encode_mappings ms)) l c = resolve_position ms l c)
    \<and> encode_mappings (decode_mappings (encode_mappings ms)) = encode_mappings ms"
proof -
  have d: "decode_mappings (encode_mappings ms) = kept full_encoder_new ms"
    using assms by (intro decode_encode_kept) (auto simp: encodable_def dest: in_position_order_lines)
  have "resolve_from l c None (kept full_encoder_new ms) = resolve_from l c None ms" for l c
    using assms by (intro resolve_kept) (auto simp: full_encoder_new_def encoder_original_def)
  with d show ?thesis
    by (simp add: kept_subseq resolve_position_def encode_mappings_full fold_kept)
qed

theorem mappings_round_trip_witness:
  "in_position_order 1 0 sample_mappings \<and> list_all mapping_small sample_mappings
   \<and> subseq (decode_mappings (encode_mappings sample_mappings)) sample_mappings
   \<and> encode_mappings sample_mappings = bytes ''AAAI,wCE2SJC;;ED1SE,K''
   \<and> resolve_position (decode_mappings (encode_mappings sample_mappings)) 1 20
       = Some \<lparr>source_index = 0, original_line = 1, original_column = 4, name_index = None\<rparr>"
proof -
  have "in_position_order 1 0 sample_mappings" "list_all mapping_small sample_mappings"
    by code_simp+
  moreover have "encode_mappings sample_mappings = bytes ''AAAI,wCE2SJC;;ED1SE,K''"
    by code_simp
  moreover have "resolve_position sample_mappings 1 20
      = Some \<lparr>source_index = 0, original_line = 1, original_column = 4, name_index = None\<rparr>"
    by code_simp
  ultimately show ?thesis using mappings_round_trip [of sample_mappings] by auto
qed

end
