(* ===== verification/Sources_Text.thy ===== *)
theory Sources_Text
  imports Sources_Codec
begin

text \<open>
  The text vocabulary of \<open>crates/rspack_sources/src/helpers.rs\<close>: spans with their ASCII hint, lines, potential tokens and
  the position behind a text.  A \<open>str\<close> is its list of bytes; a slice that is out of range or not at a character boundary
  panics, which is \<^term>\<open>None\<close>.  \<open>utf16_len\<close> is the formula its comment states.  Offsets are natural numbers (a text is
  shorter than 4 GiB), lines and columns are 32-bit words.
\<close>

unbundle bit_operations_syntax

section \<open>UTF-8 and UTF-16\<close>

definition is_continuation :: "u8 \<Rightarrow> bool" where
  "is_continuation b = (b AND 0xC0 = 0x80)"

definition is_char_boundary :: "u8 list \<Rightarrow> nat \<Rightarrow> bool" where
  "is_char_boundary s i = (i = length s \<or> i < length s \<and> \<not> is_continuation (s ! i))"

definition slice_bytes :: "u8 list \<Rightarrow> nat \<Rightarrow> nat \<Rightarrow> u8 list" where
  "slice_bytes s i j = take (j - i) (drop i s)"

definition str_slice :: "u8 list \<Rightarrow> nat \<Rightarrow> nat \<Rightarrow> u8 list option" where
  "str_slice s i j =
     (if i \<le> j \<and> is_char_boundary s i \<and> is_char_boundary s j then Some (slice_bytes s i j) else None)"

definition utf16_len :: "u8 list \<Rightarrow> nat" where
  "utf16_len s = length s - length (filter is_continuation s) + length (filter (\<lambda>b. 0xF0 \<le> b) s)"

lemma utf16_len_Nil [simp]: "utf16_len [] = 0"
  by (simp add: utf16_len_def)

lemma utf16_len_append [simp]: "utf16_len (xs @ ys) = utf16_len xs + utf16_len ys"
  using length_filter_le [of is_continuation xs] length_filter_le [of is_continuation ys]
  unfolding utf16_len_def filter_append length_append by linarith

lemma ascii_table:
  "list_all (\<lambda>i. \<not> is_continuation (of_nat i) \<and> \<not> 0xF0 \<le> (of_nat i :: u8)) [0..<128]"
  by code_simp

lemma is_ascii_units: "is_ascii b \<Longrightarrow> \<not> is_continuation b \<and> \<not> 0xF0 \<le> b"
proof -
  assume "is_ascii b"
  then have "unat b \<in> set [0..<128]" by (simp add: is_ascii_def word_less_nat_alt)
  with ascii_table have "\<not> is_continuation (of_nat (unat b)) \<and> \<not> 0xF0 \<le> (of_nat (unat b) :: u8)"
    unfolding list_all_iff by blast
  then show ?thesis by simp
qed

lemma utf16_len_ascii: "list_all is_ascii s \<Longrightarrow> utf16_len s = length s"
proof (induction s)
  case (Cons b s)
  then have "utf16_len [b] = 1" using is_ascii_units [of b] by (simp add: utf16_len_def)
  with Cons utf16_len_append [of "[b]" s] show ?case by simp
qed simp

section \<open>Text spans\<close>

datatype ascii_hit = Ascii | NotAscii | Unknown

definition from_is_ascii :: "bool \<Rightarrow> ascii_hit" where
  "from_is_ascii b = (if b then Ascii else NotAscii)"

definition for_subspan :: "ascii_hit \<Rightarrow> ascii_hit" where
  "for_subspan h = (if h = Ascii then Ascii else Unknown)"

record text_span =
  span_text :: "u8 list"
  span_hit :: ascii_hit

definition text_span_new :: "u8 list \<Rightarrow> text_span" where
  "text_span_new t = \<lparr>span_text = t, span_hit = Unknown\<rparr>"

definition text_span_with_ascii :: "u8 list \<Rightarrow> bool \<Rightarrow> text_span" where
  "text_span_with_ascii t b = \<lparr>span_text = t, span_hit = from_is_ascii b\<rparr>"

definition span_len :: "text_span \<Rightarrow> nat" where
  "span_len s = length (span_text s)"

definition span_ends_with :: "text_span \<Rightarrow> u8 \<Rightarrow> bool" where
  "span_ends_with s b = (span_text s \<noteq> [] \<and> last (span_text s) = b)"

definition str_is_ascii :: "u8 list \<Rightarrow> bool" where
  "str_is_ascii t = list_all is_ascii t"

fun span_is_ascii :: "text_span \<Rightarrow> bool" where
  "span_is_ascii s = (case span_hit s of Ascii \<Rightarrow> True | NotAscii \<Rightarrow> False
     | Unknown \<Rightarrow> str_is_ascii (span_text s))"

definition is_known_ascii :: "text_span \<Rightarrow> bool" where
  "is_known_ascii s = (span_hit s = Ascii)"

definition utf16_len_of :: "text_span \<Rightarrow> u8 list \<Rightarrow> nat" where
  "utf16_len_of s t = (case span_hit s of Ascii \<Rightarrow> length t | _ \<Rightarrow> utf16_len t)"

definition span_utf16_len :: "text_span \<Rightarrow> nat" where
  "span_utf16_len s = utf16_len_of s (span_text s)"

definition subspan :: "text_span \<Rightarrow> u8 list \<Rightarrow> text_span" where
  "subspan s t = \<lparr>span_text = t, span_hit = for_subspan (span_hit s)\<rparr>"

definition span_slice :: "text_span \<Rightarrow> nat \<Rightarrow> nat \<Rightarrow> text_span option" where
  "span_slice s i j = map_option (subspan s) (str_slice (span_text s) i j)"

definition span_slice_to :: "text_span \<Rightarrow> nat \<Rightarrow> text_span option" where
  "span_slice_to s j = map_option (subspan s) (str_slice (span_text s) 0 j)"

definition span_slice_from :: "text_span \<Rightarrow> nat \<Rightarrow> text_span option" where
  "span_slice_from s i = map_option (subspan s) (str_slice (span_text s) i (span_len s))"

text \<open>The hint is right: only then does the fast path count what the slow one does.\<close>

definition span_ok :: "text_span \<Rightarrow> bool" where
  "span_ok s \<longleftrightarrow> (span_hit s = Ascii \<longrightarrow> str_is_ascii (span_text s))"

lemma utf16_len_of_part:
  "span_ok s \<Longrightarrow> set t \<subseteq> set (span_text s) \<Longrightarrow> utf16_len_of s t = utf16_len t"
  by (auto simp: utf16_len_of_def span_ok_def str_is_ascii_def list_all_iff subset_iff
      split: ascii_hit.splits intro!: utf16_len_ascii [symmetric])

lemma span_utf16_len: "span_ok s \<Longrightarrow> span_utf16_len s = utf16_len (span_text s)"
  by (simp add: span_utf16_len_def utf16_len_of_part)

lemma span_ok_new [simp]: "span_ok (text_span_new t)"
  by (simp add: span_ok_def text_span_new_def)

lemma span_ok_subspan: "span_ok s \<Longrightarrow> set t \<subseteq> set (span_text s) \<Longrightarrow> span_ok (subspan s t)"
  by (auto simp: span_ok_def subspan_def for_subspan_def str_is_ascii_def list_all_iff subset_iff
      split: if_splits)

section \<open>Lines and tokens\<close>

function split_into_lines :: "u8 list \<Rightarrow> u8 list list" where
  "split_into_lines haystack =
     (if haystack = [] then []
      else case position 0x0A haystack of
             Some pos \<Rightarrow> take (pos + 1) haystack # split_into_lines (drop (pos + 1) haystack)
           | None \<Rightarrow> [haystack])"
  by pat_completeness auto
termination by (relation "measure length") auto

declare split_into_lines.simps [simp del]

fun memchr_any :: "u8 list \<Rightarrow> u8 list \<Rightarrow> nat option" where
  "memchr_any bs [] = None"
| "memchr_any bs (c # cs) = (if c \<in> set bs then Some 0 else map_option Suc (memchr_any bs cs))"

text \<open>How many bytes of the separators behind a boundary belong to the token.\<close>

fun token_tail :: "u8 list \<Rightarrow> nat" where
  "token_tail [] = 0"
| "token_tail (b # bs) =
     (if b \<in> {0x3B, 0x20, 0x7B, 0x7D, 0x0D, 0x09} then Suc (token_tail bs)
      else if b = 0x0A then 1 else 0)"

definition token_end :: "u8 list \<Rightarrow> nat" where
  "token_end text =
     (let primary = memchr_any [0x0A, 0x3B, 0x7B] text;
          limit = (case primary of Some p \<Rightarrow> p | None \<Rightarrow> length text);
          closing_brace = memchr_any [0x7D] (take limit text)
      in case (case closing_brace of Some p \<Rightarrow> Some p | None \<Rightarrow> primary) of
           Some boundary \<Rightarrow> boundary + token_tail (drop boundary text)
         | None \<Rightarrow> length text)"

lemma memchr_any_Some: "memchr_any bs cs = Some i \<Longrightarrow> i < length cs \<and> cs ! i \<in> set bs"
  by (induction cs arbitrary: i) (auto split: if_splits)

lemma token_tail_le: "token_tail bs \<le> length bs"
  by (induction bs) auto

lemma token_tail_pos:
  "bs \<noteq> [] \<Longrightarrow> hd bs \<in> {0x0A, 0x3B, 0x7B, 0x7D} \<Longrightarrow> 0 < token_tail bs"
  by (cases bs) auto

lemma token_boundary:
  assumes "boundary < length s" "s ! boundary \<in> {0x0A, 0x3B, 0x7B, 0x7D}"
  shows "0 < boundary + token_tail (drop boundary s)"
    "boundary + token_tail (drop boundary s) \<le> length s"
  using assms token_tail_pos [of "drop boundary s"] token_tail_le [of "drop boundary s"]
  by (auto simp: hd_drop_conv_nth)

lemma token_end_bounds:
  assumes "s \<noteq> []"
  shows "0 < token_end s" "token_end s \<le> length s"
proof -
  obtain r where r: "(case memchr_any [0x7D] (take (case memchr_any [0x0A, 0x3B, 0x7B] s of
      Some p \<Rightarrow> p | None \<Rightarrow> length s) s) of Some p \<Rightarrow> Some p | None \<Rightarrow> memchr_any [0x0A, 0x3B, 0x7B] s) = r"
    by blast
  have "b < length s \<and> s ! b \<in> {0x0A, 0x3B, 0x7B, 0x7D}" if "r = Some b" for b
    using that r by (auto split: option.splits dest!: memchr_any_Some)
  then have "0 < token_end s \<and> token_end s \<le> length s"
    using assms r token_boundary [of _ s] by (cases r) (auto simp: token_end_def Let_def)
  then show "0 < token_end s" "token_end s \<le> length s" by auto
qed

function split_into_potential_tokens :: "u8 list \<Rightarrow> u8 list list" where
  "split_into_potential_tokens text =
     (if text = [] then []
      else take (token_end text) text # split_into_potential_tokens (drop (token_end text) text))"
  by pat_completeness auto
termination by (relation "measure length") (auto simp: token_end_bounds)

declare split_into_potential_tokens.simps [simp del]

record generated_info =
  info_line :: u32
  info_column :: u32

definition get_generated_source_info :: "text_span \<Rightarrow> generated_info" where
  "get_generated_source_info source =
     (if span_ends_with source 0x0A
      then \<lparr>info_line = of_nat (length (split_into_lines (span_text source)) + 1), info_column = 0\<rparr>
      else
        let lines = split_into_lines (span_text source);
            last_line = (if lines = [] then [] else last lines)
        in \<lparr>info_line = of_nat (max (length lines) 1),
            info_column = of_nat (utf16_len_of source last_line)\<rparr>)"

end
