(* ===== verification/Sources_Index.thy ===== *)
theory Sources_Index
  imports Sources_Text
begin

text \<open>
  \<open>crates/rspack_sources/src/line_index.rs\<close> and \<open>source_content_lines.rs\<close>: the index that slices the lines of a text by
  UTF-16 columns, built byte by byte or in blocks of 16 bytes.  \<open>mask\<close> and its bits are the positions of the newlines of
  a block; \<open>partition_point\<close> is the length of the prefix it delimits.
\<close>

unbundle bit_operations_syntax

record wide_char =
  utf16_start :: nat
  byte_start :: nat

record line_index =
  index_text :: "u8 list"
  line_starts :: "nat list"
  line_wide_chars :: "wide_char list option list"

record indexed_line =
  line_text :: "u8 list"
  line_wide :: "wide_char list option"

record scan_state =
  line_start :: nat
  extra_bytes :: nat
  scan_chars :: "wide_char list"

definition scan_state_default :: scan_state where
  "scan_state_default = \<lparr>line_start = 0, extra_bytes = 0, scan_chars = []\<rparr>"

definition leading_ones :: "u8 \<Rightarrow> nat" where
  "leading_ones b =
     (if b < 0x80 then 0 else if b < 0xC0 then 1 else if b < 0xE0 then 2 else if b < 0xF0 then 3
      else if b < 0xF8 then 4 else if b < 0xFC then 5 else if b < 0xFE then 6
      else if b < 0xFF then 7 else 8)"

definition finish_line :: "line_index \<times> scan_state \<Rightarrow> line_index \<times> scan_state" where
  "finish_line = (\<lambda>(index, state).
     if scan_chars state = [] then (index, state\<lparr>extra_bytes := 0\<rparr>)
     else
       let wide = (if line_wide_chars index = [] then replicate (length (line_starts index)) None
                   else line_wide_chars index)
       in (index\<lparr>line_wide_chars := wide[length (line_starts index) - 1 := Some (scan_chars state)]\<rparr>,
           state\<lparr>scan_chars := [], extra_bytes := 0\<rparr>))"

definition record_newline :: "nat \<Rightarrow> line_index \<times> scan_state \<Rightarrow> line_index \<times> scan_state" where
  "record_newline newline c =
     (let (index, state) = finish_line c; next = newline + 1
      in (if next < length (index_text index)
          then index\<lparr>line_starts := line_starts index @ [next],
                     line_wide_chars := (if line_wide_chars index = [] then []
                                         else line_wide_chars index @ [None])\<rparr>
          else index,
          state\<lparr>line_start := next\<rparr>))"

definition scan_wide :: "u8 \<Rightarrow> nat \<Rightarrow> scan_state \<Rightarrow> scan_state" where
  "scan_wide first_byte cursor state =
     (let byte_len = leading_ones first_byte;
          start = cursor - line_start state;
          wide_len = (if byte_len = 4 then 2 else 1)
      in state\<lparr>scan_chars := scan_chars state
                 @ [\<lparr>utf16_start = start - extra_bytes state, byte_start = start\<rparr>],
               extra_bytes := extra_bytes state + (byte_len - wide_len)\<rparr>)"

function scan_scalar_to ::
    "nat \<Rightarrow> nat \<Rightarrow> line_index \<times> scan_state \<Rightarrow> nat \<times> line_index \<times> scan_state" where
  "scan_scalar_to limit cursor c =
     (if cursor < limit then
        let first_byte = index_text (fst c) ! cursor in
        if first_byte = 0x0A then scan_scalar_to limit (cursor + 1) (record_newline cursor c)
        else if first_byte < 0x80 then scan_scalar_to limit (cursor + 1) c
        else scan_scalar_to limit (cursor + leading_ones first_byte)
               (fst c, scan_wide first_byte cursor (snd c))
      else (cursor, c))"
  by pat_completeness auto
termination
  by (relation "measure (\<lambda>(limit, cursor, c). limit - cursor)") (auto simp: leading_ones_def)

declare scan_scalar_to.simps [simp del]

definition scan_generic :: "line_index \<Rightarrow> line_index" where
  "scan_generic index =
     (let (cursor, c) = scan_scalar_to (length (index_text index)) 0 (index, scan_state_default)
      in fst (finish_line c))"

text \<open>The newlines of a block, in order, and the test that all its bytes are ASCII.\<close>

definition chunk_size :: nat where "chunk_size = 16"

definition block_newlines :: "u8 list \<Rightarrow> nat \<Rightarrow> nat list" where
  "block_newlines s cursor = filter (\<lambda>i. s ! i = 0x0A) [cursor ..< cursor + chunk_size]"

function scan_blocks :: "nat \<Rightarrow> line_index \<times> scan_state \<Rightarrow> nat \<times> line_index \<times> scan_state" where
  "scan_blocks cursor c =
     (if cursor + chunk_size \<le> length (index_text (fst c)) then
        if list_all (\<lambda>b. b < 0x80) (slice_bytes (index_text (fst c)) cursor (cursor + chunk_size))
        then scan_blocks (cursor + chunk_size)
               (fold record_newline (block_newlines (index_text (fst c)) cursor) c)
        else (let (cursor, c) = scan_scalar_to (cursor + chunk_size) cursor c in scan_blocks cursor c)
      else (cursor, c))"
  by pat_completeness auto

lemma finish_line_text: "index_text (fst (finish_line c)) = index_text (fst c)"
  by (simp add: finish_line_def Let_def split: prod.splits)

lemma record_newline_text: "index_text (fst (record_newline i c)) = index_text (fst c)"
  using finish_line_text [of c] by (auto simp: record_newline_def Let_def split: prod.splits)

lemma scan_scalar_to_text: "index_text (fst (snd (scan_scalar_to l i c))) = index_text (fst c)"
proof (induction l i c rule: scan_scalar_to.induct)
  case (1 l i c)
  then show ?case by (subst scan_scalar_to.simps) (simp add: record_newline_text Let_def)
qed

lemma scan_scalar_to_limit: "l \<le> fst (scan_scalar_to l i c)"
proof (induction l i c rule: scan_scalar_to.induct)
  case (1 l i c)
  then show ?case by (subst scan_scalar_to.simps) (simp add: Let_def)
qed

lemma fold_newline_text:
  "index_text (fst (fold record_newline is c)) = index_text (fst c)"
  by (induction "is" arbitrary: c) (simp_all add: record_newline_text)

termination scan_blocks
proof (relation "measure (\<lambda>(cursor, c). length (index_text (fst c)) - cursor)", simp, goal_cases)
  case (1 cursor c)
  then show ?case by (simp add: fold_newline_text chunk_size_def)
next
  case (2 cursor c x y)
  with scan_scalar_to_limit [of "cursor + chunk_size" cursor c]
    scan_scalar_to_text [of "cursor + chunk_size" cursor c]
  show ?case by (auto simp: chunk_size_def split: prod.splits)
qed

declare scan_blocks.simps [simp del]

definition scan_sse2 :: "line_index \<Rightarrow> line_index" where
  "scan_sse2 index =
     (let (cursor, c) = scan_blocks 0 (index, scan_state_default);
          (cursor, c) = scan_scalar_to (length (index_text index)) cursor c
      in fst (finish_line c))"

text \<open>\<open>with_known_ascii\<close> scans with the routine of the platform.\<close>

definition memchr_iter :: "u8 \<Rightarrow> u8 list \<Rightarrow> nat list" where
  "memchr_iter b s = filter (\<lambda>i. s ! i = b) [0..<length s]"

definition index_with_known_ascii ::
    "(line_index \<Rightarrow> line_index) \<Rightarrow> u8 list \<Rightarrow> bool \<Rightarrow> line_index" where
  "index_with_known_ascii scan s known =
     (let index = \<lparr>index_text = s, line_starts = (if s = [] then [] else [0]), line_wide_chars = []\<rparr>
      in if known
         then index\<lparr>line_starts := line_starts index
                @ filter (\<lambda>i. i < length s) (map Suc (memchr_iter 0x0A s))\<rparr>
         else scan index)"

definition index_new :: "(line_index \<Rightarrow> line_index) \<Rightarrow> u8 list \<Rightarrow> line_index" where
  "index_new scan s = index_with_known_ascii scan s False"

definition line_count :: "line_index \<Rightarrow> nat" where
  "line_count index = length (line_starts index)"

definition index_get_unchecked :: "line_index \<Rightarrow> nat \<Rightarrow> indexed_line" where
  "index_get_unchecked index line =
     (let start = line_starts index ! line;
          stop = (if line + 1 < line_count index then line_starts index ! (line + 1)
                  else length (index_text index))
      in \<lparr>line_text = slice_bytes (index_text index) start stop,
          line_wide = (if line_wide_chars index = [] then None else line_wide_chars index ! line)\<rparr>)"

definition index_get :: "line_index \<Rightarrow> nat \<Rightarrow> indexed_line option" where
  "index_get index line =
     (if line \<ge> line_count index then None else Some (index_get_unchecked index line))"

text \<open>The byte of a UTF-16 column, rounded down inside a surrogate pair.\<close>

definition to_byte :: "u8 list \<Rightarrow> wide_char list \<Rightarrow> nat \<Rightarrow> nat" where
  "to_byte line wide index =
     (if index \<ge> length line then length line
      else let position = length (takeWhile (\<lambda>ch. utf16_start ch \<le> index) wide) in
        if position = 0 then index
        else let ch = wide ! (position - 1);
                 byte_len = leading_ones (line ! byte_start ch);
                 wide_len = (if byte_len = 4 then 2 else 1);
                 after = index - utf16_start ch
             in if after < wide_len then byte_start ch
                else let extra = byte_start ch - utf16_start ch + byte_len - wide_len
                     in min (index + extra) (length line))"

text \<open>A slice that ends at \<open>usize::MAX\<close>, which is beyond every line, ends at \<^term>\<open>None\<close>.\<close>

definition line_substring :: "indexed_line \<Rightarrow> nat \<Rightarrow> nat option \<Rightarrow> u8 list" where
  "line_substring l i j =
     (if (case j of None \<Rightarrow> False | Some j \<Rightarrow> j \<le> i) then []
      else case line_wide l of
             None \<Rightarrow> slice_bytes (line_text l) (min i (length (line_text l)))
               (case j of None \<Rightarrow> length (line_text l) | Some j \<Rightarrow> min j (length (line_text l)))
           | Some wide \<Rightarrow> slice_bytes (line_text l) (to_byte (line_text l) wide i)
               (case j of None \<Rightarrow> length (line_text l) | Some j \<Rightarrow> to_byte (line_text l) wide j))"

section \<open>Whole characters\<close>

definition char_width :: "u8 \<Rightarrow> nat" where
  "char_width b = (if b < 0x80 then 1
     else if leading_ones b \<in> {2, 3, 4} then leading_ones b else 0)"

definition char_units :: "u8 \<Rightarrow> nat" where
  "char_units b = (if leading_ones b = 4 then 2 else 1)"

function str_ok :: "u8 list \<Rightarrow> bool" where
  "str_ok s \<longleftrightarrow>
     (if s = [] then True
      else if 0 < char_width (hd s) \<and> char_width (hd s) \<le> length s
        \<and> list_all is_continuation (take (char_width (hd s) - 1) (tl s))
      then str_ok (drop (char_width (hd s)) s) else False)"
  by pat_completeness auto
termination by (relation "measure length") auto

declare str_ok.simps [simp del]

text \<open>The byte of a UTF-16 column, character by character.\<close>

function byte_of_column :: "u8 list \<Rightarrow> nat \<Rightarrow> nat" where
  "byte_of_column s column =
     (if s = [] \<or> char_width (hd s) = 0 \<or> column < char_units (hd s) then 0
      else min (char_width (hd s)) (length s)
        + byte_of_column (drop (char_width (hd s)) s) (column - char_units (hd s)))"
  by pat_completeness auto
termination by (relation "measure (\<lambda>(s, column). length s)") auto

declare byte_of_column.simps [simp del]

lemma str_ok_induct [consumes 1, case_names Nil Char]:
  assumes "str_ok s" "P []"
    "\<And>c s. c \<noteq> [] \<Longrightarrow> length c = char_width (hd c) \<Longrightarrow> list_all is_continuation (tl c) \<Longrightarrow>
       str_ok s \<Longrightarrow> P s \<Longrightarrow> P (c @ s)"
  shows "P s"
  using assms(1)
proof (induction s rule: str_ok.induct)
  case (1 s)
  show ?case
  proof (cases "s = []")
    case False
    let ?w = "char_width (hd s)"
    have ok: "0 < ?w" "?w \<le> length s" "list_all is_continuation (take (?w - 1) (tl s))"
      "str_ok (drop ?w s)"
      using 1(2) False by (auto simp: str_ok.simps [of s] split: if_splits)
    then have "P (drop ?w s)" using 1(1) False by simp
    moreover have "tl (take ?w s) = take (?w - 1) (tl s)"
      using ok(1) by (cases s; cases ?w) auto
    moreover have "hd (take ?w s) = hd s" "take ?w s \<noteq> []" using ok(1) False by (auto simp: hd_take)
    ultimately have "P (take ?w s @ drop ?w s)"
      using ok by (intro assms(3)) auto
    then show ?thesis by simp
  qed (use assms(2) in simp)
qed

end
