(* ===== verification/Sources_Lines.thy ===== *)
theory Sources_Lines
  imports Sources_Index
begin

text \<open>
  The line index holds the lines of the text and slices them by UTF-16 columns; the block scan builds the index of the
  byte scan.
\<close>

unbundle bit_operations_syntax

section \<open>Characters\<close>

lemma continuation_table:
  "list_all (\<lambda>i. is_continuation (of_nat i) \<longleftrightarrow> 128 \<le> i \<and> i < 192) [0..<256]"
  by code_simp

lemma is_continuation_iff: "is_continuation b \<longleftrightarrow> 0x80 \<le> b \<and> b < 0xC0"
proof -
  have "unat b \<in> set [0..<256]" using unsigned_less [of b] by simp
  with continuation_table have "is_continuation (of_nat (unat b)) \<longleftrightarrow> 128 \<le> unat b \<and> unat b < 192"
    unfolding list_all_iff by blast
  then show ?thesis by (simp add: word_le_nat_alt word_less_nat_alt)
qed

lemma byte_facts:
  shows "0 < char_width b \<Longrightarrow> \<not> is_continuation b"
    "0 < char_width b \<Longrightarrow> 0xF0 \<le> b \<longleftrightarrow> char_units b = 2"
    "0 < char_width b \<Longrightarrow> \<not> b < 0x80 \<Longrightarrow> char_width b = leading_ones b"
    "0 < char_width b \<Longrightarrow> char_units b \<le> char_width b"
    "is_continuation b \<Longrightarrow> \<not> 0xF0 \<le> b \<and> b \<noteq> 0x0A \<and> \<not> b < 0x80 \<and> char_width b = 0"
    "b < 0x80 \<Longrightarrow> char_width b = 1"
    "char_units b = 1 \<or> char_units b = 2"
  unfolding is_continuation_iff char_width_def char_units_def leading_ones_def word_le_nat_alt
    word_less_nat_alt
  by (auto split: if_splits)

definition one_char :: "u8 list \<Rightarrow> bool" where
  "one_char c \<longleftrightarrow> c \<noteq> [] \<and> length c = char_width (hd c) \<and> list_all is_continuation (tl c)"

lemma str_ok_Nil [simp]: "str_ok []"
  by (simp add: str_ok.simps)

lemma one_char_width:
  assumes "one_char c"
  shows "length c = char_width (hd c)" "0 < char_width (hd c)" "char_units (hd c) \<le> length c"
proof -
  show l: "length c = char_width (hd c)" using assms by (simp add: one_char_def)
  show w: "0 < char_width (hd c)" using assms by (cases c) (auto simp: one_char_def)
  show "char_units (hd c) \<le> length c" using byte_facts(4) [OF w] l by simp
qed

lemma str_ok_chars [consumes 1, case_names Nil Char]:
  assumes "str_ok s" "P []" "\<And>c s. one_char c \<Longrightarrow> str_ok s \<Longrightarrow> P s \<Longrightarrow> P (c @ s)"
  shows "P s"
  using assms by (induction rule: str_ok_induct) (auto simp: one_char_def)

lemma one_char_utf16: "one_char c \<Longrightarrow> utf16_len c = char_units (hd c)"
proof (cases c)
  case (Cons b bs)
  assume c: "one_char c"
  with Cons have w: "0 < char_width b" and bs: "list_all is_continuation bs"
    by (auto simp: one_char_def)
  have "utf16_len bs = 0"
    using bs byte_facts(5) by (auto simp: utf16_len_def list_all_iff filter_empty_conv)
  moreover have "utf16_len [b] = char_units b"
    using byte_facts(1,2,7) [of b] w by (auto simp: utf16_len_def)
  ultimately show ?thesis using Cons utf16_len_append [of "[b]" bs] by simp
qed (simp add: one_char_def)

lemma one_char_ascii: "one_char c \<Longrightarrow> hd c < 0x80 \<Longrightarrow> c = [hd c]"
  using byte_facts(6) [of "hd c"] by (cases c) (auto simp: one_char_def)

lemma byte_of_column_char:
  "one_char c \<Longrightarrow> byte_of_column (c @ s) i =
     (if i < char_units (hd c) then 0 else length c + byte_of_column s (i - char_units (hd c)))"
  by (subst byte_of_column.simps) (auto simp: one_char_def)

lemma byte_of_column_le: "byte_of_column s i \<le> length s"
proof (induction s i rule: byte_of_column.induct)
  case (1 s i)
  then show ?case by (subst byte_of_column.simps) auto
qed

lemma byte_of_column_end: "str_ok s \<Longrightarrow> length s \<le> i \<Longrightarrow> byte_of_column s i = length s"
proof (induction arbitrary: i rule: str_ok_chars)
  case Nil
  then show ?case by (simp add: byte_of_column.simps)
next
  case (Char c s)
  with one_char_width [of c] show ?case by (simp add: byte_of_column_char)
qed

lemma byte_of_column_mono: "i \<le> j \<Longrightarrow> byte_of_column s i \<le> byte_of_column s j"
proof (induction s i arbitrary: j rule: byte_of_column.induct)
  case (1 s i)
  then show ?case
    by (subst byte_of_column.simps [of s i], subst byte_of_column.simps [of s j]) auto
qed

lemma byte_of_column_0: "byte_of_column s 0 = 0"
  using byte_facts(7) [of "hd s"] by (subst byte_of_column.simps) auto

text \<open>The characters of a line that are not ASCII.\<close>

function wides :: "u8 list \<Rightarrow> nat \<Rightarrow> nat \<Rightarrow> wide_char list" where
  "wides s u b =
     (if s = [] \<or> char_width (hd s) = 0 then []
      else (if hd s < 0x80 then [] else [\<lparr>utf16_start = u, byte_start = b\<rparr>])
        @ wides (drop (char_width (hd s)) s) (u + char_units (hd s)) (b + char_width (hd s)))"
  by pat_completeness auto
termination by (relation "measure (\<lambda>(s, u, b). length s)") auto

declare wides.simps [simp del]

lemma wides_Nil [simp]: "wides [] u b = []"
  by (simp add: wides.simps)

lemma wides_char:
  "one_char c \<Longrightarrow> wides (c @ s) u b =
     (if hd c < 0x80 then [] else [\<lparr>utf16_start = u, byte_start = b\<rparr>])
     @ wides s (u + char_units (hd c)) (b + length c)"
  using one_char_width [of c] by (subst wides.simps) (auto simp: one_char_def)

lemma wides_append:
  "str_ok p \<Longrightarrow> wides (p @ q) u b = wides p u b @ wides q (u + utf16_len p) (b + length p)"
proof (induction arbitrary: u b rule: str_ok_chars)
  case (Char c s)
  then show ?case by (simp add: wides_char one_char_utf16 add.assoc)
qed simp

lemma wides_start: "ch \<in> set (wides s u b) \<Longrightarrow> u \<le> utf16_start ch"
proof (induction s u b rule: wides.induct)
  case (1 s u b)
  show ?case
    using 1 by (subst (asm) (2) wides.simps) (auto split: if_splits intro: add_leD1)
qed

section \<open>Slicing a line\<close>

lemma leading_ones_char: "one_char c \<Longrightarrow> \<not> hd c < 0x80 \<Longrightarrow> leading_ones (hd c) = length c"
  using byte_facts(3) [of "hd c"] one_char_width [of c] by simp

definition wide_byte :: "u8 list \<Rightarrow> wide_char \<Rightarrow> nat \<Rightarrow> nat" where
  "wide_byte line ch i =
     (if i - utf16_start ch < char_units (line ! byte_start ch) then byte_start ch
      else min (i + (byte_start ch - utf16_start ch + leading_ones (line ! byte_start ch)
                - char_units (line ! byte_start ch))) (length line))"

lemma to_byte_suffix:
  assumes "str_ok s" "line = p @ s" "u \<le> length p" "u \<le> i"
  shows "(let Q = takeWhile (\<lambda>ch. utf16_start ch \<le> i) (wides s u (length p)) in
     length p + byte_of_column s (i - u) =
       (if Q = [] then min (i - u + length p) (length line) else wide_byte line (last Q) i))"
  using assms
proof (induction arbitrary: p u rule: str_ok_chars)
  case Nil
  then show ?case by (simp add: byte_of_column.simps)
next
  case (Char c s)
  let ?u = "u + char_units (hd c)"
  have late: "takeWhile (\<lambda>ch. utf16_start ch \<le> i) (wides s ?u (length (p @ c))) = []" if "i < ?u"
    using that wides_start [of _ s ?u "length (p @ c)"]
    by (cases "wides s ?u (length (p @ c))") (auto, fastforce)
  have len: "char_units (hd c) \<le> length c"
    using one_char_width [OF Char(1)] by simp
  have at: "line ! length p = hd c"
    using Char(1,4) by (cases c) (auto simp: one_char_def)
  have IH: "?u \<le> i \<Longrightarrow> (let Q = takeWhile (\<lambda>ch. utf16_start ch \<le> i) (wides s ?u (length (p @ c))) in
      length (p @ c) + byte_of_column s (i - ?u) =
        (if Q = [] then min (i - ?u + length (p @ c)) (length line) else wide_byte line (last Q) i))"
    using Char.IH [of "p @ c" ?u] Char.prems len by simp
  show ?case
  proof (cases "hd c < 0x80")
    case True
    then have c: "length c = 1" "char_units (hd c) = 1"
      using one_char_width [OF Char(1)] byte_facts(6) [of "hd c"] byte_facts(7) [of "hd c"] by auto
    show ?thesis
    proof (cases "?u \<le> i")
      case True
      then show ?thesis
        using IH c \<open>hd c < 0x80\<close> Char.prems
        by (auto simp: wides_char Char(1) byte_of_column_char Let_def)
    next
      case False
      with Char.prems c have "i = u" by simp
      with late c \<open>hd c < 0x80\<close> Char.prems show ?thesis
        by (simp add: wides_char Char(1) byte_of_column_char)
    qed
  next
    case False
    then have w: "leading_ones (hd c) = length c" by (rule leading_ones_char [OF Char(1)])
    show ?thesis
    proof (cases "?u \<le> i")
      case True
      then show ?thesis
        using IH False at w len Char.prems
        by (auto simp: wides_char Char(1) byte_of_column_char Let_def wide_byte_def)
    next
      case late_i: False
      with late False at Char.prems show ?thesis
        by (auto simp: wides_char Char(1) byte_of_column_char wide_byte_def)
    qed
  qed
qed

lemma to_byte_correct:
  assumes "str_ok line"
  shows "to_byte line (wides line 0 0) i = byte_of_column line i"
proof (cases "i \<ge> length line")
  case True
  then show ?thesis using byte_of_column_end [OF assms] by (simp add: to_byte_def)
next
  case False
  let ?Q = "takeWhile (\<lambda>ch. utf16_start ch \<le> i) (wides line 0 0)"
  have "?Q \<noteq> [] \<Longrightarrow> wides line 0 0 ! (length ?Q - 1) = last ?Q"
    by (simp add: last_conv_nth takeWhile_nth)
  with to_byte_suffix [OF assms, of line "[]" 0 i] False show ?thesis
    by (auto simp: to_byte_def Let_def wide_byte_def char_units_def)
qed

section \<open>The block scan is the byte scan\<close>

lemma scan_split:
  assumes "l1 \<le> l2" "scan_scalar_to l1 i c = (j, d)"
  shows "scan_scalar_to l2 j d = scan_scalar_to l2 i c"
  using assms
proof (induction l1 i c rule: scan_scalar_to.induct)
  case (1 l1 i c)
  show ?case
  proof (cases "i < l1")
    case True
    with 1 show ?thesis
      by (subst scan_scalar_to.simps [of l2 i]) (auto simp: scan_scalar_to.simps [of l1 i] Let_def)
  next
    case False
    with 1 show ?thesis by (simp add: scan_scalar_to.simps [of l1 i])
  qed
qed

lemma scan_ascii_block:
  assumes "\<And>k. i \<le> k \<Longrightarrow> k < i + n \<Longrightarrow> index_text (fst c) ! k < 0x80"
  shows "scan_scalar_to (i + n) i c =
    (i + n, fold record_newline (filter (\<lambda>k. index_text (fst c) ! k = 0x0A) [i ..< i + n]) c)"
  using assms
proof (induction n arbitrary: i c)
  case 0
  then show ?case by (simp add: scan_scalar_to.simps)
next
  case (Suc n)
  have r: "[i ..< i + Suc n] = i # [Suc i ..< Suc i + n]" by (simp add: upt_rec)
  have b: "index_text (fst c) ! i < 0x80" using Suc.prems by simp
  let ?c = "if index_text (fst c) ! i = 0x0A then record_newline i c else c"
  have "scan_scalar_to (i + Suc n) i c = scan_scalar_to (Suc i + n) (Suc i) ?c"
    using b by (subst scan_scalar_to.simps) (simp add: Let_def)
  also have "\<dots> = (Suc i + n, fold record_newline
      (filter (\<lambda>k. index_text (fst c) ! k = 0x0A) [Suc i ..< Suc i + n]) ?c)"
    using Suc.IH [of "Suc i" ?c] Suc.prems by (simp add: record_newline_text)
  finally show ?case unfolding r by simp
qed

lemma scan_blocks_scan:
  assumes "scan_blocks i c = (j, d)"
  shows "scan_scalar_to (length (index_text (fst c))) j d
      = scan_scalar_to (length (index_text (fst c))) i c \<and> index_text (fst d) = index_text (fst c)"
  using assms
proof (induction i c arbitrary: j d rule: scan_blocks.induct)
  case (1 i c)
  let ?s = "index_text (fst c)"
  show ?case
  proof (cases "i + chunk_size \<le> length ?s")
    case False
    with 1(3) show ?thesis by (simp add: scan_blocks.simps [of i c])
  next
    case block: True
    show ?thesis
    proof (cases "list_all (\<lambda>b. b < 0x80) (slice_bytes ?s i (i + chunk_size))")
      case True
      let ?c = "fold record_newline (block_newlines ?s i) c"
      have "?s ! k < 0x80" if "i \<le> k" "k < i + chunk_size" for k
        using True block that
        by (auto simp: slice_bytes_def list_all_length dest!: spec [of _ "k - i"])
      then have "scan_scalar_to (i + chunk_size) i c = (i + chunk_size, ?c)"
        by (simp add: scan_ascii_block block_newlines_def)
      moreover have "scan_blocks (i + chunk_size) ?c = (j, d)"
        using 1(3) block True by (simp add: scan_blocks.simps [of i c])
      ultimately show ?thesis
        using 1(1) [OF block True, of j d] scan_split [OF block, of i c] by (simp add: fold_newline_text)
    next
      case False
      obtain j1 c1 where s: "scan_scalar_to (i + chunk_size) i c = (j1, c1)"
        by (meson surj_pair)
      moreover have "scan_blocks j1 c1 = (j, d)"
        using 1(3) block False s by (simp add: scan_blocks.simps [of i c])
      moreover have "index_text (fst c1) = ?s"
        using scan_scalar_to_text [of "i + chunk_size" i c] s by simp
      ultimately show ?thesis
        using 1(2) [OF block False s [symmetric] refl, of j d] scan_split [OF block s] by simp
    qed
  qed
qed

lemma scan_sse2_generic: "scan_sse2 index = scan_generic index"
  using scan_blocks_scan [of 0 "(index, scan_state_default)"]
  by (auto simp: scan_sse2_def scan_generic_def split: prod.splits)

section \<open>The lines of the index\<close>

lemma split_into_lines_Nil [simp]: "split_into_lines [] = []"
  by (simp add: split_into_lines.simps)

lemma split_into_lines_newline:
  "0x0A \<notin> set p \<Longrightarrow> split_into_lines (p @ 0x0A # s) = (p @ [0x0A]) # split_into_lines s"
  by (subst split_into_lines.simps) (simp add: position_append)

lemma split_into_lines_last: "0x0A \<notin> set p \<Longrightarrow> p \<noteq> [] \<Longrightarrow> split_into_lines p = [p]"
  by (subst split_into_lines.simps) (simp add: position_absent)

fun line_offsets :: "nat \<Rightarrow> u8 list list \<Rightarrow> nat list" where
  "line_offsets b [] = []"
| "line_offsets b (x # xs) = b # line_offsets (b + length x) xs"

definition line_wides :: "u8 list \<Rightarrow> wide_char list option" where
  "line_wides x = (if wides x 0 0 = [] then None else Some (wides x 0 0))"

definition entries :: "line_index \<Rightarrow> wide_char list option list" where
  "entries index = (if line_wide_chars index = [] then replicate (length (line_starts index)) None
     else line_wide_chars index)"

definition index_wf :: "line_index \<Rightarrow> bool" where
  "index_wf index \<longleftrightarrow>
     (line_wide_chars index = [] \<or> length (line_wide_chars index) = length (line_starts index))"

lemma entries_length: "index_wf index \<Longrightarrow> length (entries index) = length (line_starts index)"
  by (auto simp: index_wf_def entries_def)

lemma finish_line_entries:
  assumes "finish_line (index, st) = (index', st')" "index_wf index"
    "line_starts index = S @ [l]" "entries index = E @ [None]"
  shows "index_wf index'" "line_starts index' = S @ [l]"
    "entries index' = E @ [if scan_chars st = [] then None else Some (scan_chars st)]"
    "scan_chars st' = []" "extra_bytes st' = 0" "index_text index' = index_text index"
proof -
  have l: "length E = length S" using entries_length [OF assms(2)] assms(3,4) by simp
  then have "(E @ [None])[length S := x] = E @ [x]" for x by (simp add: list_update_append)
  with l show "index_wf index'" "line_starts index' = S @ [l]"
    "entries index' = E @ [if scan_chars st = [] then None else Some (scan_chars st)]"
    "scan_chars st' = []" "extra_bytes st' = 0" "index_text index' = index_text index"
    using assms by (auto simp: finish_line_def index_wf_def entries_def Let_def split: if_splits)
qed

lemma str_ok_one_char: "one_char c \<Longrightarrow> str_ok s \<Longrightarrow> str_ok (c @ s)"
proof -
  assume c: "one_char c" and s: "str_ok s"
  have "drop (char_width (hd c)) (c @ s) = s" using one_char_width [OF c] by simp
  moreover have "take (char_width (hd c) - 1) (tl (c @ s)) = tl c"
    using c one_char_width [OF c] by (cases c) (auto simp: one_char_def)
  moreover have "hd (c @ s) = hd c" using c by (simp add: one_char_def)
  ultimately show ?thesis
    using c s one_char_width [OF c] by (subst str_ok.simps) (simp add: one_char_def)
qed

lemma str_ok_append: "str_ok p \<Longrightarrow> str_ok q \<Longrightarrow> str_ok (p @ q)"
  by (induction rule: str_ok_chars) (auto intro: str_ok_one_char)

lemma utf16_len_le: "str_ok s \<Longrightarrow> utf16_len s \<le> length s"
proof (induction rule: str_ok_chars)
  case (Char c s)
  then show ?case using one_char_width [of c] by (simp add: one_char_utf16)
qed simp

definition scanned :: "u8 list \<Rightarrow> nat list \<Rightarrow> wide_char list option list \<Rightarrow> nat \<Rightarrow> u8 list \<Rightarrow>
    line_index \<times> scan_state \<Rightarrow> bool" where
  "scanned T S E b p c \<longleftrightarrow> index_text (fst c) = T \<and> index_wf (fst c)
     \<and> line_starts (fst c) = S @ [b] \<and> entries (fst c) = E @ [None]
     \<and> line_start (snd c) = b \<and> scan_chars (snd c) = wides p 0 0
     \<and> extra_bytes (snd c) + utf16_len p = length p"

lemma wides_ascii_char: "one_char c \<Longrightarrow> hd c < 0x80 \<Longrightarrow> wides c u b = []"
  using wides_char [of c "[]"] by simp

lemma scanned_ascii:
  assumes "scanned T S E b p d" "str_ok p" "one_char c" "hd c < 0x80"
  shows "scanned T S E b (p @ c) d"
proof -
  have "length c = 1" "utf16_len c = 1"
    using assms(3,4) one_char_width [of c] byte_facts(6) [of "hd c"] byte_facts(7) [of "hd c"]
    by (auto simp: one_char_utf16)
  with assms show ?thesis by (auto simp: scanned_def wides_append wides_ascii_char)
qed

lemma scanned_wide:
  assumes d: "scanned T S E b p d" and p: "str_ok p" and c: "one_char c" "\<not> hd c < 0x80"
  shows "scanned T S E b (p @ c) (fst d, scan_wide (hd c) (b + length p) (snd d))"
proof -
  have "wides c u k = [\<lparr>utf16_start = u, byte_start = k\<rparr>]" for u k
    using wides_char [OF c(1), of "[]"] c(2) by simp
  moreover have "leading_ones (hd c) = length c" by (rule leading_ones_char [OF c])
  moreover have "char_units (hd c) \<le> length c" by (rule one_char_width [OF c(1)])
  ultimately show ?thesis
    using d p utf16_len_le [OF p]
    by (auto simp: scanned_def scan_wide_def wides_append one_char_utf16 c(1) Let_def
        char_units_def)
qed

lemma push_line:
  assumes "index_wf i"
  shows "index_wf (i\<lparr>line_starts := line_starts i @ [n],
      line_wide_chars := (if line_wide_chars i = [] then [] else line_wide_chars i @ [None])\<rparr>)"
    "entries (i\<lparr>line_starts := line_starts i @ [n],
      line_wide_chars := (if line_wide_chars i = [] then [] else line_wide_chars i @ [None])\<rparr>)
     = entries i @ [None]"
  using assms by (auto simp: index_wf_def entries_def replicate_append_same)

lemma scanned_newline:
  assumes d: "scanned T S E b p d" and p: "str_ok p"
    and len: "b + length p + 1 < length T"
  shows "scanned T (S @ [b]) (E @ [line_wides (p @ [0x0A])]) (b + length p + 1) []
           (record_newline (b + length p) d)"
proof -
  obtain i st where d': "d = (i, st)" by force
  obtain i' st' where f: "finish_line (i, st) = (i', st')" by force
  have "wides (p @ [0x0A]) 0 0 = wides p 0 0"
    using p by (simp add: wides_append wides.simps [of "[0x0A]"] char_width_def)
  with d d' finish_line_entries [OF f, of S b E] f len push_line [of i' "b + length p + 1"]
  show ?thesis
    by (auto simp: scanned_def record_newline_def line_wides_def Let_def)
qed

lemma scanned_finish:
  assumes d: "scanned T S E b p d"
  shows "index_wf (fst (finish_line d))" "line_starts (fst (finish_line d)) = S @ [b]"
    "entries (fst (finish_line d)) = E @ [line_wides p]"
    "index_text (fst (finish_line d)) = T" "scan_chars (snd (finish_line d)) = []"
proof -
  obtain i st where d': "d = (i, st)" by force
  obtain i' st' where f: "finish_line (i, st) = (i', st')" by force
  from finish_line_entries [OF f, of S b E] f d d'
  show "index_wf (fst (finish_line d))" "line_starts (fst (finish_line d)) = S @ [b]"
    "entries (fst (finish_line d)) = E @ [line_wides p]"
    "index_text (fst (finish_line d)) = T" "scan_chars (snd (finish_line d)) = []"
    by (auto simp: scanned_def line_wides_def)
qed

lemma finish_newline_at_end:
  assumes "length (index_text (fst d)) \<le> k + 1" "scan_chars (snd (finish_line d)) = []"
  shows "fst (finish_line (record_newline k d)) = fst (finish_line d)"
proof -
  obtain i st where f: "finish_line d = (i, st)" by force
  then have "index_text i = index_text (fst d)" using finish_line_text [of d] by simp
  with f assms have "record_newline k d = (i, st\<lparr>line_start := k + 1\<rparr>)"
    by (simp add: record_newline_def)
  with f assms show ?thesis by (simp add: finish_line_def)
qed

lemma one_char_newline: "one_char c \<Longrightarrow> hd c = 0x0A \<Longrightarrow> c = [0x0A]"
  using one_char_ascii [of c] by simp

lemma one_char_no_newline: "one_char c \<Longrightarrow> hd c \<noteq> 0x0A \<Longrightarrow> 0x0A \<notin> set c"
  using byte_facts(5) by (cases c) (auto simp: one_char_def list_all_iff)

definition lines_found ::
    "u8 list \<Rightarrow> nat list \<Rightarrow> wide_char list option list \<Rightarrow> nat \<Rightarrow> u8 list \<Rightarrow> line_index \<Rightarrow> bool" where
  "lines_found T S E b q i \<longleftrightarrow> index_wf i \<and> index_text i = T
     \<and> line_starts i = S @ line_offsets b (split_into_lines q)
     \<and> entries i = E @ map line_wides (split_into_lines q)"

lemma scan_lines:
  assumes "str_ok s" "scanned T S E b p d" "str_ok p" "0x0A \<notin> set p" "T = pre @ p @ s"
    "length pre = b" "p @ s \<noteq> []"
  shows "lines_found T S E b (p @ s)
    (fst (finish_line (snd (scan_scalar_to (length T) (b + length p) d))))"
  using assms
proof (induction arbitrary: S E b p d pre rule: str_ok_chars)
  case Nil
  then show ?case
    using scanned_finish [of T S E b p d]
    by (simp add: scan_scalar_to.simps split_into_lines_last lines_found_def)
next
  case (Char c s)
  let ?k = "b + length p"
  have T: "index_text (fst d) = T" using Char.prems by (simp add: scanned_def)
  have at: "T ! ?k = hd c" "?k < length T"
    using Char.prems Char.hyps(1) by (cases c; auto simp: one_char_def nth_append)+
  show ?case
  proof (cases "hd c = 0x0A")
    case True
    then have c: "c = [0x0A]" by (rule one_char_newline [OF Char.hyps(1)])
    let ?d = "record_newline ?k d"
    have step: "scan_scalar_to (length T) ?k d = scan_scalar_to (length T) (?k + 1) ?d"
      using at T True by (subst scan_scalar_to.simps) simp
    have lines: "split_into_lines (p @ c @ s) = (p @ [0x0A]) # split_into_lines s"
      using Char.prems c by (simp add: split_into_lines_newline)
    show ?thesis
    proof (cases "s = []")
      case False
      then have "?k + 1 < length T" using Char.prems c by auto
      then have sc: "scanned T (S @ [b]) (E @ [line_wides (p @ [0x0A])]) (?k + 1) [] ?d"
        by (rule scanned_newline [OF Char.prems(1,2)])
      have "lines_found T (S @ [b]) (E @ [line_wides (p @ [0x0A])]) (?k + 1) ([] @ s)
          (fst (finish_line (snd (scan_scalar_to (length T) (?k + 1 + length ([] :: u8 list)) ?d))))"
        by (rule Char.IH [where pre = "pre @ p @ [0x0A]", OF sc])
          (use Char.prems c False in \<open>auto\<close>)
      then show ?thesis unfolding step lines_found_def lines by simp
    next
      case True
      have "wides (p @ [0x0A]) 0 0 = wides p 0 0"
        using Char.prems by (simp add: wides_append wides.simps [of "[0x0A]"] char_width_def)
      then have "line_wides (p @ [0x0A]) = line_wides p" by (simp add: line_wides_def)
      moreover have e: "length T = ?k + 1" using True Char.prems c by simp
      then have "fst (finish_line ?d) = fst (finish_line d)"
        using scanned_finish [OF Char.prems(1)] T by (intro finish_newline_at_end) auto
      moreover have "scan_scalar_to (length T) (?k + 1) ?d = (?k + 1, ?d)"
        using e by (subst scan_scalar_to.simps) simp
      ultimately show ?thesis
        using True scanned_finish [OF Char.prems(1)] unfolding step lines_found_def lines by simp
    qed
  next
    case False
    have no: "0x0A \<notin> set (p @ c)"
      using one_char_no_newline [OF Char.hyps(1) False] Char.prems by simp
    have pc: "str_ok (p @ c)"
      using str_ok_append [OF Char.prems(2)] str_ok_one_char [OF Char.hyps(1), of "[]"]
      by simp
    show ?thesis
    proof (cases "hd c < 0x80")
      case True
      have "length c = 1"
        using True one_char_width [OF Char.hyps(1)] byte_facts(6) [of "hd c"] by simp
      then have step: "scan_scalar_to (length T) ?k d = scan_scalar_to (length T) (b + length (p @ c)) d"
        using at T True False by (subst scan_scalar_to.simps) (simp add: Let_def)
      have "lines_found T S E b ((p @ c) @ s)
          (fst (finish_line (snd (scan_scalar_to (length T) (b + length (p @ c)) d))))"
        by (rule Char.IH [OF scanned_ascii [OF Char.prems(1,2) Char.hyps(1) True] pc no])
          (use Char.prems in auto)
      then show ?thesis unfolding step by simp
    next
      case wide: False
      let ?d = "(fst d, scan_wide (hd c) ?k (snd d))"
      have step: "scan_scalar_to (length T) ?k d = scan_scalar_to (length T) (b + length (p @ c)) ?d"
        using at T wide False leading_ones_char [OF Char.hyps(1) wide]
        by (subst scan_scalar_to.simps) (simp add: Let_def add.assoc)
      have "lines_found T S E b ((p @ c) @ s)
          (fst (finish_line (snd (scan_scalar_to (length T) (b + length (p @ c)) ?d))))"
        by (rule Char.IH [OF scanned_wide [OF Char.prems(1,2) Char.hyps(1) wide] pc no])
          (use Char.prems in auto)
      then show ?thesis unfolding step by simp
    qed
  qed
qed

lemma scan_generic_lines:
  assumes "str_ok s" "s \<noteq> []"
    and index: "index = \<lparr>index_text = s, line_starts = [0], line_wide_chars = []\<rparr>"
  shows "lines_found s [] [] 0 s (scan_generic index)"
proof -
  have "scanned s [] [] 0 [] (index, scan_state_default)"
    by (simp add: scanned_def index index_wf_def entries_def scan_state_default_def)
  from scan_lines [where pre = "[]", OF assms(1) this] assms show ?thesis
    by (simp add: scan_generic_def index case_prod_beta)
qed

text \<open>The platform routine is the byte scan or the block scan.\<close>

definition scan_routine :: "(line_index \<Rightarrow> line_index) \<Rightarrow> bool" where
  "scan_routine scan \<longleftrightarrow> scan = scan_generic \<or> scan = scan_sse2"

lemma scan_routine_eq: "scan_routine scan \<Longrightarrow> scan index = scan_generic index"
  by (auto simp: scan_routine_def scan_sse2_generic)

lemma lines_induct [case_names Nil Last Line]:
  assumes "P []" "\<And>p. p \<noteq> [] \<Longrightarrow> 0x0A \<notin> set p \<Longrightarrow> P p"
    "\<And>p s. 0x0A \<notin> set p \<Longrightarrow> P s \<Longrightarrow> P (p @ 0x0A # s)"
  shows "P (s :: u8 list)"
proof (induction s rule: length_induct)
  case (1 s)
  show ?case
  proof (cases "0x0A \<in> set s")
    case True
    then obtain p t where "s = p @ 0x0A # t" "0x0A \<notin> set p" by (blast dest: split_list_first)
    with 1 assms(3) show ?thesis by auto
  next
    case False
    with assms(1,2) show ?thesis by (cases "s = []") auto
  qed
qed

lemma memchr_iter_append:
  "memchr_iter b (xs @ ys) = memchr_iter b xs @ map ((+) (length xs)) (memchr_iter b ys)"
proof -
  have "[0 ..< length xs + length ys] = [0 ..< length xs] @ map ((+) (length xs)) [0 ..< length ys]"
    by (rule nth_equalityI) (auto simp: nth_append)
  then show ?thesis
    by (auto simp: memchr_iter_def filter_map comp_def nth_append intro!: filter_cong)
qed

lemma memchr_iter_absent: "b \<notin> set p \<Longrightarrow> memchr_iter b p = []"
  by (auto simp: memchr_iter_def filter_empty_conv)

lemma memchr_iter_less: "i \<in> set (memchr_iter b s) \<Longrightarrow> i < length s"
  by (simp add: memchr_iter_def)

lemma newline_offsets:
  "s \<noteq> [] \<Longrightarrow> line_offsets b (split_into_lines s) =
     b # filter (\<lambda>i. i < b + length s) (map (\<lambda>i. b + Suc i) (memchr_iter 0x0A s))"
proof (induction s arbitrary: b rule: lines_induct)
  case (Last p)
  then show ?case by (simp add: split_into_lines_last memchr_iter_absent)
next
  case (Line p s)
  have "memchr_iter 0x0A [0x0A :: u8] = [0]" by (simp add: memchr_iter_def)
  then have m: "memchr_iter 0x0A (p @ 0x0A # s) = length p # map (\<lambda>i. length p + Suc i) (memchr_iter 0x0A s)"
    using memchr_iter_append [where b = "0x0A" and xs = p and ys = "0x0A # s"]
      memchr_iter_append [where b = "0x0A" and xs = "[0x0A]" and ys = s] Line(1)
    by (simp add: memchr_iter_absent comp_def)
  show ?case
  proof (cases "s = []")
    case True
    then show ?thesis
      using Line(1) m by (simp add: split_into_lines_newline memchr_iter_def)
  next
    case False
    then show ?thesis
      using Line(2) [of "b + length p + 1"] Line(1) m
      by (simp add: split_into_lines_newline filter_map comp_def add.assoc)
  qed
qed simp

lemma wides_of_ascii: "str_is_ascii s \<Longrightarrow> wides s u b = []"
proof (induction s arbitrary: u b)
  case (Cons x s)
  then show ?case
    using byte_facts(6) [of x]
    by (subst wides.simps) (simp add: str_is_ascii_def is_ascii_def)
qed simp

lemma str_ok_ascii: "str_is_ascii s \<Longrightarrow> str_ok s"
proof (induction s)
  case (Cons x s)
  then have "one_char [x]" using byte_facts(6) [of x] by (simp add: one_char_def str_is_ascii_def is_ascii_def)
  from str_ok_one_char [OF this] Cons show ?case by (simp add: str_is_ascii_def)
qed simp

lemma index_found:
  assumes s: "str_ok s" "s \<noteq> []" and scan: "scan_routine scan" and a: "known \<Longrightarrow> str_is_ascii s"
  shows "lines_found s [] [] 0 s (index_with_known_ascii scan s known)"
proof (cases known)
  case False
  with scan_generic_lines [OF s refl] scan s show ?thesis
    by (simp add: index_with_known_ascii_def scan_routine_eq)
next
  case True
  let ?i = "index_with_known_ascii scan s known"
  have "set x \<subseteq> set s" if "x \<in> set (split_into_lines s)" for x
    using that by (induction s rule: lines_induct)
      (auto simp: split_into_lines_newline split_into_lines_last)
  with a True have "map line_wides (split_into_lines s) = replicate (length (split_into_lines s)) None"
    by (intro replicate_eqI)
      (fastforce simp: line_wides_def str_is_ascii_def list_all_iff intro!: wides_of_ascii)+
  moreover have "line_starts ?i = line_offsets 0 (split_into_lines s)"
    using True s newline_offsets [OF s(2), of 0] by (simp add: index_with_known_ascii_def comp_def)
  moreover have "length (line_offsets b xs) = length xs" for b xs
    by (induction xs arbitrary: b) auto
  ultimately show ?thesis
    using True by (simp add: lines_found_def index_wf_def entries_def index_with_known_ascii_def Let_def)
qed

lemma line_offsets_length [simp]: "length (line_offsets b xs) = length xs"
  by (induction xs arbitrary: b) auto

lemma concat_lines: "concat (split_into_lines s) = s"
  by (induction s rule: lines_induct) (simp_all add: split_into_lines_newline split_into_lines_last)

lemma line_offsets_nth: "k < length xs \<Longrightarrow> line_offsets b xs ! k = b + length (concat (take k xs))"
proof (induction xs arbitrary: b k)
  case (Cons x xs)
  then show ?case by (cases k) auto
qed simp

lemma index_found_get:
  assumes "lines_found s [] [] 0 s i" "k < length (split_into_lines s)"
  shows "index_get i k =
    Some \<lparr>line_text = split_into_lines s ! k, line_wide = line_wides (split_into_lines s ! k)\<rparr>"
proof -
  let ?xs = "split_into_lines s"
  have e: "line_starts i = line_offsets 0 ?xs" "index_text i = s" "entries i = map line_wides ?xs"
    using assms(1) by (simp_all add: lines_found_def)
  have start: "line_starts i ! j = length (concat (take j ?xs))" if "j < length ?xs" for j
    using that e by (simp add: line_offsets_nth)
  have "concat (take (Suc k) ?xs) = concat (take k ?xs) @ ?xs ! k"
    using assms(2) by (simp add: take_Suc_conv_app_nth)
  moreover have "concat (take (Suc k) ?xs) @ concat (drop (Suc k) ?xs) = s"
    by (simp add: concat_lines flip: concat_append)
  ultimately have split: "s = concat (take k ?xs) @ ?xs ! k @ concat (drop (Suc k) ?xs)" by simp
  have stop: "(if k + 1 < line_count i then line_starts i ! (k + 1) else length s)
      = length (concat (take k ?xs)) + length (?xs ! k)"
  proof (cases "k + 1 < length ?xs")
    case True
    then show ?thesis
      using start [of "k + 1"] e assms(2) by (simp add: line_count_def take_Suc_conv_app_nth)
  next
    case False
    then have "drop (Suc k) ?xs = []" by simp
    with split have "length s = length (concat (take k ?xs)) + length (?xs ! k)"
      by (metis append_Nil2 concat.simps(1) length_append)
    with False e show ?thesis by (simp add: line_count_def)
  qed
  have "slice_bytes s (length (concat (take k ?xs))) (length (concat (take k ?xs)) + length (?xs ! k))
      = ?xs ! k"
    by (subst split) (simp add: slice_bytes_def)
  moreover have "(if line_wide_chars i = [] then None else line_wide_chars i ! k) = entries i ! k"
    using assms(2) e(1) unfolding entries_def by simp
  ultimately have "index_get_unchecked i k =
      \<lparr>line_text = ?xs ! k, line_wide = line_wides (?xs ! k)\<rparr>"
    using assms(2) unfolding index_get_unchecked_def Let_def e(2) stop start [OF assms(2)]
    by (simp add: e(3))
  with assms(2) e(1) show ?thesis by (simp add: index_get_def line_count_def)
qed

text \<open>The slice of a line by UTF-16 columns.\<close>

definition column_slice :: "u8 list \<Rightarrow> nat \<Rightarrow> nat option \<Rightarrow> u8 list" where
  "column_slice line i j = slice_bytes line (byte_of_column line i)
     (case j of None \<Rightarrow> length line | Some j \<Rightarrow> byte_of_column line j)"

lemma byte_of_column_ascii: "str_is_ascii s \<Longrightarrow> byte_of_column s i = min i (length s)"
proof (induction s arbitrary: i)
  case (Cons x s)
  then have "one_char [x]" "char_units x = 1"
    using byte_facts(6) [of x] byte_facts(4) [of x] byte_facts(7) [of x]
    by (auto simp: one_char_def str_is_ascii_def is_ascii_def)
  from byte_of_column_char [OF this(1), of s i] this(2) Cons show ?case
    by (cases i) (auto simp: str_is_ascii_def)
qed (simp add: byte_of_column.simps)

lemma wides_empty_ascii: "str_ok s \<Longrightarrow> wides s u b = [] \<Longrightarrow> str_is_ascii s"
proof (induction arbitrary: u b rule: str_ok_chars)
  case (Char c s)
  then have "hd c < 0x80" "wides s (u + char_units (hd c)) (b + length c) = []"
    by (auto simp: wides_char split: if_splits)
  then have "str_is_ascii s" "str_is_ascii [hd c]"
    using Char by (auto simp: str_is_ascii_def is_ascii_def)
  then have "str_is_ascii ([hd c] @ s)" by (simp add: str_is_ascii_def)
  with one_char_ascii [OF Char(1) \<open>hd c < 0x80\<close>] show ?case by metis
qed (simp add: str_is_ascii_def)

lemma substring_correct:
  assumes "str_ok line"
  shows "line_substring \<lparr>line_text = line, line_wide = line_wides line\<rparr> i j = column_slice line i j"
proof (cases "wides line 0 0 = []")
  case True
  from byte_of_column_ascii [OF wides_empty_ascii [OF assms True]] True show ?thesis
    by (auto simp: line_substring_def column_slice_def line_wides_def slice_bytes_def split: option.splits)
next
  case False
  have "byte_of_column line j \<le> byte_of_column line i" if "j \<le> i" for i j
    using that by (rule byte_of_column_mono)
  with False to_byte_correct [OF assms] show ?thesis
    by (auto simp: line_substring_def column_slice_def line_wides_def slice_bytes_def split: option.splits)
qed

lemma str_ok_split:
  assumes "str_ok t" "t = p @ q" "q = [] \<or> \<not> is_continuation (hd q)"
  shows "str_ok p \<and> str_ok q"
  using assms
proof (induction arbitrary: p rule: str_ok_chars)
  case (Char c s)
  show ?case
  proof (cases "p = []")
    case True
    with Char show ?thesis by (auto intro: str_ok_one_char)
  next
    case False
    have "length c \<le> length p"
    proof (rule ccontr)
      assume short: "\<not> length c \<le> length p"
      have "length (c @ s) = length (p @ q)" using Char.prems(1) by simp
      with short have "q \<noteq> []" by auto
      then have "hd q = (c @ s) ! length p"
        using Char.prems(1) by (simp add: hd_conv_nth nth_append)
      moreover have "(c @ s) ! length p \<in> set (tl c)"
        using short False by (cases c; cases p) (auto simp: nth_append)
      ultimately show False
        using Char.prems(2) Char.hyps(1) \<open>q \<noteq> []\<close> by (auto simp: one_char_def list_all_iff)
    qed
    with Char.prems(1) obtain p' where "p = c @ p'" "s = p' @ q"
      by (auto simp: append_eq_append_conv2)
    with Char show ?thesis by (auto intro: str_ok_one_char)
  qed
qed simp

lemma str_ok_line: "str_ok s \<Longrightarrow> x \<in> set (split_into_lines s) \<Longrightarrow> str_ok x"
proof (induction s rule: lines_induct)
  case (Line p s)
  have n: "\<not> is_continuation (0x0A :: u8)" by (simp add: is_continuation_iff)
  have p: "str_ok p" "str_ok (0x0A # s)" using str_ok_split [OF Line(3), of p "0x0A # s"] n by auto
  have nl: "one_char [0x0A]" by (simp add: one_char_def char_width_def)
  have "drop (char_width 0x0A) (0x0A # s) = s" by (simp add: char_width_def)
  with p(2) have "str_ok s" by (subst (asm) str_ok.simps) (auto split: if_splits)
  moreover have "str_ok (p @ [0x0A])"
    using str_ok_append [OF p(1), of "[0x0A]"] str_ok_one_char [OF nl, of "[]"] by simp
  ultimately show ?case using Line by (auto simp: split_into_lines_newline)
qed (auto simp: split_into_lines_last)

definition sample_text :: "u8 list" where
  "sample_text = bytes ''a'' @ [0xC3, 0xA9] @ bytes ''b'' @ [0xF0, 0x9F, 0x99, 0x88] @ bytes ''c''
     @ [0x0A] @ bytes ''plain ascii line'' @ [0x0A, 0x0A] @ bytes ''end'' @ [0xE2, 0x82, 0xAC]"

text \<open>
  C35. For every UTF-8 text the byte scan and the 16-byte block scan build the same index; the index holds the lines of
  the text and nothing beyond them, and slicing a line by UTF-16 columns cuts it at whole characters, as walking over its
  characters does.
\<close>

theorem line_index_correct:
  assumes "str_ok s" "scan_routine scan"
  shows "scan index = scan_generic index
    \<and> line_count (index_new scan s) = length (split_into_lines s)
    \<and> concat (split_into_lines s) = s
    \<and> (case index_get (index_new scan s) k of
         None \<Rightarrow> length (split_into_lines s) \<le> k
       | Some l \<Rightarrow> k < length (split_into_lines s) \<and> line_text l = split_into_lines s ! k
           \<and> line_substring l i j = column_slice (split_into_lines s ! k) i j)"
proof (cases "s = []")
  case True
  then show ?thesis
    using assms scan_routine_eq [OF assms(2)]
    by (simp add: index_new_def index_with_known_ascii_def index_get_def line_count_def scan_generic_def
        scan_scalar_to.simps finish_line_def scan_state_default_def)
next
  case False
  have f: "lines_found s [] [] 0 s (index_new scan s)"
    unfolding index_new_def using assms False by (intro index_found) auto
  then have count: "line_count (index_new scan s) = length (split_into_lines s)"
    by (simp add: lines_found_def line_count_def)
  show ?thesis
  proof (cases "k < length (split_into_lines s)")
    case True
    with index_found_get [OF f True] substring_correct [OF str_ok_line [OF assms(1)], of "split_into_lines s ! k"]
    show ?thesis using count scan_routine_eq [OF assms(2)] by (simp add: concat_lines)
  next
    case False
    then have "index_get (index_new scan s) k = None" using count by (simp add: index_get_def)
    with False show ?thesis using count scan_routine_eq [OF assms(2)] by (simp add: concat_lines)
  qed
qed

theorem line_index_correct_witness:
  "str_ok sample_text \<and> scan_routine scan_sse2
   \<and> line_count (index_new scan_sse2 sample_text) = 4
   \<and> (\<exists>l. index_get (index_new scan_sse2 sample_text) 0 = Some l
        \<and> line_substring l 2 (Some 5) = bytes ''b'' @ [0xF0, 0x9F, 0x99, 0x88])"
proof -
  have ok: "str_ok sample_text" "scan_routine scan_sse2"
    by (code_simp, simp add: scan_routine_def)
  have "length (split_into_lines sample_text) = 4"
    "column_slice (split_into_lines sample_text ! 0) 2 (Some 5) = bytes ''b'' @ [0xF0, 0x9F, 0x99, 0x88]"
    by code_simp+
  with ok line_index_correct [where index = "index_new scan_sse2 []" and k = 0 and i = 2
      and j = "Some 5", OF ok] show ?thesis
    by (auto split: option.splits)
qed

end
