(* ===== verification/Sources_Stream.thy ===== *)
theory Sources_Stream
  imports Sources_Lines
begin

text \<open>
  Streaming the leaves of a source tree: \<open>helpers.rs\<close> (raw text, text with a source map), \<open>original_source.rs\<close> and
  \<open>get_map\<close>.  The callbacks \<open>on_chunk\<close>, \<open>on_source\<close> and \<open>on_name\<close> are the events a stream emits, in order; a consumer
  folds over them.
\<close>

datatype stream_event =
    ChunkEvent "text_span option" source_mapping
  | SourceEvent u32 "u8 list" "u8 list option"
  | NameEvent u32 "u8 list"

type_synonym stream = "stream_event list \<times> generated_info"

record map_options =
  opt_columns :: bool
  opt_final :: bool

record source_map =
  map_version :: nat
  map_file :: "u8 list option"
  map_sources :: "u8 list list"
  map_contents :: "u8 list list"
  map_names :: "u8 list list"
  map_mappings :: "u8 list"
  map_root :: "u8 list option"
  map_debug_id :: "u8 list option"
  map_ignore_list :: "u32 list option"

definition unmapped :: "u32 \<Rightarrow> u32 \<Rightarrow> source_mapping" where
  "unmapped line column = \<lparr>generated_line = line, generated_column = column, original = None\<rparr>"

definition at_original :: "u32 \<Rightarrow> u32 \<Rightarrow> original_location option \<Rightarrow> source_mapping" where
  "at_original line column orig =
     \<lparr>generated_line = line, generated_column = column, original = orig\<rparr>"

definition original_of_self :: "u32 \<Rightarrow> u32 \<Rightarrow> original_location" where
  "original_of_self line column =
     \<lparr>source_index = 0, original_line = line, original_column = column, name_index = None\<rparr>"

definition ends_with_newline :: "u8 list \<Rightarrow> bool" where
  "ends_with_newline s \<longleftrightarrow> s \<noteq> [] \<and> last s = 0x0A"

section \<open>Raw text\<close>

fun raw_lines :: "text_span \<Rightarrow> u32 \<Rightarrow> u8 list list \<Rightarrow> stream_event list" where
  "raw_lines source line [] = []"
| "raw_lines source line (l # ls) =
     ChunkEvent (Some (subspan source l)) (unmapped line 0) # raw_lines source (line + 1) ls"

definition stream_chunks_of_raw_source :: "text_span \<Rightarrow> map_options \<Rightarrow> stream" where
  "stream_chunks_of_raw_source source options =
     (if opt_final options then ([], get_generated_source_info source)
      else
        let lines = split_into_lines (span_text source);
            line = 1 + of_nat (length lines)
        in (raw_lines source 1 lines,
            if lines \<noteq> [] \<and> \<not> ends_with_newline (last lines)
            then \<lparr>info_line = line - 1, info_column = of_nat (length (last lines))\<rparr>
            else \<lparr>info_line = line, info_column = 0\<rparr>))"

section \<open>Original text\<close>

fun original_tokens ::
    "text_span \<Rightarrow> bool \<Rightarrow> u32 \<Rightarrow> u32 \<Rightarrow> u8 list list \<Rightarrow> stream" where
  "original_tokens source final line column [] =
     ([], \<lparr>info_line = line, info_column = column\<rparr>)"
| "original_tokens source final line column (token # tokens) =
     (let is_end_of_line = ends_with_newline token;
          events =
            (if is_end_of_line \<and> length token = 1
             then (if final then [] else [ChunkEvent (Some (subspan source token)) (unmapped line column)])
             else [ChunkEvent (if final then None else Some (subspan source token))
                     (at_original line column (Some (original_of_self line column)))]);
          (line, column) = (if is_end_of_line then (line + 1, 0)
                            else (line, column + of_nat (utf16_len_of source token)));
          (more, info) = original_tokens source final line column tokens
      in (events @ more, info))"

fun original_final_lines :: "nat \<Rightarrow> u32 \<Rightarrow> stream_event list" where
  "original_final_lines 0 line = []"
| "original_final_lines (Suc n) line =
     ChunkEvent None (at_original line 0 (Some (original_of_self line 0)))
       # original_final_lines n (line + 1)"

fun original_lines :: "text_span \<Rightarrow> u32 \<Rightarrow> u8 list list \<Rightarrow> stream_event list" where
  "original_lines source line [] = []"
| "original_lines source line (l # ls) =
     ChunkEvent (Some (subspan source l)) (at_original line 0 (Some (original_of_self line 0)))
       # original_lines source (line + 1) ls"

definition stream_original :: "u8 list \<Rightarrow> u8 list \<Rightarrow> map_options \<Rightarrow> stream" where
  "stream_original value name options =
     (let start = SourceEvent 0 name (Some value);
          source = text_span_new value
      in if opt_columns options then
           let (events, info) = original_tokens source (opt_final options) 1 0
                                  (split_into_potential_tokens value)
           in (start # events, info)
         else if opt_final options then
           let result = get_generated_source_info source;
               number = (if info_column result = 0 then unat (info_line result) - 1
                        else unat (info_line result))
           in (start # original_final_lines number 1, result)
         else
           let lines = split_into_lines value;
               line = 1 + of_nat (length lines)
           in (start # original_lines source 1 lines,
               if lines \<noteq> [] \<and> \<not> ends_with_newline (last lines)
               then \<lparr>info_line = line - 1,
                     info_column = of_nat (utf16_len_of source (last lines))\<rparr>
               else \<lparr>info_line = line, info_column = 0\<rparr>))"

section \<open>Text with a source map\<close>

definition split_once_byte :: "u8 \<Rightarrow> u8 list \<Rightarrow> (u8 list \<times> u8 list) option" where
  "split_once_byte b s = map_option (\<lambda>i. (take i s, drop (i + 1) s)) (position b s)"

definition is_ascii_alphanumeric :: "u8 \<Rightarrow> bool" where
  "is_ascii_alphanumeric b = (is_ascii_alphabetic b \<or> is_ascii_digit b)"

definition has_uri_scheme :: "u8 list \<Rightarrow> bool" where
  "has_uri_scheme source =
     (case split_once_byte 0x3A source of
        None \<Rightarrow> False
      | Some (scheme, _) \<Rightarrow>
          (case scheme of [] \<Rightarrow> False
           | first # chars \<Rightarrow> is_ascii_alphabetic first
               \<and> list_all (\<lambda>ch. is_ascii_alphanumeric ch \<or> ch \<in> {0x2B, 0x2D, 0x2E}) chars))"

definition is_absolute_source :: "u8 list \<Rightarrow> bool" where
  "is_absolute_source source = (starts_with source [0x2F] \<or> has_uri_scheme source)"

definition get_source :: "source_map \<Rightarrow> u8 list \<Rightarrow> u8 list" where
  "get_source smap source =
     (case map_root smap of
        None \<Rightarrow> source
      | Some root \<Rightarrow>
          if root = [] then source
          else if is_absolute_source source then source
          else if last root = 0x2F then root @ source
          else root @ [0x2F] @ source)"

definition list_get :: "'a list \<Rightarrow> nat \<Rightarrow> 'a option" where
  "list_get xs i = (if i < length xs then Some (xs ! i) else None)"

definition source_events :: "source_map \<Rightarrow> stream_event list" where
  "source_events smap =
     map (\<lambda>i. SourceEvent (of_nat i) (get_source smap (map_sources smap ! i)) (list_get (map_contents smap) i))
       [0 ..< length (map_sources smap)]"

definition name_events :: "source_map \<Rightarrow> stream_event list" where
  "name_events smap =
     map (\<lambda>i. NameEvent (of_nat i) (map_names smap ! i)) [0 ..< length (map_names smap)]"

fun final_mapping ::
    "generated_info \<Rightarrow> source_mapping \<Rightarrow> u32 \<Rightarrow> stream_event list \<times> u32" where
  "final_mapping result m active_line =
     (if generated_line m \<ge> info_line result
         \<and> (generated_column m \<ge> info_column result \<or> generated_line m > info_line result)
      then ([], active_line)
      else case original m of
             Some orig \<Rightarrow>
               ([ChunkEvent None (at_original (generated_line m) (generated_column m) (Some orig))],
                generated_line m)
           | None \<Rightarrow>
               (if active_line = generated_line m
                then [ChunkEvent None (unmapped (generated_line m) (generated_column m))] else [],
                active_line))"

fun final_mappings :: "generated_info \<Rightarrow> u32 \<Rightarrow> source_mapping list \<Rightarrow> stream_event list" where
  "final_mappings result active_line [] = []"
| "final_mappings result active_line (m # ms) =
     (let (events, active_line) = final_mapping result m active_line
      in events @ final_mappings result active_line ms)"

definition stream_chunks_of_source_map_final :: "text_span \<Rightarrow> source_map \<Rightarrow> stream" where
  "stream_chunks_of_source_map_final source smap =
     (let result = get_generated_source_info source in
      if info_line result = 1 \<and> info_column result = 0 then ([], result)
      else (source_events smap @ name_events smap
              @ final_mappings result 0 (decode_mappings (map_mappings smap)), result))"

fun lines_final_mappings :: "u32 \<Rightarrow> u32 \<Rightarrow> source_mapping list \<Rightarrow> stream_event list" where
  "lines_final_mappings final_line current [] = []"
| "lines_final_mappings final_line current (m # ms) =
     (case original m of
        Some orig \<Rightarrow>
          if current \<le> generated_line m \<and> generated_line m \<le> final_line
          then ChunkEvent None (at_original (generated_line m) 0 (Some (orig\<lparr>name_index := None\<rparr>)))
                 # lines_final_mappings final_line (generated_line m + 1) ms
          else lines_final_mappings final_line current ms
      | None \<Rightarrow> lines_final_mappings final_line current ms)"

definition stream_chunks_of_source_map_lines_final :: "text_span \<Rightarrow> source_map \<Rightarrow> stream" where
  "stream_chunks_of_source_map_lines_final source smap =
     (let result = get_generated_source_info source in
      if info_line result = 1 \<and> info_column result = 0 then ([], \<lparr>info_line = 1, info_column = 0\<rparr>)
      else
        let final_line = (if info_column result = 0 then info_line result - 1 else info_line result)
        in (source_events smap
              @ lines_final_mappings final_line 1 (decode_mappings (map_mappings smap)), result))"

text \<open>\<open>lines_full\<close>: whole lines, the first mapping of a line decides its original.  The loops end because the current line grows.\<close>

definition line_at :: "u8 list list \<Rightarrow> u32 \<Rightarrow> u8 list" where
  "line_at lines line = lines ! (unat line - 1)"

function unmapped_lines ::
    "text_span \<Rightarrow> u8 list list \<Rightarrow> u32 \<Rightarrow> u32 \<Rightarrow> stream_event list \<times> u32" where
  "unmapped_lines source lines stop current =
     (if stop > current then
        let events = (if unat current \<le> length lines
                      then [ChunkEvent (Some (subspan source (line_at lines current))) (unmapped current 0)]
                      else []);
            (more, current) = unmapped_lines source lines stop (current + 1)
        in (events @ more, current)
      else ([], current))"
  by pat_completeness auto

lemma word_gap_less: "current < stop \<Longrightarrow> unat stop - unat (current + 1) < unat stop - unat (current :: u32)"
  by unat_arith

termination unmapped_lines
  by (relation "measure (\<lambda>(source, lines, stop, current). unat stop - unat current)")
    (simp_all add: word_gap_less)

declare unmapped_lines.simps [simp del]

fun lines_full_mapping ::
    "text_span \<Rightarrow> u8 list list \<Rightarrow> source_mapping \<Rightarrow> u32 \<Rightarrow> stream_event list \<times> u32" where
  "lines_full_mapping source lines m current =
     (case original m of
        None \<Rightarrow> ([], current)
      | Some orig \<Rightarrow>
          if generated_line m < current \<or> unat (generated_line m) > length lines then ([], current)
          else
            let (events, current) = unmapped_lines source lines (generated_line m) current
            in (events @ [ChunkEvent (Some (subspan source (line_at lines current)))
                  (at_original (generated_line m) 0 (Some (orig\<lparr>name_index := None\<rparr>)))],
                current + 1))"

fun lines_full_mappings ::
    "text_span \<Rightarrow> u8 list list \<Rightarrow> u32 \<Rightarrow> source_mapping list \<Rightarrow> stream_event list \<times> u32" where
  "lines_full_mappings source lines current [] = ([], current)"
| "lines_full_mappings source lines current (m # ms) =
     (let (events, current) = lines_full_mapping source lines m current;
          (more, current) = lines_full_mappings source lines current ms
      in (events @ more, current))"

fun remaining_lines :: "text_span \<Rightarrow> u32 \<Rightarrow> u8 list list \<Rightarrow> stream_event list" where
  "remaining_lines source current [] = []"
| "remaining_lines source current (l # ls) =
     ChunkEvent (Some (subspan source l)) (unmapped current 0) # remaining_lines source (current + 1) ls"

definition final_position :: "text_span \<Rightarrow> nat \<Rightarrow> u8 list \<Rightarrow> generated_info" where
  "final_position source number last_line =
     (if ends_with_newline last_line
      then \<lparr>info_line = of_nat (number + 1), info_column = 0\<rparr>
      else \<lparr>info_line = of_nat number, info_column = of_nat (utf16_len_of source last_line)\<rparr>)"

definition stream_chunks_of_source_map_lines_full :: "text_span \<Rightarrow> source_map \<Rightarrow> stream" where
  "stream_chunks_of_source_map_lines_full source smap =
     (let lines = split_into_lines (span_text source) in
      if lines = [] then ([], \<lparr>info_line = 1, info_column = 0\<rparr>)
      else
        let (events, current) = lines_full_mappings source lines 1 (decode_mappings (map_mappings smap))
        in (source_events smap @ events
              @ remaining_lines source current (drop (unat current - 1) lines),
            final_position source (length lines) (last lines)))"

text \<open>\<open>full\<close>: the text is cut at every mapping; \<open>current_line\<close> of the code is \<open>cur_index_line\<close> here.\<close>

record full_state =
  cur_line :: u32
  cur_index_line :: "indexed_line option"
  cur_column :: u32
  mapping_active :: bool
  active_original :: "original_location option"

definition get_index_line :: "line_index \<Rightarrow> u32 \<Rightarrow> indexed_line option" where
  "get_index_line lines line = index_get lines (unat (line - 1))"

definition step_line :: "line_index \<Rightarrow> full_state \<Rightarrow> full_state" where
  "step_line lines st =
     st\<lparr>cur_line := cur_line st + 1, cur_index_line := get_index_line lines (cur_line st + 1)\<rparr>"

definition flush_active ::
    "text_span \<Rightarrow> line_index \<Rightarrow> source_mapping \<Rightarrow> full_state \<Rightarrow> stream_event list \<times> full_state" where
  "flush_active source lines m st =
     (case cur_index_line st of
        Some line \<Rightarrow>
          if mapping_active st then
            let mapping = at_original (cur_line st) (cur_column st) (active_original st);
                (chunk, st) =
                  (if generated_line m \<noteq> cur_line st
                   then (line_substring line (unat (cur_column st)) None,
                         (step_line lines st)\<lparr>cur_column := 0\<rparr>)
                   else (line_substring line (unat (cur_column st)) (Some (unat (generated_column m))),
                         st\<lparr>cur_column := generated_column m\<rparr>))
            in (if chunk \<noteq> [] then [ChunkEvent (Some (subspan source chunk)) mapping] else [],
                st\<lparr>mapping_active := False\<rparr>)
          else ([], st)
      | None \<Rightarrow> ([], st))"

definition flush_line ::
    "text_span \<Rightarrow> line_index \<Rightarrow> source_mapping \<Rightarrow> full_state \<Rightarrow> stream_event list \<times> full_state" where
  "flush_line source lines m st =
     (if generated_line m > cur_line st \<and> cur_column st > 0
      then ((case cur_index_line st of
               Some line \<Rightarrow>
                 [ChunkEvent (Some (subspan source (line_substring line (unat (cur_column st)) None)))
                    (unmapped (cur_line st) (cur_column st))]
             | None \<Rightarrow> []),
            (step_line lines st)\<lparr>cur_column := 0\<rparr>)
      else ([], st))"

function flush_lines ::
    "text_span \<Rightarrow> line_index \<Rightarrow> source_mapping \<Rightarrow> full_state \<Rightarrow> stream_event list \<times> full_state" where
  "flush_lines source lines m st =
     (if generated_line m > cur_line st
      then
        let events = (case cur_index_line st of
               Some line \<Rightarrow> [ChunkEvent (Some (subspan source (line_text line))) (unmapped (cur_line st) 0)]
             | None \<Rightarrow> []);
            (more, st) = flush_lines source lines m (step_line lines st)
        in (events @ more, st)
      else ([], st))"
  by pat_completeness auto
termination
  by (relation "measure (\<lambda>(source, lines, m, st). unat (generated_line m) - unat (cur_line st))")
    (simp_all add: word_gap_less step_line_def)

declare flush_lines.simps [simp del]

definition flush_columns ::
    "text_span \<Rightarrow> source_mapping \<Rightarrow> full_state \<Rightarrow> stream_event list \<times> full_state" where
  "flush_columns source m st =
     (if generated_column m > cur_column st
      then ((case cur_index_line st of
               Some line \<Rightarrow>
                 [ChunkEvent (Some (subspan source
                     (line_substring line (unat (cur_column st)) (Some (unat (generated_column m))))))
                    (unmapped (cur_line st) (cur_column st))]
             | None \<Rightarrow> []),
            st\<lparr>cur_column := generated_column m\<rparr>)
      else ([], st))"

definition activate :: "generated_info \<Rightarrow> source_mapping \<Rightarrow> full_state \<Rightarrow> full_state" where
  "activate final m st =
     (if original m \<noteq> None
         \<and> (generated_line m < info_line final
            \<or> generated_line m = info_line final \<and> generated_column m < info_column final)
      then st\<lparr>mapping_active := True, active_original := original m\<rparr> else st)"

definition full_mapping ::
    "text_span \<Rightarrow> line_index \<Rightarrow> generated_info \<Rightarrow> source_mapping \<Rightarrow> full_state
       \<Rightarrow> stream_event list \<times> full_state" where
  "full_mapping source lines final m st =
     (let (a, st) = flush_active source lines m st;
          (b, st) = flush_line source lines m st;
          (c, st) = flush_lines source lines m st;
          (d, st) = flush_columns source m st
      in (a @ b @ c @ d, activate final m st))"

fun full_mappings ::
    "text_span \<Rightarrow> line_index \<Rightarrow> generated_info \<Rightarrow> source_mapping list \<Rightarrow> full_state
       \<Rightarrow> stream_event list" where
  "full_mappings source lines final [] st = []"
| "full_mappings source lines final (m # ms) st =
     (let (events, st) = full_mapping source lines final m st
      in events @ full_mappings source lines final ms st)"

definition stream_chunks_of_source_map_full ::
    "(line_index \<Rightarrow> line_index) \<Rightarrow> text_span \<Rightarrow> source_map \<Rightarrow> stream" where
  "stream_chunks_of_source_map_full scan source smap =
     (let lines = index_with_known_ascii scan (span_text source) (is_known_ascii source) in
      if line_count lines = 0 then ([], \<lparr>info_line = 1, info_column = 0\<rparr>)
      else
        let last_line = line_text (index_get_unchecked lines (line_count lines - 1));
            final = final_position source (line_count lines) last_line;
            start = \<lparr>cur_line = 1, cur_index_line = index_get lines 0, cur_column = 0,
                     mapping_active = False, active_original = None\<rparr>
        in (source_events smap @ name_events smap
              @ full_mappings source lines final
                  (decode_mappings (map_mappings smap) @ [unmapped (info_line final) (info_column final)])
                  start,
            final))"

definition stream_chunks_of_source_map ::
    "(line_index \<Rightarrow> line_index) \<Rightarrow> map_options \<Rightarrow> text_span \<Rightarrow> source_map \<Rightarrow> stream" where
  "stream_chunks_of_source_map scan options source smap =
     (if opt_columns options
      then if opt_final options then stream_chunks_of_source_map_final source smap
           else stream_chunks_of_source_map_full scan source smap
      else if opt_final options then stream_chunks_of_source_map_lines_final source smap
           else stream_chunks_of_source_map_lines_full source smap)"

section \<open>The source map of a stream\<close>

text \<open>\<open>resize\<close> fills with the empty string.\<close>

definition put_at :: "u32 \<Rightarrow> u8 list \<Rightarrow> u8 list list \<Rightarrow> u8 list list" where
  "put_at i x xs = (xs @ replicate (unat i + 1 - length xs) [])[unat i := x]"

record map_builder =
  builder_encoder :: mappings_encoder
  builder_sources :: "u8 list list"
  builder_contents :: "u8 list list"
  builder_names :: "u8 list list"

fun builder_event :: "stream_event \<Rightarrow> map_builder \<Rightarrow> map_builder" where
  "builder_event (ChunkEvent chunk m) b =
     b\<lparr>builder_encoder := encoder_encode m (builder_encoder b)\<rparr>"
| "builder_event (SourceEvent i source content) b =
     b\<lparr>builder_sources := put_at i source (builder_sources b),
       builder_contents := (case content of Some c \<Rightarrow> put_at i c (builder_contents b)
                            | None \<Rightarrow> builder_contents b)\<rparr>"
| "builder_event (NameEvent i name) b = b\<lparr>builder_names := put_at i name (builder_names b)\<rparr>"

definition build_map :: "bool \<Rightarrow> stream_event list \<Rightarrow> source_map option" where
  "build_map columns events =
     (let b = fold builder_event events
                \<lparr>builder_encoder = create_encoder columns, builder_sources = [],
                 builder_contents = [], builder_names = []\<rparr>;
          mappings = fst (encoder_drain (builder_encoder b))
      in if mappings = [] then None
         else Some \<lparr>map_version = 3, map_file = None, map_sources = builder_sources b,
           map_contents = builder_contents b, map_names = builder_names b,
           map_mappings = mappings, map_root = None, map_debug_id = None,
           map_ignore_list = None\<rparr>)"

end
