(* ===== verification/Sources_Replace.thy ===== *)
theory Sources_Replace
  imports Sources_Stream
begin

text \<open>
  \<open>crates/rspack_sources/src/replace_source.rs\<close>: the ordered list of replacements, the text a replaced source spells,
  its size, and its stream.  The index into the replacements is the list of those left.  The state of a stream is
  \<open>replace_state\<close>; the index of a source content is built at each check (the code keeps it).
\<close>

section \<open>Replacements\<close>

datatype replacement_enforce = Pre | Normal | Post

fun enforce_rank :: "replacement_enforce \<Rightarrow> nat" where
  "enforce_rank Pre = 0" | "enforce_rank Normal = 1" | "enforce_rank Post = 2"

record replacement =
  repl_start :: nat
  repl_end :: nat
  repl_content :: "u8 list"
  repl_name :: "u8 list option"
  repl_enforce :: replacement_enforce
  insertion_order :: nat

definition cmp_replacement :: "replacement \<Rightarrow> replacement \<Rightarrow> ordering" where
  "cmp_replacement a b =
     then_ordering (cmp_ord (repl_start a) (repl_start b))
       (then_ordering (cmp_ord (repl_end a) (repl_end b))
         (then_ordering (cmp_ord (enforce_rank (repl_enforce a)) (enforce_rank (repl_enforce b)))
           (cmp_ord (insertion_order a) (insertion_order b))))"

interpretation replacement_order: comparator cmp_replacement
  by unfold_locales (auto simp: cmp_replacement_def)

text \<open>\<open>binary_search_by\<close> on the sorted list: the place of the replacement among those before it.\<close>

definition search_place :: "replacement \<Rightarrow> replacement list \<Rightarrow> nat" where
  "search_place r rs = length (takeWhile (\<lambda>other. cmp_replacement other r = Less) rs)"

definition add_replacement :: "replacement \<Rightarrow> replacement list \<Rightarrow> replacement list" where
  "add_replacement r rs =
     (if rs = [] then [r]
      else if cmp_replacement r (last rs) = Greater \<or> cmp_replacement r (last rs) = Equal
      then rs @ [r]
      else vec_insert (search_place r rs) r rs)"

definition replace_with_enforce ::
    "nat \<Rightarrow> nat \<Rightarrow> u8 list \<Rightarrow> u8 list option \<Rightarrow> replacement_enforce \<Rightarrow> replacement list
       \<Rightarrow> replacement list" where
  "replace_with_enforce i j content name enforce rs =
     add_replacement \<lparr>repl_start = i, repl_end = j, repl_content = content, repl_name = name,
       repl_enforce = enforce, insertion_order = length rs\<rparr> rs"

definition replace :: "nat \<Rightarrow> nat \<Rightarrow> u8 list \<Rightarrow> u8 list option \<Rightarrow> replacement list \<Rightarrow> replacement list"
  where
  "replace i j content name rs = replace_with_enforce i j content name Normal rs"

definition insert_with_enforce ::
    "nat \<Rightarrow> u8 list \<Rightarrow> u8 list option \<Rightarrow> replacement_enforce \<Rightarrow> replacement list \<Rightarrow> replacement list"
  where
  "insert_with_enforce i content name enforce rs = replace_with_enforce i i content name enforce rs"

definition insert_content :: "nat \<Rightarrow> u8 list \<Rightarrow> u8 list option \<Rightarrow> replacement list \<Rightarrow> replacement list"
  where
  "insert_content i content name rs = replace i i content name rs"

section \<open>The text\<close>

record rope_state =
  rope_pos :: nat
  rope_end :: "nat option"
  rope_left :: "replacement list"

definition max_end :: "nat option \<Rightarrow> nat \<Rightarrow> nat" where
  "max_end e j = (case e of Some e \<Rightarrow> max e j | None \<Rightarrow> j)"

text \<open>The loop over the replacements in a chunk, and what is left of the chunk behind it.\<close>

fun rope_loop ::
    "u8 list \<Rightarrow> nat \<Rightarrow> nat \<Rightarrow> nat \<Rightarrow> nat option \<Rightarrow> replacement list \<Rightarrow> u8 list list \<times> rope_state" where
  "rope_loop chunk end_pos chunk_pos pos e [] =
     (if chunk_pos < length chunk then [drop chunk_pos chunk] else [],
      \<lparr>rope_pos = end_pos, rope_end = e, rope_left = []\<rparr>)"
| "rope_loop chunk end_pos chunk_pos pos e (r # rs) =
     (if repl_start r < end_pos then
        let (before, chunk_pos, pos) =
              (if repl_start r > pos
               then ([slice_bytes chunk chunk_pos (chunk_pos + (repl_start r - pos))],
                     chunk_pos + (repl_start r - pos), repl_start r)
               else ([], chunk_pos, pos));
            e' = max_end e (repl_end r);
            offset = int (length chunk) - int end_pos + int e' - int chunk_pos
        in if offset > 0 then
             if e' \<ge> end_pos
             then (before @ [repl_content r], \<lparr>rope_pos = end_pos, rope_end = Some e', rope_left = rs\<rparr>)
             else let (more, st) = rope_loop chunk end_pos (chunk_pos + nat offset) (pos + nat offset)
                                     (Some e') rs
                  in (before @ [repl_content r] @ more, st)
           else let (more, st) = rope_loop chunk end_pos chunk_pos pos (Some e') rs
                in (before @ [repl_content r] @ more, st)
      else
        (if chunk_pos < length chunk then [drop chunk_pos chunk] else [],
         \<lparr>rope_pos = end_pos, rope_end = e, rope_left = r # rs\<rparr>))"

definition rope_chunk :: "u8 list \<Rightarrow> rope_state \<Rightarrow> u8 list list \<times> rope_state" where
  "rope_chunk chunk st =
     (let pos = rope_pos st; end_pos = pos + length chunk in
      case rope_end st of
        Some e \<Rightarrow>
          if e > pos then
            if e \<ge> end_pos then ([], st\<lparr>rope_pos := end_pos\<rparr>)
            else rope_loop chunk end_pos (e - pos) e (rope_end st) (rope_left st)
          else rope_loop chunk end_pos 0 pos (rope_end st) (rope_left st)
      | None \<Rightarrow> rope_loop chunk end_pos 0 pos (rope_end st) (rope_left st))"

fun rope_chunks :: "u8 list list \<Rightarrow> rope_state \<Rightarrow> u8 list list \<times> rope_state" where
  "rope_chunks [] st = ([], st)"
| "rope_chunks (c # cs) st =
     (let (out, st) = rope_chunk c st; (more, st) = rope_chunks cs st in (out @ more, st))"

definition replace_rope :: "u8 list list \<Rightarrow> replacement list \<Rightarrow> u8 list list" where
  "replace_rope inner rs =
     (if rs = [] then inner
      else let (out, st) = rope_chunks inner \<lparr>rope_pos = 0, rope_end = None, rope_left = rs\<rparr>
           in out @ map repl_content (rope_left st))"

section \<open>The size\<close>

fun size_loop :: "nat \<Rightarrow> nat \<Rightarrow> nat \<Rightarrow> replacement list \<Rightarrow> nat" where
  "size_loop inner_size inner_pos acc [] = acc"
| "size_loop inner_size inner_pos acc (r # rs) =
     (if repl_start r \<ge> inner_size
      then size_loop inner_size inner_pos (acc + length (repl_content r)) rs
      else
        let original_length = repl_end r - max (repl_start r) inner_pos
        in size_loop inner_size (max inner_pos (repl_end r))
             (acc - original_length + length (repl_content r)) rs)"

definition replace_size :: "nat \<Rightarrow> replacement list \<Rightarrow> nat" where
  "replace_size inner_size rs =
     (if rs = [] then inner_size else size_loop inner_size 0 inner_size rs)"

section \<open>The stream\<close>

text \<open>\<open>LinearMap\<close>: a vector that grows with the default value.\<close>

definition linear_insert :: "'a \<Rightarrow> u32 \<Rightarrow> 'a \<Rightarrow> 'a list \<Rightarrow> 'a list" where
  "linear_insert dflt key v xs =
     (xs @ replicate (unat key + 1 - length xs) dflt)[unat key := v]"

definition linear_get :: "u32 \<Rightarrow> 'a list \<Rightarrow> 'a option" where
  "linear_get key xs = list_get xs (unat key)"

text \<open>A hash map from strings to indices that is only extended: the index of a new key is the size of the map.\<close>

type_synonym string_indices = "(u8 list \<times> u32) list"

definition index_string :: "u8 list \<Rightarrow> string_indices \<Rightarrow> u32 \<times> bool \<times> string_indices" where
  "index_string key m =
     (case map_of m key of
        Some i \<Rightarrow> (i, False, m)
      | None \<Rightarrow> (of_nat (length m), True, m @ [(key, of_nat (length m))]))"

record replace_state =
  rp_pos :: nat
  rp_end :: "nat option"
  rp_left :: "replacement list"
  line_offset :: int
  column_offset :: int
  column_offset_line :: int
  rp_contents :: "u8 list option list"
  rp_names :: string_indices
  rp_name_index :: "u32 list"

definition replace_state_new :: "replacement list \<Rightarrow> replace_state" where
  "replace_state_new rs = \<lparr>rp_pos = 0, rp_end = None, rp_left = rs, line_offset = 0, column_offset = 0,
     column_offset_line = 0, rp_contents = [], rp_names = [], rp_name_index = []\<rparr>"

text \<open>The output line and column of the current input position.\<close>

definition out_line :: "source_mapping \<Rightarrow> replace_state \<Rightarrow> int" where
  "out_line m st = uint (generated_line m) + line_offset st"

definition out_column :: "u32 \<Rightarrow> int \<Rightarrow> replace_state \<Rightarrow> u32" where
  "out_column column line st =
     of_int (uint column + (if line = column_offset_line st then column_offset st else 0))"

definition shift_columns :: "int \<Rightarrow> int \<Rightarrow> replace_state \<Rightarrow> replace_state" where
  "shift_columns line delta st =
     (if column_offset_line st = line then st\<lparr>column_offset := column_offset st + delta\<rparr>
      else st\<lparr>column_offset := delta, column_offset_line := line\<rparr>)"

definition remap_name :: "bool \<Rightarrow> replace_state \<Rightarrow> original_location option \<Rightarrow> original_location option"
  where
  "remap_name is_original st orig =
     (if is_original then orig
      else map_option (\<lambda>loc. loc\<lparr>name_index :=
             Option.bind (name_index loc) (\<lambda>i. linear_get i (rp_name_index st))\<rparr>) orig)"

definition check_content_at_position ::
    "(line_index \<Rightarrow> line_index) \<Rightarrow> u8 list \<Rightarrow> u32 \<Rightarrow> u32 \<Rightarrow> u8 list \<Rightarrow> bool" where
  "check_content_at_position scan content line column expected =
     (if line = 0 then False
      else case index_get (index_new scan content) (unat line - 1) of
             Some l \<Rightarrow> starts_with (line_substring l (unat column) None) expected
           | None \<Rightarrow> False)"

definition check_original_content ::
    "(line_index \<Rightarrow> line_index) \<Rightarrow> replace_state \<Rightarrow> original_location \<Rightarrow> u8 list \<Rightarrow> bool" where
  "check_original_content scan st loc expected =
     (case linear_get (source_index loc) (rp_contents st) of
        Some (Some content) \<Rightarrow>
          check_content_at_position scan content (original_line loc) (original_column loc) expected
      | _ \<Rightarrow> False)"

definition advance_original ::
    "(line_index \<Rightarrow> line_index) \<Rightarrow> bool \<Rightarrow> replace_state \<Rightarrow> u8 list \<Rightarrow> nat \<Rightarrow> source_mapping \<Rightarrow> source_mapping"
  where
  "advance_original scan is_original st expected n m =
     (case original m of
        Some loc \<Rightarrow>
          if is_original \<or> check_original_content scan st loc expected
          then m\<lparr>original := Some (loc\<lparr>original_column := original_column loc + of_nat n\<rparr>)\<rparr> else m
      | None \<Rightarrow> m)"

text \<open>What is skipped of a chunk that is replaced to its end.\<close>

definition skip_rest :: "text_span \<Rightarrow> nat \<Rightarrow> source_mapping \<Rightarrow> replace_state \<Rightarrow> replace_state" where
  "skip_rest chunk units m st =
     (let line = out_line m st in
      if span_ends_with chunk 0x0A then
        let st = st\<lparr>line_offset := line_offset st - 1\<rparr>
        in if column_offset_line st = line
           then st\<lparr>column_offset := column_offset st + uint (generated_column m)\<rparr> else st
      else shift_columns line (- int units) st)"

text \<open>The lines of a content.\<close>

fun content_lines ::
    "bool \<Rightarrow> source_mapping \<Rightarrow> int \<Rightarrow> u32 option \<Rightarrow> u8 list list \<Rightarrow> replace_state
       \<Rightarrow> stream_event list \<times> replace_state" where
  "content_lines ascii m line name [] st = ([], st)"
| "content_lines ascii m line name (l # ls) st =
     (let chunk = text_span_with_ascii l ascii;
          orig = (if Option.bind (original m) name_index = name then original m
                  else map_option (\<lambda>loc. loc\<lparr>name_index := name\<rparr>) (original m));
          event = ChunkEvent (Some chunk)
                    (at_original (of_int line) (out_column (generated_column m) line st) orig);
          (line, st) =
            (if \<not> ends_with_newline l
             then (line, shift_columns line (int (span_utf16_len chunk)) st)
             else (line + 1,
                   st\<lparr>line_offset := line_offset st + 1,
                      column_offset := - uint (generated_column m),
                      column_offset_line := line + 1\<rparr>));
          (more, st) = content_lines ascii m line None ls st
      in (event # more, st))"

definition emit_content ::
    "replacement \<Rightarrow> source_mapping \<Rightarrow> replace_state \<Rightarrow> stream_event list \<times> replace_state" where
  "emit_content r m st =
     (let inner = Option.bind (original m) name_index;
          (name, events, st) =
            (case (original m, repl_name r) of
               (Some _, Some name) \<Rightarrow>
                 (case index_string name (rp_names st) of
                    (i, new, names) \<Rightarrow>
                      (Some i, if new then [NameEvent i name] else [], st\<lparr>rp_names := names\<rparr>))
             | _ \<Rightarrow> (inner, [], st));
          (more, st) = content_lines (str_is_ascii (repl_content r)) m (out_line m st) name
                         (split_into_lines (repl_content r)) st
      in (events @ more, st))"

text \<open>The text of the chunk before the next replacement.\<close>

definition emit_before ::
    "(line_index \<Rightarrow> line_index) \<Rightarrow> bool \<Rightarrow> text_span \<Rightarrow> nat \<Rightarrow> nat \<Rightarrow> source_mapping \<Rightarrow> replace_state
       \<Rightarrow> (stream_event list \<times> nat \<times> source_mapping \<times> replace_state) option" where
  "emit_before scan is_original chunk start chunk_pos m st =
     (if start > rp_pos st then do {
        let offset = start - rp_pos st;
        part \<leftarrow> span_slice chunk chunk_pos (chunk_pos + offset);
        let units = span_utf16_len part;
        let line = out_line m st;
        let event = ChunkEvent (Some part)
              (at_original (of_int line) (out_column (generated_column m) line st)
                 (remap_name is_original st (original m)));
        let m = m\<lparr>generated_column := generated_column m + of_nat units\<rparr>;
        Some ([event], chunk_pos + offset,
              advance_original scan is_original st (span_text part) units m,
              st\<lparr>rp_pos := start\<rparr>)
      } else Some ([], chunk_pos, m, st))"

text \<open>The rest of the chunk behind the last replacement.\<close>

definition emit_rest ::
    "bool \<Rightarrow> text_span \<Rightarrow> nat \<Rightarrow> nat \<Rightarrow> source_mapping \<Rightarrow> replace_state
       \<Rightarrow> (stream_event list \<times> replace_state) option" where
  "emit_rest is_original chunk end_pos chunk_pos m st =
     (if chunk_pos < span_len chunk then do {
        part \<leftarrow> (if chunk_pos = 0 then Some chunk else span_slice_from chunk chunk_pos);
        let line = out_line m st;
        Some ([ChunkEvent (Some part)
                 (at_original (of_int line) (out_column (generated_column m) line st)
                    (remap_name is_original st (original m)))],
              st\<lparr>rp_pos := end_pos\<rparr>)
      } else Some ([], st\<lparr>rp_pos := end_pos\<rparr>))"

function replace_loop ::
    "(line_index \<Rightarrow> line_index) \<Rightarrow> bool \<Rightarrow> text_span \<Rightarrow> nat \<Rightarrow> nat \<Rightarrow> source_mapping \<Rightarrow> replacement list
       \<Rightarrow> replace_state \<Rightarrow> (stream_event list \<times> replace_state) option" where
  "replace_loop scan is_original chunk end_pos chunk_pos m [] st =
     emit_rest is_original chunk end_pos chunk_pos m (st\<lparr>rp_left := []\<rparr>)"
| "replace_loop scan is_original chunk end_pos chunk_pos m (r # rs) st =
     (if repl_start r < end_pos then
        Option.bind (emit_before scan is_original chunk (repl_start r) chunk_pos m st)
          (\<lambda>(before, chunk_pos, m, st).
            let (content, st) = emit_content r m st;
                e = max_end (rp_end st) (repl_end r);
                st = st\<lparr>rp_end := Some e, rp_left := rs\<rparr>;
                offset = int (span_len chunk) - int end_pos + int e - int chunk_pos
            in if offset > 0 then
                 if e \<ge> end_pos then do {
                   rest \<leftarrow> (if span_ends_with chunk 0x0A then Some (text_span_new [])
                           else span_slice_from chunk chunk_pos);
                   Some (before @ content, (skip_rest chunk (span_utf16_len rest) m st)\<lparr>rp_pos := end_pos\<rparr>)
                 }
                 else do {
                   part \<leftarrow> span_slice chunk chunk_pos (chunk_pos + nat offset);
                   let line = out_line m st;
                   let m = advance_original scan is_original st (span_text part) (nat offset) m;
                   let units = span_utf16_len part;
                   let st = shift_columns line (- int units) (st\<lparr>rp_pos := rp_pos st + nat offset\<rparr>);
                   let m = m\<lparr>generated_column := generated_column m + of_nat units\<rparr>;
                   (more, st) \<leftarrow> replace_loop scan is_original chunk end_pos (chunk_pos + nat offset) m rs st;
                   Some (before @ content @ more, st)
                 }
               else do {
                 (more, st) \<leftarrow> replace_loop scan is_original chunk end_pos chunk_pos m rs st;
                 Some (before @ content @ more, st)
               })
      else emit_rest is_original chunk end_pos chunk_pos m (st\<lparr>rp_left := r # rs\<rparr>))"
  by pat_completeness auto
termination
  by (relation "measure (\<lambda>(scan, b, c, e, p, m, rs, st). length rs)") auto

declare replace_loop.simps [simp del]

definition replace_chunk ::
    "(line_index \<Rightarrow> line_index) \<Rightarrow> bool \<Rightarrow> text_span \<Rightarrow> source_mapping \<Rightarrow> replace_state
       \<Rightarrow> (stream_event list \<times> replace_state) option" where
  "replace_chunk scan is_original chunk m st =
     (let end_pos = rp_pos st + span_len chunk in
      case rp_end st of
        Some e \<Rightarrow>
          if e > rp_pos st then
            if e \<ge> end_pos
            then Some ([], (skip_rest chunk (span_utf16_len chunk) m st)\<lparr>rp_pos := end_pos\<rparr>)
            else do {
              let chunk_pos = e - rp_pos st;
              part \<leftarrow> span_slice_to chunk chunk_pos;
              let m = advance_original scan is_original st (span_text part) chunk_pos m;
              let units = span_utf16_len part;
              let line = out_line m st;
              let st = shift_columns line (- int units) (st\<lparr>rp_pos := e\<rparr>);
              let m = m\<lparr>generated_column := generated_column m + of_nat units\<rparr>;
              replace_loop scan is_original chunk end_pos chunk_pos m (rp_left st) st
            }
          else replace_loop scan is_original chunk end_pos 0 m (rp_left st) st
      | None \<Rightarrow> replace_loop scan is_original chunk end_pos 0 m (rp_left st) st)"

fun replace_event ::
    "(line_index \<Rightarrow> line_index) \<Rightarrow> bool \<Rightarrow> stream_event \<Rightarrow> replace_state
       \<Rightarrow> (stream_event list \<times> replace_state) option" where
  "replace_event scan is_original (ChunkEvent None m) st = None"
| "replace_event scan is_original (ChunkEvent (Some chunk) m) st = replace_chunk scan is_original chunk m st"
| "replace_event scan is_original (SourceEvent i source content) st =
     Some ([SourceEvent i source content],
           if is_original then st
           else st\<lparr>rp_contents := linear_insert None i content (rp_contents st)\<rparr>)"
| "replace_event scan is_original (NameEvent i name) st =
     (case index_string name (rp_names st) of
        (j, new, names) \<Rightarrow>
          Some (if new then [NameEvent j name] else [],
                st\<lparr>rp_names := names, rp_name_index := linear_insert 0 i j (rp_name_index st)\<rparr>))"

fun replace_events ::
    "(line_index \<Rightarrow> line_index) \<Rightarrow> bool \<Rightarrow> stream_event list \<Rightarrow> replace_state
       \<Rightarrow> (stream_event list \<times> replace_state) option" where
  "replace_events scan is_original [] st = Some ([], st)"
| "replace_events scan is_original (e # es) st = do {
     (out, st) \<leftarrow> replace_event scan is_original e st;
     (more, st) \<leftarrow> replace_events scan is_original es st;
     Some (out @ more, st)
   }"

text \<open>The replacements behind the text.\<close>

fun trailing_lines ::
    "bool \<Rightarrow> u32 \<Rightarrow> int \<Rightarrow> u8 list list \<Rightarrow> replace_state \<Rightarrow> stream_event list \<times> int \<times> replace_state" where
  "trailing_lines ascii column line [] st = ([], line, st)"
| "trailing_lines ascii column line (l # ls) st =
     (let chunk = text_span_with_ascii l ascii;
          event = ChunkEvent (Some chunk) (unmapped (of_int line) (out_column column line st));
          (line, st) =
            (if \<not> ends_with_newline l
             then (line, shift_columns line (int (span_utf16_len chunk)) st)
             else (line + 1, st\<lparr>column_offset := - uint column, column_offset_line := line + 1\<rparr>));
          (more, line, st) = trailing_lines ascii column line ls st
      in (event # more, line, st))"

fun trailing_replacements ::
    "u32 \<Rightarrow> int \<Rightarrow> replacement list \<Rightarrow> replace_state \<Rightarrow> stream_event list \<times> int \<times> replace_state" where
  "trailing_replacements column line [] st = ([], line, st)"
| "trailing_replacements column line (r # rs) st =
     (let (events, line, st) = trailing_lines (str_is_ascii (repl_content r)) column line
                                 (split_into_lines (repl_content r)) st;
          (more, line, st) = trailing_replacements column line rs st
      in (events @ more, line, st))"

definition stream_replace ::
    "(line_index \<Rightarrow> line_index) \<Rightarrow> bool \<Rightarrow> stream \<Rightarrow> replacement list \<Rightarrow> stream option" where
  "stream_replace scan is_original inner rs = do {
     let (events, result) = inner;
     (out, st) \<leftarrow> replace_events scan is_original events (replace_state_new rs);
     let (more, line, st) = trailing_replacements (info_column result)
           (uint (info_line result) + line_offset st) (rp_left st) st;
     Some (out @ more,
           \<lparr>info_line = of_int line, info_column = out_column (info_column result) line st\<rparr>)
   }"

end
