(* ===== verification/Sources_Tree.thy ===== *)
theory Sources_Tree
  imports Sources_Replace
begin

text \<open>
  The tree of sources: \<open>raw_source.rs\<close>, \<open>original_source.rs\<close>, \<open>source_map_source.rs\<close> (without an inner map),
  \<open>concat_source.rs\<close> and \<open>replace_source.rs\<close> behind the trait \<open>Source\<close> of \<open>source.rs\<close>.  A concatenation holds the
  children added since it was last read and the optimized children, once it was read.
\<close>

datatype source =
    RawStringSource "u8 list"
  | RawBufferSource "u8 list"
  | OriginalSource "u8 list" "u8 list"
  | SourceMapSource "u8 list" "u8 list" source_map
  | ConcatSource "source list" "source list option"
  | ReplaceSource source "replacement list"

section \<open>Binary contents\<close>

text \<open>\<open>String::from_utf8_lossy\<close>: the bytes of the next character, or of the longest start of one, and whether it is valid.\<close>

definition second_byte_ok :: "u8 \<Rightarrow> u8 \<Rightarrow> bool" where
  "second_byte_ok b c =
     (if b = 0xE0 then 0xA0 \<le> c \<and> c \<le> 0xBF
      else if b = 0xED then 0x80 \<le> c \<and> c \<le> 0x9F
      else if b = 0xF0 then 0x90 \<le> c \<and> c \<le> 0xBF
      else if b = 0xF4 then 0x80 \<le> c \<and> c \<le> 0x8F
      else is_continuation c)"

definition utf8_char_width :: "u8 \<Rightarrow> nat" where
  "utf8_char_width b =
     (if b < 0x80 then 1 else if 0xC2 \<le> b \<and> b \<le> 0xDF then 2
      else if 0xE0 \<le> b \<and> b \<le> 0xEF then 3 else if 0xF0 \<le> b \<and> b \<le> 0xF4 then 4 else 0)"

text \<open>How many of the expected bytes are there: the second has its own range.\<close>

definition char_bytes :: "u8 list \<Rightarrow> nat" where
  "char_bytes s =
     (case s of [] \<Rightarrow> 0
      | b # bs \<Rightarrow>
          (if utf8_char_width b \<le> 1 then 1
           else case bs of [] \<Rightarrow> 1
                | c # cs \<Rightarrow>
                    if \<not> second_byte_ok b c then 1
                    else 2 + length (takeWhile is_continuation (take (utf8_char_width b - 2) cs))))"

function from_utf8_lossy :: "u8 list \<Rightarrow> u8 list" where
  "from_utf8_lossy s =
     (if s = [] then []
      else (if char_bytes s = utf8_char_width (hd s) then take (char_bytes s) s else [0xEF, 0xBF, 0xBD])
        @ from_utf8_lossy (drop (char_bytes s) s))"
  by pat_completeness auto
termination
  by (relation "measure length") (auto simp: char_bytes_def split: list.splits)

declare from_utf8_lossy.simps [simp del]

section \<open>Reading a concatenation\<close>

fun is_raw_string :: "source \<Rightarrow> bool" where
  "is_raw_string (RawStringSource s) = True"
| "is_raw_string _ = False"

fun raw_string :: "source \<Rightarrow> u8 list" where
  "raw_string (RawStringSource s) = s"
| "raw_string _ = []"

definition merge_raw_sources :: "source list \<Rightarrow> source list" where
  "merge_raw_sources raws =
     (if length raws = 0 then [] else if length raws = 1 then raws
      else [RawStringSource (concat (map raw_string raws))])"

fun optimize_loop :: "source list \<Rightarrow> source list \<Rightarrow> source list" where
  "optimize_loop raws [] = merge_raw_sources raws"
| "optimize_loop raws (c # cs) =
     (if is_raw_string c then optimize_loop (raws @ [c]) cs
      else merge_raw_sources raws @ [c] @ optimize_loop [] cs)"

definition optimize :: "source list \<Rightarrow> source list" where
  "optimize children = (if length children \<le> 1 then children else optimize_loop [] children)"

definition optimized_children :: "source list \<Rightarrow> source list option \<Rightarrow> source list" where
  "optimized_children children optimized =
     (case optimized of Some cs \<Rightarrow> cs | None \<Rightarrow> optimize children)"

text \<open>Adding takes back what reading had set; a concatenation is added as its children.\<close>

fun concat_add :: "source \<Rightarrow> source \<Rightarrow> source" where
  "concat_add (ConcatSource children optimized) s =
     (let children = (case optimized of Some cs \<Rightarrow> cs | None \<Rightarrow> children)
      in case s of
           ConcatSource others other_optimized \<Rightarrow>
             ConcatSource (children @ (case other_optimized of Some cs \<Rightarrow> cs | None \<Rightarrow> others)) None
         | _ \<Rightarrow> ConcatSource (children @ [s]) None)"
| "concat_add t s = t"

definition concat_new :: "source list \<Rightarrow> source" where
  "concat_new sources = fold (\<lambda>s c. concat_add c s) sources (ConcatSource [] None)"

text \<open>What a read leaves: the children moved to the optimized ones.\<close>

fun concat_read :: "source \<Rightarrow> source" where
  "concat_read (ConcatSource children None) = ConcatSource [] (Some (optimize children))"
| "concat_read s = s"

fun depth :: "source \<Rightarrow> nat" where
  "depth (ConcatSource children optimized) =
     Suc (fold max (map depth children)
       (case optimized of Some cs \<Rightarrow> fold max (map depth cs) 0 | None \<Rightarrow> 0))"
| "depth (ReplaceSource s rs) = Suc (depth s)"
| "depth _ = 0"

lemma fold_max_ge: "(m :: nat) \<le> fold max xs m" "x \<in> set xs \<Longrightarrow> x \<le> fold max xs m"
proof (induction xs arbitrary: m)
  case (Cons y ys)
  { case 1 then show ?case using Cons(1) [of "max y m"] by simp }
  { case 2 then show ?case using Cons(1,2) [of "max y m"] by auto }
qed simp_all

lemma merge_raw_depth: "c \<in> set (merge_raw_sources raws) \<Longrightarrow> depth c = 0 \<or> c \<in> set raws"
  by (auto simp: merge_raw_sources_def split: if_splits)

lemma optimize_loop_depth:
  "c \<in> set (optimize_loop raws cs) \<Longrightarrow> depth c = 0 \<or> c \<in> set raws \<or> c \<in> set cs"
  by (induction raws cs rule: optimize_loop.induct) (auto split: if_splits dest: merge_raw_depth)

lemma optimized_children_depth:
  assumes "c \<in> set (optimized_children children optimized)"
  shows "depth c < depth (ConcatSource children optimized)"
proof -
  have "depth c = 0 \<or> c \<in> set children \<or> (\<exists>cs. optimized = Some cs \<and> c \<in> set cs)"
    using assms optimize_loop_depth [of c "[]" children]
    by (auto simp: optimized_children_def optimize_def split: option.splits if_splits)
  moreover have "depth c \<le> fold max (map depth children) m" if "c \<in> set children" for m
    using that by (intro fold_max_ge) auto
  moreover have "depth c \<le> fold max (map depth children) (fold max (map depth cs) 0)"
    if "c \<in> set cs" for cs
    using that fold_max_ge(2) [of "depth c" "map depth cs" 0] fold_max_ge(1) order_trans by force
  ultimately show ?thesis by (auto simp: less_Suc_eq_le)
qed

lemma only_child_depth:
  "length (optimized_children children optimized) = Suc 0 \<Longrightarrow>
     depth (optimized_children children optimized ! 0) < depth (ConcatSource children optimized)"
  by (rule optimized_children_depth) simp

lemmas child_depths = optimized_children_depth only_child_depth

section \<open>The text of a source\<close>

function rope :: "source \<Rightarrow> u8 list list" where
  "rope (RawStringSource s) = [s]"
| "rope (RawBufferSource b) = [from_utf8_lossy b]"
| "rope (OriginalSource v name) = [v]"
| "rope (SourceMapSource v name smap) = [v]"
| "rope (ConcatSource children optimized) = concat (map rope (optimized_children children optimized))"
| "rope (ReplaceSource s rs) = replace_rope (rope s) rs"
  by pat_completeness auto
termination
  by (relation "measure depth") (auto simp: child_depths simp del: depth.simps(1))

datatype source_value = StringValue "u8 list" | BufferValue "u8 list"

fun into_string_lossy :: "source_value \<Rightarrow> u8 list" where
  "into_string_lossy (StringValue s) = s"
| "into_string_lossy (BufferValue b) = from_utf8_lossy b"

fun into_bytes :: "source_value \<Rightarrow> u8 list" where
  "into_bytes (StringValue s) = s"
| "into_bytes (BufferValue b) = b"

function source_of :: "source \<Rightarrow> source_value" where
  "source_of (RawStringSource s) = StringValue s"
| "source_of (RawBufferSource b) = BufferValue b"
| "source_of (OriginalSource v name) = StringValue v"
| "source_of (SourceMapSource v name smap) = StringValue v"
| "source_of (ConcatSource children optimized) =
     (let cs = optimized_children children optimized
      in if length cs = 1 then source_of (cs ! 0) else StringValue (concat (concat (map rope cs))))"
| "source_of (ReplaceSource s rs) =
     (if rs = [] then source_of s else StringValue (concat (rope (ReplaceSource s rs))))"
  by pat_completeness auto
termination
  by (relation "measure depth") (auto simp: child_depths simp del: depth.simps(1))

text \<open>What \<open>to_writer\<close> writes when no write fails.\<close>

function written_bytes :: "source \<Rightarrow> u8 list" where
  "written_bytes (RawStringSource s) = s"
| "written_bytes (RawBufferSource b) = b"
| "written_bytes (OriginalSource v name) = v"
| "written_bytes (SourceMapSource v name smap) = v"
| "written_bytes (ConcatSource children optimized) =
     concat (map written_bytes (optimized_children children optimized))"
| "written_bytes (ReplaceSource s rs) = concat (rope (ReplaceSource s rs))"
  by pat_completeness auto
termination
  by (relation "measure depth") (auto simp: child_depths simp del: depth.simps(1))

function buffer_of :: "source \<Rightarrow> u8 list" where
  "buffer_of (RawStringSource s) = s"
| "buffer_of (RawBufferSource b) = b"
| "buffer_of (OriginalSource v name) = v"
| "buffer_of (SourceMapSource v name smap) = v"
| "buffer_of (ConcatSource children optimized) =
     (let cs = optimized_children children optimized
      in if length cs = 1 then buffer_of (cs ! 0) else concat (map written_bytes cs))"
| "buffer_of (ReplaceSource s rs) = into_bytes (source_of (ReplaceSource s rs))"
  by pat_completeness auto
termination
  by (relation "measure depth") (auto simp: child_depths simp del: depth.simps(1))

function size_of :: "source \<Rightarrow> nat" where
  "size_of (RawStringSource s) = length s"
| "size_of (RawBufferSource b) = length b"
| "size_of (OriginalSource v name) = length v"
| "size_of (SourceMapSource v name smap) = length v"
| "size_of (ConcatSource children optimized) =
     sum_list (map size_of (optimized_children children optimized))"
| "size_of (ReplaceSource s rs) = replace_size (size_of s) rs"
  by pat_completeness auto
termination
  by (relation "measure depth") (auto simp: child_depths simp del: depth.simps(1))

section \<open>The stream of a concatenation\<close>

record concat_state =
  current_line_offset :: u32
  current_column_offset :: u32
  source_indices :: string_indices
  name_indices :: string_indices
  need_to_close :: bool
  source_index_map :: "u32 list"
  name_index_map :: "u32 list"
  last_mapping_line :: u32

definition concat_state_new :: concat_state where
  "concat_state_new = \<lparr>current_line_offset = 0, current_column_offset = 0, source_indices = [],
     name_indices = [], need_to_close = False, source_index_map = [], name_index_map = [],
     last_mapping_line = 0\<rparr>"

definition close_event :: "concat_state \<Rightarrow> stream_event" where
  "close_event st = ChunkEvent None (unmapped (current_line_offset st + 1) (current_column_offset st))"

definition concat_chunk ::
    "bool \<Rightarrow> text_span option \<Rightarrow> source_mapping \<Rightarrow> concat_state \<Rightarrow> stream_event list \<times> concat_state"
  where
  "concat_chunk final chunk m st =
     (let line = generated_line m + current_line_offset st;
          column = (if generated_line m = 1 then generated_column m + current_column_offset st
                    else generated_column m);
          close = (if need_to_close st \<and> (generated_line m \<noteq> 1 \<or> generated_column m \<noteq> 0)
                   then [close_event st] else []);
          st = st\<lparr>need_to_close := False\<rparr>;
          result_source = Option.bind (original m) (\<lambda>loc. linear_get (source_index loc) (source_index_map st));
          result_name = Option.bind (Option.bind (original m) name_index)
                          (\<lambda>i. linear_get i (name_index_map st));
          st = st\<lparr>last_mapping_line := (if result_source = None then 0 else generated_line m)\<rparr>;
          mapped = (case (result_source, original m) of
                      (Some s, Some loc) \<Rightarrow>
                        Some \<lparr>source_index = s, original_line = original_line loc,
                              original_column = original_column loc, name_index = result_name\<rparr>
                    | _ \<Rightarrow> None);
          events = (if final
                    then (case mapped of Some loc \<Rightarrow> [ChunkEvent None (at_original line column (Some loc))]
                          | None \<Rightarrow> [])
                    else [ChunkEvent chunk (at_original line column mapped)])
      in (close @ events, st))"

fun concat_event :: "bool \<Rightarrow> stream_event \<Rightarrow> concat_state \<Rightarrow> stream_event list \<times> concat_state" where
  "concat_event final (ChunkEvent chunk m) st = concat_chunk final chunk m st"
| "concat_event final (SourceEvent i source content) st =
     (case index_string source (source_indices st) of
        (j, new, indices) \<Rightarrow>
          (if new then [SourceEvent j source content] else [],
           st\<lparr>source_indices := indices,
              source_index_map := linear_insert 0 i j (source_index_map st)\<rparr>))"
| "concat_event final (NameEvent i name) st =
     (case index_string name (name_indices st) of
        (j, new, indices) \<Rightarrow>
          (if new then [NameEvent j name] else [],
           st\<lparr>name_indices := indices, name_index_map := linear_insert 0 i j (name_index_map st)\<rparr>))"

fun concat_events ::
    "bool \<Rightarrow> stream_event list \<Rightarrow> concat_state \<Rightarrow> stream_event list \<times> concat_state" where
  "concat_events final [] st = ([], st)"
| "concat_events final (e # es) st =
     (let (out, st) = concat_event final e st; (more, st) = concat_events final es st in (out @ more, st))"

definition concat_child :: "bool \<Rightarrow> stream \<Rightarrow> concat_state \<Rightarrow> stream_event list \<times> concat_state" where
  "concat_child final child st =
     (let st = st\<lparr>source_index_map := [], name_index_map := [], last_mapping_line := 0\<rparr>;
          (events, info) = child;
          (out, st) = concat_events final events st;
          close = need_to_close st \<and> (info_line info \<noteq> 1 \<or> info_column info \<noteq> 0);
          out = out @ (if close then [close_event st] else []);
          need = (if close then False else need_to_close st);
          column = (if info_line info > 1 then info_column info
                    else current_column_offset st + info_column info)
      in (out, st\<lparr>current_column_offset := column,
                 need_to_close := need \<or> (final \<and> last_mapping_line st = info_line info),
                 current_line_offset := current_line_offset st + (info_line info - 1)\<rparr>))"

fun concat_children :: "bool \<Rightarrow> stream list \<Rightarrow> concat_state \<Rightarrow> stream_event list \<times> concat_state" where
  "concat_children final [] st = ([], st)"
| "concat_children final (c # cs) st =
     (let (out, st) = concat_child final c st; (more, st) = concat_children final cs st
      in (out @ more, st))"

definition stream_concat :: "bool \<Rightarrow> stream list \<Rightarrow> stream" where
  "stream_concat final children =
     (if length children = 1 then children ! 0
      else
        let (events, st) = concat_children final children concat_state_new
        in (events, \<lparr>info_line = current_line_offset st + 1, info_column = current_column_offset st\<rparr>))"

section \<open>The stream of a source\<close>

fun is_original_source :: "source \<Rightarrow> bool" where
  "is_original_source (OriginalSource v name) = True"
| "is_original_source _ = False"

function stream_of :: "(line_index \<Rightarrow> line_index) \<Rightarrow> map_options \<Rightarrow> source \<Rightarrow> stream option" where
  "stream_of scan options (RawStringSource s) =
     Some (stream_chunks_of_raw_source (text_span_new s) options)"
| "stream_of scan options (RawBufferSource b) =
     Some (stream_chunks_of_raw_source (text_span_new (from_utf8_lossy b)) options)"
| "stream_of scan options (OriginalSource v name) = Some (stream_original v name options)"
| "stream_of scan options (SourceMapSource v name smap) =
     Some (stream_chunks_of_source_map scan options (text_span_new v) smap)"
| "stream_of scan options (ConcatSource children optimized) =
     map_option (stream_concat (opt_final options))
       (those (map (stream_of scan options) (optimized_children children optimized)))"
| "stream_of scan options (ReplaceSource s rs) =
     Option.bind (stream_of scan \<lparr>opt_columns = opt_columns options, opt_final = False\<rparr> s)
       (\<lambda>inner. stream_replace scan (is_original_source s) inner rs)"
  by pat_completeness auto
termination
  by (relation "measure (\<lambda>(scan, options, s). depth s)")
    (auto simp: child_depths simp del: depth.simps(1))

text \<open>The source map of a source.\<close>

fun map_of_source ::
    "(line_index \<Rightarrow> line_index) \<Rightarrow> bool \<Rightarrow> source \<Rightarrow> source_map option option" where
  "map_of_source scan columns (RawStringSource s) = Some None"
| "map_of_source scan columns (RawBufferSource b) = Some None"
| "map_of_source scan columns (SourceMapSource v name smap) = Some (Some smap)"
| "map_of_source scan columns (ReplaceSource s []) = map_of_source scan columns s"
| "map_of_source scan columns s =
     map_option (\<lambda>(events, info). build_map columns events)
       (stream_of scan \<lparr>opt_columns = columns, opt_final = True\<rparr> s)"

end
