(* ===== verification/Sources_Splice.thy ===== *)
theory Sources_Splice
  imports Sources_Tree
begin

text \<open>
  What a replaced source spells: a reference that walks over the text byte by byte, whatever the pieces are in which the
  inner source hands it out.  The replacement list is sorted, and the size is that of the text when no replacement
  reaches beyond it.
\<close>

section \<open>The reference\<close>

definition raise_skip :: "replacement list \<Rightarrow> nat \<Rightarrow> nat" where
  "raise_skip rs skip = fold max (map repl_end rs) skip"

definition contents :: "replacement list \<Rightarrow> u8 list" where
  "contents rs = concat (map repl_content rs)"

text \<open>
  At each position the replacements that start there or before are written, then the byte, unless it is replaced; what
  is left is written behind the text.
\<close>

fun spliced :: "nat \<Rightarrow> nat \<Rightarrow> u8 list \<Rightarrow> replacement list \<Rightarrow> u8 list" where
  "spliced pos skip [] rs = contents rs"
| "spliced pos skip (b # bs) rs =
     (let due = takeWhile (\<lambda>r. repl_start r \<le> pos) rs;
          rest = dropWhile (\<lambda>r. repl_start r \<le> pos) rs;
          skip = raise_skip due skip
      in contents due @ (if pos < skip then [] else [b]) @ spliced (pos + 1) skip bs rest)"

lemma raise_skip_append: "raise_skip (xs @ ys) k = raise_skip ys (raise_skip xs k)"
  by (simp add: raise_skip_def)

lemma raise_skip_Cons: "raise_skip (r # rs) k = raise_skip rs (max (repl_end r) k)"
  by (simp add: raise_skip_def)

lemma contents_simps [simp]:
  "contents [] = []" "contents (r # rs) = repl_content r @ contents rs"
  "contents (xs @ ys) = contents xs @ contents ys"
  by (simp_all add: contents_def)

lemma splice_due:
  assumes "\<forall>r\<in>set due. repl_start r \<le> pos"
  shows "spliced pos k bs (due @ rest) = contents due @ spliced pos (raise_skip due k) bs rest"
proof (cases bs)
  case (Cons b bs)
  have "takeWhile (\<lambda>r. repl_start r \<le> pos) (due @ rest) = due @ takeWhile (\<lambda>r. repl_start r \<le> pos) rest"
    "dropWhile (\<lambda>r. repl_start r \<le> pos) (due @ rest) = dropWhile (\<lambda>r. repl_start r \<le> pos) rest"
    using assms by simp_all
  then show ?thesis by (simp add: Cons raise_skip_append Let_def)
qed simp

lemma splice_due_one:
  "repl_start r \<le> pos \<Longrightarrow>
     spliced pos k bs (r # rs) = repl_content r @ spliced pos (max (repl_end r) k) bs rs"
  using splice_due [of "[r]" pos k bs rs] by (simp add: raise_skip_Cons raise_skip_def)

text \<open>Bytes that are replaced can be dropped before the replacements that start in them are written.\<close>

lemma raise_skip_ge: "k \<le> raise_skip rs k"
  unfolding raise_skip_def by (rule fold_max_ge)

lemma splice_skip:
  "pos + length xs \<le> k \<Longrightarrow> spliced pos k (xs @ ys) rs = spliced (pos + length xs) k ys rs"
proof (induction xs arbitrary: pos k rs)
  case (Cons x xs)
  let ?due = "takeWhile (\<lambda>r. repl_start r \<le> pos) rs"
  let ?rest = "dropWhile (\<lambda>r. repl_start r \<le> pos) rs"
  have k: "k \<le> raise_skip ?due k" by (rule raise_skip_ge)
  have "spliced pos k ((x # xs) @ ys) rs =
      contents ?due @ spliced (pos + 1) (raise_skip ?due k) (xs @ ys) ?rest"
    using Cons.prems k by (simp add: Let_def)
  also have "\<dots> = contents ?due @ spliced (pos + length (x # xs)) (raise_skip ?due k) ys ?rest"
    using Cons.IH [of "pos + 1" "raise_skip ?due k" ?rest] Cons.prems k by simp
  also have "\<dots> = spliced (pos + length (x # xs)) k ys (?due @ ?rest)"
    by (rule splice_due [symmetric]) (auto dest: set_takeWhileD)
  finally show ?case by simp
qed simp

lemma splice_keep:
  "k \<le> pos \<Longrightarrow> (case rs of [] \<Rightarrow> True | r # _ \<Rightarrow> pos + length xs \<le> repl_start r) \<Longrightarrow>
     spliced pos k (xs @ ys) rs = xs @ spliced (pos + length xs) k ys rs"
proof (induction xs arbitrary: pos)
  case (Cons x xs)
  then have "takeWhile (\<lambda>r. repl_start r \<le> pos) rs = []" "dropWhile (\<lambda>r. repl_start r \<le> pos) rs = rs"
    by (auto split: list.splits)
  then show ?case
    using Cons.IH [of "pos + 1"] Cons.prems by (simp add: raise_skip_def split: list.splits)
qed simp

section \<open>The chunks spell the reference\<close>

definition skip_of :: "nat option \<Rightarrow> nat" where
  "skip_of e = (case e of Some e \<Rightarrow> e | None \<Rightarrow> 0)"

lemma skip_of_max: "skip_of (Some (max_end e j)) = max j (skip_of e)"
  by (auto simp: skip_of_def max_end_def split: option.splits)

text \<open>One replacement of the loop: the text before it, its content, and where the loop goes on.\<close>

lemma rope_loop_step:
  assumes "repl_start r < end_pos"
  obtains b where "concat b = take (repl_start r - pos) (drop chunk_pos chunk)"
    "rope_loop chunk end_pos chunk_pos pos e (r # rs) =
      (let n = repl_start r - pos; e' = max_end e (repl_end r);
           offset = int (length chunk) - int end_pos + int e' - int (chunk_pos + n)
       in if offset > 0 then
            if e' \<ge> end_pos
            then (b @ [repl_content r], \<lparr>rope_pos = end_pos, rope_end = Some e', rope_left = rs\<rparr>)
            else let (more, st) = rope_loop chunk end_pos (chunk_pos + n + nat offset) (pos + n + nat offset) (Some e') rs
                 in (b @ [repl_content r] @ more, st)
          else let (more, st) = rope_loop chunk end_pos (chunk_pos + n) (pos + n) (Some e') rs
               in (b @ [repl_content r] @ more, st))"
proof
  define b where "b = (if repl_start r > pos then [take (repl_start r - pos) (drop chunk_pos chunk)] else [])"
  show "concat b = take (repl_start r - pos) (drop chunk_pos chunk)" by (simp add: b_def)
  have t: "(if repl_start r > pos
       then ([slice_bytes chunk chunk_pos (chunk_pos + (repl_start r - pos))],
             chunk_pos + (repl_start r - pos), repl_start r)
       else ([], chunk_pos, pos)) = (b, chunk_pos + (repl_start r - pos), pos + (repl_start r - pos))"
    by (auto simp: b_def slice_bytes_def)
  show "rope_loop chunk end_pos chunk_pos pos e (r # rs) =
      (let n = repl_start r - pos; e' = max_end e (repl_end r);
           offset = int (length chunk) - int end_pos + int e' - int (chunk_pos + n)
       in if offset > 0 then
            if e' \<ge> end_pos
            then (b @ [repl_content r], \<lparr>rope_pos = end_pos, rope_end = Some e', rope_left = rs\<rparr>)
            else let (more, st) = rope_loop chunk end_pos (chunk_pos + n + nat offset) (pos + n + nat offset) (Some e') rs
                 in (b @ [repl_content r] @ more, st)
          else let (more, st) = rope_loop chunk end_pos (chunk_pos + n) (pos + n) (Some e') rs
               in (b @ [repl_content r] @ more, st))"
    unfolding rope_loop.simps if_P [OF assms] t Let_def prod.case by (rule refl)
qed

lemma rope_loop_spells:
  assumes "pos + (length chunk - chunk_pos) = end_pos" "chunk_pos \<le> length chunk" "skip_of e \<le> pos"
    "rope_loop chunk end_pos chunk_pos pos e rs = (out, st)"
  shows "spliced pos (skip_of e) (drop chunk_pos chunk @ ys) rs =
      concat out @ spliced end_pos (skip_of (rope_end st)) ys (rope_left st)
    \<and> rope_pos st = end_pos"
  using assms
proof (induction rs arbitrary: chunk_pos pos e out st)
  case Nil
  then show ?case
    using splice_keep [where k = "skip_of e" and pos = pos and rs = "[]" and xs = "drop chunk_pos chunk" and ys = ys] by (auto split: if_splits)
next
  case (Cons r rs)
  show ?case
  proof (cases "repl_start r < end_pos")
    case False
    with Cons.prems show ?thesis
      using splice_keep [where k = "skip_of e" and pos = pos and rs = "r # rs"
          and xs = "drop chunk_pos chunk" and ys = ys] by (auto split: if_splits)
  next
    case True
    define n where "n = repl_start r - pos"
    define pos1 where "pos1 = pos + n"
    define cp1 where "cp1 = chunk_pos + n"
    define before where "before = take n (drop chunk_pos chunk)"
    have n: "cp1 \<le> length chunk" "pos1 + (length chunk - cp1) = end_pos" "repl_start r \<le> pos1"
      "length before = n"
      using Cons.prems(1-3) True by (auto simp: n_def pos1_def cp1_def before_def)
    have d: "drop chunk_pos chunk = before @ drop cp1 chunk"
      using append_take_drop_id [of n "drop chunk_pos chunk"] by (simp add: before_def cp1_def add.commute)
    let ?e = "Some (max_end e (repl_end r))"
    have "spliced pos (skip_of e) (before @ drop cp1 chunk @ ys) (r # rs)
        = before @ spliced pos1 (skip_of e) (drop cp1 chunk @ ys) (r # rs)"
      using splice_keep [where k = "skip_of e" and pos = pos and rs = "r # rs" and xs = before
          and ys = "drop cp1 chunk @ ys"] Cons.prems(3) n True
      by (cases "n = 0") (auto simp: pos1_def n_def)
    then have first: "spliced pos (skip_of e) (drop chunk_pos chunk @ ys) (r # rs) =
        before @ repl_content r @ spliced pos1 (skip_of ?e) (drop cp1 chunk @ ys) rs"
      using n d by (simp add: splice_due_one skip_of_max)
    define e' where "e' = max_end e (repl_end r)"
    define offset where "offset = int (length chunk) - int end_pos + int e' - int cp1"
    have o: "offset = int e' - int pos1" using n by (simp add: offset_def)
    obtain b where b: "concat b = before" and code: "rope_loop chunk end_pos chunk_pos pos e (r # rs) =
        (if offset > 0 then
           if e' \<ge> end_pos
           then (b @ [repl_content r], \<lparr>rope_pos = end_pos, rope_end = Some e', rope_left = rs\<rparr>)
           else let (more, st) = rope_loop chunk end_pos (cp1 + nat offset) (pos1 + nat offset) (Some e') rs
                in (b @ [repl_content r] @ more, st)
         else let (more, st) = rope_loop chunk end_pos cp1 pos1 (Some e') rs
              in (b @ [repl_content r] @ more, st))"
      by (rule rope_loop_step [OF True, where pos = pos and chunk_pos = chunk_pos and chunk = chunk and e = e and rs = rs])
        (rule that; simp only: before_def cp1_def pos1_def e'_def n_def offset_def Let_def)
    show ?thesis
    proof (cases "offset > 0")
      case pos: True
      show ?thesis
      proof (cases "e' \<ge> end_pos")
        case True
        then have "spliced pos1 e' (drop cp1 chunk @ ys) rs = spliced end_pos e' ys rs"
          using n splice_skip [of pos1 "drop cp1 chunk" e' ys rs] by simp
        with True pos first Cons.prems(4) b show ?thesis unfolding code
          by (auto simp: skip_of_def e'_def)
      next
        case False
        let ?cp = "cp1 + nat offset" and ?pos = "pos1 + nat offset"
        obtain more st' where m: "rope_loop chunk end_pos ?cp ?pos (Some e') rs = (more, st')" by force
        have e: "?pos = e'" "?cp \<le> length chunk" "?pos + (length chunk - ?cp) = end_pos"
          using o pos n False by auto
        have "drop cp1 chunk = take (nat offset) (drop cp1 chunk) @ drop ?cp chunk"
          by (metis append_take_drop_id drop_drop add.commute)
        then have "spliced pos1 e' (drop cp1 chunk @ ys) rs = spliced e' e' (drop ?cp chunk @ ys) rs"
          using splice_skip [of pos1 "take (nat offset) (drop cp1 chunk)" e' "drop ?cp chunk @ ys" rs] e
          by (simp del: append_take_drop_id) (metis append.assoc)
        with Cons.IH [OF e(3,2) _ m] first e(1) Cons.prems(4) m False pos b show ?thesis
          unfolding code by (auto simp: skip_of_def e'_def)
      qed
    next
      case False
      obtain more st' where m: "rope_loop chunk end_pos cp1 pos1 (Some e') rs = (more, st')" by force
      have "e' \<le> pos1" using False o by simp
      with Cons.IH [OF n(2,1) _ m] first Cons.prems(4) m False b show ?thesis
        unfolding code by (auto simp: skip_of_def e'_def)
    qed
  qed
qed

lemma rope_chunk_spells:
  assumes "rope_chunk chunk st = (out, st')"
  shows "spliced (rope_pos st) (skip_of (rope_end st)) (chunk @ ys) (rope_left st) =
      concat out @ spliced (rope_pos st') (skip_of (rope_end st')) ys (rope_left st')"
    and "rope_pos st' = rope_pos st + length chunk"
proof -
  let ?pos = "rope_pos st" and ?stop = "rope_pos st + length chunk"
  have goal: "spliced ?pos (skip_of (rope_end st)) (chunk @ ys) (rope_left st) =
      concat out @ spliced (rope_pos st') (skip_of (rope_end st')) ys (rope_left st')
    \<and> rope_pos st' = ?stop"
  proof (cases "skip_of (rope_end st) > ?pos")
    case False
    then have "rope_loop chunk ?stop 0 ?pos (rope_end st) (rope_left st) = (out, st')"
      using assms by (auto simp: rope_chunk_def skip_of_def Let_def split: option.splits if_splits)
    from rope_loop_spells [OF _ _ _ this, of ys] False show ?thesis by simp
  next
    case True
    then obtain e where e: "rope_end st = Some e" "e > ?pos"
      by (auto simp: skip_of_def split: option.splits)
    show ?thesis
    proof (cases "e \<ge> ?stop")
      case True
      with e assms splice_skip [of ?pos chunk e ys "rope_left st"] show ?thesis
        by (auto simp: rope_chunk_def skip_of_def Let_def)
    next
      case False
      then have r: "rope_loop chunk ?stop (e - ?pos) e (Some e) (rope_left st) = (out, st')"
        using assms e by (simp add: rope_chunk_def Let_def)
      have "take (e - ?pos) chunk @ drop (e - ?pos) chunk @ ys = chunk @ ys"
        by (metis append_take_drop_id append.assoc)
      moreover have "spliced ?pos e (take (e - ?pos) chunk @ drop (e - ?pos) chunk @ ys) (rope_left st)
          = spliced e e (drop (e - ?pos) chunk @ ys) (rope_left st)"
        using splice_skip [of ?pos "take (e - ?pos) chunk" e "drop (e - ?pos) chunk @ ys" "rope_left st"]
          False e by simp
      ultimately have "spliced ?pos e (chunk @ ys) (rope_left st)
          = spliced e e (drop (e - ?pos) chunk @ ys) (rope_left st)"
        by (simp only:)
      with rope_loop_spells [OF _ _ _ r, of ys] e False show ?thesis by (simp add: skip_of_def)
    qed
  qed
  then show "spliced (rope_pos st) (skip_of (rope_end st)) (chunk @ ys) (rope_left st) =
      concat out @ spliced (rope_pos st') (skip_of (rope_end st')) ys (rope_left st')"
    "rope_pos st' = rope_pos st + length chunk" by auto
qed

lemma rope_chunks_spells:
  "rope_chunks cs st = (out, st') \<Longrightarrow>
     spliced (rope_pos st) (skip_of (rope_end st)) (concat cs) (rope_left st) =
       concat out @ contents (rope_left st')"
proof (induction cs arbitrary: st out st')
  case (Cons c cs)
  obtain o1 s1 where c: "rope_chunk c st = (o1, s1)" by force
  obtain o2 s2 where m: "rope_chunks cs s1 = (o2, s2)" by force
  from Cons.prems c m have "out = o1 @ o2" "st' = s2" by auto
  with rope_chunk_spells(1) [OF c, of "concat cs"] Cons.IH [OF m] show ?case by simp
qed simp

lemma replace_rope_spells: "concat (replace_rope inner rs) = spliced 0 0 (concat inner) rs"
proof (cases "rs = []")
  case True
  then show ?thesis
    using splice_keep [where k = 0 and pos = 0 and rs = "[]" and xs = "concat inner" and ys = "[]"]
    by (simp add: replace_rope_def)
next
  case False
  obtain out st' where r: "rope_chunks inner \<lparr>rope_pos = 0, rope_end = None, rope_left = rs\<rparr> = (out, st')"
    by force
  from rope_chunks_spells [OF r] False r show ?thesis
    by (simp add: replace_rope_def skip_of_def contents_def)
qed

section \<open>The list of replacements\<close>

definition replacements_sorted :: "replacement list \<Rightarrow> bool" where
  "replacements_sorted rs \<longleftrightarrow> sorted_wrt (\<lambda>a b. cmp_replacement a b \<noteq> Greater) rs"

lemma search_place_sorted:
  assumes "replacements_sorted rs"
  shows "replacements_sorted (take (search_place r rs) rs @ r # drop (search_place r rs) rs)"
proof -
  let ?P = "\<lambda>other. cmp_replacement other r = Less"
  have s: "replacements_sorted (takeWhile ?P rs @ dropWhile ?P rs)" using assms by simp
  have a: "cmp_replacement x r = Less" if "x \<in> set (takeWhile ?P rs)" for x
    using that by (auto dest: set_takeWhileD)
  have b: "cmp_replacement r y \<noteq> Greater" if "y \<in> set (dropWhile ?P rs)" for y
  proof (cases "dropWhile ?P rs")
    case (Cons z zs)
    then have z: "cmp_replacement z r \<noteq> Less" using hd_dropWhile [of ?P rs] by auto
    then have rz: "cmp_replacement r z \<noteq> Greater"
      using replacement_order.flip_simps(1) [of z r] replacement_order.flip_simps(1) [of r z] by auto
    moreover have "cmp_replacement z y \<noteq> Greater"
      using s that Cons replacement_order.cmp_refl [of z]
      by (auto simp: replacements_sorted_def sorted_wrt_append)
    ultimately show ?thesis by (rule replacement_order.cmp_trans)
  next
    case Nil
    with that show ?thesis by (simp only: list.set empty_iff)
  qed
  define A B where "A = takeWhile ?P rs" and "B = dropWhile ?P rs"
  have AB: "take (search_place r rs) rs = A" "drop (search_place r rs) rs = B"
    by (simp_all add: search_place_def A_def B_def flip: takeWhile_eq_take dropWhile_eq_drop)
  have "sorted_wrt (\<lambda>a b. cmp_replacement a b \<noteq> Greater) (A @ B)"
    using s unfolding replacements_sorted_def A_def B_def .
  moreover have "\<forall>x\<in>set A. cmp_replacement x r \<noteq> Greater" using a by (simp add: A_def)
  moreover have "\<forall>y\<in>set B. cmp_replacement r y \<noteq> Greater" using b unfolding B_def by blast
  ultimately show ?thesis
    unfolding AB replacements_sorted_def by (simp add: sorted_wrt_append)
qed

lemma add_replacement_sorted:
  assumes "replacements_sorted rs"
  shows "replacements_sorted (add_replacement r rs)" "mset (add_replacement r rs) = add_mset r (mset rs)"
proof -
  show "replacements_sorted (add_replacement r rs)"
  proof (cases "rs = [] \<or> cmp_replacement r (last rs) = Less")
    case True
    with search_place_sorted [OF assms, of r] show ?thesis
      by (auto simp: add_replacement_def vec_insert_def replacements_sorted_def)
  next
    case False
    have "cmp_replacement x r \<noteq> Greater" if "x \<in> set rs" for x
    proof -
      have "cmp_replacement x (last rs) \<noteq> Greater"
        using that assms replacement_order.cmp_refl [of x] False
        by (cases rs rule: rev_cases) (auto simp: replacements_sorted_def sorted_wrt_append)
      moreover have "cmp_replacement (last rs) r \<noteq> Greater"
        using False replacement_order.flip_simps(1) [of r "last rs"] replacement_order.flip_simps(1) [of "last rs" r]
        by auto
      ultimately show ?thesis by (rule replacement_order.cmp_trans)
    qed
    with False assms show ?thesis
      by (cases "cmp_replacement r (last rs)")
        (auto simp: add_replacement_def replacements_sorted_def sorted_wrt_append)
  qed
  have "mset (take n rs) + mset (drop n rs) = mset rs" for n
    by (metis append_take_drop_id mset_append)
  then show "mset (add_replacement r rs) = add_mset r (mset rs)"
    by (simp add: add_replacement_def vec_insert_def)
qed

section \<open>The size\<close>

lemma spliced_gap:
  "(case rs of [] \<Rightarrow> True | r # _ \<Rightarrow> pos + length xs \<le> repl_start r) \<Longrightarrow>
     length (spliced pos k (xs @ ys) rs) =
       (pos + length xs - max pos k) + length (spliced (pos + length xs) k ys rs)"
proof (induction xs arbitrary: pos)
  case (Cons x xs)
  then have "takeWhile (\<lambda>r. repl_start r \<le> pos) rs = []" "dropWhile (\<lambda>r. repl_start r \<le> pos) rs = rs"
    by (auto split: list.splits)
  moreover have "pos + length (x # xs) - max pos k =
      (if pos < k then 0 else 1) + (pos + 1 + length xs - max (pos + 1) k)" by auto
  ultimately show ?case
    using Cons.IH [of "pos + 1"] Cons.prems by (simp add: raise_skip_def split: list.splits)
qed simp

definition starts_sorted :: "nat \<Rightarrow> replacement list \<Rightarrow> bool" where
  "starts_sorted pos rs \<longleftrightarrow> sorted_wrt (\<le>) (pos # map repl_start rs)"

lemma starts_sorted_Cons:
  "starts_sorted pos (r # rs) \<longleftrightarrow> pos \<le> repl_start r \<and> starts_sorted (repl_start r) rs"
  by (auto simp: starts_sorted_def)

lemma starts_sorted_hd:
  "starts_sorted pos rs \<Longrightarrow> n \<le> pos \<Longrightarrow> (case rs of [] \<Rightarrow> True | r # _ \<Rightarrow> n \<le> repl_start r)"
  by (auto simp: starts_sorted_def split: list.splits)

lemma spliced_behind:
  "starts_sorted n rs \<Longrightarrow> pos + length bs \<le> n \<Longrightarrow>
     length (spliced pos k bs rs) = (pos + length bs - max pos k) + length (contents rs)"
  using spliced_gap [where rs = rs and pos = pos and xs = bs and k = k and ys = "[]"] starts_sorted_hd [of n rs "pos + length bs"] by simp

lemma size_loop_behind:
  "starts_sorted n rs \<Longrightarrow> N \<le> n \<Longrightarrow> size_loop N k acc rs = acc + length (contents rs)"
proof (induction rs arbitrary: n acc)
  case (Cons r rs)
  then have "starts_sorted (repl_start r) rs" "N \<le> repl_start r"
    by (auto simp: starts_sorted_Cons)
  with Cons.IH [of "repl_start r"] show ?case by simp
qed simp

lemma size_loop_exact:
  assumes "starts_sorted pos rs" "pos \<le> N" "k \<le> N" "\<forall>r\<in>set rs. repl_end r \<le> N" "length bs = N - pos"
  shows "size_loop N k (x + (N - max pos k)) rs = x + length (spliced pos k bs rs)"
  using assms
proof (induction rs arbitrary: pos k bs x)
  case Nil
  then show ?case using spliced_behind [of N "[]" pos bs k] by (simp add: starts_sorted_def)
next
  case (Cons r rs)
  show ?case
  proof (cases "repl_start r \<ge> N")
    case True
    from True Cons.prems have s: "starts_sorted N (r # rs)" by (simp add: starts_sorted_Cons)
    have "length (spliced pos k bs (r # rs)) = (N - max pos k) + length (contents (r # rs))"
      using spliced_behind [OF s, of pos bs k] Cons.prems by simp
    moreover have "size_loop N k (x + (N - max pos k)) (r # rs)
        = x + (N - max pos k) + length (contents (r # rs))"
      by (rule size_loop_behind [OF s]) simp
    ultimately show ?thesis by simp
  next
    case False
    let ?s = "repl_start r" and ?k = "max (repl_end r) k"
    have s: "pos \<le> ?s" "starts_sorted ?s rs" using Cons.prems by (auto simp: starts_sorted_Cons)
    define xs ys where "xs = take (?s - pos) bs" and "ys = drop (?s - pos) bs"
    have bs: "bs = xs @ ys" "length xs = ?s - pos" "length ys = N - ?s"
      using Cons.prems False s by (auto simp: xs_def ys_def)
    have "length (spliced pos k bs (r # rs)) =
        (?s - max pos k) + length (spliced ?s k ys (r # rs))"
      using spliced_gap [where rs = "r # rs" and pos = pos and xs = xs and k = k and ys = ys] s bs by simp
    also have "length (spliced ?s k ys (r # rs)) = length (repl_content r) + length (spliced ?s ?k ys rs)"
      by (simp add: splice_due_one)
    finally have l: "length (spliced pos k bs (r # rs)) =
        (?s - max pos k) + length (repl_content r) + length (spliced ?s ?k ys rs)" by simp
    have "x + (N - max pos k) - (repl_end r - max ?s k) + length (repl_content r)
        = x + (?s - max pos k) + length (repl_content r) + (N - max ?s ?k)"
      using Cons.prems False s by (auto simp: max_def)
    then have "size_loop N k (x + (N - max pos k)) (r # rs) =
        size_loop N ?k (x + (?s - max pos k) + length (repl_content r) + (N - max ?s ?k)) rs"
      using False by (simp add: Let_def ac_simps)
    also have "\<dots> = x + (?s - max pos k) + length (repl_content r) + length (spliced ?s ?k ys rs)"
      using Cons.IH [OF s(2), of ?k ys "x + (?s - max pos k) + length (repl_content r)"]
        Cons.prems False bs by simp
    finally show ?thesis using l by simp
  qed
qed

lemma replacements_sorted_starts: "replacements_sorted rs \<Longrightarrow> starts_sorted 0 rs"
proof -
  assume "replacements_sorted rs"
  then have "sorted_wrt (\<lambda>a b. repl_start a \<le> repl_start b) rs"
    unfolding replacements_sorted_def
    by (rule sorted_wrt_mono_rel [rotated]) (auto simp: cmp_replacement_def)
  then show ?thesis by (simp add: starts_sorted_def sorted_wrt_map)
qed

function sized :: "source \<Rightarrow> bool" where
  "sized (RawStringSource s) = True"
| "sized (RawBufferSource b) = (from_utf8_lossy b = b)"
| "sized (OriginalSource v name) = True"
| "sized (SourceMapSource v name smap) = True"
| "sized (ConcatSource children optimized) = list_all sized (optimized_children children optimized)"
| "sized (ReplaceSource s rs) =
     (sized s \<and> replacements_sorted rs \<and> (\<forall>r\<in>set rs. repl_end r \<le> size_of s))"
  by pat_completeness auto
termination
  by (relation "measure depth") (auto simp: child_depths list_all_iff simp del: depth.simps(1))

lemma replace_size_exact:
  assumes "replacements_sorted rs" "\<forall>r\<in>set rs. repl_end r \<le> length (concat inner)"
  shows "replace_size (length (concat inner)) rs = length (concat (replace_rope inner rs))"
proof (cases "rs = []")
  case False
  with size_loop_exact [OF replacements_sorted_starts [OF assms(1)] _ _ assms(2), of 0 "concat inner" 0]
  show ?thesis by (simp add: replace_size_def replace_rope_spells)
qed (simp add: replace_size_def replace_rope_def)

lemma ropes_length:
  "length (concat (concat (map rope cs))) = sum_list (map (length \<circ> concat \<circ> rope) cs)"
  by (induction cs) simp_all

lemma size_of_exact: "sized s \<Longrightarrow> size_of s = length (concat (rope s))"
proof (induction s rule: sized.induct)
  case (5 children optimized)
  let ?cs = "optimized_children children optimized"
  have "map size_of ?cs = map (length \<circ> concat \<circ> rope) ?cs"
    using 5 by (auto simp: list_all_iff)
  then show ?case unfolding size_of.simps rope.simps ropes_length by (rule arg_cong)
next
  case (6 s rs)
  then show ?case using replace_size_exact [of rs "rope s"] by simp
qed simp_all

text \<open>
  C36. Editing a replaced source.  Whatever calls of \<open>replace_with_enforce\<close> made it, the replacements are those of the
  calls, numbered in their order, and sorted; and the text, which the code puts together piece by piece of the inner
  source with offsets into the current one, is the reference's: the inner text walked byte by byte, each content written
  at its start and the bytes up to the furthest end left out, overlapping and out-of-range replacements included.
\<close>

definition replace_calls ::
    "(nat \<times> nat \<times> u8 list \<times> u8 list option \<times> replacement_enforce) list \<Rightarrow> replacement list" where
  "replace_calls calls = fold (\<lambda>(i, j, content, name, enforce). replace_with_enforce i j content name enforce) calls []"

definition call_of :: "replacement \<Rightarrow> nat \<times> nat \<times> u8 list \<times> u8 list option \<times> replacement_enforce" where
  "call_of r = (repl_start r, repl_end r, repl_content r, repl_name r, repl_enforce r)"

lemma replace_calls_list:
  "replacements_sorted (replace_calls calls)
   \<and> mset (map (\<lambda>r. (insertion_order r, call_of r)) (replace_calls calls)) = mset (enumerate 0 calls)"
proof (induction calls rule: rev_induct)
  case (snoc c calls)
  let ?rs = "replace_calls calls"
  obtain i j content name enforce where c: "c = (i, j, content, name, enforce)" by (cases c)
  let ?r = "\<lparr>repl_start = i, repl_end = j, repl_content = content, repl_name = name,
       repl_enforce = enforce, insertion_order = length ?rs\<rparr>"
  have rs: "replace_calls (calls @ [c]) = add_replacement ?r ?rs"
    by (simp add: replace_calls_def c replace_with_enforce_def)
  have "size (mset (map (\<lambda>r. (insertion_order r, call_of r)) ?rs)) = length calls"
    using snoc by simp
  then have "length ?rs = length calls" by simp
  with snoc add_replacement_sorted [of ?rs ?r] show ?case
    by (simp add: rs [unfolded c] call_of_def c enumerate_append_eq)
qed (simp add: replace_calls_def replacements_sorted_def)

theorem replaced_text_correct:
  "replacements_sorted (replace_calls calls)
   \<and> mset (map (\<lambda>r. (insertion_order r, call_of r)) (replace_calls calls)) = mset (enumerate 0 calls)
   \<and> concat (rope (ReplaceSource s (replace_calls calls))) = spliced 0 0 (concat (rope s)) (replace_calls calls)"
  using replace_calls_list [of calls] by (simp add: replace_rope_spells)

text \<open>
  C37. The size of a source.  The code computes it without building the text: a replaced source subtracts from the inner
  size what the replacements cover and adds their contents.  In a tree where no replacement reaches beyond the text it
  changes and every binary content is valid UTF-8, this is the number of bytes of the text.
\<close>

theorem size_correct: "sized s \<Longrightarrow> size_of s = length (concat (rope s))"
  by (rule size_of_exact)

definition sample_source :: source where
  "sample_source =
     ConcatSource [RawStringSource (bytes ''one''), RawStringSource (bytes ''two''),
       ReplaceSource (OriginalSource (bytes ''hello world'') (bytes ''a.js''))
         (replace_calls [(6, 11, bytes ''there'', None, Normal), (0, 5, bytes ''HI'', None, Normal),
                         (2, 8, [], None, Post)])] None"

lemma sample_source_sized: "sized sample_source"
  unfolding sample_source_def replacements_sorted_def by code_simp

theorem size_correct_witness:
  "size_of sample_source = length (concat (rope sample_source)) \<and> size_of sample_source = 13"
  using size_correct [OF sample_source_sized] by (simp add: sample_source_def) code_simp

text \<open>A replacement that reaches beyond the text makes the size too small.\<close>

lemma size_beyond_text:
  "let s = ReplaceSource (OriginalSource [0x61, 0x62] []) (replace_calls [(0, 0, [0x63], None, Normal), (0, 9, [0x64], None, Normal)])
   in size_of s = 1 \<and> concat (rope s) = [0x63, 0x64]"
  by code_simp

end
