(* ===== verification/Sources_Views.thy ===== *)
theory Sources_Views
  imports Sources_Splice
begin

text \<open>
  The views of a source agree: its text in pieces, its text as a whole, its bytes and what it writes; and a concatenation
  is the text of what was added, however adding and reading alternate.
\<close>

section \<open>Reading a source\<close>

abbreviation text_of :: "source \<Rightarrow> u8 list" where
  "text_of s \<equiv> concat (rope s)"

lemma texts_of: "concat (concat (map rope cs)) = concat (map text_of cs)"
  by (induction cs) simp_all

lemma text_of_concat: "text_of (ConcatSource children optimized) = concat (map text_of (optimized_children children optimized))"
  by (simp add: texts_of)

lemma source_of_text: "into_string_lossy (source_of s) = text_of s"
proof (induction s rule: source_of.induct)
  case (5 children optimized)
  let ?cs = "optimized_children children optimized"
  show ?case
  proof (cases "length ?cs = 1")
    case True
    then obtain c where c: "?cs = [c]" by (auto simp: length_Suc_conv)
    have "source_of (ConcatSource children optimized) = source_of (?cs ! 0)"
      "text_of (ConcatSource children optimized) = text_of (?cs ! 0)"
      by (simp_all add: c)
    with 5 [OF refl True] show ?thesis by simp
  qed simp
qed (simp_all add: replace_rope_def)

text \<open>Every binary content of the tree is UTF-8.\<close>

function all_utf8 :: "source \<Rightarrow> bool" where
  "all_utf8 (RawBufferSource b) = (from_utf8_lossy b = b)"
| "all_utf8 (ConcatSource children optimized) = list_all all_utf8 (optimized_children children optimized)"
| "all_utf8 (ReplaceSource s rs) = all_utf8 s"
| "all_utf8 (RawStringSource s) = True"
| "all_utf8 (OriginalSource v name) = True"
| "all_utf8 (SourceMapSource v name smap) = True"
  by pat_completeness auto
termination
  by (relation "measure depth") (auto simp: child_depths list_all_iff simp del: depth.simps(1))

lemma written_text: "all_utf8 s \<Longrightarrow> written_bytes s = text_of s"
proof (induction s rule: written_bytes.induct)
  case (5 children optimized)
  have "map written_bytes (optimized_children children optimized) = map text_of (optimized_children children optimized)"
    using 5 by (auto simp: list_all_iff)
  then show ?case unfolding written_bytes.simps text_of_concat by (rule arg_cong)
qed simp_all

lemma source_of_bytes: "all_utf8 s \<Longrightarrow> into_bytes (source_of s) = text_of s"
proof (induction s rule: source_of.induct)
  case (5 children optimized)
  let ?cs = "optimized_children children optimized"
  show ?case
  proof (cases "length ?cs = 1")
    case True
    then obtain c where c: "?cs = [c]" by (auto simp: length_Suc_conv)
    have "source_of (ConcatSource children optimized) = source_of (?cs ! 0)"
      "text_of (ConcatSource children optimized) = text_of (?cs ! 0)" "all_utf8 (?cs ! 0)"
      using "5.prems" by (simp_all add: c)
    with "5.IH" [OF refl True] show ?thesis by simp
  qed simp
qed (simp_all add: replace_rope_def)

lemma buffer_text: "all_utf8 s \<Longrightarrow> buffer_of s = text_of s"
proof (induction s rule: buffer_of.induct)
  case (5 children optimized)
  let ?cs = "optimized_children children optimized"
  show ?case
  proof (cases "length ?cs = 1")
    case True
    then obtain c where c: "?cs = [c]" by (auto simp: length_Suc_conv)
    have "buffer_of (ConcatSource children optimized) = buffer_of (?cs ! 0)"
      "text_of (ConcatSource children optimized) = text_of (?cs ! 0)" "all_utf8 (?cs ! 0)"
      using "5.prems" by (simp_all add: c)
    with "5.IH" [OF refl True] show ?thesis by simp
  next
    case False
    then have "buffer_of (ConcatSource children optimized) = written_bytes (ConcatSource children optimized)"
      by simp
    then show ?thesis using written_text [OF "5.prems"] by simp
  qed
next
  case (6 s rs)
  then show ?case using source_of_bytes [of "ReplaceSource s rs"] by simp
qed simp_all

section \<open>Adding to a concatenation\<close>

lemma merge_raw_text:
  assumes "list_all is_raw_string raws"
  shows "concat (map text_of (merge_raw_sources raws)) = concat (map text_of raws)"
    "sum_list (map size_of (merge_raw_sources raws)) = sum_list (map size_of raws)"
proof -
  have t: "text_of s = raw_string s \<and> size_of s = length (raw_string s)" if "is_raw_string s" for s
    using that by (cases s) simp_all
  have "concat (map raw_string raws) = concat (map text_of raws)"
    "length (concat (map raw_string raws)) = sum_list (map size_of raws)"
    using assms t by (induction raws) auto
  then show "concat (map text_of (merge_raw_sources raws)) = concat (map text_of raws)"
    "sum_list (map size_of (merge_raw_sources raws)) = sum_list (map size_of raws)"
    by (auto simp: merge_raw_sources_def)
qed

lemma optimize_loop_text:
  "list_all is_raw_string raws \<Longrightarrow>
     concat (map text_of (optimize_loop raws cs)) = concat (map text_of raws) @ concat (map text_of cs)
     \<and> sum_list (map size_of (optimize_loop raws cs)) = sum_list (map size_of raws) + sum_list (map size_of cs)"
  by (induction raws cs rule: optimize_loop.induct) (auto simp: merge_raw_text)

lemma optimized_text:
  "concat (map text_of (optimized_children children optimized)) =
     concat (map text_of (case optimized of Some cs \<Rightarrow> cs | None \<Rightarrow> children))"
  "sum_list (map size_of (optimized_children children optimized)) =
     sum_list (map size_of (case optimized of Some cs \<Rightarrow> cs | None \<Rightarrow> children))"
  by (auto simp: optimized_children_def optimize_def optimize_loop_text split: option.splits)

fun is_concat :: "source \<Rightarrow> bool" where
  "is_concat (ConcatSource children optimized) = True"
| "is_concat _ = False"

lemma concat_add_text:
  assumes "is_concat t"
  shows "is_concat (concat_add t s)" "text_of (concat_add t s) = text_of t @ text_of s"
    "size_of (concat_add t s) = size_of t + size_of s"
proof -
  obtain children optimized where t: "t = ConcatSource children optimized" using assms by (cases t) auto
  let ?cs = "case optimized of Some cs \<Rightarrow> cs | None \<Rightarrow> children"
  define added where "added = (case s of ConcatSource others other_optimized \<Rightarrow>
      (case other_optimized of Some cs \<Rightarrow> cs | None \<Rightarrow> others) | _ \<Rightarrow> [s])"
  have add: "concat_add t s = ConcatSource (?cs @ added) None"
    by (cases s) (simp_all add: t added_def Let_def)
  have "concat (map text_of added) = text_of s" "sum_list (map size_of added) = size_of s"
    using optimized_text by (cases s; simp add: added_def texts_of)+
  then show "is_concat (concat_add t s)" "text_of (concat_add t s) = text_of t @ text_of s"
    "size_of (concat_add t s) = size_of t + size_of s"
    using optimized_text [of "?cs @ added" None] optimized_text [of children optimized]
    unfolding add by (simp_all add: t texts_of)
qed

lemma concat_read_text:
  "is_concat t \<Longrightarrow> is_concat (concat_read t) \<and> text_of (concat_read t) = text_of t \<and> size_of (concat_read t) = size_of t"
  by (cases t rule: concat_read.cases) (auto simp: optimized_children_def)

text \<open>What a program may do with a concatenation once it has one.\<close>

datatype concat_call = Add source | Read

fun concat_step :: "concat_call \<Rightarrow> source \<Rightarrow> source" where
  "concat_step (Add s) t = concat_add t s"
| "concat_step Read t = concat_read t"

definition added_sources :: "concat_call list \<Rightarrow> source list" where
  "added_sources calls = concat (map (\<lambda>c. case c of Add s \<Rightarrow> [s] | Read \<Rightarrow> []) calls)"

lemma concat_steps_text:
  "is_concat t \<Longrightarrow> text_of (fold concat_step calls t) = text_of t @ concat (map text_of (added_sources calls))
     \<and> size_of (fold concat_step calls t) = size_of t + sum_list (map size_of (added_sources calls))"
proof (induction calls arbitrary: t)
  case (Cons c calls)
  show ?case
  proof (cases c)
    case (Add s)
    with Cons.IH [OF concat_add_text(1) [OF Cons.prems, of s]] concat_add_text [OF Cons.prems, of s]
    show ?thesis by (simp add: added_sources_def)
  next
    case Read
    with Cons.IH [of "concat_read t"] concat_read_text [OF Cons.prems] show ?thesis
      by (simp add: added_sources_def)
  qed
qed (simp add: added_sources_def)

text \<open>
  C40. A concatenation.  However additions and reads alternate, with concatenations among what is added, the text is that
  of the added sources in their order, and the size is the sum of their sizes: reading merges raw strings and later
  additions continue with the merged children.
\<close>

theorem concatenation_correct:
  "text_of (fold concat_step calls (concat_new sources)) =
     concat (map text_of sources) @ concat (map text_of (added_sources calls))
   \<and> size_of (fold concat_step calls (concat_new sources)) =
     sum_list (map size_of sources) + sum_list (map size_of (added_sources calls))"
proof -
  let ?empty = "ConcatSource [] None" and ?calls = "map Add sources @ calls"
  have "(\<lambda>s. concat_step (Add s)) = (\<lambda>s t. concat_add t s)" by (intro ext) simp
  then have "concat_new sources = fold concat_step (map Add sources) ?empty"
    by (simp add: concat_new_def fold_map comp_def)
  moreover have "added_sources ?calls = sources @ added_sources calls"
    by (induction sources) (simp_all add: added_sources_def)
  moreover have "text_of ?empty = []" "size_of ?empty = 0"
    by (simp_all add: optimized_children_def optimize_def)
  ultimately show ?thesis using concat_steps_text [of ?empty ?calls] by simp
qed

text \<open>
  C39. The views of a source.  What \<open>source\<close> returns, read as a string, is the text of the rope; and where binary contents
  are UTF-8, \<open>buffer\<close>, \<open>to_writer\<close> and the bytes of \<open>source\<close> are its bytes.
\<close>

theorem views_agree:
  "into_string_lossy (source_of s) = text_of s
   \<and> (all_utf8 s \<longrightarrow> into_bytes (source_of s) = text_of s \<and> buffer_of s = text_of s \<and> written_bytes s = text_of s)"
  using source_of_text source_of_bytes buffer_text written_text by simp

definition sample_views :: source where
  "sample_views = ConcatSource [RawBufferSource [0xC3, 0xA9], sample_source] None"

theorem views_agree_witness:
  "all_utf8 sample_views \<and> buffer_of sample_views = text_of sample_views \<and> text_of sample_views \<noteq> []"
proof -
  have "all_utf8 sample_views" "text_of sample_views \<noteq> []"
    unfolding sample_views_def sample_source_def by code_simp+
  with views_agree [of sample_views] show ?thesis by simp
qed

text \<open>With other bytes they differ: a replaced source without replacements returns them as they are and writes them as text.\<close>

lemma invalid_views_differ:
  "let s = ReplaceSource (RawBufferSource [0xFF]) [] in buffer_of s = [0xFF] \<and> written_bytes s = [0xEF, 0xBF, 0xBD]"
  by code_simp

end
