(* ===== verification/Sources_Spell.thy ===== *)
theory Sources_Spell
  imports Sources_Splice
begin

text \<open>
  The chunks of a stream spell the text of its source, and streaming does not panic when the replacements cut at
  character boundaries.
\<close>

section \<open>The text of a stream\<close>

fun event_text :: "stream_event \<Rightarrow> u8 list" where
  "event_text (ChunkEvent (Some s) m) = span_text s"
| "event_text _ = []"

definition stream_text :: "stream_event list \<Rightarrow> u8 list" where
  "stream_text evs = concat (map event_text evs)"

text \<open>A chunk with a text that does not start inside a character.\<close>

definition starts_char :: "u8 list \<Rightarrow> bool" where
  "starts_char t \<longleftrightarrow> t = [] \<or> \<not> is_continuation (hd t)"

fun sound_chunk :: "stream_event \<Rightarrow> bool" where
  "sound_chunk (ChunkEvent c m) = (case c of Some s \<Rightarrow> starts_char (span_text s) | None \<Rightarrow> False)"
| "sound_chunk _ = True"

definition spells :: "stream_event list \<Rightarrow> u8 list \<Rightarrow> bool" where
  "spells evs t \<longleftrightarrow> list_all sound_chunk evs \<and> stream_text evs = t"

lemma spells_Nil: "spells [] []"
  by (simp add: spells_def stream_text_def)

lemma spells_append: "spells as s \<Longrightarrow> spells bs t \<Longrightarrow> spells (as @ bs) (s @ t)"
  by (simp add: spells_def stream_text_def)

lemma spells_Chunk: "starts_char (span_text s) \<Longrightarrow> spells evs t \<Longrightarrow> spells (ChunkEvent (Some s) m # evs) (span_text s @ t)"
  by (simp add: spells_def stream_text_def)

lemma spells_silent:
  "spells evs t \<Longrightarrow> spells (SourceEvent i source content # evs) t"
  "spells evs t \<Longrightarrow> spells (NameEvent i name # evs) t"
  by (simp_all add: spells_def stream_text_def)

lemma span_text_subspan [simp]: "span_text (subspan s t) = t"
  by (simp add: subspan_def)

lemma spells_chunk: "starts_char t \<Longrightarrow> spells [ChunkEvent (Some (subspan s t)) m] t"
  using spells_Chunk [OF _ spells_Nil, of "subspan s t" m] by simp

lemma starts_char_Nil [simp]: "starts_char []"
  by (simp add: starts_char_def)

lemma str_ok_starts: "str_ok t \<Longrightarrow> starts_char t"
  using byte_facts(1) by (subst (asm) str_ok.simps) (auto simp: starts_char_def split: if_splits)

lemma lines_start: "str_ok s \<Longrightarrow> list_all starts_char (split_into_lines s)"
  by (auto simp: list_all_iff intro: str_ok_starts str_ok_line)

section \<open>Tokens\<close>

lemma str_ok_after_ascii:
  assumes "str_ok (p @ b # q)" "b < 0x80"
  shows "str_ok q"
proof -
  have "\<not> is_continuation b" using assms(2) by (simp add: is_continuation_iff not_le)
  then have "str_ok (b # q)" using str_ok_split [OF assms(1), of p "b # q"] by simp
  moreover have "char_width b = 1" using byte_facts(6) [of b] assms(2) by simp
  ultimately show ?thesis by (subst (asm) str_ok.simps) simp
qed

lemma token_tail_ascii:
  "0 < token_tail bs \<Longrightarrow> bs ! (token_tail bs - 1) < 0x80"
proof (induction bs)
  case (Cons b bs)
  show ?case
  proof (cases "b \<in> {0x3B, 0x20, 0x7B, 0x7D, 0x0D, 0x09} \<and> 0 < token_tail bs")
    case True
    with Cons.IH show ?thesis by (auto simp: nth_Cons')
  next
    case False
    with Cons.prems show ?thesis by (auto split: if_splits)
  qed
qed simp

lemma token_rest:
  assumes "str_ok s" "s \<noteq> []"
  shows "str_ok (drop (token_end s) s)"
proof -
  have "token_end s = length s \<or> (\<exists>b. token_end s = b + token_tail (drop b s) \<and> b < length s
      \<and> s ! b \<in> {0x0A, 0x3B, 0x7B, 0x7D})"
    by (auto simp: token_end_def Let_def split: option.splits dest!: memchr_any_Some)
  then show ?thesis
  proof (elim disjE exE conjE)
    fix b assume b: "token_end s = b + token_tail (drop b s)" "b < length s" "s ! b \<in> {0x0A, 0x3B, 0x7B, 0x7D}"
    have pos: "0 < token_tail (drop b s)"
      using b token_tail_pos [of "drop b s"] by (auto simp: hd_drop_conv_nth)
    define i where "i = token_end s - 1"
    have i: "i < length s" "token_end s = Suc i"
      using pos b token_end_bounds [OF assms(2)] by (auto simp: i_def)
    have "s ! i < 0x80"
      using token_tail_ascii [OF pos] b pos token_tail_le [of "drop b s"] by (simp add: i_def)
    with assms(1) i id_take_nth_drop [OF i(1)] show ?thesis
      by (metis str_ok_after_ascii)
  qed simp
qed

lemma concat_tokens: "concat (split_into_potential_tokens s) = s"
proof (induction s rule: split_into_potential_tokens.induct)
  case (1 s)
  then show ?case by (subst split_into_potential_tokens.simps) auto
qed

lemma tokens_start: "str_ok s \<Longrightarrow> list_all starts_char (split_into_potential_tokens s)"
proof (induction s rule: split_into_potential_tokens.induct)
  case (1 s)
  show ?case
  proof (cases "s = []")
    case False
    have "starts_char (take (token_end s) s)"
      using str_ok_starts [OF 1(2)] token_end_bounds(1) [OF False] by (auto simp: starts_char_def hd_take)
    with False 1(1) token_rest [OF 1(2)] show ?thesis
      by (subst split_into_potential_tokens.simps) simp
  qed (simp add: split_into_potential_tokens.simps)
qed

section \<open>Leaves\<close>

lemma raw_lines_spell: "list_all starts_char ls \<Longrightarrow> spells (raw_lines source line ls) (concat ls)"
proof (induction ls arbitrary: line)
  case (Cons l ls)
  then show ?case using spells_append [OF spells_chunk] by fastforce
qed (simp add: spells_Nil)

lemma original_lines_spell: "list_all starts_char ls \<Longrightarrow> spells (original_lines source line ls) (concat ls)"
proof (induction ls arbitrary: line)
  case (Cons l ls)
  then show ?case using spells_append [OF spells_chunk] by fastforce
qed (simp add: spells_Nil)

lemma remaining_lines_spell: "list_all starts_char ls \<Longrightarrow> spells (remaining_lines source line ls) (concat ls)"
proof (induction ls arbitrary: line)
  case (Cons l ls)
  then show ?case using spells_append [OF spells_chunk] by fastforce
qed (simp add: spells_Nil)

lemma original_tokens_spell:
  "list_all starts_char ts \<Longrightarrow> spells (fst (original_tokens source False line column ts)) (concat ts)"
proof (induction ts arbitrary: line column)
  case (Cons t ts)
  have "\<exists>m l c. fst (original_tokens source False line column (t # ts)) =
      ChunkEvent (Some (subspan source t)) m # fst (original_tokens source False l c ts)"
    by (simp add: Let_def split_beta) blast
  with Cons spells_append [OF spells_chunk] show ?case by fastforce
qed (simp add: spells_Nil)

lemma raw_spells:
  "str_ok t \<Longrightarrow> \<not> opt_final options \<Longrightarrow>
     spells (fst (stream_chunks_of_raw_source (text_span_new t) options)) t"
  using raw_lines_spell [OF lines_start, of t "text_span_new t" 1]
  by (simp add: stream_chunks_of_raw_source_def Let_def text_span_new_def concat_lines)

lemma original_spells:
  "str_ok t \<Longrightarrow> \<not> opt_final options \<Longrightarrow> spells (fst (stream_original t name options)) t"
  using original_tokens_spell [OF tokens_start, of t "text_span_new t" 1 0]
    original_lines_spell [OF lines_start, of t "text_span_new t" 1]
  by (auto simp: stream_original_def Let_def concat_lines concat_tokens intro!: spells_silent split: prod.splits)

section \<open>Replacements\<close>

text \<open>The replacements cut the text at character boundaries, and their contents are texts.\<close>

definition cut :: "u8 list \<Rightarrow> nat \<Rightarrow> bool" where
  "cut t p \<longleftrightarrow> length t \<le> p \<or> is_char_boundary t p"

definition cuts :: "u8 list \<Rightarrow> replacement list \<Rightarrow> bool" where
  "cuts t rs \<longleftrightarrow> list_all (\<lambda>r. cut t (repl_start r) \<and> cut t (repl_end r) \<and> str_ok (repl_content r)) rs"

definition end_cut :: "u8 list \<Rightarrow> nat option \<Rightarrow> bool" where
  "end_cut t e \<longleftrightarrow> (case e of Some e \<Rightarrow> cut t e | None \<Rightarrow> True)"

lemma cut_in_chunk:
  assumes "cut (pre @ c @ post) p" "length pre \<le> p" "p \<le> length pre + length c"
  shows "is_char_boundary c (p - length pre)"
proof (cases "p = length pre + length c")
  case False
  with assms show ?thesis
    by (auto simp: cut_def is_char_boundary_def nth_append split: if_splits)
qed (simp add: is_char_boundary_def)

lemma starts_slice: "is_char_boundary c i \<Longrightarrow> starts_char (slice_bytes c i j)"
  by (auto simp: starts_char_def slice_bytes_def is_char_boundary_def hd_take hd_drop_conv_nth)

lemma boundary_0: "starts_char c \<Longrightarrow> is_char_boundary c 0"
  by (cases c) (auto simp: starts_char_def is_char_boundary_def)

lemma boundary_at_length: "is_char_boundary c (length c)"
  by (simp add: is_char_boundary_def)

definition rope_of :: "replace_state \<Rightarrow> rope_state" where
  "rope_of st = \<lparr>rope_pos = rp_pos st, rope_end = rp_end st, rope_left = rp_left st\<rparr>"

lemma rope_of_shift [simp]:
  "rp_pos (shift_columns l d st) = rp_pos st" "rp_end (shift_columns l d st) = rp_end st"
  "rp_left (shift_columns l d st) = rp_left st"
  by (simp_all add: shift_columns_def)

lemma rope_of_skip [simp]:
  "rp_end (skip_rest c u m st) = rp_end st" "rp_left (skip_rest c u m st) = rp_left st"
  by (simp_all add: skip_rest_def Let_def)

lemma content_lines_spell:
  assumes "list_all starts_char ls" "content_lines a m line name ls st = (evs, st')"
  shows "spells evs (concat ls) \<and> rope_of st' = rope_of st"
  using assms
proof (induction ls arbitrary: line name st evs st')
  case (Cons l ls)
  obtain line' st1 where s: "(if \<not> ends_with_newline l
             then (line, shift_columns line (int (span_utf16_len (text_span_with_ascii l a))) st)
             else (line + 1, st\<lparr>line_offset := line_offset st + 1,
                      column_offset := - uint (generated_column m), column_offset_line := line + 1\<rparr>)) = (line', st1)"
    by force
  obtain more st2 where c: "content_lines a m line' None ls st1 = (more, st2)" by force
  have "rope_of st1 = rope_of st" using s by (auto simp: rope_of_def split: if_splits)
  moreover have "spells more (concat ls) \<and> rope_of st2 = rope_of st1"
    using Cons.IH [OF _ c] Cons.prems by simp
  moreover have "\<exists>m'. evs = ChunkEvent (Some (text_span_with_ascii l a)) m' # more \<and> st' = st2"
    using Cons.prems(2) unfolding content_lines.simps Let_def s prod.case c by blast
  ultimately show ?case
    using Cons.prems spells_Chunk [of "text_span_with_ascii l a" more "concat ls"]
    by (auto simp: text_span_with_ascii_def)
qed (simp add: spells_Nil)

lemma emit_content_spells:
  assumes "str_ok (repl_content r)" "emit_content r m st = (evs, st')"
  shows "spells evs (repl_content r) \<and> rope_of st' = rope_of st"
proof -
  obtain name events st1 where n: "(case (original m, repl_name r) of
               (Some _, Some name) \<Rightarrow>
                 (case index_string name (rp_names st) of
                    (i, new, names) \<Rightarrow>
                      (Some i, if new then [NameEvent i name] else [], st\<lparr>rp_names := names\<rparr>))
             | _ \<Rightarrow> (Option.bind (original m) name_index, [], st)) = (name, events, st1)"
    by (rule prod_cases3)
  then have st1: "rope_of st1 = rope_of st" "spells events []"
    by (cases "original m"; cases "repl_name r"; auto simp: rope_of_def spells_silent spells_Nil split: prod.splits if_splits)+
  obtain more st2 where c: "content_lines (str_is_ascii (repl_content r)) m (out_line m st1) name
      (split_into_lines (repl_content r)) st1 = (more, st2)" by force
  have "evs = events @ more" "st' = st2"
    using assms(2) n c
    by (cases "original m"; cases "repl_name r"; auto simp: emit_content_def Let_def split: prod.splits)+
  moreover have "spells more (repl_content r) \<and> rope_of st2 = rope_of st1"
    using content_lines_spell [OF lines_start [OF assms(1)] c] by (simp add: concat_lines)
  ultimately show ?thesis using st1 spells_append [OF st1(2)] by fastforce
qed

lemma emit_before_spells:
  assumes "is_char_boundary (span_text chunk) chunk_pos" "n = start - rp_pos st"
    "is_char_boundary (span_text chunk) (chunk_pos + n)"
  shows "\<exists>evs m'. emit_before scan io chunk start chunk_pos m st =
      Some (evs, chunk_pos + n, m', st\<lparr>rp_pos := rp_pos st + n\<rparr>)
    \<and> spells evs (take n (drop chunk_pos (span_text chunk)))"
proof (cases "start > rp_pos st")
  case True
  with assms have "span_slice chunk chunk_pos (chunk_pos + n)
      = Some (subspan chunk (slice_bytes (span_text chunk) chunk_pos (chunk_pos + n)))"
    by (simp add: span_slice_def str_slice_def)
  moreover have "slice_bytes (span_text chunk) chunk_pos (chunk_pos + n) = take n (drop chunk_pos (span_text chunk))"
    by (simp add: slice_bytes_def)
  ultimately show ?thesis
    using True assms spells_chunk [OF starts_slice [OF assms(1), where j = "chunk_pos + n"], where s = chunk]
    by (auto simp: emit_before_def Let_def)
qed (use assms in \<open>simp add: emit_before_def spells_Nil\<close>)

lemma emit_rest_spells:
  assumes "is_char_boundary (span_text chunk) chunk_pos"
  shows "\<exists>evs. emit_rest io chunk end_pos chunk_pos m st = Some (evs, st\<lparr>rp_pos := end_pos\<rparr>)
    \<and> spells evs (drop chunk_pos (span_text chunk))"
proof (cases "chunk_pos < span_len chunk")
  case True
  with assms have part: "span_slice_from chunk chunk_pos = Some (subspan chunk (drop chunk_pos (span_text chunk)))"
    by (simp add: span_slice_from_def str_slice_def span_len_def boundary_at_length slice_bytes_def)
  have "starts_char (drop chunk_pos (span_text chunk))"
    using starts_slice [OF assms, of "length (span_text chunk)"] by (simp add: slice_bytes_def)
  with True part show ?thesis
    using spells_Chunk [OF _ spells_Nil, of chunk] spells_chunk
    by (cases "chunk_pos = 0") (auto simp: emit_rest_def Let_def)
qed (auto simp: emit_rest_def span_len_def spells_Nil)

lemma max_end_cut: "end_cut t e \<Longrightarrow> cut t j \<Longrightarrow> cut t (max_end e j)"
  by (auto simp: end_cut_def max_end_def max_def split: option.splits)

lemma skip_slice:
  assumes "is_char_boundary c i" "span_text chunk = c"
  shows "\<exists>rest. (if span_ends_with chunk 0x0A then Some (text_span_new []) else span_slice_from chunk i) = Some rest"
  using assms by (auto simp: span_slice_from_def str_slice_def span_len_def boundary_at_length is_char_boundary_def)

lemma replace_loop_spells:
  assumes "rp_pos st = length pre + chunk_pos" "chunk_pos \<le> length c" "is_char_boundary c chunk_pos"
    "cuts (pre @ c @ post) rs" "end_cut (pre @ c @ post) (rp_end st)"
    "span_text chunk = c" "end_pos = length pre + length c"
    "rope_loop c end_pos chunk_pos (rp_pos st) (rp_end st) rs = (out, rst)"
  shows "\<exists>evs st'. replace_loop scan io chunk end_pos chunk_pos m rs st = Some (evs, st')
    \<and> spells evs (concat out) \<and> rope_of st' = rst"
  using assms
proof (induction rs arbitrary: st chunk_pos m out rst)
  case Nil
  show ?case
    using emit_rest_spells [of chunk chunk_pos io end_pos m "st\<lparr>rp_left := []\<rparr>"] Nil.prems
    by (auto simp: replace_loop.simps rope_of_def split: if_splits)
next
  case (Cons r rs)
  let ?t = "pre @ c @ post"
  have rcut: "cut ?t (repl_start r)" "cut ?t (repl_end r)" "str_ok (repl_content r)" "cuts ?t rs"
    using Cons.prems(4) by (auto simp: cuts_def)
  show ?case
  proof (cases "repl_start r < end_pos")
    case False
    with emit_rest_spells [of chunk chunk_pos io end_pos m "st\<lparr>rp_left := r # rs\<rparr>"] Cons.prems
    show ?thesis by (auto simp: replace_loop.simps rope_of_def split: if_splits)
  next
    case True
    define n where "n = repl_start r - rp_pos st"
    define cp where "cp = chunk_pos + n"
    have cp: "cp \<le> length c" "rp_pos st + n = length pre + cp"
      using True Cons.prems(1,2,7) by (auto simp: n_def cp_def)
    have bcp: "is_char_boundary c cp"
    proof (cases "repl_start r > rp_pos st")
      case True
      then have "cp = repl_start r - length pre" using Cons.prems(1) by (simp add: n_def cp_def)
      with cut_in_chunk [OF rcut(1)] True \<open>repl_start r < end_pos\<close> Cons.prems(1,7) show ?thesis by simp
    qed (use Cons.prems(3) in \<open>simp add: cp_def n_def\<close>)
    obtain before m1 where b: "emit_before scan io chunk (repl_start r) chunk_pos m st =
        Some (before, cp, m1, st\<lparr>rp_pos := rp_pos st + n\<rparr>)"
      "spells before (take n (drop chunk_pos c))"
      using emit_before_spells [of chunk chunk_pos n "repl_start r" st scan io m] Cons.prems(3,6) bcp
      by (auto simp: n_def cp_def)
    obtain content st1 where e: "emit_content r m1 (st\<lparr>rp_pos := rp_pos st + n\<rparr>) = (content, st1)" by force
    have st1: "spells content (repl_content r)" "rp_pos st1 = rp_pos st + n" "rp_end st1 = rp_end st"
      using emit_content_spells [OF rcut(3) e] by (auto simp: rope_of_def)
    define e' where "e' = max_end (rp_end st) (repl_end r)"
    define st2 where "st2 = st1\<lparr>rp_end := Some e', rp_left := rs\<rparr>"
    define offset where "offset = int (length c) - int end_pos + int e' - int cp"
    have st2: "rp_pos st2 = length pre + cp" "rp_end st2 = Some e'" "rp_left st2 = rs"
      using st1 cp by (simp_all add: st2_def)
    have e'_cut: "cut ?t e'" using max_end_cut [OF Cons.prems(5) rcut(2)] by (simp add: e'_def)
    have spell: "spells (before @ content) (take n (drop chunk_pos c) @ repl_content r)"
      using spells_append [OF b(2) st1(1)] .
    obtain bs where bs: "concat bs = take n (drop chunk_pos c)" and
      rope: "rope_loop c end_pos chunk_pos (rp_pos st) (rp_end st) (r # rs) =
       (if offset > 0 then
            if e' \<ge> end_pos
            then (bs @ [repl_content r], \<lparr>rope_pos = end_pos, rope_end = Some e', rope_left = rs\<rparr>)
            else let (more, st) = rope_loop c end_pos (cp + nat offset) (rp_pos st + n + nat offset) (Some e') rs
                 in (bs @ [repl_content r] @ more, st)
          else let (more, st) = rope_loop c end_pos cp (rp_pos st + n) (Some e') rs
               in (bs @ [repl_content r] @ more, st))"
      by (rule rope_loop_step [OF True, where pos = "rp_pos st" and chunk_pos = chunk_pos and chunk = c
            and e = "rp_end st" and rs = rs])
        (rule that; simp only: cp_def e'_def n_def offset_def Let_def)
    have code: "replace_loop scan io chunk end_pos chunk_pos m (r # rs) st =
       (if offset > 0 then
                 if e' \<ge> end_pos then do {
                   rest \<leftarrow> (if span_ends_with chunk 0x0A then Some (text_span_new [])
                           else span_slice_from chunk cp);
                   Some (before @ content, (skip_rest chunk (span_utf16_len rest) m1 st2)\<lparr>rp_pos := end_pos\<rparr>)
                 }
                 else do {
                   part \<leftarrow> span_slice chunk cp (cp + nat offset);
                   let line = out_line m1 st2;
                   let m = advance_original scan io st2 (span_text part) (nat offset) m1;
                   let units = span_utf16_len part;
                   let st = shift_columns line (- int units) (st2\<lparr>rp_pos := rp_pos st2 + nat offset\<rparr>);
                   let m = m\<lparr>generated_column := generated_column m + of_nat units\<rparr>;
                   (more, st) \<leftarrow> replace_loop scan io chunk end_pos (cp + nat offset) m rs st;
                   Some (before @ content @ more, st)
                 }
               else do {
                 (more, st) \<leftarrow> replace_loop scan io chunk end_pos cp m1 rs st2;
                 Some (before @ content @ more, st)
               })"
      by (subst replace_loop.simps) (simp add: True b(1) e st1(3) st2_def e'_def offset_def span_len_def Let_def Cons.prems(6))
    show ?thesis
    proof (cases "offset > 0")
      case False
      obtain more st' where more: "rope_loop c end_pos cp (rp_pos st + n) (Some e') rs = (more, st')" by force
      have "rope_loop c end_pos cp (rp_pos st2) (rp_end st2) rs = (more, st')"
        using more st2 cp by simp
      from Cons.IH [OF st2(1) cp(1) bcp rcut(4) _ Cons.prems(6,7) this, of m1] st2 e'_cut obtain evs st''
        where "replace_loop scan io chunk end_pos cp m1 rs st2 = Some (evs, st'')"
          "spells evs (concat more)" "rope_of st'' = st'" by (auto simp: end_cut_def)
      moreover have "out = bs @ [repl_content r] @ more" "rst = st'"
        using Cons.prems(8) False more unfolding rope by auto
      ultimately show ?thesis
        using spells_append [OF spell] False unfolding code by (auto simp: bs)
    next
      case o: True
      show ?thesis
      proof (cases "e' \<ge> end_pos")
        case True
        obtain rest where "(if span_ends_with chunk 0x0A then Some (text_span_new [])
            else span_slice_from chunk cp) = Some rest"
          using skip_slice [OF bcp Cons.prems(6)] by blast
        moreover have "out = bs @ [repl_content r]"
          "rst = \<lparr>rope_pos = end_pos, rope_end = Some e', rope_left = rs\<rparr>"
          using Cons.prems(8) o True unfolding rope by auto
        ultimately show ?thesis
          using spell o True st2 unfolding code by (auto simp: bs rope_of_def)
      next
        case False
        let ?cp = "cp + nat offset"
        have o': "?cp = e' - length pre" "length pre + ?cp = e'" "?cp \<le> length c"
          using o False Cons.prems(7) cp by (auto simp: offset_def)
        have b': "is_char_boundary c ?cp"
          using cut_in_chunk [OF e'_cut] o' False Cons.prems(7) by simp
        define part where "part = subspan chunk (slice_bytes c cp ?cp)"
        have part: "span_slice chunk cp ?cp = Some part"
          using bcp b' by (simp add: span_slice_def str_slice_def Cons.prems(6) part_def)
        define m2 where "m2 = (advance_original scan io st2 (span_text part) (nat offset) m1)
            \<lparr>generated_column := generated_column (advance_original scan io st2 (span_text part) (nat offset) m1)
              + of_nat (span_utf16_len part)\<rparr>"
        define st3 where "st3 = shift_columns (out_line m1 st2) (- int (span_utf16_len part))
            (st2\<lparr>rp_pos := rp_pos st2 + nat offset\<rparr>)"
        have st3: "rp_pos st3 = length pre + ?cp" "rp_end st3 = Some e'"
          using st2 by (simp_all add: st3_def)
        obtain more st' where more: "rope_loop c end_pos ?cp (rp_pos st + n + nat offset) (Some e') rs = (more, st')" by force
        then have "rope_loop c end_pos ?cp (rp_pos st3) (rp_end st3) rs = (more, st')"
          using st3 cp by (simp add: add.assoc)
        from Cons.IH [OF st3(1) o'(3) b' rcut(4) _ Cons.prems(6,7) this, of m2] st3 e'_cut obtain evs st''
          where "replace_loop scan io chunk end_pos ?cp m2 rs st3 = Some (evs, st'')"
            "spells evs (concat more)" "rope_of st'' = st'" by (auto simp: end_cut_def)
        moreover have "out = bs @ [repl_content r] @ more" "rst = st'"
          using Cons.prems(8) o False more unfolding rope by auto
        moreover have "replace_loop scan io chunk end_pos chunk_pos m (r # rs) st =
          Option.bind (replace_loop scan io chunk end_pos ?cp m2 rs st3)
            (\<lambda>(more, st). Some (before @ content @ more, st))"
          unfolding code m2_def st3_def using o False part by (simp add: Let_def)
        ultimately show ?thesis
          using spells_append [OF spell] by (auto simp: bs)
      qed
    qed
  qed
qed

lemma replace_chunk_spells:
  assumes "rp_pos st = length pre" "starts_char c" "span_text chunk = c"
    "cuts (pre @ c @ post) (rp_left st)" "end_cut (pre @ c @ post) (rp_end st)"
    "rope_chunk c (rope_of st) = (out, rst)"
  shows "\<exists>evs st'. replace_chunk scan io chunk m st = Some (evs, st') \<and> spells evs (concat out) \<and> rope_of st' = rst"
proof -
  let ?stop = "length pre + length c"
  have len: "span_len chunk = length c" using assms(3) by (simp add: span_len_def)
  show ?thesis
  proof (cases "\<exists>e. rp_end st = Some e \<and> e > rp_pos st")
    case False
    then have code: "replace_chunk scan io chunk m st = replace_loop scan io chunk ?stop 0 m (rp_left st) st"
      using assms(1) len by (auto simp: replace_chunk_def Let_def split: option.splits)
    have "rope_loop c ?stop 0 (rp_pos st) (rp_end st) (rp_left st) = (out, rst)"
      using False assms(1,6) by (auto simp: rope_chunk_def rope_of_def Let_def split: option.splits)
    from replace_loop_spells [OF _ _ boundary_0 [OF assms(2)] assms(4,5,3) refl this] assms(1)
    show ?thesis unfolding code by simp
  next
    case True
    then obtain e where e: "rp_end st = Some e" "e > length pre" using assms(1) by auto
    show ?thesis
    proof (cases "e \<ge> ?stop")
      case True
      with e assms(1,6) len have "out = []"
        "replace_chunk scan io chunk m st = Some ([], (skip_rest chunk (span_utf16_len chunk) m st)\<lparr>rp_pos := ?stop\<rparr>)"
        "rst = (rope_of st)\<lparr>rope_pos := ?stop\<rparr>"
        by (auto simp: replace_chunk_def rope_chunk_def rope_of_def Let_def)
      then show ?thesis by (simp add: spells_Nil) (simp add: rope_of_def)
    next
      case False
      let ?cp = "e - length pre"
      have b: "is_char_boundary c ?cp"
        using cut_in_chunk [of pre c post e] assms(5) e False by (simp add: end_cut_def)
      obtain part where part: "span_slice_to chunk ?cp = Some part"
        using b boundary_0 [OF assms(2)] assms(3) by (auto simp: span_slice_to_def str_slice_def)
      define m' where "m' = (advance_original scan io st (span_text part) ?cp m)
          \<lparr>generated_column := generated_column (advance_original scan io st (span_text part) ?cp m)
            + of_nat (span_utf16_len part)\<rparr>"
      define st' where "st' = shift_columns (out_line m st) (- int (span_utf16_len part)) (st\<lparr>rp_pos := e\<rparr>)"
      have o: "out_line (advance_original scan io st (span_text part) ?cp m) (x :: replace_state) = out_line m x" for x
        by (auto simp: out_line_def advance_original_def split: option.splits)
      have code: "replace_chunk scan io chunk m st = replace_loop scan io chunk ?stop ?cp m' (rp_left st) st'"
        using e False len part assms(1) by (simp add: replace_chunk_def Let_def m'_def st'_def o)
      have st': "rp_pos st' = length pre + ?cp" "rp_end st' = Some e" "rp_left st' = rp_left st"
        using e by (simp_all add: st'_def)
      have "rope_loop c ?stop ?cp (rp_pos st') (rp_end st') (rp_left st) = (out, rst)"
        using e False assms(1,6) st' by (simp add: rope_chunk_def rope_of_def Let_def)
      from replace_loop_spells [OF st'(1) _ b assms(4) _ assms(3) refl this] assms(5) e False st'
      show ?thesis unfolding code by (simp add: end_cut_def)
    qed
  qed
qed

lemma rope_loop_keeps:
  assumes "rope_loop c end_pos cp pos e rs = (out, st)" "cuts t rs" "end_cut t e"
  shows "cuts t (rope_left st) \<and> end_cut t (rope_end st)"
  using assms
proof (induction rs arbitrary: cp pos e out st)
  case (Cons r rs)
  show ?case
  proof (cases "repl_start r < end_pos")
    case True
    have e: "end_cut t (Some (max_end e (repl_end r)))" "cuts t rs"
      using Cons.prems max_end_cut [of t e "repl_end r"] by (auto simp: cuts_def end_cut_def)
    obtain b where step: "rope_loop c end_pos cp pos e (r # rs) =
      (let n = repl_start r - pos; e' = max_end e (repl_end r);
           offset = int (length c) - int end_pos + int e' - int (cp + n)
       in if offset > 0 then
            if e' \<ge> end_pos
            then (b @ [repl_content r], \<lparr>rope_pos = end_pos, rope_end = Some e', rope_left = rs\<rparr>)
            else let (more, st) = rope_loop c end_pos (cp + n + nat offset) (pos + n + nat offset) (Some e') rs
                 in (b @ [repl_content r] @ more, st)
          else let (more, st) = rope_loop c end_pos (cp + n) (pos + n) (Some e') rs
               in (b @ [repl_content r] @ more, st))"
      by (rule rope_loop_step [OF True]) (rule that)
    show ?thesis
      using Cons.prems(1) Cons.IH [OF _ e(2,1)] e unfolding step
      by (auto simp: Let_def split: if_splits prod.splits)
  qed (use Cons.prems in auto)
qed auto

lemma rope_chunk_keeps:
  assumes "rope_chunk c st = (out, st')" "cuts t (rope_left st)" "end_cut t (rope_end st)"
  shows "cuts t (rope_left st') \<and> end_cut t (rope_end st')"
  using assms rope_loop_keeps [OF _ assms(2,3)]
  by (auto simp: rope_chunk_def Let_def split: option.splits if_splits)

fun pieces :: "stream_event list \<Rightarrow> u8 list list" where
  "pieces [] = []"
| "pieces (ChunkEvent (Some s) m # es) = span_text s # pieces es"
| "pieces (e # es) = pieces es"

lemma concat_pieces: "concat (pieces evs) = stream_text evs"
  by (induction evs rule: pieces.induct) (auto simp: stream_text_def)

lemma replace_events_spell:
  assumes "list_all sound_chunk evs" "rp_pos st = length pre" "cuts (pre @ stream_text evs) (rp_left st)"
    "end_cut (pre @ stream_text evs) (rp_end st)" "rope_chunks (pieces evs) (rope_of st) = (out, rst)"
  shows "\<exists>more st'. replace_events scan io evs st = Some (more, st') \<and> spells more (concat out) \<and> rope_of st' = rst
    \<and> cuts (pre @ stream_text evs) (rope_left rst)"
  using assms
proof (induction evs arbitrary: st pre out rst)
  case Nil
  then show ?case by (auto simp: spells_Nil rope_of_def)
next
  case (Cons ev evs)
  show ?case
  proof (cases ev)
    case (ChunkEvent c m)
    then obtain s where c: "c = Some s" "starts_char (span_text s)"
      using Cons.prems(1) by (auto split: option.splits)
    have t: "pre @ stream_text (ev # evs) = pre @ span_text s @ stream_text evs"
      by (simp add: ChunkEvent c stream_text_def)
    obtain o1 r1 where r1: "rope_chunk (span_text s) (rope_of st) = (o1, r1)" by force
    obtain o2 where r2: "rope_chunks (pieces evs) r1 = (o2, rst)" "out = o1 @ o2"
      using Cons.prems(5) r1 by (auto simp: ChunkEvent c split: prod.splits)
    obtain e1 s1 where s1: "replace_chunk scan io s m st = Some (e1, s1)" "spells e1 (concat o1)" "rope_of s1 = r1"
      using replace_chunk_spells [OF Cons.prems(2) c(2) refl Cons.prems(3,4) [unfolded t] r1] by blast
    have k: "cuts ((pre @ span_text s) @ stream_text evs) (rp_left s1)" "end_cut ((pre @ span_text s) @ stream_text evs) (rp_end s1)"
      using rope_chunk_keeps [OF r1, of "(pre @ span_text s) @ stream_text evs"] Cons.prems(3,4) t s1(3)
      by (auto simp: rope_of_def)
    have p: "rp_pos s1 = length (pre @ span_text s)"
      using rope_chunk_spells(2) [OF r1] s1(3) Cons.prems(2) by (auto simp: rope_of_def)
    from Cons.IH [OF _ p k, unfolded s1(3), OF _ r2(1)] Cons.prems(1) obtain e2 s2 where
      "replace_events scan io evs s1 = Some (e2, s2)" "spells e2 (concat o2)" "rope_of s2 = rst"
      "cuts ((pre @ span_text s) @ stream_text evs) (rope_left rst)" by auto
    with s1 spells_append [OF s1(2)] t r2(2) show ?thesis
      by (auto simp: ChunkEvent c)
  next
    case (SourceEvent i source content)
    have "pre @ stream_text (ev # evs) = pre @ stream_text evs" by (simp add: SourceEvent stream_text_def)
    moreover define s1 where "s1 = (if io then st else st\<lparr>rp_contents := linear_insert None i content (rp_contents st)\<rparr>)"
    moreover have "rope_of s1 = rope_of st" "rp_pos s1 = rp_pos st" "rp_left s1 = rp_left st" "rp_end s1 = rp_end st"
      by (auto simp: s1_def rope_of_def)
    ultimately show ?thesis
      using Cons.IH [of s1 pre out rst] Cons.prems
      by (auto simp: SourceEvent intro: spells_silent)
  next
    case (NameEvent i name)
    obtain j new names where n: "index_string name (rp_names st) = (j, new, names)" by (rule prod_cases3)
    have "pre @ stream_text (ev # evs) = pre @ stream_text evs" by (simp add: NameEvent stream_text_def)
    moreover define s1 where "s1 = st\<lparr>rp_names := names, rp_name_index := linear_insert 0 i j (rp_name_index st)\<rparr>"
    moreover have "rope_of s1 = rope_of st" "rp_pos s1 = rp_pos st" "rp_left s1 = rp_left st" "rp_end s1 = rp_end st"
      by (auto simp: s1_def rope_of_def)
    ultimately show ?thesis
      using Cons.IH [of s1 pre out rst] Cons.prems n
      by (auto simp: NameEvent intro: spells_silent)
  qed
qed

lemma trailing_lines_spell:
  assumes "list_all starts_char ls" "trailing_lines a column line ls st = (evs, line', st')"
  shows "spells evs (concat ls)"
  using assms
proof (induction ls arbitrary: line st evs line' st')
  case (Cons l ls)
  have "\<exists>m line1 st1 more. evs = ChunkEvent (Some (text_span_with_ascii l a)) m # more
      \<and> trailing_lines a column line1 ls st1 = (more, line', st')"
    using Cons.prems(2) by (auto simp: Let_def split: prod.splits if_splits)
  with Cons.IH Cons.prems(1) show ?case
    using spells_Chunk [of "text_span_with_ascii l a" _ "concat ls"] by (auto simp: text_span_with_ascii_def)
qed (simp add: spells_Nil)

lemma trailing_spell:
  assumes "cuts t rs" "trailing_replacements column line rs st = (evs, line', st')"
  shows "spells evs (contents rs)"
  using assms
proof (induction rs arbitrary: line st evs line' st')
  case (Cons r rs)
  obtain e1 l1 s1 where t: "trailing_lines (str_is_ascii (repl_content r)) column line
      (split_into_lines (repl_content r)) st = (e1, l1, s1)" by (rule prod_cases3)
  obtain e2 where m: "trailing_replacements column l1 rs s1 = (e2, line', st')" "evs = e1 @ e2"
    using Cons.prems(2) t by (auto split: prod.splits)
  have "spells e1 (repl_content r)"
    using trailing_lines_spell [OF lines_start t] Cons.prems(1) by (simp add: cuts_def concat_lines)
  from spells_append [OF this Cons.IH [OF _ m(1)]] Cons.prems(1) m(2) show ?case by (simp add: cuts_def)
qed (simp add: spells_Nil)

lemma stream_replace_spells:
  assumes "spells evs t" "cuts t rs"
  shows "\<exists>out info'. stream_replace scan io (evs, info) rs = Some (out, info') \<and> spells out (spliced 0 0 t rs)"
proof -
  have t: "stream_text evs = t" "list_all sound_chunk evs" using assms(1) by (auto simp: spells_def)
  obtain ro rst where r: "rope_chunks (pieces evs) (rope_of (replace_state_new rs)) = (ro, rst)" by force
  obtain out st where o: "replace_events scan io evs (replace_state_new rs) = Some (out, st)" "spells out (concat ro)"
    "rope_of st = rst" "cuts t (rope_left rst)"
    using replace_events_spell [where scan = scan and io = io and evs = evs and st = "replace_state_new rs" and pre = "[]", OF t(2) _ _ _ r] assms(2) t
    by (auto simp: replace_state_new_def end_cut_def)
  obtain more line st' where m: "trailing_replacements (info_column info)
      (uint (info_line info) + line_offset st) (rp_left st) st = (more, line, st')" by (rule prod_cases3)
  have "rp_left st = rope_left rst" using o(3) by (auto simp: rope_of_def)
  then have "spells more (contents (rope_left rst))" using trailing_spell [OF _ m] o(4) by simp
  moreover have "spliced 0 0 t rs = concat ro @ contents (rope_left rst)"
    using rope_chunks_spells [OF r] t(1) by (simp add: concat_pieces rope_of_def replace_state_new_def skip_of_def)
  ultimately show ?thesis
    using o(1) m spells_append [OF o(2)] by (auto simp: stream_replace_def)
qed

section \<open>Concatenations\<close>

lemma concat_events_spell:
  assumes "list_all sound_chunk evs" "concat_events False evs st = (out, st')" "\<not> need_to_close st"
  shows "spells out (stream_text evs) \<and> \<not> need_to_close st'"
  using assms
proof (induction evs arbitrary: st out st')
  case Nil
  then show ?case by (simp add: spells_Nil stream_text_def)
next
  case (Cons ev evs)
  obtain o1 s1 where e: "concat_event False ev st = (o1, s1)" by force
  obtain o2 where m: "concat_events False evs s1 = (o2, st')" "out = o1 @ o2"
    using Cons.prems(2) e by (auto split: prod.splits)
  have "spells o1 (event_text ev) \<and> \<not> need_to_close s1"
  proof (cases ev)
    case (ChunkEvent c m)
    then obtain s where "c = Some s" "starts_char (span_text s)"
      using Cons.prems(1) by (auto split: option.splits)
    with ChunkEvent e Cons.prems(3) show ?thesis
      using spells_Chunk [OF _ spells_Nil, of s] by (auto simp: concat_chunk_def Let_def)
  next
    case (SourceEvent i source content)
    with e Cons.prems(3) show ?thesis by (auto simp: spells_silent spells_Nil split: prod.splits)
  next
    case (NameEvent i name)
    with e Cons.prems(3) show ?thesis by (auto simp: spells_silent spells_Nil split: prod.splits)
  qed
  with Cons.IH [OF _ m(1)] Cons.prems(1) m(2) spells_append show ?case
    by (auto simp: stream_text_def)
qed

lemma concat_children_spell:
  assumes "list_all2 (\<lambda>c t. spells (fst c) t) cs ts" "concat_children False cs st = (out, st')" "\<not> need_to_close st"
  shows "spells out (concat ts)"
  using assms
proof (induction arbitrary: st out st' rule: list_all2_induct)
  case (Cons c cs t ts)
  obtain o1 s1 where e: "concat_child False c st = (o1, s1)" by force
  obtain o2 where m: "concat_children False cs s1 = (o2, st')" "out = o1 @ o2"
    using Cons.prems(1) e by (auto split: prod.splits)
  obtain evs info where c: "c = (evs, info)" by force
  obtain oo s where "concat_events False evs (st\<lparr>source_index_map := [], name_index_map := [], last_mapping_line := 0\<rparr>)
      = (oo, s)" by force
  with concat_events_spell [OF _ this] Cons.hyps(1) Cons.prems(2) e have "spells o1 t \<and> \<not> need_to_close s1"
    by (auto simp: concat_child_def c spells_def Let_def)
  with Cons.IH [OF m(1)] m(2) spells_append show ?case by auto
qed (simp add: spells_Nil)

lemma stream_concat_spells:
  assumes "list_all2 (\<lambda>c t. spells (fst c) t) cs ts"
  shows "spells (fst (stream_concat False cs)) (concat ts)"
proof (cases "length cs = 1")
  case True
  with assms obtain c t where "cs = [c]" "ts = [t]" "spells (fst c) t"
    by (auto simp: list_all2_Cons1 length_Suc_conv)
  then show ?thesis by (simp add: stream_concat_def)
next
  case False
  obtain out st where c: "concat_children False cs concat_state_new = (out, st)" by force
  from concat_children_spell [OF assms c] False c show ?thesis
    by (simp add: stream_concat_def concat_state_new_def)
qed

end
