(* ===== verification/Sources_Mapped.thy ===== *)
theory Sources_Mapped
  imports Sources_Spell Sources_Round
begin

text \<open>
  The stream of a text with a source map spells the text: by lines whatever the map says, and by columns when its
  mappings come in the order of their positions.
\<close>

section \<open>Parts of a text\<close>

definition covers :: "u8 list \<Rightarrow> nat \<Rightarrow> stream_event list \<Rightarrow> nat \<Rightarrow> bool" where
  "covers v i evs j \<longleftrightarrow> i \<le> j \<and> j \<le> length v \<and> spells evs (slice_bytes v i j)"

lemma covers_Nil: "i \<le> length v \<Longrightarrow> covers v i [] i"
  by (simp add: covers_def slice_bytes_def spells_Nil)

lemma slice_append: "i \<le> j \<Longrightarrow> j \<le> k \<Longrightarrow> slice_bytes v i k = slice_bytes v i j @ slice_bytes v j k"
proof -
  assume ijk: "i \<le> j" "j \<le> k"
  then have "k - i = (j - i) + (k - j)" "j - i + i = j" by simp_all
  then show ?thesis unfolding slice_bytes_def by (metis take_add drop_drop)
qed

lemma covers_append: "covers v i as j \<Longrightarrow> covers v j bs k \<Longrightarrow> covers v i (as @ bs) k"
  using slice_append [of i j k v] spells_append by (auto simp: covers_def)

lemma covers_all: "covers v 0 evs (length v) \<longleftrightarrow> spells evs v"
  by (simp add: covers_def slice_bytes_def)

definition line_start_at :: "u8 list list \<Rightarrow> nat \<Rightarrow> nat" where
  "line_start_at lines k = length (concat (take k lines))"

lemma line_start_0 [simp]: "line_start_at lines 0 = 0"
  by (simp add: line_start_at_def)

lemma line_start_all: "length lines \<le> k \<Longrightarrow> line_start_at lines k = length (concat lines)"
  by (simp add: line_start_at_def)

lemma line_start_Suc: "k < length lines \<Longrightarrow> line_start_at lines (Suc k) = line_start_at lines k + length (lines ! k)"
  by (simp add: line_start_at_def take_Suc_conv_app_nth)

lemma line_start_le: "line_start_at lines k \<le> length (concat lines)"
  by (metis append_take_drop_id concat_append le_add1 length_append line_start_at_def)

lemma line_slice:
  assumes "k < length lines" "i \<le> j" "j \<le> length (lines ! k)"
  shows "slice_bytes (concat lines) (line_start_at lines k + i) (line_start_at lines k + j) = slice_bytes (lines ! k) i j"
proof -
  have "concat lines = concat (take k lines) @ lines ! k @ concat (drop (Suc k) lines)"
    using id_take_nth_drop [OF assms(1)] by (metis concat.simps(2) concat_append)
  then show ?thesis using assms by (simp add: slice_bytes_def line_start_at_def)
qed

lemma covers_chunk:
  assumes "k < length lines" "i \<le> j" "j \<le> length (lines ! k)" "is_char_boundary (lines ! k) i"
    "t = slice_bytes (lines ! k) i j"
  shows "covers (concat lines) (line_start_at lines k + i) [ChunkEvent (Some (subspan s t)) m] (line_start_at lines k + j)"
proof -
  have "line_start_at lines k + j \<le> length (concat lines)"
    using line_start_Suc [OF assms(1)] line_start_le [of lines "Suc k"] assms(3) by simp
  with assms line_slice [OF assms(1-3)] spells_chunk [OF starts_slice [OF assms(4), where j = j], where s = s and m = m] show ?thesis
    by (simp add: covers_def)
qed

lemma covers_line:
  assumes "k < length lines" "starts_char (lines ! k)"
  shows "covers (concat lines) (line_start_at lines k) [ChunkEvent (Some (subspan s (lines ! k))) m] (line_start_at lines (Suc k))"
  using covers_chunk [OF assms(1) _ order_refl boundary_0 [OF assms(2)], of "lines ! k" s m]
  by (simp add: slice_bytes_def line_start_Suc [OF assms(1)])

section \<open>By lines\<close>

lemma unat_pred: "(c :: u32) \<noteq> 0 \<Longrightarrow> unat (c - 1) = unat c - 1"
  by (simp add: unat_minus_one)

lemma unat_next: "(c :: u32) < d \<Longrightarrow> unat (c + 1) = Suc (unat c)"
  by unat_arith

lemma unmapped_lines_cover:
  assumes "list_all starts_char lines" "0 < current" "unat stop \<le> length lines"
    "unmapped_lines source lines stop current = (evs, current')"
  shows "covers (concat lines) (line_start_at lines (unat current - 1)) evs (line_start_at lines (unat current' - 1))
    \<and> current' = max current stop"
  using assms
proof (induction source lines stop current arbitrary: evs current' rule: unmapped_lines.induct)
  case (1 source lines stop current)
  show ?case
  proof (cases "stop > current")
    case False
    then have "evs = []" "current' = current" using 1(5) by (auto simp: unmapped_lines.simps)
    with False show ?thesis by (simp add: covers_Nil line_start_le max_def)
  next
    case True
    obtain more c where m: "unmapped_lines source lines stop (current + 1) = (more, c)" by force
    have k: "unat current - 1 < length lines" "unat current \<le> length lines" "unat (current + 1) = Suc (unat current)"
      using True 1(3,4) unat_next [OF True] by (auto simp: word_less_nat_alt)
    have pos: "0 < current + 1" "Suc (unat current - 1) = unat current"
      using k(3) 1(3) by (auto simp: word_less_nat_alt)
    have "evs = ChunkEvent (Some (subspan source (lines ! (unat current - 1)))) (unmapped current 0) # more" "current' = c"
      using 1(5) True m k(2) by (auto simp: unmapped_lines.simps [of source lines stop current] line_at_def)
    moreover have "covers (concat lines) (line_start_at lines (unat current)) more (line_start_at lines (unat c - 1))
        \<and> c = max (current + 1) stop"
      using 1(1) [OF True refl 1(2) pos(1) 1(4) m] k(3) by auto
    moreover have "max (current + 1) stop = stop" "max current stop = stop"
      using True k(3) by (auto simp: max_def word_less_nat_alt word_le_nat_alt)
    moreover have "covers (concat lines) (line_start_at lines (unat current - 1))
        [ChunkEvent (Some (subspan source (lines ! (unat current - 1)))) (unmapped current 0)] (line_start_at lines (unat current))"
      using covers_line [OF k(1), of source] 1(2) k(1) pos(2) by (simp add: list_all_length)
    ultimately show ?thesis using covers_append by fastforce
  qed
qed

lemma lines_full_mapping_cover:
  assumes "list_all starts_char lines" "0 < current" "length lines < 2 ^ 32 - 1"
    "unat current \<le> length lines + 1" "lines_full_mapping source lines m current = (evs, current')"
  shows "covers (concat lines) (line_start_at lines (unat current - 1)) evs (line_start_at lines (unat current' - 1))
    \<and> 0 < current' \<and> unat current' \<le> length lines + 1"
proof (cases "original m = None \<or> generated_line m < current \<or> unat (generated_line m) > length lines")
  case True
  then have "evs = [] \<and> current' = current" using assms(5) by (auto split: option.splits)
  with assms(2,4) show ?thesis by (simp add: covers_Nil line_start_le)
next
  case False
  then obtain orig where orig: "original m = Some orig" "current \<le> generated_line m" "unat (generated_line m) \<le> length lines"
    by (auto simp: not_less)
  obtain more c where u: "unmapped_lines source lines (generated_line m) current = (more, c)" by force
  from unmapped_lines_cover [OF assms(1,2) orig(3) u] orig(2) have c: "c = generated_line m"
    "covers (concat lines) (line_start_at lines (unat current - 1)) more (line_start_at lines (unat c - 1))"
    by (auto simp: max_def)
  have k: "0 < c" "unat c \<le> length lines" "unat c - 1 < length lines" "Suc (unat c - 1) = unat c"
    using c(1) orig(2,3) assms(2) by (auto simp: word_less_nat_alt word_le_nat_alt)
  have n: "unat (c + 1) = Suc (unat c)"
    using k(2) assms(3) by (simp add: unat_word_ariths)
  have "starts_char (lines ! (unat c - 1))" using assms(1) k(3) by (simp add: list_all_length)
  from covers_append [OF c(2) covers_line [OF k(3) this]] k(4)
  have "covers (concat lines) (line_start_at lines (unat current - 1))
     (more @ [ChunkEvent (Some (subspan source (lines ! (unat c - 1))))
        (at_original (generated_line m) 0 (Some (orig\<lparr>name_index := None\<rparr>)))]) (line_start_at lines (unat c))"
    by simp
  moreover have "evs = more @ [ChunkEvent (Some (subspan source (lines ! (unat c - 1))))
      (at_original (generated_line m) 0 (Some (orig\<lparr>name_index := None\<rparr>)))]" "current' = c + 1"
    using assms(5) orig u by (auto simp: line_at_def not_less [symmetric])
  ultimately show ?thesis using n k by (simp add: word_less_nat_alt)
qed

lemma lines_full_mappings_cover:
  assumes "list_all starts_char lines" "0 < current" "length lines < 2 ^ 32 - 1"
    "unat current \<le> length lines + 1" "lines_full_mappings source lines current ms = (evs, current')"
  shows "covers (concat lines) (line_start_at lines (unat current - 1)) evs (line_start_at lines (unat current' - 1))
    \<and> 0 < current' \<and> unat current' \<le> length lines + 1"
  using assms
proof (induction ms arbitrary: current evs)
  case Nil
  then show ?case by (simp add: covers_Nil line_start_le)
next
  case (Cons m ms)
  obtain e1 c1 where m: "lines_full_mapping source lines m current = (e1, c1)" by force
  obtain e2 where ms: "lines_full_mappings source lines c1 ms = (e2, current')" "evs = e1 @ e2"
    using Cons.prems(5) m by (auto simp del: lines_full_mapping.simps split: prod.splits)
  note one = lines_full_mapping_cover [OF Cons.prems(1-4) m]
  from Cons.IH [OF Cons.prems(1) _ Cons.prems(3) _ ms(1)] one ms(2) covers_append show ?case by blast
qed

lemma split_into_lines_length: "length (split_into_lines s) \<le> length s"
  by (induction s rule: lines_induct) (auto simp: split_into_lines_newline split_into_lines_last Suc_le_eq)

lemma lines_full_spells:
  assumes "str_ok v" "length v < 2 ^ 32 - 1"
  shows "spells (fst (stream_chunks_of_source_map_lines_full (text_span_new v) smap)) v"
proof -
  let ?source = "text_span_new v" and ?lines = "split_into_lines v"
  obtain evs current where m: "lines_full_mappings ?source ?lines 1 (decode_mappings (map_mappings smap)) = (evs, current)"
    by force
  have len: "length ?lines < 2 ^ 32 - 1" using split_into_lines_length [of v] assms(2) by simp
  from lines_full_mappings_cover [OF lines_start [OF assms(1)] _ len _ m]
  have "covers v 0 evs (line_start_at ?lines (unat current - 1))" by (simp add: concat_lines)
  then have evs: "spells evs (concat (take (unat current - 1) ?lines))"
    using concat_lines [of v] append_take_drop_id [of "unat current - 1" ?lines]
    by (metis (no_types, lifting) append_eq_conv_conj concat_append covers_def diff_zero drop0 line_start_at_def slice_bytes_def)
  have rest: "spells (remaining_lines ?source current (drop (unat current - 1) ?lines)) (concat (drop (unat current - 1) ?lines))"
    using lines_start [OF assms(1)] by (intro remaining_lines_spell) (auto simp: list_all_iff dest: in_set_dropD)
  have sources: "spells (source_events smap) []"
    by (auto simp: spells_def source_events_def stream_text_def list_all_iff)
  have "concat (take (unat current - 1) ?lines) @ concat (drop (unat current - 1) ?lines) = v"
    using concat_lines [of v] by (simp flip: concat_append)
  with spells_append [OF sources spells_append [OF evs rest]] m show ?thesis
    by (cases "?lines = []")
      (auto simp: stream_chunks_of_source_map_lines_full_def Let_def text_span_new_def spells_Nil concat_lines
        dest: arg_cong [where f = concat])
qed

section \<open>By columns\<close>

lemma column_boundary: "str_ok s \<Longrightarrow> is_char_boundary s (byte_of_column s i)"
proof (induction arbitrary: i rule: str_ok_chars)
  case Nil
  then show ?case by (simp add: byte_of_column.simps is_char_boundary_def)
next
  case (Char c s)
  have "\<not> is_continuation (hd c)" "c \<noteq> []"
    using Char.hyps(1) one_char_width(2) [OF Char.hyps(1)] byte_facts(1) by (auto simp: one_char_def)
  with Char.IH [of "i - char_units (hd c)"] Char.hyps(1) show ?case
    by (auto simp: byte_of_column_char is_char_boundary_def nth_append hd_append hd_conv_nth)
qed

lemma byte_of_column_units: "str_ok s \<Longrightarrow> byte_of_column s (utf16_len s) = length s"
proof (induction rule: str_ok_chars)
  case (Char c s)
  then show ?case by (simp add: byte_of_column_char one_char_utf16)
qed (simp add: byte_of_column.simps)

lemma byte_of_column_past: "str_ok s \<Longrightarrow> utf16_len s \<le> i \<Longrightarrow> byte_of_column s i = length s"
  using byte_of_column_mono [of "utf16_len s" i s] byte_of_column_units [of s] byte_of_column_le [of s i] by simp

text \<open>The byte at a line and a column, and the state at it.\<close>

definition byte_at_position :: "u8 list list \<Rightarrow> u32 \<Rightarrow> u32 \<Rightarrow> nat" where
  "byte_at_position lines l c =
     (if unat l - 1 < length lines
      then line_start_at lines (unat l - 1) + byte_of_column (lines ! (unat l - 1)) (unat c)
      else length (concat lines))"

definition line_of :: "u8 list list \<Rightarrow> u32 \<Rightarrow> indexed_line option" where
  "line_of lines l =
     (if unat l - 1 < length lines
      then Some \<lparr>line_text = lines ! (unat l - 1), line_wide = line_wides (lines ! (unat l - 1))\<rparr> else None)"

definition indexes :: "line_index \<Rightarrow> u8 list list \<Rightarrow> bool" where
  "indexes index lines \<longleftrightarrow> list_all str_ok lines \<and> (\<forall>l. 0 < l \<longrightarrow> get_index_line index l = line_of lines l)"

definition full_ok :: "u8 list list \<Rightarrow> generated_info \<Rightarrow> full_state \<Rightarrow> bool" where
  "full_ok lines final st \<longleftrightarrow> 0 < cur_line st \<and> cur_index_line st = line_of lines (cur_line st)
     \<and> (mapping_active st \<longrightarrow> cur_line st < info_line final
          \<or> cur_line st = info_line final \<and> cur_column st < info_column final)"

definition full_pos :: "u8 list list \<Rightarrow> full_state \<Rightarrow> nat" where
  "full_pos lines st = byte_at_position lines (cur_line st) (cur_column st)"

lemma full_pos_le: "full_pos lines st \<le> length (concat lines)"
proof (cases "unat (cur_line st) - 1 < length lines")
  case True
  then show ?thesis
    using line_start_Suc [OF True] line_start_le [of lines "Suc (unat (cur_line st) - 1)"]
      byte_of_column_le [of "lines ! (unat (cur_line st) - 1)" "unat (cur_column st)"]
    by (simp add: full_pos_def byte_at_position_def)
qed (simp add: full_pos_def byte_at_position_def)

lemma line_of_Some:
  assumes "line_of lines l = Some line" "list_all str_ok lines" "0 < l"
  shows "unat l - 1 < length lines" "line_text line = lines ! (unat l - 1)" "str_ok (line_text line)"
    "line_substring line i j = column_slice (line_text line) i j"
  using assms substring_correct [of "lines ! (unat l - 1)" i j]
  by (auto simp: line_of_def list_all_length split: if_splits)

lemma position_next_line:
  assumes "0 < l" "unat (l + 1) = Suc (unat l)"
  shows "byte_at_position lines (l + 1) 0 = line_start_at lines (unat l)"
proof -
  have "unat (l + 1) - 1 = unat l" using assms(2) by simp
  then show ?thesis
    by (simp add: byte_at_position_def byte_of_column_0 line_start_all)
qed

text \<open>The rest of the current line, and its part up to a column.\<close>

lemma covers_rest:
  assumes "line_of lines l = Some line" "list_all str_ok lines" "0 < l" "unat (l + 1) = Suc (unat l)"
    "evs = [ChunkEvent (Some (subspan s (line_substring line (unat c) None))) m]
     \<or> evs = [] \<and> line_substring line (unat c) None = []"
  shows "covers (concat lines) (byte_at_position lines l c) evs (byte_at_position lines (l + 1) 0)"
proof -
  let ?k = "unat l - 1" and ?i = "byte_of_column (line_text line) (unat c)"
  note line = line_of_Some [OF assms(1-3)]
  have k: "Suc ?k = unat l" using assms(3) by (simp add: word_less_nat_alt)
  have sub: "line_substring line (unat c) None = slice_bytes (lines ! ?k) ?i (length (lines ! ?k))"
    using line by (simp add: column_slice_def)
  have pos: "byte_at_position lines l c = line_start_at lines ?k + ?i"
    "byte_at_position lines (l + 1) 0 = line_start_at lines ?k + length (lines ! ?k)"
    using position_next_line [OF assms(3,4)] line_start_Suc [OF line(1)] line(1,2) k by (simp_all add: byte_at_position_def)
  have i: "?i \<le> length (lines ! ?k)" using byte_of_column_le [of "line_text line"] line(2) by simp
  have chunk: "covers (concat lines) (line_start_at lines ?k + ?i)
      [ChunkEvent (Some (subspan s (slice_bytes (lines ! ?k) ?i (length (lines ! ?k))))) m]
      (line_start_at lines ?k + length (lines ! ?k))"
    using covers_chunk [OF line(1) i order_refl _ refl] column_boundary [OF line(3)] line(2) by simp
  show ?thesis
  proof (cases "evs = []")
    case True
    then have "?i = length (lines ! ?k)" using assms(5) sub i by (simp add: slice_bytes_def)
    then show ?thesis using True pos covers_Nil chunk by (simp add: covers_def)
  next
    case False
    then show ?thesis using assms(5) pos sub chunk by simp
  qed
qed

lemma covers_columns:
  assumes "line_of lines l = Some line" "list_all str_ok lines" "0 < l" "c \<le> d"
    "evs = [ChunkEvent (Some (subspan s (line_substring line (unat c) (Some (unat d))))) m]
     \<or> evs = [] \<and> line_substring line (unat c) (Some (unat d)) = []"
  shows "covers (concat lines) (byte_at_position lines l c) evs (byte_at_position lines l d)"
proof -
  let ?k = "unat l - 1"
  let ?i = "byte_of_column (line_text line) (unat c)" and ?j = "byte_of_column (line_text line) (unat d)"
  note line = line_of_Some [OF assms(1-3)]
  have sub: "line_substring line (unat c) (Some (unat d)) = slice_bytes (lines ! ?k) ?i ?j"
    using line by (simp add: column_slice_def)
  have pos: "byte_at_position lines l c = line_start_at lines ?k + ?i"
    "byte_at_position lines l d = line_start_at lines ?k + ?j"
    using line(1,2) by (simp_all add: byte_at_position_def)
  have ij: "?i \<le> ?j" "?j \<le> length (lines ! ?k)"
    using byte_of_column_mono [of "unat c" "unat d"] byte_of_column_le [of "line_text line"] assms(4) line(2)
    by (simp_all add: word_le_nat_alt)
  have chunk: "covers (concat lines) (line_start_at lines ?k + ?i)
      [ChunkEvent (Some (subspan s (slice_bytes (lines ! ?k) ?i ?j))) m] (line_start_at lines ?k + ?j)"
    using covers_chunk [OF line(1) ij _ refl] column_boundary [OF line(3)] line(2) by simp
  show ?thesis
  proof (cases "evs = []")
    case True
    then have "?i = ?j" using assms(5) sub ij by (auto simp: slice_bytes_def)
    then show ?thesis using True pos covers_Nil chunk by (simp add: covers_def)
  next
    case False
    then show ?thesis using assms(5) pos sub chunk by simp
  qed
qed

definition before :: "full_state \<Rightarrow> source_mapping \<Rightarrow> bool" where
  "before st m \<longleftrightarrow> cur_line st < generated_line m
     \<or> cur_line st = generated_line m \<and> cur_column st \<le> generated_column m"

definition final_ok :: "u8 list list \<Rightarrow> generated_info \<Rightarrow> bool" where
  "final_ok lines final \<longleftrightarrow> unat (info_line final) \<le> length lines
     \<or> unat (info_line final) = length lines + 1 \<and> info_column final = 0"

lemma next_line: "(l :: u32) < g \<Longrightarrow> l + 1 < g \<or> l + 1 = g"
  by unat_arith

lemma active_has_line:
  assumes "full_ok lines final st" "mapping_active st" "final_ok lines final"
  obtains line where "cur_index_line st = Some line" "line_of lines (cur_line st) = Some line"
  using assms that by (auto simp: full_ok_def final_ok_def line_of_def word_less_nat_alt split: if_splits)

lemma full_ok_step:
  assumes "full_ok lines final st" "indexes index lines" "cur_line st < l" "\<not> mapping_active st"
  shows "full_ok lines final ((step_line index st)\<lparr>cur_column := 0\<rparr>)" "full_ok lines final (step_line index st)"
    "0 < cur_line st + 1" "unat (cur_line st + 1) = Suc (unat (cur_line st))"
proof -
  show u: "unat (cur_line st + 1) = Suc (unat (cur_line st))" by (rule unat_next [OF assms(3)])
  then show n: "0 < cur_line st + 1" by (simp add: word_less_nat_alt)
  show "full_ok lines final ((step_line index st)\<lparr>cur_column := 0\<rparr>)" "full_ok lines final (step_line index st)"
    using assms n by (auto simp: full_ok_def step_line_def indexes_def)
qed

lemma flush_active_covers:
  assumes ok: "full_ok lines final st" "indexes index lines" "final_ok lines final" "before st m"
    and code: "flush_active source index m st = (evs, st')"
  shows "covers (concat lines) (full_pos lines st) evs (full_pos lines st') \<and> full_ok lines final st'
    \<and> \<not> mapping_active st' \<and> before st' m"
proof (cases "mapping_active st")
  case False
  then have "evs = []" "st' = st" using code by (auto simp: flush_active_def split: option.splits)
  with False ok(1,4) show ?thesis by (simp add: covers_Nil full_pos_le)
next
  case True
  from active_has_line [OF ok(1) True ok(3)] obtain line where
    line: "cur_index_line st = Some line" "line_of lines (cur_line st) = Some line" .
  have strs: "list_all str_ok lines" "0 < cur_line st" using ok(1,2) by (auto simp: indexes_def full_ok_def)
  let ?st = "st\<lparr>mapping_active := False\<rparr>"
  have ok': "full_ok lines final ?st" using ok(1) by (simp add: full_ok_def)
  show ?thesis
  proof (cases "generated_line m = cur_line st")
    case False
    then have less: "cur_line ?st < generated_line m" using ok(4) by (auto simp: before_def)
    note step = full_ok_step [OF ok' ok(2) less]
    let ?chunk = "line_substring line (unat (cur_column st)) None"
    have "st' = (step_line index ?st)\<lparr>cur_column := 0\<rparr>" "evs = (if ?chunk \<noteq> []
        then [ChunkEvent (Some (subspan source ?chunk)) (at_original (cur_line st) (cur_column st) (active_original st))] else [])"
      using code True False line(1) by (auto simp: flush_active_def step_line_def Let_def)
    moreover have "before ((step_line index ?st)\<lparr>cur_column := 0\<rparr>) m"
      using next_line [OF less] by (auto simp: before_def step_line_def)
    ultimately show ?thesis
      using covers_rest [OF line(2) strs, of evs source "cur_column st"] step
      by (auto simp: full_pos_def step_line_def)
  next
    case same: True
    let ?chunk = "line_substring line (unat (cur_column st)) (Some (unat (generated_column m)))"
    have "st' = ?st\<lparr>cur_column := generated_column m\<rparr>" "evs = (if ?chunk \<noteq> []
        then [ChunkEvent (Some (subspan source ?chunk)) (at_original (cur_line st) (cur_column st) (active_original st))] else [])"
      using code True same line(1) by (auto simp: flush_active_def Let_def)
    moreover have "full_ok lines final (?st\<lparr>cur_column := generated_column m\<rparr>)"
      using ok' by (simp add: full_ok_def)
    moreover have "cur_column st \<le> generated_column m" using ok(4) same by (auto simp: before_def)
    ultimately show ?thesis
      using covers_columns [OF line(2) strs, of "cur_column st" "generated_column m" evs source] same
      by (auto simp: full_pos_def before_def)
  qed
qed

lemma flush_line_covers:
  assumes ok: "full_ok lines final st" "indexes index lines" "before st m" "\<not> mapping_active st"
    and code: "flush_line source index m st = (evs, st')"
  shows "covers (concat lines) (full_pos lines st) evs (full_pos lines st') \<and> full_ok lines final st'
    \<and> \<not> mapping_active st' \<and> before st' m \<and> (cur_line st' = generated_line m \<or> cur_column st' = 0)"
proof (cases "generated_line m > cur_line st \<and> cur_column st > 0")
  case False
  then have "evs = []" "st' = st" using code by (auto simp: flush_line_def)
  with False ok show ?thesis by (auto simp: covers_Nil full_pos_le before_def word_gt_0)
next
  case True
  then have less: "cur_line st < generated_line m" by simp
  note step = full_ok_step [OF ok(1,2) less ok(4)]
  have st': "st' = (step_line index st)\<lparr>cur_column := 0\<rparr>" using code True by (simp add: flush_line_def)
  have "before st' m" "full_ok lines final st'" "\<not> mapping_active st'" "cur_column st' = 0"
    using step(1) next_line [OF less] ok(4) by (auto simp: st' before_def step_line_def)
  moreover have "covers (concat lines) (full_pos lines st) evs (full_pos lines st')"
  proof (cases "line_of lines (cur_line st)")
    case None
    then have "evs = []" using code True ok(1) by (simp add: flush_line_def full_ok_def)
    moreover have "full_pos lines st = length (concat lines)" using None by (simp add: full_pos_def byte_at_position_def line_of_def split: if_splits)
    moreover have "full_pos lines st' = length (concat lines)"
      using None step(4) by (auto simp: st' full_pos_def byte_at_position_def line_of_def step_line_def split: if_splits)
    ultimately show ?thesis by (simp add: covers_Nil)
  next
    case (Some line)
    have strs: "list_all str_ok lines" "0 < cur_line st" using ok(1,2) by (auto simp: indexes_def full_ok_def)
    have "evs = [ChunkEvent (Some (subspan source (line_substring line (unat (cur_column st)) None)))
        (unmapped (cur_line st) (cur_column st))]"
      using code True Some ok(1) by (simp add: flush_line_def full_ok_def)
    with covers_rest [OF Some strs step(4), of evs source "cur_column st"] show ?thesis
      by (auto simp: full_pos_def st' step_line_def)
  qed
  ultimately show ?thesis by blast
qed

lemma flush_lines_covers:
  assumes "full_ok lines final st" "indexes index lines" "before st m" "\<not> mapping_active st"
    "cur_line st = generated_line m \<or> cur_column st = 0" "flush_lines source index m st = (evs, st')"
  shows "covers (concat lines) (full_pos lines st) evs (full_pos lines st') \<and> full_ok lines final st'
    \<and> \<not> mapping_active st' \<and> before st' m \<and> cur_line st' = generated_line m"
  using assms
proof (induction source index m st arbitrary: evs st' rule: flush_lines.induct)
  case (1 source index m st)
  show ?case
  proof (cases "generated_line m > cur_line st")
    case False
    then have "evs = []" "st' = st" using 1(7) by (auto simp: flush_lines.simps)
    with False 1(2-7) show ?thesis by (auto simp: covers_Nil full_pos_le before_def)
  next
    case True
    note step = full_ok_step [OF 1(2,3) True 1(5)]
    obtain more s1 where m: "flush_lines source index m (step_line index st) = (more, s1)" by force
    have col: "cur_column st = 0" using 1(6) True by auto
    have "before (step_line index st) m" "\<not> mapping_active (step_line index st)" "cur_column (step_line index st) = 0"
      using next_line [OF True] 1(5) col by (auto simp: before_def step_line_def)
    with 1(1) [OF True refl step(2) 1(3) _ _ _ m] have more: "covers (concat lines) (full_pos lines (step_line index st)) more (full_pos lines s1)"
      "full_ok lines final s1" "\<not> mapping_active s1" "before s1 m" "cur_line s1 = generated_line m" by auto
    define e1 where "e1 = (case cur_index_line st of
        Some line \<Rightarrow> [ChunkEvent (Some (subspan source (line_text line))) (unmapped (cur_line st) 0)] | None \<Rightarrow> [])"
    have evs: "evs = e1 @ more" "st' = s1"
      using 1(7) True m by (auto simp: flush_lines.simps [of source index m st] e1_def)
    have "covers (concat lines) (full_pos lines st) e1 (full_pos lines (step_line index st))"
    proof (cases "line_of lines (cur_line st)")
      case None
      then have "full_pos lines st = length (concat lines)" "full_pos lines (step_line index st) = length (concat lines)"
        using step(4) by (auto simp: full_pos_def byte_at_position_def line_of_def step_line_def split: if_splits)
      then show ?thesis using None 1(2) by (simp add: e1_def full_ok_def covers_Nil)
    next
      case (Some line)
      have strs: "list_all str_ok lines" "0 < cur_line st" using 1(2,3) by (auto simp: indexes_def full_ok_def)
      note line = line_of_Some [OF Some strs]
      have "line_substring line (unat (cur_column st)) None = line_text line"
        using line(4) [of "unat (cur_column st)" None] col by (simp add: column_slice_def byte_of_column_0 slice_bytes_def)
      with covers_rest [OF Some strs step(4), of e1 source "cur_column st"] Some 1(2) col show ?thesis
        by (auto simp: full_pos_def step_line_def e1_def full_ok_def)
    qed
    with more evs covers_append show ?thesis by blast
  qed
qed

lemma flush_columns_covers:
  assumes ok: "full_ok lines final st" "indexes index lines" "before st m" "\<not> mapping_active st"
    and line: "cur_line st = generated_line m" and code: "flush_columns source m st = (evs, st')"
  shows "covers (concat lines) (full_pos lines st) evs (full_pos lines st') \<and> full_ok lines final st'
    \<and> \<not> mapping_active st' \<and> cur_line st' = generated_line m \<and> cur_column st' = generated_column m"
proof (cases "generated_column m > cur_column st")
  case False
  then have "evs = []" "st' = st" using code by (auto simp: flush_columns_def)
  with False ok line show ?thesis by (auto simp: covers_Nil full_pos_le before_def)
next
  case True
  have st': "st' = st\<lparr>cur_column := generated_column m\<rparr>" using code True by (simp add: flush_columns_def)
  have "covers (concat lines) (full_pos lines st) evs (full_pos lines st')"
  proof (cases "line_of lines (cur_line st)")
    case None
    then have "full_pos lines st = length (concat lines)" "full_pos lines st' = length (concat lines)"
      by (auto simp: st' full_pos_def byte_at_position_def line_of_def split: if_splits)
    then show ?thesis using None ok(1) True code by (simp add: flush_columns_def full_ok_def covers_Nil)
  next
    case (Some l)
    have strs: "list_all str_ok lines" "0 < cur_line st" using ok(1,2) by (auto simp: indexes_def full_ok_def)
    have "evs = [ChunkEvent (Some (subspan source (line_substring l (unat (cur_column st)) (Some (unat (generated_column m))))))
        (unmapped (cur_line st) (cur_column st))]"
      using code True Some ok(1) by (simp add: flush_columns_def full_ok_def)
    with covers_columns [OF Some strs, of "cur_column st" "generated_column m" evs source] True show ?thesis
      by (auto simp: full_pos_def st')
  qed
  with ok line show ?thesis by (auto simp: st' full_ok_def)
qed

lemma full_mapping_covers:
  assumes "full_ok lines final st" "indexes index lines" "final_ok lines final" "before st m"
    and code: "full_mapping source index final m st = (evs, st')"
  shows "covers (concat lines) (full_pos lines st) evs (full_pos lines st') \<and> full_ok lines final st'
    \<and> cur_line st' = generated_line m \<and> cur_column st' = generated_column m"
proof -
  obtain a s1 where 1: "flush_active source index m st = (a, s1)" by force
  obtain b s2 where 2: "flush_line source index m s1 = (b, s2)" by force
  obtain c s3 where 3: "flush_lines source index m s2 = (c, s3)" by force
  obtain d s4 where 4: "flush_columns source m s3 = (d, s4)" by force
  from flush_active_covers [OF assms(1-4) 1]
  have a: "covers (concat lines) (full_pos lines st) a (full_pos lines s1)" "full_ok lines final s1"
    "\<not> mapping_active s1" "before s1 m" by auto
  from flush_line_covers [OF a(2) assms(2) a(4,3) 2]
  have b: "covers (concat lines) (full_pos lines s1) b (full_pos lines s2)" "full_ok lines final s2"
    "\<not> mapping_active s2" "before s2 m" "cur_line s2 = generated_line m \<or> cur_column s2 = 0" by auto
  from flush_lines_covers [OF b(2) assms(2) b(4,3,5) 3]
  have c: "covers (concat lines) (full_pos lines s2) c (full_pos lines s3)" "full_ok lines final s3"
    "\<not> mapping_active s3" "before s3 m" "cur_line s3 = generated_line m" by auto
  from flush_columns_covers [OF c(2) assms(2) c(4,3,5) 4]
  have d: "covers (concat lines) (full_pos lines s3) d (full_pos lines s4)" "full_ok lines final s4"
    "\<not> mapping_active s4" "cur_line s4 = generated_line m" "cur_column s4 = generated_column m" by auto
  have "evs = a @ b @ c @ d" "st' = activate final m s4"
    using code 1 2 3 4 by (auto simp: full_mapping_def)
  with a(1) b(1) c(1) d covers_append show ?thesis
    by (auto simp: activate_def full_ok_def full_pos_def intro: covers_append)
qed

lemma byte_at_position_mono: "c \<le> d \<Longrightarrow> byte_at_position lines l c \<le> byte_at_position lines l d"
  by (simp add: byte_at_position_def byte_of_column_mono word_le_nat_alt)

definition ends_at :: "u8 list list \<Rightarrow> generated_info \<Rightarrow> bool" where
  "ends_at lines final \<longleftrightarrow> final_ok lines final \<and> length lines \<le> unat (info_line final)
     \<and> byte_at_position lines (info_line final) (info_column final) = length (concat lines)"

lemma full_mappings_cover:
  assumes "full_ok lines final st" "indexes index lines" "ends_at lines final"
    "in_position_order (cur_line st) (cur_column st) ms"
  shows "covers (concat lines) (full_pos lines st)
    (full_mappings source index final (ms @ [unmapped (info_line final) (info_column final)]) st) (length (concat lines))"
  using assms
proof (induction ms arbitrary: st)
  case Nil
  let ?m = "unmapped (info_line final) (info_column final)"
  obtain evs st' where m: "full_mapping source index final ?m st = (evs, st')" by force
  show ?case
  proof (cases "before st ?m")
    case True
    with full_mapping_covers [OF Nil.prems(1,2) _ True m] Nil.prems(3) m show ?thesis
      by (auto simp: ends_at_def full_pos_def unmapped_def)
  next
    case False
    then have less: "info_line final < cur_line st \<or> info_line final = cur_line st \<and> info_column final < cur_column st"
      by (auto simp: before_def unmapped_def)
    then have inactive: "\<not> mapping_active st"
      using Nil.prems(1) less_asym [of "info_line final" "cur_line st"] less_asym [of "info_column final" "cur_column st"]
      unfolding full_ok_def by (metis less_irrefl)
    have none: "cur_index_line st = None" if "info_column final > cur_column st"
      using that less Nil.prems(1,3) by (auto simp: full_ok_def ends_at_def line_of_def word_less_nat_alt)
    have "flush_active source index ?m st = ([], st)" "flush_line source index ?m st = ([], st)"
      using inactive less by (auto simp: flush_active_def flush_line_def unmapped_def split: option.splits)
    moreover have "flush_lines source index ?m st = ([], st)"
      using less by (subst flush_lines.simps) (auto simp: unmapped_def)
    moreover have "fst (flush_columns source ?m st) = []"
      using none by (auto simp: flush_columns_def unmapped_def)
    ultimately have "evs = []" using m by (auto simp: full_mapping_def split: prod.splits)
    moreover have "full_pos lines st = length (concat lines)"
    proof (cases "info_line final < cur_line st")
      case True
      then show ?thesis using Nil.prems(3) by (auto simp: full_pos_def byte_at_position_def ends_at_def word_less_nat_alt)
    next
      case False
      with less byte_at_position_mono [of "info_column final" "cur_column st" lines "info_line final"]
        Nil.prems(3) full_pos_le [of lines st] show ?thesis
        by (auto simp: full_pos_def ends_at_def)
    qed
    ultimately show ?thesis using m by (simp add: covers_Nil)
  qed
next
  case (Cons m ms)
  obtain evs st' where m: "full_mapping source index final m st = (evs, st')" by force
  have "before st m" using Cons.prems(4) by (auto simp: before_def)
  from full_mapping_covers [OF Cons.prems(1,2) _ this m] Cons.prems(3)
  have c: "covers (concat lines) (full_pos lines st) evs (full_pos lines st')" "full_ok lines final st'"
    "cur_line st' = generated_line m" "cur_column st' = generated_column m" by (auto simp: ends_at_def)
  from Cons.IH [OF c(2) Cons.prems(2,3)] Cons.prems(4) c(3,4)
  show ?case using m covers_append [OF c(1)] by simp
qed

lemma last_piece_le: "ys \<noteq> [] \<Longrightarrow> length (last ys) \<le> length (concat ys)"
  by (induction ys) auto

lemma position_of_end:
  assumes "str_ok v" "v \<noteq> []" "length v < 2 ^ 32 - 1"
  shows "ends_at (split_into_lines v)
    (final_position (text_span_new v) (length (split_into_lines v)) (last (split_into_lines v)))"
proof -
  let ?lines = "split_into_lines v"
  have ne: "?lines \<noteq> []" using assms(2) concat_lines [of v] by auto
  have n: "length ?lines < 2 ^ 32 - 1" using split_into_lines_length [of v] assms(3) by simp
  have l: "str_ok (last ?lines)" using str_ok_line [OF assms(1)] ne by simp
  have last: "?lines ! (length ?lines - 1) = last ?lines" using ne by (simp add: last_conv_nth)
  show ?thesis
  proof (cases "ends_with_newline (last ?lines)")
    case True
    then show ?thesis using n
      by (auto simp: ends_at_def final_position_def final_ok_def byte_at_position_def unat_of_nat
          simp flip: of_nat_Suc)
  next
    case False
    have u: "utf16_len (last ?lines) < 2 ^ 32"
    proof -
      show ?thesis using last_piece_le [OF ne] utf16_len_le [OF l] assms(3) concat_lines [of v] by simp
    qed
    have un: "unat (of_nat (length ?lines) :: u32) = length ?lines"
      "unat (of_nat (utf16_len (last ?lines)) :: u32) = utf16_len (last ?lines)"
      using n u by (simp_all add: unat_of_nat)
    have "line_start_at ?lines (length ?lines - 1) + length (last ?lines) = length (concat ?lines)"
      using line_start_Suc [of "length ?lines - 1" ?lines] ne last by (simp add: line_start_all)
    then show ?thesis using False un ne last byte_of_column_units [OF l]
      by (auto simp: ends_at_def final_position_def final_ok_def byte_at_position_def utf16_len_of_def text_span_new_def)
  qed
qed

lemma full_spells:
  assumes "str_ok v" "length v < 2 ^ 32 - 1" "scan_routine scan" "in_position_order 1 0 (decode_mappings (map_mappings smap))"
  shows "spells (fst (stream_chunks_of_source_map_full scan (text_span_new v) smap)) v"
proof (cases "v = []")
  case True
  then show ?thesis
    by (simp add: stream_chunks_of_source_map_full_def text_span_new_def is_known_ascii_def index_with_known_ascii_def
        line_count_def spells_Nil scan_routine_eq [OF assms(3)] scan_generic_def scan_scalar_to.simps finish_line_def
        scan_state_default_def)
next
  case False
  let ?lines = "split_into_lines v" and ?index = "index_with_known_ascii scan v False"
  have found: "lines_found v [] [] 0 v ?index"
    using index_found [OF assms(1) False assms(3)] by simp
  then have count: "line_count ?index = length ?lines"
    using assms(1) False by (auto simp: lines_found_def line_count_def)
  have get: "index_get ?index k = (if k < length ?lines then
      Some \<lparr>line_text = ?lines ! k, line_wide = line_wides (?lines ! k)\<rparr> else None)" for k
    using index_found_get [OF found, of k] count by (simp add: index_get_def)
  have idx: "indexes ?index ?lines"
    using get str_ok_line [OF assms(1)] by (auto simp: indexes_def get_index_line_def line_of_def list_all_iff unat_pred word_gt_0)
  have ne: "?lines \<noteq> []" using False concat_lines [of v] by auto
  let ?final = "final_position (text_span_new v) (length ?lines) (last ?lines)"
  let ?st = "\<lparr>cur_line = 1, cur_index_line = index_get ?index 0, cur_column = 0, mapping_active = False, active_original = None\<rparr>"
  have last: "line_text (index_get_unchecked ?index (length ?lines - 1)) = last ?lines"
    using get [of "length ?lines - 1"] ne count by (simp add: index_get_def last_conv_nth split: if_splits)
  have "full_ok ?lines ?final ?st" using get [of 0] by (simp add: full_ok_def line_of_def)
  moreover have "full_pos ?lines ?st = 0" "cur_line ?st = 1" "cur_column ?st = 0"
    using ne by (simp_all add: full_pos_def byte_at_position_def byte_of_column_0)
  ultimately have "covers v 0 (full_mappings (text_span_new v) ?index ?final
      (decode_mappings (map_mappings smap) @ [unmapped (info_line ?final) (info_column ?final)]) ?st) (length v)"
    using full_mappings_cover [where st = ?st, OF _ idx position_of_end [OF assms(1) False assms(2)]] assms(4)
    by (metis concat_lines)
  then have evs: "spells (full_mappings (text_span_new v) ?index ?final
      (decode_mappings (map_mappings smap) @ [unmapped (info_line ?final) (info_column ?final)]) ?st) v"
    by (simp add: covers_all)
  have events: "spells (source_events smap @ name_events smap) []"
    by (auto simp: spells_def source_events_def name_events_def stream_text_def list_all_iff)
  have t: "span_text (text_span_new v) = v" "is_known_ascii (text_span_new v) = False"
    by (simp_all add: text_span_new_def is_known_ascii_def)
  show ?thesis
    using spells_append [OF events evs] ne count last
    unfolding stream_chunks_of_source_map_full_def t Let_def by simp
qed

section \<open>Every tree\<close>

lemma utf8_char_width_table:
  "list_all (\<lambda>i. let b = of_nat i :: u8 in 0 < utf8_char_width b \<longrightarrow> char_width b = utf8_char_width b) [0..<256]"
  by code_simp

lemma utf8_char_width: "0 < utf8_char_width b \<Longrightarrow> char_width b = utf8_char_width b"
proof -
  have "unat b \<in> set [0..<256]" using unsigned_less [of b] by simp
  with utf8_char_width_table have "0 < utf8_char_width (of_nat (unat b)) \<longrightarrow>
      char_width (of_nat (unat b)) = utf8_char_width (of_nat (unat b) :: u8)"
    unfolding list_all_iff Let_def by blast
  then show "0 < utf8_char_width b \<Longrightarrow> char_width b = utf8_char_width b" by simp
qed

lemma second_byte_continues: "second_byte_ok b c \<Longrightarrow> is_continuation c"
  by (auto simp: second_byte_ok_def is_continuation_iff word_le_nat_alt word_less_nat_alt split: if_splits)

lemma valid_char:
  assumes "s \<noteq> []" "char_bytes s = utf8_char_width (hd s)"
  shows "one_char (take (char_bytes s) s)"
proof -
  obtain b bs where s: "s = b # bs" using assms(1) by (cases s) auto
  have pos: "0 < char_bytes s" "char_bytes s \<le> length s" by (auto simp: s char_bytes_def split: list.splits intro: le_trans [OF length_takeWhile_le])
  then have w: "char_width b = char_bytes s" using utf8_char_width [of b] assms(2) by (simp add: s)
  have "list_all is_continuation (take (char_bytes s - 1) bs)"
  proof (cases "utf8_char_width b \<le> 1")
    case True
    then show ?thesis using assms(2) s by simp
  next
    case False
    then obtain c cs where c: "bs = c # cs" "second_byte_ok b c"
      "char_bytes s = 2 + length (takeWhile is_continuation (take (utf8_char_width b - 2) cs))"
      using assms(2) by (auto simp: s char_bytes_def split: list.splits if_splits)
    have "takeWhile is_continuation (take (utf8_char_width b - 2) cs) = take (utf8_char_width b - 2) cs"
      using assms(2) c(3) takeWhile_eq_take [of is_continuation "take (utf8_char_width b - 2) cs"]
      by (metis diff_add_inverse list.sel(1) s length_take min.cobounded1 min.absorb2 take_all take_take)
    then have "list_all is_continuation (take (utf8_char_width b - 2) cs)"
      by (metis list_all_iff set_takeWhileD)
    moreover have "char_bytes s - 1 = Suc (utf8_char_width b - 2)" using assms(2) False by (simp add: s)
    ultimately show ?thesis using second_byte_continues [OF c(2)] by (simp add: c(1))
  qed
  then show ?thesis using pos w by (cases "char_bytes s") (auto simp: one_char_def s)
qed

lemma lossy_str_ok: "str_ok (from_utf8_lossy s)"
proof (induction s rule: from_utf8_lossy.induct)
  case (1 s)
  have r: "str_ok [0xEF, 0xBF, 0xBD]" by code_simp
  show ?case
  proof (cases "s = []")
    case False
    have "str_ok (take (char_bytes s) s)" if "char_bytes s = utf8_char_width (hd s)"
      using str_ok_one_char [OF valid_char [OF False that] str_ok_Nil] by simp
    with 1 [OF False] r str_ok_append False show ?thesis
      by (subst from_utf8_lossy.simps) auto
  qed (simp add: from_utf8_lossy.simps)
qed

text \<open>
  What streaming asks of a tree: texts are UTF-8, replacements cut at character boundaries, and a source map that is read
  by columns has its mappings in order.
\<close>

function streamable :: "bool \<Rightarrow> source \<Rightarrow> bool" where
  "streamable columns (RawStringSource s) = str_ok s"
| "streamable columns (RawBufferSource b) = True"
| "streamable columns (OriginalSource v name) = str_ok v"
| "streamable columns (SourceMapSource v name smap) =
     (str_ok v \<and> length v < 2 ^ 32 - 1
      \<and> (columns \<longrightarrow> in_position_order 1 0 (decode_mappings (map_mappings smap))))"
| "streamable columns (ConcatSource children optimized) =
     list_all (streamable columns) (optimized_children children optimized)"
| "streamable columns (ReplaceSource s rs) = (streamable columns s \<and> cuts (concat (rope s)) rs)"
  by pat_completeness auto
termination
  by (relation "measure (\<lambda>(columns, s). depth s)") (auto simp: child_depths list_all_iff simp del: depth.simps(1))

lemma those_spell:
  assumes "\<And>c. c \<in> set cs \<Longrightarrow> \<exists>evs info. f c = Some (evs, info) \<and> spells evs (g c)"
  shows "\<exists>ss. those (map f cs) = Some ss \<and> list_all2 (\<lambda>c t. spells (fst c) t) ss (map g cs)"
  using assms
proof (induction cs)
  case (Cons c cs)
  then obtain evs info ss where "f c = Some (evs, info)" "spells evs (g c)"
    "those (map f cs) = Some ss" "list_all2 (\<lambda>c t. spells (fst c) t) ss (map g cs)"
    by (metis list.set_intros)
  then show ?case by (intro exI [of _ "(evs, info) # ss"]) simp
qed simp

lemma spells_pair: "spells (fst x) t \<Longrightarrow> \<exists>evs. (\<exists>info. x = (evs, info)) \<and> spells evs t"
  by (cases x) simp

lemma stream_spells:
  assumes "scan_routine scan" "streamable columns s"
  shows "\<exists>evs info. stream_of scan \<lparr>opt_columns = columns, opt_final = False\<rparr> s = Some (evs, info)
    \<and> spells evs (concat (rope s))"
  using assms(2)
proof (induction columns s rule: streamable.induct)
  case (1 columns s)
  then show ?case by (auto intro!: spells_pair raw_spells)
next
  case (2 columns b)
  then show ?case by (auto intro!: spells_pair raw_spells lossy_str_ok)
next
  case (3 columns v name)
  then show ?case by (auto intro!: spells_pair original_spells)
next
  case (4 columns v name smap)
  then have "spells (fst (stream_chunks_of_source_map scan \<lparr>opt_columns = columns, opt_final = False\<rparr> (text_span_new v) smap)) v"
    using lines_full_spells [of v smap] full_spells [OF _ _ assms(1), of v smap]
    by (cases columns) (simp_all add: stream_chunks_of_source_map_def)
  then show ?case by (auto intro!: spells_pair)
next
  case (5 columns children optimized)
  let ?cs = "optimized_children children optimized" and ?options = "\<lparr>opt_columns = columns, opt_final = False\<rparr>"
  have "\<exists>evs info. stream_of scan ?options c = Some (evs, info) \<and> spells evs (concat (rope c))" if "c \<in> set ?cs" for c
    using 5 that by (auto simp: list_all_iff)
  from those_spell [of ?cs "stream_of scan ?options" "concat \<circ> rope"] this obtain ss where
    ss: "those (map (stream_of scan ?options) ?cs) = Some ss"
      "list_all2 (\<lambda>c t. spells (fst c) t) ss (map (concat \<circ> rope) ?cs)" by auto
  have "concat (map (concat \<circ> rope) cs) = concat (concat (map rope cs))" for cs by (induction cs) simp_all
  with stream_concat_spells [OF ss(2)] ss(1) show ?case
    by (cases "stream_concat False ss") simp
next
  case (6 columns s rs)
  then obtain evs info where s: "stream_of scan \<lparr>opt_columns = columns, opt_final = False\<rparr> s = Some (evs, info)"
    "spells evs (concat (rope s))" by auto
  from stream_replace_spells [OF s(2), of rs scan "is_original_source s" info] 6(2) s(1) show ?case
    by (auto simp: replace_rope_spells)
qed

text \<open>
  C38. Streaming.  For every tree of sources whose texts are UTF-8, whose replacements cut the texts they change at
  character boundaries and whose maps, when read by columns, list their mappings in order, the stream does not panic; every
  chunk has a text that starts at a character, and the chunks in order spell the text of the source, which the rope finds
  by other loops.  Mappings may lie outside the text or point anywhere.
\<close>

theorem stream_text_correct:
  assumes "scan_routine scan" "streamable columns s"
  shows "\<exists>evs info. stream_of scan \<lparr>opt_columns = columns, opt_final = False\<rparr> s = Some (evs, info)
    \<and> spells evs (concat (rope s))"
  by (rule stream_spells [OF assms])

definition sample_map :: source_map where
  "sample_map = \<lparr>map_version = 3, map_file = None, map_sources = [bytes ''a.js''], map_contents = [bytes ''x;''], map_names = [],
     map_mappings = bytes ''AAAA'', map_root = None, map_debug_id = None, map_ignore_list = None\<rparr>"

definition sample_tree :: source where
  "sample_tree = ConcatSource
     [RawStringSource (bytes ''one;''), RawBufferSource [0xC3, 0xA9, 0xFF],
      ReplaceSource (SourceMapSource [0x61, 0xC3, 0xA9, 0x0A, 0x62, 0x63] (bytes ''b.js'') sample_map)
        (replace_calls [(1, 3, bytes ''q'', None, Normal), (5, 9, [], None, Normal)])] None"

lemma sample_map_ordered: "in_position_order 1 0 (decode_mappings (map_mappings sample_map))"
  unfolding sample_map_def by code_simp

lemma sample_texts:
  "str_ok (bytes ''one;'')" "str_ok [0x61, 0xC3, 0xA9, 0x0A, 0x62, 0x63]"
  by code_simp+

lemma sample_cuts:
  "cuts [0x61, 0xC3, 0xA9, 0x0A, 0x62, 0x63] (replace_calls [(1, 3, bytes ''q'', None, Normal), (5, 9, [], None, Normal)])"
  by code_simp

lemma sample_tree_streamable: "streamable True sample_tree"
  by (simp add: sample_tree_def optimized_children_def optimize_def merge_raw_sources_def
      sample_map_ordered sample_texts sample_cuts [simplified])

theorem stream_text_correct_witness:
  "\<exists>evs info. stream_of scan_sse2 \<lparr>opt_columns = True, opt_final = False\<rparr> sample_tree = Some (evs, info)
    \<and> spells evs (concat (rope sample_tree))"
  using stream_text_correct [OF _ sample_tree_streamable, of scan_sse2] by (simp add: scan_routine_def)

end
