(* ===== verification/Spec2Isabelle.thy ===== *)
theory Spec2Isabelle
  imports Prelude Walk Stores Runtime_Spec Chunk Chunk_Group Chunk_Queries Chunk_Graph Chunk_Integration
    Rollback Module_Graph Module_Connections Module_Links Module_Machine
    Css_Syntax Css_Lexer Css_Tokens Css_Correct Css_Url Css_Text
    Storage_Fs Storage_Text Storage_Pack Storage_Bucket Storage_Db Storage_Main Storage_Disk Storage_Format Storage_Files Storage_Keep
    Storage_Save Storage_Open Storage_Commit Storage_Recover Storage_Safe Storage_Correct Storage_Tree Storage_Refresh Storage_Refine Storage_Agree
    Sources_Codec Sources_Round Sources_Text Sources_Index Sources_Lines Sources_Stream Sources_Replace Sources_Tree Sources_Splice
    Sources_Views Sources_Spell Sources_Mapped
begin

text \<open>
  A verification development of rspack, a bundler written in Rust.  The sources are under \<open>src/crates\<close>.

  \<^bold>\<open>The program.\<close>  A compilation makes a graph of modules whose edges are connections, one for each resolved
  dependency (\<open>rspack_core/src/module_graph\<close>).  The modules are put into chunks, chunks into chunk groups, and the chunk
  graph records which module is in which chunk (\<open>chunk.rs\<close>, \<open>chunk_group.rs\<close>, \<open>chunk_graph\<close>); optimisations then split and
  integrate chunks.  Every chunk and every query is relative to a set of runtimes (\<open>runtime.rs\<close>).  CSS modules are read with a
  tokenizer of their own (\<open>css-module-lexer\<close>).  What a compilation computed is kept on the disk for the next one by a
  storage with transactions (\<open>rspack_storage\<close>, over a file system of \<open>rspack_fs\<close>).  Generated code is put together from a tree of
  sources, which knows its text and its source map (\<open>rspack_sources\<close>).  The development has one group of theories for each of
  these six parts; they share \<open>Prelude\<close>, and \<open>Storage_Fs\<close> and \<open>Sources_Codec\<close> use the byte texts of \<open>Css_Syntax\<close>.

  \<^bold>\<open>Conventions.\<close>  The definitions keep the names of the source; a record has the fields of the struct with a prefix.  A
  panic is \<open>None\<close>, in the storage the outcome \<open>Panic\<close>; an error is \<open>Inl\<close> or \<open>Fail\<close>.  A \<open>Vec\<close> is a list, an \<open>IndexSet\<close> a list without
  duplicates, a \<open>HashSet\<close> a set, a \<open>HashMap\<close> a map (an association list or a \<open>mapping\<close> where the model must run).  The order in
  which a hash container is visited is an argument, and the theorems hold for every such order.  Database keys are 32-bit
  words, hashes 64-bit words, texts lists of bytes; a \<open>usize\<close> that counts things in memory is a natural number, and where the
  source can wrap the model does (\<open>wrap_u64\<close>).  Code that is not in the repository is an argument with its documented contract:
  \<open>memchr\<close> (\<open>memchr_ok\<close>), the \<open>FxHasher\<close> (\<open>rt_hash\<close>), the table of processes (\<open>pr_ps\<close>), the clock.  A theorem with hypotheses
  has a witness, at a concrete input, under its name with \<open>_witness\<close>.

  \<^bold>\<open>Runtimes\<close> (\<open>Runtime_Spec\<close>; \<open>runtime.rs\<close>).  A runtime specification is a set of names with the cached key it is compared by.
  Its operations keep the key in agreement with the names and compute the expected sets; equality of keys is equality of
  sets when no name is empty or has an underscore; conditions form an algebra; the map with its three storage modes is
  interpreted as a \<open>kv_store\<close> (\<open>Stores\<close>).

  \<^bold>\<open>Chunks\<close> (\<open>Walk\<close>, \<open>Chunk\<close>, \<open>Chunk_Group\<close>, \<open>Chunk_Queries\<close>, \<open>Chunk_Graph\<close>, \<open>Chunk_Integration\<close>).  \<open>Walk\<close> is the depth-first recursion
  that the queries of \<open>chunk.rs\<close> share, with its termination measure (the keys not yet visited) and the set it reaches.
  The queries return exactly what is reachable, on cyclic graphs too.  The chunk graph keeps three relations on both sides;
  \<open>link_store\<close> is their contract, with the operations of modules and of runtime modules as its two interpretations.
  Integrating two chunks moves everything of the second to the first, without a panic on consistent databases; that the
  entry relation is left one-sided, and what that leads to, is proved as well.  \<open>comparator\<close> is the contract of the comparison functions.

  \<^bold>\<open>The module graph\<close> (\<open>Rollback\<close>, \<open>Module_Graph\<close>, \<open>Module_Connections\<close>, \<open>Module_Links\<close>, \<open>Module_Machine\<close>).  The stores that can be
  taken back to a checkpoint are interpretations of \<open>checkpoint_store\<close>.  Over them the graph keeps the invariant \<open>links\<close>: a
  connection is listed by exactly the modules it joins.  Resolving, redirecting, moving and revoking connections keep it
  and change exactly what they name; \<open>Module_Machine\<close> runs any sequence of operations and shows what \<open>reset\<close> restores.

  \<^bold>\<open>The CSS tokenizer\<close> (\<open>Css_Syntax\<close>, \<open>Css_Lexer\<close>, \<open>Css_Tokens\<close>, \<open>Css_Correct\<close>, \<open>Css_Url\<close>, \<open>Css_Text\<close>).  \<open>next_token\<close> and all the scans it
  calls, at byte positions; a slice that is out of range or off a character boundary is a panic.  On every valid text the
  tokens tile the text, and the bulk searches compute what the loops over single bytes compute.  The loops have the bytes
  that are left as their measure.

  \<^bold>\<open>The storage\<close>, in the order of its layers.
  \<^item> \<open>Storage_Fs\<close>: the memory file system, its streams and \<open>ScopeFileSystem\<close>.  An operation is a function of the disk.  Every change
    of the disk takes a step of \<open>dk_steps\<close>, and when they are used up the process dies; so a statement about every number of
    steps is one about every moment of death.
  \<^item> \<open>Storage_Text\<close>, \<open>Storage_Pack\<close>, \<open>Storage_Bucket\<close>: the text functions the formats use, pack ids and files, Bloom filters and indexes,
    the generator of packs; the metadata of a bucket, opening, loading and saving it.
  \<^item> \<open>Storage_Db\<close>: the lock files, the two-phase commit with its recovery, the database.
  \<^item> \<open>Storage_Main\<close>: \<open>FileSystemStorage\<close> with its background worker and the maintenance of old caches, and \<open>MemoryStorage\<close>.
  \<^item> \<open>Storage_Disk\<close> has the calculus \<open>gives\<close> for operations that may die; \<open>Storage_Format\<close>, \<open>Storage_Files\<close> and \<open>Storage_Open\<close> show that what is
    written is read back; \<open>Storage_Keep\<close> and \<open>Storage_Save\<close> what saving a bucket stages, for which a bucket is the multiset of its
    entries; \<open>Storage_Commit\<close> and \<open>Storage_Recover\<close> that executing a commit from any intermediate state reaches the same contents;
    \<open>Storage_Safe\<close> and \<open>Storage_Correct\<close> that a save is atomic.
  \<^item> \<open>Storage_Tree\<close> has \<open>file_system_invariant\<close>, the interface between the file system and the storage: what the five changing
    operations of the file system keep, every operation of the storage keeps on every outcome; it is interpreted with the
    tree of nodes.  \<open>Storage_Refresh\<close> shows that the maintenance stays outside the cache in use, \<open>Storage_Refine\<close> that the storage
    refines a specification by maps, \<open>Storage_Agree\<close> that it agrees with \<open>MemoryStorage\<close>.

  \<^bold>\<open>The sources\<close> (\<open>rspack_sources\<close>).
  \<^item> \<open>Sources_Codec\<close>: the encoders and the decoder of mappings (\<open>encoder.rs\<close>, \<open>decoder.rs\<close>); \<open>Sources_Round\<close> shows that decoding gives
    back what the encoded mappings say about every position.
  \<^item> \<open>Sources_Text\<close>, \<open>Sources_Index\<close>: the text spans, lines and tokens of \<open>helpers.rs\<close>, the line index of \<open>line_index.rs\<close>;
    \<open>Sources_Lines\<close> shows that both scans build the index of the lines and that its slices are those of the characters.
  \<^item> \<open>Sources_Stream\<close>, \<open>Sources_Replace\<close>, \<open>Sources_Tree\<close>: a source streams its text in chunks with mappings.  The callbacks of the
    code are a list of events, and a source that wraps another folds its state over the events of the inner stream.
  \<^item> \<open>Sources_Splice\<close>: the text of a replaced source is that of a reference which walks over the inner text byte by byte, and
    the size is its length.
  \<^item> \<open>Sources_Views\<close>: the other ways to read a source (\<open>source\<close>, \<open>buffer\<close>, \<open>to_writer\<close>) give that text, and a concatenation has the
    text of what was added to it.  \<open>Sources_Spell\<close> relates the stream of a replaced source to its rope by a simulation, and
    \<open>Sources_Mapped\<close> follows the streams that are driven by a source map; together the chunks of a stream spell the text.

  \<^bold>\<open>Bounds.\<close>  No loop of the model has fuel: each is structural or has a proved measure.  A run of the storage has fewer than
  2^31 operations, which keeps the pack ids below 2^64 (a save allocates at most one id for each entry of a bucket, and a
  run adds at most one key with each operation).  The clock and the expiry add up to less than 2^64.  Bucket names are
  visible ASCII without a slash, not hidden and not the names of lock files; the compiler uses fixed names of this form.  Byte
  offsets of sources are natural numbers: a text is shorter than 4 GiB, as the code assumes; lines and columns are 32-bit words.

  \<^bold>\<open>Not modelled.\<close>
  \<^item> Of the storage: parallel writes and tasks are sequences in an order that is an argument; a task of the worker is one step, so
    a load does not fall between the two halves of a reset.  Listing directories (\<open>read_dir\<close>, \<open>bucket_names\<close>, \<open>scopes\<close>) only
    reads; the detached cleanup of \<open>_stale\<close> only deletes there.  The native file system is I/O; unlike the model's it does not
    write a file at once, so the atomicity of a save holds on it only as far as a flush does.
  \<^item> Of the graphs: exports info and the export usage of modules, runtime requirements, hashes, and the parallel iterators.
  \<^item> Of the tokenizer's crate: the dependency parser on top of the tokens.
  \<^item> Of the sources: \<open>CachedSource\<close>, whose caches hold what the operations modelled here return; source maps with an inner source
    map; JSON; \<open>check_original_content\<close> keeps the index it builds, here it is built again at each check.
  \<^item> Building the chunk graph (\<open>build_chunk_graph\<close>), module concatenation, code generation, the plugins, the JavaScript parser,
    loaders, the resolver, the watcher and the bindings; the manifest lists them with reasons.

  \<^bold>\<open>Next.\<close>  The chunk splitting plugin over the chunk graph, the exports info with its export usage, and the build of the chunk
  graph from the blocks of modules, which would put the graph operations modelled here into sequence.
\<close>

end
